(* ===== verification/Hiroz_Prelude.thy ===== *)
theory Hiroz_Prelude
  imports Main "HOL-Library.Word"
begin

text \<open>
  Shared ground of the development: the outcome type of Rust computations, machine integer
  and byte synonyms, byte order conversion, and the string operations of the Rust standard
  library that several components use (splitting, stripping, decimal numbers, UTF-8).
\<close>

unbundle bit_operations_syntax

section \<open>Outcomes of Rust computations\<close>

text \<open>
  A Rust function either returns a value, returns an error, or panics. The error type is a
  parameter, so a computation that never fails composes with any other.
\<close>

datatype ('a, 'e) res = Ok 'a | Err 'e | Panic

fun res_bind :: "('a, 'e) res \<Rightarrow> ('a \<Rightarrow> ('b, 'e) res) \<Rightarrow> ('b, 'e) res" where
  "res_bind (Ok a) k = k a"
| "res_bind (Err e) k = Err e"
| "res_bind Panic k = Panic"

fun res_map :: "('a \<Rightarrow> 'b) \<Rightarrow> ('a, 'e) res \<Rightarrow> ('b, 'e) res" where
  "res_map f (Ok a) = Ok (f a)"
| "res_map f (Err e) = Err e"
| "res_map f Panic = Panic"

fun map_err :: "('e \<Rightarrow> 'f) \<Rightarrow> ('a, 'e) res \<Rightarrow> ('a, 'f) res" where
  "map_err f (Ok a) = Ok a"
| "map_err f (Err e) = Err (f e)"
| "map_err f Panic = Panic"

fun is_ok :: "('a, 'e) res \<Rightarrow> bool" where
  "is_ok (Ok a) = True"
| "is_ok (Err e) = False"
| "is_ok Panic = False"

lemma res_bind_eq_Ok [simp]:
  "res_bind m k = Ok b \<longleftrightarrow> (\<exists>a. m = Ok a \<and> k a = Ok b)"
  by (cases m) auto

lemma res_bind_cong [fundef_cong]:
  "m = m' \<Longrightarrow> (\<And>a. m' = Ok a \<Longrightarrow> k a = k' a) \<Longrightarrow> res_bind m k = res_bind m' k'"
  by (cases m') auto

lemma is_ok_iff: "is_ok m \<longleftrightarrow> (\<exists>a. m = Ok a)"
  by (cases m) auto

text \<open>\<open>for x in xs { f(x)?; }\<close> over a state.\<close>

fun res_fold :: "('s \<Rightarrow> 'a \<Rightarrow> ('s, 'e) res) \<Rightarrow> 's \<Rightarrow> 'a list \<Rightarrow> ('s, 'e) res" where
  "res_fold f s [] = Ok s"
| "res_fold f s (x # xs) = res_bind (f s x) (\<lambda>s'. res_fold f s' xs)"

lemma res_fold_cong [fundef_cong]:
  assumes "s = s'" and "xs = ys" and "\<And>t x. x \<in> set ys \<Longrightarrow> f t x = g t x"
  shows "res_fold f s xs = res_fold g s' ys"
  using assms
proof (induction ys arbitrary: s s' xs)
  case Nil
  then show ?case by simp
next
  case (Cons y ys)
  then have "res_fold f t ys = res_fold g t ys" for t
    by (meson list.set_intros(2))
  with Cons.prems show ?case by simp
qed

lemma res_fold_map: "res_fold f w (map g xs) = res_fold (\<lambda>u x. f u (g x)) w xs"
  by (induction xs arbitrary: w) simp_all

section \<open>Machine integers and byte order\<close>

type_synonym u8 = "8 word"
type_synonym u16 = "16 word"
type_synonym u32 = "32 word"
type_synonym u64 = "64 word"
type_synonym u128 = "128 word"
type_synonym bytes = "8 word list"

text \<open>
  Signed integers are the same words read with \<open>sint\<close>; floating point numbers are
  their IEEE bit patterns. \<open>le_bytes n w\<close> is the little-endian byte list of \<open>w\<close>.
\<close>

fun le_bytes :: "nat \<Rightarrow> 'a::len word \<Rightarrow> bytes" where
  "le_bytes 0 w = []"
| "le_bytes (Suc n) w = ucast w # le_bytes n (drop_bit 8 w)"

fun of_le_bytes :: "bytes \<Rightarrow> 'a::len word" where
  "of_le_bytes [] = 0"
| "of_le_bytes (b # bs) = ucast b OR push_bit 8 (of_le_bytes bs)"

lemma le_bytes_4: "le_bytes 4 w = [ucast w, ucast (drop_bit 8 w), ucast (drop_bit 16 w), ucast (drop_bit 24 w)]"
proof -
  have "le_bytes (Suc (Suc (Suc (Suc 0)))) w = [ucast w, ucast (drop_bit 8 w), ucast (drop_bit 16 w), ucast (drop_bit 24 w)]"
    by simp
  then show ?thesis by (simp add: eval_nat_numeral)
qed

lemma length_le_bytes [simp]: "length (le_bytes n w) = n"
  by (induction n arbitrary: w) auto

lemma of_le_bytes_step:
  fixes w :: "'a::len word"
  shows "ucast (ucast w :: u8) OR push_bit 8 (take_bit (8 * n) (drop_bit 8 w)) =
         take_bit (8 * Suc n) w"
proof (rule bit_word_eqI)
  fix i assume "i < LENGTH('a)"
  then show "bit (ucast (ucast w :: u8) OR push_bit 8 (take_bit (8 * n) (drop_bit 8 w)) :: 'a word) i =
             bit (take_bit (8 * Suc n) w) i"
    by (cases "i < 8") (auto simp: bit_simps)
qed

lemma of_le_bytes_le_bytes: "of_le_bytes (le_bytes n w) = take_bit (8 * n) w"
proof (induction n arbitrary: w)
  case 0
  then show ?case by simp
next
  case (Suc n)
  then show ?case
    using of_le_bytes_step [of w n] by simp
qed

lemma of_le_bytes_inverse:
  fixes w :: "'a::len word"
  assumes "LENGTH('a) \<le> 8 * n"
  shows "of_le_bytes (le_bytes n w) = w"
  using assms by (simp add: of_le_bytes_le_bytes take_bit_word_eq_self)

text \<open>The two byte orders of the \<open>byteorder\<close> crate's \<open>ByteOrder\<close> trait.\<close>

datatype byte_order = LittleEndian | BigEndian

definition bo_bytes :: "byte_order \<Rightarrow> nat \<Rightarrow> 'a::len word \<Rightarrow> bytes" where
  "bo_bytes bo n w = (case bo of LittleEndian \<Rightarrow> le_bytes n w | BigEndian \<Rightarrow> rev (le_bytes n w))"

definition bo_value :: "byte_order \<Rightarrow> bytes \<Rightarrow> 'a::len word" where
  "bo_value bo bs = (case bo of LittleEndian \<Rightarrow> of_le_bytes bs | BigEndian \<Rightarrow> of_le_bytes (rev bs))"

lemma length_bo_bytes [simp]: "length (bo_bytes bo n w) = n"
  by (simp add: bo_bytes_def split: byte_order.split)

lemma bo_value_bo_bytes:
  fixes w :: "'a::len word"
  assumes "LENGTH('a) \<le> 8 * n"
  shows "bo_value bo (bo_bytes bo n w) = w"
  using assms
  by (simp add: bo_value_def bo_bytes_def of_le_bytes_inverse split: byte_order.split)

lemmas bo_value_bo_bytes_widths [simp] =
  bo_value_bo_bytes [where 'a = 16 and n = 2, simplified]
  bo_value_bo_bytes [where 'a = 32 and n = 4, simplified]
  bo_value_bo_bytes [where 'a = 64 and n = 8, simplified]
  bo_value_bo_bytes [where 'a = 128 and n = 16, simplified]

section \<open>Strings\<close>

text \<open>
  Text that the code only compares and splits is \<open>string\<close>; text that goes on the wire is
  its UTF-8 byte list. \<open>utf8_valid\<close> is the check of \<open>std::str::from_utf8\<close>: the byte
  sequences of the well-formed table of the Unicode standard.
\<close>

definition utf8_cont :: "u8 \<Rightarrow> bool" where
  "utf8_cont b \<longleftrightarrow> 0x80 \<le> b \<and> b \<le> 0xBF"

fun utf8_valid :: "bytes \<Rightarrow> bool" where
  "utf8_valid [] = True"
| "utf8_valid (a # bs) =
     (if a \<le> 0x7F then utf8_valid bs
      else if 0xC2 \<le> a \<and> a \<le> 0xDF then
        (case bs of b # r \<Rightarrow> utf8_cont b \<and> utf8_valid r | _ \<Rightarrow> False)
      else if 0xE0 \<le> a \<and> a \<le> 0xEF then
        (case bs of b # c # r \<Rightarrow>
             (if a = 0xE0 then 0xA0 \<le> b \<and> b \<le> 0xBF
              else if a = 0xED then 0x80 \<le> b \<and> b \<le> 0x9F else utf8_cont b)
             \<and> utf8_cont c \<and> utf8_valid r
         | _ \<Rightarrow> False)
      else if 0xF0 \<le> a \<and> a \<le> 0xF4 then
        (case bs of b # c # d # r \<Rightarrow>
             (if a = 0xF0 then 0x90 \<le> b \<and> b \<le> 0xBF
              else if a = 0xF4 then 0x80 \<le> b \<and> b \<le> 0x8F else utf8_cont b)
             \<and> utf8_cont c \<and> utf8_cont d \<and> utf8_valid r
         | _ \<Rightarrow> False)
      else False)"

text \<open>\<open>str::split(c)\<close>: the pieces between separators, at least one.\<close>

fun split_on :: "char \<Rightarrow> string \<Rightarrow> string list" where
  "split_on c [] = [[]]"
| "split_on c (x # xs) =
     (if x = c then [] # split_on c xs
      else (case split_on c xs of [] \<Rightarrow> [[x]] | p # ps \<Rightarrow> (x # p) # ps))"

fun join_with :: "char \<Rightarrow> string list \<Rightarrow> string" where
  "join_with c [] = []"
| "join_with c [p] = p"
| "join_with c (p # q # ps) = p @ c # join_with c (q # ps)"

lemma split_on_nonempty [simp]: "split_on c s \<noteq> []"
  by (induction s) (auto split: list.splits)

lemma split_on_no_sep: "p \<in> set (split_on c s) \<Longrightarrow> c \<notin> set p"
  by (induction s arbitrary: p) (auto split: list.splits if_splits)

lemma join_split_on: "join_with c (split_on c s) = s"
proof (induction s)
  case Nil
  then show ?case by simp
next
  case (Cons x xs)
  obtain p ps where "split_on c xs = p # ps"
    by (metis split_on_nonempty list.exhaust)
  with Cons show ?case by (cases ps) auto
qed

lemma split_on_sep_free: "c \<notin> set p \<Longrightarrow> split_on c p = [p]"
  by (induction p) auto

lemma split_on_append_sep:
  "c \<notin> set p \<Longrightarrow> split_on c (p @ c # s) = p # split_on c s"
  by (induction p) auto

lemma split_on_append: "split_on c (a @ c # b) = split_on c a @ split_on c b"
proof (induction a)
  case (Cons x xs)
  obtain p ps where "split_on c xs = p # ps" by (metis split_on_nonempty list.exhaust)
  with Cons show ?case by simp
qed simp

lemma split_on_join:
  "ps \<noteq> [] \<Longrightarrow> (\<And>p. p \<in> set ps \<Longrightarrow> c \<notin> set p) \<Longrightarrow> split_on c (join_with c ps) = ps"
  by (induction c ps rule: join_with.induct) (auto simp: split_on_sep_free split_on_append_sep)

text \<open>\<open>str::split_once(c)\<close>.\<close>

fun split_once :: "char \<Rightarrow> string \<Rightarrow> (string \<times> string) option" where
  "split_once c [] = None"
| "split_once c (x # xs) =
     (if x = c then Some ([], xs) else map_option (\<lambda>(a, b). (x # a, b)) (split_once c xs))"

lemma split_once_append: "c \<notin> set a \<Longrightarrow> split_once c (a @ c # b) = Some (a, b)"
  by (induction a) auto

text \<open>\<open>strip_prefix\<close>/\<open>strip_suffix\<close> with a character, and with \<open>unwrap_or(s)\<close>.\<close>

definition strip_prefix_char :: "char \<Rightarrow> string \<Rightarrow> string option" where
  "strip_prefix_char c s = (case s of x # xs \<Rightarrow> if x = c then Some xs else None | [] \<Rightarrow> None)"

definition strip_suffix_char :: "char \<Rightarrow> string \<Rightarrow> string option" where
  "strip_suffix_char c s = (if s \<noteq> [] \<and> last s = c then Some (butlast s) else None)"

definition strip_suffix_str :: "string \<Rightarrow> string \<Rightarrow> string option" where
  "strip_suffix_str suf s =
     (if length suf \<le> length s \<and> drop (length s - length suf) s = suf
      then Some (take (length s - length suf) s) else None)"

definition strip_prefix_str :: "string \<Rightarrow> string \<Rightarrow> string option" where
  "strip_prefix_str pre s =
     (if length pre \<le> length s \<and> take (length pre) s = pre then Some (drop (length pre) s) else None)"

definition unwrap_or :: "'a option \<Rightarrow> 'a \<Rightarrow> 'a" where
  "unwrap_or m d = (case m of Some x \<Rightarrow> x | None \<Rightarrow> d)"

lemma unwrap_or_simps [simp]: "unwrap_or (Some x) d = x" "unwrap_or None d = d"
  by (simp_all add: unwrap_or_def)

lemma strip_suffix_str_append [simp]: "strip_suffix_str suf (s @ suf) = Some s"
  by (simp add: strip_suffix_str_def)

lemma strip_suffix_str_Some: "strip_suffix_str suf s = Some b \<Longrightarrow> s = b @ suf"
  by (auto simp: strip_suffix_str_def split: if_splits)
     (metis append_take_drop_id)

lemma strip_prefix_str_append [simp]: "strip_prefix_str pre (pre @ s) = Some s"
  by (simp add: strip_prefix_str_def)

section \<open>Decimal numbers\<close>

text \<open>
  \<open>format!("{n}")\<close> on an unsigned integer, and \<open>str::parse\<close> for an unsigned type with
  the given greatest value: an optional \<open>+\<close>, then at least one digit, an error on
  overflow.
\<close>

definition digit_char :: "nat \<Rightarrow> char" where
  "digit_char d = char_of (48 + d)"

definition digit_val :: "char \<Rightarrow> nat option" where
  "digit_val c = (let n = of_char c :: nat in if 48 \<le> n \<and> n \<le> 57 then Some (n - 48) else None)"

fun show_nat :: "nat \<Rightarrow> string" where
  "show_nat n = (if n < 10 then [digit_char n] else show_nat (n div 10) @ [digit_char (n mod 10)])"

declare show_nat.simps [simp del]

fun parse_digits :: "nat \<Rightarrow> string \<Rightarrow> nat option" where
  "parse_digits acc [] = Some acc"
| "parse_digits acc (c # cs) =
     (case digit_val c of None \<Rightarrow> None | Some d \<Rightarrow> parse_digits (acc * 10 + d) cs)"

definition parse_uint :: "nat \<Rightarrow> string \<Rightarrow> nat option" where
  "parse_uint max_value s =
     (let ds = (case s of c # cs \<Rightarrow> if c = CHR ''+'' then cs else s | [] \<Rightarrow> [])
      in if ds = [] then None
         else (case parse_digits 0 ds of
                 None \<Rightarrow> None
               | Some n \<Rightarrow> if n \<le> max_value then Some n else None))"

definition is_digit :: "char \<Rightarrow> bool" where
  "is_digit c \<longleftrightarrow> digit_val c \<noteq> None"

lemma digit_val_digit_char [simp]: "d < 10 \<Longrightarrow> digit_val (digit_char d) = Some d"
  by (simp add: digit_val_def digit_char_def)

lemma show_nat_digits: "c \<in> set (show_nat n) \<Longrightarrow> is_digit c"
proof (induction n rule: show_nat.induct)
  case (1 n)
  then show ?case
    by (subst (asm) (2) show_nat.simps) (auto simp: is_digit_def split: if_splits)
qed

lemma show_nat_nonempty [simp]: "show_nat n \<noteq> []"
  by (subst show_nat.simps) simp

lemma show_nat_no_sep:
  "\<not> is_digit c \<Longrightarrow> c \<notin> set (show_nat n)"
  using show_nat_digits by blast

lemma not_digit_seps [simp]:
  "\<not> is_digit CHR ''/''" "\<not> is_digit CHR '',''" "\<not> is_digit CHR '':''" "\<not> is_digit CHR ''+''"
  "\<not> is_digit CHR ''%''"
  by (simp_all add: is_digit_def digit_val_def)

lemma parse_digits_append:
  "parse_digits acc (xs @ ys) =
     (case parse_digits acc xs of None \<Rightarrow> None | Some a \<Rightarrow> parse_digits a ys)"
  by (induction xs arbitrary: acc) (auto split: option.split)

lemma parse_digits_show_nat: "parse_digits 0 (show_nat n) = Some n"
proof (induction n rule: show_nat.induct)
  case (1 n)
  then show ?case
    by (subst show_nat.simps) (auto simp: parse_digits_append)
qed

lemma parse_uint_show_nat: "n \<le> m \<Longrightarrow> parse_uint m (show_nat n) = Some n"
proof -
  assume le: "n \<le> m"
  obtain c cs where s: "show_nat n = c # cs"
    by (meson list.exhaust show_nat_nonempty)
  then have "c \<noteq> CHR ''+''"
    using show_nat_no_sep [of "CHR ''+''" n] by auto
  with s le parse_digits_show_nat [of n] show ?thesis
    by (simp add: parse_uint_def)
qed

lemma show_nat_inj: "show_nat n = show_nat m \<Longrightarrow> n = m"
  by (metis parse_digits_show_nat option.inject)

section \<open>Iterators\<close>

text \<open>\<open>Iterator::position\<close>: the index of the first element that satisfies the predicate.\<close>

fun position :: "('a \<Rightarrow> bool) \<Rightarrow> 'a list \<Rightarrow> nat option" where
  "position P [] = None"
| "position P (x # xs) = (if P x then Some 0 else map_option Suc (position P xs))"

lemma position_Some_iff:
  "position P xs = Some i \<longleftrightarrow> i < length xs \<and> P (xs ! i) \<and> (\<forall>j < i. \<not> P (xs ! j))"
proof (induction xs arbitrary: i)
  case Nil
  then show ?case by simp
next
  case (Cons x xs)
  show ?case
    by (cases i) (auto simp: Cons.IH All_less_Suc2)
qed

lemma position_None_iff: "position P xs = None \<longleftrightarrow> (\<forall>x \<in> set xs. \<not> P x)"
  by (induction xs) auto

lemma position_less: "position P xs = Some i \<Longrightarrow> i < length xs"
  by (simp add: position_Some_iff)

lemma list_all_zipD:
  assumes "list_all (\<lambda>(x, y). P x y) (zip xs ys)" and "(x, y) \<in> set (zip xs ys)"
  shows "x \<in> set xs" and "P x y"
  using assms by (auto simp: list_all_iff dest: set_zip_leftD)

end
