(* ===== verification/Cdr_Buffer.thy ===== *)
theory Cdr_Buffer
  imports Hiroz_Prelude
begin

text \<open>
  The output side of the CDR crate: \<open>crates/hiroz-cdr/src/buffer.rs\<close> (trait
  \<open>CdrBuffer\<close> and its \<open>Vec<u8>\<close> implementation) and \<open>zbuf_writer.rs\<close>
  (\<open>ZBufWriter\<close>). The trait is a record of operations, the contract every
  implementation keeps is the locale \<open>cdr_buffer_laws\<close>, and both implementations
  interpret it. \<open>ZBuf\<close> itself belongs to the \<open>zenoh_buffers\<close> crate: its operations are
  a record argument and what the code relies on is the locale \<open>zbuf_lib\<close>.
\<close>

section \<open>The trait and its contract\<close>

record 'b cdr_buffer =
  cb_extend_from_slice :: "'b \<Rightarrow> bytes \<Rightarrow> 'b"
  cb_push :: "'b \<Rightarrow> u8 \<Rightarrow> 'b"
  cb_len :: "'b \<Rightarrow> nat"
  cb_clear :: "'b \<Rightarrow> 'b"

definition cb_is_empty :: "'b cdr_buffer \<Rightarrow> 'b \<Rightarrow> bool" where
  "cb_is_empty B b \<longleftrightarrow> cb_len B b = 0"

text \<open>
  \<open>contents\<close> is the byte sequence a buffer stands for and \<open>invar\<close> its representation
  invariant.
\<close>

locale cdr_buffer_laws =
  fixes B :: "'b cdr_buffer"
    and contents :: "'b \<Rightarrow> bytes"
    and invar :: "'b \<Rightarrow> bool"
  assumes contents_extend: "invar b \<Longrightarrow> contents (cb_extend_from_slice B b d) = contents b @ d"
    and contents_push: "invar b \<Longrightarrow> contents (cb_push B b x) = contents b @ [x]"
    and len_contents: "invar b \<Longrightarrow> cb_len B b = length (contents b)"
    and contents_clear: "contents (cb_clear B b) = []"
    and invar_extend: "invar b \<Longrightarrow> invar (cb_extend_from_slice B b d)"
    and invar_push: "invar b \<Longrightarrow> invar (cb_push B b x)"
    and invar_clear: "invar (cb_clear B b)"
begin

lemmas buffer_laws = contents_extend contents_push len_contents contents_clear
  invar_extend invar_push invar_clear

lemma is_empty_iff: "invar b \<Longrightarrow> cb_is_empty B b \<longleftrightarrow> contents b = []"
  by (simp add: cb_is_empty_def buffer_laws)

end

section \<open>\<open>Vec<u8>\<close>\<close>

definition vec_buffer :: "bytes cdr_buffer" where
  "vec_buffer = \<lparr>cb_extend_from_slice = (\<lambda>b d. b @ d), cb_push = (\<lambda>b x. b @ [x]),
                 cb_len = length, cb_clear = (\<lambda>_. [])\<rparr>"

lemma vec_buffer_simps [simp]:
  "cb_extend_from_slice vec_buffer b d = b @ d"
  "cb_push vec_buffer b x = b @ [x]"
  "cb_len vec_buffer b = length b"
  "cb_clear vec_buffer b = []"
  by (simp_all add: vec_buffer_def)

interpretation vecb: cdr_buffer_laws vec_buffer "\<lambda>b. b" "\<lambda>_. True"
  by unfold_locales simp_all

text \<open>
  \<open>reserve_4k\<close> of \<open>Vec<u8>\<close>: the argument of the \<open>reserve\<close> call, if one is made, from the
  current length, the current capacity and the wanted total. The addition is on \<open>usize\<close>.
\<close>

definition align_4k :: u64 where
  "align_4k = 0xfff"

definition round_up_4k :: "u64 \<Rightarrow> u64" where
  "round_up_4k needed_total = (needed_total + align_4k) AND NOT align_4k"

definition vec_reserve_4k :: "u64 \<Rightarrow> u64 \<Rightarrow> u64 \<Rightarrow> u64 option" where
  "vec_reserve_4k len current_cap needed_total =
     (if current_cap < needed_total then Some (round_up_4k needed_total - len) else None)"

lemma clear_low_12: "(m :: u64) AND NOT (mask 12) = push_bit 12 (drop_bit 12 m)"
  by (auto intro!: bit_eqI simp: bit_simps)

lemma align_4k_mask: "align_4k = mask 12"
  by (simp add: align_4k_def mask_eq_exp_minus_1)

lemma round_up_4k_unat:
  assumes "unat n + 0xfff < 2 ^ 64"
  shows "unat (round_up_4k n) = (unat n + 0xfff) div 4096 * 4096"
proof -
  let ?k = "unat n + 0xfff"
  have sum: "unat (n + mask 12) = ?k"
    using assms by (simp add: unat_word_ariths mask_eq_exp_minus_1)
  have "?k div 4096 * 4096 < 2 ^ 64"
    using assms div_times_less_eq_dividend [of ?k 4096] by linarith
  then show ?thesis
    by (simp add: round_up_4k_def align_4k_mask clear_low_12 push_bit_eq_mult drop_bit_eq_div
        unat_word_ariths(2) unat_div sum)
qed

section \<open>\<open>ZBuf\<close> and \<open>ZBufWriter\<close>\<close>

record 'z zbuf_ops =
  z_empty :: 'z
  z_push_zslice :: "'z \<Rightarrow> bytes \<Rightarrow> 'z"
  z_zslices :: "'z \<Rightarrow> bytes list"
  z_clear :: "'z \<Rightarrow> 'z"

text \<open>
  What the writer relies on: a new or cleared \<open>ZBuf\<close> holds no bytes and pushing a slice
  appends its bytes.
\<close>

locale zbuf_lib =
  fixes Z :: "'z zbuf_ops"
  assumes z_empty_bytes: "concat (z_zslices Z (z_empty Z)) = []"
    and z_push_bytes: "concat (z_zslices Z (z_push_zslice Z z s)) = concat (z_zslices Z z) @ s"
    and z_clear_bytes: "concat (z_zslices Z (z_clear Z z)) = []"

record 'z zbuf_writer =
  zw_zbuf :: 'z
  zw_current :: bytes
  zw_total_len :: nat

definition zw_new :: "'z zbuf_ops \<Rightarrow> 'z zbuf_writer" where
  "zw_new Z = \<lparr>zw_zbuf = z_empty Z, zw_current = [], zw_total_len = 0\<rparr>"

definition zw_flush_current :: "'z zbuf_ops \<Rightarrow> 'z zbuf_writer \<Rightarrow> 'z zbuf_writer" where
  "zw_flush_current Z w =
     (if zw_current w \<noteq> []
      then w\<lparr>zw_current := [], zw_zbuf := z_push_zslice Z (zw_zbuf w) (zw_current w)\<rparr> else w)"

definition zw_append_zslice :: "'z zbuf_ops \<Rightarrow> 'z zbuf_writer \<Rightarrow> bytes \<Rightarrow> 'z zbuf_writer" where
  "zw_append_zslice Z w zs =
     (let w1 = zw_flush_current Z w
      in w1\<lparr>zw_zbuf := z_push_zslice Z (zw_zbuf w1) zs,
            zw_total_len := zw_total_len w1 + length zs\<rparr>)"

definition zw_into_zbuf :: "'z zbuf_ops \<Rightarrow> 'z zbuf_writer \<Rightarrow> 'z" where
  "zw_into_zbuf Z w = zw_zbuf (zw_flush_current Z w)"

definition zw_append_zbuf :: "'z zbuf_ops \<Rightarrow> 'z zbuf_writer \<Rightarrow> 'z \<Rightarrow> 'z zbuf_writer" where
  "zw_append_zbuf Z w z = foldl (zw_append_zslice Z) w (z_zslices Z z)"

definition zw_buffer :: "'z zbuf_ops \<Rightarrow> 'z zbuf_writer cdr_buffer" where
  "zw_buffer Z =
     \<lparr>cb_extend_from_slice = (\<lambda>w d. w\<lparr>zw_current := zw_current w @ d,
                                      zw_total_len := zw_total_len w + length d\<rparr>),
      cb_push = (\<lambda>w x. w\<lparr>zw_current := zw_current w @ [x], zw_total_len := zw_total_len w + 1\<rparr>),
      cb_len = zw_total_len,
      cb_clear = (\<lambda>w. w\<lparr>zw_zbuf := z_clear Z (zw_zbuf w), zw_current := [], zw_total_len := 0\<rparr>)\<rparr>"

text \<open>The bytes a writer stands for, and the length counter it keeps.\<close>

definition zw_contents :: "'z zbuf_ops \<Rightarrow> 'z zbuf_writer \<Rightarrow> bytes" where
  "zw_contents Z w = concat (z_zslices Z (zw_zbuf w)) @ zw_current w"

definition zw_invar :: "'z zbuf_ops \<Rightarrow> 'z zbuf_writer \<Rightarrow> bool" where
  "zw_invar Z w \<longleftrightarrow> zw_total_len w = length (zw_contents Z w)"

lemmas zw_defs = zw_contents_def zw_invar_def zw_buffer_def

sublocale zbuf_lib \<subseteq> zwb: cdr_buffer_laws "zw_buffer Z" "zw_contents Z" "zw_invar Z"
  by unfold_locales (auto simp: zw_defs z_clear_bytes)

context zbuf_lib
begin

lemma zw_new_correct: "zw_contents Z (zw_new Z) = []" "zw_invar Z (zw_new Z)"
  by (simp_all add: zw_defs zw_new_def z_empty_bytes)

lemma zw_flush_contents: "zw_contents Z (zw_flush_current Z w) = zw_contents Z w"
  by (simp add: zw_defs zw_flush_current_def z_push_bytes)

lemma zw_flush_current_empty: "zw_current (zw_flush_current Z w) = []"
  by (simp add: zw_flush_current_def)

lemma zw_flush_invar: "zw_invar Z w \<Longrightarrow> zw_invar Z (zw_flush_current Z w)"
  by (simp add: zw_defs zw_flush_current_def z_push_bytes)

lemma zw_append_zslice_contents:
  "zw_contents Z (zw_append_zslice Z w s) = zw_contents Z w @ s"
  using zw_flush_contents [of w] zw_flush_current_empty [of w]
  by (simp add: zw_contents_def zw_append_zslice_def Let_def z_push_bytes)

lemma zw_append_zslice_invar: "zw_invar Z w \<Longrightarrow> zw_invar Z (zw_append_zslice Z w s)"
  using zw_flush_invar [of w] zw_append_zslice_contents [of w s] zw_flush_contents [of w]
  by (simp add: zw_invar_def zw_append_zslice_def Let_def)

lemma zw_append_slices:
  assumes "zw_invar Z w"
  shows "zw_contents Z (foldl (zw_append_zslice Z) w ss) = zw_contents Z w @ concat ss
         \<and> zw_invar Z (foldl (zw_append_zslice Z) w ss)"
  using assms
  by (induction ss arbitrary: w) (simp_all add: zw_append_zslice_contents zw_append_zslice_invar)

lemma zw_append_zbuf_correct:
  assumes "zw_invar Z w"
  shows "zw_contents Z (zw_append_zbuf Z w z) = zw_contents Z w @ concat (z_zslices Z z)"
    and "zw_invar Z (zw_append_zbuf Z w z)"
  using zw_append_slices [OF assms, of "z_zslices Z z"] by (simp_all add: zw_append_zbuf_def)

lemma zw_into_zbuf_contents: "concat (z_zslices Z (zw_into_zbuf Z w)) = zw_contents Z w"
  using zw_flush_contents [of w] zw_flush_current_empty [of w]
  by (simp add: zw_into_zbuf_def zw_contents_def)

end

text \<open>
  A \<open>ZBuf\<close> as the list of its non-empty slices: an instance on which the contract can be
  evaluated.
\<close>

definition slice_zbuf :: "bytes list zbuf_ops" where
  "slice_zbuf = \<lparr>z_empty = [], z_push_zslice = (\<lambda>z s. if s = [] then z else z @ [s]),
                 z_zslices = (\<lambda>z. z), z_clear = (\<lambda>_. [])\<rparr>"

interpretation slz: zbuf_lib slice_zbuf
  by unfold_locales (simp_all add: slice_zbuf_def)

end
