(* ===== verification/Cdr_Primitives.thy ===== *)
theory Cdr_Primitives
  imports Cdr_Buffer
begin

text \<open>
  \<open>crates/hiroz-cdr/src/primitives.rs\<close> and \<open>error.rs\<close>: \<open>CdrWriter\<close> over any
  \<open>CdrBuffer\<close>, and \<open>CdrReader\<close>. A write returns the new writer or panics; a read
  returns its result together with the reader, whose position has moved also when the
  read failed half way. Arithmetic that could wrap is on words of its width, as in a
  release build.
\<close>

section \<open>Errors\<close>

text \<open>\<open>Utf8\<close> carries the position of the bad byte in the source; the model drops it.\<close>

datatype cdr_error =
    Custom string
  | UnsupportedAny
  | UnknownLength
  | UnexpectedEof
  | InvalidBool u8
  | InvalidChar u32
  | InvalidOptionTag u32
  | Utf8

section \<open>CdrWriter\<close>

record 'b cdr_writer =
  wr_buffer :: 'b
  wr_start_offset :: nat

definition writer_new :: "'b cdr_buffer \<Rightarrow> 'b \<Rightarrow> 'b cdr_writer" where
  "writer_new B b = \<lparr>wr_buffer = b, wr_start_offset = cb_len B b\<rparr>"

definition writer_position :: "'b cdr_buffer \<Rightarrow> 'b cdr_writer \<Rightarrow> nat" where
  "writer_position B w = cb_len B (wr_buffer w) - wr_start_offset w"

definition writer_extend :: "'b cdr_buffer \<Rightarrow> 'b cdr_writer \<Rightarrow> bytes \<Rightarrow> 'b cdr_writer" where
  "writer_extend B w d = w\<lparr>wr_buffer := cb_extend_from_slice B (wr_buffer w) d\<rparr>"

definition writer_push :: "'b cdr_buffer \<Rightarrow> 'b cdr_writer \<Rightarrow> u8 \<Rightarrow> 'b cdr_writer" where
  "writer_push B w x = w\<lparr>wr_buffer := cb_push B (wr_buffer w) x\<rparr>"

text \<open>
  The padding is sliced out of a constant array of eight zero bytes: a longer padding, and
  alignment zero, panic.
\<close>

definition writer_align :: "'b cdr_buffer \<Rightarrow> 'b cdr_writer \<Rightarrow> nat \<Rightarrow> ('b cdr_writer, 'e) res" where
  "writer_align B w alignment =
     (if alignment = 0 then Panic
      else let modulo = writer_position B w mod alignment
           in if modulo \<noteq> 0
              then let pad = alignment - modulo
                   in if pad \<le> 8 then Ok (writer_extend B w (take pad (replicate 8 0))) else Panic
              else Ok w)"

definition write_bool :: "'b cdr_buffer \<Rightarrow> 'b cdr_writer \<Rightarrow> bool \<Rightarrow> ('b cdr_writer, 'e) res" where
  "write_bool B w v = Ok (writer_push B w (if v then 1 else 0))"

definition write_i8 :: "'b cdr_buffer \<Rightarrow> 'b cdr_writer \<Rightarrow> u8 \<Rightarrow> ('b cdr_writer, 'e) res" where
  "write_i8 B w v = Ok (writer_push B w v)"

definition write_u8 :: "'b cdr_buffer \<Rightarrow> 'b cdr_writer \<Rightarrow> u8 \<Rightarrow> ('b cdr_writer, 'e) res" where
  "write_u8 B w v = Ok (writer_push B w v)"

text \<open>Align, convert to bytes in the byte order, append: the body of the ten aligned writes.\<close>

definition write_word :: "'b cdr_buffer \<Rightarrow> byte_order \<Rightarrow> nat \<Rightarrow> 'b cdr_writer \<Rightarrow> 'a::len word
    \<Rightarrow> ('b cdr_writer, 'e) res" where
  "write_word B bo n w v =
     res_bind (writer_align B w n) (\<lambda>w1. Ok (writer_extend B w1 (bo_bytes bo n v)))"

definition write_i16 :: "'b cdr_buffer \<Rightarrow> byte_order \<Rightarrow> 'b cdr_writer \<Rightarrow> u16 \<Rightarrow> ('b cdr_writer, 'e) res" where
  "write_i16 B bo w v = write_word B bo 2 w v"

definition write_u16 :: "'b cdr_buffer \<Rightarrow> byte_order \<Rightarrow> 'b cdr_writer \<Rightarrow> u16 \<Rightarrow> ('b cdr_writer, 'e) res" where
  "write_u16 B bo w v = write_word B bo 2 w v"

definition write_i32 :: "'b cdr_buffer \<Rightarrow> byte_order \<Rightarrow> 'b cdr_writer \<Rightarrow> u32 \<Rightarrow> ('b cdr_writer, 'e) res" where
  "write_i32 B bo w v = write_word B bo 4 w v"

definition write_u32 :: "'b cdr_buffer \<Rightarrow> byte_order \<Rightarrow> 'b cdr_writer \<Rightarrow> u32 \<Rightarrow> ('b cdr_writer, 'e) res" where
  "write_u32 B bo w v = write_word B bo 4 w v"

definition write_i64 :: "'b cdr_buffer \<Rightarrow> byte_order \<Rightarrow> 'b cdr_writer \<Rightarrow> u64 \<Rightarrow> ('b cdr_writer, 'e) res" where
  "write_i64 B bo w v = write_word B bo 8 w v"

definition write_u64 :: "'b cdr_buffer \<Rightarrow> byte_order \<Rightarrow> 'b cdr_writer \<Rightarrow> u64 \<Rightarrow> ('b cdr_writer, 'e) res" where
  "write_u64 B bo w v = write_word B bo 8 w v"

definition write_f32 :: "'b cdr_buffer \<Rightarrow> byte_order \<Rightarrow> 'b cdr_writer \<Rightarrow> u32 \<Rightarrow> ('b cdr_writer, 'e) res" where
  "write_f32 B bo w v = write_word B bo 4 w v"

definition write_f64 :: "'b cdr_buffer \<Rightarrow> byte_order \<Rightarrow> 'b cdr_writer \<Rightarrow> u64 \<Rightarrow> ('b cdr_writer, 'e) res" where
  "write_f64 B bo w v = write_word B bo 8 w v"

lemmas write_word_defs = write_i16_def write_u16_def write_i32_def write_u32_def
  write_i64_def write_u64_def write_f32_def write_f64_def

definition write_string :: "'b cdr_buffer \<Rightarrow> byte_order \<Rightarrow> 'b cdr_writer \<Rightarrow> bytes \<Rightarrow> ('b cdr_writer, 'e) res" where
  "write_string B bo w s =
     (let byte_count = word_of_nat (length s) + 1 :: u32
      in res_bind (write_u32 B bo w byte_count)
           (\<lambda>w1. Ok (writer_push B (writer_extend B w1 s) 0)))"

definition write_bytes :: "'b cdr_buffer \<Rightarrow> byte_order \<Rightarrow> 'b cdr_writer \<Rightarrow> bytes \<Rightarrow> ('b cdr_writer, 'e) res" where
  "write_bytes B bo w bs =
     res_bind (write_u32 B bo w (word_of_nat (length bs))) (\<lambda>w1. Ok (writer_extend B w1 bs))"

definition write_sequence_length :: "'b cdr_buffer \<Rightarrow> byte_order \<Rightarrow> 'b cdr_writer \<Rightarrow> nat \<Rightarrow> ('b cdr_writer, 'e) res" where
  "write_sequence_length B bo w len = write_u32 B bo w (word_of_nat len)"

text \<open>
  A plain type (\<open>CdrPlain + Pod\<close>): alignment, size, and its bytes in the memory of a
  little-endian host. The bulk write copies them whatever the byte order of the writer.
\<close>

record 'v pod =
  pod_align :: nat
  pod_size :: nat
  pod_bytes :: "'v \<Rightarrow> bytes"
  pod_of_bytes :: "bytes \<Rightarrow> 'v"

definition word_pod :: "nat \<Rightarrow> 'a::len word pod" where
  "word_pod n = \<lparr>pod_align = n, pod_size = n, pod_bytes = le_bytes n, pod_of_bytes = of_le_bytes\<rparr>"

definition write_pod_slice :: "'b cdr_buffer \<Rightarrow> 'v pod \<Rightarrow> 'b cdr_writer \<Rightarrow> 'v list \<Rightarrow> ('b cdr_writer, 'e) res" where
  "write_pod_slice B P w xs =
     res_bind (writer_align B w (pod_align P))
       (\<lambda>w1. Ok (writer_extend B w1 (concat (map (pod_bytes P) xs))))"

section \<open>CdrReader\<close>

record cdr_reader =
  rd_input :: bytes
  rd_position :: nat

type_synonym 'a rd = "cdr_reader \<Rightarrow> ('a, cdr_error) res \<times> cdr_reader"

text \<open>The \<open>?\<close> operator on a reader: an error ends the computation, the position stays moved.\<close>

definition rd_bind :: "'a rd \<Rightarrow> ('a \<Rightarrow> 'b rd) \<Rightarrow> 'b rd" where
  "rd_bind m k r = (case m r of (Ok a, r') \<Rightarrow> k a r' | (Err e, r') \<Rightarrow> (Err e, r') | (Panic, r') \<Rightarrow> (Panic, r'))"

definition rd_return :: "'a \<Rightarrow> 'a rd" where
  "rd_return a r = (Ok a, r)"

lemma rd_bind_rd_return [simp]: "rd_bind (rd_return x) k = k x"
  by (rule ext) (simp add: rd_bind_def rd_return_def)

definition rd_fail :: "cdr_error \<Rightarrow> 'a rd" where
  "rd_fail e r = (Err e, r)"

definition reader_new :: "bytes \<Rightarrow> cdr_reader" where
  "reader_new input = \<lparr>rd_input = input, rd_position = 0\<rparr>"

definition reader_remaining :: "cdr_reader \<Rightarrow> nat" where
  "reader_remaining r = length (rd_input r) - rd_position r"

definition reader_align :: "nat \<Rightarrow> unit rd" where
  "reader_align alignment r =
     (let modulo = rd_position r mod alignment
      in if modulo \<noteq> 0
         then let pad = alignment - modulo
              in if reader_remaining r < pad then (Err UnexpectedEof, r)
                 else (Ok (), r\<lparr>rd_position := rd_position r + pad\<rparr>)
         else (Ok (), r))"

definition read_bytes :: "nat \<Rightarrow> bytes rd" where
  "read_bytes count r =
     (if reader_remaining r < count then (Err UnexpectedEof, r)
      else (Ok (take count (drop (rd_position r) (rd_input r))),
            r\<lparr>rd_position := rd_position r + count\<rparr>))"

definition read_u8 :: "u8 rd" where
  "read_u8 = rd_bind (read_bytes 1) (\<lambda>bs. rd_return (bs ! 0))"

definition read_i8 :: "u8 rd" where
  "read_i8 = rd_bind (read_bytes 1) (\<lambda>bs. rd_return (bs ! 0))"

definition read_bool :: "bool rd" where
  "read_bool = rd_bind (read_bytes 1)
     (\<lambda>bs. let b = bs ! 0
           in if b = 0 then rd_return False else if b = 1 then rd_return True
              else rd_fail (InvalidBool b))"

definition read_word :: "byte_order \<Rightarrow> nat \<Rightarrow> 'a::len word rd" where
  "read_word bo n = rd_bind (reader_align n)
     (\<lambda>_. rd_bind (read_bytes n) (\<lambda>bs. rd_return (bo_value bo bs)))"

definition read_i16 :: "byte_order \<Rightarrow> u16 rd" where
  "read_i16 bo = read_word bo 2"

definition read_u16 :: "byte_order \<Rightarrow> u16 rd" where
  "read_u16 bo = read_word bo 2"

definition read_i32 :: "byte_order \<Rightarrow> u32 rd" where
  "read_i32 bo = read_word bo 4"

definition read_u32 :: "byte_order \<Rightarrow> u32 rd" where
  "read_u32 bo = read_word bo 4"

definition read_i64 :: "byte_order \<Rightarrow> u64 rd" where
  "read_i64 bo = read_word bo 8"

definition read_u64 :: "byte_order \<Rightarrow> u64 rd" where
  "read_u64 bo = read_word bo 8"

definition read_f32 :: "byte_order \<Rightarrow> u32 rd" where
  "read_f32 bo = read_word bo 4"

definition read_f64 :: "byte_order \<Rightarrow> u64 rd" where
  "read_f64 bo = read_word bo 8"

lemmas read_word_defs = read_i16_def read_u16_def read_i32_def read_u32_def
  read_i64_def read_u64_def read_f32_def read_f64_def

text \<open>The body shared by \<open>read_string\<close> and \<open>read_str\<close> after the length.\<close>

definition string_of_bytes :: "bytes \<Rightarrow> bytes rd" where
  "string_of_bytes bs =
     (let str_bytes = (if bs \<noteq> [] \<and> last bs = 0 then take (length bs - 1) bs else bs)
      in if utf8_valid str_bytes then rd_return str_bytes else rd_fail Utf8)"

definition read_string :: "byte_order \<Rightarrow> bytes rd" where
  "read_string bo = rd_bind (read_u32 bo)
     (\<lambda>len. if unat len = 0 then rd_return []
            else rd_bind (read_bytes (unat len)) string_of_bytes)"

definition read_str :: "byte_order \<Rightarrow> bytes rd" where
  "read_str bo = rd_bind (read_u32 bo)
     (\<lambda>len. if unat len = 0 then rd_return []
            else rd_bind (read_bytes (unat len)) string_of_bytes)"

definition max_sequence_length :: u32 where
  "max_sequence_length = 100000000"

definition sequence_length_message :: "u32 \<Rightarrow> string" where
  "sequence_length_message len =
     ''Sequence length '' @ show_nat (unat len) @ '' exceeds maximum allowed ('' @
     show_nat (unat max_sequence_length) @ ''). Possible schema mismatch or corrupted data.''"

definition read_sequence_length :: "byte_order \<Rightarrow> nat rd" where
  "read_sequence_length bo = rd_bind (read_u32 bo)
     (\<lambda>len. if max_sequence_length < len then rd_fail (Custom (sequence_length_message len))
            else rd_return (unat len))"

definition read_byte_sequence :: "byte_order \<Rightarrow> bytes rd" where
  "read_byte_sequence bo = rd_bind (read_u32 bo) (\<lambda>len. read_bytes (unat len))"

text \<open>\<open>pod_collect_to_vec\<close>: cut the bytes into pieces of the element size.\<close>

fun pod_chunks :: "'v pod \<Rightarrow> nat \<Rightarrow> bytes \<Rightarrow> 'v list" where
  "pod_chunks P 0 bs = []"
| "pod_chunks P (Suc n) bs = pod_of_bytes P (take (pod_size P) bs) # pod_chunks P n (drop (pod_size P) bs)"

definition usize_max :: nat where
  "usize_max = 2 ^ 64 - 1"

definition read_pod_slice :: "'v pod \<Rightarrow> nat \<Rightarrow> 'v list rd" where
  "read_pod_slice P count =
     (if count = 0 then rd_return []
      else rd_bind (reader_align (pod_align P))
        (\<lambda>_. if usize_max < count * pod_size P then rd_fail UnexpectedEof
             else rd_bind (read_bytes (count * pod_size P)) (\<lambda>bs. rd_return (pod_chunks P count bs))))"

section \<open>What a write appends\<close>

text \<open>
  The bytes needed to reach a multiple of \<open>align\<close> (\<open>padding\<close> of \<open>traits.rs\<close>), and
  the wire form of an aligned word at stream position \<open>p\<close>.
\<close>

definition cdr_padding :: "nat \<Rightarrow> nat \<Rightarrow> nat" where
  "cdr_padding pos align = (let modulo = pos mod align in if modulo = 0 then 0 else align - modulo)"

definition enc_word :: "byte_order \<Rightarrow> nat \<Rightarrow> nat \<Rightarrow> 'a::len word \<Rightarrow> bytes" where
  "enc_word bo n p v = replicate (cdr_padding p n) 0 @ bo_bytes bo n v"

definition enc_string :: "byte_order \<Rightarrow> nat \<Rightarrow> bytes \<Rightarrow> bytes" where
  "enc_string bo p s = enc_word bo 4 p (word_of_nat (length s) + 1 :: u32) @ s @ [0]"

definition enc_bytes :: "byte_order \<Rightarrow> nat \<Rightarrow> bytes \<Rightarrow> bytes" where
  "enc_bytes bo p bs = enc_word bo 4 p (word_of_nat (length bs) :: u32) @ bs"

lemma cdr_padding_less: "0 < n \<Longrightarrow> cdr_padding p n < n"
  by (simp add: cdr_padding_def Let_def)

lemma cdr_padding_aligned: "0 < n \<Longrightarrow> (p + cdr_padding p n) mod n = 0"
proof (cases "p mod n = 0")
  case True
  then show ?thesis by (simp add: cdr_padding_def)
next
  case False
  assume "0 < n"
  then have "p mod n + (n - p mod n) = n"
    using mod_less_divisor [of n p] by linarith
  moreover have "(p + (n - p mod n)) mod n = (p mod n + (n - p mod n)) mod n"
    by (simp add: mod_add_left_eq)
  ultimately show ?thesis
    using False by (simp add: cdr_padding_def Let_def)
qed

lemma cdr_padding_one [simp]: "cdr_padding p (Suc 0) = 0"
  by (simp add: cdr_padding_def)

lemma cdr_padding_zero_of_aligned: "p mod n = 0 \<Longrightarrow> cdr_padding p n = 0"
  by (simp add: cdr_padding_def)

lemma length_enc_word [simp]: "length (enc_word bo n p v) = cdr_padding p n + n"
  by (simp add: enc_word_def)

text \<open>Consecutive chunks, each encoded at the position where the previous one ends.\<close>

fun enc_seq :: "(nat \<Rightarrow> 'a \<Rightarrow> bytes) \<Rightarrow> nat \<Rightarrow> 'a list \<Rightarrow> bytes" where
  "enc_seq enc p [] = []"
| "enc_seq enc p (x # xs) = enc p x @ enc_seq enc (p + length (enc p x)) xs"

text \<open>
  \<open>writer_ok\<close>: the buffer is well-formed and holds the bytes before the start offset.
  \<open>wrote w r c\<close>: the outcome \<open>r\<close> is a writer that holds exactly the bytes \<open>c\<close> more
  than \<open>w\<close>.
\<close>

definition writer_ok :: "('b \<Rightarrow> bytes) \<Rightarrow> ('b \<Rightarrow> bool) \<Rightarrow> 'b cdr_writer \<Rightarrow> bool" where
  "writer_ok contents invar w \<longleftrightarrow>
     invar (wr_buffer w) \<and> wr_start_offset w \<le> length (contents (wr_buffer w))"

definition wrote :: "('b \<Rightarrow> bytes) \<Rightarrow> ('b \<Rightarrow> bool) \<Rightarrow> 'b cdr_writer \<Rightarrow> ('b cdr_writer, 'e) res \<Rightarrow> bytes \<Rightarrow> bool" where
  "wrote contents invar w r c \<longleftrightarrow>
     (\<exists>w'. r = Ok w' \<and> invar (wr_buffer w') \<and> wr_start_offset w' = wr_start_offset w \<and>
           contents (wr_buffer w') = contents (wr_buffer w) @ c)"

context cdr_buffer_laws
begin

abbreviation "wok \<equiv> writer_ok contents invar"
abbreviation "wrt \<equiv> wrote contents invar"

lemma new_ok: "invar b \<Longrightarrow> wok (writer_new B b) \<and> writer_position B (writer_new B b) = 0"
  by (simp add: writer_ok_def writer_new_def writer_position_def len_contents)

lemma wrote_ok:
  assumes "wok w" and "wrt w (Ok w') c"
  shows "wok w'" and "writer_position B w' = writer_position B w + length c"
  using assms by (auto simp: writer_ok_def wrote_def writer_position_def len_contents)

lemma wrote_return: "wok w \<Longrightarrow> wrt w (Ok w) []"
  by (simp add: wrote_def writer_ok_def)

lemma wrote_extend: "wok w \<Longrightarrow> wrt w (Ok (writer_extend B w d)) d"
  by (simp add: wrote_def writer_ok_def writer_extend_def buffer_laws)

lemma wrote_push: "wok w \<Longrightarrow> wrt w (Ok (writer_push B w x)) [x]"
  by (simp add: wrote_def writer_ok_def writer_push_def buffer_laws)

lemma wrote_bind:
  assumes "wok w" and r: "wrt w r c"
    and k: "\<And>w'. wok w' \<Longrightarrow> writer_position B w' = writer_position B w + length c \<Longrightarrow> wrt w' (k w') d"
  shows "wrt w (res_bind r k) (c @ d)"
proof -
  from r obtain w' where w': "r = Ok w'" and "wrt w (Ok w') c"
    by (auto simp: wrote_def)
  with wrote_ok [OF assms(1)] k have "wrt w' (k w') d" by blast
  with \<open>wrt w (Ok w') c\<close> w' show ?thesis
    by (auto simp: wrote_def)
qed

lemma wrote_align:
  assumes "wok w" and "0 < n" and "n \<le> 8"
  shows "wrt w (writer_align B w n) (replicate (cdr_padding (writer_position B w) n) 0)"
proof (cases "writer_position B w mod n = 0")
  case True
  with assms show ?thesis
    by (simp add: writer_align_def cdr_padding_def wrote_return)
next
  case False
  moreover have "n - writer_position B w mod n \<le> 8" using assms by simp
  ultimately show ?thesis
    using assms wrote_extend [OF assms(1)]
    by (simp add: writer_align_def cdr_padding_def Let_def min_def)
qed

lemma wrote_word:
  assumes "wok w" and "0 < n" and "n \<le> 8"
  shows "wrt w (write_word B bo n w v) (enc_word bo n (writer_position B w) v)"
  unfolding write_word_def enc_word_def
  by (intro wrote_bind wrote_align wrote_extend assms)

lemma wrote_words:
  assumes "wok w"
  shows "wrt w (write_i16 B bo w v16) (enc_word bo 2 (writer_position B w) v16)"
    and "wrt w (write_u16 B bo w v16) (enc_word bo 2 (writer_position B w) v16)"
    and "wrt w (write_i32 B bo w v32) (enc_word bo 4 (writer_position B w) v32)"
    and "wrt w (write_u32 B bo w v32) (enc_word bo 4 (writer_position B w) v32)"
    and "wrt w (write_i64 B bo w v64) (enc_word bo 8 (writer_position B w) v64)"
    and "wrt w (write_u64 B bo w v64) (enc_word bo 8 (writer_position B w) v64)"
    and "wrt w (write_f32 B bo w v32) (enc_word bo 4 (writer_position B w) v32)"
    and "wrt w (write_f64 B bo w v64) (enc_word bo 8 (writer_position B w) v64)"
  by (simp_all add: write_word_defs wrote_word assms)

lemma wrote_octets:
  assumes "wok w"
  shows "wrt w (write_bool B w b) [if b then 1 else 0]"
    and "wrt w (write_i8 B w x) [x]"
    and "wrt w (write_u8 B w x) [x]"
  by (simp_all add: write_bool_def write_i8_def write_u8_def wrote_push assms)

lemma wrote_string:
  assumes "wok w"
  shows "wrt w (write_string B bo w s) (enc_string bo (writer_position B w) s)"
proof -
  have "wrt w' (Ok (writer_push B (writer_extend B w' s) 0)) (s @ [0])" if "wok w'" for w'
    using that by (simp add: wrote_def writer_ok_def writer_push_def writer_extend_def buffer_laws)
  then show ?thesis
    unfolding write_string_def enc_string_def Let_def
    by (intro wrote_bind wrote_words assms)
qed

lemma wrote_bytes:
  assumes "wok w"
  shows "wrt w (write_bytes B bo w bs) (enc_bytes bo (writer_position B w) bs)"
  unfolding write_bytes_def enc_bytes_def
  by (intro wrote_bind wrote_words wrote_extend assms)

lemma wrote_sequence_length:
  assumes "wok w"
  shows "wrt w (write_sequence_length B bo w n) (enc_word bo 4 (writer_position B w) (word_of_nat n :: u32))"
  unfolding write_sequence_length_def by (intro wrote_words assms)

lemma wrote_pod_slice:
  assumes "wok w" and "0 < pod_align P" and "pod_align P \<le> 8"
  shows "wrt w (write_pod_slice B P w xs)
           (replicate (cdr_padding (writer_position B w) (pod_align P)) 0 @ concat (map (pod_bytes P) xs))"
  unfolding write_pod_slice_def
  by (intro wrote_bind wrote_align wrote_extend assms)

text \<open>A loop of writes, each chunk at the position the ones before it lead to.\<close>

lemma wrote_fold:
  assumes "wok w"
    and "\<And>x w. x \<in> set xs \<Longrightarrow> wok w \<Longrightarrow> wrt w (f w x) (enc (writer_position B w) x)"
  shows "wrt w (res_fold f w xs) (enc_seq enc (writer_position B w) xs)"
  using assms
proof (induction xs arbitrary: w)
  case Nil
  then show ?case by (simp add: wrote_return)
next
  case (Cons x xs)
  have rest: "wrt w' (res_fold f w' xs)
      (enc_seq enc (writer_position B w + length (enc (writer_position B w) x)) xs)"
    if "wok w'" and "writer_position B w' = writer_position B w + length (enc (writer_position B w) x)" for w'
    using Cons.IH [OF that(1)] Cons.prems(2) that(2) by simp
  have "wrt w (f w x) (enc (writer_position B w) x)"
    using Cons.prems by simp
  from wrote_bind [OF Cons.prems(1) this, of "\<lambda>w'. res_fold f w' xs", OF rest] show ?case by simp
qed

end

section \<open>What a read recovers\<close>

text \<open>
  \<open>decodes m p c v\<close>: run at position \<open>p\<close> of any input that holds the chunk \<open>c\<close>
  there, the reader \<open>m\<close> returns \<open>v\<close> and stands right behind the chunk.
\<close>

definition decodes :: "'a rd \<Rightarrow> nat \<Rightarrow> bytes \<Rightarrow> 'a \<Rightarrow> bool" where
  "decodes m p c v \<longleftrightarrow>
     (\<forall>pre post. length pre = p \<longrightarrow>
        m \<lparr>rd_input = pre @ c @ post, rd_position = p\<rparr> =
        (Ok v, \<lparr>rd_input = pre @ c @ post, rd_position = p + length c\<rparr>))"

lemma decodesI:
  assumes "\<And>pre post. length pre = p \<Longrightarrow>
      m \<lparr>rd_input = pre @ c @ post, rd_position = p\<rparr> =
      (Ok v, \<lparr>rd_input = pre @ c @ post, rd_position = p + length c\<rparr>)"
  shows "decodes m p c v"
  using assms by (simp add: decodes_def)

lemma decodes_return: "decodes (rd_return v) p [] v"
  by (simp add: decodes_def rd_return_def)

lemma decodes_bind:
  assumes "decodes m p c a" and "decodes (k a) (p + length c) d b"
  shows "decodes (rd_bind m k) p (c @ d) b"
proof (rule decodesI)
  fix pre post :: bytes
  assume len: "length pre = p"
  have "m \<lparr>rd_input = pre @ c @ (d @ post), rd_position = p\<rparr> =
        (Ok a, \<lparr>rd_input = pre @ c @ (d @ post), rd_position = p + length c\<rparr>)"
    using assms(1) [unfolded decodes_def, rule_format, OF len] by simp
  moreover have "k a \<lparr>rd_input = (pre @ c) @ d @ post, rd_position = p + length c\<rparr> =
        (Ok b, \<lparr>rd_input = (pre @ c) @ d @ post, rd_position = p + length c + length d\<rparr>)"
    using assms(2) [unfolded decodes_def, rule_format, of "pre @ c" post] len by simp
  ultimately show "rd_bind m k \<lparr>rd_input = pre @ (c @ d) @ post, rd_position = p\<rparr> =
        (Ok b, \<lparr>rd_input = pre @ (c @ d) @ post, rd_position = p + length (c @ d)\<rparr>)"
    by (simp add: rd_bind_def add.assoc)
qed

lemma decodes_bind_return:
  "decodes m p c a \<Longrightarrow> decodes (rd_bind m (\<lambda>x. rd_return (f x))) p c (f a)"
  using decodes_bind [of m p c a "\<lambda>x. rd_return (f x)" "[]" "f a"] decodes_return [of "f a"] by simp

lemma decodes_bytes: "decodes (read_bytes (length c)) p c c"
  by (rule decodesI) (simp add: read_bytes_def reader_remaining_def)

lemma decodes_align:
  "0 < n \<Longrightarrow> decodes (reader_align n) p (replicate (cdr_padding p n) x) ()"
  by (rule decodesI) (auto simp: reader_align_def cdr_padding_def Let_def reader_remaining_def)

lemma decodes_word:
  fixes v :: "'a::len word"
  assumes "0 < n" and "LENGTH('a) \<le> 8 * n"
  shows "decodes (read_word bo n) p (enc_word bo n p v) v"
proof -
  have "decodes (read_bytes n) q (bo_bytes bo n v) (bo_bytes bo n v)" for q
    using decodes_bytes [of "bo_bytes bo n v"] by simp
  then have "decodes (rd_bind (read_bytes n) (\<lambda>bs. rd_return (bo_value bo bs))) q (bo_bytes bo n v)
       (bo_value bo (bo_bytes bo n v) :: 'a word)" for q
    by (rule decodes_bind_return)
  then show ?thesis
    unfolding read_word_def enc_word_def bo_value_bo_bytes [OF assms(2)]
    by (intro decodes_bind [OF decodes_align [OF assms(1)]])
qed

lemma decodes_words:
  "decodes (read_i16 bo) p (enc_word bo 2 p v16) v16"
  "decodes (read_u16 bo) p (enc_word bo 2 p v16) v16"
  "decodes (read_i32 bo) p (enc_word bo 4 p v32) v32"
  "decodes (read_u32 bo) p (enc_word bo 4 p v32) v32"
  "decodes (read_i64 bo) p (enc_word bo 8 p v64) v64"
  "decodes (read_u64 bo) p (enc_word bo 8 p v64) v64"
  "decodes (read_f32 bo) p (enc_word bo 4 p v32) v32"
  "decodes (read_f64 bo) p (enc_word bo 8 p v64) v64"
  unfolding read_word_defs by (rule decodes_word; simp)+

lemma decodes_octets:
  "decodes read_u8 p [x] x"
  "decodes read_i8 p [x] x"
  "decodes read_bool p [if b then 1 else 0] b"
proof -
  have one: "decodes (read_bytes 1) p [y] [y]" for y
    using decodes_bytes [of "[y]"] by simp
  show "decodes read_u8 p [x] x" "decodes read_i8 p [x] x"
    using decodes_bind_return [OF one [of x], where f = "\<lambda>bs. bs ! 0"]
    by (simp_all add: read_u8_def read_i8_def)
  have "decodes read_bool p ([if b then 1 else 0] @ []) b"
    unfolding read_bool_def
    by (rule decodes_bind [OF one]) (simp add: decodes_return)
  then show "decodes read_bool p [if b then 1 else 0] b" by simp
qed

lemma unat_of_nat_u32: "n < 2 ^ 32 \<Longrightarrow> unat (word_of_nat n :: u32) = n"
  by (simp add: unat_of_nat take_bit_nat_eq_self)

lemma string_length_u32:
  assumes "length s + 1 < 2 ^ 32"
  shows "unat (word_of_nat (length s) + 1 :: u32) = length s + 1"
proof -
  have "word_of_nat (length s) + 1 = (word_of_nat (length s + 1) :: u32)" by simp
  then show ?thesis using unat_of_nat_u32 [OF assms] by metis
qed

lemma decodes_string:
  assumes "utf8_valid s" and "length s + 1 < 2 ^ 32"
  shows "decodes (read_string bo) p (enc_string bo p s) s"
    and "decodes (read_str bo) p (enc_string bo p s) s"
proof -
  have "decodes (read_bytes (length s + 1)) q (s @ [0]) (s @ [0])" for q
    using decodes_bytes [of "s @ [0]"] by simp
  then have "decodes (rd_bind (read_bytes (length s + 1)) string_of_bytes) q ((s @ [0]) @ []) s" for q
    by (rule decodes_bind)
       (simp add: string_of_bytes_def assms(1) decodes_return)
  then show "decodes (read_string bo) p (enc_string bo p s) s" "decodes (read_str bo) p (enc_string bo p s) s"
    unfolding read_string_def read_str_def enc_string_def
    by (intro decodes_bind [OF decodes_words(4)]; simp add: string_length_u32 [OF assms(2)])+
qed

lemma decodes_byte_sequence:
  assumes "length bs < 2 ^ 32"
  shows "decodes (read_byte_sequence bo) p (enc_bytes bo p bs) bs"
  unfolding read_byte_sequence_def enc_bytes_def
  by (intro decodes_bind [OF decodes_words(4)]) (simp add: unat_of_nat_u32 [OF assms] decodes_bytes)

lemma decodes_sequence_length:
  assumes "n \<le> 100000000"
  shows "decodes (read_sequence_length bo) p (enc_word bo 4 p (word_of_nat n :: u32)) n"
proof -
  have n: "unat (word_of_nat n :: u32) = n" using assms by (intro unat_of_nat_u32) simp
  then have "\<not> max_sequence_length < (word_of_nat n :: u32)"
    using assms by (simp add: max_sequence_length_def word_less_nat_alt)
  then have "decodes (rd_bind (read_u32 bo) (\<lambda>len. if max_sequence_length < len
       then rd_fail (Custom (sequence_length_message len)) else rd_return (unat len))) p
       (enc_word bo 4 p (word_of_nat n :: u32) @ []) n"
    by (intro decodes_bind [OF decodes_words(4)]) (simp add: n decodes_return)
  then show ?thesis by (simp add: read_sequence_length_def)
qed

text \<open>\<open>for _ in 0..n { v.push(read()?) }\<close>.\<close>

fun read_n :: "nat \<Rightarrow> 'a rd \<Rightarrow> 'a list rd" where
  "read_n 0 m = rd_return []"
| "read_n (Suc n) m = rd_bind m (\<lambda>x. rd_bind (read_n n m) (\<lambda>xs. rd_return (x # xs)))"

lemma decodes_read_n:
  assumes "\<And>q x. x \<in> set xs \<Longrightarrow> decodes m q (enc q x) (f x)"
  shows "decodes (read_n (length xs) m) p (enc_seq enc p xs) (map f xs)"
  using assms
proof (induction xs arbitrary: p)
  case Nil
  then show ?case by (simp add: decodes_return)
next
  case (Cons x xs)
  have "decodes (rd_bind (read_n (length xs) m) (\<lambda>ys. rd_return (f x # ys)))
      (p + length (enc p x)) (enc_seq enc (p + length (enc p x)) xs) (f x # map f xs)"
    by (rule decodes_bind_return) (simp add: Cons.IH Cons.prems)
  then show ?case
    using decodes_bind [of m p "enc p x" "f x"] Cons.prems by simp
qed

lemma decodes_pod_chunks:
  assumes "\<And>v. length (pod_bytes P v) = pod_size P" and "\<And>v. pod_of_bytes P (pod_bytes P v) = v"
  shows "pod_chunks P (length xs) (concat (map (pod_bytes P) xs)) = xs"
  using assms by (induction xs) simp_all

lemma length_concat_pod:
  assumes "\<And>v. length (pod_bytes P v) = pod_size P"
  shows "length (concat (map (pod_bytes P) xs)) = length xs * pod_size P"
  using assms by (induction xs) simp_all

lemma decodes_pod_slice:
  assumes "\<And>v. length (pod_bytes P v) = pod_size P" and "\<And>v. pod_of_bytes P (pod_bytes P v) = v"
    and "0 < pod_align P" and "xs \<noteq> []" and "length xs * pod_size P \<le> usize_max"
  shows "decodes (read_pod_slice P (length xs)) p
           (replicate (cdr_padding p (pod_align P)) 0 @ concat (map (pod_bytes P) xs)) xs"
proof -
  let ?c = "concat (map (pod_bytes P) xs)"
  have "decodes (read_bytes (length xs * pod_size P)) q ?c ?c" for q
    using decodes_bytes [of ?c] length_concat_pod [of P xs, OF assms(1)] by simp
  then have "decodes (rd_bind (read_bytes (length xs * pod_size P))
      (\<lambda>bs. rd_return (pod_chunks P (length xs) bs))) q ?c xs" for q
    using decodes_bind_return [where f = "pod_chunks P (length xs)" and c = ?c and a = ?c]
      decodes_pod_chunks [of P xs, OF assms(1,2)] by simp
  then show ?thesis
    using assms(3-5) unfolding read_pod_slice_def
    by (simp add: decodes_bind [OF decodes_align])
qed

section \<open>Readers stay inside their input\<close>

text \<open>
  \<open>rd_safe m\<close>: from a position inside the input, \<open>m\<close> does not panic, never moves
  backwards, stays inside, and leaves the input alone. Every reader of the crate is safe.
\<close>

definition rd_ok :: "cdr_reader \<Rightarrow> bool" where
  "rd_ok r \<longleftrightarrow> rd_position r \<le> length (rd_input r)"

definition rd_safe :: "'a rd \<Rightarrow> bool" where
  "rd_safe m \<longleftrightarrow> (\<forall>r. rd_ok r \<longrightarrow>
     fst (m r) \<noteq> Panic \<and> rd_ok (snd (m r)) \<and> rd_input (snd (m r)) = rd_input r \<and>
     rd_position r \<le> rd_position (snd (m r)))"

named_theorems rd_safe_intros

lemma rd_safe_return [rd_safe_intros]: "rd_safe (rd_return x)"
  by (simp add: rd_safe_def rd_return_def)

lemma rd_safe_fail [rd_safe_intros]: "rd_safe (rd_fail e)"
  by (simp add: rd_safe_def rd_fail_def)

lemma rd_safeD:
  assumes "rd_safe m" and "rd_ok r" and "m r = (x, r')"
  shows "x \<noteq> Panic" and "rd_ok r'" and "rd_input r' = rd_input r" and "rd_position r \<le> rd_position r'"
  using assms(1) [unfolded rd_safe_def, rule_format, OF assms(2)] assms(3) by simp_all

lemma rd_safeI:
  assumes "\<And>r x r'. rd_ok r \<Longrightarrow> m r = (x, r') \<Longrightarrow>
      x \<noteq> Panic \<and> rd_ok r' \<and> rd_input r' = rd_input r \<and> rd_position r \<le> rd_position r'"
  shows "rd_safe m"
  unfolding rd_safe_def using assms by (metis surjective_pairing)

lemma rd_safe_bind [rd_safe_intros]:
  assumes "rd_safe m" and "\<And>a. rd_safe (k a)"
  shows "rd_safe (rd_bind m k)"
proof (rule rd_safeI)
  fix r y s assume r: "rd_ok r" and eq: "rd_bind m k r = (y, s)"
  obtain x r' where m: "m r = (x, r')" by force
  note r' = rd_safeD [OF assms(1) r m]
  show "y \<noteq> Panic \<and> rd_ok s \<and> rd_input s = rd_input r \<and> rd_position r \<le> rd_position s"
  proof (cases x)
    case (Ok a)
    with eq m have "k a r' = (y, s)" by (simp add: rd_bind_def)
    from rd_safeD [OF assms(2) r'(2) this] r' show ?thesis by simp
  next
    case (Err e)
    with eq m r' show ?thesis by (auto simp: rd_bind_def)
  next
    case Panic
    with r'(1) show ?thesis by simp
  qed
qed

lemma rd_safe_if [rd_safe_intros]: "rd_safe m \<Longrightarrow> rd_safe n \<Longrightarrow> rd_safe (if b then m else n)"
  by simp

lemma rd_safe_align [rd_safe_intros]: "rd_safe (reader_align n)"
  by (auto simp: rd_safe_def rd_ok_def reader_align_def reader_remaining_def Let_def)

lemma rd_safe_bytes [rd_safe_intros]: "rd_safe (read_bytes n)"
  by (auto simp: rd_safe_def rd_ok_def read_bytes_def reader_remaining_def)

lemma rd_safe_word [rd_safe_intros]: "rd_safe (read_word bo n)"
  unfolding read_word_def by (intro rd_safe_intros)

lemma rd_safe_words [rd_safe_intros]:
  "rd_safe (read_i16 bo)" "rd_safe (read_u16 bo)" "rd_safe (read_i32 bo)" "rd_safe (read_u32 bo)"
  "rd_safe (read_i64 bo)" "rd_safe (read_u64 bo)" "rd_safe (read_f32 bo)" "rd_safe (read_f64 bo)"
  unfolding read_word_defs by (intro rd_safe_intros)+

lemma rd_safe_octets [rd_safe_intros]: "rd_safe read_u8" "rd_safe read_i8" "rd_safe read_bool"
  unfolding read_u8_def read_i8_def read_bool_def Let_def by (intro rd_safe_intros)+

lemma rd_safe_string_of_bytes [rd_safe_intros]: "rd_safe (string_of_bytes bs)"
  unfolding string_of_bytes_def Let_def by (intro rd_safe_intros)

lemma rd_safe_strings [rd_safe_intros]:
  "rd_safe (read_string bo)" "rd_safe (read_str bo)"
  "rd_safe (read_sequence_length bo)" "rd_safe (read_byte_sequence bo)"
  unfolding read_string_def read_str_def read_sequence_length_def read_byte_sequence_def
  by (intro rd_safe_intros)+

lemma rd_safe_read_n [rd_safe_intros]: "rd_safe m \<Longrightarrow> rd_safe (read_n n m)"
  by (induction n) (auto intro!: rd_safe_intros)

lemma rd_safe_pod_slice [rd_safe_intros]: "rd_safe (read_pod_slice P n)"
  unfolding read_pod_slice_def by (intro rd_safe_intros)

section \<open>Truncated input\<close>

text \<open>
  \<open>truncates m p c\<close>: given only a proper prefix of the chunk \<open>c\<close>, the reader \<open>m\<close>
  reports the end of the input. Like \<open>decodes\<close> it composes along \<open>rd_bind\<close>.
\<close>

definition truncates :: "'a rd \<Rightarrow> nat \<Rightarrow> bytes \<Rightarrow> bool" where
  "truncates m p c \<longleftrightarrow>
     (\<forall>pre k. length pre = p \<longrightarrow> k < length c \<longrightarrow>
        fst (m \<lparr>rd_input = pre @ take k c, rd_position = p\<rparr>) = Err UnexpectedEof)"

lemma truncates_Nil [simp]: "truncates m p []"
  by (simp add: truncates_def)

lemma truncates_bind_first:
  assumes "truncates m p c"
  shows "truncates (rd_bind m k) p c"
  unfolding truncates_def
proof (intro allI impI)
  fix pre :: bytes and i assume "length pre = p" and "i < length c"
  then have "fst (m \<lparr>rd_input = pre @ take i c, rd_position = p\<rparr>) = Err UnexpectedEof"
    using assms by (simp add: truncates_def)
  then show "fst (rd_bind m k \<lparr>rd_input = pre @ take i c, rd_position = p\<rparr>) = Err UnexpectedEof"
    by (auto simp: rd_bind_def split: prod.split)
qed

lemma truncates_bind:
  assumes m: "truncates m p c" and d: "decodes m p c a" and k: "truncates (k a) (p + length c) e"
  shows "truncates (rd_bind m k) p (c @ e)"
  unfolding truncates_def
proof (intro allI impI)
  fix pre :: bytes and i assume len: "length pre = p" and i: "i < length (c @ e)"
  show "fst (rd_bind m k \<lparr>rd_input = pre @ take i (c @ e), rd_position = p\<rparr>) = Err UnexpectedEof"
  proof (cases "i < length c")
    case True
    then show ?thesis
      using truncates_bind_first [OF m, unfolded truncates_def, rule_format, OF len] by simp
  next
    case False
    let ?post = "take (i - length c) e"
    have "take i (c @ e) = c @ ?post" using False by simp
    moreover have "m \<lparr>rd_input = pre @ c @ ?post, rd_position = p\<rparr> =
        (Ok a, \<lparr>rd_input = pre @ c @ ?post, rd_position = p + length c\<rparr>)"
      using d [unfolded decodes_def, rule_format, OF len] by simp
    moreover have "fst (k a \<lparr>rd_input = (pre @ c) @ ?post, rd_position = p + length c\<rparr>) = Err UnexpectedEof"
      using k [unfolded truncates_def, rule_format, of "pre @ c"] len i False by simp
    ultimately show ?thesis by (simp add: rd_bind_def)
  qed
qed

lemma truncates_bytes: "truncates (read_bytes (length c)) p c"
  by (simp add: truncates_def read_bytes_def reader_remaining_def)

lemma truncates_align: "truncates (reader_align n) p (replicate (cdr_padding p n) x)"
  by (simp add: truncates_def reader_align_def reader_remaining_def cdr_padding_def Let_def)

lemma truncates_word:
  assumes "0 < n"
  shows "truncates (read_word bo n) p (enc_word bo n p v)"
proof -
  have "truncates (rd_bind (read_bytes n) (\<lambda>bs. rd_return (bo_value bo bs))) q (bo_bytes bo n v)" for q
    using truncates_bytes [of "bo_bytes bo n v"] by (intro truncates_bind_first) simp
  then show ?thesis
    unfolding read_word_def enc_word_def
    by (intro truncates_bind [OF truncates_align decodes_align [OF assms]])
qed

lemma truncates_words:
  "truncates (read_i16 bo) p (enc_word bo 2 p v)" "truncates (read_u16 bo) p (enc_word bo 2 p v)"
  "truncates (read_i32 bo) p (enc_word bo 4 p v)" "truncates (read_u32 bo) p (enc_word bo 4 p v)"
  "truncates (read_i64 bo) p (enc_word bo 8 p v)" "truncates (read_u64 bo) p (enc_word bo 8 p v)"
  "truncates (read_f32 bo) p (enc_word bo 4 p v)" "truncates (read_f64 bo) p (enc_word bo 8 p v)"
  unfolding read_word_defs by (rule truncates_word; simp)+

lemma truncates_octets:
  "truncates read_u8 p [x]" "truncates read_i8 p [x]" "truncates read_bool p [x]"
  by (simp_all add: truncates_def read_u8_def read_i8_def read_bool_def rd_bind_def read_bytes_def
      reader_remaining_def)

lemma truncates_string:
  assumes "length s + 1 < 2 ^ 32"
  shows "truncates (read_string bo) p (enc_string bo p s)"
proof -
  have "truncates (rd_bind (read_bytes (length s + 1)) string_of_bytes) q (s @ [0])" for q
    using truncates_bytes [of "s @ [0]" q] by (intro truncates_bind_first) simp
  then show ?thesis
    unfolding read_string_def enc_string_def
    by (intro truncates_bind [OF truncates_words(4) decodes_words(4)])
       (simp add: string_length_u32 [OF assms])
qed

lemma truncates_sequence_length: "truncates (read_sequence_length bo) p (enc_word bo 4 p (v :: u32))"
  unfolding read_sequence_length_def by (rule truncates_bind_first [OF truncates_words(4)])

lemma truncates_read_n:
  assumes "\<And>q x. x \<in> set xs \<Longrightarrow> decodes m q (enc q x) (f x) \<and> truncates m q (enc q x)"
  shows "truncates (read_n (length xs) m) p (enc_seq enc p xs)"
  using assms
proof (induction xs arbitrary: p)
  case Nil
  then show ?case by simp
next
  case (Cons x xs)
  have "truncates (rd_bind (read_n (length xs) m) (\<lambda>ys. rd_return (f x # ys)))
      (p + length (enc p x)) (enc_seq enc (p + length (enc p x)) xs)"
    by (rule truncates_bind_first) (simp add: Cons.IH Cons.prems)
  then show ?case
    using truncates_bind [of m p "enc p x" "f x"] Cons.prems by simp
qed

end
