(* ===== verification/Cdr_Traits.thy ===== *)
theory Cdr_Traits
  imports Cdr_Primitives
begin

text \<open>
  \<open>crates/hiroz-cdr/src/traits.rs\<close>: the traits \<open>CdrSerialize\<close>, \<open>CdrDeserialize\<close>
  and \<open>CdrSerializedSize\<close> with their implementations for the ROS primitives, strings,
  \<open>Vec<T>\<close> and \<open>[T; N]\<close>, and the entry points \<open>cdr_to_vec\<close> and
  \<open>cdr_to_zbuf_writer\<close>. The Rust types with an implementation are the datatype
  \<open>cdr_ty\<close>, their values \<open>cdr_val\<close>; each trait is one function with an equation per
  \<open>impl\<close>.
\<close>

datatype cdr_ty =
    TBool | TI8 | TU8 | TI16 | TU16 | TI32 | TU32 | TI64 | TU64 | TF32 | TF64 | TString
  | TVec cdr_ty
  | TArray cdr_ty nat

datatype cdr_val =
    VBool bool | VI8 u8 | VU8 u8 | VI16 u16 | VU16 u16 | VI32 u32 | VU32 u32 | VI64 u64 | VU64 u64
  | VF32 u32 | VF64 u64 | VString bytes
  | VVec "cdr_val list"
  | VArray "cdr_val list"

section \<open>The three traits\<close>

fun cdr_serialize :: "'b cdr_buffer \<Rightarrow> byte_order \<Rightarrow> 'b cdr_writer \<Rightarrow> cdr_val \<Rightarrow> ('b cdr_writer, 'e) res" where
  "cdr_serialize B bo w (VBool v) = write_bool B w v"
| "cdr_serialize B bo w (VI8 v) = write_i8 B w v"
| "cdr_serialize B bo w (VU8 v) = write_u8 B w v"
| "cdr_serialize B bo w (VI16 v) = write_i16 B bo w v"
| "cdr_serialize B bo w (VU16 v) = write_u16 B bo w v"
| "cdr_serialize B bo w (VI32 v) = write_i32 B bo w v"
| "cdr_serialize B bo w (VU32 v) = write_u32 B bo w v"
| "cdr_serialize B bo w (VI64 v) = write_i64 B bo w v"
| "cdr_serialize B bo w (VU64 v) = write_u64 B bo w v"
| "cdr_serialize B bo w (VF32 v) = write_f32 B bo w v"
| "cdr_serialize B bo w (VF64 v) = write_f64 B bo w v"
| "cdr_serialize B bo w (VString v) = write_string B bo w v"
| "cdr_serialize B bo w (VVec vs) =
     res_bind (write_sequence_length B bo w (length vs))
       (\<lambda>w1. res_fold (\<lambda>u x. cdr_serialize B bo u x) w1 vs)"
| "cdr_serialize B bo w (VArray vs) = res_fold (\<lambda>u x. cdr_serialize B bo u x) w vs"

text \<open>\<open>rd_map f m\<close> wraps the value a read returns into the constructor of its type.\<close>

definition rd_map :: "('a \<Rightarrow> 'b) \<Rightarrow> 'a rd \<Rightarrow> 'b rd" where
  "rd_map f m = rd_bind m (\<lambda>x. rd_return (f x))"

fun cdr_deserialize :: "byte_order \<Rightarrow> cdr_ty \<Rightarrow> cdr_val rd" where
  "cdr_deserialize bo TBool = rd_map VBool read_bool"
| "cdr_deserialize bo TI8 = rd_map VI8 read_i8"
| "cdr_deserialize bo TU8 = rd_map VU8 read_u8"
| "cdr_deserialize bo TI16 = rd_map VI16 (read_i16 bo)"
| "cdr_deserialize bo TU16 = rd_map VU16 (read_u16 bo)"
| "cdr_deserialize bo TI32 = rd_map VI32 (read_i32 bo)"
| "cdr_deserialize bo TU32 = rd_map VU32 (read_u32 bo)"
| "cdr_deserialize bo TI64 = rd_map VI64 (read_i64 bo)"
| "cdr_deserialize bo TU64 = rd_map VU64 (read_u64 bo)"
| "cdr_deserialize bo TF32 = rd_map VF32 (read_f32 bo)"
| "cdr_deserialize bo TF64 = rd_map VF64 (read_f64 bo)"
| "cdr_deserialize bo TString = rd_map VString (read_string bo)"
| "cdr_deserialize bo (TVec t) =
     rd_bind (read_sequence_length bo) (\<lambda>count. rd_map VVec (read_n count (cdr_deserialize bo t)))"
| "cdr_deserialize bo (TArray t n) = rd_map VArray (read_n n (cdr_deserialize bo t))"

fun cdr_serialized_size :: "cdr_val \<Rightarrow> nat \<Rightarrow> nat" where
  "cdr_serialized_size (VBool v) pos = pos + 1"
| "cdr_serialized_size (VI8 v) pos = pos + 1"
| "cdr_serialized_size (VU8 v) pos = pos + 1"
| "cdr_serialized_size (VI16 v) pos = pos + cdr_padding pos 2 + 2"
| "cdr_serialized_size (VU16 v) pos = pos + cdr_padding pos 2 + 2"
| "cdr_serialized_size (VI32 v) pos = pos + cdr_padding pos 4 + 4"
| "cdr_serialized_size (VU32 v) pos = pos + cdr_padding pos 4 + 4"
| "cdr_serialized_size (VI64 v) pos = pos + cdr_padding pos 8 + 8"
| "cdr_serialized_size (VU64 v) pos = pos + cdr_padding pos 8 + 8"
| "cdr_serialized_size (VF32 v) pos = pos + cdr_padding pos 4 + 4"
| "cdr_serialized_size (VF64 v) pos = pos + cdr_padding pos 8 + 8"
| "cdr_serialized_size (VString s) pos =
     (let after_len = pos + cdr_padding pos 4 + 4 in after_len + length s + 1)"
| "cdr_serialized_size (VVec vs) pos =
     foldl (\<lambda>p x. cdr_serialized_size x p) (pos + cdr_padding pos 4 + 4) vs"
| "cdr_serialized_size (VArray vs) pos = foldl (\<lambda>p x. cdr_serialized_size x p) pos vs"

text \<open>The capacity hint of \<open>cdr_to_vec\<close> only sizes the allocation.\<close>

definition cdr_to_vec :: "cdr_val \<Rightarrow> nat \<Rightarrow> (bytes, 'e) res" where
  "cdr_to_vec v capacity_hint =
     res_map wr_buffer (cdr_serialize vec_buffer LittleEndian (writer_new vec_buffer []) v)"

definition cdr_to_zbuf_writer :: "'z zbuf_ops \<Rightarrow> cdr_val \<Rightarrow> 'z zbuf_writer \<Rightarrow> ('z zbuf_writer, 'e) res" where
  "cdr_to_zbuf_writer Z v zw =
     res_map wr_buffer (cdr_serialize (zw_buffer Z) LittleEndian (writer_new (zw_buffer Z) zw) v)"

section \<open>The wire form\<close>

text \<open>
  What a value is on the wire at stream position \<open>p\<close>, and which values have a type:
  strings are UTF-8 and fit their length field, sequences stay under the reader's limit.
\<close>

lemma enc_seq_cong [fundef_cong]:
  assumes "p = q" and "xs = ys" and "\<And>r x. x \<in> set ys \<Longrightarrow> f r x = g r x"
  shows "enc_seq f p xs = enc_seq g q ys"
  using assms
proof (induction ys arbitrary: p q xs)
  case Nil
  then show ?case by simp
next
  case (Cons y ys)
  then have "enc_seq f r ys = enc_seq g r ys" for r
    by (meson list.set_intros(2))
  with Cons.prems show ?case by simp
qed

fun cdr_enc :: "byte_order \<Rightarrow> nat \<Rightarrow> cdr_val \<Rightarrow> bytes" where
  "cdr_enc bo p (VBool v) = [if v then 1 else 0]"
| "cdr_enc bo p (VI8 v) = [v]"
| "cdr_enc bo p (VU8 v) = [v]"
| "cdr_enc bo p (VI16 v) = enc_word bo 2 p v"
| "cdr_enc bo p (VU16 v) = enc_word bo 2 p v"
| "cdr_enc bo p (VI32 v) = enc_word bo 4 p v"
| "cdr_enc bo p (VU32 v) = enc_word bo 4 p v"
| "cdr_enc bo p (VI64 v) = enc_word bo 8 p v"
| "cdr_enc bo p (VU64 v) = enc_word bo 8 p v"
| "cdr_enc bo p (VF32 v) = enc_word bo 4 p v"
| "cdr_enc bo p (VF64 v) = enc_word bo 8 p v"
| "cdr_enc bo p (VString s) = enc_string bo p s"
| "cdr_enc bo p (VVec vs) =
     (let l = enc_word bo 4 p (word_of_nat (length vs) :: u32)
      in l @ enc_seq (\<lambda>q x. cdr_enc bo q x) (p + length l) vs)"
| "cdr_enc bo p (VArray vs) = enc_seq (\<lambda>q x. cdr_enc bo q x) p vs"

primrec has_cdr_ty :: "cdr_ty \<Rightarrow> cdr_val \<Rightarrow> bool" where
  "has_cdr_ty TBool v = (case v of VBool _ \<Rightarrow> True | _ \<Rightarrow> False)"
| "has_cdr_ty TI8 v = (case v of VI8 _ \<Rightarrow> True | _ \<Rightarrow> False)"
| "has_cdr_ty TU8 v = (case v of VU8 _ \<Rightarrow> True | _ \<Rightarrow> False)"
| "has_cdr_ty TI16 v = (case v of VI16 _ \<Rightarrow> True | _ \<Rightarrow> False)"
| "has_cdr_ty TU16 v = (case v of VU16 _ \<Rightarrow> True | _ \<Rightarrow> False)"
| "has_cdr_ty TI32 v = (case v of VI32 _ \<Rightarrow> True | _ \<Rightarrow> False)"
| "has_cdr_ty TU32 v = (case v of VU32 _ \<Rightarrow> True | _ \<Rightarrow> False)"
| "has_cdr_ty TI64 v = (case v of VI64 _ \<Rightarrow> True | _ \<Rightarrow> False)"
| "has_cdr_ty TU64 v = (case v of VU64 _ \<Rightarrow> True | _ \<Rightarrow> False)"
| "has_cdr_ty TF32 v = (case v of VF32 _ \<Rightarrow> True | _ \<Rightarrow> False)"
| "has_cdr_ty TF64 v = (case v of VF64 _ \<Rightarrow> True | _ \<Rightarrow> False)"
| "has_cdr_ty TString v = (case v of VString s \<Rightarrow> utf8_valid s \<and> length s + 1 < 2 ^ 32 | _ \<Rightarrow> False)"
| "has_cdr_ty (TVec t) v =
     (case v of VVec vs \<Rightarrow> length vs \<le> 100000000 \<and> list_all (has_cdr_ty t) vs | _ \<Rightarrow> False)"
| "has_cdr_ty (TArray t n) v =
     (case v of VArray vs \<Rightarrow> length vs = n \<and> list_all (has_cdr_ty t) vs | _ \<Rightarrow> False)"

context cdr_buffer_laws
begin

lemma wrote_cdr:
  "wok w \<Longrightarrow> wrt w (cdr_serialize B bo w v :: ('b cdr_writer, 'e) res) (cdr_enc bo (writer_position B w) v)"
proof (induction v arbitrary: w)
  case (VVec vs)
  let ?l = "enc_word bo 4 (writer_position B w) (word_of_nat (length vs) :: u32)"
  have "wrt w' (res_fold (\<lambda>u x. cdr_serialize B bo u x) w' vs :: ('b cdr_writer, 'e) res)
      (enc_seq (\<lambda>q x. cdr_enc bo q x) (writer_position B w + length ?l) vs)"
    if "wok w'" and "writer_position B w' = writer_position B w + length ?l" for w'
    using wrote_fold [of w' vs "cdr_serialize B bo" "cdr_enc bo", OF that(1) VVec.IH] that(2)
    by simp
  from wrote_bind [OF VVec.prems wrote_sequence_length [OF VVec.prems] this]
  show ?case by (simp add: Let_def)
next
  case (VArray vs)
  then show ?case
    using wrote_fold [of w vs "cdr_serialize B bo" "cdr_enc bo", OF VArray.prems VArray.IH] by simp
qed (simp_all add: wrote_words wrote_octets wrote_string)

end

lemma decodes_rd_map: "decodes m p c a \<Longrightarrow> decodes (rd_map f m) p c (f a)"
  unfolding rd_map_def by (rule decodes_bind_return)

lemma decodes_cdr_list:
  assumes "\<And>v q. has_cdr_ty t v \<Longrightarrow> decodes (cdr_deserialize bo t) q (cdr_enc bo q v) v"
    and "list_all (has_cdr_ty t) vs"
  shows "decodes (rd_map C (read_n (length vs) (cdr_deserialize bo t))) p (enc_seq (cdr_enc bo) p vs) (C vs)"
proof -
  have "decodes (read_n (length vs) (cdr_deserialize bo t)) p (enc_seq (cdr_enc bo) p vs) (map (\<lambda>x. x) vs)"
    by (rule decodes_read_n) (use assms in \<open>simp add: list_all_iff\<close>)
  then show ?thesis
    using decodes_rd_map [of _ p _ vs C] by simp
qed

lemma decodes_cdr:
  "has_cdr_ty t v \<Longrightarrow> decodes (cdr_deserialize bo t) p (cdr_enc bo p v) v"
proof (induction t arbitrary: v p)
  case (TVec t)
  then obtain vs where vs: "v = VVec vs" and "length vs \<le> 100000000" and "list_all (has_cdr_ty t) vs"
    by (auto split: cdr_val.splits)
  moreover have "decodes (rd_map VVec (read_n (length vs) (cdr_deserialize bo t))) q (enc_seq (cdr_enc bo) q vs) (VVec vs)" for q
    using decodes_cdr_list [OF TVec.IH] \<open>list_all (has_cdr_ty t) vs\<close> by simp
  ultimately show ?case
    unfolding vs cdr_enc.simps cdr_deserialize.simps Let_def
    by (intro decodes_bind [OF decodes_sequence_length])
next
  case (TArray t n)
  with decodes_cdr_list [OF TArray.IH] show ?case
    by (auto split: cdr_val.splits)
qed (auto simp: decodes_rd_map decodes_words decodes_octets decodes_string split: cdr_val.splits)

lemma rd_safe_rd_map [rd_safe_intros]: "rd_safe m \<Longrightarrow> rd_safe (rd_map f m)"
  unfolding rd_map_def by (intro rd_safe_intros)

lemma rd_safe_cdr: "rd_safe (cdr_deserialize bo t)"
  by (induction t) (auto intro!: rd_safe_intros)

lemma foldl_size_enc_seq:
  assumes "\<And>x q. x \<in> set xs \<Longrightarrow> sz x q = q + length (enc q x)"
  shows "foldl (\<lambda>q x. sz x q) p xs = p + length (enc_seq enc p xs)"
  using assms by (induction xs arbitrary: p) simp_all

lemma cdr_size_enc: "cdr_serialized_size v p = p + length (cdr_enc bo p v)"
  by (induction v arbitrary: p)
     (simp_all add: Let_def enc_string_def add.assoc foldl_size_enc_seq [where enc = "cdr_enc bo"])


section \<open>Truncated input\<close>

lemma truncates_rd_map: "truncates m p c \<Longrightarrow> truncates (rd_map f m) p c"
  unfolding rd_map_def by (rule truncates_bind_first)

lemma truncates_cdr_list:
  assumes "\<And>v q. has_cdr_ty t v \<Longrightarrow> truncates (cdr_deserialize bo t) q (cdr_enc bo q v)"
    and "list_all (has_cdr_ty t) vs"
  shows "truncates (rd_map C (read_n (length vs) (cdr_deserialize bo t))) p (enc_seq (cdr_enc bo) p vs)"
  by (intro truncates_rd_map truncates_read_n [where f = "\<lambda>x. x"])
     (use assms in \<open>simp add: list_all_iff decodes_cdr\<close>)

lemma truncates_cdr:
  "has_cdr_ty t v \<Longrightarrow> truncates (cdr_deserialize bo t) p (cdr_enc bo p v)"
proof (induction t arbitrary: v p)
  case (TVec t)
  then obtain vs where vs: "v = VVec vs" and "length vs \<le> 100000000" and "list_all (has_cdr_ty t) vs"
    by (auto split: cdr_val.splits)
  moreover have "truncates (rd_map VVec (read_n (length vs) (cdr_deserialize bo t))) q (enc_seq (cdr_enc bo) q vs)" for q
    using truncates_cdr_list [OF TVec.IH] \<open>list_all (has_cdr_ty t) vs\<close> by simp
  ultimately show ?case
    unfolding vs cdr_enc.simps cdr_deserialize.simps Let_def
    by (intro truncates_bind [OF truncates_sequence_length decodes_sequence_length])
next
  case (TArray t n)
  with truncates_cdr_list [OF TArray.IH] show ?case
    by (auto split: cdr_val.splits)
qed (auto simp: truncates_rd_map truncates_words truncates_octets truncates_string split: cdr_val.splits)

section \<open>Values read are well-typed\<close>

text \<open>
  \<open>rd_yields L m P\<close>: on inputs shorter than \<open>L\<close>, whatever their bytes, a value the
  reader \<open>m\<close> returns satisfies \<open>P\<close>.
\<close>

definition rd_yields :: "nat \<Rightarrow> 'a rd \<Rightarrow> ('a \<Rightarrow> bool) \<Rightarrow> bool" where
  "rd_yields L m P \<longleftrightarrow>
     (\<forall>r x r'. rd_ok r \<longrightarrow> length (rd_input r) < L \<longrightarrow> m r = (Ok x, r') \<longrightarrow> P x \<and> rd_ok r' \<and> rd_input r' = rd_input r)"

lemma rd_yields_safe: "rd_safe m \<Longrightarrow> rd_yields L m (\<lambda>_. True)"
  unfolding rd_yields_def using rd_safeD by blast

lemma rd_yields_return: "P x \<Longrightarrow> rd_yields L (rd_return x) P"
  by (simp add: rd_yields_def rd_return_def)

lemma rd_yields_fail: "rd_yields L (rd_fail e) P"
  by (simp add: rd_yields_def rd_fail_def)

lemma rd_yields_bind:
  assumes m: "rd_yields L m P" and k: "\<And>a. P a \<Longrightarrow> rd_yields L (k a) Q"
  shows "rd_yields L (rd_bind m k) Q"
  unfolding rd_yields_def
proof (intro allI impI)
  fix r y s
  assume r: "rd_ok r" "length (rd_input r) < L" and eq: "rd_bind m k r = (Ok y, s)"
  then obtain a r' where mr: "m r = (Ok a, r')" and kr: "k a r' = (Ok y, s)"
    by (auto simp: rd_bind_def split: prod.splits res.splits)
  have "P a \<and> rd_ok r' \<and> rd_input r' = rd_input r"
    using m r mr unfolding rd_yields_def by blast
  then show "Q y \<and> rd_ok s \<and> rd_input s = rd_input r"
    using k [of a] r kr unfolding rd_yields_def by (metis (no_types))
qed

lemma rd_yields_map: "rd_yields L m P \<Longrightarrow> (\<And>x. P x \<Longrightarrow> Q (f x)) \<Longrightarrow> rd_yields L (rd_map f m) Q"
  unfolding rd_map_def by (rule rd_yields_bind [where P = P]) (auto intro: rd_yields_return)

lemma rd_yields_bytes: "rd_yields L (read_bytes n) (\<lambda>bs. length bs = n \<and> n < L)"
  by (auto simp: rd_yields_def read_bytes_def reader_remaining_def rd_ok_def split: if_splits)

lemma rd_yields_mono: "rd_yields L m P \<Longrightarrow> (\<And>x. P x \<Longrightarrow> Q x) \<Longrightarrow> rd_yields L m Q"
  unfolding rd_yields_def by blast

lemma rd_yields_byte_sequence: "rd_yields L (read_byte_sequence bo) (\<lambda>bs. length bs < L)"
  unfolding read_byte_sequence_def
proof (rule rd_yields_bind [OF rd_yields_safe [OF rd_safe_words(4)]])
  show "rd_yields L (read_bytes (unat n)) (\<lambda>bs. length bs < L)" for n :: u32
    by (rule rd_yields_mono [OF rd_yields_bytes]) simp
qed

lemma rd_yields_string_of_bytes:
  "length bs < L \<Longrightarrow> rd_yields L (string_of_bytes bs) (\<lambda>s. utf8_valid s \<and> length s < L)"
  unfolding string_of_bytes_def Let_def by (auto intro!: rd_yields_return rd_yields_fail)

lemma rd_yields_string:
  assumes "0 < L"
  shows "rd_yields L (read_string bo) (\<lambda>s. utf8_valid s \<and> length s < L)"
  unfolding read_string_def
proof (rule rd_yields_bind [OF rd_yields_safe [OF rd_safe_words(4)]])
  fix n :: u32
  have "rd_yields L (rd_bind (read_bytes (unat n)) string_of_bytes) (\<lambda>s. utf8_valid s \<and> length s < L)"
    by (rule rd_yields_bind [OF rd_yields_bytes]) (simp add: rd_yields_string_of_bytes)
  moreover have "utf8_valid []" by (simp add: utf8_valid.simps)
  ultimately show "rd_yields L (if unat n = 0 then rd_return [] else rd_bind (read_bytes (unat n)) string_of_bytes)
      (\<lambda>s. utf8_valid s \<and> length s < L)"
    using assms by (auto intro!: rd_yields_return)
qed

lemma rd_yields_sequence_length: "rd_yields L (read_sequence_length bo) (\<lambda>n. n \<le> 100000000)"
  unfolding read_sequence_length_def
  by (rule rd_yields_bind [OF rd_yields_safe [OF rd_safe_words(4)]])
     (auto intro!: rd_yields_return rd_yields_fail simp: max_sequence_length_def word_less_nat_alt)

lemma rd_yields_read_n:
  "rd_yields L m P \<Longrightarrow> rd_yields L (read_n n m) (\<lambda>xs. length xs = n \<and> list_all P xs)"
proof (induction n)
  case 0
  then show ?case by (simp add: rd_yields_return)
next
  case (Suc n)
  show ?case
    unfolding read_n.simps
    by (rule rd_yields_bind [OF Suc.prems], rule rd_yields_bind [OF Suc.IH [OF Suc.prems]])
       (simp add: rd_yields_return)
qed

lemma rd_yields_cdr:
  "rd_yields (2 ^ 32 - 1) (cdr_deserialize bo t) (has_cdr_ty t)"
proof (induction t)
  case TString
  then show ?case
    unfolding cdr_deserialize.simps by (intro rd_yields_map [OF rd_yields_string]) simp_all
next
  case (TVec t)
  then show ?case
    unfolding cdr_deserialize.simps
    by (intro rd_yields_bind [OF rd_yields_sequence_length] rd_yields_map [OF rd_yields_read_n]) simp_all
next
  case (TArray t n)
  then show ?case
    unfolding cdr_deserialize.simps by (intro rd_yields_map [OF rd_yields_read_n]) simp_all
qed (auto intro!: rd_yields_map [OF rd_yields_safe] rd_safe_intros)

section \<open>Properties\<close>

lemma vec_write:
  obtains w' where "(cdr_serialize vec_buffer bo (writer_new vec_buffer b) v :: (bytes cdr_writer, 'e) res) = Ok w'"
    and "wr_buffer w' = b @ cdr_enc bo 0 v"
proof -
  have "wrote (\<lambda>b. b) (\<lambda>_. True) (writer_new vec_buffer b)
      (cdr_serialize vec_buffer bo (writer_new vec_buffer b) v :: (bytes cdr_writer, 'e) res) (cdr_enc bo 0 v)"
    using vecb.wrote_cdr [of "writer_new vec_buffer b" bo v] vecb.new_ok [of b] by simp
  then show thesis using that by (auto simp: wrote_def writer_new_def)
qed

lemma decodes_at_start:
  assumes "decodes m 0 c v"
  shows "m (reader_new (c @ rest)) = (Ok v, \<lparr>rd_input = c @ rest, rd_position = length c\<rparr>)"
  using assms by (simp add: decodes_def reader_new_def)

text \<open>
  C1: writing a well-typed value with either byte order behind any bytes \<open>b\<close> already in
  a \<open>Vec<u8>\<close> succeeds, keeps \<open>b\<close>, and a reader started on the bytes written, with any
  bytes behind them, returns the value and stands exactly at their end.
\<close>

theorem cdr_roundtrip:
  assumes "has_cdr_ty t v"
  shows "\<exists>w' c. (cdr_serialize vec_buffer bo (writer_new vec_buffer b) v :: (bytes cdr_writer, 'e) res) = Ok w' \<and>
           wr_buffer w' = b @ c \<and>
           cdr_deserialize bo t (reader_new (c @ rest)) = (Ok v, \<lparr>rd_input = c @ rest, rd_position = length c\<rparr>)"
  using vec_write [of bo b v] decodes_at_start [OF decodes_cdr [OF assms]] by metis

lemma cdr_roundtrip_witness:
  "\<exists>w' c. (cdr_serialize vec_buffer BigEndian (writer_new vec_buffer [7]) (VVec [VArray [VU16 1, VU16 2]])
      :: (bytes cdr_writer, unit) res) = Ok w' \<and> wr_buffer w' = [7] @ c \<and>
      cdr_deserialize BigEndian (TVec (TArray TU16 2)) (reader_new (c @ [9])) =
        (Ok (VVec [VArray [VU16 1, VU16 2]]), \<lparr>rd_input = c @ [9], rd_position = length c\<rparr>)"
  using cdr_roundtrip [of "TVec (TArray TU16 2)" "VVec [VArray [VU16 1, VU16 2]]" BigEndian "[7]" "[9]"] by simp

text \<open>
  \<open>cdr_serialized_size\<close> is exact. \<open>cdr_to_vec\<close> always succeeds and returns as many
  bytes as \<open>cdr_serialized_size\<close> computes from position 0.
\<close>

theorem cdr_size_exact:
  "\<exists>bs. (cdr_to_vec v hint :: (bytes, 'e) res) = Ok bs \<and> length bs = cdr_serialized_size v 0"
proof -
  obtain w' where "(cdr_serialize vec_buffer LittleEndian (writer_new vec_buffer []) v :: (bytes cdr_writer, 'e) res) = Ok w'"
    and "wr_buffer w' = cdr_enc LittleEndian 0 v"
    using vec_write [of LittleEndian "[]" v] by auto
  then show ?thesis
    using cdr_size_enc [of v 0 LittleEndian] by (auto simp: cdr_to_vec_def)
qed

context zbuf_lib
begin

lemma zw_wrote_cdr:
  assumes "zw_invar Z zw"
  shows "wrote (zw_contents Z) (zw_invar Z) (writer_new (zw_buffer Z) zw)
           (cdr_serialize (zw_buffer Z) bo (writer_new (zw_buffer Z) zw) v) (cdr_enc bo 0 v)"
  using zwb.wrote_cdr [of "writer_new (zw_buffer Z) zw" bo v] zwb.new_ok [OF assms] by simp

end

text \<open>
  C14: the zero-copy path writes the same stream. On every \<open>ZBuf\<close> that appends what is
  pushed, \<open>cdr_to_zbuf_writer\<close> into a writer whose length counter is right succeeds and
  the resulting \<open>ZBuf\<close> holds the bytes before followed by the bytes of \<open>cdr_to_vec\<close>.
\<close>

theorem cdr_to_zbuf_writer_agrees:
  assumes "zbuf_lib Z" and "zw_invar Z zw"
  shows "\<exists>zw' bs. (cdr_to_zbuf_writer Z v zw :: ('z zbuf_writer, 'e) res) = Ok zw' \<and> zw_invar Z zw' \<and>
           (cdr_to_vec v hint :: (bytes, 'e) res) = Ok bs \<and>
           concat (z_zslices Z (zw_into_zbuf Z zw')) = concat (z_zslices Z (zw_into_zbuf Z zw)) @ bs"
proof -
  obtain w where "(cdr_serialize vec_buffer LittleEndian (writer_new vec_buffer []) v :: (bytes cdr_writer, 'e) res) = Ok w"
    and "wr_buffer w = cdr_enc LittleEndian 0 v"
    using vec_write [of LittleEndian "[]" v] by auto
  moreover have "wrote (zw_contents Z) (zw_invar Z) (writer_new (zw_buffer Z) zw)
      (cdr_serialize (zw_buffer Z) LittleEndian (writer_new (zw_buffer Z) zw) v :: ('z zbuf_writer cdr_writer, 'e) res)
      (cdr_enc LittleEndian 0 v)"
    by (rule zbuf_lib.zw_wrote_cdr [OF assms])
  ultimately show ?thesis
    by (auto simp: cdr_to_vec_def cdr_to_zbuf_writer_def wrote_def writer_new_def
        zbuf_lib.zw_into_zbuf_contents [OF assms(1)])
qed

lemma cdr_to_zbuf_writer_agrees_witness:
  "\<exists>zw' bs. (cdr_to_zbuf_writer slice_zbuf (VString [104, 105]) (zw_new slice_zbuf) :: (bytes list zbuf_writer, unit) res) = Ok zw' \<and>
     zw_invar slice_zbuf zw' \<and> (cdr_to_vec (VString [104, 105]) 0 :: (bytes, unit) res) = Ok bs \<and>
     concat (z_zslices slice_zbuf (zw_into_zbuf slice_zbuf zw')) =
     concat (z_zslices slice_zbuf (zw_into_zbuf slice_zbuf (zw_new slice_zbuf))) @ bs"
  using cdr_to_zbuf_writer_agrees [OF slz.zbuf_lib_axioms, of "zw_new slice_zbuf" "VString [104, 105]" 0]
    slz.zw_new_correct by blast

text \<open>
  C15: reading is memory safe on every input. From a position inside the input no
  implementation of \<open>CdrDeserialize\<close> panics, the position never moves backwards or past
  the end, and a value read from an input shorter than \<open>2^32 - 1\<close> bytes is well-typed:
  strings are UTF-8, sequences stay under the limit, arrays have their length. It can
  therefore be written and read back.
\<close>

theorem cdr_deserialize_safe:
  assumes "rd_ok r" and "cdr_deserialize bo t r = (x, r')"
  shows "x \<noteq> Panic \<and> rd_input r' = rd_input r \<and> rd_position r \<le> rd_position r' \<and>
         rd_position r' \<le> length (rd_input r) \<and>
         (\<forall>v. x = Ok v \<and> length (rd_input r) < 2 ^ 32 - 1 \<longrightarrow> has_cdr_ty t v)"
proof -
  have "has_cdr_ty t v" if "x = Ok v" and "length (rd_input r) < 2 ^ 32 - 1" for v
    using rd_yields_cdr [of bo t] assms that unfolding rd_yields_def by blast
  with rd_safeD [OF rd_safe_cdr assms] show ?thesis
    by (simp only: rd_ok_def) blast
qed

lemma cdr_deserialize_safe_witness:
  "rd_ok (reader_new [2]) \<and> cdr_deserialize LittleEndian TBool (reader_new [2]) = (Err (InvalidBool 2), \<lparr>rd_input = [2], rd_position = 1\<rparr>) \<and>
   rd_position (snd (cdr_deserialize LittleEndian TBool (reader_new [2]))) \<le> 1"
proof -
  have r: "rd_ok (reader_new [2])" by (simp add: rd_ok_def reader_new_def)
  have e: "cdr_deserialize LittleEndian TBool (reader_new [2]) = (Err (InvalidBool 2), \<lparr>rd_input = [2], rd_position = 1\<rparr>)"
    by (simp add: rd_map_def read_bool_def rd_bind_def read_bytes_def reader_new_def reader_remaining_def rd_fail_def Let_def)
  from cdr_deserialize_safe [OF r e] r e show ?thesis by simp
qed

text \<open>
  A message cut short is reported. If the bytes of a well-typed value are cut
  anywhere before their end, the reader returns \<open>UnexpectedEof\<close>, never a value.
\<close>

theorem cdr_truncation_detected:
  assumes "has_cdr_ty t v" and "(cdr_serialize vec_buffer bo (writer_new vec_buffer []) v :: (bytes cdr_writer, 'e) res) = Ok w'"
    and "k < length (wr_buffer w')"
  shows "fst (cdr_deserialize bo t (reader_new (take k (wr_buffer w')))) = Err UnexpectedEof"
proof -
  have "wr_buffer w' = cdr_enc bo 0 v"
    using vec_write [of bo "[]" v] assms(2) by (metis append_Nil res.inject(1))
  with truncates_cdr [OF assms(1), of bo 0] assms(3) show ?thesis
    by (simp add: truncates_def reader_new_def)
qed

lemma cdr_truncation_detected_witness:
  "fst (cdr_deserialize LittleEndian TString (reader_new (take 5 [2, 0, 0, 0, 104, 0]))) = Err UnexpectedEof"
proof -
  obtain w' where w': "(cdr_serialize vec_buffer LittleEndian (writer_new vec_buffer []) (VString [104]) :: (bytes cdr_writer, unit) res) = Ok w'"
    and "wr_buffer w' = [] @ cdr_enc LittleEndian 0 (VString [104])"
    by (rule vec_write)
  then have b: "wr_buffer w' = [2, 0, 0, 0, 104, 0]"
    by (simp add: enc_string_def enc_word_def cdr_padding_def bo_bytes_def le_bytes_4)
  have "has_cdr_ty TString (VString [104])" by (simp add: utf8_valid.simps)
  from cdr_truncation_detected [OF this w', of 5] show ?thesis unfolding b by simp
qed

lemma enc_seq_aligned:
  assumes "p mod n = 0" and "0 < n"
  shows "enc_seq (enc_word LittleEndian n) p xs = concat (map (le_bytes n) xs)"
  using assms(1)
proof (induction xs arbitrary: p)
  case (Cons x xs)
  then have "(p + n) mod n = 0" by simp
  with Cons show ?case by (simp add: enc_word_def cdr_padding_zero_of_aligned bo_bytes_def)
qed simp

lemma enc_seq_bulk:
  assumes "xs \<noteq> []" and "0 < n"
  shows "enc_seq (enc_word LittleEndian n) p xs = replicate (cdr_padding p n) 0 @ concat (map (le_bytes n) xs)"
proof -
  obtain x ys where xs: "xs = x # ys" using assms(1) by (cases xs) auto
  have "(p + (cdr_padding p n + n)) mod n = 0"
    using cdr_padding_aligned [OF assms(2), of p] by (simp add: add.assoc [symmetric])
  with enc_seq_aligned [of "p + (cdr_padding p n + n)" n ys] assms(2) xs show ?thesis
    by (simp add: enc_word_def bo_bytes_def)
qed

text \<open>
  The bulk path for plain values is the element-wise path. For words of size and
  alignment at most 8, \<open>write_pod_slice\<close> of a non-empty slice appends exactly what writing
  the elements one by one in little-endian order appends, and \<open>read_pod_slice\<close> reads the
  slice back.
\<close>

theorem pod_slice_bulk_agrees:
  fixes xs :: "'a::len word list"
  assumes "writer_ok (\<lambda>b. b) (\<lambda>_. True) w" and "xs \<noteq> []" and "0 < n" and "n \<le> 8" and "LENGTH('a) \<le> 8 * n"
    and "length xs * n \<le> usize_max"
  shows "\<exists>w' c. (write_pod_slice vec_buffer (word_pod n) w xs :: (bytes cdr_writer, 'e) res) = Ok w' \<and>
           (res_fold (write_word vec_buffer LittleEndian n) w xs :: (bytes cdr_writer, 'e) res) = Ok w' \<and>
           wr_buffer w' = wr_buffer w @ c \<and>
           decodes (read_pod_slice (word_pod n) (length xs)) (writer_position vec_buffer w) c xs"
proof -
  let ?p = "writer_position vec_buffer w"
  let ?c = "replicate (cdr_padding ?p n) 0 @ concat (map (le_bytes n) xs)"
  have "wrote (\<lambda>b. b) (\<lambda>_. True) w (write_pod_slice vec_buffer (word_pod n) w xs :: (bytes cdr_writer, 'e) res) ?c"
    using vecb.wrote_pod_slice [OF assms(1), of "word_pod n" xs] assms(3,4) by (simp add: word_pod_def)
  moreover have "wrote (\<lambda>b. b) (\<lambda>_. True) w
      (res_fold (write_word vec_buffer LittleEndian n) w xs :: (bytes cdr_writer, 'e) res)
      (enc_seq (enc_word LittleEndian n) ?p xs)"
    by (rule vecb.wrote_fold [OF assms(1) vecb.wrote_word]) (use assms in simp_all)
  moreover have "decodes (read_pod_slice (word_pod n) (length xs)) ?p ?c xs"
    using decodes_pod_slice [of "word_pod n" xs ?p] assms
    by (simp add: word_pod_def of_le_bytes_inverse)
  ultimately show ?thesis
    using enc_seq_bulk [OF assms(2,3), of ?p] by (auto simp: wrote_def)
qed

lemma pod_slice_bulk_agrees_witness:
  "\<exists>w' c. (write_pod_slice vec_buffer (word_pod 4) (writer_new vec_buffer []) [1 :: u32, 2] :: (bytes cdr_writer, unit) res) = Ok w' \<and>
     (res_fold (write_word vec_buffer LittleEndian 4) (writer_new vec_buffer []) [1 :: u32, 2] :: (bytes cdr_writer, unit) res) = Ok w' \<and>
     wr_buffer w' = wr_buffer (writer_new vec_buffer []) @ c \<and>
     decodes (read_pod_slice (word_pod 4) (length [1 :: u32, 2])) (writer_position vec_buffer (writer_new vec_buffer [])) c [1 :: u32, 2]"
  by (rule pod_slice_bulk_agrees) (simp_all add: vecb.new_ok usize_max_def)

end
