(* ===== verification/Serde_Cdr.thy ===== *)
theory Serde_Cdr
  imports Cdr_Traits
begin

text \<open>
  \<open>crates/hiroz-cdr/src/serializer.rs\<close> and \<open>deserializer.rs\<close>: CDR as a data format of
  serde. A type that implements \<open>Serialize\<close> makes calls on a \<open>Serializer\<close>; the calls that
  one value makes are a tree, the datatype \<open>ser_val\<close> with one constructor per method of the
  trait. A type that implements \<open>Deserialize\<close> asks a \<open>Deserializer\<close> for what it expects; what
  a type asks for is the datatype \<open>de_ty\<close>, and the visitors it passes are those of the
  standard library and of derived implementations. The serializer and the deserializer are
  functions with one equation per method.
\<close>

section \<open>The data model\<close>

datatype ser_val =
    SBool bool | SU8 u8 | SU16 u16 | SU32 u32 | SU64 u64 | SU128 u128 | SI8 u8 | SI16 u16 | SI32 u32 | SI64 u64
  | SI128 u128 | SF32 u32 | SF64 u64 | SChar u32 | SStr bytes | SBytes bytes
  | SNone | SSome ser_val | SUnit | SUnitStruct | SUnitVariant u32
  | SNewtypeStruct ser_val | SNewtypeVariant u32 ser_val
  | SSeq "nat option" "ser_val list"
  | STuple "ser_val list" | STupleStruct "ser_val list" | STupleVariant u32 "ser_val list"
  | SMap "nat option" "(ser_val \<times> ser_val) list"
  | SStruct "ser_val list" | SStructVariant u32 "ser_val list"

datatype de_ty =
    DAny | DBool | DU8 | DU16 | DU32 | DU64 | DU128 | DI8 | DI16 | DI32 | DI64 | DI128 | DF32 | DF64 | DChar
  | DStr | DString | DBytes | DByteBuf | DIdentifier | DIgnoredAny
  | DOption de_ty | DUnit | DUnitStruct | DNewtypeStruct de_ty
  | DSeq de_ty | DTuple "de_ty list" | DTupleStruct "de_ty list" | DMap de_ty de_ty
  | DStruct "de_ty list" | DEnum "de_variant list"
  and de_variant = DUnitVariant | DNewtypeVariant de_ty | DTupleVariant "de_ty list" | DStructVariant "de_ty list"

section \<open>The serializer\<close>

lemma size_map_entry [termination_simp]:
  "kv \<in> set es \<Longrightarrow> size (fst kv) < Suc (size_list (size_prod size size) es)"
  "kv \<in> set es \<Longrightarrow> size (snd kv) < Suc (size_list (size_prod size size) es)"
  by (induction es) auto

text \<open>
  Unit values are not put on the wire, names are dropped, an enum is its variant index. The
  length of a sequence or map has to be known before its elements. The trait's own
  \<open>serialize_i128\<close> refuses.
\<close>

fun ser_serialize :: "'b cdr_buffer \<Rightarrow> byte_order \<Rightarrow> 'b cdr_writer \<Rightarrow> ser_val \<Rightarrow> ('b cdr_writer, cdr_error) res" where
  "ser_serialize B bo w (SBool v) = write_bool B w v"
| "ser_serialize B bo w (SU8 v) = write_u8 B w v"
| "ser_serialize B bo w (SU16 v) = write_u16 B bo w v"
| "ser_serialize B bo w (SU32 v) = write_u32 B bo w v"
| "ser_serialize B bo w (SU64 v) = write_u64 B bo w v"
| "ser_serialize B bo w (SU128 v) =
     res_bind (writer_align B w 16) (\<lambda>w1. Ok (writer_extend B w1 (bo_bytes bo 16 v)))"
| "ser_serialize B bo w (SI8 v) = write_i8 B w v"
| "ser_serialize B bo w (SI16 v) = write_i16 B bo w v"
| "ser_serialize B bo w (SI32 v) = write_i32 B bo w v"
| "ser_serialize B bo w (SI64 v) = write_i64 B bo w v"
| "ser_serialize B bo w (SI128 v) = Err (Custom ''i128 is not supported'')"
| "ser_serialize B bo w (SF32 v) = write_f32 B bo w v"
| "ser_serialize B bo w (SF64 v) = write_f64 B bo w v"
| "ser_serialize B bo w (SChar v) = write_u32 B bo w v"
| "ser_serialize B bo w (SStr v) = write_string B bo w v"
| "ser_serialize B bo w (SBytes v) = write_bytes B bo w v"
| "ser_serialize B bo w SNone = write_u32 B bo w 0"
| "ser_serialize B bo w (SSome v) = res_bind (write_u32 B bo w 1) (\<lambda>w1. ser_serialize B bo w1 v)"
| "ser_serialize B bo w SUnit = Ok w"
| "ser_serialize B bo w SUnitStruct = Ok w"
| "ser_serialize B bo w (SUnitVariant i) = write_u32 B bo w i"
| "ser_serialize B bo w (SNewtypeStruct v) = ser_serialize B bo w v"
| "ser_serialize B bo w (SNewtypeVariant i v) = res_bind (write_u32 B bo w i) (\<lambda>w1. ser_serialize B bo w1 v)"
| "ser_serialize B bo w (SSeq len vs) =
     (case len of None \<Rightarrow> Err UnknownLength
      | Some elem_count \<Rightarrow>
          res_bind (write_sequence_length B bo w elem_count) (\<lambda>w1. res_fold (\<lambda>u x. ser_serialize B bo u x) w1 vs))"
| "ser_serialize B bo w (STuple vs) = res_fold (\<lambda>u x. ser_serialize B bo u x) w vs"
| "ser_serialize B bo w (STupleStruct vs) = res_fold (\<lambda>u x. ser_serialize B bo u x) w vs"
| "ser_serialize B bo w (STupleVariant i vs) =
     res_bind (write_u32 B bo w i) (\<lambda>w1. res_fold (\<lambda>u x. ser_serialize B bo u x) w1 vs)"
| "ser_serialize B bo w (SMap len es) =
     (case len of None \<Rightarrow> Err UnknownLength
      | Some elem_count \<Rightarrow>
          res_bind (write_sequence_length B bo w elem_count)
            (\<lambda>w1. res_fold (\<lambda>u kv. res_bind (ser_serialize B bo u (fst kv)) (\<lambda>u1. ser_serialize B bo u1 (snd kv))) w1 es))"
| "ser_serialize B bo w (SStruct vs) = res_fold (\<lambda>u x. ser_serialize B bo u x) w vs"
| "ser_serialize B bo w (SStructVariant i vs) =
     res_bind (write_u32 B bo w i) (\<lambda>w1. res_fold (\<lambda>u x. ser_serialize B bo u x) w1 vs)"

definition to_buffer :: "'b cdr_buffer \<Rightarrow> byte_order \<Rightarrow> ser_val \<Rightarrow> 'b \<Rightarrow> ('b, cdr_error) res" where
  "to_buffer B bo v b = res_map wr_buffer (ser_serialize B bo (writer_new B (cb_clear B b)) v)"

text \<open>Capacity hints and \<open>reserve_4k\<close> size the allocation only.\<close>

definition to_vec :: "byte_order \<Rightarrow> ser_val \<Rightarrow> nat \<Rightarrow> (bytes, cdr_error) res" where
  "to_vec bo v capacity_hint = res_map wr_buffer (ser_serialize vec_buffer bo (writer_new vec_buffer []) v)"

definition to_vec_reuse :: "byte_order \<Rightarrow> ser_val \<Rightarrow> bytes \<Rightarrow> (bytes, cdr_error) res" where
  "to_vec_reuse bo v buffer = res_map wr_buffer (ser_serialize vec_buffer bo (writer_new vec_buffer (cb_clear vec_buffer buffer)) v)"

text \<open>A \<open>ZBuf\<close> field written without copying its slices.\<close>

definition serialize_zbuf :: "'z zbuf_ops \<Rightarrow> byte_order \<Rightarrow> 'z zbuf_writer cdr_writer \<Rightarrow> 'z \<Rightarrow> ('z zbuf_writer cdr_writer, cdr_error) res" where
  "serialize_zbuf Z bo w zbuf =
     (let len = sum_list (map length (z_zslices Z zbuf))
      in res_bind (write_u32 (zw_buffer Z) bo w (word_of_nat len))
           (\<lambda>w1. Ok (w1\<lparr>wr_buffer := zw_append_zbuf Z (wr_buffer w1) zbuf\<rparr>)))"

section \<open>The deserializer\<close>

text \<open>\<open>SequenceHelper\<close>; the counters are \<open>usize\<close>. Asking for the next element starts its read.\<close>

record seq_helper =
  element_counter :: u64
  expected_count :: u64

definition seq_helper_new :: "nat \<Rightarrow> seq_helper" where
  "seq_helper_new expected = \<lparr>element_counter = 0, expected_count = word_of_nat expected\<rparr>"

definition next_element :: "seq_helper \<Rightarrow> seq_helper option" where
  "next_element h =
     (if element_counter h = expected_count h then None
      else Some (h\<lparr>element_counter := element_counter h + 1\<rparr>))"

text \<open>
  The visitor of a growing collection asks until there is no further element. A visitor of
  a tuple asks once per component and reports a missing one.
\<close>

lemma next_element_less [termination_simp]:
  assumes "next_element h = Some h'"
  shows "unat (expected_count h' - element_counter h') < unat (expected_count h - element_counter h)"
proof -
  have h: "element_counter h \<noteq> expected_count h" "h' = h\<lparr>element_counter := element_counter h + 1\<rparr>"
    using assms by (auto simp: next_element_def split: if_splits)
  then have "expected_count h - element_counter h \<noteq> 0" by simp
  then have "unat (expected_count h - element_counter h - 1) < unat (expected_count h - element_counter h)"
    by (simp add: unat_minus_one unat_gt_0)
  then show ?thesis using h(2) by (simp add: algebra_simps)
qed

function visit_all :: "'a rd \<Rightarrow> seq_helper \<Rightarrow> 'a list rd" where
  "visit_all seed h =
     (case next_element h of None \<Rightarrow> rd_return []
      | Some h' \<Rightarrow> rd_bind seed (\<lambda>x. rd_bind (visit_all seed h') (\<lambda>xs. rd_return (x # xs))))"
  by auto
termination by (relation "measure (\<lambda>(seed, h). unat (expected_count h - element_counter h))") (auto simp: next_element_less)

declare visit_all.simps [simp del]

fun visit_each :: "'a rd list \<Rightarrow> seq_helper \<Rightarrow> 'a list rd" where
  "visit_each [] h = rd_return []"
| "visit_each (seed # seeds) h =
     (case next_element h of None \<Rightarrow> rd_fail (Custom ''invalid length'')
      | Some h' \<Rightarrow> rd_bind seed (\<lambda>x. rd_bind (visit_each seeds h') (\<lambda>xs. rd_return (x # xs))))"

text \<open>\<open>next_key_seed\<close> counts the entry, \<open>next_value_seed\<close> only reads.\<close>

definition read_entry :: "'a rd \<Rightarrow> 'b rd \<Rightarrow> ('a \<times> 'b) rd" where
  "read_entry key value = rd_bind key (\<lambda>k. rd_bind value (\<lambda>v. rd_return (k, v)))"

text \<open>\<open>char::from_u32\<close>: code points without the surrogates.\<close>

definition char_from_u32 :: "u32 \<Rightarrow> u32 option" where
  "char_from_u32 c = (if c < 0xD800 \<or> 0xDFFF < c \<and> c \<le> 0x10FFFF then Some c else None)"

definition read_char :: "byte_order \<Rightarrow> u32 rd" where
  "read_char bo = rd_bind (read_u32 bo)
     (\<lambda>codepoint. case char_from_u32 codepoint of Some c \<Rightarrow> rd_return c | None \<Rightarrow> rd_fail (InvalidChar codepoint))"

definition read_option :: "byte_order \<Rightarrow> ser_val rd \<Rightarrow> ser_val rd" where
  "read_option bo inner = rd_bind (read_u32 bo)
     (\<lambda>enum_tag. if enum_tag = 0 then rd_return SNone
                 else if enum_tag = 1 then rd_map SSome inner
                 else rd_fail (InvalidOptionTag enum_tag))"

text \<open>
  \<open>deserialize_enum\<close> and \<open>EnumerationHelper\<close>: the index is read after aligning, a derived
  implementation refuses an index it does not have, and the variant reads its own content.
\<close>

definition read_enum :: "byte_order \<Rightarrow> (u32 \<Rightarrow> ser_val rd) list \<Rightarrow> ser_val rd" where
  "read_enum bo variants = rd_bind (reader_align 4)
     (\<lambda>_. rd_bind (read_u32 bo)
       (\<lambda>enum_tag. if unat enum_tag < length variants then (variants ! unat enum_tag) enum_tag
                   else rd_fail (Custom ''invalid value'')))"

fun de_deserialize :: "byte_order \<Rightarrow> de_ty \<Rightarrow> ser_val rd"
  and de_variant_content :: "byte_order \<Rightarrow> de_variant \<Rightarrow> u32 \<Rightarrow> ser_val rd" where
  "de_deserialize bo DAny = rd_fail UnsupportedAny"
| "de_deserialize bo DBool = rd_map SBool read_bool"
| "de_deserialize bo DU8 = rd_map SU8 read_u8"
| "de_deserialize bo DU16 = rd_map SU16 (read_u16 bo)"
| "de_deserialize bo DU32 = rd_map SU32 (read_u32 bo)"
| "de_deserialize bo DU64 = rd_map SU64 (read_u64 bo)"
| "de_deserialize bo DU128 = rd_fail (Custom ''u128 is not supported'')"
| "de_deserialize bo DI8 = rd_map SI8 read_i8"
| "de_deserialize bo DI16 = rd_map SI16 (read_i16 bo)"
| "de_deserialize bo DI32 = rd_map SI32 (read_i32 bo)"
| "de_deserialize bo DI64 = rd_map SI64 (read_i64 bo)"
| "de_deserialize bo DI128 = rd_fail (Custom ''i128 is not supported'')"
| "de_deserialize bo DF32 = rd_map SF32 (read_f32 bo)"
| "de_deserialize bo DF64 = rd_map SF64 (read_f64 bo)"
| "de_deserialize bo DChar = rd_map SChar (read_char bo)"
| "de_deserialize bo DStr = rd_map SStr (read_str bo)"
| "de_deserialize bo DString = rd_map SStr (read_str bo)"
| "de_deserialize bo DBytes = rd_map SBytes (read_byte_sequence bo)"
| "de_deserialize bo DByteBuf = rd_map SBytes (read_byte_sequence bo)"
| "de_deserialize bo DIdentifier = rd_map SU32 (read_u32 bo)"
| "de_deserialize bo DIgnoredAny = rd_fail UnsupportedAny"
| "de_deserialize bo (DOption t) = read_option bo (de_deserialize bo t)"
| "de_deserialize bo DUnit = rd_return SUnit"
| "de_deserialize bo DUnitStruct = rd_return SUnitStruct"
| "de_deserialize bo (DNewtypeStruct t) = rd_map SNewtypeStruct (de_deserialize bo t)"
| "de_deserialize bo (DSeq t) =
     rd_bind (read_sequence_length bo)
       (\<lambda>element_count. rd_map (\<lambda>vs. SSeq (Some (length vs)) vs) (visit_all (de_deserialize bo t) (seq_helper_new element_count)))"
| "de_deserialize bo (DTuple ts) =
     rd_map STuple (visit_each (map (\<lambda>t. de_deserialize bo t) ts) (seq_helper_new (length ts)))"
| "de_deserialize bo (DTupleStruct ts) =
     rd_map STupleStruct (visit_each (map (\<lambda>t. de_deserialize bo t) ts) (seq_helper_new (length ts)))"
| "de_deserialize bo (DMap k v) =
     rd_bind (read_sequence_length bo)
       (\<lambda>element_count. rd_map (\<lambda>es. SMap (Some (length es)) es)
          (visit_all (read_entry (de_deserialize bo k) (de_deserialize bo v)) (seq_helper_new element_count)))"
| "de_deserialize bo (DStruct ts) =
     rd_map SStruct (visit_each (map (\<lambda>t. de_deserialize bo t) ts) (seq_helper_new (length ts)))"
| "de_deserialize bo (DEnum vs) = read_enum bo (map (\<lambda>v. de_variant_content bo v) vs)"
| "de_variant_content bo DUnitVariant i = rd_return (SUnitVariant i)"
| "de_variant_content bo (DNewtypeVariant t) i = rd_map (SNewtypeVariant i) (de_deserialize bo t)"
| "de_variant_content bo (DTupleVariant ts) i =
     rd_map (STupleVariant i) (visit_each (map (\<lambda>t. de_deserialize bo t) ts) (seq_helper_new (length ts)))"
| "de_variant_content bo (DStructVariant ts) i =
     rd_map (SStructVariant i) (visit_each (map (\<lambda>t. de_deserialize bo t) ts) (seq_helper_new (length ts)))"

definition from_bytes :: "byte_order \<Rightarrow> de_ty \<Rightarrow> bytes \<Rightarrow> (ser_val \<times> nat, cdr_error) res" where
  "from_bytes bo t input = (case de_deserialize bo t (reader_new input) of (x, r) \<Rightarrow> res_map (\<lambda>v. (v, rd_position r)) x)"

section \<open>Values of a type\<close>

text \<open>
  Which values a type can have. Strings and byte strings fit their length field, sequences
  and maps stay under the limit of the reader, and a tuple has fewer than \<open>2^64\<close> components.
  There is no rule for 128-bit integers and for self-describing data.
\<close>

inductive typed :: "de_ty \<Rightarrow> ser_val \<Rightarrow> bool" where
  "typed DBool (SBool b)"
| "typed DU8 (SU8 v8)"
| "typed DU16 (SU16 v16)"
| "typed DU32 (SU32 v32)"
| "typed DU64 (SU64 v64)"
| "typed DI8 (SI8 v8)"
| "typed DI16 (SI16 v16)"
| "typed DI32 (SI32 v32)"
| "typed DI64 (SI64 v64)"
| "typed DF32 (SF32 v32)"
| "typed DF64 (SF64 v64)"
| "char_from_u32 c = Some c \<Longrightarrow> typed DChar (SChar c)"
| "utf8_valid s \<Longrightarrow> length s + 1 < 2 ^ 32 \<Longrightarrow> typed DStr (SStr s)"
| "utf8_valid s \<Longrightarrow> length s + 1 < 2 ^ 32 \<Longrightarrow> typed DString (SStr s)"
| "length bs < 2 ^ 32 \<Longrightarrow> typed DBytes (SBytes bs)"
| "length bs < 2 ^ 32 \<Longrightarrow> typed DByteBuf (SBytes bs)"
| "typed DIdentifier (SU32 v32)"
| "typed (DOption t) SNone"
| "typed t v \<Longrightarrow> typed (DOption t) (SSome v)"
| "typed DUnit SUnit"
| "typed DUnitStruct SUnitStruct"
| "typed t v \<Longrightarrow> typed (DNewtypeStruct t) (SNewtypeStruct v)"
| typed_seq: "list_all (typed t) vs \<Longrightarrow> length vs \<le> 100000000 \<Longrightarrow> typed (DSeq t) (SSeq (Some (length vs)) vs)"
| typed_tuple: "list_all2 typed ts vs \<Longrightarrow> length ts < 2 ^ 64 \<Longrightarrow> typed (DTuple ts) (STuple vs)"
| typed_tuple_struct: "list_all2 typed ts vs \<Longrightarrow> length ts < 2 ^ 64 \<Longrightarrow> typed (DTupleStruct ts) (STupleStruct vs)"
| typed_map: "list_all (\<lambda>kv. typed tk (fst kv) \<and> typed tv (snd kv)) es \<Longrightarrow> length es \<le> 100000000 \<Longrightarrow>
    typed (DMap tk tv) (SMap (Some (length es)) es)"
| typed_struct: "list_all2 typed ts vs \<Longrightarrow> length ts < 2 ^ 64 \<Longrightarrow> typed (DStruct ts) (SStruct vs)"
| typed_unit_variant: "unat i < length variants \<Longrightarrow> variants ! unat i = DUnitVariant \<Longrightarrow> typed (DEnum variants) (SUnitVariant i)"
| typed_newtype_variant: "unat i < length variants \<Longrightarrow> variants ! unat i = DNewtypeVariant t \<Longrightarrow> typed t v \<Longrightarrow>
    typed (DEnum variants) (SNewtypeVariant i v)"
| typed_tuple_variant: "unat i < length variants \<Longrightarrow> variants ! unat i = DTupleVariant ts \<Longrightarrow> list_all2 typed ts vs \<Longrightarrow>
    length ts < 2 ^ 64 \<Longrightarrow> typed (DEnum variants) (STupleVariant i vs)"
| typed_struct_variant: "unat i < length variants \<Longrightarrow> variants ! unat i = DStructVariant ts \<Longrightarrow> list_all2 typed ts vs \<Longrightarrow>
    length ts < 2 ^ 64 \<Longrightarrow> typed (DEnum variants) (SStructVariant i vs)"

section \<open>The wire form\<close>

definition enc_counted :: "byte_order \<Rightarrow> nat \<Rightarrow> u32 \<Rightarrow> (nat \<Rightarrow> bytes) \<Rightarrow> bytes" where
  "enc_counted bo p n rest = (let l = enc_word bo 4 p n in l @ rest (p + length l))"

lemma enc_counted_cong [fundef_cong]:
  "bo = bo' \<Longrightarrow> p = p' \<Longrightarrow> n = n' \<Longrightarrow> (\<And>q. f q = g q) \<Longrightarrow> enc_counted bo p n f = enc_counted bo' p' n' g"
  by (simp add: enc_counted_def)

definition enc_pair :: "(nat \<Rightarrow> bytes) \<Rightarrow> (nat \<Rightarrow> bytes) \<Rightarrow> nat \<Rightarrow> bytes" where
  "enc_pair f g p = f p @ g (p + length (f p))"

lemma enc_pair_cong [fundef_cong]:
  "p = p' \<Longrightarrow> (\<And>q. f q = f' q) \<Longrightarrow> (\<And>q. g q = g' q) \<Longrightarrow> enc_pair f g p = enc_pair f' g' p'"
  by (simp add: enc_pair_def)

fun ser_enc :: "byte_order \<Rightarrow> nat \<Rightarrow> ser_val \<Rightarrow> bytes" where
  "ser_enc bo p (SBool v) = [if v then 1 else 0]"
| "ser_enc bo p (SU8 v) = [v]"
| "ser_enc bo p (SU16 v) = enc_word bo 2 p v"
| "ser_enc bo p (SU32 v) = enc_word bo 4 p v"
| "ser_enc bo p (SU64 v) = enc_word bo 8 p v"
| "ser_enc bo p (SU128 v) = enc_word bo 16 p v"
| "ser_enc bo p (SI8 v) = [v]"
| "ser_enc bo p (SI16 v) = enc_word bo 2 p v"
| "ser_enc bo p (SI32 v) = enc_word bo 4 p v"
| "ser_enc bo p (SI64 v) = enc_word bo 8 p v"
| "ser_enc bo p (SI128 v) = []"
| "ser_enc bo p (SF32 v) = enc_word bo 4 p v"
| "ser_enc bo p (SF64 v) = enc_word bo 8 p v"
| "ser_enc bo p (SChar v) = enc_word bo 4 p v"
| "ser_enc bo p (SStr v) = enc_string bo p v"
| "ser_enc bo p (SBytes v) = enc_bytes bo p v"
| "ser_enc bo p SNone = enc_word bo 4 p (0 :: u32)"
| "ser_enc bo p (SSome v) = enc_counted bo p 1 (\<lambda>q. ser_enc bo q v)"
| "ser_enc bo p SUnit = []"
| "ser_enc bo p SUnitStruct = []"
| "ser_enc bo p (SUnitVariant i) = enc_word bo 4 p i"
| "ser_enc bo p (SNewtypeStruct v) = ser_enc bo p v"
| "ser_enc bo p (SNewtypeVariant i v) = enc_counted bo p i (\<lambda>q. ser_enc bo q v)"
| "ser_enc bo p (SSeq len vs) = enc_counted bo p (word_of_nat (the len)) (\<lambda>q. enc_seq (\<lambda>q x. ser_enc bo q x) q vs)"
| "ser_enc bo p (STuple vs) = enc_seq (\<lambda>q x. ser_enc bo q x) p vs"
| "ser_enc bo p (STupleStruct vs) = enc_seq (\<lambda>q x. ser_enc bo q x) p vs"
| "ser_enc bo p (STupleVariant i vs) = enc_counted bo p i (\<lambda>q. enc_seq (\<lambda>q x. ser_enc bo q x) q vs)"
| "ser_enc bo p (SMap len es) =
     enc_counted bo p (word_of_nat (the len))
       (\<lambda>q. enc_seq (\<lambda>q kv. enc_pair (\<lambda>q. ser_enc bo q (fst kv)) (\<lambda>q. ser_enc bo q (snd kv)) q) q es)"
| "ser_enc bo p (SStruct vs) = enc_seq (\<lambda>q x. ser_enc bo q x) p vs"
| "ser_enc bo p (SStructVariant i vs) = enc_counted bo p i (\<lambda>q. enc_seq (\<lambda>q x. ser_enc bo q x) q vs)"

context cdr_buffer_laws
begin

lemma wrote_counted:
  assumes "wok w" and "\<And>w'. wok w' \<Longrightarrow> wrt w' (k w') (f (writer_position B w'))"
  shows "wrt w (res_bind (write_u32 B bo w n) k) (enc_counted bo (writer_position B w) n f)"
proof -
  have "wrt w' (k w') (f (writer_position B w + length (enc_word bo 4 (writer_position B w) n)))"
    if "wok w'" and "writer_position B w' = writer_position B w + length (enc_word bo 4 (writer_position B w) n)" for w'
    using assms(2) [OF that(1)] that(2) by simp
  from wrote_bind [OF assms(1) wrote_words(4) [OF assms(1)] this] show ?thesis
    by (simp add: enc_counted_def Let_def)
qed

lemma wrote_pair:
  assumes "wok w" and "\<And>w'. wok w' \<Longrightarrow> wrt w' (m w') (f (writer_position B w'))"
    and "\<And>w'. wok w' \<Longrightarrow> wrt w' (k w') (g (writer_position B w'))"
  shows "wrt w (res_bind (m w) k) (enc_pair f g (writer_position B w))"
proof -
  have "wrt w' (k w') (g (writer_position B w + length (f (writer_position B w))))"
    if "wok w'" and "writer_position B w' = writer_position B w + length (f (writer_position B w))" for w'
    using assms(3) [OF that(1)] that(2) by simp
  from wrote_bind [OF assms(1) assms(2) [OF assms(1)] this] show ?thesis
    by (simp add: enc_pair_def)
qed

lemma wrote_all:
  assumes "wok w" and "\<And>x w. x \<in> set vs \<Longrightarrow> wok w \<Longrightarrow> wrt w (ser_serialize B bo w x) (ser_enc bo (writer_position B w) x)"
  shows "wrt w (res_fold (\<lambda>u x. ser_serialize B bo u x) w vs) (enc_seq (\<lambda>q x. ser_enc bo q x) (writer_position B w) vs)"
  by (rule wrote_fold [OF assms(1)]) (use assms(2) in blast)

lemma wrote_typed:
  "typed t v \<Longrightarrow> wok w \<Longrightarrow> wrt w (ser_serialize B bo w v) (ser_enc bo (writer_position B w) v)"
proof (induction t v arbitrary: w rule: typed.induct)
  case (typed_seq t vs)
  then show ?case
    unfolding ser_serialize.simps ser_enc.simps option.case option.sel write_sequence_length_def
    by (intro wrote_counted wrote_all) (auto simp: list_all_iff)
next
  case (typed_map tk tv es)
  have entry: "wrt w (res_bind (ser_serialize B bo w (fst kv)) (\<lambda>u. ser_serialize B bo u (snd kv)))
      (enc_pair (\<lambda>q. ser_enc bo q (fst kv)) (\<lambda>q. ser_enc bo q (snd kv)) (writer_position B w))"
    if "kv \<in> set es" and "wok w" for kv w
    using typed_map.IH that by (intro wrote_pair) (auto simp: list_all_iff)
  show ?case
    unfolding ser_serialize.simps ser_enc.simps option.case option.sel write_sequence_length_def
    by (intro wrote_counted typed_map.prems wrote_fold entry)
qed (auto intro!: wrote_counted wrote_all wrote_words wrote_octets wrote_string wrote_bytes wrote_return
    simp: write_bool_def wrote_push in_set_conv_nth list_all2_conv_all_nth)

end

section \<open>Reading back\<close>

lemma next_element_Suc:
  assumes "unat (expected_count h - element_counter h) = Suc n"
  obtains h' where "next_element h = Some h'" and "unat (expected_count h' - element_counter h') = n"
proof -
  let ?d = "expected_count h - element_counter h"
  have "?d \<noteq> 0" using assms by auto
  then have "unat (?d - 1) = n" using assms by (simp add: unat_minus_one)
  moreover have "expected_count h - (element_counter h + 1) = ?d - 1" by simp
  ultimately have "unat (expected_count h - (element_counter h + 1)) = n" by metis
  then show thesis
    using that [of "h\<lparr>element_counter := element_counter h + 1\<rparr>"] \<open>?d \<noteq> 0\<close> by (simp add: next_element_def)
qed

lemma next_element_0: "unat (expected_count h - element_counter h) = 0 \<Longrightarrow> next_element h = None"
  by (simp add: next_element_def unat_eq_0)

lemma visit_all_read_n: "unat (expected_count h - element_counter h) = n \<Longrightarrow> visit_all m h = read_n n m"
proof (induction n arbitrary: h)
  case 0
  then show ?case by (simp add: visit_all.simps next_element_0)
next
  case (Suc n)
  obtain h' where "next_element h = Some h'" and "unat (expected_count h' - element_counter h') = n"
    by (rule next_element_Suc [OF Suc.prems])
  then show ?case by (simp add: visit_all.simps [of m h] Suc.IH)
qed

lemma seq_helper_new_count: "n < 2 ^ 64 \<Longrightarrow> unat (expected_count (seq_helper_new n) - element_counter (seq_helper_new n)) = n"
  by (simp add: seq_helper_new_def unat_of_nat take_bit_nat_eq_self)

lemma visit_all_new: "n < 2 ^ 64 \<Longrightarrow> visit_all m (seq_helper_new n) = read_n n m"
  by (rule visit_all_read_n [OF seq_helper_new_count])

lemma decodes_visit_each:
  assumes "list_all2 (\<lambda>m x. \<forall>q. decodes m q (enc q x) x) ms xs" and "unat (expected_count h - element_counter h) = length ms"
  shows "decodes (visit_each ms h) p (enc_seq enc p xs) xs"
  using assms
proof (induction ms xs arbitrary: h p rule: list_all2_induct)
  case Nil
  then show ?case by (simp add: decodes_return)
next
  case (Cons m ms x xs)
  obtain h' where h': "next_element h = Some h'" "unat (expected_count h' - element_counter h') = length ms"
    using Cons.prems by (auto elim: next_element_Suc)
  have "decodes (rd_bind (visit_each ms h') (\<lambda>ys. rd_return (x # ys))) q (enc_seq enc q xs) (x # xs)" for q
    by (rule decodes_bind_return [OF Cons.IH [OF h'(2)]])
  then show ?case using Cons.hyps(1) h'(1) by (auto intro!: decodes_bind)
qed

lemma decodes_counted:
  "(\<And>q. decodes (k n) q (f q) x) \<Longrightarrow> decodes (rd_bind (read_u32 bo) k) p (enc_counted bo p n f) x"
  unfolding enc_counted_def Let_def by (intro decodes_bind [OF decodes_words(4)])

lemma decodes_counted_nil:
  "(\<And>q. decodes (k n) q [] x) \<Longrightarrow> decodes (rd_bind (read_u32 bo) k) p (enc_word bo 4 p n) x"
  using decodes_counted [of k n "\<lambda>_. []"] by (simp add: enc_counted_def)

lemma decodes_sequence:
  assumes "n \<le> 100000000" and "\<And>q. decodes (k n) q (f q) x"
  shows "decodes (rd_bind (read_sequence_length bo) k) p (enc_counted bo p (word_of_nat n) f) x"
  unfolding enc_counted_def Let_def by (intro decodes_bind [OF decodes_sequence_length] assms)

lemma decodes_entry:
  assumes "\<And>q. decodes mk q (f q) k" and "\<And>q. decodes mv q (g q) v"
  shows "decodes (read_entry mk mv) p (enc_pair f g p) (k, v)"
  unfolding read_entry_def enc_pair_def
  by (intro decodes_bind [OF assms(1)] decodes_bind_return [OF assms(2)])

lemma align_read_u32: "rd_bind (reader_align 4) (\<lambda>_. rd_bind (read_u32 bo) k) = rd_bind (read_u32 bo) k"
proof
  fix r
  have again: "reader_align 4 r' = (Ok (), r')" if "reader_align 4 r = (Ok (), r')" for r'
  proof -
    have "(rd_position r + cdr_padding (rd_position r) 4) mod 4 = 0" by (rule cdr_padding_aligned) simp
    then have "rd_position r' mod 4 = 0"
      using that by (auto simp: reader_align_def cdr_padding_def Let_def split: if_splits)
    then show ?thesis by (simp add: reader_align_def)
  qed
  show "rd_bind (reader_align 4) (\<lambda>_. rd_bind (read_u32 bo) k) r = rd_bind (read_u32 bo) k r"
    using again by (auto simp: rd_bind_def read_u32_def read_word_def split: prod.splits res.splits)
qed

lemma decodes_enum:
  assumes "unat i < length vs" and "\<And>q. decodes ((vs ! unat i) i) q (f q) x"
  shows "decodes (read_enum bo vs) p (enc_counted bo p i f) x"
  unfolding read_enum_def align_read_u32 by (rule decodes_counted) (simp add: assms)

lemma list_all2_conjD: "list_all2 (\<lambda>x y. P x y \<and> Q x y) xs ys \<Longrightarrow> list_all2 Q xs ys"
  by (erule list_all2_mono) simp

lemma decodes_tuple:
  assumes "list_all2 (\<lambda>t v. \<forall>q. decodes (de_deserialize bo t) q (ser_enc bo q v) v) ts vs" and "length ts < 2 ^ 64"
  shows "decodes (rd_map C (visit_each (map (\<lambda>t. de_deserialize bo t) ts) (seq_helper_new (length ts)))) p
    (enc_seq (\<lambda>q x. ser_enc bo q x) p vs) (C vs)"
  by (intro decodes_rd_map decodes_visit_each) (use assms in \<open>simp_all add: seq_helper_new_count list_all2_map1\<close>)

lemma decodes_char: "char_from_u32 c = Some c \<Longrightarrow> decodes (read_char bo) p (enc_word bo 4 p c) c"
  unfolding read_char_def by (rule decodes_counted_nil) (simp add: decodes_return)

lemma decodes_none: "decodes (read_option bo m) p (enc_word bo 4 p (0 :: u32)) SNone"
  unfolding read_option_def by (rule decodes_counted_nil) (simp add: decodes_return)

lemma decodes_some:
  "(\<And>q. decodes m q (f q) v) \<Longrightarrow> decodes (read_option bo m) p (enc_counted bo p 1 f) (SSome v)"
  unfolding read_option_def by (rule decodes_counted) (simp add: decodes_rd_map)

lemma decodes_elements:
  assumes "list_all (\<lambda>v. \<forall>q. decodes m q (enc q v) v) vs" and "length vs \<le> 100000000"
  shows "decodes (rd_map C (visit_all m (seq_helper_new (length vs)))) p (enc_seq enc p vs) (C vs)"
proof -
  have "decodes (read_n (length vs) m) p (enc_seq enc p vs) (map (\<lambda>x. x) vs)"
    using assms(1) by (intro decodes_read_n) (simp add: list_all_iff)
  then show ?thesis using assms(2) by (simp add: visit_all_new decodes_rd_map)
qed

lemma decodes_typed: "typed t v \<Longrightarrow> decodes (de_deserialize bo t) p (ser_enc bo p v) v"
proof (induction t v arbitrary: p rule: typed.induct)
  case (typed_seq t vs)
  then show ?case
    unfolding ser_enc.simps de_deserialize.simps option.sel
    by (intro decodes_sequence decodes_elements [where C = "\<lambda>vs. SSeq (Some (length vs)) vs"]) (auto simp: list_all_iff)
next
  case (typed_map tk tv es)
  then show ?case
    unfolding ser_enc.simps de_deserialize.simps option.sel
    by (intro decodes_sequence decodes_elements [where C = "\<lambda>es. SMap (Some (length es)) es"])
      (auto simp: list_all_iff intro!: decodes_entry)
next
  case (typed_unit_variant i variants)
  have "decodes (read_enum bo (map (\<lambda>v. de_variant_content bo v) variants)) p (enc_counted bo p i (\<lambda>_. [])) (SUnitVariant i)"
    using typed_unit_variant by (intro decodes_enum) (simp_all add: decodes_return)
  then show ?case by (simp add: enc_counted_def)
next
  case (typed_newtype_variant i variants t v)
  then show ?case by (auto intro!: decodes_enum decodes_rd_map)
next
  case (typed_tuple_variant i variants ts vs)
  then show ?case by (auto intro!: decodes_enum decodes_tuple dest: list_all2_conjD)
next
  case (typed_struct_variant i variants ts vs)
  then show ?case by (auto intro!: decodes_enum decodes_tuple dest: list_all2_conjD)
next
  case (typed_tuple ts vs)
  then show ?case by (simp add: decodes_tuple list_all2_conjD)
next
  case (typed_tuple_struct ts vs)
  then show ?case by (simp add: decodes_tuple list_all2_conjD)
next
  case (typed_struct ts vs)
  then show ?case by (simp add: decodes_tuple list_all2_conjD)
qed (auto intro!: decodes_rd_map decodes_char decodes_none decodes_some decodes_return
    decodes_octets(3) [where b = True, simplified] decodes_octets(3) [where b = False, simplified]
    simp: decodes_words decodes_octets decodes_string decodes_byte_sequence)

section \<open>Reading arbitrary bytes\<close>

lemma rd_safe_visit_each [rd_safe_intros]: "list_all rd_safe ms \<Longrightarrow> rd_safe (visit_each ms h)"
  by (induction ms arbitrary: h) (auto intro!: rd_safe_intros split: option.split)

lemma rd_safe_visit_all [rd_safe_intros]: "rd_safe m \<Longrightarrow> rd_safe (visit_all m h)"
  using visit_all_read_n [of h _ m] by (auto intro: rd_safe_read_n)

lemma rd_safe_entry [rd_safe_intros]: "rd_safe mk \<Longrightarrow> rd_safe mv \<Longrightarrow> rd_safe (read_entry mk mv)"
  unfolding read_entry_def by (intro rd_safe_intros)

lemma rd_safe_char [rd_safe_intros]: "rd_safe (read_char bo)"
  unfolding read_char_def by (auto intro!: rd_safe_intros split: option.split)

lemma rd_safe_option [rd_safe_intros]: "rd_safe m \<Longrightarrow> rd_safe (read_option bo m)"
  unfolding read_option_def by (intro rd_safe_intros)

lemma rd_safe_enum [rd_safe_intros]: "(\<And>m i. m \<in> set ms \<Longrightarrow> rd_safe (m i)) \<Longrightarrow> rd_safe (read_enum bo ms)"
  unfolding read_enum_def by (auto intro!: rd_safe_bind rd_safe_align rd_safe_words rd_safe_fail)

lemma rd_safe_de: "rd_safe (de_deserialize bo t)" and rd_safe_de_variant: "rd_safe (de_variant_content bo v i)"
  by (induction bo t and bo v i rule: de_deserialize_de_variant_content.induct)
    (auto intro!: rd_safe_intros simp: list_all_iff)

lemma next_element_remaining:
  "next_element h = Some h' \<Longrightarrow> Suc (unat (expected_count h' - element_counter h')) = unat (expected_count h - element_counter h)"
  by (metis next_element_Suc next_element_0 not0_implies_Suc option.distinct(1) option.inject)

lemma rd_yields_visit_each:
  assumes "list_all2 (\<lambda>m t. rd_yields L m (P t)) ms ts"
  shows "rd_yields L (visit_each ms h) (\<lambda>xs. list_all2 P ts xs \<and> length ts \<le> unat (expected_count h - element_counter h))"
  using assms
proof (induction ms ts arbitrary: h rule: list_all2_induct)
  case Nil
  then show ?case by (simp add: rd_yields_return)
next
  case (Cons m ms t ts)
  have "rd_yields L (rd_bind m (\<lambda>x. rd_bind (visit_each ms h') (\<lambda>xs. rd_return (x # xs))))
      (\<lambda>xs. list_all2 P (t # ts) xs \<and> length (t # ts) \<le> unat (expected_count h - element_counter h))"
    if "next_element h = Some h'" for h'
    by (rule rd_yields_bind [OF Cons.hyps(1)], rule rd_yields_bind [OF Cons.IH])
      (use next_element_remaining [OF that] in \<open>simp add: rd_yields_return\<close>)
  then show ?case by (auto simp: rd_yields_fail split: option.split)
qed

lemma rd_yields_components:
  assumes "list_all2 (\<lambda>m t. rd_yields L m (P t)) ms ts" and "\<And>xs. list_all2 P ts xs \<Longrightarrow> length ts < 2 ^ 64 \<Longrightarrow> Q (C xs)"
  shows "rd_yields L (rd_map C (visit_each ms (seq_helper_new (length ts)))) Q"
proof (rule rd_yields_map [OF rd_yields_visit_each [OF assms(1)]])
  fix xs
  let ?n = "unat (expected_count (seq_helper_new (length ts)) - element_counter (seq_helper_new (length ts)))"
  assume "list_all2 P ts xs \<and> length ts \<le> ?n"
  moreover have "?n < 2 ^ 64" by (rule order_less_le_trans [OF unsigned_less]) simp
  ultimately show "Q (C xs)" using assms(2) by simp
qed

lemma rd_yields_elements:
  assumes "rd_yields L m P" and "\<And>xs. list_all P xs \<Longrightarrow> length xs \<le> 100000000 \<Longrightarrow> Q (C xs)"
  shows "rd_yields L (rd_bind (read_sequence_length bo) (\<lambda>n. rd_map C (visit_all m (seq_helper_new n)))) Q"
proof (rule rd_yields_bind [OF rd_yields_sequence_length])
  fix n :: nat
  assume n: "n \<le> 100000000"
  then have "visit_all m (seq_helper_new n) = read_n n m" by (intro visit_all_new) simp
  then show "rd_yields L (rd_map C (visit_all m (seq_helper_new n))) Q"
    using rd_yields_map [OF rd_yields_read_n [OF assms(1)], of n Q C] assms(2) n by simp
qed

lemma rd_yields_entry:
  assumes "rd_yields L mk P" and "rd_yields L mv Q"
  shows "rd_yields L (read_entry mk mv) (\<lambda>kv. P (fst kv) \<and> Q (snd kv))"
  unfolding read_entry_def
  by (rule rd_yields_bind [OF assms(1)], rule rd_yields_bind [OF assms(2)]) (simp add: rd_yields_return)

lemma rd_yields_counted:
  "(\<And>n. rd_yields L (k n) P) \<Longrightarrow> rd_yields L (rd_bind (read_u32 bo) k) P"
  by (rule rd_yields_bind [OF rd_yields_safe [OF rd_safe_words(4)]])

lemma rd_yields_char: "rd_yields L (read_char bo) (\<lambda>c. char_from_u32 c = Some c)"
  unfolding read_char_def
  by (rule rd_yields_counted) (auto simp: char_from_u32_def intro!: rd_yields_return rd_yields_fail)

lemma rd_yields_option: "rd_yields L m (typed t) \<Longrightarrow> rd_yields L (read_option bo m) (typed (DOption t))"
  unfolding read_option_def
  by (rule rd_yields_counted) (auto intro!: rd_yields_return rd_yields_fail rd_yields_map intro: typed.intros)

lemma rd_yields_enum:
  assumes "\<And>i. unat i < length ms \<Longrightarrow> rd_yields L ((ms ! unat i) i) P"
  shows "rd_yields L (read_enum bo ms) P"
  unfolding read_enum_def align_read_u32
  by (rule rd_yields_counted) (auto intro!: rd_yields_fail assms)

lemma rd_yields_short_bytes: "L \<le> 2 ^ 32 \<Longrightarrow> rd_yields L (read_byte_sequence bo) (\<lambda>bs. length bs < 2 ^ 32)"
  unfolding read_byte_sequence_def
  by (rule rd_yields_counted) (rule rd_yields_mono [OF rd_yields_bytes], simp)

lemma rd_yields_str: "0 < L \<Longrightarrow> rd_yields L (read_str bo) (\<lambda>s. utf8_valid s \<and> length s < L)"
  using rd_yields_string [of L bo] by (simp add: read_str_def read_string_def)

lemma rd_yields_de:
  shows "rd_yields (2 ^ 32 - 1) (de_deserialize bo t) (typed t)"
    and "unat i < length vs \<Longrightarrow> vs ! unat i = v \<Longrightarrow> rd_yields (2 ^ 32 - 1) (de_variant_content bo v i) (typed (DEnum vs))"
proof (induction t and v arbitrary: and i vs)
  case (DTuple ts)
  then show ?case unfolding de_deserialize.simps
    by (intro rd_yields_components [where P = typed]) (auto simp: list_all2_map1 list_all2_same intro: typed.intros)
next
  case (DTupleStruct ts)
  then show ?case unfolding de_deserialize.simps
    by (intro rd_yields_components [where P = typed]) (auto simp: list_all2_map1 list_all2_same intro: typed.intros)
next
  case (DStruct ts)
  then show ?case unfolding de_deserialize.simps
    by (intro rd_yields_components [where P = typed]) (auto simp: list_all2_map1 list_all2_same intro: typed.intros)
next
  case (DTupleVariant ts)
  then show ?case unfolding de_variant_content.simps
    by (intro rd_yields_components [where P = typed]) (auto simp: list_all2_map1 list_all2_same intro: typed.intros)
next
  case (DStructVariant ts)
  then show ?case unfolding de_variant_content.simps
    by (intro rd_yields_components [where P = typed]) (auto simp: list_all2_map1 list_all2_same intro: typed.intros)
next
  case (DSeq t)
  then show ?case unfolding de_deserialize.simps
    by (intro rd_yields_elements [where P = "typed t"] typed_seq)
next
  case (DMap k v)
  then show ?case unfolding de_deserialize.simps
    by (intro rd_yields_elements [OF rd_yields_entry] typed_map)
next
  case (DEnum vs)
  then show ?case by (auto intro!: rd_yields_enum)
next
  case (DOption t)
  then show ?case by (simp add: rd_yields_option)
next
  case (DNewtypeStruct t)
  then show ?case by (auto intro: rd_yields_map typed.intros)
next
  case (DNewtypeVariant t)
  then show ?case by (auto intro: rd_yields_map typed.intros)
qed (auto intro!: rd_yields_map [OF rd_yields_safe] rd_yields_map [OF rd_yields_char] rd_yields_map [OF rd_yields_str]
    rd_yields_map [OF rd_yields_short_bytes] rd_yields_return rd_yields_fail rd_safe_intros intro: typed.intros)

section \<open>Buffers without a copy\<close>

text \<open>A \<open>ZBuf\<close> field is on the wire what a byte string with the same contents is.\<close>

context zbuf_lib
begin

lemma serialize_zbuf_as_bytes:
  assumes "writer_ok (zw_contents Z) (zw_invar Z) w"
  shows "wrote (zw_contents Z) (zw_invar Z) w (serialize_zbuf Z bo w z)
    (ser_enc bo (writer_position (zw_buffer Z) w) (SBytes (concat (z_zslices Z z))))"
proof -
  have "wrote (zw_contents Z) (zw_invar Z) w' (Ok (w'\<lparr>wr_buffer := zw_append_zbuf Z (wr_buffer w') z\<rparr>)) (concat (z_zslices Z z))"
    if "writer_ok (zw_contents Z) (zw_invar Z) w'" for w'
    using that zw_append_zbuf_correct [of "wr_buffer w'" z] by (simp add: wrote_def writer_ok_def)
  then show ?thesis
    unfolding serialize_zbuf_def Let_def length_concat [symmetric] ser_enc.simps enc_bytes_def
    by (intro zwb.wrote_bind [OF assms zwb.wrote_words(4) [OF assms]])
qed

end

section \<open>Agreement with the traits\<close>

text \<open>
  The types with an implementation of \<open>CdrSerialize\<close> and \<open>CdrDeserialize\<close> implement the
  traits of serde too: a vector is a sequence, an array a tuple.
\<close>

fun as_ser :: "cdr_val \<Rightarrow> ser_val" where
  "as_ser (VBool v) = SBool v"
| "as_ser (VI8 v) = SI8 v"
| "as_ser (VU8 v) = SU8 v"
| "as_ser (VI16 v) = SI16 v"
| "as_ser (VU16 v) = SU16 v"
| "as_ser (VI32 v) = SI32 v"
| "as_ser (VU32 v) = SU32 v"
| "as_ser (VI64 v) = SI64 v"
| "as_ser (VU64 v) = SU64 v"
| "as_ser (VF32 v) = SF32 v"
| "as_ser (VF64 v) = SF64 v"
| "as_ser (VString v) = SStr v"
| "as_ser (VVec vs) = SSeq (Some (length vs)) (map as_ser vs)"
| "as_ser (VArray vs) = STuple (map as_ser vs)"

fun as_de :: "cdr_ty \<Rightarrow> de_ty" where
  "as_de TBool = DBool"
| "as_de TI8 = DI8"
| "as_de TU8 = DU8"
| "as_de TI16 = DI16"
| "as_de TU16 = DU16"
| "as_de TI32 = DI32"
| "as_de TU32 = DU32"
| "as_de TI64 = DI64"
| "as_de TU64 = DU64"
| "as_de TF32 = DF32"
| "as_de TF64 = DF64"
| "as_de TString = DString"
| "as_de (TVec t) = DSeq (as_de t)"
| "as_de (TArray t n) = DTuple (replicate n (as_de t))"

text \<open>Array lengths are \<open>usize\<close> constants.\<close>

fun usize_arrays :: "cdr_ty \<Rightarrow> bool" where
  "usize_arrays (TVec t) = usize_arrays t"
| "usize_arrays (TArray t n) = (n < 2 ^ 64 \<and> usize_arrays t)"
| "usize_arrays _ = True"

lemma as_ser_serialize: "ser_serialize B bo w (as_ser v) = cdr_serialize B bo w v"
proof (induction v arbitrary: w)
  case (VVec vs)
  then have "res_fold (\<lambda>u x. ser_serialize B bo u (as_ser x)) u vs = res_fold (\<lambda>u x. cdr_serialize B bo u x) u vs" for u
    by (intro res_fold_cong) simp_all
  then show ?case by (simp add: res_fold_map)
next
  case (VArray vs)
  then have "res_fold (\<lambda>u x. ser_serialize B bo u (as_ser x)) u vs = res_fold (\<lambda>u x. cdr_serialize B bo u x) u vs" for u
    by (intro res_fold_cong) simp_all
  then show ?case by (simp add: res_fold_map)
qed simp_all

lemma rd_bind_assoc: "rd_bind (rd_bind m k) l = rd_bind m (\<lambda>x. rd_bind (k x) l)"
  by (rule ext) (auto simp: rd_bind_def split: prod.splits res.splits)

lemma rd_map_rd_map: "rd_map f (rd_map g m) = rd_map (\<lambda>x. f (g x)) m"
  by (simp add: rd_map_def rd_bind_assoc)

lemma rd_map_rd_bind: "rd_map f (rd_bind m k) = rd_bind m (\<lambda>x. rd_map f (k x))"
  by (simp add: rd_map_def rd_bind_assoc)

lemma read_n_rd_map: "read_n n (rd_map f m) = rd_map (map f) (read_n n m)"
  by (induction n) (simp_all add: rd_map_def rd_bind_assoc)

lemma visit_each_replicate:
  "unat (expected_count h - element_counter h) = n \<Longrightarrow> visit_each (replicate n m) h = read_n n m"
proof (induction n arbitrary: h)
  case (Suc n)
  obtain h' where "next_element h = Some h'" and "unat (expected_count h' - element_counter h') = n"
    by (rule next_element_Suc [OF Suc.prems])
  then show ?case by (simp add: Suc.IH)
qed simp

lemma rd_bind_sequence_cong:
  assumes "\<And>n. n \<le> 100000000 \<Longrightarrow> k n = l n"
  shows "rd_bind (read_sequence_length bo) k = rd_bind (read_sequence_length bo) l"
proof
  fix r
  show "rd_bind (read_sequence_length bo) k r = rd_bind (read_sequence_length bo) l r"
  proof (cases "read_sequence_length bo r")
    case (Pair x r')
    then have "x = Ok n \<Longrightarrow> n \<le> 100000000" for n
      by (auto simp: read_sequence_length_def rd_bind_def rd_return_def rd_fail_def max_sequence_length_def word_less_nat_alt
          split: prod.splits res.splits if_splits)
    with Pair assms show ?thesis by (auto simp: rd_bind_def split: res.split)
  qed
qed

lemma as_de_deserialize:
  "usize_arrays t \<Longrightarrow> de_deserialize bo (as_de t) = rd_map as_ser (cdr_deserialize bo t)"
proof (induction t)
  case (TVec t)
  have "rd_map (\<lambda>vs. SSeq (Some (length vs)) vs) (visit_all (rd_map as_ser (cdr_deserialize bo t)) (seq_helper_new n)) =
      rd_map as_ser (rd_map VVec (read_n n (cdr_deserialize bo t)))" if "n \<le> 100000000" for n
    using that by (simp add: visit_all_new read_n_rd_map rd_map_rd_map)
  then show ?case
    using TVec by (simp add: rd_map_rd_bind) (rule rd_bind_sequence_cong)
next
  case (TArray t n)
  then show ?case
    by (simp add: visit_each_replicate seq_helper_new_count read_n_rd_map rd_map_rd_map)
qed (simp_all add: rd_map_rd_map read_str_def read_string_def)

section \<open>Properties\<close>

lemma to_vec_typed:
  assumes "typed t v"
  shows "to_vec bo v hint = Ok (ser_enc bo 0 v)"
proof -
  have "wrote (\<lambda>b. b) (\<lambda>_. True) (writer_new vec_buffer []) (ser_serialize vec_buffer bo (writer_new vec_buffer []) v) (ser_enc bo 0 v)"
    using vecb.wrote_typed [OF assms, of "writer_new vec_buffer []" bo] vecb.new_ok [of "[]"] by simp
  then show ?thesis by (auto simp: to_vec_def wrote_def writer_new_def)
qed

text \<open>
  C2: Any value of a type that can be read back survives CDR through serde: options, enums with
  all kinds of variants, nested structs, tuples, sequences and maps, in either byte order.
  Serializing succeeds, into a fresh vector and into a reused one whatever it held, and
  deserializing the bytes at the front of any input returns the value and how many bytes it
  took.
\<close>

theorem serde_roundtrip:
  assumes "typed t v"
  shows "\<exists>c. to_vec bo v hint = Ok c \<and> to_vec_reuse bo v old = Ok c \<and> from_bytes bo t (c @ rest) = Ok (v, length c)"
proof -
  have "to_vec_reuse bo v old = to_vec bo v hint" by (simp add: to_vec_reuse_def to_vec_def vec_buffer_def)
  moreover have "from_bytes bo t (ser_enc bo 0 v @ rest) = Ok (v, length (ser_enc bo 0 v))"
    unfolding from_bytes_def decodes_at_start [OF decodes_typed [OF assms]] by simp
  ultimately show ?thesis using to_vec_typed [OF assms, of bo hint] by (intro exI [of _ "ser_enc bo 0 v"]) simp
qed

lemma serde_roundtrip_witness:
  "\<exists>c. to_vec BigEndian (SStruct [SU8 1, SNewtypeVariant 1 (SSome (SU16 7))]) 0 = Ok c \<and>
     to_vec_reuse BigEndian (SStruct [SU8 1, SNewtypeVariant 1 (SSome (SU16 7))]) [9, 9] = Ok c \<and>
     from_bytes BigEndian (DStruct [DU8, DEnum [DUnitVariant, DNewtypeVariant (DOption DU16)]]) (c @ [3]) =
       Ok (SStruct [SU8 1, SNewtypeVariant 1 (SSome (SU16 7))], length c)"
proof (rule serde_roundtrip)
  have "typed (DEnum [DUnitVariant, DNewtypeVariant (DOption DU16)]) (SNewtypeVariant 1 (SSome (SU16 7)))"
    by (rule typed_newtype_variant [where t = "DOption DU16"]) (simp_all add: typed.intros(3,19))
  then have "list_all2 typed [DU8, DEnum [DUnitVariant, DNewtypeVariant (DOption DU16)]] [SU8 1, SNewtypeVariant 1 (SSome (SU16 7))]"
    by (simp add: typed.intros(2))
  then show "typed (DStruct [DU8, DEnum [DUnitVariant, DNewtypeVariant (DOption DU16)]]) (SStruct [SU8 1, SNewtypeVariant 1 (SSome (SU16 7))])"
    by (rule typed_struct) simp
qed

text \<open>
  C3: Deserializing is type safe on every input. It never panics, it never claims more bytes
  than there are, and on inputs below 4 GiB whatever it returns is a value of the type that
  was asked for: enum indices are those of variants, characters are code points, strings are
  UTF-8, collections are within the limit. Such a value can be serialized and read back.
\<close>

theorem serde_type_safe:
  shows "from_bytes bo t input \<noteq> Panic \<and>
    (\<forall>v n. from_bytes bo t input = Ok (v, n) \<longrightarrow>
       n \<le> length input \<and> (length input < 2 ^ 32 - 1 \<longrightarrow> typed t v \<and> (\<exists>c. to_vec bo v hint = Ok c \<and> from_bytes bo t c = Ok (v, length c))))"
proof -
  obtain x r where r: "de_deserialize bo t (reader_new input) = (x, r)" by force
  have ok: "rd_ok (reader_new input)" by (simp add: rd_ok_def reader_new_def)
  note safe = rd_safeD [OF rd_safe_de ok r]
  have typed: "typed t v" if "x = Ok v" and "length input < 2 ^ 32 - 1" for v
    using rd_yields_de(1) [of bo t, unfolded rd_yields_def, rule_format, OF ok] r that by (simp add: reader_new_def)
  have again: "\<exists>c. to_vec bo v hint = Ok c \<and> from_bytes bo t c = Ok (v, length c)" if "typed t v" for v
    using to_vec_typed [OF that, of bo hint] decodes_at_start [OF decodes_typed [OF that], of bo "[]"]
    by (simp add: from_bytes_def)
  have pos: "rd_position r \<le> length input" using safe by (simp add: rd_ok_def reader_new_def)
  have eq: "from_bytes bo t input = res_map (\<lambda>v. (v, rd_position r)) x" by (simp add: from_bytes_def r)
  show ?thesis
  proof (cases x)
    case (Ok v)
    then have "length input < 2 ^ 32 - 1 \<longrightarrow> typed t v \<and> (\<exists>c. to_vec bo v hint = Ok c \<and> from_bytes bo t c = Ok (v, length c))"
      using typed again by blast
    with pos show ?thesis unfolding eq Ok by auto
  qed (use safe(1) in \<open>simp_all add: eq\<close>)
qed

lemma serde_type_safe_witness:
  "from_bytes LittleEndian (DOption DU8) [1, 0, 0, 0, 7, 9] = Ok (SSome (SU8 7), 5) \<and>
   typed (DOption DU8) (SSome (SU8 7)) \<and>
   (\<exists>c. to_vec LittleEndian (SSome (SU8 7)) 0 = Ok c \<and> from_bytes LittleEndian (DOption DU8) c = Ok (SSome (SU8 7), length c))"
proof -
  have "from_bytes LittleEndian (DOption DU8) [1, 0, 0, 0, 7, 9] = Ok (SSome (SU8 7), 5)" by code_simp
  with serde_type_safe [of LittleEndian "DOption DU8" "[1, 0, 0, 0, 7, 9]" 0] show ?thesis by simp
qed

text \<open>
  C4: The two routes to CDR agree. For every type the CDR traits cover, the serde serializer
  does exactly what the trait does, on any buffer and from any writer, and the serde
  deserializer behaves like the trait on every input, errors and positions included.
\<close>

theorem serde_matches_traits:
  assumes "usize_arrays t"
  shows "ser_serialize B bo w (as_ser v) = cdr_serialize B bo w v \<and>
    de_deserialize bo (as_de t) r = (case cdr_deserialize bo t r of (x, r') \<Rightarrow> (res_map as_ser x, r'))"
proof -
  have "rd_map f m r = (case m r of (x, r') \<Rightarrow> (res_map f x, r'))" for f :: "cdr_val \<Rightarrow> ser_val" and m
    by (auto simp: rd_map_def rd_bind_def rd_return_def split: prod.split res.split)
  then show ?thesis by (simp add: as_ser_serialize as_de_deserialize [OF assms])
qed

lemma serde_matches_traits_witness:
  "ser_serialize vec_buffer BigEndian (writer_new vec_buffer []) (as_ser (VArray [VU16 1])) =
     cdr_serialize vec_buffer BigEndian (writer_new vec_buffer []) (VArray [VU16 1]) \<and>
   de_deserialize BigEndian (as_de (TArray TU16 1)) (reader_new [0, 1]) =
     (case cdr_deserialize BigEndian (TArray TU16 1) (reader_new [0, 1]) of (x, r') \<Rightarrow> (res_map as_ser x, r'))"
  by (rule serde_matches_traits) simp

end
