(* ===== verification/Dynamic_Schema.thy ===== *)
theory Dynamic_Schema
  imports Cdr_Primitives "HOL-Library.Sublist"
begin

text \<open>
  \<open>crates/hiroz/src/dynamic/schema.rs\<close>, \<open>value.rs\<close>, \<open>message.rs\<close> and
  \<open>error.rs\<close>: schemas, values and messages whose type is known at run time, access to
  fields by dotted path and by index, default values and the two builders. An \<open>Arc\<close> or
  a \<open>Box\<close> is the value it points to. Strings that name types and fields are \<open>string\<close>;
  string field values are UTF-8 byte lists. An error whose text the source builds with
  \<open>format!\<close> carries the data it formats.
\<close>

section \<open>Data\<close>

datatype field_type =
    FBool | FInt8 | FInt16 | FInt32 | FInt64 | FUint8 | FUint16 | FUint32 | FUint64
  | FFloat32 | FFloat64 | FString | FBoundedString nat
  | FMessage message_schema
  | FArray field_type nat
  | FSequence field_type
  | FBoundedSequence field_type nat
and message_schema =
    MessageSchema (ms_type_name: string) (ms_package: string) (ms_name: string)
      (ms_fields: "field_schema list") (ms_type_hash: "string option")
and field_schema =
    FieldSchema (fs_name: string) (fs_type: field_type) (fs_default: "dynamic_value option")
and dynamic_value =
    DBool bool | DInt8 u8 | DInt16 u16 | DInt32 u32 | DInt64 u64
  | DUint8 u8 | DUint16 u16 | DUint32 u32 | DUint64 u64
  | DFloat32 u32 | DFloat64 u64 | DString bytes
  | DBytes bytes
  | DMessage dynamic_message
  | DArray "dynamic_value list"
and dynamic_message =
    DynamicMessage (dm_schema: message_schema) (dm_values: "dynamic_value list")

text \<open>Induction over the structure of field types and of values, through nested messages.\<close>

lemma size_ms_field [termination_simp]:
  assumes "f \<in> set (ms_fields s)"
  shows "size (fs_type f) < size s"
proof -
  have "size f \<le> size_list size (ms_fields s)" using assms by (rule size_list_estimation') simp
  moreover have "size (fs_type f) < size f" by (cases f) simp
  ultimately show ?thesis by (cases s) simp
qed

lemma size_zip_field [termination_simp]:
  "(f, v) \<in> set (zip (ms_fields s) vs) \<Longrightarrow> size (fs_type f) < Suc (size s)"
  by (auto dest!: set_zip_leftD size_ms_field)

lemma size_dm_value [termination_simp]:
  assumes "v \<in> set (dm_values m)"
  shows "size v < size m"
proof -
  have "size v \<le> size_list size (dm_values m)" using assms by (rule size_list_estimation') simp
  then show ?thesis by (cases m) simp
qed

definition is_primitive :: "field_type \<Rightarrow> bool" where
  "is_primitive t = (case t of
     FBool \<Rightarrow> True | FInt8 \<Rightarrow> True | FInt16 \<Rightarrow> True | FInt32 \<Rightarrow> True | FInt64 \<Rightarrow> True
   | FUint8 \<Rightarrow> True | FUint16 \<Rightarrow> True | FUint32 \<Rightarrow> True | FUint64 \<Rightarrow> True
   | FFloat32 \<Rightarrow> True | FFloat64 \<Rightarrow> True | FString \<Rightarrow> True | FBoundedString _ \<Rightarrow> True
   | _ \<Rightarrow> False)"

lemma field_type_induct [case_names primitive FMessage FArray FSequence FBoundedSequence]:
  assumes "\<And>t. is_primitive t \<Longrightarrow> P t"
    and "\<And>s. (\<And>f. f \<in> set (ms_fields s) \<Longrightarrow> P (fs_type f)) \<Longrightarrow> P (FMessage s)"
    and "\<And>t n. P t \<Longrightarrow> P (FArray t n)"
    and "\<And>t. P t \<Longrightarrow> P (FSequence t)"
    and "\<And>t n. P t \<Longrightarrow> P (FBoundedSequence t n)"
  shows "P t"
proof (induction t rule: measure_induct_rule [where f = size])
  case (less t)
  have "P (FMessage s)" if "t = FMessage s" for s
    using that by (intro assms(2) less.IH) (simp add: size_ms_field less_SucI)
  then show ?case
    using less.IH assms(1,3-5) by (cases t) (simp_all add: is_primitive_def)
qed

section \<open>Field types\<close>

text \<open>\<open>size\<close> arithmetic is on \<open>usize\<close>; \<open>align_up\<close> is \<open>(size + align - 1) & !(align - 1)\<close>.\<close>

definition align_up :: "u64 \<Rightarrow> u64 \<Rightarrow> u64" where
  "align_up n align = (n + align - 1) AND NOT (align - 1)"

fun alignment :: "field_type \<Rightarrow> u64" and schema_alignment :: "message_schema \<Rightarrow> u64" where
  "alignment FBool = 1" | "alignment FInt8 = 1" | "alignment FUint8 = 1"
| "alignment FInt16 = 2" | "alignment FUint16 = 2"
| "alignment FInt32 = 4" | "alignment FUint32 = 4" | "alignment FFloat32 = 4"
| "alignment FInt64 = 8" | "alignment FUint64 = 8" | "alignment FFloat64 = 8"
| "alignment FString = 4" | "alignment (FBoundedString _) = 4"
| "alignment (FArray inner _) = alignment inner"
| "alignment (FSequence _) = 4" | "alignment (FBoundedSequence _ _) = 4"
| "alignment (FMessage schema) = schema_alignment schema"
| "schema_alignment schema =
     (case map (\<lambda>f. alignment (fs_type f)) (ms_fields schema) of [] \<Rightarrow> 1 | a # as \<Rightarrow> foldl max a as)"

text \<open>The \<open>for\<close> loop of \<open>fixed_cdr_size\<close>: the size so far, or None after the \<open>?\<close>.\<close>

fun opt_fold :: "('s \<Rightarrow> 'a \<Rightarrow> 's option) \<Rightarrow> 's \<Rightarrow> 'a list \<Rightarrow> 's option" where
  "opt_fold f s [] = Some s"
| "opt_fold f s (x # xs) = (case f s x of None \<Rightarrow> None | Some s' \<Rightarrow> opt_fold f s' xs)"

lemma opt_fold_cong [fundef_cong]:
  assumes "s = s'" and "xs = ys" and "\<And>x s. x \<in> set ys \<Longrightarrow> f s x = g s x"
  shows "opt_fold f s xs = opt_fold g s' ys"
  unfolding assms(1,2) using assms(3)
  by (induction ys arbitrary: s') (auto split: option.split)

fun fixed_size :: "field_type \<Rightarrow> u64 option" and fixed_cdr_size :: "message_schema \<Rightarrow> u64 option" where
  "fixed_size FBool = Some 1" | "fixed_size FInt8 = Some 1" | "fixed_size FUint8 = Some 1"
| "fixed_size FInt16 = Some 2" | "fixed_size FUint16 = Some 2"
| "fixed_size FInt32 = Some 4" | "fixed_size FUint32 = Some 4" | "fixed_size FFloat32 = Some 4"
| "fixed_size FInt64 = Some 8" | "fixed_size FUint64 = Some 8" | "fixed_size FFloat64 = Some 8"
| "fixed_size (FArray inner len) = map_option (\<lambda>s. s * word_of_nat len) (fixed_size inner)"
| "fixed_size (FMessage schema) = fixed_cdr_size schema"
| "fixed_size FString = None" | "fixed_size (FBoundedString _) = None"
| "fixed_size (FSequence _) = None" | "fixed_size (FBoundedSequence _ _) = None"
| "fixed_cdr_size schema =
     opt_fold (\<lambda>sz field. case fixed_size (fs_type field) of None \<Rightarrow> None
        | Some field_size \<Rightarrow> Some (align_up sz (alignment (fs_type field)) + field_size))
       0 (ms_fields schema)"

definition is_numeric :: "field_type \<Rightarrow> bool" where
  "is_numeric t = (case t of
     FInt8 \<Rightarrow> True | FInt16 \<Rightarrow> True | FInt32 \<Rightarrow> True | FInt64 \<Rightarrow> True
   | FUint8 \<Rightarrow> True | FUint16 \<Rightarrow> True | FUint32 \<Rightarrow> True | FUint64 \<Rightarrow> True
   | FFloat32 \<Rightarrow> True | FFloat64 \<Rightarrow> True | _ \<Rightarrow> False)"

definition element_type :: "field_type \<Rightarrow> field_type option" where
  "element_type t = (case t of
     FArray inner _ \<Rightarrow> Some inner | FSequence inner \<Rightarrow> Some inner | FBoundedSequence inner _ \<Rightarrow> Some inner
   | _ \<Rightarrow> None)"

section \<open>Schemas\<close>

datatype deser_reason =
    DataTooShort
  | WrongEncapsulation u8 u8
  | ReaderError cdr_error

datatype dynamic_error =
    InvalidTypeName string
  | FieldNotFound string
  | EmptyPath
  | NotAMessage string
  | TypeMismatch string string
  | IndexOutOfBounds nat
  | SerializationError dynamic_value field_type
  | DeserializationError deser_reason
  | SchemaLoadError string string
  | RegistryLockPoisoned
  | SchemaNotFound string
  | ServiceTimeout string string
  | MissingNodeIdentity string
  | InvalidDefaultValue string string
  | BoundExceeded nat nat

definition field_schema_new :: "string \<Rightarrow> field_type \<Rightarrow> field_schema" where
  "field_schema_new name t = FieldSchema name t None"

definition with_default :: "field_schema \<Rightarrow> dynamic_value \<Rightarrow> field_schema" where
  "with_default f v = FieldSchema (fs_name f) (fs_type f) (Some v)"

definition is_buffer_sequence :: "field_type \<Rightarrow> bool" where
  "is_buffer_sequence t = (case t of FSequence inner \<Rightarrow> (case inner of FUint8 \<Rightarrow> True | _ \<Rightarrow> False) | _ \<Rightarrow> False)"

fun nested_has_buffer :: "field_type \<Rightarrow> bool" and has_buffer_fields :: "message_schema \<Rightarrow> bool" where
  "nested_has_buffer t = (case t of
     FMessage schema \<Rightarrow> has_buffer_fields schema
   | FArray inner _ \<Rightarrow> nested_has_buffer inner
   | FSequence inner \<Rightarrow> nested_has_buffer inner
   | FBoundedSequence inner _ \<Rightarrow> nested_has_buffer inner
   | _ \<Rightarrow> False)"
| "has_buffer_fields schema =
     list_ex (\<lambda>f. is_buffer_sequence (fs_type f) \<or> nested_has_buffer (fs_type f)) (ms_fields schema)"

definition schema_field :: "message_schema \<Rightarrow> string \<Rightarrow> field_schema option" where
  "schema_field s name = find (\<lambda>f. fs_name f = name) (ms_fields s)"

definition field_index :: "message_schema \<Rightarrow> string \<Rightarrow> nat option" where
  "field_index s name = position (\<lambda>f. fs_name f = name) (ms_fields s)"

text \<open>
  The loop of \<open>field_path_indices\<close>: a part that is not a message leaves the current schema
  as it is, so the next part is looked up in the same schema.
\<close>

fun field_path_loop :: "message_schema \<Rightarrow> nat list \<Rightarrow> string list \<Rightarrow> (nat list, dynamic_error) res" where
  "field_path_loop cur indices [] = Ok indices"
| "field_path_loop cur indices (part # parts) =
     (case field_index cur part of
        None \<Rightarrow> Err (FieldNotFound part)
      | Some idx \<Rightarrow>
          field_path_loop (case fs_type (ms_fields cur ! idx) of FMessage nested \<Rightarrow> nested | _ \<Rightarrow> cur)
            (indices @ [idx]) parts)"

definition field_path_indices :: "message_schema \<Rightarrow> string \<Rightarrow> (nat list, dynamic_error) res" where
  "field_path_indices s path = field_path_loop s [] (split_on CHR ''.'' path)"

definition schema_eq :: "message_schema \<Rightarrow> message_schema \<Rightarrow> bool" where
  "schema_eq s s' \<longleftrightarrow> ms_type_name s = ms_type_name s'"

definition field_names :: "message_schema \<Rightarrow> string list" where
  "field_names s = map fs_name (ms_fields s)"

record schema_builder =
  sb_type_name :: string
  sb_fields :: "field_schema list"
  sb_type_hash :: "string option"

definition schema_builder_new :: "string \<Rightarrow> schema_builder" where
  "schema_builder_new type_name = \<lparr>sb_type_name = type_name, sb_fields = [], sb_type_hash = None\<rparr>"

definition builder_field :: "schema_builder \<Rightarrow> string \<Rightarrow> field_type \<Rightarrow> schema_builder" where
  "builder_field b name t = b\<lparr>sb_fields := sb_fields b @ [field_schema_new name t]\<rparr>"

definition builder_field_with_default :: "schema_builder \<Rightarrow> string \<Rightarrow> field_type \<Rightarrow> dynamic_value \<Rightarrow> schema_builder" where
  "builder_field_with_default b name t v =
     b\<lparr>sb_fields := sb_fields b @ [with_default (field_schema_new name t) v]\<rparr>"

definition builder_type_hash :: "schema_builder \<Rightarrow> string \<Rightarrow> schema_builder" where
  "builder_type_hash b h = b\<lparr>sb_type_hash := Some h\<rparr>"

definition schema_build :: "schema_builder \<Rightarrow> (message_schema, dynamic_error) res" where
  "schema_build b =
     (let parts = split_on CHR ''/'' (sb_type_name b)
      in if length parts \<noteq> 3 \<or> parts ! 1 \<noteq> ''msg'' then Err (InvalidTypeName (sb_type_name b))
         else Ok (MessageSchema (sb_type_name b) (parts ! 0) (parts ! 2) (sb_fields b) (sb_type_hash b)))"

section \<open>Values\<close>

definition as_bool :: "dynamic_value \<Rightarrow> bool option" where
  "as_bool v = (case v of DBool x \<Rightarrow> Some x | _ \<Rightarrow> None)"

definition as_i8 :: "dynamic_value \<Rightarrow> u8 option" where
  "as_i8 v = (case v of DInt8 x \<Rightarrow> Some x | _ \<Rightarrow> None)"

definition as_i16 :: "dynamic_value \<Rightarrow> u16 option" where
  "as_i16 v = (case v of DInt16 x \<Rightarrow> Some x | _ \<Rightarrow> None)"

definition as_i32 :: "dynamic_value \<Rightarrow> u32 option" where
  "as_i32 v = (case v of DInt32 x \<Rightarrow> Some x | _ \<Rightarrow> None)"

definition as_i64 :: "dynamic_value \<Rightarrow> u64 option" where
  "as_i64 v = (case v of DInt64 x \<Rightarrow> Some x | _ \<Rightarrow> None)"

definition as_u8 :: "dynamic_value \<Rightarrow> u8 option" where
  "as_u8 v = (case v of DUint8 x \<Rightarrow> Some x | _ \<Rightarrow> None)"

definition as_u16 :: "dynamic_value \<Rightarrow> u16 option" where
  "as_u16 v = (case v of DUint16 x \<Rightarrow> Some x | _ \<Rightarrow> None)"

definition as_u32 :: "dynamic_value \<Rightarrow> u32 option" where
  "as_u32 v = (case v of DUint32 x \<Rightarrow> Some x | _ \<Rightarrow> None)"

definition as_u64 :: "dynamic_value \<Rightarrow> u64 option" where
  "as_u64 v = (case v of DUint64 x \<Rightarrow> Some x | _ \<Rightarrow> None)"

definition as_f32 :: "dynamic_value \<Rightarrow> u32 option" where
  "as_f32 v = (case v of DFloat32 x \<Rightarrow> Some x | _ \<Rightarrow> None)"

definition as_f64 :: "dynamic_value \<Rightarrow> u64 option" where
  "as_f64 v = (case v of DFloat64 x \<Rightarrow> Some x | _ \<Rightarrow> None)"

definition as_str :: "dynamic_value \<Rightarrow> bytes option" where
  "as_str v = (case v of DString x \<Rightarrow> Some x | _ \<Rightarrow> None)"

definition as_bytes :: "dynamic_value \<Rightarrow> bytes option" where
  "as_bytes v = (case v of DBytes x \<Rightarrow> Some x | _ \<Rightarrow> None)"

definition as_message :: "dynamic_value \<Rightarrow> dynamic_message option" where
  "as_message v = (case v of DMessage x \<Rightarrow> Some x | _ \<Rightarrow> None)"

definition as_array :: "dynamic_value \<Rightarrow> dynamic_value list option" where
  "as_array v = (case v of DArray x \<Rightarrow> Some x | _ \<Rightarrow> None)"

definition value_is_primitive :: "dynamic_value \<Rightarrow> bool" where
  "value_is_primitive v = (case v of DBytes _ \<Rightarrow> False | DMessage _ \<Rightarrow> False | DArray _ \<Rightarrow> False | _ \<Rightarrow> True)"

fun default_for_type :: "field_type \<Rightarrow> dynamic_value" and dm_new :: "message_schema \<Rightarrow> dynamic_message" where
  "default_for_type FBool = DBool False"
| "default_for_type FInt8 = DInt8 0"
| "default_for_type FInt16 = DInt16 0"
| "default_for_type FInt32 = DInt32 0"
| "default_for_type FInt64 = DInt64 0"
| "default_for_type FUint8 = DUint8 0"
| "default_for_type FUint16 = DUint16 0"
| "default_for_type FUint32 = DUint32 0"
| "default_for_type FUint64 = DUint64 0"
| "default_for_type FFloat32 = DFloat32 0"
| "default_for_type FFloat64 = DFloat64 0"
| "default_for_type FString = DString []"
| "default_for_type (FBoundedString _) = DString []"
| "default_for_type (FMessage schema) = DMessage (dm_new schema)"
| "default_for_type (FArray inner len) = DArray (replicate len (default_for_type inner))"
| "default_for_type (FSequence _) = DArray []"
| "default_for_type (FBoundedSequence _ _) = DArray []"
| "dm_new schema = DynamicMessage schema
     (map (\<lambda>f. case fs_default f of Some v \<Rightarrow> v | None \<Rightarrow> default_for_type (fs_type f)) (ms_fields schema))"

section \<open>Messages\<close>

fun get_nested :: "dynamic_message \<Rightarrow> string list \<Rightarrow> (dynamic_value, dynamic_error) res" where
  "get_nested m [] = Err EmptyPath"
| "get_nested m (name # rest) =
     (case position (\<lambda>f. fs_name f = name) (ms_fields (dm_schema m)) of
        None \<Rightarrow> Err (FieldNotFound name)
      | Some idx \<Rightarrow>
          if length (dm_values m) \<le> idx then Panic
          else let v = dm_values m ! idx
               in if rest = [] then Ok v
                  else (case v of DMessage nested \<Rightarrow> get_nested nested rest | _ \<Rightarrow> Err (NotAMessage name)))"

definition get_dynamic :: "dynamic_message \<Rightarrow> string \<Rightarrow> (dynamic_value, dynamic_error) res" where
  "get_dynamic m path = get_nested m (split_on CHR ''.'' path)"

text \<open>\<open>T: FromDynamic\<close> is its \<open>from_dynamic\<close> and \<open>type_name\<close>.\<close>

definition dm_get :: "(dynamic_value \<Rightarrow> 'a option) \<Rightarrow> string \<Rightarrow> dynamic_message \<Rightarrow> string \<Rightarrow> ('a, dynamic_error) res" where
  "dm_get from_dynamic type_name m path =
     res_bind (get_dynamic m path)
       (\<lambda>v. case from_dynamic v of Some x \<Rightarrow> Ok x | None \<Rightarrow> Err (TypeMismatch path type_name))"

definition get_dynamic_by_index :: "dynamic_message \<Rightarrow> nat \<Rightarrow> (dynamic_value, dynamic_error) res" where
  "get_dynamic_by_index m index =
     (if index < length (dm_values m) then Ok (dm_values m ! index) else Err (IndexOutOfBounds index))"

definition get_by_index :: "(dynamic_value \<Rightarrow> 'a option) \<Rightarrow> string \<Rightarrow> dynamic_message \<Rightarrow> nat \<Rightarrow> ('a, dynamic_error) res" where
  "get_by_index from_dynamic type_name m index =
     (if index < length (dm_values m)
      then (case from_dynamic (dm_values m ! index) of
              Some x \<Rightarrow> Ok x
            | None \<Rightarrow> Err (TypeMismatch (''['' @ show_nat index @ '']'') type_name))
      else Err (IndexOutOfBounds index))"

definition dm_set_value :: "dynamic_message \<Rightarrow> nat \<Rightarrow> dynamic_value \<Rightarrow> dynamic_message" where
  "dm_set_value m i v = DynamicMessage (dm_schema m) ((dm_values m)[i := v])"

fun set_nested :: "dynamic_message \<Rightarrow> string list \<Rightarrow> dynamic_value \<Rightarrow> (dynamic_message, dynamic_error) res" where
  "set_nested m [] v = Err EmptyPath"
| "set_nested m (name # rest) v =
     (case position (\<lambda>f. fs_name f = name) (ms_fields (dm_schema m)) of
        None \<Rightarrow> Err (FieldNotFound name)
      | Some idx \<Rightarrow>
          if length (dm_values m) \<le> idx then Panic
          else if rest = [] then Ok (dm_set_value m idx v)
          else (case dm_values m ! idx of
                  DMessage nested \<Rightarrow>
                    res_bind (set_nested nested rest v) (\<lambda>nested'. Ok (dm_set_value m idx (DMessage nested')))
                | _ \<Rightarrow> Err (NotAMessage name)))"

definition set_dynamic :: "dynamic_message \<Rightarrow> string \<Rightarrow> dynamic_value \<Rightarrow> (dynamic_message, dynamic_error) res" where
  "set_dynamic m path v = set_nested m (split_on CHR ''.'' path) v"

definition set_by_index :: "dynamic_message \<Rightarrow> nat \<Rightarrow> dynamic_value \<Rightarrow> (dynamic_message, dynamic_error) res" where
  "set_by_index m index v =
     (if length (dm_values m) \<le> index then Err (IndexOutOfBounds index) else Ok (dm_set_value m index v))"

record message_builder =
  mb_schema :: message_schema
  mb_values :: "dynamic_value option list"

definition message_builder_new :: "message_schema \<Rightarrow> message_builder" where
  "message_builder_new s = \<lparr>mb_schema = s, mb_values = replicate (length (ms_fields s)) None\<rparr>"

definition builder_set :: "message_builder \<Rightarrow> string \<Rightarrow> dynamic_value \<Rightarrow> (message_builder, dynamic_error) res" where
  "builder_set b name v =
     (case position (\<lambda>f. fs_name f = name) (ms_fields (mb_schema b)) of
        None \<Rightarrow> Err (FieldNotFound name)
      | Some idx \<Rightarrow> if idx < length (mb_values b) then Ok (b\<lparr>mb_values := (mb_values b)[idx := Some v]\<rparr>) else Panic)"

definition builder_set_by_index :: "message_builder \<Rightarrow> nat \<Rightarrow> dynamic_value \<Rightarrow> (message_builder, dynamic_error) res" where
  "builder_set_by_index b index v =
     (if length (mb_values b) \<le> index then Err (IndexOutOfBounds index)
      else Ok (b\<lparr>mb_values := (mb_values b)[index := Some v]\<rparr>))"

definition message_build :: "message_builder \<Rightarrow> dynamic_message" where
  "message_build b = DynamicMessage (mb_schema b)
     (map (\<lambda>(v, f). case v of Some x \<Rightarrow> x
             | None \<Rightarrow> (case fs_default f of Some d \<Rightarrow> d | None \<Rightarrow> default_for_type (fs_type f)))
       (zip (mb_values b) (ms_fields (mb_schema b))))"


section \<open>Paths\<close>

lemma dm_set_value_simps [simp]:
  "dm_schema (dm_set_value m i v) = dm_schema m"
  "dm_values (dm_set_value m i v) = (dm_values m)[i := v]"
  by (simp_all add: dm_set_value_def)

lemma set_nested_step:
  assumes "set_nested m (name # rest) v = Ok m'"
  obtains idx where "position (\<lambda>f. fs_name f = name) (ms_fields (dm_schema m)) = Some idx"
    and "idx < length (dm_values m)" and "rest = []" and "m' = dm_set_value m idx v"
  | idx nested nested' where "position (\<lambda>f. fs_name f = name) (ms_fields (dm_schema m)) = Some idx"
    and "idx < length (dm_values m)" and "rest \<noteq> []" and "dm_values m ! idx = DMessage nested"
    and "set_nested nested rest v = Ok nested'" and "m' = dm_set_value m idx (DMessage nested')"
  using assms by (auto split: option.splits if_splits dynamic_value.splits simp: not_le)

lemma set_nested_get:
  "set_nested m p v = Ok m' \<Longrightarrow>
     get_nested m' p = Ok v \<and> dm_schema m' = dm_schema m \<and> length (dm_values m') = length (dm_values m)"
proof (induction p arbitrary: m m')
  case Nil
  then show ?case by simp
next
  case (Cons name rest)
  from Cons.prems show ?case
    by (cases rule: set_nested_step) (auto simp: Cons.IH)
qed

lemma get_nested_other:
  assumes "position (\<lambda>f. fs_name f = name) (ms_fields (dm_schema m)) = Some idx" and "name \<noteq> name'"
  shows "get_nested (dm_set_value m idx v) (name' # rest) = get_nested m (name' # rest)"
proof (cases "position (\<lambda>f. fs_name f = name') (ms_fields (dm_schema m))")
  case (Some idx')
  with assms have "idx' \<noteq> idx" by (auto simp: position_Some_iff)
  with Some show ?thesis by simp
qed simp

lemma set_nested_frame:
  "set_nested m p v = Ok m' \<Longrightarrow> \<not> prefix p q \<Longrightarrow> \<not> prefix q p \<Longrightarrow> get_nested m' q = get_nested m q"
proof (induction p arbitrary: m m' q)
  case Nil
  then show ?case by simp
next
  case (Cons name rest)
  then obtain name' rest' where q: "q = name' # rest'" by (cases q) auto
  from Cons.prems(1) show ?case
  proof (cases rule: set_nested_step)
    case (1 idx)
    with Cons.prems(2) have "name \<noteq> name'" by (auto simp: q)
    with 1 get_nested_other show ?thesis by (simp add: q del: get_nested.simps)
  next
    case (2 idx nested nested')
    show ?thesis
    proof (cases "name = name'")
      case True
      with Cons.prems(2,3) have "\<not> prefix rest rest'" and "\<not> prefix rest' rest" by (auto simp: q)
      with Cons.IH [OF 2(5)] 2 True show ?thesis by (auto simp: q Let_def)
    next
      case False
      with 2 get_nested_other show ?thesis by (simp add: q del: get_nested.simps)
    qed
  qed
qed

lemma set_nested_ok_iff: "is_ok (set_nested m p v) \<longleftrightarrow> is_ok (get_nested m p)"
proof (induction p arbitrary: m)
  case Nil
  then show ?case by simp
next
  case (Cons name rest)
  have "is_ok (res_bind r (\<lambda>x. Ok (f x))) = is_ok r" for r :: "(dynamic_message, dynamic_error) res" and f :: "dynamic_message \<Rightarrow> dynamic_message"
    by (cases r) simp_all
  then show ?case
    by (auto simp: Let_def Cons.IH split: option.split dynamic_value.split)
qed

text \<open>
  Writing through a dotted path. \<open>set_dynamic\<close> succeeds exactly where
  \<open>get_dynamic\<close> does; afterwards the path reads the value written, the message keeps its
  schema and its number of values, and every path that is not an extension or a prefix of
  it, compared part by part, reads what it read before.
\<close>

theorem set_dynamic_get:
  "(is_ok (set_dynamic m path v) \<longleftrightarrow> is_ok (get_dynamic m path)) \<and>
   (\<forall>m'. set_dynamic m path v = Ok m' \<longrightarrow>
      get_dynamic m' path = Ok v \<and> dm_schema m' = dm_schema m \<and> length (dm_values m') = length (dm_values m) \<and>
      (\<forall>other. \<not> prefix (split_on CHR ''.'' path) (split_on CHR ''.'' other) \<and>
               \<not> prefix (split_on CHR ''.'' other) (split_on CHR ''.'' path) \<longrightarrow>
               get_dynamic m' other = get_dynamic m other))"
  unfolding set_dynamic_def get_dynamic_def
  using set_nested_ok_iff set_nested_get set_nested_frame by blast

definition nested_sample :: dynamic_message where
  "nested_sample =
     (let inner = MessageSchema ''p/msg/V'' ''p'' ''V'' [FieldSchema ''x'' FInt8 None, FieldSchema ''y'' FInt8 None] None
      in DynamicMessage (MessageSchema ''p/msg/T'' ''p'' ''T'' [FieldSchema ''lin'' (FMessage inner) None] None)
           [DMessage (DynamicMessage inner [DInt8 1, DInt8 2])])"

lemma set_dynamic_get_witness:
  "\<exists>m'. set_dynamic nested_sample ''lin.x'' (DInt8 9) = Ok m' \<and> get_dynamic m' ''lin.x'' = Ok (DInt8 9) \<and>
        get_dynamic m' ''lin.y'' = Ok (DInt8 2)"
proof -
  have paths: "split_on CHR ''.'' ''lin.x'' = [''lin'', ''x'']" "split_on CHR ''.'' ''lin.y'' = [''lin'', ''y'']" by simp_all
  have y: "get_dynamic nested_sample ''lin.y'' = Ok (DInt8 2)" and x: "is_ok (get_dynamic nested_sample ''lin.x'')"
    by (simp_all add: get_dynamic_def nested_sample_def paths Let_def)
  from x obtain m' where m': "set_dynamic nested_sample ''lin.x'' (DInt8 9) = Ok m'"
    using set_dynamic_get [of nested_sample "''lin.x''" "DInt8 9"] by (cases "set_dynamic nested_sample ''lin.x'' (DInt8 9)") auto
  then have "get_dynamic m' ''lin.x'' = Ok (DInt8 9)" "get_dynamic m' ''lin.y'' = get_dynamic nested_sample ''lin.y''"
    using set_dynamic_get [of nested_sample "''lin.x''" "DInt8 9"] by (simp_all add: paths)
  with m' y show ?thesis by simp
qed

end
