(* ===== verification/Dynamic_Cdr.thy ===== *)
theory Dynamic_Cdr
  imports Dynamic_Schema Cdr_Traits
begin

text \<open>
  \<open>crates/hiroz/src/dynamic/serialization/cdr.rs\<close> and \<open>serialization/mod.rs\<close>: dynamic
  messages to CDR bytes and back. The writer writes into a \<open>Vec<u8>\<close>; the reader stops
  with the reader's error, which the entry point maps into \<open>DynamicError\<close> the way
  \<open>map_cdr_err\<close> does at each read.
\<close>

section \<open>Serialization\<close>

definition cdr_header_le :: bytes where
  "cdr_header_le = [0x00, 0x01, 0x00, 0x00]"

type_synonym vec_writer = "bytes cdr_writer"

text \<open>\<open>for v in values { serialize_value(v, inner, writer)?; }\<close> is a \<open>res_fold\<close>.\<close>

function serialize_value :: "dynamic_value \<Rightarrow> field_type \<Rightarrow> vec_writer \<Rightarrow> (vec_writer, dynamic_error) res"
  and serialize_message :: "dynamic_message \<Rightarrow> vec_writer \<Rightarrow> (vec_writer, dynamic_error) res" where
  "serialize_value value t w =
     (case value of
        DBool v \<Rightarrow> (case t of FBool \<Rightarrow> write_bool vec_buffer w v | _ \<Rightarrow> Err (SerializationError value t))
      | DInt8 v \<Rightarrow> (case t of FInt8 \<Rightarrow> write_i8 vec_buffer w v | _ \<Rightarrow> Err (SerializationError value t))
      | DInt16 v \<Rightarrow> (case t of FInt16 \<Rightarrow> write_i16 vec_buffer LittleEndian w v | _ \<Rightarrow> Err (SerializationError value t))
      | DInt32 v \<Rightarrow> (case t of FInt32 \<Rightarrow> write_i32 vec_buffer LittleEndian w v | _ \<Rightarrow> Err (SerializationError value t))
      | DInt64 v \<Rightarrow> (case t of FInt64 \<Rightarrow> write_i64 vec_buffer LittleEndian w v | _ \<Rightarrow> Err (SerializationError value t))
      | DUint8 v \<Rightarrow> (case t of FUint8 \<Rightarrow> write_u8 vec_buffer w v | _ \<Rightarrow> Err (SerializationError value t))
      | DUint16 v \<Rightarrow> (case t of FUint16 \<Rightarrow> write_u16 vec_buffer LittleEndian w v | _ \<Rightarrow> Err (SerializationError value t))
      | DUint32 v \<Rightarrow> (case t of FUint32 \<Rightarrow> write_u32 vec_buffer LittleEndian w v | _ \<Rightarrow> Err (SerializationError value t))
      | DUint64 v \<Rightarrow> (case t of FUint64 \<Rightarrow> write_u64 vec_buffer LittleEndian w v | _ \<Rightarrow> Err (SerializationError value t))
      | DFloat32 v \<Rightarrow> (case t of FFloat32 \<Rightarrow> write_f32 vec_buffer LittleEndian w v | _ \<Rightarrow> Err (SerializationError value t))
      | DFloat64 v \<Rightarrow> (case t of FFloat64 \<Rightarrow> write_f64 vec_buffer LittleEndian w v | _ \<Rightarrow> Err (SerializationError value t))
      | DString v \<Rightarrow>
          (case t of FString \<Rightarrow> write_string vec_buffer LittleEndian w v
           | FBoundedString _ \<Rightarrow> write_string vec_buffer LittleEndian w v
           | _ \<Rightarrow> Err (SerializationError value t))
      | DArray values \<Rightarrow>
          (case t of
             FArray inner _ \<Rightarrow> res_fold (\<lambda>u v. serialize_value v inner u) w values
           | FSequence inner \<Rightarrow>
               res_bind (write_sequence_length vec_buffer LittleEndian w (length values))
                 (\<lambda>w1. res_fold (\<lambda>u v. serialize_value v inner u) w1 values)
           | FBoundedSequence inner _ \<Rightarrow>
               res_bind (write_sequence_length vec_buffer LittleEndian w (length values))
                 (\<lambda>w1. res_fold (\<lambda>u v. serialize_value v inner u) w1 values)
           | _ \<Rightarrow> Err (SerializationError value t))
      | DBytes bs \<Rightarrow>
          (case t of
             FSequence inner \<Rightarrow>
               (case inner of FUint8 \<Rightarrow> write_bytes vec_buffer LittleEndian w bs | _ \<Rightarrow> Err (SerializationError value t))
           | _ \<Rightarrow> Err (SerializationError value t))
      | DMessage nested \<Rightarrow>
          (case t of FMessage _ \<Rightarrow> serialize_message nested w | _ \<Rightarrow> Err (SerializationError value t)))"
| "serialize_message m w =
     res_fold (\<lambda>u (field, value). serialize_value value (fs_type field) u) w
       (zip (ms_fields (dm_schema m)) (dm_values m))"
  by pat_completeness auto
termination
  by (relation "measure (case_sum (\<lambda>(v, t, w). size v) (\<lambda>(m, w). size m))")
     (auto simp: size_dm_value less_Suc_eq_le intro!: size_list_estimation' dest: set_zip_rightD)

declare serialize_value.simps [simp del] serialize_message.simps [simp del]

lemmas serialize_value_eqs =
  serialize_value.simps [of "DBool x" for x, unfolded dynamic_value.case]
  serialize_value.simps [of "DInt8 x" for x, unfolded dynamic_value.case]
  serialize_value.simps [of "DInt16 x" for x, unfolded dynamic_value.case]
  serialize_value.simps [of "DInt32 x" for x, unfolded dynamic_value.case]
  serialize_value.simps [of "DInt64 x" for x, unfolded dynamic_value.case]
  serialize_value.simps [of "DUint8 x" for x, unfolded dynamic_value.case]
  serialize_value.simps [of "DUint16 x" for x, unfolded dynamic_value.case]
  serialize_value.simps [of "DUint32 x" for x, unfolded dynamic_value.case]
  serialize_value.simps [of "DUint64 x" for x, unfolded dynamic_value.case]
  serialize_value.simps [of "DFloat32 x" for x, unfolded dynamic_value.case]
  serialize_value.simps [of "DFloat64 x" for x, unfolded dynamic_value.case]
  serialize_value.simps [of "DString x" for x, unfolded dynamic_value.case]
  serialize_value.simps [of "DBytes x" for x, unfolded dynamic_value.case]
  serialize_value.simps [of "DMessage x" for x, unfolded dynamic_value.case]
  serialize_value.simps [of "DArray x" for x, unfolded dynamic_value.case]

definition serialize_cdr :: "dynamic_message \<Rightarrow> (bytes, dynamic_error) res" where
  "serialize_cdr m =
     res_map wr_buffer (serialize_message m (writer_new vec_buffer cdr_header_le))"

section \<open>Deserialization\<close>

text \<open>\<open>for x in xs { out.push(f(x)?) }\<close>.\<close>

fun rd_mapM :: "('a \<Rightarrow> 'b rd) \<Rightarrow> 'a list \<Rightarrow> 'b list rd" where
  "rd_mapM f [] = rd_return []"
| "rd_mapM f (x # xs) = rd_bind (f x) (\<lambda>y. rd_bind (rd_mapM f xs) (\<lambda>ys. rd_return (y # ys)))"

lemma rd_mapM_cong [fundef_cong]:
  assumes "xs = ys" and "\<And>x. x \<in> set ys \<Longrightarrow> f x = g x"
  shows "rd_mapM f xs = rd_mapM g ys"
  unfolding assms(1) using assms(2) by (induction ys) simp_all

fun deserialize_value :: "field_type \<Rightarrow> dynamic_value rd"
  and deserialize_message :: "message_schema \<Rightarrow> dynamic_message rd" where
  "deserialize_value FBool = rd_map DBool read_bool"
| "deserialize_value FInt8 = rd_map DInt8 read_i8"
| "deserialize_value FInt16 = rd_map DInt16 (read_i16 LittleEndian)"
| "deserialize_value FInt32 = rd_map DInt32 (read_i32 LittleEndian)"
| "deserialize_value FInt64 = rd_map DInt64 (read_i64 LittleEndian)"
| "deserialize_value FUint8 = rd_map DUint8 read_u8"
| "deserialize_value FUint16 = rd_map DUint16 (read_u16 LittleEndian)"
| "deserialize_value FUint32 = rd_map DUint32 (read_u32 LittleEndian)"
| "deserialize_value FUint64 = rd_map DUint64 (read_u64 LittleEndian)"
| "deserialize_value FFloat32 = rd_map DFloat32 (read_f32 LittleEndian)"
| "deserialize_value FFloat64 = rd_map DFloat64 (read_f64 LittleEndian)"
| "deserialize_value FString = rd_map DString (read_string LittleEndian)"
| "deserialize_value (FBoundedString _) = rd_map DString (read_string LittleEndian)"
| "deserialize_value (FArray inner len) = rd_map DArray (read_n len (deserialize_value inner))"
| "deserialize_value (FSequence inner) =
     (if inner = FUint8 then rd_map DBytes (read_byte_sequence LittleEndian)
      else rd_bind (read_sequence_length LittleEndian)
             (\<lambda>len. rd_map DArray (read_n len (deserialize_value inner))))"
| "deserialize_value (FBoundedSequence inner _) =
     (if inner = FUint8 then rd_map DBytes (read_byte_sequence LittleEndian)
      else rd_bind (read_sequence_length LittleEndian)
             (\<lambda>len. rd_map DArray (read_n len (deserialize_value inner))))"
| "deserialize_value (FMessage schema) = rd_map DMessage (deserialize_message schema)"
| "deserialize_message schema =
     rd_map (DynamicMessage schema) (rd_mapM (\<lambda>field. deserialize_value (fs_type field)) (ms_fields schema))"

declare deserialize_message.simps [simp del]

definition deserialize_cdr :: "bytes \<Rightarrow> message_schema \<Rightarrow> (dynamic_message, dynamic_error) res" where
  "deserialize_cdr data schema =
     (if length data < 4 then Err (DeserializationError DataTooShort)
      else if take 2 data \<noteq> [0x00, 0x01] then Err (DeserializationError (WrongEncapsulation (data ! 0) (data ! 1)))
      else map_err (\<lambda>e. DeserializationError (ReaderError e))
             (fst (deserialize_message schema (reader_new (drop 4 data)))))"

section \<open>The typed view\<close>

text \<open>
  \<open>conforms t v\<close>: the value has the shape its field type asks for, strings are UTF-8 and
  lengths fit their length fields. A byte sequence may be \<open>Bytes\<close> or an \<open>Array\<close> of
  \<open>Uint8\<close>; a bounded one only the latter, which is what \<open>serialize_value\<close> accepts.
  \<open>dyn_cdr t v\<close> is the value as a statically typed program would have it: a message is
  the sequence of its fields without a length. \<open>canon t v\<close> is the value as reading it
  back gives it.
\<close>

definition is_uint8 :: "dynamic_value \<Rightarrow> bool" where
  "is_uint8 v = (case v of DUint8 _ \<Rightarrow> True | _ \<Rightarrow> False)"

definition byte_of :: "dynamic_value \<Rightarrow> u8" where
  "byte_of v = (case v of DUint8 b \<Rightarrow> b | _ \<Rightarrow> 0)"

fun conforms :: "field_type \<Rightarrow> dynamic_value \<Rightarrow> bool" where
  "conforms FBool v = (case v of DBool _ \<Rightarrow> True | _ \<Rightarrow> False)"
| "conforms FInt8 v = (case v of DInt8 _ \<Rightarrow> True | _ \<Rightarrow> False)"
| "conforms FInt16 v = (case v of DInt16 _ \<Rightarrow> True | _ \<Rightarrow> False)"
| "conforms FInt32 v = (case v of DInt32 _ \<Rightarrow> True | _ \<Rightarrow> False)"
| "conforms FInt64 v = (case v of DInt64 _ \<Rightarrow> True | _ \<Rightarrow> False)"
| "conforms FUint8 v = is_uint8 v"
| "conforms FUint16 v = (case v of DUint16 _ \<Rightarrow> True | _ \<Rightarrow> False)"
| "conforms FUint32 v = (case v of DUint32 _ \<Rightarrow> True | _ \<Rightarrow> False)"
| "conforms FUint64 v = (case v of DUint64 _ \<Rightarrow> True | _ \<Rightarrow> False)"
| "conforms FFloat32 v = (case v of DFloat32 _ \<Rightarrow> True | _ \<Rightarrow> False)"
| "conforms FFloat64 v = (case v of DFloat64 _ \<Rightarrow> True | _ \<Rightarrow> False)"
| "conforms FString v = (case v of DString s \<Rightarrow> utf8_valid s \<and> length s + 1 < 2 ^ 32 | _ \<Rightarrow> False)"
| "conforms (FBoundedString _) v = (case v of DString s \<Rightarrow> utf8_valid s \<and> length s + 1 < 2 ^ 32 | _ \<Rightarrow> False)"
| "conforms (FArray inner len) v =
     (case v of DArray vs \<Rightarrow> length vs = len \<and> list_all (conforms inner) vs | _ \<Rightarrow> False)"
| "conforms (FSequence inner) v =
     (case v of
        DArray vs \<Rightarrow> length vs \<le> 100000000 \<and> list_all (conforms inner) vs
      | DBytes bs \<Rightarrow> inner = FUint8 \<and> length bs < 2 ^ 32
      | _ \<Rightarrow> False)"
| "conforms (FBoundedSequence inner _) v =
     (case v of DArray vs \<Rightarrow> length vs \<le> 100000000 \<and> list_all (conforms inner) vs | _ \<Rightarrow> False)"
| "conforms (FMessage schema) v =
     (case v of DMessage m \<Rightarrow> dm_schema m = schema \<and> length (dm_values m) = length (ms_fields schema) \<and>
         list_all (\<lambda>(f, x). conforms (fs_type f) x) (zip (ms_fields schema) (dm_values m))
      | _ \<Rightarrow> False)"


fun dyn_cdr :: "field_type \<Rightarrow> dynamic_value \<Rightarrow> cdr_val" where
  "dyn_cdr (FArray inner _) v = VArray (case v of DArray vs \<Rightarrow> map (dyn_cdr inner) vs | _ \<Rightarrow> [])"
| "dyn_cdr (FSequence inner) v =
     VVec (case v of DArray vs \<Rightarrow> map (dyn_cdr inner) vs | DBytes bs \<Rightarrow> map VU8 bs | _ \<Rightarrow> [])"
| "dyn_cdr (FBoundedSequence inner _) v = VVec (case v of DArray vs \<Rightarrow> map (dyn_cdr inner) vs | _ \<Rightarrow> [])"
| "dyn_cdr (FMessage schema) v =
     VArray (case v of
        DMessage m \<Rightarrow> map (\<lambda>(f, x). dyn_cdr (fs_type f) x) (zip (ms_fields schema) (dm_values m))
      | _ \<Rightarrow> [])"
| "dyn_cdr _ v = (case v of
     DBool x \<Rightarrow> VBool x | DInt8 x \<Rightarrow> VI8 x | DInt16 x \<Rightarrow> VI16 x | DInt32 x \<Rightarrow> VI32 x | DInt64 x \<Rightarrow> VI64 x
   | DUint8 x \<Rightarrow> VU8 x | DUint16 x \<Rightarrow> VU16 x | DUint32 x \<Rightarrow> VU32 x | DUint64 x \<Rightarrow> VU64 x
   | DFloat32 x \<Rightarrow> VF32 x | DFloat64 x \<Rightarrow> VF64 x | DString x \<Rightarrow> VString x | _ \<Rightarrow> VArray [])"

fun canon :: "field_type \<Rightarrow> dynamic_value \<Rightarrow> dynamic_value" where
  "canon (FArray inner _) v = (case v of DArray vs \<Rightarrow> DArray (map (canon inner) vs) | _ \<Rightarrow> v)"
| "canon (FSequence inner) v =
     (case v of DArray vs \<Rightarrow> if inner = FUint8 then DBytes (map byte_of vs) else DArray (map (canon inner) vs) | _ \<Rightarrow> v)"
| "canon (FBoundedSequence inner _) v =
     (case v of DArray vs \<Rightarrow> if inner = FUint8 then DBytes (map byte_of vs) else DArray (map (canon inner) vs) | _ \<Rightarrow> v)"
| "canon (FMessage schema) v =
     (case v of
        DMessage m \<Rightarrow> DMessage (DynamicMessage schema
          (map (\<lambda>(f, x). canon (fs_type f) x) (zip (ms_fields schema) (dm_values m))))
      | _ \<Rightarrow> v)"
| "canon _ v = v"

definition message_conforms :: "dynamic_message \<Rightarrow> bool" where
  "message_conforms m = conforms (FMessage (dm_schema m)) (DMessage m)"

definition message_canon :: "dynamic_message \<Rightarrow> dynamic_message" where
  "message_canon m = DynamicMessage (dm_schema m)
     (map (\<lambda>(f, x). canon (fs_type f) x) (zip (ms_fields (dm_schema m)) (dm_values m)))"

definition message_cdr :: "dynamic_message \<Rightarrow> cdr_val" where
  "message_cdr m = dyn_cdr (FMessage (dm_schema m)) (DMessage m)"

section \<open>Serialization is the typed serialization\<close>

text \<open>The writer after either path holds the same bytes, so both paths are equal outright.\<close>

lemma extend_bytes_fold:
  "res_fold (\<lambda>u x. cdr_serialize vec_buffer bo u x) w (map VU8 bs) = Ok (writer_extend vec_buffer w bs)"
  by (induction bs arbitrary: w)
     (simp_all add: write_u8_def writer_push_def writer_extend_def)

lemma write_bytes_cdr:
  "write_bytes vec_buffer bo w bs = cdr_serialize vec_buffer bo w (VVec (map VU8 bs))"
  by (simp add: write_bytes_def write_sequence_length_def extend_bytes_fold)

lemma serialize_list_cdr:
  assumes "\<And>v w. v \<in> set vs \<Longrightarrow> serialize_value v t w = cdr_serialize vec_buffer LittleEndian w (g v)"
  shows "res_fold (\<lambda>u v. serialize_value v t u) w vs = res_fold (cdr_serialize vec_buffer LittleEndian) w (map g vs)"
  unfolding res_fold_map by (rule res_fold_cong) (simp_all add: assms)

lemma serialize_value_cdr:
  "conforms t v \<Longrightarrow> serialize_value v t w = cdr_serialize vec_buffer LittleEndian w (dyn_cdr t v)"
proof (induction t arbitrary: v w rule: field_type_induct)
  case (primitive t)
  then show ?case
    by (cases t; cases v) (simp_all add: is_primitive_def is_uint8_def serialize_value_eqs)
next
  case (FMessage s)
  then obtain m where m: "v = DMessage m" "dm_schema m = s"
    and all: "list_all (\<lambda>(f, x). conforms (fs_type f) x) (zip (ms_fields s) (dm_values m))"
    by (auto split: dynamic_value.splits)
  have "serialize_message m w =
      res_fold (\<lambda>u (f, x). cdr_serialize vec_buffer LittleEndian u (dyn_cdr (fs_type f) x)) w (zip (ms_fields s) (dm_values m))"
    unfolding serialize_message.simps m(2)
  proof (rule res_fold_cong)
    fix u z assume "z \<in> set (zip (ms_fields s) (dm_values m))"
    then obtain f x where z: "z = (f, x)" "f \<in> set (ms_fields s)" "conforms (fs_type f) x"
      using list_all_zipD [OF all] by (metis surj_pair)
    with FMessage.IH [OF z(2,3)] show "(case z of (field, value) \<Rightarrow> serialize_value value (fs_type field) u) =
        (case z of (f, x) \<Rightarrow> cdr_serialize vec_buffer LittleEndian u (dyn_cdr (fs_type f) x))" by simp
  qed simp_all
  then show ?case
    by (simp add: m serialize_value_eqs res_fold_map case_prod_unfold)
next
  case (FArray t n)
  then show ?case
    by (auto simp: serialize_value_eqs list_all_iff serialize_list_cdr split: dynamic_value.splits)
next
  case (FSequence t)
  then show ?case
    by (auto simp: serialize_value_eqs list_all_iff serialize_list_cdr write_bytes_cdr split: dynamic_value.splits)
next
  case (FBoundedSequence t n)
  then show ?case
    by (auto simp: serialize_value_eqs list_all_iff serialize_list_cdr split: dynamic_value.splits)
qed


lemma serialize_message_cdr:
  "message_conforms m \<Longrightarrow> serialize_message m w = cdr_serialize vec_buffer LittleEndian w (message_cdr m)"
  using serialize_value_cdr [of "FMessage (dm_schema m)" "DMessage m" w]
  by (simp add: message_conforms_def message_cdr_def serialize_value_eqs)

section \<open>Reading back\<close>

lemma enc_seq_octets: "enc_seq (cdr_enc bo) p (map VU8 bs) = bs"
  by (induction bs arbitrary: p) simp_all

lemma cdr_enc_octets: "cdr_enc bo p (VVec (map VU8 bs)) = enc_bytes bo p bs"
  by (simp add: enc_bytes_def Let_def enc_seq_octets)

lemma uint8_list: "list_all is_uint8 vs \<Longrightarrow> map (dyn_cdr FUint8) vs = map VU8 (map byte_of vs)"
  by (induction vs) (auto simp: is_uint8_def byte_of_def split: dynamic_value.splits)

lemma decodes_rd_mapM:
  assumes "length xs = length ys"
    and "\<And>x y q. (x, y) \<in> set (zip xs ys) \<Longrightarrow> decodes (f x) q (enc q (g x y)) (h x y)"
  shows "decodes (rd_mapM f xs) p (enc_seq enc p (map (\<lambda>(x, y). g x y) (zip xs ys))) (map (\<lambda>(x, y). h x y) (zip xs ys))"
  using assms
proof (induction xs ys arbitrary: p rule: list_induct2)
  case Nil
  then show ?case by (simp add: decodes_return)
next
  case (Cons x xs y ys)
  let ?c = "enc p (g x y)"
  have "decodes (rd_bind (rd_mapM f xs) (\<lambda>vs. rd_return (h x y # vs))) (p + length ?c)
      (enc_seq enc (p + length ?c) (map (\<lambda>(x, y). g x y) (zip xs ys))) (h x y # map (\<lambda>(x, y). h x y) (zip xs ys))"
    by (rule decodes_bind_return) (simp add: Cons)
  then show ?case
    using decodes_bind [of "f x" p ?c "h x y"] Cons.prems by simp
qed

lemma decodes_dyn_list:
  assumes "\<And>v q. conforms t v \<Longrightarrow> decodes (deserialize_value t) q (cdr_enc LittleEndian q (dyn_cdr t v)) (canon t v)"
    and "list_all (conforms t) vs"
  shows "decodes (rd_map DArray (read_n (length vs) (deserialize_value t))) p
           (enc_seq (cdr_enc LittleEndian) p (map (dyn_cdr t) vs)) (DArray (map (canon t) vs))"
proof (rule decodes_rd_map)
  have "enc_seq (cdr_enc LittleEndian) q (map (dyn_cdr t) vs) = enc_seq (\<lambda>q v. cdr_enc LittleEndian q (dyn_cdr t v)) q vs" for q
    by (induction vs arbitrary: q) simp_all
  then show "decodes (read_n (length vs) (deserialize_value t)) p
       (enc_seq (cdr_enc LittleEndian) p (map (dyn_cdr t) vs)) (map (canon t) vs)"
    using decodes_read_n [of vs "deserialize_value t" "\<lambda>q v. cdr_enc LittleEndian q (dyn_cdr t v)" "canon t" p] assms
    by (simp add: list_all_iff)
qed

lemma decodes_dyn_sequence:
  assumes "\<And>v q. conforms t v \<Longrightarrow> decodes (deserialize_value t) q (cdr_enc LittleEndian q (dyn_cdr t v)) (canon t v)"
    and "list_all (conforms t) vs" and "length vs \<le> 100000000" and "s = FSequence t \<or> s = FBoundedSequence t n"
  shows "decodes (deserialize_value s) p (cdr_enc LittleEndian p (dyn_cdr s (DArray vs))) (canon s (DArray vs))"
proof (cases "t = FUint8")
  case True
  then have "list_all is_uint8 vs"
    using assms(2) by (simp add: list_all_iff)
  then have "cdr_enc LittleEndian p (dyn_cdr s (DArray vs)) = enc_bytes LittleEndian p (map byte_of vs)"
    using assms(4) True by (auto simp: uint8_list simp del: cdr_enc.simps map_map simp: cdr_enc_octets)
  moreover have "decodes (rd_map DBytes (read_byte_sequence LittleEndian)) p
      (enc_bytes LittleEndian p (map byte_of vs)) (DBytes (map byte_of vs))"
    by (rule decodes_rd_map [OF decodes_byte_sequence]) (use assms(3) in simp)
  ultimately show ?thesis
    using assms(4) True by auto
next
  case False
  have "decodes (rd_bind (read_sequence_length LittleEndian) (\<lambda>len. rd_map DArray (read_n len (deserialize_value t)))) p
      (cdr_enc LittleEndian p (VVec (map (dyn_cdr t) vs))) (DArray (map (canon t) vs))"
    unfolding cdr_enc.simps Let_def length_map
    by (intro decodes_bind [OF decodes_sequence_length [OF assms(3)]] decodes_dyn_list assms(1,2))
  then show ?thesis
    using assms(4) False by (auto simp del: cdr_enc.simps)
qed

lemma decodes_dyn:
  "conforms t v \<Longrightarrow> decodes (deserialize_value t) p (cdr_enc LittleEndian p (dyn_cdr t v)) (canon t v)"
proof (induction t arbitrary: v p rule: field_type_induct)
  case (primitive t)
  then show ?case
    by (cases t; cases v)
       (simp_all add: is_primitive_def is_uint8_def decodes_rd_map decodes_words decodes_octets decodes_string)
next
  case (FMessage s)
  then obtain m where m: "v = DMessage m" "dm_schema m = s" and len: "length (ms_fields s) = length (dm_values m)"
    and all: "list_all (\<lambda>(f, x). conforms (fs_type f) x) (zip (ms_fields s) (dm_values m))"
    by (auto split: dynamic_value.splits)
  have "decodes (rd_mapM (\<lambda>f. deserialize_value (fs_type f)) (ms_fields s)) p
      (enc_seq (cdr_enc LittleEndian) p (map (\<lambda>(f, x). dyn_cdr (fs_type f) x) (zip (ms_fields s) (dm_values m))))
      (map (\<lambda>(f, x). canon (fs_type f) x) (zip (ms_fields s) (dm_values m)))"
    by (rule decodes_rd_mapM [OF len]) (intro FMessage.IH list_all_zipD [OF all])
  then show ?case
    by (simp add: m deserialize_message.simps decodes_rd_map)
next
  case (FArray t n)
  then show ?case
    using decodes_dyn_list [OF FArray.IH] by (auto split: dynamic_value.splits)
next
  case (FSequence t)
  then consider vs where "v = DArray vs" "list_all (conforms t) vs" "length vs \<le> 100000000"
    | bs where "v = DBytes bs" "t = FUint8" "length bs < 2 ^ 32"
    by (auto split: dynamic_value.splits)
  then show ?case
  proof cases
    case 1
    then show ?thesis using decodes_dyn_sequence [OF FSequence.IH] by blast
  next
    case 2
    then show ?thesis
      using decodes_rd_map [OF decodes_byte_sequence] by (simp add: cdr_enc_octets del: cdr_enc.simps)
  qed
next
  case (FBoundedSequence t n)
  then obtain vs where "v = DArray vs" "list_all (conforms t) vs" "length vs \<le> 100000000"
    by (auto split: dynamic_value.splits)
  then show ?case using decodes_dyn_sequence [OF FBoundedSequence.IH] by blast
qed


section \<open>Reading arbitrary bytes\<close>

fun no_bounded_bytes :: "field_type \<Rightarrow> bool" where
  "no_bounded_bytes (FArray inner _) = no_bounded_bytes inner"
| "no_bounded_bytes (FSequence inner) = no_bounded_bytes inner"
| "no_bounded_bytes (FBoundedSequence inner _) = (inner \<noteq> FUint8 \<and> no_bounded_bytes inner)"
| "no_bounded_bytes (FMessage schema) = list_all (\<lambda>f. no_bounded_bytes (fs_type f)) (ms_fields schema)"
| "no_bounded_bytes _ = True"

lemma rd_safe_mapM:
  "(\<And>x. x \<in> set xs \<Longrightarrow> rd_safe (f x)) \<Longrightarrow> rd_safe (rd_mapM f xs)"
  by (induction xs) (auto intro!: rd_safe_intros)

lemma rd_safe_dyn: "rd_safe (deserialize_value t)"
proof (induction t rule: field_type_induct)
  case (primitive t)
  then show ?case by (cases t) (simp_all add: is_primitive_def rd_safe_intros)
next
  case (FMessage s)
  then show ?case
    by (simp add: deserialize_message.simps rd_safe_rd_map rd_safe_mapM)
qed (auto intro!: rd_safe_intros)

lemma rd_safe_dyn_message: "rd_safe (deserialize_message s)"
  unfolding deserialize_message.simps by (intro rd_safe_rd_map rd_safe_mapM rd_safe_dyn)

lemma rd_yields_mapM:
  assumes "\<And>x. x \<in> set xs \<Longrightarrow> rd_yields L (f x) (P x)"
  shows "rd_yields L (rd_mapM f xs) (\<lambda>ys. length ys = length xs \<and> list_all (\<lambda>(x, y). P x y) (zip xs ys))"
  using assms
proof (induction xs)
  case Nil
  then show ?case by (simp add: rd_yields_return)
next
  case (Cons x xs)
  then have hd: "rd_yields L (f x) (P x)"
    and tl: "rd_yields L (rd_mapM f xs) (\<lambda>ys. length ys = length xs \<and> list_all (\<lambda>(x, y). P x y) (zip xs ys))"
    by simp_all
  show ?case
    unfolding rd_mapM.simps
    by (rule rd_yields_bind [OF hd], rule rd_yields_bind [OF tl]) (simp add: rd_yields_return)
qed

lemma canon_map_id: "list_all (\<lambda>v. conforms t v \<and> canon t v = v) vs \<Longrightarrow> map (canon t) vs = vs"
  by (induction vs) simp_all

lemma canon_zip_id:
  assumes "length vs = length fs" and "list_all (\<lambda>(f, v). conforms (fs_type f) v \<and> canon (fs_type f) v = v) (zip fs vs)"
  shows "map (\<lambda>(f, x). canon (fs_type f) x) (zip fs vs) = vs"
  using assms by (induction vs fs rule: list_induct2) auto

lemma rd_yields_dyn_sequence:
  assumes "rd_yields L (deserialize_value t) (\<lambda>v. conforms t v \<and> canon t v = v)"
  shows "rd_yields L (rd_bind (read_sequence_length bo) (\<lambda>len. rd_map DArray (read_n len (deserialize_value t))))
     (\<lambda>v. \<exists>vs. v = DArray vs \<and> length vs \<le> 100000000 \<and> list_all (\<lambda>v. conforms t v \<and> canon t v = v) vs)"
  by (rule rd_yields_bind [OF rd_yields_sequence_length], rule rd_yields_map [OF rd_yields_read_n [OF assms]]) simp

lemma rd_yields_dyn:
  "no_bounded_bytes t \<Longrightarrow> rd_yields (2 ^ 32 - 1) (deserialize_value t) (\<lambda>v. conforms t v \<and> canon t v = v)"
proof (induction t rule: field_type_induct)
  case (primitive t)
  have str: "rd_yields (2 ^ 32 - 1) (rd_map DString (read_string LittleEndian))
      (\<lambda>v. \<exists>s. v = DString s \<and> utf8_valid s \<and> length s + 1 < 2 ^ 32)"
    by (rule rd_yields_map [OF rd_yields_string]) simp_all
  show ?case
  proof (cases "t = FString \<or> (\<exists>n. t = FBoundedString n)")
    case True
    then have t: "deserialize_value t = rd_map DString (read_string LittleEndian)" by auto
    show ?thesis
      unfolding t by (rule rd_yields_mono [OF str]) (use True in auto)
  next
    case False
    have "rd_yields L (rd_map f m) (\<lambda>v. \<exists>x. v = f x)" if "rd_safe m" for L m and f :: "'c \<Rightarrow> dynamic_value"
      by (rule rd_yields_map [OF rd_yields_safe [OF that]]) blast
    with False primitive show ?thesis
      by (cases t) (auto simp: is_primitive_def is_uint8_def rd_safe_intros intro!: rd_yields_map [OF rd_yields_safe])
  qed
next
  case (FMessage s)
  let ?P = "\<lambda>f v. conforms (fs_type f) v \<and> canon (fs_type f) v = v"
  have "rd_yields (2 ^ 32 - 1) (rd_mapM (\<lambda>f. deserialize_value (fs_type f)) (ms_fields s))
      (\<lambda>vs. length vs = length (ms_fields s) \<and> list_all (\<lambda>(f, v). ?P f v) (zip (ms_fields s) vs))"
    by (rule rd_yields_mapM, rule FMessage.IH) (use FMessage.prems in \<open>simp_all add: list_all_iff\<close>)
  then have "rd_yields (2 ^ 32 - 1) (deserialize_message s) (\<lambda>m. dm_schema m = s \<and>
      length (dm_values m) = length (ms_fields s) \<and> list_all (\<lambda>(f, v). ?P f v) (zip (ms_fields s) (dm_values m)))"
    unfolding deserialize_message.simps by (rule rd_yields_map) simp
  then show ?case
    unfolding deserialize_value.simps
    by (rule rd_yields_map) (auto simp: canon_zip_id list_all_iff dynamic_message.expand)
next
  case (FArray t n)
  then show ?case
    unfolding deserialize_value.simps
    by (intro rd_yields_map [OF rd_yields_read_n]) (auto simp: canon_map_id list_all_iff)
next
  case (FSequence t)
  show ?case
  proof (cases "t = FUint8")
    case True
    have "rd_yields (2 ^ 32 - 1) (rd_map DBytes (read_byte_sequence LittleEndian)) (\<lambda>v. \<exists>bs. v = DBytes bs \<and> length bs < 2 ^ 32)"
      by (rule rd_yields_map [OF rd_yields_byte_sequence]) simp
    then have "rd_yields (2 ^ 32 - 1) (deserialize_value (FSequence t)) (\<lambda>v. \<exists>bs. v = DBytes bs \<and> length bs < 2 ^ 32)"
      using True by simp
    then show ?thesis
      by (rule rd_yields_mono) (use True in auto)
  next
    case False
    have "rd_yields (2 ^ 32 - 1) (deserialize_value t) (\<lambda>v. conforms t v \<and> canon t v = v)"
      using FSequence by simp
    note seq = rd_yields_dyn_sequence [OF this, of LittleEndian]
    have t: "deserialize_value (FSequence t) = rd_bind (read_sequence_length LittleEndian)
        (\<lambda>len. rd_map DArray (read_n len (deserialize_value t)))" using False by simp
    show ?thesis
      unfolding t by (rule rd_yields_mono [OF seq]) (use False in \<open>auto simp: canon_map_id list_all_iff\<close>)
  qed
next
  case (FBoundedSequence t n)
  then have "rd_yields (2 ^ 32 - 1) (deserialize_value t) (\<lambda>v. conforms t v \<and> canon t v = v)" by simp
  note seq = rd_yields_dyn_sequence [OF this, of LittleEndian]
  have t: "deserialize_value (FBoundedSequence t n) = rd_bind (read_sequence_length LittleEndian)
      (\<lambda>len. rd_map DArray (read_n len (deserialize_value t)))" using FBoundedSequence.prems by simp
  show ?case
    unfolding t by (rule rd_yields_mono [OF seq]) (use FBoundedSequence.prems in \<open>auto simp: canon_map_id list_all_iff\<close>)
qed


section \<open>Properties\<close>

lemma serialize_cdr_bytes:
  assumes "message_conforms m"
  shows "serialize_cdr m = Ok (cdr_header_le @ cdr_enc LittleEndian 0 (message_cdr m))"
proof -
  obtain w' where "cdr_serialize vec_buffer LittleEndian (writer_new vec_buffer cdr_header_le) (message_cdr m) =
      (Ok w' :: (vec_writer, dynamic_error) res)"
    and "wr_buffer w' = cdr_header_le @ cdr_enc LittleEndian 0 (message_cdr m)"
    by (rule vec_write)
  then show ?thesis
    by (simp add: serialize_cdr_def serialize_message_cdr [OF assms])
qed

lemma decodes_message:
  assumes "message_conforms m"
  shows "decodes (deserialize_message (dm_schema m)) p (cdr_enc LittleEndian p (message_cdr m)) (message_canon m)"
proof -
  have len: "length (ms_fields (dm_schema m)) = length (dm_values m)"
    and all: "list_all (\<lambda>(f, x). conforms (fs_type f) x) (zip (ms_fields (dm_schema m)) (dm_values m))"
    using assms by (simp_all add: message_conforms_def)
  show ?thesis
    unfolding deserialize_message.simps message_canon_def message_cdr_def dyn_cdr.simps dynamic_value.case cdr_enc.simps
    by (intro decodes_rd_map decodes_rd_mapM len decodes_dyn list_all_zipD(2) [OF all])
qed

lemma deserialize_header:
  "deserialize_cdr (cdr_header_le @ bs) s =
     map_err (\<lambda>e. DeserializationError (ReaderError e)) (fst (deserialize_message s (reader_new bs)))"
  by (simp add: deserialize_cdr_def cdr_header_le_def)

lemma deserialize_serialized:
  assumes "message_conforms m"
  shows "deserialize_cdr (cdr_header_le @ cdr_enc LittleEndian 0 (message_cdr m)) (dm_schema m) = Ok (message_canon m)"
  using decodes_at_start [OF decodes_message [OF assms], of "[]"]
  by (simp add: deserialize_header)

text \<open>
  C5: a message that conforms to its schema is serialized without an error, and reading
  the bytes with the same schema returns the message, byte sequences in their \<open>Bytes\<close>
  form. Nested messages, arrays, sequences and strings included.
\<close>

theorem dynamic_roundtrip:
  assumes "message_conforms m"
  shows "\<exists>bs. serialize_cdr m = Ok bs \<and> deserialize_cdr bs (dm_schema m) = Ok (message_canon m)"
  using serialize_cdr_bytes [OF assms] deserialize_serialized [OF assms] by blast

definition sample_point :: message_schema where
  "sample_point = MessageSchema ''p/msg/Point'' ''p'' ''Point''
     [FieldSchema ''x'' FInt32 None, FieldSchema ''tag'' (FSequence FUint8) None] None"

definition sample_schema :: message_schema where
  "sample_schema = MessageSchema ''p/msg/Path'' ''p'' ''Path''
     [FieldSchema ''name'' FString None, FieldSchema ''points'' (FSequence (FMessage sample_point)) None] None"

definition sample_message :: dynamic_message where
  "sample_message = DynamicMessage sample_schema
     [DString [104, 105], DArray [DMessage (DynamicMessage sample_point [DInt32 5, DArray [DUint8 1, DUint8 2]])]]"

lemma sample_conforms: "message_conforms sample_message"
  by (simp add: message_conforms_def sample_message_def sample_schema_def sample_point_def is_uint8_def)

lemma dynamic_roundtrip_witness:
  "\<exists>bs. serialize_cdr sample_message = Ok bs \<and> deserialize_cdr bs (dm_schema sample_message) = Ok (message_canon sample_message)"
  by (rule dynamic_roundtrip [OF sample_conforms])

text \<open>
  C13: the dynamic and the statically typed serialization agree on the wire. For a
  conforming message \<open>serialize_cdr\<close> returns the encapsulation header followed by the
  bytes \<open>cdr_to_vec\<close> returns for the same message as a typed value.
\<close>

theorem dynamic_matches_static:
  assumes "message_conforms m"
  shows "\<exists>bs. (cdr_to_vec (message_cdr m) hint :: (bytes, 'e) res) = Ok bs \<and> serialize_cdr m = Ok (cdr_header_le @ bs)"
proof -
  obtain w' where "(cdr_serialize vec_buffer LittleEndian (writer_new vec_buffer []) (message_cdr m) :: (vec_writer, 'e) res) = Ok w'"
    and "wr_buffer w' = [] @ cdr_enc LittleEndian 0 (message_cdr m)"
    by (rule vec_write)
  then show ?thesis
    using serialize_cdr_bytes [OF assms] by (simp add: cdr_to_vec_def)
qed

lemma dynamic_matches_static_witness:
  "\<exists>bs. (cdr_to_vec (message_cdr sample_message) 0 :: (bytes, unit) res) = Ok bs \<and> serialize_cdr sample_message = Ok (cdr_header_le @ bs)"
  by (rule dynamic_matches_static [OF sample_conforms])



definition bounded_bytes_schema :: "nat \<Rightarrow> message_schema" where
  "bounded_bytes_schema n = MessageSchema ''p/msg/B'' ''p'' ''B'' [FieldSchema ''data'' (FBoundedSequence FUint8 n) None] None"

text \<open>
  A bounded byte sequence is the exception. Reading one gives a message that
  \<open>serialize_cdr\<close> then refuses, although its bytes came from a well-formed message.
\<close>

theorem bounded_bytes_not_reserializable:
  assumes "length bs < 2 ^ 32"
  shows "\<exists>m. deserialize_cdr (cdr_header_le @ enc_bytes LittleEndian 0 bs) (bounded_bytes_schema n) = Ok m \<and>
           serialize_cdr m = Err (SerializationError (DBytes bs) (FBoundedSequence FUint8 n))"
proof -
  let ?m = "DynamicMessage (bounded_bytes_schema n) [DBytes bs]"
  have "decodes (rd_bind (rd_map DBytes (read_byte_sequence LittleEndian)) (\<lambda>y. rd_return [y])) 0
      (enc_bytes LittleEndian 0 bs) [DBytes bs]"
    by (intro decodes_bind_return decodes_rd_map decodes_byte_sequence assms)
  then have "decodes (rd_mapM (\<lambda>f. deserialize_value (fs_type f)) (ms_fields (bounded_bytes_schema n))) 0
      (enc_bytes LittleEndian 0 bs) [DBytes bs]"
    by (simp add: bounded_bytes_schema_def)
  then have "decodes (deserialize_message (bounded_bytes_schema n)) 0 (enc_bytes LittleEndian 0 bs) ?m"
    unfolding deserialize_message.simps by (rule decodes_rd_map)
  from decodes_at_start [OF this, of "[]"]
  have "deserialize_cdr (cdr_header_le @ enc_bytes LittleEndian 0 bs) (bounded_bytes_schema n) = Ok ?m"
    by (simp add: deserialize_header)
  moreover have "serialize_cdr ?m = Err (SerializationError (DBytes bs) (FBoundedSequence FUint8 n))"
    by (simp add: serialize_cdr_def serialize_message.simps serialize_value_eqs bounded_bytes_schema_def)
  ultimately show ?thesis by blast
qed

lemma bounded_bytes_not_reserializable_witness:
  "\<exists>m. deserialize_cdr (cdr_header_le @ enc_bytes LittleEndian 0 [7]) (bounded_bytes_schema 4) = Ok m \<and>
     serialize_cdr m = Err (SerializationError (DBytes [7]) (FBoundedSequence FUint8 4))"
  by (rule bounded_bytes_not_reserializable) simp

end
