(* ===== verification/Lifecycle.thy ===== *)
theory Lifecycle
  imports Hiroz_Prelude
begin

text \<open>
  \<open>crates/hiroz/src/lifecycle/state_machine.rs\<close>: the ROS 2 lifecycle states, transition
  ids and \<open>StateMachine\<close>, and the state codec of \<open>node.rs\<close> (\<open>to_lc_state\<close>) and
  \<open>client.rs\<close> (\<open>state_from_lc\<close>). A method on \<open>&mut self\<close> returns its result with the
  new machine.
\<close>

section \<open>States and transitions\<close>

datatype lc_state =
    Unknown | Unconfigured | Inactive | Active | Finalized
  | Configuring | CleaningUp | ShuttingDown | Activating | Deactivating | ErrorProcessing

definition state_id :: "lc_state \<Rightarrow> u8" where
  "state_id s = (case s of
     Unknown \<Rightarrow> 0 | Unconfigured \<Rightarrow> 1 | Inactive \<Rightarrow> 2 | Active \<Rightarrow> 3 | Finalized \<Rightarrow> 4
   | Configuring \<Rightarrow> 10 | CleaningUp \<Rightarrow> 11 | ShuttingDown \<Rightarrow> 12 | Activating \<Rightarrow> 13 | Deactivating \<Rightarrow> 14
   | ErrorProcessing \<Rightarrow> 15)"

definition state_label :: "lc_state \<Rightarrow> string" where
  "state_label s = (case s of
     Unknown \<Rightarrow> ''unknown'' | Unconfigured \<Rightarrow> ''unconfigured'' | Inactive \<Rightarrow> ''inactive''
   | Active \<Rightarrow> ''active'' | Finalized \<Rightarrow> ''finalized'' | Configuring \<Rightarrow> ''configuring''
   | CleaningUp \<Rightarrow> ''cleaningup'' | ShuttingDown \<Rightarrow> ''shuttingdown'' | Activating \<Rightarrow> ''activating''
   | Deactivating \<Rightarrow> ''deactivating'' | ErrorProcessing \<Rightarrow> ''errorprocessing'')"

definition is_primary_state :: "lc_state \<Rightarrow> bool" where
  "is_primary_state s = (case s of
     Unconfigured \<Rightarrow> True | Inactive \<Rightarrow> True | Active \<Rightarrow> True | Finalized \<Rightarrow> True | _ \<Rightarrow> False)"

datatype callback_return = CbSuccess | CbFailure | CbError

datatype transition_id =
    Configure | Cleanup | Activate | Deactivate
  | UnconfiguredShutdown | InactiveShutdown | ActiveShutdown

definition transition_num :: "transition_id \<Rightarrow> u8" where
  "transition_num t = (case t of
     Configure \<Rightarrow> 1 | Cleanup \<Rightarrow> 2 | Activate \<Rightarrow> 3 | Deactivate \<Rightarrow> 4
   | UnconfiguredShutdown \<Rightarrow> 5 | InactiveShutdown \<Rightarrow> 6 | ActiveShutdown \<Rightarrow> 7)"

definition transition_label :: "transition_id \<Rightarrow> string" where
  "transition_label t = (case t of
     Configure \<Rightarrow> ''configure'' | Cleanup \<Rightarrow> ''cleanup'' | Activate \<Rightarrow> ''activate''
   | Deactivate \<Rightarrow> ''deactivate'' | UnconfiguredShutdown \<Rightarrow> ''shutdown''
   | InactiveShutdown \<Rightarrow> ''shutdown'' | ActiveShutdown \<Rightarrow> ''shutdown'')"

definition shutdown_for :: "lc_state \<Rightarrow> transition_id option" where
  "shutdown_for s = (case s of
     Unconfigured \<Rightarrow> Some UnconfiguredShutdown | Inactive \<Rightarrow> Some InactiveShutdown
   | Active \<Rightarrow> Some ActiveShutdown | _ \<Rightarrow> None)"

definition from_id_and_state :: "u8 \<Rightarrow> lc_state \<Rightarrow> transition_id option" where
  "from_id_and_state i cur =
     (if i = 1 \<and> cur = Unconfigured then Some Configure
      else if i = 2 \<and> cur = Inactive then Some Cleanup
      else if i = 3 \<and> cur = Inactive then Some Activate
      else if i = 4 \<and> cur = Active then Some Deactivate
      else if i = 5 \<and> cur = Unconfigured then Some UnconfiguredShutdown
      else if i = 6 \<and> cur = Inactive then Some InactiveShutdown
      else if i = 7 \<and> cur = Active then Some ActiveShutdown
      else None)"

definition from_label_and_state :: "string \<Rightarrow> lc_state \<Rightarrow> transition_id option" where
  "from_label_and_state label cur =
     (if label = ''configure'' \<and> cur = Unconfigured then Some Configure
      else if label = ''cleanup'' \<and> cur = Inactive then Some Cleanup
      else if label = ''activate'' \<and> cur = Inactive then Some Activate
      else if label = ''deactivate'' \<and> cur = Active then Some Deactivate
      else if label = ''shutdown'' \<and> cur = Unconfigured then Some UnconfiguredShutdown
      else if label = ''shutdown'' \<and> cur = Inactive then Some InactiveShutdown
      else if label = ''shutdown'' \<and> cur = Active then Some ActiveShutdown
      else None)"

section \<open>StateMachine\<close>

record state_machine =
  sm_current :: lc_state

definition sm_new :: state_machine where
  "sm_new = \<lparr>sm_current = Unconfigured\<rparr>"

definition intermediate_state :: "transition_id \<Rightarrow> lc_state" where
  "intermediate_state t = (case t of
     Configure \<Rightarrow> Configuring | Cleanup \<Rightarrow> CleaningUp | Activate \<Rightarrow> Activating | Deactivate \<Rightarrow> Deactivating
   | UnconfiguredShutdown \<Rightarrow> ShuttingDown | InactiveShutdown \<Rightarrow> ShuttingDown | ActiveShutdown \<Rightarrow> ShuttingDown)"

definition goal_state :: "transition_id \<Rightarrow> lc_state" where
  "goal_state t = (case t of
     Configure \<Rightarrow> Inactive | Cleanup \<Rightarrow> Unconfigured | Activate \<Rightarrow> Active | Deactivate \<Rightarrow> Inactive
   | UnconfiguredShutdown \<Rightarrow> Finalized | InactiveShutdown \<Rightarrow> Finalized | ActiveShutdown \<Rightarrow> Finalized)"

definition transition_valid :: "transition_id \<Rightarrow> lc_state \<Rightarrow> bool" where
  "transition_valid t s = (case t of
     Configure \<Rightarrow> s = Unconfigured | Cleanup \<Rightarrow> s = Inactive | Activate \<Rightarrow> s = Inactive
   | Deactivate \<Rightarrow> s = Active | UnconfiguredShutdown \<Rightarrow> s = Unconfigured
   | InactiveShutdown \<Rightarrow> s = Inactive | ActiveShutdown \<Rightarrow> s = Active)"

definition sm_begin :: "state_machine \<Rightarrow> transition_id \<Rightarrow> lc_state option \<times> state_machine" where
  "sm_begin sm t =
     (let start_state = sm_current sm
      in if \<not> transition_valid t start_state then (None, sm)
         else (Some start_state, sm\<lparr>sm_current := intermediate_state t\<rparr>))"

definition sm_finish :: "state_machine \<Rightarrow> transition_id \<Rightarrow> lc_state \<Rightarrow> callback_return \<Rightarrow> lc_state \<times> state_machine" where
  "sm_finish sm t start_state cb_result =
     (let sm' = (case cb_result of
          CbSuccess \<Rightarrow> sm\<lparr>sm_current := goal_state t\<rparr>
        | CbFailure \<Rightarrow> sm\<lparr>sm_current := start_state\<rparr>
        | CbError \<Rightarrow> sm\<lparr>sm_current := ErrorProcessing\<rparr>)
      in (sm_current sm', sm'))"

definition sm_trigger :: "state_machine \<Rightarrow> transition_id \<Rightarrow> (lc_state \<Rightarrow> callback_return) \<Rightarrow> lc_state \<times> state_machine" where
  "sm_trigger sm t callback =
     (case sm_begin sm t of
        (Some start_state, sm1) \<Rightarrow> sm_finish sm1 t start_state (callback start_state)
      | (None, sm1) \<Rightarrow> (sm_current sm1, sm1))"

text \<open>
  The debug assertion that the machine is in \<open>ErrorProcessing\<close> is not part of a release
  build; that it holds at every call is a property of the node.
\<close>

definition finish_error_processing :: "state_machine \<Rightarrow> callback_return \<Rightarrow> lc_state \<times> state_machine" where
  "finish_error_processing sm cb =
     (let sm' = sm\<lparr>sm_current := (case cb of CbSuccess \<Rightarrow> Unconfigured | _ \<Rightarrow> Finalized)\<rparr>
      in (sm_current sm', sm'))"

definition trigger_error_processing :: "state_machine \<Rightarrow> (lc_state \<Rightarrow> callback_return) \<Rightarrow> lc_state \<times> state_machine" where
  "trigger_error_processing sm on_error = finish_error_processing sm (on_error ErrorProcessing)"

definition all_states :: "(u8 \<times> string) list" where
  "all_states =
     [(1, ''unconfigured''), (2, ''inactive''), (3, ''active''), (4, ''finalized''),
      (10, ''configuring''), (11, ''cleaningup''), (12, ''shuttingdown''), (13, ''activating''),
      (14, ''deactivating''), (15, ''errorprocessing'')]"

definition available_transitions :: "state_machine \<Rightarrow> (transition_id \<times> lc_state \<times> lc_state) list" where
  "available_transitions sm = (case sm_current sm of
     Unconfigured \<Rightarrow> [(Configure, Unconfigured, Inactive), (UnconfiguredShutdown, Unconfigured, Finalized)]
   | Inactive \<Rightarrow> [(Activate, Inactive, Active), (Cleanup, Inactive, Unconfigured),
                  (InactiveShutdown, Inactive, Finalized)]
   | Active \<Rightarrow> [(Deactivate, Active, Inactive), (ActiveShutdown, Active, Finalized)]
   | _ \<Rightarrow> [])"

definition all_transitions :: "(transition_id \<times> lc_state \<times> lc_state) list" where
  "all_transitions =
     [(Configure, Unconfigured, Inactive), (Activate, Inactive, Active), (Deactivate, Active, Inactive),
      (Cleanup, Inactive, Unconfigured), (UnconfiguredShutdown, Unconfigured, Finalized),
      (InactiveShutdown, Inactive, Finalized), (ActiveShutdown, Active, Finalized)]"

section \<open>The state on the wire\<close>

record lc_state_msg =
  lcs_id :: u8
  lcs_label :: string

record lc_transition_msg =
  lct_id :: u8
  lct_label :: string

definition to_lc_state :: "lc_state \<Rightarrow> lc_state_msg" where
  "to_lc_state s = \<lparr>lcs_id = state_id s, lcs_label = state_label s\<rparr>"

definition to_lc_transition :: "transition_id \<Rightarrow> lc_transition_msg" where
  "to_lc_transition t = \<lparr>lct_id = transition_num t, lct_label = transition_label t\<rparr>"

definition state_from_lc :: "lc_state_msg \<Rightarrow> lc_state" where
  "state_from_lc m =
     (let i = lcs_id m
      in if i = 1 then Unconfigured else if i = 2 then Inactive else if i = 3 then Active
         else if i = 4 then Finalized else if i = 10 then Configuring else if i = 11 then CleaningUp
         else if i = 12 then ShuttingDown else if i = 13 then Activating else if i = 14 then Deactivating
         else if i = 15 then ErrorProcessing else Unknown)"

lemmas lifecycle_defs = state_id_def state_label_def is_primary_state_def transition_num_def
  transition_label_def shutdown_for_def from_id_and_state_def from_label_and_state_def
  intermediate_state_def goal_state_def transition_valid_def available_transitions_def all_transitions_def

section \<open>Lemmas\<close>

lemma begin_Some_iff: "fst (sm_begin sm t) = Some s \<longleftrightarrow> sm_current sm = s \<and> transition_valid t s"
  by (auto simp: sm_begin_def Let_def)

lemma begin_cases:
  obtains "transition_valid t (sm_current sm)"
      and "sm_begin sm t = (Some (sm_current sm), sm\<lparr>sm_current := intermediate_state t\<rparr>)"
  | "\<not> transition_valid t (sm_current sm)" and "sm_begin sm t = (None, sm)"
  by (cases "transition_valid t (sm_current sm)") (simp_all add: sm_begin_def)

lemma valid_primary: "transition_valid t s \<Longrightarrow> is_primary_state s"
  by (cases t) (simp_all add: lifecycle_defs)

lemma goal_primary [simp]: "is_primary_state (goal_state t)"
  by (cases t) (simp_all add: lifecycle_defs)

lemma intermediate_not_primary [simp]: "\<not> is_primary_state (intermediate_state t)"
  by (cases t) (simp_all add: lifecycle_defs)

lemma error_not_primary [simp]: "\<not> is_primary_state ErrorProcessing"
  by (simp add: is_primary_state_def)

lemma goal_not_error [simp]: "goal_state t \<noteq> ErrorProcessing"
  by (cases t) (simp_all add: lifecycle_defs)

lemma busy_blocks_begin: "\<not> is_primary_state (sm_current sm) \<Longrightarrow> sm_begin sm t = (None, sm)"
  using valid_primary by (auto simp: sm_begin_def Let_def)

lemma from_id_valid: "from_id_and_state i s = Some t \<longleftrightarrow> transition_valid t s \<and> transition_num t = i"
  by (cases t; cases s) (auto simp: lifecycle_defs)

lemma from_label_valid: "from_label_and_state l s = Some t \<longleftrightarrow> transition_valid t s \<and> transition_label t = l"
  by (cases t; cases s) (auto simp: lifecycle_defs)

section \<open>Properties\<close>

text \<open>
  The four descriptions of the transition graph agree. A transition is listed as
  available, listed in the graph with the current state as its start, resolved from its id,
  resolved from its label, or admitted by \<open>begin\<close>, exactly under the same condition; the
  goal listed is the state a successful callback leads to. Busy states and \<open>Finalized\<close>
  admit none.
\<close>

theorem transition_descriptions_agree:
  "((t, s, g) \<in> set (available_transitions sm) \<longleftrightarrow> s = sm_current sm \<and> (t, s, g) \<in> set all_transitions) \<and>
   ((t, s, g) \<in> set all_transitions \<longleftrightarrow> fst (sm_begin \<lparr>sm_current = s\<rparr> t) = Some s \<and> g = goal_state t) \<and>
   (from_id_and_state i s = Some t \<longleftrightarrow> fst (sm_begin \<lparr>sm_current = s\<rparr> t) = Some s \<and> transition_num t = i) \<and>
   (from_label_and_state l s = Some t \<longleftrightarrow> fst (sm_begin \<lparr>sm_current = s\<rparr> t) = Some s \<and> transition_label t = l)"
proof (intro conjI)
  show "(t, s, g) \<in> set (available_transitions sm) \<longleftrightarrow> s = sm_current sm \<and> (t, s, g) \<in> set all_transitions"
    by (cases "sm_current sm"; cases t) (auto simp: available_transitions_def all_transitions_def)
  show "(t, s, g) \<in> set all_transitions \<longleftrightarrow> fst (sm_begin \<lparr>sm_current = s\<rparr> t) = Some s \<and> g = goal_state t"
    by (cases t) (auto simp: begin_Some_iff all_transitions_def transition_valid_def goal_state_def)
qed (simp_all add: begin_Some_iff from_id_valid from_label_valid)

text \<open>
  The outcome of \<open>trigger\<close>. From a state that does not admit the transition nothing
  changes; otherwise the callback is run on the start state and success, failure and error
  lead to the goal, back to the start, and into \<open>ErrorProcessing\<close>, from where
  \<open>finish_error_processing\<close> always returns to a primary state.
\<close>

theorem trigger_outcome:
  "sm_trigger sm t cb =
     (let s = sm_current sm;
          s' = (if \<not> transition_valid t s then s
                else case cb s of CbSuccess \<Rightarrow> goal_state t | CbFailure \<Rightarrow> s | CbError \<Rightarrow> ErrorProcessing)
      in (s', sm\<lparr>sm_current := s'\<rparr>)) \<and>
   is_primary_state (fst (trigger_error_processing sm on_error)) \<and>
   fst (trigger_error_processing sm on_error) = sm_current (snd (trigger_error_processing sm on_error))"
  by (cases "cb (sm_current sm)"; cases "on_error ErrorProcessing")
     (simp_all add: sm_trigger_def sm_begin_def sm_finish_def Let_def trigger_error_processing_def
        finish_error_processing_def is_primary_state_def)

text \<open>
  The state codec. A client that reads a state off the wire recovers exactly the
  state the node has, busy states included; the listed states are the states a machine
  can be in, with their own id and label; and only ids no state has decode to \<open>Unknown\<close>.
\<close>

theorem state_codec_roundtrip:
  "state_from_lc (to_lc_state s) = s \<and>
   (s \<noteq> Unknown \<longleftrightarrow> (state_id s, state_label s) \<in> set all_states) \<and>
   (state_from_lc m = Unknown \<longleftrightarrow> (\<forall>s'. s' \<noteq> Unknown \<longrightarrow> state_id s' \<noteq> lcs_id m))"
proof (intro conjI)
  show "state_from_lc (to_lc_state s) = s"
    by (cases s) (simp_all add: state_from_lc_def to_lc_state_def state_id_def)
  show "s \<noteq> Unknown \<longleftrightarrow> (state_id s, state_label s) \<in> set all_states"
    by (cases s) (simp_all add: all_states_def state_id_def state_label_def)
  have "state_id (state_from_lc m) = lcs_id m" if "state_from_lc m \<noteq> Unknown"
    using that by (auto simp: state_from_lc_def state_id_def Let_def split: if_splits)
  moreover have "state_from_lc m = s'" if "state_id s' = lcs_id m" "s' \<noteq> Unknown" for s'
    using that by (cases s') (auto simp: state_from_lc_def state_id_def)
  ultimately show "state_from_lc m = Unknown \<longleftrightarrow> (\<forall>s'. s' \<noteq> Unknown \<longrightarrow> state_id s' \<noteq> lcs_id m)"
    by metis
qed

lemma state_codec_roundtrip_witness: "state_from_lc (to_lc_state Activating) = Activating \<and> state_id Activating \<noteq> 99"
  using state_codec_roundtrip [of Activating "\<lparr>lcs_id = 99, lcs_label = ''''\<rparr>"]
  by (simp add: state_from_lc_def)

end
