(* ===== verification/Lifecycle_Node.thy ===== *)
theory Lifecycle_Node
  imports Lifecycle
begin

text \<open>
  \<open>crates/hiroz/src/lifecycle/node.rs\<close> and \<open>publisher.rs\<close>: the lifecycle node, its
  managed publishers, the transition events it publishes and the \<open>change_state\<close> service,
  first as functions on the node, then as a system of interleaved steps between the
  thread that triggers a transition and the service handlers, which share the machine.
  What the inner publisher does with a message, the Zenoh session and the logging are not
  modelled; a failed publication of an event is only logged by the code.
\<close>

section \<open>Lifecycle publishers\<close>

record lc_publisher =
  lp_activated :: bool
  lp_should_warn :: bool

definition lp_new :: lc_publisher where
  "lp_new = \<lparr>lp_activated = False, lp_should_warn = True\<rparr>"

definition lp_on_activate :: "lc_publisher \<Rightarrow> lc_publisher" where
  "lp_on_activate p = p\<lparr>lp_activated := True, lp_should_warn := True\<rparr>"

definition lp_on_deactivate :: "lc_publisher \<Rightarrow> lc_publisher" where
  "lp_on_deactivate p = p\<lparr>lp_activated := False\<rparr>"

text \<open>What \<open>publish\<close> does: warn about a dropped message, drop it silently, or pass it on.\<close>

datatype 'm publish_effect = DroppedWithWarning | Dropped | Forwarded 'm

definition lp_publish :: "lc_publisher \<Rightarrow> 'm \<Rightarrow> 'm publish_effect \<times> lc_publisher" where
  "lp_publish p msg =
     (if \<not> lp_activated p
      then (if lp_should_warn p then (DroppedWithWarning, p\<lparr>lp_should_warn := False\<rparr>) else (Dropped, p))
      else (Forwarded msg, p))"

section \<open>The node\<close>

record lc_event =
  te_transition :: lc_transition_msg
  te_start :: lc_state_msg
  te_goal :: lc_state_msg

definition make_transition_event :: "transition_id \<Rightarrow> lc_state \<Rightarrow> lc_state \<Rightarrow> lc_event" where
  "make_transition_event t start goal =
     \<lparr>te_transition = to_lc_transition t, te_start = to_lc_state start, te_goal = to_lc_state goal\<rparr>"

record lc_node =
  ln_machine :: state_machine
  ln_entities :: "lc_publisher list"
  ln_events :: "lc_event list"

abbreviation ln_state :: "lc_node \<Rightarrow> lc_state" where
  "ln_state n \<equiv> sm_current (ln_machine n)"

definition ln_new :: lc_node where
  "ln_new = \<lparr>ln_machine = sm_new, ln_entities = [], ln_events = []\<rparr>"

text \<open>The user callbacks; a callback returns a verdict or panics.\<close>

datatype cb_outcome = Returned callback_return | Panicked

record lc_callbacks =
  on_configure :: "lc_state \<Rightarrow> cb_outcome"
  on_activate :: "lc_state \<Rightarrow> cb_outcome"
  on_deactivate :: "lc_state \<Rightarrow> cb_outcome"
  on_cleanup :: "lc_state \<Rightarrow> cb_outcome"
  on_shutdown :: "lc_state \<Rightarrow> cb_outcome"
  on_error :: "lc_state \<Rightarrow> cb_outcome"

definition callback_for :: "lc_callbacks \<Rightarrow> transition_id \<Rightarrow> lc_state \<Rightarrow> cb_outcome" where
  "callback_for c t = (case t of
     Configure \<Rightarrow> on_configure c | Activate \<Rightarrow> on_activate c | Deactivate \<Rightarrow> on_deactivate c
   | Cleanup \<Rightarrow> on_cleanup c | UnconfiguredShutdown \<Rightarrow> on_shutdown c
   | InactiveShutdown \<Rightarrow> on_shutdown c | ActiveShutdown \<Rightarrow> on_shutdown c)"

definition notify_entities :: "lc_state \<Rightarrow> lc_state \<Rightarrow> lc_publisher list \<Rightarrow> lc_publisher list" where
  "notify_entities start final_state es =
     (if final_state = Active \<and> start \<noteq> Active then map lp_on_activate es
      else if start = Active \<and> final_state \<noteq> Active then map lp_on_deactivate es
      else es)"

text \<open>
  The end of \<open>trigger_transition\<close>: notify the managed entities, publish the event.
\<close>

definition settle :: "lc_node \<Rightarrow> transition_id \<Rightarrow> lc_state \<Rightarrow> lc_state \<Rightarrow> lc_node" where
  "settle n t start final_state =
     n\<lparr>ln_entities := notify_entities start final_state (ln_entities n),
       ln_events := ln_events n @ [make_transition_event t start final_state]\<rparr>"

text \<open>
  \<open>trigger_transition\<close> when nothing else touches the node, its part from the comparison
  with \<open>ErrorProcessing\<close> on first. A panic of a callback is
  re-raised after the machine has been settled, so the rest is skipped.
\<close>

definition after_callback :: "lc_callbacks \<Rightarrow> lc_node \<Rightarrow> transition_id \<Rightarrow> lc_state \<Rightarrow> lc_state
    \<Rightarrow> (lc_state, unit) res \<times> lc_node" where
  "after_callback c n t start cb_result =
     (if cb_result = ErrorProcessing
      then (case on_error c ErrorProcessing of
              Panicked \<Rightarrow> (Panic, n\<lparr>ln_machine := snd (finish_error_processing (ln_machine n) CbError)\<rparr>)
            | Returned ret \<Rightarrow>
                let (final_state, sm3) = finish_error_processing (ln_machine n) ret
                in (Ok final_state, settle (n\<lparr>ln_machine := sm3\<rparr>) t start final_state))
      else (Ok cb_result, settle n t start cb_result))"

definition trigger_transition :: "lc_callbacks \<Rightarrow> lc_node \<Rightarrow> transition_id \<Rightarrow> (lc_state, unit) res \<times> lc_node" where
  "trigger_transition c n t =
     (let start = ln_state n
      in case sm_begin (ln_machine n) t of
           (None, sm1) \<Rightarrow> after_callback c (n\<lparr>ln_machine := sm1\<rparr>) t start (sm_current sm1)
         | (Some start_state, sm1) \<Rightarrow>
             (case callback_for c t start_state of
                Panicked \<Rightarrow> (Panic, n\<lparr>ln_machine := snd (sm_finish sm1 t start_state CbFailure)\<rparr>)
              | Returned ret \<Rightarrow>
                  let (cb_result, sm2) = sm_finish sm1 t start_state ret
                  in after_callback c (n\<lparr>ln_machine := sm2\<rparr>) t start cb_result))"

definition ln_shutdown :: "lc_callbacks \<Rightarrow> lc_node \<Rightarrow> (lc_state, unit) res \<times> lc_node" where
  "ln_shutdown c n =
     (case shutdown_for (ln_state n) of
        Some t \<Rightarrow> trigger_transition c n t
      | None \<Rightarrow> (Ok (ln_state n), n))"

definition ln_create_publisher :: "lc_node \<Rightarrow> lc_node" where
  "ln_create_publisher n =
     n\<lparr>ln_entities := ln_entities n @ [if ln_state n = Active then lp_on_activate lp_new else lp_new]\<rparr>"

section \<open>The services\<close>

text \<open>
  \<open>change_state\<close> takes the lock twice: to read the state and resolve the request, and to
  run the machine's own \<open>trigger\<close> with a callback that always succeeds.
\<close>

definition resolve_request :: "u8 \<Rightarrow> string \<Rightarrow> lc_state \<Rightarrow> transition_id option" where
  "resolve_request tid label cur =
     (if label \<noteq> [] then from_label_and_state label cur else from_id_and_state tid cur)"

definition change_state_apply :: "lc_node \<Rightarrow> transition_id \<Rightarrow> lc_state \<Rightarrow> lc_node" where
  "change_state_apply n t start =
     (let (goal, sm') = sm_trigger (ln_machine n) t (\<lambda>_. CbSuccess)
      in n\<lparr>ln_machine := sm', ln_events := ln_events n @ [make_transition_event t start goal]\<rparr>)"

definition change_state :: "lc_node \<Rightarrow> u8 \<Rightarrow> string \<Rightarrow> bool \<times> lc_node" where
  "change_state n tid label =
     (let cur = ln_state n
      in case resolve_request tid label cur of
           Some t \<Rightarrow> (True, change_state_apply n t cur)
         | None \<Rightarrow> (False, n))"

definition get_state :: "lc_node \<Rightarrow> lc_state_msg" where
  "get_state n = to_lc_state (ln_state n)"

definition get_available_states :: "lc_state_msg list" where
  "get_available_states = map (\<lambda>(i, lbl). \<lparr>lcs_id = i, lcs_label = lbl\<rparr>) all_states"

definition to_lc_td :: "transition_id \<times> lc_state \<times> lc_state \<Rightarrow> lc_event" where
  "to_lc_td = (\<lambda>(t, s, g). \<lparr>te_transition = to_lc_transition t, te_start = to_lc_state s, te_goal = to_lc_state g\<rparr>)"

definition get_available_transitions :: "lc_node \<Rightarrow> lc_event list" where
  "get_available_transitions n = map to_lc_td (available_transitions (ln_machine n))"

definition get_transition_graph :: "lc_event list" where
  "get_transition_graph = map to_lc_td all_transitions"

text \<open>\<open>ZLifecycleClient::shutdown\<close>: the request it sends for the state it was told.\<close>

definition client_shutdown_request :: "lc_state \<Rightarrow> u8 \<times> string" where
  "client_shutdown_request s =
     (transition_num (case s of Unconfigured \<Rightarrow> UnconfiguredShutdown | Active \<Rightarrow> ActiveShutdown
                      | _ \<Rightarrow> InactiveShutdown), [])"

section \<open>Interleaving\<close>

text \<open>
  \<open>trigger_transition\<close> takes \<open>&mut self\<close>, so one runs at a time; it holds the lock only
  for single machine operations. Its local progress is \<open>lc_pc\<close>. Service handlers run
  concurrently; one that has resolved its request and not yet applied it is an element of
  \<open>sys_pending\<close>. \<open>create_publisher\<close> borrows the node too and so never overlaps a
  transition. Callback outcomes are arbitrary.
\<close>

datatype lc_pc =
    Idle
  | Started transition_id lc_state
  | InCallback transition_id lc_state lc_state
  | Rejected transition_id lc_state
  | InError transition_id lc_state
  | Settling transition_id lc_state lc_state

record lc_sys =
  sys_node :: lc_node
  sys_pc :: lc_pc
  sys_pending :: "(transition_id \<times> lc_state) list"

definition sys_init :: lc_sys where
  "sys_init = \<lparr>sys_node = ln_new, sys_pc = Idle, sys_pending = []\<rparr>"

definition after_verdict :: "transition_id \<Rightarrow> lc_state \<Rightarrow> lc_state \<Rightarrow> lc_pc" where
  "after_verdict t start cb_result =
     (if cb_result = ErrorProcessing then InError t start else Settling t start cb_result)"

inductive lc_step :: "lc_sys \<Rightarrow> lc_sys \<Rightarrow> bool" where
  start: "lc_step \<lparr>sys_node = n, sys_pc = Idle, sys_pending = ps\<rparr>
                  \<lparr>sys_node = n, sys_pc = Started t (ln_state n), sys_pending = ps\<rparr>"
| begin_ok: "sm_begin (ln_machine n) t = (Some ss, sm1) \<Longrightarrow>
     lc_step \<lparr>sys_node = n, sys_pc = Started t st, sys_pending = ps\<rparr>
             \<lparr>sys_node = n\<lparr>ln_machine := sm1\<rparr>, sys_pc = InCallback t st ss, sys_pending = ps\<rparr>"
| begin_refused: "sm_begin (ln_machine n) t = (None, sm1) \<Longrightarrow>
     lc_step \<lparr>sys_node = n, sys_pc = Started t st, sys_pending = ps\<rparr>
             \<lparr>sys_node = n\<lparr>ln_machine := sm1\<rparr>, sys_pc = Rejected t st, sys_pending = ps\<rparr>"
| reread: "lc_step \<lparr>sys_node = n, sys_pc = Rejected t st, sys_pending = ps\<rparr>
                   \<lparr>sys_node = n, sys_pc = after_verdict t st (ln_state n), sys_pending = ps\<rparr>"
| callback_returns: "sm_finish (ln_machine n) t ss ret = (r, sm2) \<Longrightarrow>
     lc_step \<lparr>sys_node = n, sys_pc = InCallback t st ss, sys_pending = ps\<rparr>
             \<lparr>sys_node = n\<lparr>ln_machine := sm2\<rparr>, sys_pc = after_verdict t st r, sys_pending = ps\<rparr>"
| callback_panics: "sm_finish (ln_machine n) t ss CbFailure = (r, sm2) \<Longrightarrow>
     lc_step \<lparr>sys_node = n, sys_pc = InCallback t st ss, sys_pending = ps\<rparr>
             \<lparr>sys_node = n\<lparr>ln_machine := sm2\<rparr>, sys_pc = Idle, sys_pending = ps\<rparr>"
| on_error_returns: "finish_error_processing (ln_machine n) ret = (r, sm3) \<Longrightarrow>
     lc_step \<lparr>sys_node = n, sys_pc = InError t st, sys_pending = ps\<rparr>
             \<lparr>sys_node = n\<lparr>ln_machine := sm3\<rparr>, sys_pc = Settling t st r, sys_pending = ps\<rparr>"
| on_error_panics: "finish_error_processing (ln_machine n) CbError = (r, sm3) \<Longrightarrow>
     lc_step \<lparr>sys_node = n, sys_pc = InError t st, sys_pending = ps\<rparr>
             \<lparr>sys_node = n\<lparr>ln_machine := sm3\<rparr>, sys_pc = Idle, sys_pending = ps\<rparr>"
| settle: "lc_step \<lparr>sys_node = n, sys_pc = Settling t st f, sys_pending = ps\<rparr>
                   \<lparr>sys_node = settle n t st f, sys_pc = Idle, sys_pending = ps\<rparr>"
| create: "lc_step \<lparr>sys_node = n, sys_pc = Idle, sys_pending = ps\<rparr>
                   \<lparr>sys_node = ln_create_publisher n, sys_pc = Idle, sys_pending = ps\<rparr>"
| resolve: "resolve_request tid label (ln_state n) = Some t \<Longrightarrow>
     lc_step \<lparr>sys_node = n, sys_pc = pc, sys_pending = ps\<rparr>
             \<lparr>sys_node = n, sys_pc = pc, sys_pending = (t, ln_state n) # ps\<rparr>"
| applied: "(t, cur) \<in> set ps \<Longrightarrow>
     lc_step \<lparr>sys_node = n, sys_pc = pc, sys_pending = ps\<rparr>
             \<lparr>sys_node = change_state_apply n t cur, sys_pc = pc, sys_pending = remove1 (t, cur) ps\<rparr>"

text \<open>
  Busy states belong to the transition that is running: the machine is in the
  intermediate state while the callback runs, in \<open>ErrorProcessing\<close> while \<open>on_error\<close>
  runs, and in a primary state at any other time.
\<close>

definition lc_inv :: "lc_sys \<Rightarrow> bool" where
  "lc_inv s = (case sys_pc s of
     InCallback t st ss \<Rightarrow> ln_state (sys_node s) = intermediate_state t \<and> transition_valid t ss
   | InError t st \<Rightarrow> ln_state (sys_node s) = ErrorProcessing
   | Settling t st f \<Rightarrow> is_primary_state (ln_state (sys_node s)) \<and> is_primary_state f
   | _ \<Rightarrow> is_primary_state (ln_state (sys_node s)))"

lemma settle_machine [simp]: "ln_machine (settle n t st f) = ln_machine n"
  by (simp add: settle_def)

lemma create_machine [simp]: "ln_machine (ln_create_publisher n) = ln_machine n"
  by (simp add: ln_create_publisher_def)

lemma trigger_success_state:
  "sm_current (snd (sm_trigger sm t (\<lambda>_. CbSuccess))) =
     (if transition_valid t (sm_current sm) then goal_state t else sm_current sm)"
  by (simp add: sm_trigger_def sm_begin_def sm_finish_def Let_def)

lemma change_state_apply_state:
  "ln_state (change_state_apply n t cur) = (if transition_valid t (ln_state n) then goal_state t else ln_state n)"
  using trigger_success_state [of "ln_machine n" t]
  by (simp add: change_state_apply_def case_prod_unfold Let_def)

lemma change_state_apply_busy:
  assumes "\<not> is_primary_state (ln_state n)"
  shows "ln_state (change_state_apply n t cur) = ln_state n"
  using assms valid_primary [of t "ln_state n"] by (auto simp: change_state_apply_state)

lemma change_state_apply_primary:
  "is_primary_state (ln_state n) \<Longrightarrow> is_primary_state (ln_state (change_state_apply n t cur))"
  by (simp add: change_state_apply_state)

lemma finish_state:
  "sm_finish sm t ss ret = (r, sm') \<Longrightarrow>
     sm_current sm' = r \<and> r = (case ret of CbSuccess \<Rightarrow> goal_state t | CbFailure \<Rightarrow> ss | CbError \<Rightarrow> ErrorProcessing)"
  by (auto simp: sm_finish_def Let_def split: callback_return.splits)

lemma finish_error_state:
  "finish_error_processing sm ret = (r, sm') \<Longrightarrow> sm_current sm' = r \<and> is_primary_state r"
  by (auto simp: finish_error_processing_def Let_def is_primary_state_def split: callback_return.splits)

lemma begin_Some: "sm_begin sm t = (Some ss, sm1) \<Longrightarrow> sm_current sm1 = intermediate_state t \<and> transition_valid t ss"
  by (auto simp: sm_begin_def Let_def split: if_splits)

lemma begin_None: "sm_begin sm t = (None, sm1) \<Longrightarrow> sm1 = sm"
  by (auto simp: sm_begin_def Let_def split: if_splits)

lemma lc_step_inv: "lc_step s s' \<Longrightarrow> lc_inv s \<Longrightarrow> lc_inv s'"
proof (induction rule: lc_step.induct)
  case (callback_returns n t ss ret r sm2 st ps)
  then show ?case
    using finish_state [OF callback_returns.hyps] valid_primary [of t ss]
    by (auto simp: lc_inv_def after_verdict_def split: callback_return.splits)
next
  case (callback_panics n t ss r sm2 st ps)
  then show ?case
    using finish_state [OF callback_panics.hyps] valid_primary [of t ss] by (simp add: lc_inv_def)
next
  case (applied t cur ps n pc)
  then show ?case
    by (cases pc) (auto simp: lc_inv_def change_state_apply_busy change_state_apply_primary)
next
  case (reread n t st ps)
  then show ?case
    by (auto simp: lc_inv_def after_verdict_def)
qed (auto simp: lc_inv_def dest: begin_Some begin_None finish_error_state split: lc_pc.splits)

abbreviation lc_reachable :: "lc_sys \<Rightarrow> bool" where
  "lc_reachable s \<equiv> lc_step\<^sup>*\<^sup>* sys_init s"

lemma lc_reachable_inv: "lc_reachable s \<Longrightarrow> lc_inv s"
proof (induction rule: rtranclp_induct)
  case base
  then show ?case by (simp add: lc_inv_def sys_init_def ln_new_def sm_new_def is_primary_state_def)
next
  case (step y z)
  then show ?case by (blast intro: lc_step_inv)
qed

section \<open>Properties\<close>

text \<open>
  C12: no interleaving of a local transition, its panics, and remote \<open>change_state\<close>
  requests strands the machine. In every reachable state, when no transition runs the
  machine is in a primary state; while a callback runs it is in that transition's
  intermediate state; while \<open>on_error\<close> runs it is in \<open>ErrorProcessing\<close>, so the debug
  assertion of \<open>finish_error_processing\<close> holds. \<open>Unknown\<close> is never reached.
\<close>

theorem lifecycle_never_stranded:
  assumes "lc_reachable s"
  shows "ln_state (sys_node s) \<noteq> Unknown \<and>
         (sys_pc s = Idle \<longrightarrow> is_primary_state (ln_state (sys_node s))) \<and>
         (\<forall>t st ss. sys_pc s = InCallback t st ss \<longrightarrow>
            ln_state (sys_node s) = intermediate_state t \<and> transition_valid t ss) \<and>
         (\<forall>t st. sys_pc s = InError t st \<longrightarrow> ln_state (sys_node s) = ErrorProcessing)"
proof -
  have "intermediate_state t \<noteq> Unknown" for t by (cases t) (simp_all add: intermediate_state_def)
  then show ?thesis
    using lc_reachable_inv [OF assms] by (auto simp: lc_inv_def is_primary_state_def split: lc_pc.splits)
qed

definition configuring_sys :: lc_sys where
  "configuring_sys = \<lparr>sys_node = ln_new\<lparr>ln_machine := \<lparr>sm_current = Configuring\<rparr>\<rparr>,
     sys_pc = InCallback Configure Unconfigured Unconfigured, sys_pending = []\<rparr>"

lemma configuring_reachable: "lc_reachable configuring_sys"
proof -
  have "lc_step sys_init \<lparr>sys_node = ln_new, sys_pc = Started Configure Unconfigured, sys_pending = []\<rparr>"
    using lc_step.start [of ln_new "[]" Configure] by (simp add: sys_init_def ln_new_def sm_new_def)
  moreover have "sm_begin (ln_machine ln_new) Configure = (Some Unconfigured, \<lparr>sm_current = Configuring\<rparr>)"
    by (simp add: sm_begin_def ln_new_def sm_new_def transition_valid_def intermediate_state_def)
  then have "lc_step \<lparr>sys_node = ln_new, sys_pc = Started Configure Unconfigured, sys_pending = []\<rparr> configuring_sys"
    unfolding configuring_sys_def by (rule lc_step.begin_ok)
  ultimately show ?thesis by (blast intro: rtranclp.rtrancl_into_rtrancl)
qed

lemma lifecycle_never_stranded_witness:
  "sys_pc configuring_sys = InCallback Configure Unconfigured Unconfigured \<and>
   ln_state (sys_node configuring_sys) = intermediate_state Configure"
  using lifecycle_never_stranded [OF configuring_reachable] by (simp add: configuring_sys_def)

text \<open>The steps of one undisturbed \<open>trigger_transition\<close>, by the way it ends.\<close>

lemma steps_started:
  "lc_step\<^sup>*\<^sup>* \<lparr>sys_node = n, sys_pc = Started t (ln_state n), sys_pending = ps\<rparr> s \<Longrightarrow>
   lc_step\<^sup>*\<^sup>* \<lparr>sys_node = n, sys_pc = Idle, sys_pending = ps\<rparr> s"
  using lc_step.start by (rule converse_rtranclp_into_rtranclp)

lemma steps_settle:
  "f = r \<Longrightarrow> lc_step\<^sup>*\<^sup>* \<lparr>sys_node = n, sys_pc = Settling t st f, sys_pending = ps\<rparr>
     \<lparr>sys_node = settle n t st r, sys_pc = Idle, sys_pending = ps\<rparr>"
  using lc_step.settle by blast

lemma steps_after_callback:
  assumes "after_callback c n t st r = (out, n')"
  shows "lc_step\<^sup>*\<^sup>* \<lparr>sys_node = n, sys_pc = after_verdict t st r, sys_pending = ps\<rparr>
           \<lparr>sys_node = n', sys_pc = Idle, sys_pending = ps\<rparr>"
proof (cases "r = ErrorProcessing")
  case False
  with assms show ?thesis by (auto simp: after_callback_def after_verdict_def intro: steps_settle)
next
  case True
  show ?thesis
  proof (cases "on_error c ErrorProcessing")
    case Panicked
    with assms True lc_step.on_error_panics [OF surjective_pairing, of n t st ps] show ?thesis
      by (auto simp: after_callback_def after_verdict_def)
  next
    case (Returned ret)
    obtain f sm3 where f: "finish_error_processing (ln_machine n) ret = (f, sm3)" by force
    with assms True Returned lc_step.on_error_returns [OF f, of t st ps] show ?thesis
      by (auto simp: after_callback_def after_verdict_def intro: converse_rtranclp_into_rtranclp [OF _ steps_settle])
  qed
qed

text \<open>
  The node's \<open>trigger_transition\<close> is a run of the interleaved system in which nothing
  intervenes: started with no transition running it leads, whatever the callbacks return
  and whether or not they panic, to the node it computes, with no transition running.
\<close>

theorem trigger_transition_refines_steps:
  assumes "trigger_transition c n t = (out, n')"
  shows "lc_step\<^sup>*\<^sup>* \<lparr>sys_node = n, sys_pc = Idle, sys_pending = ps\<rparr> \<lparr>sys_node = n', sys_pc = Idle, sys_pending = ps\<rparr>"
proof (rule steps_started, cases rule: begin_cases [of t "ln_machine n"])
  case 2
  from 2(2) assms have "after_callback c n t (ln_state n) (ln_state n) = (out, n')"
    by (simp add: trigger_transition_def)
  then have "lc_step\<^sup>*\<^sup>* \<lparr>sys_node = n, sys_pc = after_verdict t (ln_state n) (ln_state n), sys_pending = ps\<rparr>
      \<lparr>sys_node = n', sys_pc = Idle, sys_pending = ps\<rparr>" by (rule steps_after_callback)
  with lc_step.reread have "lc_step\<^sup>*\<^sup>* \<lparr>sys_node = n, sys_pc = Rejected t (ln_state n), sys_pending = ps\<rparr>
      \<lparr>sys_node = n', sys_pc = Idle, sys_pending = ps\<rparr>" by (rule converse_rtranclp_into_rtranclp)
  moreover have "lc_step \<lparr>sys_node = n, sys_pc = Started t (ln_state n), sys_pending = ps\<rparr>
      \<lparr>sys_node = n, sys_pc = Rejected t (ln_state n), sys_pending = ps\<rparr>"
    using lc_step.begin_refused [OF 2(2), of "ln_state n" ps] by simp
  ultimately show "lc_step\<^sup>*\<^sup>* \<lparr>sys_node = n, sys_pc = Started t (ln_state n), sys_pending = ps\<rparr>
      \<lparr>sys_node = n', sys_pc = Idle, sys_pending = ps\<rparr>"
    by (rule converse_rtranclp_into_rtranclp [rotated])
next
  case 1
  let ?sm1 = "(ln_machine n)\<lparr>sm_current := intermediate_state t\<rparr>" and ?ss = "ln_state n"
  let ?n1 = "n\<lparr>ln_machine := ?sm1\<rparr>"
  have "lc_step\<^sup>*\<^sup>* \<lparr>sys_node = ?n1, sys_pc = InCallback t ?ss ?ss, sys_pending = ps\<rparr>
      \<lparr>sys_node = n', sys_pc = Idle, sys_pending = ps\<rparr>"
  proof (cases "callback_for c t ?ss")
    case Panicked
    with 1(2) assms lc_step.callback_panics [OF surjective_pairing, of ?n1 t ?ss ?ss ps] show ?thesis
      by (auto simp: trigger_transition_def)
  next
    case (Returned ret)
    obtain r sm2 where f: "sm_finish (ln_machine ?n1) t ?ss ret = (r, sm2)" by force
    with Returned 1(2) assms have "after_callback c (?n1\<lparr>ln_machine := sm2\<rparr>) t ?ss r = (out, n')"
      by (simp add: trigger_transition_def)
    from lc_step.callback_returns [OF f] steps_after_callback [OF this] show ?thesis
      by (rule converse_rtranclp_into_rtranclp)
  qed
  with lc_step.begin_ok [OF 1(2)] show "lc_step\<^sup>*\<^sup>* \<lparr>sys_node = n, sys_pc = Started t (ln_state n), sys_pending = ps\<rparr>
      \<lparr>sys_node = n', sys_pc = Idle, sys_pending = ps\<rparr>"
    by (rule converse_rtranclp_into_rtranclp)
qed

definition all_succeed :: lc_callbacks where
  "all_succeed = (let ok = (\<lambda>_. Returned CbSuccess) in
     \<lparr>on_configure = ok, on_activate = ok, on_deactivate = ok, on_cleanup = ok, on_shutdown = ok,
      on_error = (\<lambda>_. Returned CbFailure)\<rparr>)"

lemma trigger_transition_refines_steps_witness:
  "ln_state (snd (trigger_transition all_succeed ln_new Configure)) = Inactive \<and>
   lc_step\<^sup>*\<^sup>* \<lparr>sys_node = ln_new, sys_pc = Idle, sys_pending = []\<rparr>
     \<lparr>sys_node = snd (trigger_transition all_succeed ln_new Configure), sys_pc = Idle, sys_pending = []\<rparr>"
proof
  show "ln_state (snd (trigger_transition all_succeed ln_new Configure)) = Inactive"
    by (simp add: trigger_transition_def after_callback_def ln_new_def sm_new_def sm_begin_def sm_finish_def
        transition_valid_def callback_for_def all_succeed_def goal_state_def Let_def)
  show "lc_step\<^sup>*\<^sup>* \<lparr>sys_node = ln_new, sys_pc = Idle, sys_pending = []\<rparr>
     \<lparr>sys_node = snd (trigger_transition all_succeed ln_new Configure), sys_pc = Idle, sys_pending = []\<rparr>"
    by (rule trigger_transition_refines_steps [OF surjective_pairing])
qed

section \<open>Managed publishers\<close>

definition activation_consistent :: "lc_node \<Rightarrow> bool" where
  "activation_consistent n \<longleftrightarrow> list_all (\<lambda>p. lp_activated p \<longleftrightarrow> ln_state n = Active) (ln_entities n)"

lemma notify_consistent:
  "list_all (\<lambda>p. lp_activated p \<longleftrightarrow> start = Active) es \<Longrightarrow>
   list_all (\<lambda>p. lp_activated p \<longleftrightarrow> f = Active) (notify_entities start f es)"
  by (auto simp: notify_entities_def list_all_iff lp_on_activate_def lp_on_deactivate_def)

lemma settle_consistent:
  assumes "list_all (\<lambda>p. lp_activated p \<longleftrightarrow> start = Active) (ln_entities n)" and "ln_state n = f"
  shows "activation_consistent (settle n t start f)"
  using notify_consistent [OF assms(1), of f] assms(2) by (simp add: activation_consistent_def settle_def)

lemma after_callback_consistent:
  assumes "after_callback c n t start r = (out, n')" and "ln_state n = r"
    and "list_all (\<lambda>p. lp_activated p \<longleftrightarrow> start = Active) (ln_entities n)" and "on_error c ErrorProcessing \<noteq> Panicked"
  shows "activation_consistent n' \<and> out = Ok (ln_state n')"
proof (cases "r = ErrorProcessing")
  case False
  with assms settle_consistent show ?thesis by (auto simp: after_callback_def)
next
  case True
  then obtain ret where ret: "on_error c ErrorProcessing = Returned ret"
    using assms(4) by (cases "on_error c ErrorProcessing") auto
  obtain f sm3 where f: "finish_error_processing (ln_machine n) ret = (f, sm3)" by force
  with finish_error_state [OF f] assms(1,3) True ret show ?thesis
    using settle_consistent [of start "n\<lparr>ln_machine := sm3\<rparr>" f t] by (auto simp: after_callback_def)
qed

text \<open>
  The exception: \<open>on_error\<close> panicked in a transition of an active node. The machine has been
  finalized, the panic goes on, and the publishers have not been told.
\<close>

definition error_panic :: "lc_callbacks \<Rightarrow> lc_node \<Rightarrow> (lc_state, unit) res \<times> lc_node \<Rightarrow> bool" where
  "error_panic c n out \<longleftrightarrow> on_error c ErrorProcessing = Panicked \<and> fst out = Panic \<and> ln_state n = Active \<and>
     ln_state (snd out) = Finalized \<and> ln_entities (snd out) = ln_entities n"

lemma after_callback_follows:
  assumes "activation_consistent n" and "ln_state m = r" and "ln_entities m = ln_entities n"
  shows "activation_consistent (snd (after_callback c m t (ln_state n) r)) \<or>
    error_panic c n (after_callback c m t (ln_state n) r)"
proof (cases "on_error c ErrorProcessing = Panicked \<and> r = ErrorProcessing")
  case False
  have es: "list_all (\<lambda>p. lp_activated p \<longleftrightarrow> ln_state n = Active) (ln_entities m)"
    using assms(1,3) by (simp add: activation_consistent_def)
  show ?thesis
  proof (cases "r = ErrorProcessing")
    case True
    with False have "on_error c ErrorProcessing \<noteq> Panicked" by blast
    with after_callback_consistent [OF surjective_pairing assms(2) es, of c t] show ?thesis by blast
  next
    case False
    then show ?thesis using settle_consistent [OF es assms(2), of t] by (simp add: after_callback_def)
  qed
next
  case True
  let ?f = "finish_error_processing (ln_machine m) CbError"
  have "sm_current (snd ?f) = Finalized" by (simp add: finish_error_processing_def Let_def)
  with True assms show ?thesis
    by (cases "ln_state n = Active") (simp_all add: after_callback_def error_panic_def activation_consistent_def)
qed



text \<open>The exception occurs: deactivating with an \<open>on_deactivate\<close> that fails and an \<open>on_error\<close> that panics.\<close>

lemma error_panic_occurs:
  assumes "ln_state n = Active" and "callback_for c Deactivate Active = Returned CbError"
    and "on_error c ErrorProcessing = Panicked"
  shows "error_panic c n (trigger_transition c n Deactivate)"
  using assms
  by (simp add: error_panic_def trigger_transition_def after_callback_def sm_begin_def transition_valid_def sm_finish_def
      finish_error_processing_def Let_def)

text \<open>
  A transition requested over the \<open>change_state\<close> service does not reach the
  publishers. Whatever the request, the managed publishers stay as they are; so a remote
  activation of an inactive node is answered with success and leaves every publisher
  dropping its messages, and a remote deactivation leaves every publisher sending.
\<close>

theorem remote_change_bypasses_publishers:
  "ln_entities (snd (change_state n tid label)) = ln_entities n \<and>
   (activation_consistent n \<and> ln_state n = Inactive \<longrightarrow>
      (\<exists>n'. change_state n 3 [] = (True, n') \<and> ln_state n' = Active \<and>
            (\<forall>p \<in> set (ln_entities n'). fst (lp_publish p msg) \<noteq> Forwarded msg))) \<and>
   (activation_consistent n \<and> ln_state n = Active \<longrightarrow>
      (\<exists>n'. change_state n 4 [] = (True, n') \<and> ln_state n' = Inactive \<and>
            (\<forall>p \<in> set (ln_entities n'). fst (lp_publish p msg) = Forwarded msg)))"
proof -
  have keep: "ln_entities (change_state_apply n t s) = ln_entities n" for t s
    by (simp add: change_state_apply_def case_prod_unfold Let_def)
  have act: "change_state n 3 [] = (True, change_state_apply n Activate Inactive)" if "ln_state n = Inactive"
    using that by (simp add: change_state_def resolve_request_def from_id_and_state_def Let_def)
  have deact: "change_state n 4 [] = (True, change_state_apply n Deactivate Active)" if "ln_state n = Active"
    using that by (simp add: change_state_def resolve_request_def from_id_and_state_def Let_def)
  have "ln_entities (snd (change_state n tid label)) = ln_entities n"
    by (simp add: change_state_def keep Let_def split: option.split)
  with act deact show ?thesis
    by (auto simp: keep change_state_apply_state transition_valid_def goal_state_def activation_consistent_def
        list_all_iff lp_publish_def)
qed

definition inactive_node :: lc_node where
  "inactive_node = \<lparr>ln_machine = \<lparr>sm_current = Inactive\<rparr>, ln_entities = [lp_new], ln_events = []\<rparr>"

lemma remote_change_bypasses_publishers_witness:
  "\<exists>n'. change_state inactive_node 3 [] = (True, n') \<and> ln_state n' = Active \<and>
     (\<forall>p \<in> set (ln_entities n'). fst (lp_publish p ''hello'') \<noteq> Forwarded ''hello'')"
  using remote_change_bypasses_publishers [of inactive_node 3 "[]" "''hello''"]
  by (simp add: inactive_node_def activation_consistent_def lp_new_def)

end
