(* ===== verification/Topic_Name.thy ===== *)
theory Topic_Name
  imports Hiroz_Prelude
begin

text \<open>
  \<open>crates/hiroz/src/topic_name.rs\<close>: validation of names and their expansion to fully
  qualified topic and service names. Names are byte strings; the source checks bytes too.
\<close>

datatype topic_name_error =
    TnEmpty
  | TnEndsWithSlash
  | TnInvalidCharacters string
  | TnInvalidNamespace string
  | TnInvalidNodeName string

section \<open>Validation\<close>

definition is_ascii_alphabetic :: "char \<Rightarrow> bool" where
  "is_ascii_alphabetic c = (let n = of_char c :: nat in (65 \<le> n \<and> n \<le> 90) \<or> (97 \<le> n \<and> n \<le> 122))"

definition is_ascii_alphanumeric :: "char \<Rightarrow> bool" where
  "is_ascii_alphanumeric c \<longleftrightarrow> is_ascii_alphabetic c \<or> is_digit c"

definition is_valid_topic_component :: "string \<Rightarrow> bool" where
  "is_valid_topic_component component =
     (case component of
        [] \<Rightarrow> False
      | b # bs \<Rightarrow>
          if \<not> is_ascii_alphabetic b \<and> b \<noteq> CHR ''_'' then False
          else list_all (\<lambda>b. is_ascii_alphanumeric b \<or> b = CHR ''_'') bs)"

fun check_components :: "(string \<Rightarrow> topic_name_error option) \<Rightarrow> string list \<Rightarrow> (unit, topic_name_error) res" where
  "check_components err [] = Ok ()"
| "check_components err (part # parts) =
     (case err part of Some e \<Rightarrow> Err e | None \<Rightarrow> check_components err parts)"

text \<open>\<open>quoted s\<close> is \<open>'s'\<close> in an error text.\<close>

definition quoted :: "string \<Rightarrow> string" where
  "quoted s = [CHR 0x27] @ s @ [CHR 0x27]"

definition validate_topic_components :: "string \<Rightarrow> string \<Rightarrow> (unit, topic_name_error) res" where
  "validate_topic_components path ctxt =
     check_components
       (\<lambda>part. if part = []
               then Some (TnInvalidCharacters (''empty component in '' @ ctxt @ '': '' @ quoted ''//'' @
                      '' and a trailing '' @ quoted ''/'' @ '' are not valid ROS 2 names''))
               else if \<not> is_valid_topic_component part
               then Some (TnInvalidCharacters (''invalid component '' @ quoted part @ '' in '' @ ctxt))
               else None)
       (split_on CHR ''/'' path)"

definition validate_namespace :: "string \<Rightarrow> (unit, topic_name_error) res" where
  "validate_namespace namespace =
     (if namespace = [] \<or> namespace = ''/'' then Ok ()
      else if last namespace = CHR ''/''
      then Err (TnInvalidNamespace (''namespace cannot end with '' @ quoted ''/''))
      else check_components
             (\<lambda>part. if part = []
                     then Some (TnInvalidNamespace (''empty component: '' @ quoted ''//'' @ '' is not a valid namespace''))
                     else if \<not> is_valid_topic_component part
                     then Some (TnInvalidNamespace (''invalid component '' @ quoted part))
                     else None)
             (split_on CHR ''/'' (unwrap_or (strip_prefix_char CHR ''/'' namespace) namespace)))"

definition validate_node_name :: "string \<Rightarrow> (unit, topic_name_error) res" where
  "validate_node_name node_name =
     (if node_name = [] then Err (TnInvalidNodeName ''node name is empty'')
      else if \<not> is_valid_topic_component node_name
      then Err (TnInvalidNodeName (''invalid node name '' @ quoted node_name))
      else Ok ())"

section \<open>Qualification\<close>

definition normalize_namespace :: "string \<Rightarrow> string" where
  "normalize_namespace namespace =
     (if namespace = [] then [] else if hd namespace = CHR ''/'' then namespace else CHR ''/'' # namespace)"

definition qualify_absolute :: "string \<Rightarrow> (string, topic_name_error) res" where
  "qualify_absolute topic0 =
     (let topic = unwrap_or (strip_suffix_char CHR ''/'' topic0) topic0
      in if topic = [] \<or> topic = ''/''
         then Err (TnInvalidCharacters (''topic cannot be just '' @ quoted ''/''))
         else res_bind (validate_topic_components (unwrap_or (strip_prefix_char CHR ''/'' topic) topic) ''absolute topic'')
                (\<lambda>_. Ok topic))"

definition qualify_private :: "string \<Rightarrow> string \<Rightarrow> string \<Rightarrow> (string, topic_name_error) res" where
  "qualify_private topic namespace node_name =
     (case strip_prefix_char CHR ''~'' topic of
        None \<Rightarrow> Panic
      | Some suffix0 \<Rightarrow>
          let suffix1 = unwrap_or (strip_prefix_char CHR ''/'' suffix0) suffix0;
              had_suffix = (suffix1 \<noteq> []);
              suffix = unwrap_or (strip_suffix_char CHR ''/'' suffix1) suffix1
          in if had_suffix \<and> suffix = []
             then Err (TnInvalidCharacters (''empty component in private topic: '' @ quoted ''~//'' @ '' is not a valid ROS 2 name''))
             else res_bind (if suffix \<noteq> [] then validate_topic_components suffix ''private topic'' else Ok ())
               (\<lambda>_. Ok (if namespace = [] \<or> namespace = ''/''
                        then (if suffix = [] then ''/'' @ node_name else ''/'' @ node_name @ ''/'' @ suffix)
                        else if suffix = [] then namespace @ ''/'' @ node_name
                        else namespace @ ''/'' @ node_name @ ''/'' @ suffix)))"

definition qualify_relative :: "string \<Rightarrow> string \<Rightarrow> (string, topic_name_error) res" where
  "qualify_relative topic0 namespace =
     (let topic = unwrap_or (strip_suffix_char CHR ''/'' topic0) topic0
      in res_bind (validate_topic_components topic ''topic'')
           (\<lambda>_. Ok (if namespace = [] \<or> namespace = ''/'' then ''/'' @ topic else namespace @ ''/'' @ topic)))"

definition qualify_topic_name :: "string \<Rightarrow> string \<Rightarrow> string \<Rightarrow> (string, topic_name_error) res" where
  "qualify_topic_name topic namespace node_name =
     (if topic = [] then Err TnEmpty
      else res_bind (validate_namespace namespace)
        (\<lambda>_. res_bind (validate_node_name node_name)
          (\<lambda>_. let ns = normalize_namespace namespace
               in if hd topic = CHR ''/'' then qualify_absolute topic
                  else if hd topic = CHR ''~'' then qualify_private topic ns node_name
                  else qualify_relative topic ns)))"

definition qualify_service_name :: "string \<Rightarrow> string \<Rightarrow> string \<Rightarrow> (string, topic_name_error) res" where
  "qualify_service_name service namespace node_name = qualify_topic_name service namespace node_name"

section \<open>Paths of valid components\<close>

definition valid_path :: "string \<Rightarrow> bool" where
  "valid_path s \<longleftrightarrow> list_all is_valid_topic_component (split_on CHR ''/'' s)"

definition fully_qualified :: "string \<Rightarrow> bool" where
  "fully_qualified s = (case s of c # body \<Rightarrow> c = CHR ''/'' \<and> valid_path body | [] \<Rightarrow> False)"

lemma invalid_Nil [simp]: "\<not> is_valid_topic_component []"
  by (simp add: is_valid_topic_component_def)

lemma check_components_ok_iff: "check_components err parts = Ok () \<longleftrightarrow> (\<forall>p \<in> set parts. err p = None)"
  by (induction parts) (auto split: option.split)

lemma validate_topic_components_ok_iff: "validate_topic_components path ctxt = Ok () \<longleftrightarrow> valid_path path"
  by (auto simp: validate_topic_components_def check_components_ok_iff valid_path_def list_all_iff)

lemma valid_component_no_slash: "is_valid_topic_component s \<Longrightarrow> CHR ''/'' \<notin> set s"
  by (auto simp: is_valid_topic_component_def is_ascii_alphanumeric_def is_ascii_alphabetic_def list_all_iff
      split: list.splits if_splits)

lemma valid_component_path: "is_valid_topic_component s \<Longrightarrow> valid_path s"
  by (simp add: valid_path_def split_on_sep_free valid_component_no_slash)

lemma valid_component_head: "is_valid_topic_component s \<Longrightarrow> hd s \<noteq> CHR ''/'' \<and> hd s \<noteq> CHR ''~''"
  by (auto simp: is_valid_topic_component_def is_ascii_alphabetic_def split: list.splits if_splits)

lemma valid_path_append: "valid_path (a @ CHR ''/'' # b) \<longleftrightarrow> valid_path a \<and> valid_path b"
  by (simp add: valid_path_def split_on_append)

lemma valid_path_nonempty: "valid_path s \<Longrightarrow> s \<noteq> []"
  by (auto simp: valid_path_def)

lemma valid_path_last: "valid_path s \<Longrightarrow> last s \<noteq> CHR ''/''"
proof
  assume s: "valid_path s" and l: "last s = CHR ''/''"
  then have "s = butlast s @ CHR ''/'' # []"
    using valid_path_nonempty [OF s] by (metis append_butlast_last_id)
  with s have "valid_path []" by (metis valid_path_append)
  then show False using valid_path_nonempty by blast
qed

lemma valid_path_head:
  assumes "valid_path s"
  shows "hd s \<noteq> CHR ''/'' \<and> hd s \<noteq> CHR ''~''"
proof -
  obtain p ps where s: "split_on CHR ''/'' s = p # ps" by (metis split_on_nonempty list.exhaust)
  then have "is_valid_topic_component p" using assms by (simp add: valid_path_def)
  moreover have "hd s = hd p"
    using join_split_on [of "CHR ''/''" s] s \<open>is_valid_topic_component p\<close>
    by (cases ps; cases p) auto
  ultimately show ?thesis using valid_component_head by simp
qed

lemma valid_path_no_suffix: "valid_path s \<Longrightarrow> strip_suffix_char CHR ''/'' s = None"
  by (simp add: strip_suffix_char_def valid_path_last)

lemma validate_namespace_ok_iff:
  "validate_namespace ns = Ok () \<longleftrightarrow>
     ns = [] \<or> ns = ''/'' \<or> (\<exists>body. valid_path body \<and> (ns = body \<or> ns = CHR ''/'' # body))"
proof (cases "ns = [] \<or> ns = ''/''")
  case True
  then show ?thesis by (auto simp: validate_namespace_def)
next
  case False
  let ?body = "unwrap_or (strip_prefix_char CHR ''/'' ns) ns"
  have "validate_namespace ns = Ok () \<longleftrightarrow> last ns \<noteq> CHR ''/'' \<and> valid_path ?body"
    using False by (auto simp: validate_namespace_def check_components_ok_iff valid_path_def list_all_iff)
  moreover have "ns = ?body \<or> ns = CHR ''/'' # ?body"
    by (auto simp: strip_prefix_char_def split: list.split)
  moreover have "?body = b" if "valid_path b" "ns = b \<or> ns = CHR ''/'' # b" for b
    using that valid_path_head [of b] by (cases b) (auto simp: strip_prefix_char_def)
  moreover have "last ns \<noteq> CHR ''/''" if "valid_path b" "ns = b \<or> ns = CHR ''/'' # b" for b
    using that valid_path_last [of b] valid_path_nonempty [of b] by auto
  ultimately show ?thesis using False by metis
qed

lemma normalized_namespace:
  assumes "validate_namespace ns = Ok ()"
  shows "normalize_namespace ns = [] \<or> normalize_namespace ns = ''/'' \<or>
         (\<exists>body. valid_path body \<and> normalize_namespace ns = CHR ''/'' # body)"
proof -
  have "normalize_namespace b = CHR ''/'' # b" if "valid_path b" for b
    using valid_path_head [OF that] valid_path_nonempty [OF that] by (simp add: normalize_namespace_def)
  then show ?thesis
    using assms valid_path_head by (fastforce simp: validate_namespace_ok_iff normalize_namespace_def)
qed

lemma validate_node_name_ok_iff: "validate_node_name n = Ok () \<longleftrightarrow> is_valid_topic_component n"
  by (auto simp: validate_node_name_def)


section \<open>Accepted names\<close>

lemma strip_suffix_cases:
  obtains "unwrap_or (strip_suffix_char c s) s = s" and "s = [] \<or> last s \<noteq> c"
  | t where "unwrap_or (strip_suffix_char c s) s = t" and "s = t @ [c]"
proof (cases "s \<noteq> [] \<and> last s = c")
  case True
  then show thesis using that(2) by (metis append_butlast_last_id strip_suffix_char_def unwrap_or_simps(1))
next
  case False
  then have "strip_suffix_char c s = None" by (auto simp: strip_suffix_char_def)
  with False show thesis using that(1) by auto
qed

lemma strip_suffix_char_Nil [simp]: "strip_suffix_char c [] = None"
  by (simp add: strip_suffix_char_def)

lemma strip_prefix_cases:
  obtains "unwrap_or (strip_prefix_char c s) s = s" and "s = [] \<or> hd s \<noteq> c"
  | t where "unwrap_or (strip_prefix_char c s) s = t" and "s = c # t"
  by (cases s) (auto simp: strip_prefix_char_def)

definition ns_prefix :: "string \<Rightarrow> string" where
  "ns_prefix ns = (let n = normalize_namespace ns in if n = ''/'' then [] else n)"

lemma ns_prefix_cases:
  assumes "validate_namespace ns = Ok ()"
  obtains "ns_prefix ns = []" | body where "ns_prefix ns = CHR ''/'' # body" and "valid_path body"
proof -
  consider "ns_prefix ns = []" | body where "valid_path body" and "normalize_namespace ns = CHR ''/'' # body"
    using normalized_namespace [OF assms] by (auto simp: ns_prefix_def)
  then show thesis
  proof cases
    case (2 body)
    then have "ns_prefix ns = CHR ''/'' # body"
      using valid_path_nonempty [of body] by (simp add: ns_prefix_def)
    with 2 that(2) show ?thesis by blast
  qed (rule that(1))
qed

lemma ns_prefix_append:
  "(if normalize_namespace ns = [] \<or> normalize_namespace ns = ''/'' then a else normalize_namespace ns @ a) = ns_prefix ns @ a"
  by (simp add: ns_prefix_def)

lemma fully_qualified_prefix:
  assumes "validate_namespace ns = Ok ()" and "valid_path p"
  shows "fully_qualified (ns_prefix ns @ CHR ''/'' # p)"
  using ns_prefix_cases [OF assms(1)] assms(2) by (cases) (simp_all add: fully_qualified_def valid_path_append)

lemma absolute_ok:
  assumes "valid_path p"
  shows "qualify_absolute (CHR ''/'' # p) = Ok (CHR ''/'' # p)" and "qualify_absolute (CHR ''/'' # p @ ''/'') = Ok (CHR ''/'' # p)"
  using assms valid_path_last [OF assms] valid_path_nonempty [OF assms]
  by (simp_all add: qualify_absolute_def strip_suffix_char_def strip_prefix_char_def
      validate_topic_components_ok_iff butlast_append Let_def)

lemma absolute_inv:
  assumes "qualify_absolute t = Ok q" and "t \<noteq> []" and "hd t = CHR ''/''"
  obtains p where "valid_path p" and "t = CHR ''/'' # p \<or> t = CHR ''/'' # p @ ''/''" and "q = CHR ''/'' # p"
proof -
  let ?s = "unwrap_or (strip_suffix_char CHR ''/'' t) t"
  have q: "q = ?s" and s: "?s \<noteq> []" and v: "valid_path (unwrap_or (strip_prefix_char CHR ''/'' ?s) ?s)"
    using assms(1) by (auto simp: qualify_absolute_def validate_topic_components_ok_iff Let_def split: if_splits)
  from s assms(3) have "hd ?s = CHR ''/''"
    by (cases rule: strip_suffix_cases [of "CHR ''/''" t]) auto
  with s v obtain p where p: "?s = CHR ''/'' # p" "valid_path p"
    by (cases ?s) (auto simp: strip_prefix_char_def)
  moreover have "t = ?s \<or> t = ?s @ ''/''"
    by (cases rule: strip_suffix_cases [of "CHR ''/''" t]) auto
  ultimately show thesis using that q by auto
qed

lemma relative_ok:
  assumes "valid_path p"
  shows "qualify_relative p (normalize_namespace ns) = Ok (ns_prefix ns @ CHR ''/'' # p)"
    and "qualify_relative (p @ ''/'') (normalize_namespace ns) = Ok (ns_prefix ns @ CHR ''/'' # p)"
  using assms by (simp_all add: qualify_relative_def valid_path_no_suffix strip_suffix_char_def [of _ "p @ ''/''"]
      butlast_append validate_topic_components_ok_iff Let_def ns_prefix_def)

lemma relative_inv:
  assumes "qualify_relative t (normalize_namespace ns) = Ok q"
  obtains p where "valid_path p" and "t = p \<or> t = p @ ''/''" and "q = ns_prefix ns @ CHR ''/'' # p"
proof -
  let ?s = "unwrap_or (strip_suffix_char CHR ''/'' t) t"
  have "valid_path ?s" "q = ns_prefix ns @ CHR ''/'' # ?s"
    using assms by (auto simp: qualify_relative_def validate_topic_components_ok_iff Let_def ns_prefix_def split: if_splits)
  moreover have "t = ?s \<or> t = ?s @ ''/''"
    by (cases rule: strip_suffix_cases [of "CHR ''/''" t]) auto
  ultimately show thesis using that by blast
qed

text \<open>\<open>tilde_suffix s\<close>: what may follow the \<open>~\<close>, with the path it stands for.\<close>

definition tilde_suffix :: "string \<Rightarrow> string \<Rightarrow> bool" where
  "tilde_suffix s p \<longleftrightarrow> p = [] \<and> (s = [] \<or> s = ''/'') \<or>
     valid_path p \<and> (s = p \<or> s = CHR ''/'' # p \<or> s = p @ ''/'' \<or> s = CHR ''/'' # p @ ''/'')"

definition tilde_path :: "string \<Rightarrow> string \<Rightarrow> string" where
  "tilde_path node p = (if p = [] then node else node @ CHR ''/'' # p)"

lemma private_ok:
  assumes "tilde_suffix s p"
  shows "qualify_private (CHR ''~'' # s) (normalize_namespace ns) node =
         Ok (ns_prefix ns @ CHR ''/'' # tilde_path node p)"
proof -
  let ?r = "unwrap_or (strip_prefix_char CHR ''/'' s) s"
  have r: "?r = p \<or> valid_path p \<and> ?r = p @ ''/''"
    using assms valid_path_head [of p] valid_path_nonempty [of p]
    by (cases p) (auto simp: tilde_suffix_def strip_prefix_char_def)
  have p: "p = [] \<or> valid_path p" using assms by (auto simp: tilde_suffix_def)
  then have "strip_suffix_char CHR ''/'' p = None" 
    by (auto simp: strip_suffix_char_def dest: valid_path_last)
  with r have "unwrap_or (strip_suffix_char CHR ''/'' ?r) ?r = p" and "?r \<noteq> [] \<Longrightarrow> p \<noteq> []"
    using valid_path_nonempty [of p] by (auto simp: strip_suffix_char_def [of _ "p @ ''/''"] butlast_append)
  then show ?thesis
    using p by (cases "p = []") (auto simp: qualify_private_def strip_prefix_char_def [of "CHR ''~''" "CHR ''~'' # s"]
        Let_def validate_topic_components_ok_iff ns_prefix_def tilde_path_def)
qed

lemma private_inv:
  assumes "qualify_private (CHR ''~'' # s) (normalize_namespace ns) node = Ok q"
  obtains p where "tilde_suffix s p" and "q = ns_prefix ns @ CHR ''/'' # tilde_path node p"
proof -
  let ?r = "unwrap_or (strip_prefix_char CHR ''/'' s) s"
  let ?p = "unwrap_or (strip_suffix_char CHR ''/'' ?r) ?r"
  have p: "?p = [] \<and> ?r = [] \<or> valid_path ?p"
    using assms by (auto simp: qualify_private_def strip_prefix_char_def [of "CHR ''~''"] Let_def
        validate_topic_components_ok_iff split: if_splits)
  have "s = ?r \<or> s = CHR ''/'' # ?r"
    by (cases rule: strip_prefix_cases [of "CHR ''/''" s]) auto
  moreover have "?r = ?p \<or> ?r = ?p @ ''/''"
    by (cases rule: strip_suffix_cases [of "CHR ''/''" ?r]) auto
  ultimately have t: "tilde_suffix s ?p"
    using p unfolding tilde_suffix_def by (metis Cons_eq_appendI)
  with private_ok [OF t] assms show thesis using that by auto
qed


lemma qualify_ok:
  assumes "validate_namespace ns = Ok ()" and "is_valid_topic_component node"
  shows "valid_path p \<Longrightarrow> qualify_topic_name (CHR ''/'' # p) ns node = Ok (CHR ''/'' # p)"
    and "valid_path p \<Longrightarrow> qualify_topic_name p ns node = Ok (ns_prefix ns @ CHR ''/'' # p)"
    and "tilde_suffix s p \<Longrightarrow> qualify_topic_name (CHR ''~'' # s) ns node = Ok (ns_prefix ns @ CHR ''/'' # tilde_path node p)"
  using assms valid_path_head [of p] valid_path_nonempty [of p]
  by (simp_all add: qualify_topic_name_def validate_node_name_ok_iff Let_def absolute_ok relative_ok private_ok)

lemma qualify_inv:
  assumes "qualify_topic_name t ns node = Ok q"
  obtains (absolute) p where "valid_path p" and "t = CHR ''/'' # p \<or> t = CHR ''/'' # p @ ''/''" and "q = CHR ''/'' # p"
  | (tilde) s p where "t = CHR ''~'' # s" and "tilde_suffix s p" and "q = ns_prefix ns @ CHR ''/'' # tilde_path node p"
  | (relative) p where "valid_path p" and "t = p \<or> t = p @ ''/''" and "q = ns_prefix ns @ CHR ''/'' # p"
proof -
  from assms have t: "t \<noteq> []" by (auto simp: qualify_topic_name_def)
  consider "qualify_absolute t = Ok q" "hd t = CHR ''/''"
    | s where "qualify_private t (normalize_namespace ns) node = Ok q" "t = CHR ''~'' # s"
    | "qualify_relative t (normalize_namespace ns) = Ok q"
    using assms t by (cases t) (auto simp: qualify_topic_name_def Let_def split: if_splits)
  then show thesis
  proof cases
    case 1
    then show ?thesis using absolute_inv [of t q] t absolute by metis
  next
    case 2
    then show ?thesis using private_inv [of s ns node q] tilde by metis
  next
    case 3
    then show ?thesis using relative_inv [of t ns q] relative by metis
  qed
qed

lemma qualify_valid_inputs:
  assumes "qualify_topic_name t ns node = Ok q"
  shows "validate_namespace ns = Ok ()" and "is_valid_topic_component node"
  using assms by (auto simp: qualify_topic_name_def validate_node_name_ok_iff split: if_splits)

lemma tilde_path_valid:
  "is_valid_topic_component node \<Longrightarrow> tilde_suffix s p \<Longrightarrow> valid_path (tilde_path node p)"
  by (auto simp: tilde_path_def tilde_suffix_def valid_path_append valid_component_path)

lemma qualify_fully_qualified:
  assumes "qualify_topic_name t ns node = Ok q"
  shows "fully_qualified q"
  using assms
proof (cases rule: qualify_inv)
  case (tilde s p)
  then show ?thesis
    using fully_qualified_prefix tilde_path_valid qualify_valid_inputs [OF assms] by simp
next
  case (relative p)
  then show ?thesis using fully_qualified_prefix qualify_valid_inputs [OF assms] by simp
qed (simp add: fully_qualified_def)

section \<open>Properties\<close>

text \<open>
  The result of qualification is a fully qualified name, a slash followed by valid
  components separated by single slashes, and qualifying it again, from any valid
  namespace and node, returns it unchanged.
\<close>

theorem qualify_wellformed_idempotent:
  assumes "qualify_topic_name topic ns node = Ok q"
  shows "fully_qualified q \<and>
         (validate_namespace ns' = Ok () \<and> validate_node_name node' = Ok () \<longrightarrow> qualify_topic_name q ns' node' = Ok q)"
proof -
  have q: "fully_qualified q" by (rule qualify_fully_qualified [OF assms])
  then obtain p where "q = CHR ''/'' # p" "valid_path p"
    by (auto simp: fully_qualified_def split: list.splits)
  then show ?thesis
    using q qualify_ok(1) by (simp add: validate_node_name_ok_iff)
qed

lemma qualify_wellformed_idempotent_witness:
  "fully_qualified ''/ns/node/my_topic'' \<and> qualify_topic_name ''/ns/node/my_topic'' ''/'' ''n'' = Ok ''/ns/node/my_topic''"
proof -
  have q: "qualify_topic_name ''~my_topic'' ''/ns'' ''node'' = Ok ''/ns/node/my_topic''" by code_simp
  have "validate_namespace ''/'' = Ok ()" "validate_node_name ''n'' = Ok ()" by code_simp+
  with qualify_wellformed_idempotent [OF q, of "''/''" "''n''"] show ?thesis by simp
qed

text \<open>
  What each kind of name expands to. With a valid namespace and node name, a relative
  path is prefixed with the namespace, a private path with the namespace and the node name
  (\<open>~\<close> alone denoting the node), an absolute path is kept; and these are the only names
  accepted, up to one trailing slash: anything with an empty component is refused.
\<close>

theorem qualify_expansion:
  assumes "validate_namespace ns = Ok ()" and "validate_node_name node = Ok ()" and "valid_path p"
  shows "qualify_topic_name p ns node = Ok (ns_prefix ns @ ''/'' @ p) \<and>
         qualify_topic_name (''~/'' @ p) ns node = Ok (ns_prefix ns @ ''/'' @ node @ ''/'' @ p) \<and>
         qualify_topic_name ''~'' ns node = Ok (ns_prefix ns @ ''/'' @ node) \<and>
         qualify_topic_name (''/'' @ p) ns node = Ok (''/'' @ p) \<and>
         (\<forall>a b q. qualify_topic_name (a @ ''//'' @ b) ns node \<noteq> Ok q)"
proof -
  have bad: "\<not> valid_path (a @ CHR ''/'' # CHR ''/'' # b)" for a b
    using valid_path_append [of a "CHR ''/'' # b"] valid_path_head [of "CHR ''/'' # b"] by auto
  have bad': "\<not> valid_path u" if "u @ ''/'' = a @ CHR ''/'' # CHR ''/'' # b" for u a b
  proof (cases b rule: rev_cases)
    case Nil
    with that have "u = a @ [CHR ''/'']" by simp
    then show ?thesis using valid_path_last [of u] by auto
  next
    case (snoc b' x)
    with that have "u = a @ CHR ''/'' # CHR ''/'' # b'" by simp
    then show ?thesis using bad by simp
  qed
  have no_double: "qualify_topic_name (a @ ''//'' @ b) ns node \<noteq> Ok q" for a b q
  proof
    assume "qualify_topic_name (a @ ''//'' @ b) ns node = Ok q"
    then show False
    proof (cases rule: qualify_inv)
      case (relative u)
      then show ?thesis using bad [of a b] bad' [of u a b] by auto
    next
      case (absolute u)
      then show ?thesis
        using bad [of "tl a" b] bad' [of u "tl a" b] valid_path_head [of u] valid_path_nonempty [of u]
        by (cases a; cases u) auto
    next
      case (tilde s u)
      then obtain a' where "s = a' @ ''//'' @ b" by (cases a) auto
      with tilde(2) show ?thesis
        using bad [of a' b] bad' [of u a' b] bad [of "tl a'" b] bad' [of u "tl a'" b] valid_path_head [of u]
          valid_path_nonempty [of u]
        by (cases a'; cases u) (auto simp: tilde_suffix_def)
    qed
  qed
  have "tilde_suffix (CHR ''/'' # p) p" "tilde_suffix [] []"
    using assms(3) by (simp_all add: tilde_suffix_def)
  then show ?thesis
    using assms no_double qualify_ok [OF assms(1), of node] valid_path_nonempty [OF assms(3)]
    by (simp add: validate_node_name_ok_iff tilde_path_def)
qed

lemma qualify_expansion_witness:
  "qualify_topic_name ''chatter'' ''/ns'' ''node'' = Ok ''/ns/chatter'' \<and> qualify_topic_name ''a//b'' ''/ns'' ''node'' \<noteq> Ok ''/ns/a//b''"
proof -
  have v: "validate_namespace ''/ns'' = Ok ()" "validate_node_name ''node'' = Ok ()" "valid_path ''chatter''" by code_simp+
  have n: "ns_prefix ''/ns'' = ''/ns''" by code_simp
  show ?thesis
    using qualify_expansion [OF v] n by (metis append.simps append_Cons)
qed

end
