(* ===== verification/Qos.thy ===== *)
theory Qos
  imports Hiroz_Prelude
begin

text \<open>
  \<open>crates/hiroz-protocol/src/qos.rs\<close>: the QoS profile and its compact text in liveliness
  tokens. Integers are 64-bit; \<open>parse\<close> accepts what \<open>str::parse\<close> accepts.
\<close>

section \<open>The profile\<close>

datatype qos_reliability = BestEffort | Reliable
datatype qos_durability = Volatile | TransientLocal
datatype qos_history = KeepLast u64 | KeepAll
datatype qos_liveliness = Automatic | ManualByNode | ManualByTopic

record qos_duration =
  dur_sec :: u64
  dur_nsec :: u64

definition qos_duration_infinite :: qos_duration where
  "qos_duration_infinite = \<lparr>dur_sec = 9223372036, dur_nsec = 854775807\<rparr>"

record qos_profile =
  qos_reliability :: qos_reliability
  qos_durability :: qos_durability
  qos_history :: qos_history
  qos_deadline :: qos_duration
  qos_lifespan :: qos_duration
  qos_liveliness :: qos_liveliness
  qos_lease :: qos_duration

definition rmw_zenoh_default_history_depth :: u64 where
  "rmw_zenoh_default_history_depth = 42"

definition qos_default :: qos_profile where
  "qos_default =
     \<lparr>qos_reliability = Reliable, qos_durability = Volatile, qos_history = KeepLast 10,
      qos_deadline = qos_duration_infinite, qos_lifespan = qos_duration_infinite,
      qos_liveliness = Automatic, qos_lease = qos_duration_infinite\<rparr>"

definition history_depth :: "qos_history \<Rightarrow> u64" where
  "history_depth h = (case h of KeepLast d \<Rightarrow> d | KeepAll \<Rightarrow> 0)"

datatype qos_decode_error =
    InvalidFormat | InvalidReliability | InvalidDurability | InvalidHistory | InvalidDuration | InvalidLiveliness

section \<open>Encoding\<close>

definition show_u64 :: "u64 \<Rightarrow> string" where
  "show_u64 v = show_nat (unat v)"

definition parse_u64 :: "string \<Rightarrow> u64 option" where
  "parse_u64 s = map_option word_of_nat (parse_uint (2 ^ 64 - 1) s)"

definition encode_duration_component :: "u64 \<Rightarrow> u64 \<Rightarrow> string" where
  "encode_duration_component v d = (if v \<noteq> d then show_u64 v else [])"

definition encode_duration :: "qos_duration \<Rightarrow> qos_duration \<Rightarrow> string" where
  "encode_duration v d =
     encode_duration_component (dur_sec v) (dur_sec d) @ '','' @ encode_duration_component (dur_nsec v) (dur_nsec d)"

definition qos_encode :: "qos_profile \<Rightarrow> string" where
  "qos_encode q =
     (let reliability = (if qos_reliability q \<noteq> qos_reliability qos_default
            then (case qos_reliability q of Reliable \<Rightarrow> ''1'' | BestEffort \<Rightarrow> ''2'') else []);
          durability = (if qos_durability q \<noteq> qos_durability qos_default
            then (case qos_durability q of TransientLocal \<Rightarrow> ''1'' | Volatile \<Rightarrow> ''2'') else []);
          history = (case qos_history q of
              KeepLast depth \<Rightarrow> if depth = rmw_zenoh_default_history_depth then '','' else '','' @ show_u64 depth
            | KeepAll \<Rightarrow> ''2,'');
          deadline = encode_duration (qos_deadline q) (qos_deadline qos_default);
          lifespan = encode_duration (qos_lifespan q) (qos_lifespan qos_default);
          liveliness_kind = (if qos_liveliness q \<noteq> qos_liveliness qos_default
            then (case qos_liveliness q of Automatic \<Rightarrow> ''1'' | ManualByNode \<Rightarrow> ''2'' | ManualByTopic \<Rightarrow> ''3'') else []);
          liveliness = liveliness_kind @ '','' @ encode_duration (qos_lease q) (qos_lease qos_default)
      in reliability @ '':'' @ durability @ '':'' @ history @ '':'' @ deadline @ '':'' @ lifespan @ '':'' @ liveliness)"

section \<open>Decoding\<close>

definition parse_duration_component :: "string \<Rightarrow> u64 \<Rightarrow> (u64, qos_decode_error) res" where
  "parse_duration_component s d =
     (if s = [] then Ok d else (case parse_u64 s of Some v \<Rightarrow> Ok v | None \<Rightarrow> Err InvalidDuration))"

definition parse_duration :: "string \<Rightarrow> qos_duration \<Rightarrow> (qos_duration, qos_decode_error) res" where
  "parse_duration s d =
     (case split_once CHR '','' s of
        None \<Rightarrow> Err InvalidDuration
      | Some (sec, nsec) \<Rightarrow>
          res_bind (parse_duration_component sec (dur_sec d))
            (\<lambda>a. res_bind (parse_duration_component nsec (dur_nsec d))
              (\<lambda>b. Ok \<lparr>dur_sec = a, dur_nsec = b\<rparr>)))"

definition decode_reliability :: "string \<Rightarrow> (qos_reliability, qos_decode_error) res" where
  "decode_reliability s =
     (if s = [] \<or> s = ''0'' then Ok (qos_reliability qos_default)
      else if s = ''1'' then Ok Reliable else if s = ''2'' then Ok BestEffort else Err InvalidReliability)"

definition decode_durability :: "string \<Rightarrow> (qos_durability, qos_decode_error) res" where
  "decode_durability s =
     (if s = [] \<or> s = ''0'' then Ok (qos_durability qos_default)
      else if s = ''1'' then Ok TransientLocal else if s = ''2'' then Ok Volatile else Err InvalidDurability)"

definition decode_history :: "nat \<Rightarrow> string \<Rightarrow> (qos_history, qos_decode_error) res" where
  "decode_history field_count s =
     (if s = '','' then Ok (KeepLast rmw_zenoh_default_history_depth)
      else if s = [] \<and> 6 \<le> field_count then Ok (KeepLast rmw_zenoh_default_history_depth)
      else (case split_once CHR '','' s of
          None \<Rightarrow> Err InvalidHistory
        | Some (kind, encoded_depth) \<Rightarrow>
            if kind = [] \<or> kind = ''0'' \<or> kind = ''1''
            then res_bind (if encoded_depth = [] then Ok rmw_zenoh_default_history_depth
                           else (case parse_u64 encoded_depth of Some d \<Rightarrow> Ok d | None \<Rightarrow> Err InvalidHistory))
                   (\<lambda>depth. Ok (KeepLast (if depth = 0 then rmw_zenoh_default_history_depth else depth)))
            else if kind = ''2'' then Ok KeepAll
            else Err InvalidHistory))"

definition decode_optional_duration :: "string option \<Rightarrow> qos_duration \<Rightarrow> (qos_duration, qos_decode_error) res" where
  "decode_optional_duration f d =
     (case f of Some s \<Rightarrow> if s \<noteq> [] then parse_duration s d else Ok d | None \<Rightarrow> Ok d)"

definition decode_liveliness :: "string option \<Rightarrow> (qos_liveliness \<times> qos_duration, qos_decode_error) res" where
  "decode_liveliness f =
     (case f of
        None \<Rightarrow> Ok (qos_liveliness qos_default, qos_lease qos_default)
      | Some s \<Rightarrow>
          if s = [] then Ok (qos_liveliness qos_default, qos_lease qos_default)
          else (case split_once CHR '','' s of
              None \<Rightarrow> Err InvalidLiveliness
            | Some (kind_s, rest) \<Rightarrow>
                (case split_once CHR '','' rest of
                   None \<Rightarrow> Err InvalidLiveliness
                 | Some (lease_sec_s, lease_nsec_s) \<Rightarrow>
                     res_bind (if kind_s = [] \<or> kind_s = ''0'' then Ok (qos_liveliness qos_default)
                               else if kind_s = ''1'' then Ok Automatic else if kind_s = ''2'' then Ok ManualByNode
                               else if kind_s = ''3'' then Ok ManualByTopic else Err InvalidLiveliness)
                       (\<lambda>kind. res_bind (parse_duration_component lease_sec_s (dur_sec (qos_lease qos_default)))
                         (\<lambda>a. res_bind (parse_duration_component lease_nsec_s (dur_nsec (qos_lease qos_default)))
                           (\<lambda>b. Ok (kind, \<lparr>dur_sec = a, dur_nsec = b\<rparr>)))))))"

definition field_at :: "string list \<Rightarrow> nat \<Rightarrow> string option" where
  "field_at fs i = (if i < length fs then Some (fs ! i) else None)"

definition qos_decode :: "string \<Rightarrow> (qos_profile, qos_decode_error) res" where
  "qos_decode s =
     (let fs = split_on CHR '':'' s
      in if length fs < 3 then Err InvalidFormat
         else res_bind (decode_reliability (fs ! 0))
           (\<lambda>reliability. res_bind (decode_durability (fs ! 1))
           (\<lambda>durability. res_bind (decode_history (length fs) (fs ! 2))
           (\<lambda>history. res_bind (decode_optional_duration (field_at fs 3) (qos_deadline qos_default))
           (\<lambda>deadline. res_bind (decode_optional_duration (field_at fs 4) (qos_lifespan qos_default))
           (\<lambda>lifespan. res_bind (decode_liveliness (field_at fs 5))
           (\<lambda>(liveliness, lease).
              Ok \<lparr>qos_reliability = reliability, qos_durability = durability, qos_history = history,
                  qos_deadline = deadline, qos_lifespan = lifespan, qos_liveliness = liveliness, qos_lease = lease\<rparr>)))))))"

section \<open>Round trip\<close>

lemma show_u64_no_sep: "CHR '':'' \<notin> set (show_u64 v)" "CHR '','' \<notin> set (show_u64 v)" "CHR ''/'' \<notin> set (show_u64 v)"
  by (simp_all add: show_u64_def show_nat_no_sep)

lemma show_u64_nonempty [simp]: "show_u64 v \<noteq> []"
  by (simp add: show_u64_def)

lemma parse_show_u64 [simp]: "parse_u64 (show_u64 v) = Some v"
proof -
  have "unat v < 2 ^ 64" using unsigned_less [of v] by simp
  then have "unat v \<le> 2 ^ 64 - 1" by simp
  then show ?thesis by (simp add: parse_u64_def show_u64_def parse_uint_show_nat)
qed

lemma component_no_sep:
  "CHR '','' \<notin> set (encode_duration_component v d)" "CHR '':'' \<notin> set (encode_duration_component v d)"
  "CHR ''/'' \<notin> set (encode_duration_component v d)"
  by (simp_all add: encode_duration_component_def show_u64_no_sep)

lemma parse_encode_component [simp]: "parse_duration_component (encode_duration_component v d) d = Ok v"
  by (simp add: parse_duration_component_def encode_duration_component_def)

lemma parse_encode_duration [simp]: "parse_duration (encode_duration v d) d = Ok v"
  by (simp add: parse_duration_def encode_duration_def split_once_append component_no_sep)

lemma encode_duration_nonempty [simp]: "encode_duration v d \<noteq> []"
  by (simp add: encode_duration_def)

lemma encode_duration_no_colon: "CHR '':'' \<notin> set (encode_duration v d)" "CHR ''/'' \<notin> set (encode_duration v d)"
  by (simp_all add: encode_duration_def component_no_sep)


definition qos_fields :: "qos_profile \<Rightarrow> string list" where
  "qos_fields q =
     [if qos_reliability q \<noteq> qos_reliability qos_default
      then (case qos_reliability q of Reliable \<Rightarrow> ''1'' | BestEffort \<Rightarrow> ''2'') else [],
      if qos_durability q \<noteq> qos_durability qos_default
      then (case qos_durability q of TransientLocal \<Rightarrow> ''1'' | Volatile \<Rightarrow> ''2'') else [],
      case qos_history q of
        KeepLast depth \<Rightarrow> if depth = rmw_zenoh_default_history_depth then '','' else '','' @ show_u64 depth
      | KeepAll \<Rightarrow> ''2,'',
      encode_duration (qos_deadline q) (qos_deadline qos_default),
      encode_duration (qos_lifespan q) (qos_lifespan qos_default),
      (if qos_liveliness q \<noteq> qos_liveliness qos_default
       then (case qos_liveliness q of Automatic \<Rightarrow> ''1'' | ManualByNode \<Rightarrow> ''2'' | ManualByTopic \<Rightarrow> ''3'') else [])
        @ '','' @ encode_duration (qos_lease q) (qos_lease qos_default)]"

lemma qos_encode_join: "qos_encode q = join_with CHR '':'' (qos_fields q)"
  by (simp add: qos_encode_def qos_fields_def Let_def)

lemma qos_fields_no_sep: "f \<in> set (qos_fields q) \<Longrightarrow> CHR '':'' \<notin> set f \<and> CHR ''/'' \<notin> set f"
proof -
  have "list_all (\<lambda>f. CHR '':'' \<notin> set f \<and> CHR ''/'' \<notin> set f) (qos_fields q)"
    unfolding qos_fields_def list.pred_inject
    by (intro conjI; simp add: show_u64_no_sep encode_duration_no_colon
        split: qos_reliability.split qos_durability.split qos_history.split qos_liveliness.split)
  then show "f \<in> set (qos_fields q) \<Longrightarrow> ?thesis" by (auto simp only: list_all_iff)
qed

lemma split_qos_encode: "split_on CHR '':'' (qos_encode q) = qos_fields q"
  unfolding qos_encode_join by (rule split_on_join) (auto simp: qos_fields_no_sep, simp add: qos_fields_def)

lemma join_with_set: "set (join_with c ps) \<subseteq> insert c (\<Union> (set ` set ps))"
  by (induction c ps rule: join_with.induct) auto

lemma qos_encode_no_slash: "CHR ''/'' \<notin> set (qos_encode q)"
  using join_with_set [of "CHR '':''" "qos_fields q"] qos_fields_no_sep [of _ q]
  unfolding qos_encode_join by blast

definition wire_history :: "qos_history \<Rightarrow> qos_history" where
  "wire_history h = (if h = KeepLast 0 then KeepLast rmw_zenoh_default_history_depth else h)"

lemma decode_encode_history:
  "decode_history n (qos_fields q ! 2) = Ok (wire_history (qos_history q))"
  by (cases "qos_history q")
     (auto simp: qos_fields_def decode_history_def wire_history_def rmw_zenoh_default_history_depth_def)

lemma decode_encode_liveliness:
  "decode_liveliness (Some (qos_fields q ! 5)) = Ok (qos_liveliness q, qos_lease q)"
proof -
  let ?k = "if qos_liveliness q \<noteq> qos_liveliness qos_default
       then (case qos_liveliness q of Automatic \<Rightarrow> ''1'' | ManualByNode \<Rightarrow> ''2'' | ManualByTopic \<Rightarrow> ''3'') else []"
  let ?d = "encode_duration (qos_lease q) (qos_lease qos_default)"
  have f: "qos_fields q ! 5 = ?k @ CHR '','' # ?d" by (simp add: qos_fields_def)
  have k: "CHR '','' \<notin> set ?k" by (simp split: qos_liveliness.split)
  have "split_once CHR '','' ?d = Some (encode_duration_component (dur_sec (qos_lease q)) (dur_sec (qos_lease qos_default)),
      encode_duration_component (dur_nsec (qos_lease q)) (dur_nsec (qos_lease qos_default)))"
    by (simp add: encode_duration_def split_once_append component_no_sep)
  then show ?thesis
    unfolding f decode_liveliness_def option.case split_once_append [OF k]
    by (cases "qos_liveliness q") (simp_all add: qos_default_def)
qed

lemma qos_wire_roundtrip: "qos_decode (qos_encode q) = Ok (q\<lparr>qos_history := wire_history (qos_history q)\<rparr>)"
proof -
  have len: "length (qos_fields q) = 6" by (simp add: qos_fields_def)
  have "decode_reliability (qos_fields q ! 0) = Ok (qos_reliability q)"
    "decode_durability (qos_fields q ! 1) = Ok (qos_durability q)"
    by (cases "qos_reliability q"; simp add: qos_fields_def decode_reliability_def qos_default_def)
       (cases "qos_durability q"; simp add: qos_fields_def decode_durability_def qos_default_def)
  moreover have "decode_optional_duration (Some (qos_fields q ! 3)) (qos_deadline qos_default) = Ok (qos_deadline q)"
    "decode_optional_duration (Some (qos_fields q ! 4)) (qos_lifespan qos_default) = Ok (qos_lifespan q)"
    by (simp_all add: qos_fields_def decode_optional_duration_def)
  ultimately show ?thesis
    by (simp add: qos_decode_def split_qos_encode len field_at_def decode_encode_history decode_encode_liveliness)
qed

text \<open>
  A QoS profile survives the liveliness token. Decoding the encoded profile returns
  the profile; only a keep-last depth of zero, which has no meaning of its own, comes back
  as the wire default of 42.
\<close>

theorem qos_roundtrip: "qos_decode (qos_encode q) = Ok (q\<lparr>qos_history := wire_history (qos_history q)\<rparr>)"
  by (rule qos_wire_roundtrip)

end
