(* ===== verification/Entity.thy ===== *)
theory Entity
  imports Qos "HOL-Library.Sublist"
begin

text \<open>
  \<open>crates/hiroz-protocol/src/entity.rs\<close>: nodes, endpoints, their kinds and type hashes.
  \<open>ZenohId\<close> is a type of the \<open>zenoh\<close> crate and stays a type parameter.
\<close>

section \<open>Type hashes\<close>

record type_hash =
  th_version :: u8
  th_value :: bytes

definition type_hash_zero :: type_hash where
  "type_hash_zero = \<lparr>th_version = 1, th_value = replicate 32 0\<rparr>"

definition type_hash_not_supported :: string where
  "type_hash_not_supported = ''TypeHashNotSupported''"

definition hex_digit :: "nat \<Rightarrow> char" where
  "hex_digit d = (if d < 10 then digit_char d else char_of (87 + d))"

definition hex_val :: "char \<Rightarrow> nat option" where
  "hex_val c = (let n = of_char c :: nat in
     if 48 \<le> n \<and> n \<le> 57 then Some (n - 48)
     else if 97 \<le> n \<and> n \<le> 102 then Some (n - 87)
     else if 65 \<le> n \<and> n \<le> 70 then Some (n - 55) else None)"

text \<open>\<open>format!("{:02x}", b)\<close>, and \<open>u8::from_str_radix(s, 16)\<close> on two bytes.\<close>

definition show_hex2 :: "u8 \<Rightarrow> string" where
  "show_hex2 b = [hex_digit (unat b div 16), hex_digit (unat b mod 16)]"

definition parse_hex2 :: "char \<Rightarrow> char \<Rightarrow> u8 option" where
  "parse_hex2 a b =
     (case hex_val b of
        None \<Rightarrow> None
      | Some y \<Rightarrow> if a = CHR ''+'' then Some (word_of_nat y)
                 else (case hex_val a of None \<Rightarrow> None | Some x \<Rightarrow> Some (word_of_nat (16 * x + y))))"

text \<open>A pair of bytes that is not UTF-8 is read as \<open>00\<close>.\<close>

definition parse_chunk :: "char \<Rightarrow> char \<Rightarrow> u8 option" where
  "parse_chunk a b = (if utf8_valid [of_char a, of_char b] then parse_hex2 a b else Some 0)"

fun parse_hex_bytes :: "string \<Rightarrow> bytes option" where
  "parse_hex_bytes (a # b # cs) =
     (case parse_chunk a b of
        None \<Rightarrow> None
      | Some v \<Rightarrow> (case parse_hex_bytes cs of None \<Rightarrow> None | Some vs \<Rightarrow> Some (v # vs)))"
| "parse_hex_bytes _ = Some []"

definition from_rihs_string :: "string \<Rightarrow> type_hash option" where
  "from_rihs_string s =
     (if s = type_hash_not_supported then Some type_hash_zero
      else (case strip_prefix_str ''RIHS01_'' s of
              None \<Rightarrow> None
            | Some hex_part \<Rightarrow>
                if length hex_part = 64
                then map_option (\<lambda>v. \<lparr>th_version = 1, th_value = v\<rparr>) (parse_hex_bytes hex_part)
                else None))"

definition to_rihs_string :: "type_hash \<Rightarrow> string" where
  "to_rihs_string h =
     (if th_version h = 1 then ''RIHS01_'' @ concat (map show_hex2 (th_value h))
      else ''RIHS'' @ show_hex2 (th_version h) @ ''_'' @ concat (map show_hex2 (th_value h)))"

record type_info =
  ti_name :: string
  ti_hash :: type_hash

section \<open>Kinds\<close>

datatype endpoint_kind = Publisher | Subscription | Service | Client

datatype entity_kind = NodeKind | EndpointKind endpoint_kind

definition show_endpoint_kind :: "endpoint_kind \<Rightarrow> string" where
  "show_endpoint_kind k = (case k of Publisher \<Rightarrow> ''MP'' | Subscription \<Rightarrow> ''MS'' | Service \<Rightarrow> ''SS'' | Client \<Rightarrow> ''SC'')"

definition parse_endpoint_kind :: "string \<Rightarrow> endpoint_kind option" where
  "parse_endpoint_kind s =
     (if s = ''MP'' then Some Publisher else if s = ''MS'' then Some Subscription
      else if s = ''SS'' then Some Service else if s = ''SC'' then Some Client else None)"

definition show_entity_kind :: "entity_kind \<Rightarrow> string" where
  "show_entity_kind k = (case k of NodeKind \<Rightarrow> ''NN'' | EndpointKind e \<Rightarrow> show_endpoint_kind e)"

definition parse_entity_kind :: "string \<Rightarrow> entity_kind option" where
  "parse_entity_kind s = (if s = ''NN'' then Some NodeKind else map_option EndpointKind (parse_endpoint_kind s))"

section \<open>Entities\<close>

record 'z node_entity =
  ne_domain_id :: u64
  ne_z_id :: 'z
  ne_id :: u64
  ne_name :: string
  ne_namespace :: string
  ne_enclave :: string

record 'z endpoint_entity =
  ee_id :: u64
  ee_node :: "'z node_entity option"
  ee_kind :: endpoint_kind
  ee_topic :: string
  ee_type_info :: "type_info option"
  ee_qos :: qos_profile

datatype 'z entity = NodeEntity "'z node_entity" | EndpointEntity "'z endpoint_entity"

datatype entity_conversion_error =
    MissingAdminSpace | MissingDomainId | MissingZId | MissingNodeId | MissingEntityId | MissingEntityKind
  | MissingEnclave | MissingNamespace | MissingNodeName | MissingTopicName | MissingTopicType
  | MissingTopicHash | MissingTopicQoS | ParsingError
  | QosDecodeError qos_decode_error

section \<open>Action names\<close>

definition action_server_all_suffixes :: "string list" where
  "action_server_all_suffixes =
     [''/_action/send_goal'', ''/_action/get_result'', ''/_action/cancel_goal'', ''/_action/feedback'', ''/_action/status'']"

fun first_stripped :: "string list \<Rightarrow> string \<Rightarrow> string option" where
  "first_stripped [] topic = None"
| "first_stripped (suf # rest) topic =
     (case strip_suffix_str suf topic of Some base \<Rightarrow> Some base | None \<Rightarrow> first_stripped rest topic)"

definition action_name_from_topic :: "string \<Rightarrow> string option" where
  "action_name_from_topic topic = first_stripped action_server_all_suffixes topic"

section \<open>Lemmas\<close>

lemma hex_val_digit [simp]: "d < 16 \<Longrightarrow> hex_val (hex_digit d) = Some d"
  by (auto simp: hex_val_def hex_digit_def digit_char_def Let_def)

lemma hex_digit_ascii: "d < 16 \<Longrightarrow> (of_char (hex_digit d) :: nat) < 128"
  by (simp add: hex_digit_def digit_char_def)

lemma hex_digit_not_special:
  "d < 16 \<Longrightarrow> hex_digit d \<noteq> CHR ''/'' \<and> hex_digit d \<noteq> CHR ''+'' \<and> hex_digit d \<noteq> CHR ''%''"
  using hex_val_digit [of d] by (auto simp: hex_val_def)

lemma nibbles: "unat (b :: u8) div 16 < 16" "unat b mod 16 < 16"
proof -
  have "unat b < 2 ^ LENGTH(8)" by (rule unsigned_less)
  then show "unat b div 16 < 16" by simp
qed simp

lemma parse_show_hex2 [simp]: "parse_hex2 (hex_digit (unat (b :: u8) div 16)) (hex_digit (unat b mod 16)) = Some b"
  using hex_digit_not_special [OF nibbles(1)] nibbles by (simp add: parse_hex2_def)


lemma ascii_byte: "(of_char c :: nat) < 128 \<Longrightarrow> (of_char c :: u8) \<le> 0x7F"
proof -
  assume c: "(of_char c :: nat) < 128"
  have "(of_char c :: u8) = word_of_nat (of_char c)" by (metis of_nat_of_char)
  moreover have "unat (word_of_nat (of_char c) :: u8) = of_char c"
    using c by (simp add: unat_of_nat take_bit_nat_eq_self)
  ultimately show ?thesis using c by (simp add: word_le_nat_alt)
qed

lemma parse_chunk_show [simp]: "parse_chunk (hex_digit (unat (b :: u8) div 16)) (hex_digit (unat b mod 16)) = Some b"
  using ascii_byte [OF hex_digit_ascii [OF nibbles(1) [of b]]] ascii_byte [OF hex_digit_ascii [OF nibbles(2) [of b]]]
  by (simp add: parse_chunk_def)

lemma parse_hex_bytes_show [simp]: "parse_hex_bytes (concat (map show_hex2 bs)) = Some bs"
  by (induction bs) (simp_all add: show_hex2_def)

lemma length_concat_hex [simp]: "length (concat (map show_hex2 bs)) = 2 * length bs"
  by (induction bs) (simp_all add: show_hex2_def)

lemma hex_no_slash: "CHR ''/'' \<notin> set (concat (map show_hex2 bs))" "CHR ''%'' \<notin> set (concat (map show_hex2 bs))"
proof -
  have "CHR ''/'' \<notin> set (show_hex2 b)" "CHR ''%'' \<notin> set (show_hex2 b)" for b
    using hex_digit_not_special [OF nibbles(1) [of b]] hex_digit_not_special [OF nibbles(2) [of b]]
    by (simp_all add: show_hex2_def eq_commute)
  then show "CHR ''/'' \<notin> set (concat (map show_hex2 bs))" "CHR ''%'' \<notin> set (concat (map show_hex2 bs))"
    by simp_all
qed

lemma to_rihs_no_slash: "CHR ''/'' \<notin> set (to_rihs_string h)" "CHR ''%'' \<notin> set (to_rihs_string h)"
  using hex_no_slash [of "th_value h"] hex_no_slash [of "[th_version h]"] by (simp_all add: to_rihs_string_def)

lemma to_rihs_starts: "\<exists>r. to_rihs_string h = ''RIHS'' @ r"
  by (simp add: to_rihs_string_def)

lemma show_hex2_inj: "show_hex2 a = show_hex2 b \<Longrightarrow> a = b"
  using parse_hex_bytes_show [of "[a]"] parse_hex_bytes_show [of "[b]"] by (simp del: parse_hex_bytes_show)

lemma show_hex2_one: "show_hex2 v = ''01'' \<longleftrightarrow> v = 1"
proof -
  have "show_hex2 1 = ''01''" by code_simp
  then show ?thesis using show_hex2_inj by metis
qed

lemma show_parse_endpoint_kind [simp]: "parse_endpoint_kind (show_endpoint_kind k) = Some k"
  by (cases k) (simp_all add: show_endpoint_kind_def parse_endpoint_kind_def)

lemma show_parse_entity_kind [simp]: "parse_entity_kind (show_entity_kind e) = Some e"
proof (cases e)
  case (EndpointKind k)
  then show ?thesis
    by (cases k) (simp_all add: show_entity_kind_def parse_entity_kind_def show_endpoint_kind_def parse_endpoint_kind_def)
qed (simp add: show_entity_kind_def parse_entity_kind_def)

lemma show_entity_kind_no_slash: "CHR ''/'' \<notin> set (show_entity_kind e)"
proof (cases e)
  case (EndpointKind k)
  then show ?thesis by (cases k) (simp_all add: show_entity_kind_def show_endpoint_kind_def)
qed (simp add: show_entity_kind_def)

lemma first_stripped_Some: "first_stripped ss t = Some b \<Longrightarrow> \<exists>s \<in> set ss. t = b @ s"
  by (induction ss) (auto dest: strip_suffix_str_Some split: option.splits)

lemma first_stripped_complete:
  assumes "s \<in> set ss" and "t = b @ s" and "\<And>x y. x \<in> set ss \<Longrightarrow> y \<in> set ss \<Longrightarrow> x = y \<or> \<not> suffix x y"
  shows "first_stripped ss t = Some b"
  using assms
proof (induction ss)
  case (Cons x xs)
  show ?case
  proof (cases "strip_suffix_str x t")
    case None
    with Cons.prems(2) have "x \<noteq> s" by auto
    with Cons None show ?thesis by auto
  next
    case (Some b')
    then have t: "t = b' @ x" by (rule strip_suffix_str_Some)
    with Cons.prems(2) have "suffix x s \<or> suffix s x"
      by (metis suffixI suffix_same_cases)
    with Cons.prems have "x = s" by (metis list.set_intros(1))
    with Some t Cons.prems(2) show ?thesis by simp
  qed
qed simp

lemma to_rihs_inj:
  assumes "to_rihs_string h' = to_rihs_string h"
  shows "h' = h"
proof -
  have split: "\<exists>v. to_rihs_string x = ''RIHS'' @ v @ ''_'' @ concat (map show_hex2 (th_value x)) \<and> length v = 2 \<and> v = show_hex2 (th_version x)" for x
    using show_hex2_one [of "th_version x"] by (auto simp: to_rihs_string_def show_hex2_def)
  from split [of h] split [of h'] assms
  have "show_hex2 (th_version h') = show_hex2 (th_version h)"
    and "concat (map show_hex2 (th_value h')) = concat (map show_hex2 (th_value h))" by auto
  then have "th_version h' = th_version h" and "th_value h' = th_value h"
    using show_hex2_inj parse_hex_bytes_show by (blast, metis option.inject)
  then show ?thesis by simp
qed

lemma from_to_rihs:
  assumes "length (th_value h) = 32"
  shows "from_rihs_string (to_rihs_string h) = (if th_version h = 1 then Some h else None)"
proof (cases "th_version h = 1")
  case True
  with assms show ?thesis
    by (cases h) (simp add: from_rihs_string_def to_rihs_string_def type_hash_not_supported_def strip_prefix_str_def)
next
  case False
  then have "show_hex2 (th_version h) \<noteq> ''01''" by (simp add: show_hex2_one)
  with False show ?thesis
    by (auto simp: from_rihs_string_def to_rihs_string_def type_hash_not_supported_def strip_prefix_str_def show_hex2_def)
qed

text \<open>
  The RIHS text of a type hash. A version 1 hash of 32 bytes is recovered from its
  text; a hash of another version is not recognised; and the text determines the hash.
\<close>

theorem rihs_roundtrip:
  assumes "length (th_value h) = 32"
  shows "from_rihs_string (to_rihs_string h) = (if th_version h = 1 then Some h else None) \<and>
         (\<forall>h'. length (th_value h') = 32 \<and> to_rihs_string h' = to_rihs_string h \<longrightarrow> h' = h)"
proof (intro conjI allI impI)
  show "from_rihs_string (to_rihs_string h) = (if th_version h = 1 then Some h else None)"
    by (rule from_to_rihs [OF assms])
next
  fix h' assume "length (th_value h') = 32 \<and> to_rihs_string h' = to_rihs_string h"
  then show "h' = h" using to_rihs_inj by blast
qed

lemma rihs_roundtrip_witness: "from_rihs_string (to_rihs_string type_hash_zero) = Some type_hash_zero"
  using rihs_roundtrip [of type_hash_zero] by (simp add: type_hash_zero_def)

text \<open>
  Action endpoints are attributed to their action. A topic is recognised exactly when
  it is an action name followed by one of the five suffixes, the name returned is the text
  before the suffix, and no topic belongs to two actions.
\<close>

theorem action_name_correct:
  "action_name_from_topic topic = Some base \<longleftrightarrow>
     (\<exists>suf \<in> set action_server_all_suffixes. topic = base @ suf)"
proof
  assume "action_name_from_topic topic = Some base"
  then show "\<exists>suf \<in> set action_server_all_suffixes. topic = base @ suf"
    unfolding action_name_from_topic_def by (rule first_stripped_Some)
next
  assume "\<exists>suf \<in> set action_server_all_suffixes. topic = base @ suf"
  moreover have "list_all (\<lambda>a. list_all (\<lambda>b. a = b \<or> \<not> suffix a b) action_server_all_suffixes) action_server_all_suffixes"
    by code_simp
  ultimately show "action_name_from_topic topic = Some base"
    unfolding action_name_from_topic_def by (auto simp: list_all_iff intro: first_stripped_complete)
qed

lemma action_name_correct_witness: "action_name_from_topic ''/fib/_action/status'' = Some ''/fib''"
  by (simp add: action_name_correct action_server_all_suffixes_def)

end
