(* ===== verification/Key_Expr.thy ===== *)
theory Key_Expr
  imports Entity
begin

text \<open>
  \<open>crates/hiroz-protocol/src/format/rmw_zenoh.rs\<close> and the name mangling of
  \<open>format/mod.rs\<close>: topic key expressions, liveliness tokens and their parser. From the
  \<open>zenoh\<close> crate the code uses the text form of a \<open>ZenohId\<close>, its parser, and the check
  that a string is a key expression: these are the record \<open>zenoh_ops\<close>, and what the code
  relies on is the locale \<open>zenoh_lib\<close>.
\<close>

record 'z zenoh_ops =
  z_show :: "'z \<Rightarrow> string"
  z_parse :: "string \<Rightarrow> 'z option"
  z_key_ok :: "string \<Rightarrow> bool"

locale zenoh_lib =
  fixes Z :: "'z zenoh_ops"
  assumes z_parse_show: "z_parse Z (z_show Z i) = Some i"
    and z_show_no_slash: "CHR ''/'' \<notin> set (z_show Z i)"

datatype key_error =
    NoNodeIdentity
  | NotAKeyExpr string
  | Conversion entity_conversion_error

section \<open>Mangling\<close>

definition escape_char :: char where
  "escape_char = CHR ''%''"

definition mangle_name :: "string \<Rightarrow> string" where
  "mangle_name s = map (\<lambda>c. if c = CHR ''/'' then escape_char else c) s"

definition demangle_name :: "string \<Rightarrow> string" where
  "demangle_name s = map (\<lambda>c. if c = escape_char then CHR ''/'' else c) s"

definition empty_placeholder :: string where "empty_placeholder = ''%''"
definition empty_topic_type :: string where "empty_topic_type = ''EMPTY_TOPIC_TYPE''"
definition empty_topic_hash :: string where "empty_topic_hash = ''EMPTY_TOPIC_HASH''"
definition admin_space :: string where "admin_space = ''@ros2_lv''"

definition try_key :: "'z zenoh_ops \<Rightarrow> string \<Rightarrow> (string, key_error) res" where
  "try_key Z s = (if z_key_ok Z s then Ok s else Err (NotAKeyExpr s))"

section \<open>Key expressions\<close>

definition topic_key_string :: "u64 \<Rightarrow> string \<Rightarrow> type_info option \<Rightarrow> string" where
  "topic_key_string domain_id topic info =
     (let s = unwrap_or (strip_prefix_char CHR ''/'' topic) topic;
          t = unwrap_or (strip_suffix_char CHR ''/'' s) s;
          type_str = (case info of
              None \<Rightarrow> empty_topic_type @ ''/'' @ empty_topic_hash
            | Some x \<Rightarrow> demangle_name (ti_name x) @ ''/'' @ demangle_name (to_rihs_string (ti_hash x)))
      in show_u64 domain_id @ ''/'' @ t @ ''/'' @ type_str)"

definition topic_key_expr :: "'z zenoh_ops \<Rightarrow> 'z endpoint_entity \<Rightarrow> (string, key_error) res" where
  "topic_key_expr Z e =
     (case ee_node e of
        None \<Rightarrow> Err NoNodeIdentity
      | Some node \<Rightarrow> try_key Z (topic_key_string (ne_domain_id node) (ee_topic e) (ee_type_info e)))"

definition namespace_field :: "string \<Rightarrow> string" where
  "namespace_field ns = (if ns = [] then empty_placeholder else mangle_name ns)"

definition type_fields :: "type_info option \<Rightarrow> string list" where
  "type_fields info =
     (case info of
        None \<Rightarrow> [empty_topic_type, empty_topic_hash]
      | Some x \<Rightarrow> [mangle_name (ti_name x), to_rihs_string (ti_hash x)])"

text \<open>The slash-separated fields of the two tokens, in order.\<close>

definition liveliness_fields :: "'z zenoh_ops \<Rightarrow> 'z node_entity \<Rightarrow> 'z endpoint_entity \<Rightarrow> string list" where
  "liveliness_fields Z n e =
     [admin_space, show_u64 (ne_domain_id n), z_show Z (ne_z_id n), show_u64 (ne_id n), show_u64 (ee_id e),
      show_entity_kind (EndpointKind (ee_kind e)), empty_placeholder, namespace_field (ne_namespace n),
      mangle_name (ne_name n),
      mangle_name (unwrap_or (strip_suffix_char CHR ''/'' (ee_topic e)) (ee_topic e))]
     @ type_fields (ee_type_info e) @ [qos_encode (ee_qos e)]"

definition liveliness_key_expr :: "'z zenoh_ops \<Rightarrow> 'z endpoint_entity \<Rightarrow> (string, key_error) res" where
  "liveliness_key_expr Z e =
     (case ee_node e of
        None \<Rightarrow> Err NoNodeIdentity
      | Some n \<Rightarrow> try_key Z (join_with CHR ''/'' (liveliness_fields Z n e)))"

definition node_liveliness_fields :: "'z zenoh_ops \<Rightarrow> 'z node_entity \<Rightarrow> string list" where
  "node_liveliness_fields Z n =
     [admin_space, show_u64 (ne_domain_id n), z_show Z (ne_z_id n), show_u64 (ne_id n), show_u64 (ne_id n),
      ''NN'', empty_placeholder, namespace_field (ne_namespace n), mangle_name (ne_name n)]"

definition node_liveliness_key_expr :: "'z zenoh_ops \<Rightarrow> 'z node_entity \<Rightarrow> (string, key_error) res" where
  "node_liveliness_key_expr Z n = try_key Z (join_with CHR ''/'' (node_liveliness_fields Z n))"

section \<open>Parsing\<close>

definition need :: "string list \<Rightarrow> nat \<Rightarrow> entity_conversion_error \<Rightarrow> (string, entity_conversion_error) res" where
  "need fs i e = (case field_at fs i of Some s \<Rightarrow> Ok s | None \<Rightarrow> Err e)"

definition need_parsed :: "string list \<Rightarrow> nat \<Rightarrow> entity_conversion_error \<Rightarrow> (string \<Rightarrow> 'a option)
    \<Rightarrow> ('a, entity_conversion_error) res" where
  "need_parsed fs i e p =
     res_bind (need fs i e) (\<lambda>s. case p s of Some x \<Rightarrow> Ok x | None \<Rightarrow> Err ParsingError)"

definition unplaceholder :: "string \<Rightarrow> string" where
  "unplaceholder s = (if s = empty_placeholder then [] else demangle_name s)"

definition parse_type_info :: "string \<Rightarrow> string \<Rightarrow> type_info option" where
  "parse_type_info topic_type topic_hash =
     (if topic_type = empty_topic_type \<or> topic_hash = empty_topic_hash then None
      else Some \<lparr>ti_name = demangle_name topic_type,
                 ti_hash = unwrap_or (from_rihs_string topic_hash) \<lparr>th_version = 0, th_value = replicate 32 0\<rparr>\<rparr>)"

definition parse_endpoint :: "string list \<Rightarrow> u64 \<Rightarrow> 'z node_entity \<Rightarrow> endpoint_kind \<Rightarrow> ('z entity, entity_conversion_error) res" where
  "parse_endpoint fs entity_id node kind =
     res_bind (need fs 9 MissingTopicName)
       (\<lambda>topic. res_bind (need fs 10 MissingTopicType)
       (\<lambda>topic_type. res_bind (need fs 11 MissingTopicHash)
       (\<lambda>topic_hash. res_bind (need fs 12 MissingTopicQoS)
       (\<lambda>qos_str. res_bind (map_err QosDecodeError (qos_decode qos_str))
       (\<lambda>qos. Ok (EndpointEntity \<lparr>ee_id = entity_id, ee_node = Some node, ee_kind = kind,
                    ee_topic = demangle_name topic, ee_type_info = parse_type_info topic_type topic_hash,
                    ee_qos = qos\<rparr>))))))"

definition parse_liveliness :: "'z zenoh_ops \<Rightarrow> string \<Rightarrow> ('z entity, entity_conversion_error) res" where
  "parse_liveliness Z ke =
     (let fs = split_on CHR ''/'' ke
      in res_bind (need fs 0 MissingAdminSpace)
        (\<lambda>admin. if admin \<noteq> admin_space then Err MissingAdminSpace
         else res_bind (need_parsed fs 1 MissingDomainId parse_u64)
        (\<lambda>domain_id. res_bind (need_parsed fs 2 MissingZId (z_parse Z))
        (\<lambda>z_id. res_bind (need_parsed fs 3 MissingNodeId parse_u64)
        (\<lambda>node_id. res_bind (need_parsed fs 4 MissingEntityId parse_u64)
        (\<lambda>entity_id. res_bind (need_parsed fs 5 MissingEntityKind parse_entity_kind)
        (\<lambda>entity_kind. res_bind (need fs 6 MissingEnclave)
        (\<lambda>enclave. res_bind (need fs 7 MissingNamespace)
        (\<lambda>namespace. res_bind (need fs 8 MissingNodeName)
        (\<lambda>name. let node = \<lparr>ne_domain_id = domain_id, ne_z_id = z_id, ne_id = node_id,
                            ne_name = demangle_name name, ne_namespace = unplaceholder namespace,
                            ne_enclave = unplaceholder enclave\<rparr>
                in case entity_kind of
                     NodeKind \<Rightarrow> Ok (NodeEntity node)
                   | EndpointKind kind \<Rightarrow> parse_endpoint fs entity_id node kind))))))))))"

definition liveliness_pattern :: "u64 \<Rightarrow> string" where
  "liveliness_pattern domain_id = admin_space @ ''/'' @ show_u64 domain_id @ ''/**''"

section \<open>What a token carries\<close>

text \<open>
  The entity a token stands for: \<open>%\<close> in a name is a slash, the root namespace is empty,
  the enclave is dropped, a trailing slash of the topic is dropped, a type named like the
  placeholder is no type, a hash of a version other than 1 is unknown.
\<close>

definition wire_node :: "'z node_entity \<Rightarrow> 'z node_entity" where
  "wire_node n = n\<lparr>ne_name := demangle_name (ne_name n),
     ne_namespace := (if mangle_name (ne_namespace n) = empty_placeholder then [] else demangle_name (ne_namespace n)),
     ne_enclave := []\<rparr>"

definition wire_type_info :: "type_info option \<Rightarrow> type_info option" where
  "wire_type_info info = (case info of
     None \<Rightarrow> None
   | Some x \<Rightarrow> if mangle_name (ti_name x) = empty_topic_type then None
       else Some \<lparr>ti_name = demangle_name (ti_name x),
                  ti_hash = (if th_version (ti_hash x) = 1 then ti_hash x else \<lparr>th_version = 0, th_value = replicate 32 0\<rparr>)\<rparr>)"

definition wire_endpoint :: "'z endpoint_entity \<Rightarrow> 'z endpoint_entity" where
  "wire_endpoint e = e\<lparr>ee_node := map_option wire_node (ee_node e),
     ee_topic := demangle_name (unwrap_or (strip_suffix_char CHR ''/'' (ee_topic e)) (ee_topic e)),
     ee_type_info := wire_type_info (ee_type_info e),
     ee_qos := (ee_qos e)\<lparr>qos_history := wire_history (qos_history (ee_qos e))\<rparr>\<rparr>"

lemma mangle_no_slash: "CHR ''/'' \<notin> set (mangle_name s)"
  by (auto simp: mangle_name_def escape_char_def)

lemma demangle_mangle [simp]: "demangle_name (mangle_name s) = demangle_name s"
  by (simp add: demangle_name_def mangle_name_def escape_char_def)

lemma demangle_clean: "escape_char \<notin> set s \<Longrightarrow> demangle_name s = s"
  by (auto simp: demangle_name_def intro!: map_idI)

lemma unplaceholder_namespace:
  "unplaceholder (namespace_field ns) = (if mangle_name ns = empty_placeholder then [] else demangle_name ns)"
  by (auto simp: unplaceholder_def namespace_field_def demangle_name_def mangle_name_def)

lemma rihs_not_empty_hash: "to_rihs_string h \<noteq> empty_topic_hash"
  using to_rihs_starts [of h] by (auto simp: empty_topic_hash_def)


lemma namespace_field_no_slash: "CHR ''/'' \<notin> set (namespace_field ns)"
  by (simp add: namespace_field_def mangle_no_slash empty_placeholder_def)

lemma hash_ok: "length (th_value h) = 32 \<Longrightarrow>
   unwrap_or (from_rihs_string (to_rihs_string h)) \<lparr>th_version = 0, th_value = replicate 32 0\<rparr> =
   (if th_version h = 1 then h else \<lparr>th_version = 0, th_value = replicate 32 0\<rparr>)"
  using from_to_rihs [of h] by simp

lemma parse_type_fields:
  assumes "\<And>x. info = Some x \<Longrightarrow> length (th_value (ti_hash x)) = 32"
  shows "type_fields info = [a, b] \<Longrightarrow> parse_type_info a b = wire_type_info info"
  using assms by (auto simp: type_fields_def parse_type_info_def wire_type_info_def rihs_not_empty_hash hash_ok
      empty_topic_type_def split: option.splits)

context zenoh_lib
begin

lemma split_liveliness: "split_on CHR ''/'' (join_with CHR ''/'' (liveliness_fields Z n e)) = liveliness_fields Z n e"
  by (rule split_on_join)
     (auto simp: liveliness_fields_def type_fields_def show_u64_no_sep z_show_no_slash show_entity_kind_no_slash
        mangle_no_slash namespace_field_no_slash qos_encode_no_slash to_rihs_no_slash admin_space_def empty_placeholder_def
        empty_topic_type_def empty_topic_hash_def split: option.splits)

lemma split_node_liveliness:
  "split_on CHR ''/'' (join_with CHR ''/'' (node_liveliness_fields Z n)) = node_liveliness_fields Z n"
  by (rule split_on_join)
     (auto simp: node_liveliness_fields_def show_u64_no_sep z_show_no_slash mangle_no_slash namespace_field_no_slash
        admin_space_def empty_placeholder_def)

lemma parse_node_liveliness:
  "parse_liveliness Z (join_with CHR ''/'' (node_liveliness_fields Z n)) = Ok (NodeEntity (wire_node n))"
proof -
  have "unplaceholder empty_placeholder = []" by (simp add: unplaceholder_def)
  moreover have "parse_entity_kind ''NN'' = Some NodeKind" by (simp add: parse_entity_kind_def)
  ultimately show ?thesis
    unfolding parse_liveliness_def Let_def split_node_liveliness
    by (simp add: node_liveliness_fields_def need_def need_parsed_def field_at_def z_parse_show
        unplaceholder_namespace wire_node_def)
qed

lemma parse_endpoint_liveliness:
  assumes "ee_node e = Some n" and "\<And>x. ee_type_info e = Some x \<Longrightarrow> length (th_value (ti_hash x)) = 32"
  shows "parse_liveliness Z (join_with CHR ''/'' (liveliness_fields Z n e)) = Ok (EndpointEntity (wire_endpoint e))"
proof -
  obtain a b where ab: "type_fields (ee_type_info e) = [a, b]"
    by (cases "ee_type_info e") (simp_all add: type_fields_def)
  have "unplaceholder empty_placeholder = []" by (simp add: unplaceholder_def)
  with ab assms(1) parse_type_fields [OF assms(2) ab] show ?thesis
    unfolding parse_liveliness_def Let_def split_liveliness
    by (simp add: liveliness_fields_def need_def need_parsed_def field_at_def z_parse_show
        unplaceholder_namespace wire_node_def parse_endpoint_def wire_endpoint_def qos_wire_roundtrip)
qed

end

section \<open>Properties\<close>

text \<open>An instance of the library on which the contract can be evaluated: ids are numbers.\<close>

definition nat_zenoh :: "nat zenoh_ops" where
  "nat_zenoh = \<lparr>z_show = show_nat, z_parse = parse_digits 0, z_key_ok = (\<lambda>_. True)\<rparr>"

interpretation nz: zenoh_lib nat_zenoh
  by unfold_locales (simp_all add: nat_zenoh_def parse_digits_show_nat show_nat_no_sep)

definition clean_name :: "string \<Rightarrow> bool" where
  "clean_name s \<longleftrightarrow> escape_char \<notin> set s"

definition clean_node :: "'z node_entity \<Rightarrow> bool" where
  "clean_node n \<longleftrightarrow> clean_name (ne_name n) \<and> clean_name (ne_namespace n) \<and> ne_namespace n \<noteq> ''/'' \<and> ne_enclave n = []"

definition clean_endpoint :: "'z endpoint_entity \<Rightarrow> bool" where
  "clean_endpoint e \<longleftrightarrow>
     clean_name (ee_topic e) \<and> (ee_topic e = [] \<or> last (ee_topic e) \<noteq> CHR ''/'') \<and>
     (case ee_node e of None \<Rightarrow> True | Some n \<Rightarrow> clean_node n) \<and>
     (case ee_type_info e of None \<Rightarrow> True
      | Some x \<Rightarrow> clean_name (ti_name x) \<and> ti_name x \<noteq> empty_topic_type \<and> th_version (ti_hash x) = 1) \<and>
     qos_history (ee_qos e) \<noteq> KeepLast 0"

lemma mangle_clean_eq_placeholder: "clean_name s \<Longrightarrow> mangle_name s = empty_placeholder \<longleftrightarrow> s = ''/''"
  by (cases s) (auto simp: mangle_name_def empty_placeholder_def clean_name_def escape_char_def)

lemma wire_node_clean: "clean_node n \<Longrightarrow> wire_node n = n"
  by (simp add: clean_node_def wire_node_def mangle_clean_eq_placeholder demangle_clean clean_name_def)

lemma mangle_clean_type: "clean_name s \<Longrightarrow> s \<noteq> empty_topic_type \<Longrightarrow> mangle_name s \<noteq> empty_topic_type"
proof
  assume c: "clean_name s" and n: "s \<noteq> empty_topic_type" and e: "mangle_name s = empty_topic_type"
  have "escape_char \<notin> set (mangle_name s)" using e by (simp add: empty_topic_type_def escape_char_def)
  then have "mangle_name s = s" by (auto simp: mangle_name_def intro!: map_idI)
  with e n show False by simp
qed

lemma wire_endpoint_clean:
  assumes "clean_endpoint e"
  shows "wire_endpoint e = e"
proof -
  have "map_option wire_node (ee_node e) = ee_node e"
    using assms by (cases "ee_node e") (simp_all add: clean_endpoint_def wire_node_clean)
  moreover have "wire_type_info (ee_type_info e) = ee_type_info e"
    using assms mangle_clean_type
    by (cases "ee_type_info e") (auto simp: clean_endpoint_def wire_type_info_def demangle_clean clean_name_def)
  moreover have "unwrap_or (strip_suffix_char CHR ''/'' (ee_topic e)) (ee_topic e) = ee_topic e"
    using assms by (auto simp: clean_endpoint_def strip_suffix_char_def)
  ultimately show ?thesis
    using assms by (simp add: wire_endpoint_def clean_endpoint_def clean_name_def demangle_clean wire_history_def)
qed

text \<open>
  C21: discovery sees the endpoint that was announced. A liveliness token the formatter
  produces for an endpoint parses back to the endpoint in its wire form, for every node
  id, names, type and QoS; and for names without the escape character, a namespace other
  than the bare root, no trailing slash, an empty enclave, a version 1 hash and a non-zero
  depth the wire form is the endpoint itself.
\<close>

theorem liveliness_roundtrip:
  assumes "zenoh_lib Z" and "liveliness_key_expr Z e = Ok ke"
    and "\<And>x. ee_type_info e = Some x \<Longrightarrow> length (th_value (ti_hash x)) = 32"
  shows "parse_liveliness Z ke = Ok (EndpointEntity (wire_endpoint e)) \<and> (clean_endpoint e \<longrightarrow> wire_endpoint e = e)"
proof -
  obtain n where n: "ee_node e = Some n" and ke: "ke = join_with CHR ''/'' (liveliness_fields Z n e)"
    using assms(2) by (auto simp: liveliness_key_expr_def try_key_def split: option.splits if_splits)
  show ?thesis
    unfolding ke using zenoh_lib.parse_endpoint_liveliness [OF assms(1) n assms(3)] wire_endpoint_clean by blast
qed

definition sample_endpoint :: "nat endpoint_entity" where
  "sample_endpoint = \<lparr>ee_id = 7, ee_node = Some \<lparr>ne_domain_id = 0, ne_z_id = 12, ne_id = 3, ne_name = ''talker'',
       ne_namespace = ''/ns'', ne_enclave = []\<rparr>, ee_kind = Publisher, ee_topic = ''/ns/chatter'',
     ee_type_info = Some \<lparr>ti_name = ''std_msgs::msg::dds_::String_'', ti_hash = type_hash_zero\<rparr>, ee_qos = qos_default\<rparr>"

lemma liveliness_roundtrip_witness:
  "\<exists>ke. liveliness_key_expr nat_zenoh sample_endpoint = Ok ke \<and> parse_liveliness nat_zenoh ke = Ok (EndpointEntity sample_endpoint)"
proof -
  obtain ke where ke: "liveliness_key_expr nat_zenoh sample_endpoint = Ok ke"
    by (simp add: liveliness_key_expr_def sample_endpoint_def try_key_def nat_zenoh_def)
  have "clean_endpoint sample_endpoint"
    by (simp add: clean_endpoint_def sample_endpoint_def clean_name_def escape_char_def clean_node_def
        type_hash_zero_def empty_topic_type_def qos_default_def)
  moreover have "length (th_value (ti_hash x)) = 32" if "ee_type_info sample_endpoint = Some x" for x
    using that by (auto simp: sample_endpoint_def type_hash_zero_def)
  ultimately show ?thesis
    using liveliness_roundtrip [OF nz.zenoh_lib_axioms ke] ke by metis
qed

text \<open>
  The same for nodes.
\<close>

theorem node_liveliness_roundtrip:
  assumes "zenoh_lib Z" and "node_liveliness_key_expr Z n = Ok ke"
  shows "parse_liveliness Z ke = Ok (NodeEntity (wire_node n)) \<and> (clean_node n \<longrightarrow> wire_node n = n)"
proof -
  have ke: "ke = join_with CHR ''/'' (node_liveliness_fields Z n)"
    using assms(2) by (auto simp: node_liveliness_key_expr_def try_key_def split: if_splits)
  show ?thesis
    unfolding ke using zenoh_lib.parse_node_liveliness [OF assms(1)] wire_node_clean by blast
qed

lemma node_liveliness_roundtrip_witness:
  "\<exists>ke. node_liveliness_key_expr nat_zenoh (the (ee_node sample_endpoint)) = Ok ke \<and>
     parse_liveliness nat_zenoh ke = Ok (NodeEntity (the (ee_node sample_endpoint)))"
proof -
  obtain ke where ke: "node_liveliness_key_expr nat_zenoh (the (ee_node sample_endpoint)) = Ok ke"
    by (simp add: node_liveliness_key_expr_def try_key_def nat_zenoh_def)
  have "clean_node (the (ee_node sample_endpoint))"
    by (simp add: sample_endpoint_def clean_name_def escape_char_def clean_node_def)
  then show ?thesis
    using node_liveliness_roundtrip [OF nz.zenoh_lib_axioms ke] ke by metis
qed


definition strip_slashes :: "string \<Rightarrow> string" where
  "strip_slashes topic =
     (let s = unwrap_or (strip_prefix_char CHR ''/'' topic) topic in unwrap_or (strip_suffix_char CHR ''/'' s) s)"

definition slash_free_type :: "type_info option \<Rightarrow> bool" where
  "slash_free_type info =
     (case info of None \<Rightarrow> True | Some x \<Rightarrow> CHR ''/'' \<notin> set (ti_name x) \<and> CHR ''%'' \<notin> set (ti_name x))"

definition key_type_fields :: "type_info option \<Rightarrow> string \<times> string" where
  "key_type_fields info =
     (case info of None \<Rightarrow> (empty_topic_type, empty_topic_hash) | Some x \<Rightarrow> (ti_name x, to_rihs_string (ti_hash x)))"

lemma topic_key_split:
  assumes "slash_free_type info"
  shows "split_on CHR ''/'' (topic_key_string d topic info) =
         show_u64 d # split_on CHR ''/'' (strip_slashes topic) @ [fst (key_type_fields info), snd (key_type_fields info)]"
proof -
  have name: "demangle_name (ti_name x) = ti_name x" if "info = Some x" for x
    using assms that by (simp add: slash_free_type_def demangle_clean escape_char_def)
  have hash: "demangle_name (to_rihs_string h) = to_rihs_string h" for h
    by (simp add: demangle_clean escape_char_def to_rihs_no_slash)
  have "topic_key_string d topic info = show_u64 d @ CHR ''/'' # strip_slashes topic @ CHR ''/'' #
      fst (key_type_fields info) @ CHR ''/'' # snd (key_type_fields info)"
    by (cases info) (simp_all add: topic_key_string_def strip_slashes_def key_type_fields_def name hash Let_def)
  moreover have "CHR ''/'' \<notin> set (fst (key_type_fields info))" "CHR ''/'' \<notin> set (snd (key_type_fields info))"
    using assms by (simp_all add: key_type_fields_def slash_free_type_def to_rihs_no_slash empty_topic_type_def
        empty_topic_hash_def split: option.splits)
  ultimately show ?thesis
    by (simp add: split_on_append split_on_sep_free show_u64_no_sep)
qed

lemma key_type_fields_inj: "key_type_fields i = key_type_fields j \<Longrightarrow> i = j"
  using rihs_not_empty_hash to_rihs_inj
  by (cases i; cases j) (auto simp: key_type_fields_def intro: type_info.equality dest: sym)

lemma split_on_inj: "split_on c a = split_on c b \<Longrightarrow> a = b"
  by (metis join_split_on)

lemma show_u64_inj: "show_u64 a = show_u64 b \<Longrightarrow> a = b"
  by (metis parse_show_u64 option.inject)

text \<open>
  Endpoints meet on a topic key exactly when they agree on domain, topic and type.
  For type names without slash and escape character, two endpoints get the same topic key
  expression if and only if their nodes are in the same domain, their topics are equal up
  to one leading and one trailing slash, and their type name and hash are the same,
  whatever their nodes, ids, kinds and QoS.
\<close>

theorem topic_key_expr_injective:
  assumes "topic_key_expr Z e1 = Ok k1" and "topic_key_expr Z e2 = Ok k2"
    and "slash_free_type (ee_type_info e1)" and "slash_free_type (ee_type_info e2)"
  shows "k1 = k2 \<longleftrightarrow>
     ne_domain_id (the (ee_node e1)) = ne_domain_id (the (ee_node e2)) \<and>
     strip_slashes (ee_topic e1) = strip_slashes (ee_topic e2) \<and> ee_type_info e1 = ee_type_info e2"
proof -
  have k: "k1 = topic_key_string (ne_domain_id (the (ee_node e1))) (ee_topic e1) (ee_type_info e1)"
    "k2 = topic_key_string (ne_domain_id (the (ee_node e2))) (ee_topic e2) (ee_type_info e2)"
    using assms(1,2) by (auto simp: topic_key_expr_def try_key_def split: option.splits if_splits)
  have "k1 = k2 \<longleftrightarrow> split_on CHR ''/'' k1 = split_on CHR ''/'' k2"
    using split_on_inj by blast
  also have "\<dots> \<longleftrightarrow> ne_domain_id (the (ee_node e1)) = ne_domain_id (the (ee_node e2)) \<and>
     strip_slashes (ee_topic e1) = strip_slashes (ee_topic e2) \<and>
     key_type_fields (ee_type_info e1) = key_type_fields (ee_type_info e2)"
    unfolding k topic_key_split [OF assms(3)] topic_key_split [OF assms(4)]
    by (auto simp: prod_eq_iff dest: show_u64_inj split_on_inj)
  also have "key_type_fields (ee_type_info e1) = key_type_fields (ee_type_info e2) \<longleftrightarrow> ee_type_info e1 = ee_type_info e2"
    using key_type_fields_inj by auto
  finally show ?thesis .
qed

lemma topic_key_expr_injective_witness:
  "topic_key_expr nat_zenoh sample_endpoint = topic_key_expr nat_zenoh (sample_endpoint\<lparr>ee_kind := Subscription, ee_id := 9\<rparr>)"
proof -
  let ?e2 = "sample_endpoint\<lparr>ee_kind := Subscription, ee_id := 9\<rparr>"
  obtain k1 k2 where k: "topic_key_expr nat_zenoh sample_endpoint = Ok k1" "topic_key_expr nat_zenoh ?e2 = Ok k2"
    by (simp add: topic_key_expr_def try_key_def nat_zenoh_def sample_endpoint_def)
  have "slash_free_type (ee_type_info sample_endpoint)"
    by (simp add: slash_free_type_def sample_endpoint_def)
  with topic_key_expr_injective [OF k] have "k1 = k2" by simp
  with k show ?thesis by simp
qed

end
