(* ===== verification/Bounded_Queue.thy ===== *)
theory Bounded_Queue
  imports Hiroz_Prelude "HOL-Library.Sublist"
begin

text \<open>
  \<open>crates/hiroz/src/queue.rs\<close>: the bounded queue between a subscription and its reader.
  Every method takes the lock once, so a run of the queue is a sequence of method calls.
  A blocking receive that finds the queue empty waits: it is enabled only when an item is
  there. Its contract towards clients is the locale \<open>depth_queue\<close>.
\<close>

section \<open>The queue\<close>

record 'a bounded_queue =
  bq_data :: "'a list"
  bq_capacity :: nat

definition bq_new :: "nat \<Rightarrow> 'a bounded_queue" where
  "bq_new capacity = \<lparr>bq_data = [], bq_capacity = capacity\<rparr>"

definition bq_push :: "'a bounded_queue \<Rightarrow> 'a \<Rightarrow> bool \<times> 'a bounded_queue" where
  "bq_push q item =
     (let (dropped, d) = (if bq_capacity q \<le> length (bq_data q) then (True, tl (bq_data q)) else (False, bq_data q))
      in (dropped, q\<lparr>bq_data := d @ [item]\<rparr>))"

definition bq_try_recv :: "'a bounded_queue \<Rightarrow> 'a option \<times> 'a bounded_queue" where
  "bq_try_recv q =
     (case bq_data q of [] \<Rightarrow> (None, q) | x # xs \<Rightarrow> (Some x, q\<lparr>bq_data := xs\<rparr>))"

text \<open>\<open>recv\<close> and \<open>recv_async\<close>: no result while the queue is empty.\<close>

definition bq_recv :: "'a bounded_queue \<Rightarrow> ('a \<times> 'a bounded_queue) option" where
  "bq_recv q = (case bq_try_recv q of (Some x, q') \<Rightarrow> Some (x, q') | (None, _) \<Rightarrow> None)"

text \<open>
  \<open>recv_timeout\<close>: the wait on an empty queue ends with the timeout flag and the queue as
  other threads left it.
\<close>

definition bq_recv_timeout :: "'a bounded_queue \<Rightarrow> bool \<times> 'a bounded_queue \<Rightarrow> 'a option \<times> 'a bounded_queue" where
  "bq_recv_timeout q wait_result =
     (if bq_data q = []
      then (let (timed_out, q') = wait_result
            in if timed_out \<or> bq_data q' = [] then (None, q') else bq_try_recv q')
      else bq_try_recv q)"

definition bq_is_empty :: "'a bounded_queue \<Rightarrow> bool" where
  "bq_is_empty q \<longleftrightarrow> bq_data q = []"

definition bq_len :: "'a bounded_queue \<Rightarrow> nat" where
  "bq_len q = length (bq_data q)"

section \<open>Runs\<close>

datatype 'a queue_op = Push 'a | TryRecv

text \<open>What a run has seen: items pushed and received in order, and the number reported dropped.\<close>

record 'a queue_log =
  ql_pushed :: "'a list"
  ql_received :: "'a list"
  ql_dropped :: nat

definition log_empty :: "'a queue_log" where
  "log_empty = \<lparr>ql_pushed = [], ql_received = [], ql_dropped = 0\<rparr>"

fun queue_run :: "('q \<Rightarrow> 'a \<Rightarrow> bool \<times> 'q) \<Rightarrow> ('q \<Rightarrow> 'a option \<times> 'q) \<Rightarrow> 'q \<Rightarrow> 'a queue_log \<Rightarrow> 'a queue_op list \<Rightarrow> 'a queue_log \<times> 'q" where
  "queue_run push try_recv q l [] = (l, q)"
| "queue_run push try_recv q l (Push x # ops) =
     (let (dropped, q') = push q x
      in queue_run push try_recv q' (l\<lparr>ql_pushed := ql_pushed l @ [x],
           ql_dropped := ql_dropped l + (if dropped then 1 else 0)\<rparr>) ops)"
| "queue_run push try_recv q l (TryRecv # ops) =
     (let (r, q') = try_recv q
      in queue_run push try_recv q' (case r of None \<Rightarrow> l | Some x \<Rightarrow> l\<lparr>ql_received := ql_received l @ [x]\<rparr>) ops)"

text \<open>
  The contract: \<open>contents\<close> are the queued items, oldest first, at most \<open>cap\<close> of them; a
  push to a full queue gives up the oldest and says so.
\<close>

locale depth_queue =
  fixes push :: "'q \<Rightarrow> 'a \<Rightarrow> bool \<times> 'q"
    and try_recv :: "'q \<Rightarrow> 'a option \<times> 'q"
    and contents :: "'q \<Rightarrow> 'a list"
    and cap :: nat
    and invar :: "'q \<Rightarrow> bool"
  assumes cap_pos: "0 < cap"
    and push_fits: "invar q \<Longrightarrow> length (contents q) < cap \<Longrightarrow> push q x = (d, q') \<Longrightarrow> \<not> d \<and> contents q' = contents q @ [x]"
    and push_full: "invar q \<Longrightarrow> length (contents q) = cap \<Longrightarrow> push q x = (d, q') \<Longrightarrow> d \<and> contents q' = tl (contents q) @ [x]"
    and recv_empty: "invar q \<Longrightarrow> contents q = [] \<Longrightarrow> try_recv q = (r, q') \<Longrightarrow> r = None \<and> contents q' = []"
    and recv_item: "invar q \<Longrightarrow> contents q \<noteq> [] \<Longrightarrow> try_recv q = (r, q') \<Longrightarrow> r = Some (hd (contents q)) \<and> contents q' = tl (contents q)"
    and invar_push: "invar q \<Longrightarrow> push q x = (d, q') \<Longrightarrow> invar q'"
    and invar_recv: "invar q \<Longrightarrow> try_recv q = (r, q') \<Longrightarrow> invar q'"
    and invar_bound: "invar q \<Longrightarrow> length (contents q) \<le> cap"
begin

text \<open>What every run keeps: received and queued items are pushed items in order, and the rest was dropped.\<close>

definition log_ok :: "'q \<Rightarrow> 'a queue_log \<Rightarrow> bool" where
  "log_ok q l \<longleftrightarrow> invar q \<and> subseq (ql_received l @ contents q) (ql_pushed l) \<and>
     length (ql_pushed l) = length (ql_received l) + length (contents q) + ql_dropped l \<and>
     (\<exists>old. ql_pushed l = old @ contents q)"

lemma push_log_ok:
  assumes "log_ok q l" and p: "push q x = (d, q')"
  shows "log_ok q' (l\<lparr>ql_pushed := ql_pushed l @ [x], ql_dropped := ql_dropped l + (if d then 1 else 0)\<rparr>)"
proof -
  from assms(1) have q: "invar q" and sub: "subseq (ql_received l @ contents q) (ql_pushed l)"
    and len: "length (ql_pushed l) = length (ql_received l) + length (contents q) + ql_dropped l"
    by (simp_all add: log_ok_def)
  obtain old where old: "ql_pushed l = old @ contents q" using assms(1) by (auto simp: log_ok_def)
  show ?thesis
  proof (cases "length (contents q) < cap")
    case True
    with push_fits [OF q _ p] have "\<not> d" "contents q' = contents q @ [x]" by auto
    with invar_push [OF q p] sub len old show ?thesis
      by (auto simp: log_ok_def simp flip: append_assoc intro: list_emb_append_mono)
  next
    case False
    then have full: "length (contents q) = cap" using invar_bound [OF q] by simp
    with push_full [OF q _ p] have c: "d" "contents q' = tl (contents q) @ [x]" by auto
    from full cap_pos obtain y ys where y: "contents q = y # ys" by (cases "contents q") auto
    have "subseq (ql_received l @ ys) (ql_received l @ contents q)"
      unfolding y by (intro list_emb_append_mono) auto
    then have "subseq (ql_received l @ ys) (ql_pushed l)" using sub by (rule subseq_order.order_trans)
    with c y len old invar_push [OF q p] show ?thesis
      by (auto simp: log_ok_def simp flip: append_assoc intro: list_emb_append_mono)
  qed
qed

lemma recv_log_ok:
  assumes "log_ok q l" and r: "try_recv q = (r, q')"
  shows "log_ok q' (case r of None \<Rightarrow> l | Some x \<Rightarrow> l\<lparr>ql_received := ql_received l @ [x]\<rparr>)"
proof (cases "contents q")
  case Nil
  with assms recv_empty [OF _ Nil r] invar_recv [OF _ r] show ?thesis by (auto simp: log_ok_def)
next
  case (Cons y ys)
  with assms recv_item [OF _ _ r] invar_recv [OF _ r] show ?thesis
    by (auto simp: log_ok_def)
qed

lemma run_log_ok: "log_ok q l \<Longrightarrow> queue_run push try_recv q l ops = (l', q') \<Longrightarrow> log_ok q' l'"
proof (induction ops arbitrary: q l)
  case Nil
  then show ?case by simp
next
  case (Cons op ops)
  show ?case
  proof (cases op)
    case (Push x)
    obtain d q1 where p: "push q x = (d, q1)" by force
    from Cons.IH [OF push_log_ok [OF Cons.prems(1) p]] Cons.prems(2) Push p show ?thesis by simp
  next
    case TryRecv
    obtain r q1 where t: "try_recv q = (r, q1)" by force
    from Cons.IH [OF recv_log_ok [OF Cons.prems(1) t]] Cons.prems(2) TryRecv t show ?thesis by simp
  qed
qed

lemma run_correct:
  assumes "invar q" and "contents q = []" and "queue_run push try_recv q log_empty ops = (l, q')"
  shows "subseq (ql_received l @ contents q') (ql_pushed l)"
    and "length (ql_pushed l) = length (ql_received l) + length (contents q') + ql_dropped l"
    and "\<exists>old. ql_pushed l = old @ contents q'" and "length (contents q') \<le> cap"
  using run_log_ok [OF _ assms(3)] assms(1,2) invar_bound by (auto simp: log_ok_def log_empty_def)

end

lemma depth_queue_bq:
  assumes "0 < c"
  shows "depth_queue bq_push bq_try_recv bq_data c (\<lambda>q. bq_capacity q = c \<and> length (bq_data q) \<le> c)"
  using assms
  by unfold_locales (auto simp: bq_push_def bq_try_recv_def Let_def split: if_splits list.splits)

interpretation bq1: depth_queue bq_push bq_try_recv bq_data "Suc n" "\<lambda>q. bq_capacity q = Suc n \<and> length (bq_data q) \<le> Suc n"
  for n by (rule depth_queue_bq) simp

section \<open>Properties\<close>

text \<open>
  C22: depth semantics of the subscription queue. In any run of a queue of positive
  capacity the items received, followed by the items still queued, are pushed items in
  the order of pushing, the queued items are the latest pushed and never more than the
  capacity, and every item pushed was received, is queued, or was reported dropped.
\<close>

theorem queue_run_correct:
  assumes "0 < capacity" and "queue_run bq_push bq_try_recv (bq_new capacity) log_empty ops = (l, q)"
  shows "subseq (ql_received l @ bq_data q) (ql_pushed l) \<and>
         (\<exists>old. ql_pushed l = old @ bq_data q) \<and> bq_len q \<le> capacity \<and>
         length (ql_pushed l) = length (ql_received l) + bq_len q + ql_dropped l"
proof -
  from assms(1) obtain n where "capacity = Suc n" by (cases capacity) auto
  with bq1.run_correct [of "bq_new capacity" n ops l q] assms(2) show ?thesis
    by (simp add: bq_new_def bq_len_def)
qed

lemma queue_run_correct_witness:
  "queue_run bq_push bq_try_recv (bq_new 2) log_empty [Push ''a'', Push ''b'', Push ''c'', TryRecv] =
     (\<lparr>ql_pushed = [''a'', ''b'', ''c''], ql_received = [''b''], ql_dropped = 1\<rparr>, \<lparr>bq_data = [''c''], bq_capacity = 2\<rparr>) \<and>
   subseq ([''b''] @ [''c'']) [''a'', ''b'', ''c'']"
proof -
  have r: "queue_run bq_push bq_try_recv (bq_new 2) log_empty [Push ''a'', Push ''b'', Push ''c'', TryRecv] =
     (\<lparr>ql_pushed = [''a'', ''b'', ''c''], ql_received = [''b''], ql_dropped = 1\<rparr>, \<lparr>bq_data = [''c''], bq_capacity = 2\<rparr>)"
    by (simp add: bq_push_def bq_try_recv_def bq_new_def log_empty_def)
  have "0 < (2 :: nat)" by simp
  from queue_run_correct [OF this r] r show ?thesis by simp
qed

text \<open>
  A capacity of zero behaves like a capacity of one that always reports a drop: the
  queue holds the last item pushed, and a push reports a dropped item even when the queue
  was empty.
\<close>

theorem queue_capacity_zero:
  assumes "bq_capacity q = 0"
  shows "bq_push q x = (True, q\<lparr>bq_data := tl (bq_data q) @ [x]\<rparr>) \<and>
         (bq_data q = [] \<longrightarrow> bq_data (snd (bq_push q x)) = [x])"
  using assms by (simp add: bq_push_def)

lemma queue_capacity_zero_witness: "bq_push (bq_new 0) ''a'' = (True, \<lparr>bq_data = [''a''], bq_capacity = 0\<rparr>)"
  using queue_capacity_zero [of "bq_new 0" "''a''"] by (simp add: bq_new_def)

end
