(* ===== verification/Message_Cache.thy ===== *)
theory Message_Cache
  imports Hiroz_Prelude
begin

text \<open>
  \<open>crates/hiroz/src/cache.rs\<close>: the time-indexed message cache. A \<open>BTreeMap\<close> is the list
  of its entries in key order; \<open>SystemTime\<close> is an integer number of nanoseconds. The
  contract of the map operations is the locale \<open>ordered_map\<close>.
\<close>

section \<open>The ordered map\<close>

fun bt_insert :: "'k::linorder \<Rightarrow> 'v \<Rightarrow> ('k \<times> 'v) list \<Rightarrow> ('k \<times> 'v) list" where
  "bt_insert k v [] = [(k, v)]"
| "bt_insert k v ((k', v') # es) =
     (if k < k' then (k, v) # (k', v') # es
      else if k = k' then (k, v) # es
      else (k', v') # bt_insert k v es)"

definition bt_pop_first :: "('k \<times> 'v) list \<Rightarrow> ('k \<times> 'v) list" where
  "bt_pop_first es = tl es"

definition bt_range :: "('k \<Rightarrow> bool) \<Rightarrow> ('k \<times> 'v) list \<Rightarrow> ('k \<times> 'v) list" where
  "bt_range P es = filter (\<lambda>(k, v). P k) es"

definition first_entry :: "('k \<times> 'v) list \<Rightarrow> ('k \<times> 'v) option" where
  "first_entry es = (case es of [] \<Rightarrow> None | e # _ \<Rightarrow> Some e)"

definition last_entry :: "('k \<times> 'v) list \<Rightarrow> ('k \<times> 'v) option" where
  "last_entry es = (if es = [] then None else Some (last es))"

abbreviation bt_ordered :: "('k::linorder \<times> 'v) list \<Rightarrow> bool" where
  "bt_ordered es \<equiv> sorted_wrt (<) (map fst es)"

locale ordered_map =
  fixes insert_op :: "'k::linorder \<Rightarrow> 'v \<Rightarrow> 'm \<Rightarrow> 'm"
    and pop_op :: "'m \<Rightarrow> 'm"
    and entries :: "'m \<Rightarrow> ('k \<times> 'v) list"
    and invar :: "'m \<Rightarrow> bool"
  assumes ordered: "invar m \<Longrightarrow> sorted_wrt (<) (map fst (entries m))"
    and insert_entries: "invar m \<Longrightarrow> map_of (entries (insert_op k v m)) = (map_of (entries m))(k \<mapsto> v)"
    and pop_entries: "invar m \<Longrightarrow> entries (pop_op m) = tl (entries m)"
    and invar_insert: "invar m \<Longrightarrow> invar (insert_op k v m)"
    and invar_pop: "invar m \<Longrightarrow> invar (pop_op m)"
begin

lemma distinct_keys: "invar m \<Longrightarrow> distinct (map fst (entries m))"
  using ordered strict_sorted_iff by blast

lemma entry_iff: "invar m \<Longrightarrow> (k, v) \<in> set (entries m) \<longleftrightarrow> map_of (entries m) k = Some v"
  using distinct_keys [of m] by (meson map_of_SomeD map_of_is_SomeI)

lemma keys_insert: "invar m \<Longrightarrow> fst ` set (entries (insert_op k v m)) = insert k (fst ` set (entries m))"
  using insert_entries [of m k v] by (metis dom_fun_upd dom_map_of_conv_image_fst option.distinct(1))

text \<open>Popping until at most \<open>c\<close> entries are left keeps the \<open>c\<close> greatest keys.\<close>

lemma pops_entries: "invar m \<Longrightarrow> entries ((pop_op ^^ i) m) = drop i (entries m) \<and> invar ((pop_op ^^ i) m)"
  by (induction i) (auto simp: pop_entries invar_pop drop_Suc tl_drop)

lemma popped_smaller:
  assumes "invar m" and "k \<in> fst ` set (take i (entries m))" and "k' \<in> fst ` set (drop i (entries m))"
  shows "k < k'"
proof -
  have "sorted_wrt (<) (map fst (take i (entries m)) @ map fst (drop i (entries m)))"
    using ordered [OF assms(1)] by (simp flip: map_append)
  with assms(2,3) show ?thesis by (auto simp: sorted_wrt_append)
qed

end

lemma map_of_bt_insert: "map_of (bt_insert k v es) = (map_of es)(k \<mapsto> v)"
  by (induction es) auto

lemma set_bt_insert: "fst ` set (bt_insert k v es) = insert k (fst ` set es)"
  using map_of_bt_insert [of k v es]
  by (metis dom_fun_upd dom_map_of_conv_image_fst option.distinct(1))

lemma bt_insert_ordered: "bt_ordered es \<Longrightarrow> bt_ordered (bt_insert k v es)"
proof (induction es)
  case (Cons e es)
  obtain k' v' where e: "e = (k', v')" by force
  have "\<forall>x \<in> fst ` set (bt_insert k v es). k' < x" if "\<not> k < k'" "k \<noteq> k'"
    using Cons.prems that unfolding set_bt_insert by (auto simp: e)
  with Cons show ?case by (fastforce simp: e)
qed simp

interpretation btm: ordered_map bt_insert bt_pop_first "\<lambda>es. es" bt_ordered
proof
  show "bt_ordered (bt_pop_first es)" if "bt_ordered es" for es :: "('a \<times> 'b) list"
    using that by (cases es) (simp_all add: bt_pop_first_def)
qed (simp_all add: map_of_bt_insert bt_insert_ordered bt_pop_first_def)

section \<open>The cache\<close>

type_synonym system_time = int

record 'm cache_inner =
  ci_entries :: "(system_time \<times> 'm) list"
  ci_capacity :: nat
  ci_warned_no_ts :: bool

definition ci_new :: "nat \<Rightarrow> 'm cache_inner" where
  "ci_new capacity = \<lparr>ci_entries = [], ci_capacity = capacity, ci_warned_no_ts = False\<rparr>"

function evict :: "nat \<Rightarrow> (system_time \<times> 'm) list \<Rightarrow> (system_time \<times> 'm) list" where
  "evict capacity es = (if capacity < length es then evict capacity (bt_pop_first es) else es)"
  by auto
termination
  by (relation "measure (\<lambda>(c, es). length es)") (auto simp: bt_pop_first_def)

declare evict.simps [simp del]

definition ci_insert :: "'m cache_inner \<Rightarrow> system_time \<Rightarrow> 'm \<Rightarrow> 'm cache_inner" where
  "ci_insert c stamp msg = c\<lparr>ci_entries := evict (ci_capacity c) (bt_insert stamp msg (ci_entries c))\<rparr>"

definition get_interval :: "'m cache_inner \<Rightarrow> system_time \<Rightarrow> system_time \<Rightarrow> 'm list" where
  "get_interval c t_start t_end =
     (if t_end < t_start then [] else map snd (bt_range (\<lambda>k. t_start \<le> k \<and> k \<le> t_end) (ci_entries c)))"

definition get_before :: "'m cache_inner \<Rightarrow> system_time \<Rightarrow> 'm option" where
  "get_before c t = map_option snd (last_entry (bt_range (\<lambda>k. k \<le> t) (ci_entries c)))"

definition get_after :: "'m cache_inner \<Rightarrow> system_time \<Rightarrow> 'm option" where
  "get_after c t = map_option snd (first_entry (bt_range (\<lambda>k. t \<le> k) (ci_entries c)))"

text \<open>\<open>a.duration_since(b).unwrap_or_default()\<close>.\<close>

definition duration_since :: "system_time \<Rightarrow> system_time \<Rightarrow> int" where
  "duration_since a b = (if b \<le> a then a - b else 0)"

definition get_nearest :: "'m cache_inner \<Rightarrow> system_time \<Rightarrow> 'm option" where
  "get_nearest c t =
     (if ci_entries c = [] then None
      else let before = last_entry (bt_range (\<lambda>k. k \<le> t) (ci_entries c));
               after = first_entry (bt_range (\<lambda>k. t \<le> k) (ci_entries c))
           in case (before, after) of
                (None, Some (_, v)) \<Rightarrow> Some v
              | (Some (_, v), None) \<Rightarrow> Some v
              | (Some (kb, vb), Some (ka, va)) \<Rightarrow>
                  if duration_since ka t < duration_since t kb then Some va else Some vb
              | (None, None) \<Rightarrow> None)"

definition oldest_stamp :: "'m cache_inner \<Rightarrow> system_time option" where
  "oldest_stamp c = map_option fst (first_entry (ci_entries c))"

definition newest_stamp :: "'m cache_inner \<Rightarrow> system_time option" where
  "newest_stamp c = map_option fst (last_entry (ci_entries c))"

definition ci_len :: "'m cache_inner \<Rightarrow> nat" where
  "ci_len c = length (ci_entries c)"

definition ci_clear :: "'m cache_inner \<Rightarrow> 'm cache_inner" where
  "ci_clear c = c\<lparr>ci_entries := []\<rparr>"

text \<open>
  The subscriber callbacks of the two builders: the payload, already given to the
  deserializer, the transport timestamp if the sample has one, and the clock.
\<close>

definition on_sample_zenoh_stamp :: "'m cache_inner \<Rightarrow> ('m, 'e) res \<Rightarrow> system_time option \<Rightarrow> system_time \<Rightarrow> 'm cache_inner" where
  "on_sample_zenoh_stamp c decoded timestamp now =
     (case decoded of
        Ok msg \<Rightarrow>
          (case timestamp of
             Some ts \<Rightarrow> ci_insert c ts msg
           | None \<Rightarrow> ci_insert (if ci_warned_no_ts c then c else c\<lparr>ci_warned_no_ts := True\<rparr>) now msg)
      | _ \<Rightarrow> c)"

definition on_sample_extractor :: "('m \<Rightarrow> system_time) \<Rightarrow> 'm cache_inner \<Rightarrow> ('m, 'e) res \<Rightarrow> 'm cache_inner" where
  "on_sample_extractor extractor c decoded =
     (case decoded of Ok msg \<Rightarrow> ci_insert c (extractor msg) msg | _ \<Rightarrow> c)"

section \<open>Lemmas\<close>

definition cache_ok :: "'m cache_inner \<Rightarrow> bool" where
  "cache_ok c \<longleftrightarrow> bt_ordered (ci_entries c) \<and> length (ci_entries c) \<le> ci_capacity c"

lemma evict_pops: "evict c es = (bt_pop_first ^^ (length es - c)) es"
proof (induction c es rule: evict.induct)
  case (1 c es)
  show ?case
  proof (cases "c < length es")
    case True
    then have "length es - c = Suc (length (bt_pop_first es) - c)" by (simp add: bt_pop_first_def)
    with 1 True show ?thesis
      by (subst evict.simps) (simp add: funpow_swap1)
  next
    case False
    then show ?thesis by (subst evict.simps) simp
  qed
qed

lemma evict_drop: "bt_ordered es \<Longrightarrow> evict c es = drop (length es - c) es"
  using btm.pops_entries [of es "length es - c"] by (simp add: evict_pops)

lemma ordered_drop: "bt_ordered es \<Longrightarrow> bt_ordered (drop n es)"
  by (simp add: drop_map [symmetric] sorted_wrt_drop)

lemma ci_insert_ok: "cache_ok c \<Longrightarrow> cache_ok (ci_insert c t m)"
  using bt_insert_ordered [of "ci_entries c" t m]
  by (simp add: cache_ok_def ci_insert_def evict_drop ordered_drop)

lemma last_ordered:
  assumes "bt_ordered es" and "es \<noteq> []" and "e \<in> set es"
  shows "fst e \<le> fst (last es)"
  using assms by (cases es rule: rev_cases) (auto simp: sorted_wrt_append)

lemma first_ordered:
  assumes "bt_ordered (e' # es)" and "e \<in> set (e' # es)"
  shows "fst e' \<le> fst e"
  using assms by auto

lemma range_ordered: "bt_ordered es \<Longrightarrow> bt_ordered (bt_range P es)"
  by (induction es) (auto simp: bt_range_def)

lemma last_entry_range:
  assumes "bt_ordered es" and "last_entry (bt_range P es) = Some (k, v)"
  shows "(k, v) \<in> set es" and "P k" and "\<And>k'. k' \<in> fst ` set es \<Longrightarrow> P k' \<Longrightarrow> k' \<le> k"
proof -
  let ?r = "bt_range P es"
  have r: "?r \<noteq> []" "last ?r = (k, v)" using assms(2) by (auto simp: last_entry_def split: if_splits)
  then have "(k, v) \<in> set ?r" by (metis last_in_set)
  then show "(k, v) \<in> set es" "P k" by (auto simp: bt_range_def)
  show "k' \<le> k" if k': "k' \<in> fst ` set es" "P k'" for k'
  proof -
    from k' obtain v' where "(k', v') \<in> set ?r" by (auto simp: bt_range_def)
    from last_ordered [OF range_ordered [OF assms(1)] r(1) this] r(2) show ?thesis by simp
  qed
qed

lemma first_entry_range:
  assumes "bt_ordered es" and "first_entry (bt_range P es) = Some (k, v)"
  shows "(k, v) \<in> set es" and "P k" and "\<And>k'. k' \<in> fst ` set es \<Longrightarrow> P k' \<Longrightarrow> k \<le> k'"
proof -
  obtain rest where r: "bt_range P es = (k, v) # rest"
    using assms(2) by (auto simp: first_entry_def split: list.splits)
  then have "(k, v) \<in> set (bt_range P es)" by simp
  then show "(k, v) \<in> set es" "P k" by (auto simp: bt_range_def)
  show "k \<le> k'" if k': "k' \<in> fst ` set es" "P k'" for k'
  proof -
    from k' obtain v' where "(k', v') \<in> set ((k, v) # rest)" unfolding r [symmetric] by (auto simp: bt_range_def)
    from first_ordered [OF _ this] range_ordered [OF assms(1), of P] r show ?thesis by simp
  qed
qed

lemma bt_range_empty: "bt_range P es = [] \<longleftrightarrow> (\<forall>k \<in> fst ` set es. \<not> P k)"
  by (force simp: bt_range_def filter_empty_conv)

lemma entry_None: "last_entry es = None \<longleftrightarrow> es = []" "first_entry es = None \<longleftrightarrow> es = []"
  by (simp_all add: last_entry_def first_entry_def split: list.splits)

lemma range_empty:
  "last_entry (bt_range P es) = None \<longleftrightarrow> (\<forall>k \<in> fst ` set es. \<not> P k)"
  "first_entry (bt_range P es) = None \<longleftrightarrow> (\<forall>k \<in> fst ` set es. \<not> P k)"
  by (simp_all only: entry_None bt_range_empty)

section \<open>Properties\<close>

text \<open>
  The cache is a sliding window. Inserting into a well-formed cache keeps it ordered
  and within its capacity; the newest stamps of the old cache and the new message stay,
  and every stamp evicted is older than every stamp kept.
\<close>

theorem cache_insert_window:
  assumes "cache_ok c"
  shows "cache_ok (ci_insert c stamp msg) \<and>
         (\<exists>evicted. bt_insert stamp msg (ci_entries c) = evicted @ ci_entries (ci_insert c stamp msg) \<and>
            (evicted \<noteq> [] \<longrightarrow> ci_len (ci_insert c stamp msg) = ci_capacity c) \<and>
            (\<forall>k \<in> fst ` set evicted. \<forall>k' \<in> fst ` set (ci_entries (ci_insert c stamp msg)). k < k')) \<and>
         (\<forall>k v. map_of (bt_insert stamp msg (ci_entries c)) k =
                (if k = stamp then Some msg else map_of (ci_entries c) k))"
proof -
  let ?es = "bt_insert stamp msg (ci_entries c)"
  let ?n = "length ?es - ci_capacity c"
  have o: "bt_ordered ?es" using assms by (simp add: cache_ok_def bt_insert_ordered)
  then have kept: "ci_entries (ci_insert c stamp msg) = drop ?n ?es" by (simp add: ci_insert_def evict_drop)
  have "?es = take ?n ?es @ ci_entries (ci_insert c stamp msg)" by (simp add: kept)
  moreover have "k < k'" if "k \<in> fst ` set (take ?n ?es)" "k' \<in> fst ` set (ci_entries (ci_insert c stamp msg))" for k k'
    using btm.popped_smaller [OF o] that unfolding kept by blast
  moreover have "take ?n ?es \<noteq> [] \<longrightarrow> ci_len (ci_insert c stamp msg) = ci_capacity c"
    by (auto simp: ci_len_def kept)
  ultimately show ?thesis
    using ci_insert_ok [OF assms] by (auto simp: map_of_bt_insert)
qed

definition two_entries :: "string cache_inner" where
  "two_entries = \<lparr>ci_entries = [(10, ''a''), (20, ''b'')], ci_capacity = 2, ci_warned_no_ts = False\<rparr>"

lemma two_entries_ok: "cache_ok two_entries"
  by (simp add: cache_ok_def two_entries_def)

lemma cache_insert_window_witness: "cache_ok (ci_insert two_entries 15 ''c'')"
  using cache_insert_window [OF two_entries_ok] by blast

text \<open>
  The time queries. In a well-formed cache \<open>get_before\<close> and \<open>get_after\<close> return the
  message with the greatest stamp not after, the least not before, and \<open>None\<close> exactly if
  there is none; \<open>get_interval\<close> returns the messages stamped inside the closed interval
  in order of their stamps.
\<close>

theorem cache_queries_correct:
  assumes "cache_ok c"
  shows "(\<forall>m. get_before c t = Some m \<longrightarrow> (\<exists>k. (k, m) \<in> set (ci_entries c) \<and> k \<le> t \<and>
            (\<forall>k' \<in> fst ` set (ci_entries c). k' \<le> t \<longrightarrow> k' \<le> k))) \<and>
         (get_before c t = None \<longleftrightarrow> (\<forall>k \<in> fst ` set (ci_entries c). t < k)) \<and>
         (\<forall>m. get_after c t = Some m \<longrightarrow> (\<exists>k. (k, m) \<in> set (ci_entries c) \<and> t \<le> k \<and>
            (\<forall>k' \<in> fst ` set (ci_entries c). t \<le> k' \<longrightarrow> k \<le> k'))) \<and>
         (get_after c t = None \<longleftrightarrow> (\<forall>k \<in> fst ` set (ci_entries c). k < t)) \<and>
         (\<exists>es. get_interval c t u = map snd es \<and> bt_ordered es \<and>
               set es = {(k, m). (k, m) \<in> set (ci_entries c) \<and> t \<le> k \<and> k \<le> u})"
proof (intro conjI allI impI)
  have o: "bt_ordered (ci_entries c)" using assms by (simp add: cache_ok_def)
  show "\<exists>k. (k, m) \<in> set (ci_entries c) \<and> k \<le> t \<and> (\<forall>k' \<in> fst ` set (ci_entries c). k' \<le> t \<longrightarrow> k' \<le> k)"
    if "get_before c t = Some m" for m
    using that last_entry_range [OF o] by (fastforce simp: get_before_def)
  show "\<exists>k. (k, m) \<in> set (ci_entries c) \<and> t \<le> k \<and> (\<forall>k' \<in> fst ` set (ci_entries c). t \<le> k' \<longrightarrow> k \<le> k')"
    if "get_after c t = Some m" for m
    using that first_entry_range [OF o] by (fastforce simp: get_after_def)
  show "get_before c t = None \<longleftrightarrow> (\<forall>k \<in> fst ` set (ci_entries c). t < k)"
    by (auto simp: get_before_def range_empty not_le)
  show "get_after c t = None \<longleftrightarrow> (\<forall>k \<in> fst ` set (ci_entries c). k < t)"
    by (auto simp: get_after_def range_empty not_le)
  have "get_interval c t u = map snd (bt_range (\<lambda>k. t \<le> k \<and> k \<le> u) (ci_entries c))"
    by (auto simp: get_interval_def bt_range_def filter_empty_conv)
  then show "\<exists>es. get_interval c t u = map snd es \<and> bt_ordered es \<and>
       set es = {(k, m). (k, m) \<in> set (ci_entries c) \<and> t \<le> k \<and> k \<le> u}"
    using range_ordered [OF o, of "\<lambda>k. t \<le> k \<and> k \<le> u"]
    by (intro exI [of _ "bt_range (\<lambda>k. t \<le> k \<and> k \<le> u) (ci_entries c)"]) (auto simp: bt_range_def)
qed

lemma cache_queries_correct_witness: "get_before two_entries 5 = None"
  using cache_queries_correct [OF two_entries_ok, of 5] by (simp add: two_entries_def)

text \<open>
  Looking up the nearest message: \<open>get_nearest\<close> in a well-formed cache returns a message no other message is nearer
  than, the earlier one of two at the same distance, and \<open>None\<close> only from an empty cache.
\<close>

theorem cache_nearest_correct:
  assumes "cache_ok c"
  shows "(get_nearest c t = None \<longleftrightarrow> ci_entries c = []) \<and>
         (\<forall>m. get_nearest c t = Some m \<longrightarrow>
            (\<exists>k. (k, m) \<in> set (ci_entries c) \<and>
               (\<forall>k' \<in> fst ` set (ci_entries c). \<bar>t - k\<bar> < \<bar>t - k'\<bar> \<or> \<bar>t - k\<bar> = \<bar>t - k'\<bar> \<and> k \<le> k')))"
proof (cases "ci_entries c = []")
  case True
  then show ?thesis by (simp add: get_nearest_def)
next
  case False
  have o: "bt_ordered (ci_entries c)" using assms by (simp add: cache_ok_def)
  let ?b = "last_entry (bt_range (\<lambda>k. k \<le> t) (ci_entries c))"
  let ?a = "first_entry (bt_range (\<lambda>k. t \<le> k) (ci_entries c))"
  have best: "\<exists>k. (k, m) \<in> set (ci_entries c) \<and>
      (\<forall>k' \<in> fst ` set (ci_entries c). \<bar>t - k\<bar> < \<bar>t - k'\<bar> \<or> \<bar>t - k\<bar> = \<bar>t - k'\<bar> \<and> k \<le> k')"
    if m: "get_nearest c t = Some m" for m
  proof -
    consider ka where "?b = None" "?a = Some (ka, m)" | kb where "?b = Some (kb, m)" "?a = None"
      | kb ka va where "?b = Some (kb, m)" "?a = Some (ka, va)" "\<not> duration_since ka t < duration_since t kb"
      | kb ka vb where "?b = Some (kb, vb)" "?a = Some (ka, m)" "duration_since ka t < duration_since t kb"
      using m False by (auto simp: get_nearest_def Let_def split: option.splits if_splits prod.splits)
    then show ?thesis
    proof cases
      case 1
      note a = first_entry_range [OF o 1(2)]
      have "\<bar>t - ka\<bar> < \<bar>t - k'\<bar> \<or> \<bar>t - ka\<bar> = \<bar>t - k'\<bar> \<and> ka \<le> k'" if "k' \<in> fst ` set (ci_entries c)" for k'
      proof -
        have "\<not> k' \<le> t" using 1(1) that unfolding range_empty by blast
        with a(2) a(3) [OF that] show ?thesis by auto
      qed
      with a(1) show ?thesis by blast
    next
      case 2
      note b = last_entry_range [OF o 2(1)]
      have "\<bar>t - kb\<bar> < \<bar>t - k'\<bar> \<or> \<bar>t - kb\<bar> = \<bar>t - k'\<bar> \<and> kb \<le> k'" if "k' \<in> fst ` set (ci_entries c)" for k'
      proof -
        have "\<not> t \<le> k'" using 2(2) that unfolding range_empty by blast
        with b(2) b(3) [OF that] show ?thesis by auto
      qed
      with b(1) show ?thesis by blast
    next
      case 3
      note b = last_entry_range [OF o 3(1)] and a = first_entry_range [OF o 3(2)]
      have "\<bar>t - kb\<bar> < \<bar>t - k'\<bar> \<or> \<bar>t - kb\<bar> = \<bar>t - k'\<bar> \<and> kb \<le> k'" if "k' \<in> fst ` set (ci_entries c)" for k'
        using b(2) b(3) [OF that] a(2) a(3) [OF that] 3(3) by (cases "k' \<le> t") (auto simp: duration_since_def abs_if split: if_splits)
      with b(1) show ?thesis by blast
    next
      case 4
      note b = last_entry_range [OF o 4(1)] and a = first_entry_range [OF o 4(2)]
      have "\<bar>t - ka\<bar> < \<bar>t - k'\<bar> \<or> \<bar>t - ka\<bar> = \<bar>t - k'\<bar> \<and> ka \<le> k'" if "k' \<in> fst ` set (ci_entries c)" for k'
        using b(2) b(3) [OF that] a(2) a(3) [OF that] 4(3) by (cases "k' \<le> t") (auto simp: duration_since_def abs_if split: if_splits)
      with a(1) show ?thesis by blast
    qed
  qed
  have "get_nearest c t \<noteq> None"
  proof
    assume "get_nearest c t = None"
    then have "?b = None" "?a = None"
      using False by (auto simp: get_nearest_def Let_def split: option.splits if_splits prod.splits)
    then have "\<forall>k \<in> fst ` set (ci_entries c). \<not> k \<le> t \<and> \<not> t \<le> k" by (auto simp: range_empty)
    with False show False by (cases "ci_entries c") auto
  qed
  with best False show ?thesis by blast
qed

lemma cache_nearest_correct_witness: "get_nearest two_entries 15 \<noteq> None"
  using cache_nearest_correct [OF two_entries_ok, of 15] by (simp add: two_entries_def)

end
