(* ===== verification/Parameter_Types.thy ===== *)
theory Parameter_Types
  imports Hiroz_Prelude
begin

text \<open>
  \<open>crates/hiroz/src/parameter/types.rs\<close> and the messages of
  \<open>crates/hiroz/src/parameter/wire_types.rs\<close>: parameter values, descriptors and their wire
  form, and the range checks of \<open>store.rs\<close>. The type \<open>f64\<close> is its bit pattern; the few
  operations of it that the range check uses (comparison, subtraction, remainder) follow
  IEEE 754 with rounding to nearest, ties to even.
\<close>

section \<open>The type f64\<close>

type_synonym f64 = "64 word"

text \<open>A finite number is a sign and its magnitude as a multiple of the least subnormal, \<open>2 ^ -1074\<close>.\<close>

datatype f64_class = FNaN | FInf bool | FFin bool int

definition f64_neg :: "f64 \<Rightarrow> bool" where
  "f64_neg x \<longleftrightarrow> bit x 63"

definition f64_class :: "f64 \<Rightarrow> f64_class" where
  "f64_class x =
     (let e = unat (take_bit 11 (drop_bit 52 x)); m = uint (take_bit 52 x)
      in if e = 2047 then (if m = 0 then FInf (f64_neg x) else FNaN)
         else FFin (f64_neg x) (if e = 0 then m else (2 ^ 52 + m) * 2 ^ (e - 1)))"

definition fin_val :: "bool \<Rightarrow> int \<Rightarrow> int" where
  "fin_val neg n = (if neg then - n else n)"

fun class_less :: "f64_class \<Rightarrow> f64_class \<Rightarrow> bool" where
  "class_less FNaN b = False"
| "class_less (FInf s) FNaN = False"
| "class_less (FInf s) (FInf t) = (s \<and> \<not> t)"
| "class_less (FInf s) (FFin t n) = s"
| "class_less (FFin s m) FNaN = False"
| "class_less (FFin s m) (FInf t) = (\<not> t)"
| "class_less (FFin s m) (FFin t n) = (fin_val s m < fin_val t n)"

definition f64_less :: "f64 \<Rightarrow> f64 \<Rightarrow> bool" where
  "f64_less x y = class_less (f64_class x) (f64_class y)"

definition f64_nan :: f64 where
  "f64_nan = 0x7FF8000000000000"

function bit_length :: "int \<Rightarrow> nat" where
  "bit_length n = (if n \<le> 0 then 0 else Suc (bit_length (n div 2)))"
  by auto
termination by (relation "measure nat") auto

declare bit_length.simps [simp del]

text \<open>The number nearest to \<open>n * 2 ^ -1074\<close>, infinite from the overflow threshold on.\<close>

definition f64_round :: "bool \<Rightarrow> int \<Rightarrow> f64" where
  "f64_round neg n =
     (let s = bit_length n - 53;
          q = n div 2 ^ s; r = n mod 2 ^ s;
          q' = (if 2 ^ s < 2 * r \<or> 2 ^ s = 2 * r \<and> odd q then q + 1 else q);
          bits = min (int s * 2 ^ 52 + q') (2047 * 2 ^ 52)
      in word_of_int (bits + (if neg then 2 ^ 63 else 0)))"

fun f64_sub_class :: "f64_class \<Rightarrow> f64_class \<Rightarrow> f64 option" where
  "f64_sub_class (FInf s) (FInf t) = (if s = t then None else Some (f64_round s (2 ^ 2098)))"
| "f64_sub_class (FInf s) (FFin t n) = Some (f64_round s (2 ^ 2098))"
| "f64_sub_class (FFin s m) (FInf t) = Some (f64_round (\<not> t) (2 ^ 2098))"
| "f64_sub_class (FFin s m) (FFin t n) =
     (let d = fin_val s m - fin_val t n
      in Some (f64_round (if d = 0 then s \<and> \<not> t else d < 0) \<bar>d\<bar>))"
| "f64_sub_class FNaN b = None"
| "f64_sub_class a FNaN = None"

definition f64_sub :: "f64 \<Rightarrow> f64 \<Rightarrow> f64" where
  "f64_sub x y = unwrap_or (f64_sub_class (f64_class x) (f64_class y)) f64_nan"

definition f64_rem :: "f64 \<Rightarrow> f64 \<Rightarrow> f64" where
  "f64_rem x y =
     (case (f64_class x, f64_class y) of
        (FFin s m, FInf t) \<Rightarrow> x
      | (FFin s m, FFin t n) \<Rightarrow> (if n = 0 then f64_nan else f64_round s (m mod n))
      | _ \<Rightarrow> f64_nan)"

definition f64_abs :: "f64 \<Rightarrow> f64" where
  "f64_abs x = take_bit 63 x"

definition f64_is_zero :: "f64 \<Rightarrow> bool" where
  "f64_is_zero x \<longleftrightarrow> (\<exists>s \<in> {True, False}. f64_class x = FFin s 0)"

text \<open>The constant \<open>1e-9\<close>.\<close>

definition f64_tolerance :: f64 where
  "f64_tolerance = 0x3E112E0BE826D695"

section \<open>Values and descriptors\<close>

datatype parameter_type =
    PT_NotSet | PT_Bool | PT_Integer | PT_Double | PT_String
  | PT_ByteArray | PT_BoolArray | PT_IntegerArray | PT_DoubleArray | PT_StringArray

definition all_parameter_types :: "parameter_type list" where
  "all_parameter_types = [PT_NotSet, PT_Bool, PT_Integer, PT_Double, PT_String,
     PT_ByteArray, PT_BoolArray, PT_IntegerArray, PT_DoubleArray, PT_StringArray]"

fun parameter_type_u8 :: "parameter_type \<Rightarrow> u8" where
  "parameter_type_u8 PT_NotSet = 0"
| "parameter_type_u8 PT_Bool = 1"
| "parameter_type_u8 PT_Integer = 2"
| "parameter_type_u8 PT_Double = 3"
| "parameter_type_u8 PT_String = 4"
| "parameter_type_u8 PT_ByteArray = 5"
| "parameter_type_u8 PT_BoolArray = 6"
| "parameter_type_u8 PT_IntegerArray = 7"
| "parameter_type_u8 PT_DoubleArray = 8"
| "parameter_type_u8 PT_StringArray = 9"

definition parameter_type_try_from :: "u8 \<Rightarrow> parameter_type option" where
  "parameter_type_try_from v =
     (if v = 0 then Some PT_NotSet else if v = 1 then Some PT_Bool
      else if v = 2 then Some PT_Integer else if v = 3 then Some PT_Double
      else if v = 4 then Some PT_String else if v = 5 then Some PT_ByteArray
      else if v = 6 then Some PT_BoolArray else if v = 7 then Some PT_IntegerArray
      else if v = 8 then Some PT_DoubleArray else if v = 9 then Some PT_StringArray
      else None)"

datatype parameter_value =
    PNotSet | PBool bool | PInteger "64 word" | PDouble f64 | PString string
  | PByteArray bytes | PBoolArray "bool list" | PIntegerArray "64 word list"
  | PDoubleArray "f64 list" | PStringArray "string list"

fun value_type :: "parameter_value \<Rightarrow> parameter_type" where
  "value_type PNotSet = PT_NotSet"
| "value_type (PBool _) = PT_Bool"
| "value_type (PInteger _) = PT_Integer"
| "value_type (PDouble _) = PT_Double"
| "value_type (PString _) = PT_String"
| "value_type (PByteArray _) = PT_ByteArray"
| "value_type (PBoolArray _) = PT_BoolArray"
| "value_type (PIntegerArray _) = PT_IntegerArray"
| "value_type (PDoubleArray _) = PT_DoubleArray"
| "value_type (PStringArray _) = PT_StringArray"

record parameter =
  p_name :: string
  p_value :: parameter_value

record floating_point_range =
  fr_from_value :: f64
  fr_to_value :: f64
  fr_step :: f64

record integer_range =
  ir_from_value :: "64 word"
  ir_to_value :: "64 word"
  ir_step :: u64

record parameter_descriptor =
  pd_name :: string
  pd_type :: parameter_type
  pd_description :: string
  pd_additional_constraints :: string
  pd_read_only :: bool
  pd_dynamic_typing :: bool
  pd_floating_point_range :: "floating_point_range option"
  pd_integer_range :: "integer_range option"

definition pd_default :: parameter_descriptor where
  "pd_default = \<lparr>pd_name = '''', pd_type = PT_NotSet, pd_description = '''',
     pd_additional_constraints = '''', pd_read_only = False, pd_dynamic_typing = False,
     pd_floating_point_range = None, pd_integer_range = None\<rparr>"

definition pd_new :: "string \<Rightarrow> parameter_type \<Rightarrow> parameter_descriptor" where
  "pd_new name ty = pd_default\<lparr>pd_name := name, pd_type := ty\<rparr>"

section \<open>Wire messages\<close>

record wire_parameter_value =
  wv_type :: u8
  wv_bool_value :: bool
  wv_integer_value :: "64 word"
  wv_double_value :: f64
  wv_string_value :: string
  wv_byte_array_value :: bytes
  wv_bool_array_value :: "bool list"
  wv_integer_array_value :: "64 word list"
  wv_double_array_value :: "f64 list"
  wv_string_array_value :: "string list"

definition wv_default :: wire_parameter_value where
  "wv_default = \<lparr>wv_type = 0, wv_bool_value = False, wv_integer_value = 0, wv_double_value = 0,
     wv_string_value = '''', wv_byte_array_value = [], wv_bool_array_value = [],
     wv_integer_array_value = [], wv_double_array_value = [], wv_string_array_value = []\<rparr>"

definition value_to_wire :: "parameter_value \<Rightarrow> wire_parameter_value" where
  "value_to_wire v =
     (let wire = wv_default\<lparr>wv_type := parameter_type_u8 (value_type v)\<rparr>
      in case v of
           PNotSet \<Rightarrow> wire
         | PBool x \<Rightarrow> wire\<lparr>wv_bool_value := x\<rparr>
         | PInteger x \<Rightarrow> wire\<lparr>wv_integer_value := x\<rparr>
         | PDouble x \<Rightarrow> wire\<lparr>wv_double_value := x\<rparr>
         | PString x \<Rightarrow> wire\<lparr>wv_string_value := x\<rparr>
         | PByteArray x \<Rightarrow> wire\<lparr>wv_byte_array_value := x\<rparr>
         | PBoolArray x \<Rightarrow> wire\<lparr>wv_bool_array_value := x\<rparr>
         | PIntegerArray x \<Rightarrow> wire\<lparr>wv_integer_array_value := x\<rparr>
         | PDoubleArray x \<Rightarrow> wire\<lparr>wv_double_array_value := x\<rparr>
         | PStringArray x \<Rightarrow> wire\<lparr>wv_string_array_value := x\<rparr>)"

definition value_from_wire :: "wire_parameter_value \<Rightarrow> parameter_value" where
  "value_from_wire wire =
     (if wv_type wire = 1 then PBool (wv_bool_value wire)
      else if wv_type wire = 2 then PInteger (wv_integer_value wire)
      else if wv_type wire = 3 then PDouble (wv_double_value wire)
      else if wv_type wire = 4 then PString (wv_string_value wire)
      else if wv_type wire = 5 then PByteArray (wv_byte_array_value wire)
      else if wv_type wire = 6 then PBoolArray (wv_bool_array_value wire)
      else if wv_type wire = 7 then PIntegerArray (wv_integer_array_value wire)
      else if wv_type wire = 8 then PDoubleArray (wv_double_array_value wire)
      else if wv_type wire = 9 then PStringArray (wv_string_array_value wire)
      else PNotSet)"

record wire_parameter =
  wp_name :: string
  wp_value :: wire_parameter_value

definition param_to_wire :: "parameter \<Rightarrow> wire_parameter" where
  "param_to_wire p = \<lparr>wp_name = p_name p, wp_value = value_to_wire (p_value p)\<rparr>"

definition param_from_wire :: "wire_parameter \<Rightarrow> parameter" where
  "param_from_wire w = \<lparr>p_name = wp_name w, p_value = value_from_wire (wp_value w)\<rparr>"

text \<open>The range messages have the fields of the ranges.\<close>

record wire_parameter_descriptor =
  wd_name :: string
  wd_type :: u8
  wd_description :: string
  wd_additional_constraints :: string
  wd_read_only :: bool
  wd_dynamic_typing :: bool
  wd_floating_point_range :: "floating_point_range list"
  wd_integer_range :: "integer_range list"

definition wd_default :: wire_parameter_descriptor where
  "wd_default = \<lparr>wd_name = '''', wd_type = 0, wd_description = '''',
     wd_additional_constraints = '''', wd_read_only = False, wd_dynamic_typing = False,
     wd_floating_point_range = [], wd_integer_range = []\<rparr>"

definition descriptor_to_wire :: "parameter_descriptor \<Rightarrow> wire_parameter_descriptor" where
  "descriptor_to_wire d = \<lparr>wd_name = pd_name d, wd_type = parameter_type_u8 (pd_type d),
     wd_description = pd_description d, wd_additional_constraints = pd_additional_constraints d,
     wd_read_only = pd_read_only d, wd_dynamic_typing = pd_dynamic_typing d,
     wd_floating_point_range = (case pd_floating_point_range d of None \<Rightarrow> [] | Some r \<Rightarrow> [r]),
     wd_integer_range = (case pd_integer_range d of None \<Rightarrow> [] | Some r \<Rightarrow> [r])\<rparr>"

definition first_range :: "'r list \<Rightarrow> 'r option" where
  "first_range rs = (case rs of [] \<Rightarrow> None | r # _ \<Rightarrow> Some r)"

definition descriptor_from_wire :: "wire_parameter_descriptor \<Rightarrow> parameter_descriptor" where
  "descriptor_from_wire w = \<lparr>pd_name = wd_name w,
     pd_type = unwrap_or (parameter_type_try_from (wd_type w)) PT_NotSet,
     pd_description = wd_description w, pd_additional_constraints = wd_additional_constraints w,
     pd_read_only = wd_read_only w, pd_dynamic_typing = wd_dynamic_typing w,
     pd_floating_point_range = first_range (wd_floating_point_range w),
     pd_integer_range = first_range (wd_integer_range w)\<rparr>"

section \<open>Outcomes of parameter operations\<close>

text \<open>The reason texts, one constructor per format string, with what it shows.\<close>

datatype reason =
    NoReason
  | AlreadyDeclared string
  | InvalidInitialValue string reason
  | ReadOnly string
  | TypeMismatch string parameter_type parameter_type
  | NotDeclared string
  | ExpectedType parameter_type parameter_type
  | FloatOutOfRange f64 f64 f64
  | FloatOffGrid f64 f64 f64
  | IntegerOutOfRange "64 word" "64 word" "64 word"
  | IntegerOffGrid "64 word" "64 word" u64
  | StoreLockPoisoned
  | InternalError
  | CallbackReason string

record set_parameters_result =
  sr_successful :: bool
  sr_reason :: reason

definition sr_success :: set_parameters_result where
  "sr_success = \<lparr>sr_successful = True, sr_reason = NoReason\<rparr>"

definition sr_failure :: "reason \<Rightarrow> set_parameters_result" where
  "sr_failure r = \<lparr>sr_successful = False, sr_reason = r\<rparr>"

section \<open>Validation\<close>

definition validate_float_range :: "f64 \<Rightarrow> floating_point_range \<Rightarrow> (unit, reason) res" where
  "validate_float_range v r =
     (if f64_less v (fr_from_value r) \<or> f64_less (fr_to_value r) v
      then Err (FloatOutOfRange v (fr_from_value r) (fr_to_value r))
      else if f64_is_zero (fr_step r) then Ok ()
      else
        (let offset = f64_sub v (fr_from_value r);
             remainder = f64_rem offset (f64_abs (fr_step r))
         in if f64_less f64_tolerance remainder \<and>
               f64_less f64_tolerance (f64_sub (f64_abs (fr_step r)) remainder) \<and>
               f64_less f64_tolerance (f64_abs (f64_sub v (fr_to_value r)))
            then Err (FloatOffGrid v (fr_from_value r) (fr_step r))
            else Ok ()))"

definition unsigned_abs :: "64 word \<Rightarrow> u64" where
  "unsigned_abs d = (if sint d < 0 then - d else d)"

text \<open>
  The subtraction overflows if the offset needs 64 bits: with overflow checks (debug
  builds, \<open>checked\<close>) it panics, otherwise it wraps.
\<close>

definition validate_integer_range :: "bool \<Rightarrow> 64 word \<Rightarrow> integer_range \<Rightarrow> (unit, reason) res" where
  "validate_integer_range checked v r =
     (if sint v < sint (ir_from_value r) \<or> sint (ir_to_value r) < sint v
      then Err (IntegerOutOfRange v (ir_from_value r) (ir_to_value r))
      else if ir_step r = 0 then Ok ()
      else if checked \<and> sint v - sint (ir_from_value r) \<ge> 2 ^ 63 then Panic
      else
        (let offset = unsigned_abs (v - ir_from_value r)
         in if offset mod ir_step r \<noteq> 0 \<and> v \<noteq> ir_to_value r
            then Err (IntegerOffGrid v (ir_from_value r) (ir_step r))
            else Ok ()))"

definition validate_value :: "bool \<Rightarrow> parameter_value \<Rightarrow> parameter_descriptor \<Rightarrow> (unit, reason) res" where
  "validate_value checked v d =
     (if pd_type d \<noteq> PT_NotSet \<and> \<not> pd_dynamic_typing d \<and> value_type v \<noteq> PT_NotSet \<and> value_type v \<noteq> pd_type d
      then Err (ExpectedType (pd_type d) (value_type v))
      else res_bind
        (case (pd_floating_point_range d, v) of
           (Some r, PDouble x) \<Rightarrow> validate_float_range x r
         | _ \<Rightarrow> Ok ())
        (\<lambda>_. case (pd_integer_range d, v) of
           (Some r, PInteger x) \<Rightarrow> validate_integer_range checked x r
         | _ \<Rightarrow> Ok ()))"

section \<open>Facts\<close>

lemma parameter_type_codec [simp]:
  "parameter_type_try_from (parameter_type_u8 t) = Some t"
  by (cases t) (simp_all add: parameter_type_try_from_def)

lemma value_wire_type [simp]: "wv_type (value_to_wire v) = parameter_type_u8 (value_type v)"
  by (cases v) (simp_all add: value_to_wire_def)

lemma value_wire_roundtrip [simp]: "value_from_wire (value_to_wire v) = v"
  by (cases v) (simp_all add: value_to_wire_def value_from_wire_def wv_default_def)

lemma param_wire_roundtrip [simp]: "param_from_wire (param_to_wire p) = p"
  by (simp add: param_from_wire_def param_to_wire_def)

lemma descriptor_wire_roundtrip [simp]: "descriptor_from_wire (descriptor_to_wire d) = d"
  by (cases d) (simp add: descriptor_from_wire_def descriptor_to_wire_def first_range_def split: option.split)

lemma no_overflow_offset:
  assumes "sint (f::64 word) \<le> sint v" and "sint v - sint f < 2 ^ 63"
  shows "unsigned_abs (v - f) = v - f" and "int (unat (v - f)) = sint v - sint f"
proof -
  have s: "sint (v - f) = sint v - sint f"
    using assms by (simp add: sint_word_ariths signed_take_bit_int_eq_self)
  then show "unsigned_abs (v - f) = v - f" using assms by (simp add: unsigned_abs_def)
  have "uint (v - f) = sint (v - f)"
    using s assms by (simp add: uint_sint take_bit_int_eq_self)
  then show "int (unat (v - f)) = sint v - sint f" by (simp add: s)
qed

text \<open>The integer check against its specification, where the offset fits in 63 bits.\<close>

definition on_grid :: "64 word \<Rightarrow> integer_range \<Rightarrow> bool" where
  "on_grid v r \<longleftrightarrow> sint (ir_from_value r) \<le> sint v \<and> sint v \<le> sint (ir_to_value r) \<and>
     (ir_step r = 0 \<or> uint (ir_step r) dvd sint v - sint (ir_from_value r) \<or> v = ir_to_value r)"

lemma validate_integer_range_ok:
  assumes "sint v - sint (ir_from_value r) < 2 ^ 63"
  shows "validate_integer_range checked v r \<noteq> Panic"
    and "validate_integer_range checked v r = Ok () \<longleftrightarrow> on_grid v r"
proof -
  have g: "unsigned_abs (v - ir_from_value r) mod ir_step r = 0 \<longleftrightarrow>
      uint (ir_step r) dvd sint v - sint (ir_from_value r)" if "sint (ir_from_value r) \<le> sint v"
  proof -
    note o = no_overflow_offset [OF that assms]
    have "unsigned_abs (v - ir_from_value r) mod ir_step r = 0 \<longleftrightarrow>
        unat ((v - ir_from_value r) mod ir_step r) = 0"
      by (simp add: o(1) unat_eq_0)
    also have "\<dots> \<longleftrightarrow> unat (ir_step r) dvd unat (v - ir_from_value r)"
      by (simp add: unat_mod mod_eq_0_iff_dvd)
    also have "\<dots> \<longleftrightarrow> uint (ir_step r) dvd sint v - sint (ir_from_value r)"
      by (metis o(2) int_dvd_int_iff uint_nat)
    finally show ?thesis .
  qed
  show "validate_integer_range checked v r \<noteq> Panic"
    using assms by (auto simp: validate_integer_range_def Let_def)
  show "validate_integer_range checked v r = Ok () \<longleftrightarrow> on_grid v r"
    using assms g by (auto simp: validate_integer_range_def on_grid_def Let_def)
qed

lemma word_mod_dvd: "(a :: 64 word) mod b = 0 \<longleftrightarrow> uint b dvd uint a"
  by (metis mod_eq_0_iff_dvd uint_mod uint_0_iff)

lemma uint_neg_sint: "uint (- x) = take_bit 64 (- sint (x :: 64 word))"
  by (simp add: uint_sint sint_word_ariths take_bit_signed_take_bit)

lemma overflow_offset:
  assumes "2 ^ 63 \<le> sint v - sint (f :: 64 word)"
  shows "uint (unsigned_abs (v - f)) = 2 ^ 64 - (sint v - sint f)"
proof -
  have b: "- (2 ^ 63) \<le> sint f" "sint v < 2 ^ 63" "- (2 ^ 63) \<le> sint v" "sint f < 2 ^ 63"
    using sint_ge [of f] sint_lt [of f] sint_ge [of v] sint_lt [of v] by simp_all
  have s: "sint (v - f) = sint v - sint f - 2 ^ 64"
  proof -
    have "sint (v - f) = signed_take_bit 63 (sint v - sint f)" by (simp add: sint_word_ariths)
    also have "\<dots> = signed_take_bit 63 (sint v - sint f - 2 ^ 64)"
      by (simp only: signed_take_bit_eq_iff_take_bit_eq take_bit_eq_mod) simp
    also have "\<dots> = sint v - sint f - 2 ^ 64"
      using b assms by (intro signed_take_bit_int_eq_self) simp_all
    finally show ?thesis .
  qed
  then have "unsigned_abs (v - f) = - (v - f)" using b by (simp only: unsigned_abs_def) simp
  then have "uint (unsigned_abs (v - f)) = take_bit 64 (- sint (v - f))"
    by (simp only: uint_neg_sint)
  also have "\<dots> = - sint (v - f)"
    using s b assms by (intro take_bit_int_eq_self) simp_all
  finally show ?thesis using s by simp
qed

lemma overflow_offset_grid:
  assumes "2 ^ 63 \<le> sint v - sint (f :: 64 word)"
  shows "unsigned_abs (v - f) mod s = 0 \<longleftrightarrow> uint s dvd 2 ^ 64 - (sint v - sint f)"
  by (simp only: word_mod_dvd overflow_offset [OF assms])

end
