(* ===== verification/Parameter_Store.thy ===== *)
theory Parameter_Store
  imports Parameter_Types "HOL-Library.AList" "HOL-Library.Char_ord" "HOL-Library.List_Lexorder"
    "HOL-Library.Sublist" "HOL-Library.Multiset"
begin

text \<open>
  \<open>crates/hiroz/src/parameter/store.rs\<close>: the declared parameters of a node. A hash map is an
  association list with distinct keys; its order stands for the iteration order, which no
  result depends on. The contract of the store towards the parameter service is the locale
  \<open>parameter_map\<close>.
\<close>

section \<open>The store\<close>

record parameter_entry =
  pe_value :: parameter_value
  pe_descriptor :: parameter_descriptor

record parameter_store =
  ps_parameters :: "(string \<times> parameter_entry) list"
  ps_overrides :: "(string \<times> parameter_value) list"

definition ps_new :: parameter_store where
  "ps_new = \<lparr>ps_parameters = [], ps_overrides = []\<rparr>"

definition ps_with_overrides :: "(string \<times> parameter_value) list \<Rightarrow> parameter_store" where
  "ps_with_overrides overrides = \<lparr>ps_parameters = [], ps_overrides = overrides\<rparr>"

definition declare_param ::
  "bool \<Rightarrow> parameter_store \<Rightarrow> string \<Rightarrow> parameter_value \<Rightarrow> parameter_descriptor \<Rightarrow>
   (parameter_value, reason) res \<times> parameter_store" where
  "declare_param checked st name dflt descriptor =
     (if map_of (ps_parameters st) name \<noteq> None then (Err (AlreadyDeclared name), st)
      else
        (let initial = unwrap_or (map_of (ps_overrides st) name) dflt;
             st1 = st\<lparr>ps_overrides := AList.delete name (ps_overrides st)\<rparr>;
             d1 = (if pd_type descriptor = PT_NotSet then descriptor\<lparr>pd_type := value_type initial\<rparr> else descriptor);
             d2 = d1\<lparr>pd_name := name\<rparr>
         in case validate_value checked initial d2 of
              Err r \<Rightarrow> (Err (InvalidInitialValue name r), st1)
            | Panic \<Rightarrow> (Panic, st1)
            | Ok _ \<Rightarrow> (Ok initial,
                st1\<lparr>ps_parameters := AList.update name \<lparr>pe_value = initial, pe_descriptor = d2\<rparr> (ps_parameters st1)\<rparr>)))"

definition get_param :: "parameter_store \<Rightarrow> string \<Rightarrow> parameter_value option" where
  "get_param st name = map_option pe_value (map_of (ps_parameters st) name)"

definition describe_param :: "parameter_store \<Rightarrow> string \<Rightarrow> parameter_descriptor option" where
  "describe_param st name = map_option pe_descriptor (map_of (ps_parameters st) name)"

definition get_type :: "parameter_store \<Rightarrow> string \<Rightarrow> u8" where
  "get_type st name =
     unwrap_or (map_option (\<lambda>e. parameter_type_u8 (value_type (pe_value e))) (map_of (ps_parameters st) name)) 0"

definition validate_set :: "bool \<Rightarrow> parameter_store \<Rightarrow> parameter \<Rightarrow> (bool, reason) res" where
  "validate_set checked st p =
     (case map_of (ps_parameters st) (p_name p) of
        Some entry \<Rightarrow>
          (let d = pe_descriptor entry
           in if pd_read_only d then Err (ReadOnly (p_name p))
              else if \<not> pd_dynamic_typing d \<and> pd_type d \<noteq> PT_NotSet \<and>
                      value_type (p_value p) \<noteq> pd_type d \<and> value_type (p_value p) \<noteq> PT_NotSet
              then Err (TypeMismatch (p_name p) (pd_type d) (value_type (p_value p)))
              else res_bind (validate_value checked (p_value p) d) (\<lambda>_. Ok False))
      | None \<Rightarrow> Err (NotDeclared (p_name p)))"

definition set_param :: "parameter_store \<Rightarrow> parameter \<Rightarrow> parameter_value option \<times> parameter_store" where
  "set_param st p =
     (case map_of (ps_parameters st) (p_name p) of
        Some entry \<Rightarrow>
          (Some (pe_value entry),
           st\<lparr>ps_parameters := AList.update (p_name p) (entry\<lparr>pe_value := p_value p\<rparr>) (ps_parameters st)\<rparr>)
      | None \<Rightarrow> (None, st))"

definition undeclare_param :: "parameter_store \<Rightarrow> string \<Rightarrow> (parameter, reason) res \<times> parameter_store" where
  "undeclare_param st name =
     (case map_of (ps_parameters st) name of
        Some entry \<Rightarrow>
          (Ok \<lparr>p_name = name, p_value = pe_value entry\<rparr>,
           st\<lparr>ps_parameters := AList.delete name (ps_parameters st)\<rparr>)
      | None \<Rightarrow> (Err (NotDeclared name), st))"

section \<open>Listing\<close>

definition depth_recursive :: u64 where
  "depth_recursive = 0"

definition under_prefix :: "string \<Rightarrow> string \<Rightarrow> bool" where
  "under_prefix name p \<longleftrightarrow> p = [] \<or> name = p \<or> prefix (p @ ''.'') name"

definition matches_prefixes :: "string list \<Rightarrow> string \<Rightarrow> bool" where
  "matches_prefixes pfs name \<longleftrightarrow> pfs = [] \<or> (\<exists>p \<in> set pfs. under_prefix name p)"

definition matching_prefix :: "string list \<Rightarrow> string \<Rightarrow> string" where
  "matching_prefix pfs name =
     (if pfs = [] then [] else unwrap_or (find (under_prefix name) pfs) [])"

definition name_suffix :: "string \<Rightarrow> string \<Rightarrow> string" where
  "name_suffix p name =
     (if p = [] then name else if name = p then [] else drop (length p + 1) name)"

definition param_depth :: "string \<Rightarrow> nat" where
  "param_depth suf = (if suf = [] then 0 else length (filter (\<lambda>c. c = CHR ''.'') suf) + 1)"

definition listed :: "string list \<Rightarrow> u64 \<Rightarrow> string \<Rightarrow> bool" where
  "listed pfs depth name \<longleftrightarrow> matches_prefixes pfs name \<and>
     (depth = depth_recursive \<or>
      \<not> unat depth < param_depth (name_suffix (matching_prefix pfs name) name))"

text \<open>Everything before the last dot.\<close>

fun before_last_dot :: "string \<Rightarrow> string option" where
  "before_last_dot [] = None"
| "before_last_dot (c # s) =
     (case before_last_dot s of
        Some p \<Rightarrow> Some (c # p)
      | None \<Rightarrow> if c = CHR ''.'' then Some [] else None)"

record wire_list_parameters_result =
  lr_names :: "string list"
  lr_prefixes :: "string list"

fun list_loop ::
  "string list \<Rightarrow> u64 \<Rightarrow> string list \<Rightarrow> string list \<Rightarrow> string list \<Rightarrow> string list \<times> string list" where
  "list_loop pfs depth [] names found = (names, found)"
| "list_loop pfs depth (n # ns) names found =
     (if \<not> listed pfs depth n then list_loop pfs depth ns names found
      else list_loop pfs depth ns (names @ [n])
        (case before_last_dot n of Some p \<Rightarrow> List.insert p found | None \<Rightarrow> found))"

definition list_params :: "parameter_store \<Rightarrow> string list \<Rightarrow> u64 \<Rightarrow> wire_list_parameters_result" where
  "list_params st pfs depth =
     (let (names, found) = list_loop pfs depth (map fst (ps_parameters st)) [] []
      in \<lparr>lr_names = sort names, lr_prefixes = sort found\<rparr>)"

section \<open>Bulk queries\<close>

definition describe_many :: "parameter_store \<Rightarrow> string list \<Rightarrow> wire_parameter_descriptor list" where
  "describe_many st names = map (\<lambda>name. unwrap_or
     (map_option (\<lambda>e. descriptor_to_wire (pe_descriptor e)) (map_of (ps_parameters st) name))
     (wd_default\<lparr>wd_name := name\<rparr>)) names"

definition get_many :: "parameter_store \<Rightarrow> string list \<Rightarrow> wire_parameter_value list" where
  "get_many st names = map (\<lambda>name. unwrap_or
     (map_option (\<lambda>e. value_to_wire (pe_value e)) (map_of (ps_parameters st) name)) wv_default) names"

definition get_types :: "parameter_store \<Rightarrow> string list \<Rightarrow> u8 list" where
  "get_types st names = map (get_type st) names"

section \<open>Invariant\<close>

text \<open>Names are declared once; every entry carries its name and a value its descriptor admits.\<close>

definition entry_ok :: "bool \<Rightarrow> string \<times> parameter_entry \<Rightarrow> bool" where
  "entry_ok checked ne \<longleftrightarrow> pd_name (pe_descriptor (snd ne)) = fst ne \<and>
     validate_value checked (pe_value (snd ne)) (pe_descriptor (snd ne)) = Ok ()"

definition store_ok :: "bool \<Rightarrow> parameter_store \<Rightarrow> bool" where
  "store_ok checked st \<longleftrightarrow> distinct (map fst (ps_parameters st)) \<and> list_all (entry_ok checked) (ps_parameters st)"

lemma list_all_update:
  "P (k, v) \<Longrightarrow> list_all P al \<Longrightarrow> list_all P (AList.update k v al)"
  by (induction al) auto

lemma list_all_delete: "list_all P al \<Longrightarrow> list_all P (AList.delete k al)"
  by (auto simp: list_all_iff AList.delete_eq)

lemma declare_param_ok:
  assumes "store_ok checked st" shows "store_ok checked (snd (declare_param checked st name dflt d))"
  using assms
  by (auto simp: declare_param_def store_ok_def Let_def entry_ok_def distinct_update
      intro!: list_all_update split: res.splits)

lemma validate_value_type:
  "validate_value checked v d = Ok () \<Longrightarrow>
     pd_dynamic_typing d \<or> pd_type d = PT_NotSet \<or> value_type v = pd_type d \<or> value_type v = PT_NotSet"
  by (rule ccontr) (simp add: validate_value_def)

lemma validate_set_Ok:
  "validate_set checked st p = Ok b \<longleftrightarrow> \<not> b \<and> (\<exists>e. map_of (ps_parameters st) (p_name p) = Some e \<and>
     \<not> pd_read_only (pe_descriptor e) \<and> validate_value checked (p_value p) (pe_descriptor e) = Ok ())"
proof (cases "map_of (ps_parameters st) (p_name p)")
  case None
  then show ?thesis by (simp add: validate_set_def)
next
  case (Some e)
  then show ?thesis
    using validate_value_type [of checked "p_value p" "pe_descriptor e"]
    by (simp add: validate_set_def Let_def) blast
qed

lemma set_param_ok:
  assumes "store_ok checked st" and "validate_set checked st p = Ok b"
  shows "store_ok checked (snd (set_param st p))"
proof -
  obtain e where e: "map_of (ps_parameters st) (p_name p) = Some e"
      and v: "validate_value checked (p_value p) (pe_descriptor e) = Ok ()"
    using assms(2) by (auto simp: validate_set_Ok)
  have "entry_ok checked (p_name p, e)"
    using assms(1) map_of_SomeD [OF e] by (auto simp: store_ok_def list_all_iff)
  then show ?thesis
    using assms(1) e v
    by (auto simp: set_param_def store_ok_def entry_ok_def distinct_update intro!: list_all_update)
qed

lemma undeclare_param_ok:
  "store_ok checked st \<Longrightarrow> store_ok checked (snd (undeclare_param st name))"
  by (auto simp: undeclare_param_def store_ok_def list_all_delete distinct_delete split: option.splits)

section \<open>Lookup laws\<close>

lemma map_of_set_param:
  "map_of (ps_parameters (snd (set_param st p))) n =
     (if n = p_name p then map_option (\<lambda>e. e\<lparr>pe_value := p_value p\<rparr>) (map_of (ps_parameters st) n)
      else map_of (ps_parameters st) n)"
  by (auto simp: set_param_def update_conv' split: option.splits)

lemma get_set_param:
  "get_param (snd (set_param st p)) n =
     (if n = p_name p \<and> get_param st n \<noteq> None then Some (p_value p) else get_param st n)"
  by (auto simp: get_param_def map_of_set_param)

lemma describe_set_param [simp]: "describe_param (snd (set_param st p)) n = describe_param st n"
  by (simp add: describe_param_def map_of_set_param option.map_comp comp_def)

lemma fst_set_param [simp]: "fst (set_param st p) = get_param st (p_name p)"
  by (auto simp: set_param_def get_param_def split: option.splits)

lemma get_undeclare_param:
  "get_param (snd (undeclare_param st name)) n = (if n = name then None else get_param st n)"
  by (auto simp: undeclare_param_def get_param_def delete_conv' split: option.splits)

lemma get_declare_param:
  "get_param (snd (declare_param checked st name dflt d)) n =
     (case fst (declare_param checked st name dflt d) of
        Ok v \<Rightarrow> if n = name then Some v else get_param st n
      | _ \<Rightarrow> get_param st n)"
  by (auto simp: declare_param_def get_param_def Let_def update_conv' split: res.splits)

section \<open>Contract towards the service\<close>

text \<open>
  A store of described values: writing an admitted value keeps the store well formed,
  touches one declared name only and no description.
\<close>

locale parameter_map =
  fixes ok :: "'s \<Rightarrow> bool"
    and get :: "'s \<Rightarrow> string \<Rightarrow> 'v option"
    and desc :: "'s \<Rightarrow> string \<Rightarrow> 'd option"
    and admits :: "'d \<Rightarrow> 'v \<Rightarrow> bool"
    and put :: "string \<times> 'v \<Rightarrow> 's \<Rightarrow> 's"
  assumes put_ok: "ok s \<Longrightarrow> desc s n = Some d \<Longrightarrow> admits d v \<Longrightarrow> ok (put (n, v) s)"
    and put_get: "get (put (n, v) s) m = (if m = n \<and> get s m \<noteq> None then Some v else get s m)"
    and put_desc: "desc (put nv s) m = desc s m"
begin

lemma puts_desc: "desc (fold put xs s) m = desc s m"
  by (induction xs arbitrary: s) (simp_all add: put_desc)

lemma puts_get:
  "get (fold put xs s) m =
     (case map_of (rev xs) m of Some v \<Rightarrow> if get s m = None then None else Some v | None \<Rightarrow> get s m)"
proof (induction xs rule: rev_induct)
  case (snoc x xs)
  then show ?case by (cases x) (auto simp: put_get split: option.splits)
qed simp

lemma puts_ok:
  assumes "ok s" and "\<forall>(n, v) \<in> set xs. \<exists>d. desc s n = Some d \<and> admits d v"
  shows "ok (fold put xs s)"
  using assms
proof (induction xs arbitrary: s)
  case (Cons x xs)
  then have "ok (put x s)" by (cases x) (auto intro: put_ok)
  with Cons show ?case by (simp add: put_desc)
qed simp

end

definition admits_value :: "bool \<Rightarrow> parameter_descriptor \<Rightarrow> parameter_value \<Rightarrow> bool" where
  "admits_value checked d v \<longleftrightarrow> \<not> pd_read_only d \<and> validate_value checked v d = Ok ()"

definition put_param :: "string \<times> parameter_value \<Rightarrow> parameter_store \<Rightarrow> parameter_store" where
  "put_param nv st = snd (set_param st \<lparr>p_name = fst nv, p_value = snd nv\<rparr>)"

lemma validate_set_admits:
  "validate_set checked st p = Ok b \<longleftrightarrow>
     \<not> b \<and> (\<exists>d. describe_param st (p_name p) = Some d \<and> admits_value checked d (p_value p))"
  by (auto simp: validate_set_Ok describe_param_def admits_value_def)

interpretation psm: parameter_map "store_ok checked" get_param describe_param "admits_value checked" put_param
  for checked
proof
  show "store_ok checked (put_param (n, v) s)"
    if "store_ok checked s" "describe_param s n = Some d" "admits_value checked d v" for s n d v
    using that set_param_ok [of checked s "\<lparr>p_name = n, p_value = v\<rparr>" False]
    by (auto simp: put_param_def validate_set_admits)
  show "get_param (put_param (n, v) s) m = (if m = n \<and> get_param s m \<noteq> None then Some v else get_param s m)"
    for n v s m by (auto simp: put_param_def get_set_param)
  show "describe_param (put_param nv s) m = describe_param s m" for nv s m by (simp add: put_param_def)
qed

section \<open>Facts on listing\<close>

definition level_below :: "string \<Rightarrow> string \<Rightarrow> nat" where
  "level_below p name =
     (if name_suffix p name = [] then 0 else length (split_on CHR ''.'' (name_suffix p name)))"

lemma length_split_on: "length (split_on c s) = Suc (length (filter (\<lambda>x. x = c) s))"
  by (induction s) (auto split: list.splits)

lemma param_depth_level: "param_depth (name_suffix p name) = level_below p name"
  by (simp add: param_depth_def level_below_def length_split_on)

lemma before_last_dot_None: "before_last_dot s = None \<longleftrightarrow> CHR ''.'' \<notin> set s"
  by (induction s) (auto split: option.splits)

lemma before_last_dot_Some:
  "before_last_dot s = Some p \<longleftrightarrow> (\<exists>q. s = p @ ''.'' @ q \<and> CHR ''.'' \<notin> set q)"
proof (induction s arbitrary: p)
  case (Cons c s)
  show ?case
  proof (cases "before_last_dot s")
    case None
    moreover from this have "CHR ''.'' \<notin> set s" by (simp add: before_last_dot_None)
    ultimately show ?thesis by (auto simp: Cons_eq_append_conv)
  next
    case (Some p')
    with Cons.IH obtain q where q: "s = p' @ ''.'' @ q" "CHR ''.'' \<notin> set q" by blast
    then have "CHR ''.'' \<in> set s" by simp
    with Cons.IH Some show ?thesis by (cases p) (auto simp: Cons_eq_append_conv)
  qed
qed simp

lemma list_loop_names: "fst (list_loop pfs depth ns names found) = names @ filter (listed pfs depth) ns"
  by (induction ns arbitrary: names found) auto

lemma list_loop_found:
  "set (snd (list_loop pfs depth ns names found)) =
     set found \<union> {p. \<exists>n \<in> set ns. listed pfs depth n \<and> before_last_dot n = Some p}"
  by (induction ns arbitrary: names found) (auto split: option.splits)

lemma list_loop_distinct: "distinct found \<Longrightarrow> distinct (snd (list_loop pfs depth ns names found))"
  by (induction ns arbitrary: names found) (auto split: option.splits)

lemma list_loop_parents:
  "set (snd (list_loop pfs depth ns [] [])) =
     {p. \<exists>q. CHR ''.'' \<notin> set q \<and> p @ ''.'' @ q \<in> set (filter (listed pfs depth) ns)}"
  by (auto simp: list_loop_found before_last_dot_Some)

lemma list_params_simps:
  "lr_names (list_params st pfs depth) = sort (filter (listed pfs depth) (map fst (ps_parameters st)))"
  "lr_prefixes (list_params st pfs depth) = sort (snd (list_loop pfs depth (map fst (ps_parameters st)) [] []))"
  using list_loop_names [of pfs depth "map fst (ps_parameters st)" "[]" "[]"]
  by (simp_all add: list_params_def split_beta)

lemma sort_cong_mset: "mset xs = mset ys \<Longrightarrow> sort xs = sort (ys :: 'a::linorder list)"
  by (rule properties_for_sort) simp_all

lemma listed_iff:
  "listed pfs depth n \<longleftrightarrow> (pfs = [] \<or> (\<exists>p \<in> set pfs. under_prefix n p)) \<and>
     (depth = 0 \<or> level_below (matching_prefix pfs n) n \<le> unat depth)"
  by (simp add: listed_def matches_prefixes_def depth_recursive_def param_depth_level not_less)

lemma declared_iff: "n \<in> fst ` set (ps_parameters st) \<longleftrightarrow> get_param st n \<noteq> None"
  by (simp add: get_param_def map_of_eq_None_iff)

section \<open>Properties\<close>

text \<open>
  Listing parameters. The names are sorted, without duplicates, and are exactly the
  declared names under one of the prefixes (any name if there are none) whose level below
  the first matching prefix is within the depth, 0 meaning no limit; the prefixes are the
  sorted parents of the names listed. The result does not depend on the iteration order of
  the hash map.
\<close>

theorem list_params_correct:
  assumes "store_ok checked st"
  shows "sorted (lr_names (list_params st pfs depth)) \<and> distinct (lr_names (list_params st pfs depth)) \<and>
         set (lr_names (list_params st pfs depth)) =
           {n. get_param st n \<noteq> None \<and> (pfs = [] \<or> (\<exists>p \<in> set pfs. under_prefix n p)) \<and>
               (depth = 0 \<or> level_below (matching_prefix pfs n) n \<le> unat depth)} \<and>
         sorted (lr_prefixes (list_params st pfs depth)) \<and> distinct (lr_prefixes (list_params st pfs depth)) \<and>
         set (lr_prefixes (list_params st pfs depth)) =
           {p. \<exists>q. CHR ''.'' \<notin> set q \<and> p @ ''.'' @ q \<in> set (lr_names (list_params st pfs depth))} \<and>
         (\<forall>st'. mset (ps_parameters st') = mset (ps_parameters st) \<longrightarrow>
            list_params st' pfs depth = list_params st pfs depth)"
proof -
  have names: "set (lr_names (list_params st pfs depth)) =
      {n. get_param st n \<noteq> None \<and> (pfs = [] \<or> (\<exists>p \<in> set pfs. under_prefix n p)) \<and>
          (depth = 0 \<or> level_below (matching_prefix pfs n) n \<le> unat depth)}"
    unfolding list_params_simps set_sort set_filter set_map declared_iff listed_iff by blast
  have shape: "sorted (lr_names (list_params st pfs depth))" "distinct (lr_names (list_params st pfs depth))"
      "sorted (lr_prefixes (list_params st pfs depth))" "distinct (lr_prefixes (list_params st pfs depth))"
    using assms by (simp_all add: list_params_simps list_loop_distinct store_ok_def)
  have "list_params st' pfs depth = list_params st pfs depth"
    if m: "mset (ps_parameters st') = mset (ps_parameters st)" for st'
  proof (rule wire_list_parameters_result.equality)
    have k: "mset (map fst (ps_parameters st')) = mset (map fst (ps_parameters st))" using m by simp
    then show "lr_names (list_params st' pfs depth) = lr_names (list_params st pfs depth)"
      unfolding list_params_simps by (intro sort_cong_mset) (simp only: mset_filter)
    have "set (map fst (ps_parameters st')) = set (map fst (ps_parameters st))" using k by (rule mset_eq_setD)
    then have "set (snd (list_loop pfs depth (map fst (ps_parameters st')) [] [])) =
        set (snd (list_loop pfs depth (map fst (ps_parameters st)) [] []))"
      by (simp only: list_loop_found)
    then show "lr_prefixes (list_params st' pfs depth) = lr_prefixes (list_params st pfs depth)"
      unfolding list_params_simps by (intro sort_cong_mset) (simp add: set_eq_iff_mset_eq_distinct [symmetric] list_loop_distinct)
  qed simp
  moreover have "set (lr_prefixes (list_params st pfs depth)) =
      {p. \<exists>q. CHR ''.'' \<notin> set q \<and> p @ ''.'' @ q \<in> set (lr_names (list_params st pfs depth))}"
    unfolding list_params_simps set_sort by (rule list_loop_parents)
  ultimately show ?thesis using names shape by blast
qed

definition nested_store :: parameter_store where
  "nested_store = snd (declare_param True (snd (declare_param True ps_new ''a.b.c'' (PBool True) pd_default))
     ''a.x'' (PInteger 7) pd_default)"

lemma nested_store_ok: "store_ok True nested_store"
  unfolding nested_store_def by (intro declare_param_ok) (simp add: store_ok_def ps_new_def)

lemma list_params_correct_witness:
  "store_ok True nested_store \<and>
   set (lr_names (list_params nested_store [''a''] 1)) =
     {n. get_param nested_store n \<noteq> None \<and> ([''a''] = [] \<or> (\<exists>p \<in> set [''a'']. under_prefix n p)) \<and>
         ((1 :: u64) = 0 \<or> level_below (matching_prefix [''a''] n) n \<le> unat (1 :: u64))}"
  using list_params_correct [OF nested_store_ok, of "[''a'']" 1] nested_store_ok by blast

definition effective_descriptor :: "string \<Rightarrow> parameter_value \<Rightarrow> parameter_descriptor \<Rightarrow> parameter_descriptor" where
  "effective_descriptor name v d =
     (if pd_type d = PT_NotSet then d\<lparr>pd_type := value_type v\<rparr> else d)\<lparr>pd_name := name\<rparr>"

lemma declare_param_fresh:
  assumes "get_param st name = None" and v_def: "v = unwrap_or (map_of (ps_overrides st) name) dflt"
  shows "declare_param checked st name dflt d =
     (let st1 = st\<lparr>ps_overrides := AList.delete name (ps_overrides st)\<rparr>; d2 = effective_descriptor name v d
      in case validate_value checked v d2 of
           Err r \<Rightarrow> (Err (InvalidInitialValue name r), st1)
         | Panic \<Rightarrow> (Panic, st1)
         | Ok _ \<Rightarrow> (Ok v,
             st1\<lparr>ps_parameters := AList.update name \<lparr>pe_value = v, pe_descriptor = d2\<rparr> (ps_parameters st1)\<rparr>))"
  unfolding v_def using assms(1) by (simp add: declare_param_def get_param_def effective_descriptor_def Let_def)

text \<open>
  Declaring a parameter. A declared name is refused and nothing changes. Otherwise the
  initial value is the override if there is one, the type is inferred if it was left open,
  and the parameter is declared with that value and description exactly if the value is
  valid; a refused value leaves every parameter as it was but uses up the override. The
  invariant of the store holds again in every case.
\<close>

theorem declare_param_correct:
  assumes "store_ok checked st"
    and "declare_param checked st name dflt d = (r, st')"
    and "v = unwrap_or (map_of (ps_overrides st) name) dflt"
    and "d' = effective_descriptor name v d"
  shows "store_ok checked st' \<and>
         (get_param st name \<noteq> None \<longrightarrow> r = Err (AlreadyDeclared name) \<and> st' = st) \<and>
         (get_param st name = None \<longrightarrow>
            (is_ok r \<longleftrightarrow> validate_value checked v d' = Ok ()) \<and>
            (is_ok r \<longrightarrow> r = Ok v \<and> get_param st' name = Some v \<and> describe_param st' name = Some d') \<and>
            (\<not> is_ok r \<longrightarrow> get_param st' name = None) \<and>
            (\<forall>n. n \<noteq> name \<longrightarrow> get_param st' n = get_param st n \<and> describe_param st' n = describe_param st n) \<and>
            map_of (ps_overrides st') = (map_of (ps_overrides st))(name := None))"
proof (cases "get_param st name")
  case (Some w)
  then have "declare_param checked st name dflt d = (Err (AlreadyDeclared name), st)"
    by (auto simp: declare_param_def get_param_def)
  then show ?thesis using assms(1,2) Some by simp
next
  case None
  note eq = declare_param_fresh [OF None assms(3), of checked d, folded assms(4)]
  have "store_ok checked st'" using declare_param_ok [OF assms(1), of name dflt d] assms(2) by simp
  then show ?thesis
    using None assms(2) unfolding eq
    by (auto simp: Let_def get_param_def describe_param_def update_conv' delete_conv' delete_conv split: res.splits)
qed

lemma declare_param_correct_witness:
  "fst (declare_param True (ps_with_overrides [(''n'', PInteger 5)]) ''n'' (PInteger 1) pd_default) = Ok (PInteger 5)"
proof -
  obtain r st' where eq: "declare_param True (ps_with_overrides [(''n'', PInteger 5)]) ''n'' (PInteger 1) pd_default = (r, st')"
    by (cases "declare_param True (ps_with_overrides [(''n'', PInteger 5)]) ''n'' (PInteger 1) pd_default")
  have "store_ok True (ps_with_overrides [(''n'', PInteger 5)])"
    by (simp add: store_ok_def ps_with_overrides_def)
  from declare_param_correct [OF this eq refl refl] eq show ?thesis
    by (simp add: ps_with_overrides_def get_param_def effective_descriptor_def pd_default_def validate_value_def)
qed

text \<open>
  C23: the integer range check is exact wherever the offset from the lower bound fits in 63
  bits: it never panics and accepts exactly the values in the range that are on the step
  grid or the upper bound. Beyond that, a build with overflow checks panics on any value in
  the range, and a build without them measures the complement of the offset.
\<close>

theorem integer_range_exact:
  "(sint v - sint (ir_from_value r) < 2 ^ 63 \<longrightarrow>
      validate_integer_range checked v r \<noteq> Panic \<and>
      (validate_integer_range checked v r = Ok () \<longleftrightarrow>
         sint (ir_from_value r) \<le> sint v \<and> sint v \<le> sint (ir_to_value r) \<and>
         (ir_step r = 0 \<or> uint (ir_step r) dvd sint v - sint (ir_from_value r) \<or> v = ir_to_value r))) \<and>
   (2 ^ 63 \<le> sint v - sint (ir_from_value r) \<and> sint v \<le> sint (ir_to_value r) \<and> ir_step r \<noteq> 0 \<longrightarrow>
      validate_integer_range True v r = Panic \<and>
      (validate_integer_range False v r = Ok () \<longleftrightarrow>
         uint (ir_step r) dvd 2 ^ 64 - (sint v - sint (ir_from_value r)) \<or> v = ir_to_value r))"
proof (intro conjI impI; (elim conjE)?)
  assume small: "sint v - sint (ir_from_value r) < 2 ^ 63"
  show "validate_integer_range checked v r \<noteq> Panic" by (rule validate_integer_range_ok [OF small])
  show "validate_integer_range checked v r = Ok () \<longleftrightarrow>
         sint (ir_from_value r) \<le> sint v \<and> sint v \<le> sint (ir_to_value r) \<and>
         (ir_step r = 0 \<or> uint (ir_step r) dvd sint v - sint (ir_from_value r) \<or> v = ir_to_value r)"
    using validate_integer_range_ok(2) [OF small] by (simp only: on_grid_def)
next
  assume big: "2 ^ 63 \<le> sint v - sint (ir_from_value r)" "sint v \<le> sint (ir_to_value r)" "ir_step r \<noteq> 0"
  then show "validate_integer_range True v r = Panic" by (simp add: validate_integer_range_def)
  have "unsigned_abs (v - ir_from_value r) mod ir_step r = 0 \<longleftrightarrow>
      uint (ir_step r) dvd 2 ^ 64 - (sint v - sint (ir_from_value r))"
    by (rule overflow_offset_grid [OF big(1)])
  then show "validate_integer_range False v r = Ok () \<longleftrightarrow>
         uint (ir_step r) dvd 2 ^ 64 - (sint v - sint (ir_from_value r)) \<or> v = ir_to_value r"
    using big by (auto simp: validate_integer_range_def Let_def)
qed

lemma integer_range_exact_witness:
  "validate_integer_range True 10 \<lparr>ir_from_value = 0, ir_to_value = 100, ir_step = 5\<rparr> = Ok () \<and>
   validate_integer_range True (2 ^ 62) \<lparr>ir_from_value = - (2 ^ 63), ir_to_value = 2 ^ 62, ir_step = 5\<rparr> = Panic"
  using integer_range_exact [of 10 "\<lparr>ir_from_value = 0, ir_to_value = 100, ir_step = 5\<rparr>" True]
    integer_range_exact [of "2 ^ 62" "\<lparr>ir_from_value = - (2 ^ 63), ir_to_value = 2 ^ 62, ir_step = 5\<rparr>" True]
  by simp

end
