(* ===== verification/Parameter_Service.thy ===== *)
theory Parameter_Service
  imports Parameter_Store
begin

text \<open>
  \<open>crates/hiroz/src/parameter/service.rs\<close>: the parameter state of a node, the two phases of
  a parameter update with the user's callback between them, change events and the six
  request handlers. The callback is a parameter of the model with a state of its own; it
  may panic. A panic under the write lock of the store poisons the lock for good. Requests
  that run at the same time, or that the callback itself makes, interleave between the
  phases: the relation \<open>param_step\<close>.
\<close>

section \<open>State\<close>

record parameter_event =
  ev_node :: string
  ev_new_parameters :: "wire_parameter list"
  ev_changed_parameters :: "wire_parameter list"
  ev_deleted_parameters :: "wire_parameter list"

record event_changes =
  ec_new_parameters :: "wire_parameter list"
  ec_changed_parameters :: "wire_parameter list"
  ec_deleted_parameters :: "wire_parameter list"

definition ec_default :: event_changes where
  "ec_default = \<lparr>ec_new_parameters = [], ec_changed_parameters = [], ec_deleted_parameters = []\<rparr>"

definition record_declared :: "event_changes \<Rightarrow> parameter \<Rightarrow> event_changes" where
  "record_declared c p = c\<lparr>ec_new_parameters := ec_new_parameters c @ [param_to_wire p]\<rparr>"

definition record_changed :: "event_changes \<Rightarrow> parameter \<Rightarrow> event_changes" where
  "record_changed c p = c\<lparr>ec_changed_parameters := ec_changed_parameters c @ [param_to_wire p]\<rparr>"

definition record_deleted :: "event_changes \<Rightarrow> parameter \<Rightarrow> event_changes" where
  "record_deleted c p = c\<lparr>ec_deleted_parameters := ec_deleted_parameters c @ [param_to_wire p]\<rparr>"

definition ec_is_empty :: "event_changes \<Rightarrow> bool" where
  "ec_is_empty c \<longleftrightarrow> ec_new_parameters c = [] \<and> ec_changed_parameters c = [] \<and> ec_deleted_parameters c = []"

text \<open>The callback: its state and the parameters to its verdict, \<open>None\<close> for a panic.\<close>

type_synonym 'u set_callback = "'u \<Rightarrow> parameter list \<Rightarrow> set_parameters_result option \<times> 'u"

record 'u parameter_state =
  st_store :: parameter_store
  st_poisoned :: bool
  st_callback :: "'u set_callback option"
  st_user :: 'u
  st_events :: "parameter_event list"
  st_node_fqn :: string

definition node_fqn :: "string \<Rightarrow> string \<Rightarrow> string" where
  "node_fqn namespace node_name =
     (if namespace = [] \<or> namespace = ''/'' then ''/'' @ node_name else namespace @ ''/'' @ node_name)"

definition st_new :: "string \<Rightarrow> string \<Rightarrow> (string \<times> parameter_value) list \<Rightarrow> 'u \<Rightarrow> 'u parameter_state" where
  "st_new namespace node_name overrides u =
     \<lparr>st_store = (if overrides = [] then ps_new else ps_with_overrides overrides), st_poisoned = False,
      st_callback = None, st_user = u, st_events = [], st_node_fqn = node_fqn namespace node_name\<rparr>"

definition publish_changes :: "'u parameter_state \<Rightarrow> event_changes \<Rightarrow> 'u parameter_state" where
  "publish_changes s changes =
     (if ec_is_empty changes then s
      else s\<lparr>st_events := st_events s @
        [\<lparr>ev_node = st_node_fqn s, ev_new_parameters = ec_new_parameters changes,
          ev_changed_parameters = ec_changed_parameters changes,
          ev_deleted_parameters = ec_deleted_parameters changes\<rparr>]\<rparr>)"

section \<open>Operations of the node\<close>

definition declare_parameter ::
  "bool \<Rightarrow> 'u parameter_state \<Rightarrow> string \<Rightarrow> parameter_value \<Rightarrow> parameter_descriptor \<Rightarrow>
   (parameter_value, reason) res \<times> 'u parameter_state" where
  "declare_parameter checked s name dflt d =
     (if st_poisoned s then (Err StoreLockPoisoned, s)
      else
        (let (r, store') = declare_param checked (st_store s) name dflt d; s' = s\<lparr>st_store := store'\<rparr>
         in case r of
              Ok initial \<Rightarrow>
                (Ok initial, publish_changes s' (record_declared ec_default \<lparr>p_name = name, p_value = initial\<rparr>))
            | Err e \<Rightarrow> (Err e, s')
            | Panic \<Rightarrow> (Panic, s'\<lparr>st_poisoned := True\<rparr>)))"

definition get_parameter :: "'u parameter_state \<Rightarrow> string \<Rightarrow> parameter_value option" where
  "get_parameter s name = (if st_poisoned s then None else get_param (st_store s) name)"

definition describe_parameter :: "'u parameter_state \<Rightarrow> string \<Rightarrow> parameter_descriptor option" where
  "describe_parameter s name = (if st_poisoned s then None else describe_param (st_store s) name)"

definition list_parameters :: "'u parameter_state \<Rightarrow> string list \<Rightarrow> u64 \<Rightarrow> wire_list_parameters_result" where
  "list_parameters s pfs depth =
     (if st_poisoned s then \<lparr>lr_names = [], lr_prefixes = []\<rparr> else list_params (st_store s) pfs depth)"

definition on_set_parameters :: "'u parameter_state \<Rightarrow> 'u set_callback \<Rightarrow> 'u parameter_state" where
  "on_set_parameters s cb = s\<lparr>st_callback := Some cb\<rparr>"

definition undeclare_parameter :: "'u parameter_state \<Rightarrow> string \<Rightarrow> (unit, reason) res \<times> 'u parameter_state" where
  "undeclare_parameter s name =
     (if st_poisoned s then (Err StoreLockPoisoned, s)
      else
        (case undeclare_param (st_store s) name of
           (Ok removed, store') \<Rightarrow>
             (Ok (), publish_changes (s\<lparr>st_store := store'\<rparr>) (record_deleted ec_default removed))
         | (Err e, store') \<Rightarrow> (Err e, s\<lparr>st_store := store'\<rparr>)
         | (Panic, store') \<Rightarrow> (Panic, s\<lparr>st_store := store'\<rparr>)))"

section \<open>Updates\<close>

text \<open>The first phase, under the read lock: every parameter is checked against the store.\<close>

fun validate_all :: "bool \<Rightarrow> parameter_store \<Rightarrow> parameter list \<Rightarrow> (set_parameters_result list, reason) res" where
  "validate_all checked st [] = Ok []"
| "validate_all checked st (p # ps) =
     (case validate_set checked st p of
        Ok _ \<Rightarrow> res_map (Cons sr_success) (validate_all checked st ps)
      | Err r \<Rightarrow> res_map (Cons (sr_failure r)) (validate_all checked st ps)
      | Panic \<Rightarrow> Panic)"

definition all_successful :: "set_parameters_result list \<Rightarrow> bool" where
  "all_successful rs = list_all sr_successful rs"

text \<open>
  The callback, without a lock: once on all parameters or once per accepted parameter.
  \<open>Inl\<close> is the early return of a rejected atomic request.
\<close>

fun callback_each ::
  "'u set_callback \<Rightarrow> 'u \<Rightarrow> (parameter \<times> set_parameters_result) list \<Rightarrow> set_parameters_result list option \<times> 'u" where
  "callback_each cb u [] = (Some [], u)"
| "callback_each cb u ((p, r) # prs) =
     (if sr_successful r
      then (case cb u [p] of
              (None, u') \<Rightarrow> (None, u')
            | (Some v, u') \<Rightarrow>
                (case callback_each cb u' prs of
                   (None, u'') \<Rightarrow> (None, u'')
                 | (Some rs, u'') \<Rightarrow>
                     (Some ((if sr_successful v then r else sr_failure (sr_reason v)) # rs), u'')))
      else
        (case callback_each cb u prs of
           (None, u'') \<Rightarrow> (None, u'')
         | (Some rs, u'') \<Rightarrow> (Some (r # rs), u'')))"

definition callback_atomic ::
  "'u set_callback \<Rightarrow> 'u \<Rightarrow> parameter list \<Rightarrow> set_parameters_result list \<Rightarrow>
   (set_parameters_result list + set_parameters_result list) option \<times> 'u" where
  "callback_atomic cb u params results =
     (if all_successful results
      then (case cb u params of
              (None, u') \<Rightarrow> (None, u')
            | (Some v, u') \<Rightarrow>
                (Some (if sr_successful v then Inr results else Inl (map (\<lambda>_. sr_failure (sr_reason v)) params)), u'))
      else (Some (Inr results), u))"

definition callback_phase ::
  "'u set_callback option \<Rightarrow> 'u \<Rightarrow> parameter list \<Rightarrow> bool \<Rightarrow> set_parameters_result list \<Rightarrow>
   (set_parameters_result list + set_parameters_result list) option \<times> 'u" where
  "callback_phase callback u params atomic results =
     (case callback of
        None \<Rightarrow> (Some (Inr results), u)
      | Some cb \<Rightarrow>
          if atomic then callback_atomic cb u params results
          else (case callback_each cb u (zip params results) of
                  (None, u') \<Rightarrow> (None, u')
                | (Some rs, u') \<Rightarrow> (Some (Inr rs), u')))"

text \<open>The second phase, under the write lock: accepted parameters are stored in order.\<close>

fun apply_all ::
  "parameter_store \<Rightarrow> event_changes \<Rightarrow> (parameter \<times> set_parameters_result) list \<Rightarrow> parameter_store \<times> event_changes" where
  "apply_all st changes [] = (st, changes)"
| "apply_all st changes ((p, r) # prs) =
     (if \<not> sr_successful r then apply_all st changes prs
      else (let (old, st') = set_param st p
            in apply_all st' (if old \<noteq> None then record_changed changes p else changes) prs))"

definition lock_failures :: "parameter list \<Rightarrow> set_parameters_result list" where
  "lock_failures params = map (\<lambda>_. sr_failure StoreLockPoisoned) params"

definition validate_and_apply ::
  "bool \<Rightarrow> 'u parameter_state \<Rightarrow> parameter list \<Rightarrow> bool \<Rightarrow>
   (set_parameters_result list, reason) res \<times> 'u parameter_state" where
  "validate_and_apply checked s params atomic =
     (if st_poisoned s then (Ok (lock_failures params), s)
      else
        (case validate_all checked (st_store s) params of
           Panic \<Rightarrow> (Panic, s)
         | Err e \<Rightarrow> (Err e, s)
         | Ok results \<Rightarrow>
             (case callback_phase (st_callback s) (st_user s) params atomic results of
                (None, u) \<Rightarrow> (Panic, s\<lparr>st_user := u\<rparr>)
              | (Some (Inl rs), u) \<Rightarrow> (Ok rs, s\<lparr>st_user := u\<rparr>)
              | (Some (Inr rs), u) \<Rightarrow>
                  if atomic \<and> \<not> all_successful rs then (Ok rs, s\<lparr>st_user := u\<rparr>)
                  else (let (store', changes) = apply_all (st_store s) ec_default (zip params rs)
                        in (Ok rs, publish_changes (s\<lparr>st_user := u, st_store := store'\<rparr>) changes)))))"

definition set_parameter :: "bool \<Rightarrow> 'u parameter_state \<Rightarrow> parameter \<Rightarrow> (unit, reason) res \<times> 'u parameter_state" where
  "set_parameter checked s p =
     (case validate_and_apply checked s [p] False of
        (Ok rs, s') \<Rightarrow>
          (let r = (case rs of [] \<Rightarrow> sr_failure InternalError | r # _ \<Rightarrow> r)
           in (if sr_successful r then Ok () else Err (sr_reason r), s'))
      | (Err e, s') \<Rightarrow> (Err e, s')
      | (Panic, s') \<Rightarrow> (Panic, s'))"

section \<open>Request handlers\<close>

text \<open>
  A request is \<open>None\<close> if it cannot be decoded; a reply is \<open>None\<close> if the handler returns
  without one.
\<close>

definition handle_describe_parameters ::
  "'u parameter_state \<Rightarrow> string list option \<Rightarrow> wire_parameter_descriptor list option" where
  "handle_describe_parameters s req =
     (case req of None \<Rightarrow> None
      | Some names \<Rightarrow> if st_poisoned s then None else Some (describe_many (st_store s) names))"

definition handle_get_parameters ::
  "'u parameter_state \<Rightarrow> string list option \<Rightarrow> wire_parameter_value list option" where
  "handle_get_parameters s req =
     (case req of None \<Rightarrow> None
      | Some names \<Rightarrow> if st_poisoned s then None else Some (get_many (st_store s) names))"

definition handle_get_parameter_types :: "'u parameter_state \<Rightarrow> string list option \<Rightarrow> u8 list option" where
  "handle_get_parameter_types s req =
     (case req of None \<Rightarrow> None
      | Some names \<Rightarrow> if st_poisoned s then None else Some (get_types (st_store s) names))"

definition handle_list_parameters ::
  "'u parameter_state \<Rightarrow> (string list \<times> u64) option \<Rightarrow> wire_list_parameters_result option" where
  "handle_list_parameters s req =
     (case req of None \<Rightarrow> None
      | Some (pfs, depth) \<Rightarrow> if st_poisoned s then None else Some (list_params (st_store s) pfs depth))"

definition handle_set_parameters ::
  "bool \<Rightarrow> 'u parameter_state \<Rightarrow> wire_parameter list option \<Rightarrow>
   (set_parameters_result list option, reason) res \<times> 'u parameter_state" where
  "handle_set_parameters checked s req =
     (case req of None \<Rightarrow> (Ok None, s)
      | Some ws \<Rightarrow>
          (case validate_and_apply checked s (map param_from_wire ws) False of
             (r, s') \<Rightarrow> (res_map Some r, s')))"

definition overall_result :: "set_parameters_result list \<Rightarrow> set_parameters_result" where
  "overall_result results =
     (let successful = all_successful results
      in \<lparr>sr_successful = successful,
          sr_reason = (if successful then NoReason
            else unwrap_or (map_option sr_reason (find (\<lambda>r. \<not> sr_successful r) results)) NoReason)\<rparr>)"

definition handle_set_parameters_atomically ::
  "bool \<Rightarrow> 'u parameter_state \<Rightarrow> wire_parameter list option \<Rightarrow>
   (set_parameters_result option, reason) res \<times> 'u parameter_state" where
  "handle_set_parameters_atomically checked s req =
     (case req of None \<Rightarrow> (Ok None, s)
      | Some ws \<Rightarrow>
          (case validate_and_apply checked s (map param_from_wire ws) True of
             (r, s') \<Rightarrow> (res_map (Some \<circ> overall_result) r, s')))"

section \<open>Facts on the phases\<close>

definition accepted :: "(parameter \<times> set_parameters_result) list \<Rightarrow> parameter list" where
  "accepted prs = map fst (filter (\<lambda>(p, r). sr_successful r) prs)"

definition assignments :: "parameter list \<Rightarrow> (string \<times> parameter_value) list" where
  "assignments ps = map (\<lambda>p. (p_name p, p_value p)) ps"

lemma accepted_simps [simp]:
  "accepted [] = []"
  "accepted ((p, r) # prs) = (if sr_successful r then p # accepted prs else accepted prs)"
  by (simp_all add: accepted_def)

lemma assignments_simps [simp]:
  "assignments [] = []"
  "assignments (p # ps) = (p_name p, p_value p) # assignments ps"
  by (simp_all add: assignments_def)

lemma put_param_eq: "snd (set_param st p) = put_param (p_name p, p_value p) st"
  by (cases p) (simp add: put_param_def)

lemma apply_all_Cons:
  "apply_all st changes ((p, r) # prs) =
     (if sr_successful r
      then apply_all (put_param (p_name p, p_value p) st)
        (if get_param st (p_name p) \<noteq> None then record_changed changes p else changes) prs
      else apply_all st changes prs)"
  by (simp add: split_beta Let_def put_param_eq)

lemma apply_all_store:
  "fst (apply_all st changes prs) = fold put_param (assignments (accepted prs)) st"
proof (induction prs arbitrary: st changes)
  case (Cons pr prs)
  then show ?case by (cases pr) (simp add: apply_all_Cons del: apply_all.simps)
qed simp

lemma apply_all_changes:
  assumes "\<forall>p \<in> set (accepted prs). get_param st (p_name p) \<noteq> None"
  shows "snd (apply_all st changes prs) =
     changes\<lparr>ec_changed_parameters := ec_changed_parameters changes @ map param_to_wire (accepted prs)\<rparr>"
  using assms
proof (induction prs arbitrary: st changes)
  case (Cons pr prs)
  obtain p r where pr: "pr = (p, r)" by (cases pr)
  have "\<forall>q \<in> set (accepted prs). get_param (put_param (p_name p, p_value p) st) (p_name q) \<noteq> None"
    using Cons.prems pr by (auto simp: psm.put_get split: if_splits)
  from Cons.IH [OF this] Cons.IH [of st] Cons.prems show ?case
    by (simp add: pr apply_all_Cons record_changed_def del: apply_all.simps split: if_splits)
qed simp

lemma res_map_Ok: "res_map f m = Ok b \<longleftrightarrow> (\<exists>a. m = Ok a \<and> b = f a)"
  by (cases m) auto

lemma validate_all_Cons_Ok:
  "validate_all checked st (p # ps) = Ok rs \<longleftrightarrow>
     (\<exists>r rs'. rs = r # rs' \<and> validate_all checked st ps = Ok rs' \<and>
        (validate_set checked st p = Ok False \<and> r = sr_success \<or>
         (\<exists>e. validate_set checked st p = Err e \<and> r = sr_failure e)))"
proof (cases "validate_set checked st p")
  case (Ok b)
  then have "\<not> b" by (simp add: validate_set_Ok)
  with Ok show ?thesis by (auto simp: res_map_Ok)
qed (auto simp: res_map_Ok)

lemma validate_all_not_Err: "validate_all checked st ps \<noteq> Err e"
  by (induction ps) (auto split: res.splits elim!: res_map.elims)

lemma validate_all_length: "validate_all checked st ps = Ok rs \<Longrightarrow> length rs = length ps"
  by (induction ps arbitrary: rs) (auto simp: validate_all_Cons_Ok simp del: validate_all.simps(2))

lemma validate_all_accepted:
  "validate_all checked st ps = Ok rs \<Longrightarrow> p \<in> set (accepted (zip ps rs)) \<Longrightarrow> validate_set checked st p = Ok False"
  by (induction ps arbitrary: rs)
     (auto simp: validate_all_Cons_Ok sr_failure_def sr_success_def simp del: validate_all.simps(2))

text \<open>The callback can only withdraw acceptance.\<close>

lemma callback_each_results:
  "callback_each cb u prs = (Some rs, u') \<Longrightarrow>
     length rs = length prs \<and> list_all2 (\<lambda>(p, r) r'. sr_successful r' \<longrightarrow> sr_successful r) prs rs"
proof (induction prs arbitrary: u rs)
  case (Cons pr prs)
  then show ?case
    by (cases pr) (auto simp: sr_failure_def split: if_splits prod.splits option.splits; blast)
qed simp

lemma accepted_mono:
  assumes "length rs = length ps" and "list_all2 (\<lambda>(p, r) r'. sr_successful r' \<longrightarrow> sr_successful r) (zip ps rs) rs'"
  shows "set (accepted (zip ps rs')) \<subseteq> set (accepted (zip ps rs))"
  using assms
proof (induction rs ps arbitrary: rs' rule: list_induct2)
  case (Cons r rs p ps)
  then show ?case by (cases rs') auto
qed simp

lemma accepted_failures [simp]: "accepted (zip ps (map (\<lambda>_. sr_failure e) qs)) = []"
  by (induction ps arbitrary: qs) (auto simp: zip_Cons1 sr_failure_def split: list.splits)

lemma accepted_all:
  "length rs = length ps \<Longrightarrow> all_successful rs \<Longrightarrow> accepted (zip ps rs) = ps"
  by (induction rs ps rule: list_induct2) (auto simp: all_successful_def)

lemma callback_phase_Inr:
  assumes "callback_phase callback u ps atomic rs = (Some (Inr rs'), u')" and "length rs = length ps"
  shows "length rs' = length ps" and "set (accepted (zip ps rs')) \<subseteq> set (accepted (zip ps rs))"
proof -
  have "rs' = rs \<or> (\<exists>cb. callback_each cb u (zip ps rs) = (Some rs', u'))"
    using assms(1)
    by (auto simp: callback_phase_def callback_atomic_def split: option.splits if_splits prod.splits)
  then show "length rs' = length ps" and "set (accepted (zip ps rs')) \<subseteq> set (accepted (zip ps rs))"
    using assms(2) callback_each_results accepted_mono [OF assms(2)] by fastforce+
qed

lemma callback_phase_Inl:
  assumes "callback_phase callback u ps atomic rs = (Some (Inl rs'), u')"
  shows "atomic" and "length rs' = length ps" and "accepted (zip ps rs') = []"
  using assms by (auto simp: callback_phase_def callback_atomic_def split: option.splits if_splits prod.splits)

lemma validate_float_range_total: "validate_float_range v r \<noteq> Panic"
  by (simp add: validate_float_range_def Let_def)

lemma validate_value_total: "validate_value False v d \<noteq> Panic"
  using validate_float_range_total
  by (cases "pd_floating_point_range d"; cases "pd_integer_range d"; cases v)
     (auto simp: validate_value_def validate_integer_range_def Let_def elim!: res_bind.elims)

lemma validate_all_total: "\<exists>rs. validate_all False st ps = Ok rs"
proof (induction ps)
  case (Cons p ps)
  have "validate_set False st p \<noteq> Panic"
    using validate_value_total
    by (auto simp: validate_set_def Let_def split: option.splits elim!: res_bind.elims)
  with Cons show ?case by (cases "validate_set False st p") auto
qed simp

lemma callback_each_total:
  "(\<And>u ps. fst (cb u ps) \<noteq> None) \<Longrightarrow> fst (callback_each cb u prs) \<noteq> None"
proof (induction prs arbitrary: u)
  case (Cons pr prs)
  obtain p r where pr: "pr = (p, r)" by (cases pr)
  obtain v u' where v: "cb u [p] = (Some v, u')" using Cons.prems [of u "[p]"] by (cases "cb u [p]") auto
  show ?case
    using Cons.IH [OF Cons.prems, of u'] Cons.IH [OF Cons.prems, of u] by (auto simp: pr v split: prod.splits option.splits)
qed simp

lemma callback_phase_total:
  assumes "\<And>cb u ps. callback = Some cb \<Longrightarrow> fst (cb u ps) \<noteq> None"
  shows "fst (callback_phase callback u ps atomic rs) \<noteq> None"
proof (cases callback)
  case None
  then show ?thesis by (simp add: callback_phase_def)
next
  case (Some cb)
  have "fst (callback_atomic cb u ps rs) \<noteq> None"
    using assms [OF Some, of u ps] by (auto simp: callback_atomic_def split: prod.splits option.splits)
  moreover have "fst (callback_each cb u (zip ps rs)) \<noteq> None"
    by (rule callback_each_total) (rule assms [OF Some])
  ultimately show ?thesis
    by (cases "callback_each cb u (zip ps rs)") (auto simp: callback_phase_def Some split: option.splits)
qed

section \<open>Interleaved updates\<close>

text \<open>
  Requests numbered by thread. Between the phases of a request any other request, a
  declaration or, if \<open>undeclaring\<close>, a removal may take place, made by another thread or by
  the callback itself.
\<close>

datatype req_pc =
    Idle
  | Validated "parameter list" bool "set_parameters_result list"
  | Decided "parameter list" "set_parameters_result list"

record param_sys =
  sy_store :: parameter_store
  sy_pc :: "nat \<Rightarrow> req_pc"

definition param_init :: "(string \<times> parameter_value) list \<Rightarrow> param_sys" where
  "param_init overrides = \<lparr>sy_store = ps_with_overrides overrides, sy_pc = (\<lambda>_. Idle)\<rparr>"

inductive param_step :: "bool \<Rightarrow> bool \<Rightarrow> param_sys \<Rightarrow> param_sys \<Rightarrow> bool"
  for checked undeclaring where
  declared: "declare_param checked (sy_store y) name dflt d = (r, st') \<Longrightarrow> r \<noteq> Panic \<Longrightarrow>
     param_step checked undeclaring y (y\<lparr>sy_store := st'\<rparr>)"
| undeclared: "undeclaring \<Longrightarrow> undeclare_param (sy_store y) name = (r, st') \<Longrightarrow>
     param_step checked undeclaring y (y\<lparr>sy_store := st'\<rparr>)"
| validated: "sy_pc y i = Idle \<Longrightarrow> validate_all checked (sy_store y) ps = Ok rs \<Longrightarrow>
     param_step checked undeclaring y (y\<lparr>sy_pc := (sy_pc y)(i := Validated ps atomic rs)\<rparr>)"
| decided: "sy_pc y i = Validated ps atomic rs \<Longrightarrow>
     callback_phase (callback :: nat set_callback option) u ps atomic rs = (Some (Inr rs'), u') \<Longrightarrow>
     \<not> (atomic \<and> \<not> all_successful rs') \<Longrightarrow>
     param_step checked undeclaring y (y\<lparr>sy_pc := (sy_pc y)(i := Decided ps rs')\<rparr>)"
| abandoned: "sy_pc y i = Validated ps atomic rs \<Longrightarrow>
     callback_phase (callback :: nat set_callback option) u ps atomic rs = (outcome, u') \<Longrightarrow>
     (\<forall>rs'. outcome = Some (Inr rs') \<longrightarrow> atomic \<and> \<not> all_successful rs') \<Longrightarrow>
     param_step checked undeclaring y (y\<lparr>sy_pc := (sy_pc y)(i := Idle)\<rparr>)"
| applied: "sy_pc y i = Decided ps rs \<Longrightarrow>
     apply_all (sy_store y) ec_default (zip ps rs) = (st', changes) \<Longrightarrow>
     param_step checked undeclaring y (y\<lparr>sy_store := st', sy_pc := (sy_pc y)(i := Idle)\<rparr>)"

inductive_cases param_stepE: "param_step checked undeclaring y y'"

definition promised :: "bool \<Rightarrow> parameter_store \<Rightarrow> parameter list \<Rightarrow> set_parameters_result list \<Rightarrow> bool" where
  "promised checked st ps rs \<longleftrightarrow> length rs = length ps \<and>
     (\<forall>p \<in> set (accepted (zip ps rs)). validate_set checked st p = Ok False)"

fun pc_ok :: "bool \<Rightarrow> parameter_store \<Rightarrow> req_pc \<Rightarrow> bool" where
  "pc_ok checked st Idle = True"
| "pc_ok checked st (Validated ps atomic rs) = promised checked st ps rs"
| "pc_ok checked st (Decided ps rs) = promised checked st ps rs"

definition sys_ok :: "bool \<Rightarrow> param_sys \<Rightarrow> bool" where
  "sys_ok checked y \<longleftrightarrow> store_ok checked (sy_store y) \<and> (\<forall>i. pc_ok checked (sy_store y) (sy_pc y i))"

text \<open>A description that stays keeps promises.\<close>

definition desc_mono :: "parameter_store \<Rightarrow> parameter_store \<Rightarrow> bool" where
  "desc_mono st st' \<longleftrightarrow> (\<forall>n d. describe_param st n = Some d \<longrightarrow> describe_param st' n = Some d)"

lemma promised_mono: "desc_mono st st' \<Longrightarrow> promised checked st ps rs \<Longrightarrow> promised checked st' ps rs"
  by (auto simp: promised_def validate_set_admits desc_mono_def)

lemma pc_ok_mono: "desc_mono st st' \<Longrightarrow> pc_ok checked st pc \<Longrightarrow> pc_ok checked st' pc"
  by (cases pc) (auto intro: promised_mono)

lemma declare_desc_mono: "declare_param checked st name dflt d = (r, st') \<Longrightarrow> desc_mono st st'"
  by (auto simp: declare_param_def desc_mono_def describe_param_def Let_def update_conv' split: if_splits res.splits)

lemma apply_desc: "apply_all st changes prs = (st', ch') \<Longrightarrow> describe_param st' n = describe_param st n"
  using apply_all_store [of st changes prs] psm.puts_desc [of "assignments (accepted prs)" st n] by simp

lemma promised_apply:
  assumes "store_ok checked st" and "promised checked st ps rs"
    and "apply_all st changes (zip ps rs) = (st', ch')"
  shows "store_ok checked st'"
proof -
  have "st' = fold put_param (assignments (accepted (zip ps rs))) st"
    using apply_all_store [of st changes "zip ps rs"] assms(3) by simp
  moreover have "\<forall>(n, v) \<in> set (assignments (accepted (zip ps rs))). \<exists>d. describe_param st n = Some d \<and> admits_value checked d v"
    using assms(2) by (auto simp: promised_def assignments_def validate_set_admits)
  ultimately show ?thesis using psm.puts_ok [OF assms(1)] by simp
qed

lemma sys_ok_upd:
  assumes "sys_ok checked y" and "desc_mono (sy_store y) st'" and "store_ok checked st'" and "pc_ok checked st' pc"
  shows "sys_ok checked (y\<lparr>sy_store := st', sy_pc := (sy_pc y)(i := pc)\<rparr>)"
  using assms by (auto simp: sys_ok_def intro: pc_ok_mono)

lemma desc_mono_refl [simp]: "desc_mono st st"
  by (simp add: desc_mono_def)

lemma param_step_ok:
  assumes "param_step checked False y y'" and "sys_ok checked y"
  shows "sys_ok checked y' \<and> desc_mono (sy_store y) (sy_store y')"
  using assms(1)
proof cases
  case (declared name dflt d r st')
  then have "desc_mono (sy_store y) st'" "store_ok checked st'"
    using assms(2) declare_desc_mono declare_param_ok [of checked "sy_store y" name dflt d] by (auto simp: sys_ok_def)
  with declared assms(2) show ?thesis by (auto simp: sys_ok_def intro: pc_ok_mono)
next
  case (validated i ps rs atomic)
  then have "promised checked (sy_store y) ps rs"
    using validate_all_length validate_all_accepted by (auto simp: promised_def)
  with validated assms(2) show ?thesis by (auto simp: sys_ok_def)
next
  case (decided i ps atomic rs callback u rs' u')
  from assms(2) decided(2) have "promised checked (sy_store y) ps rs"
    by (auto simp: sys_ok_def dest: spec [of _ i])
  with callback_phase_Inr [OF decided(3)] have "promised checked (sy_store y) ps rs'"
    by (auto simp: promised_def)
  with decided assms(2) show ?thesis by (auto simp: sys_ok_def)
next
  case (abandoned i ps atomic rs callback u outcome u')
  with assms(2) show ?thesis by (auto simp: sys_ok_def)
next
  case (applied i ps rs st' changes)
  from assms(2) applied(2) have "promised checked (sy_store y) ps rs" "store_ok checked (sy_store y)"
    by (auto simp: sys_ok_def dest: spec [of _ i])
  then have "store_ok checked st'" using applied(3) promised_apply by blast
  moreover have "desc_mono (sy_store y) st'" using apply_desc [OF applied(3)] by (simp add: desc_mono_def)
  ultimately show ?thesis using sys_ok_upd [OF assms(2)] applied(1) by simp
qed simp

lemma declare_keeps_declared:
  "declare_param checked st name dflt d = (r, st') \<Longrightarrow> describe_param st n = Some d' \<Longrightarrow> get_param st' n = get_param st n"
  by (auto simp: declare_param_def describe_param_def get_param_def Let_def update_conv' split: if_splits res.splits)

lemma apply_keeps_read_only:
  assumes "promised checked st ps rs" and "apply_all st changes (zip ps rs) = (st', ch')"
    and "describe_param st n = Some d" and "pd_read_only d"
  shows "get_param st' n = get_param st n"
proof -
  have "n \<notin> fst ` set (assignments (accepted (zip ps rs)))"
    using assms(1,3,4) by (auto simp: promised_def assignments_def validate_set_admits admits_value_def)
  then have "map_of (rev (assignments (accepted (zip ps rs)))) n = None" by (simp add: map_of_eq_None_iff)
  then show ?thesis
    using apply_all_store [of st changes "zip ps rs"] assms(2)
      psm.puts_get [of "assignments (accepted (zip ps rs))" st n] by simp
qed

lemma param_step_read_only:
  assumes "param_step checked False y y'" and "sys_ok checked y"
    and "describe_param (sy_store y) n = Some d" and "pd_read_only d"
  shows "get_param (sy_store y') n = get_param (sy_store y) n"
  using assms(1)
proof cases
  case (declared name dflt d r st')
  then show ?thesis using declare_keeps_declared [OF declared(2) assms(3)] by simp
next
  case (applied i ps rs st' changes)
  from assms(2) applied(2) have "promised checked (sy_store y) ps rs" by (auto simp: sys_ok_def dest: spec [of _ i])
  from apply_keeps_read_only [OF this applied(3) assms(3,4)] applied(1) show ?thesis by simp
qed auto

lemma param_steps_ok:
  assumes "(param_step checked False)\<^sup>*\<^sup>* y y'" and "sys_ok checked y"
  shows "sys_ok checked y' \<and> desc_mono (sy_store y) (sy_store y') \<and>
     (\<forall>n d. describe_param (sy_store y) n = Some d \<and> pd_read_only d \<longrightarrow>
        get_param (sy_store y') n = get_param (sy_store y) n)"
  using assms
proof (induction rule: rtranclp_induct)
  case (step z z')
  then have z: "sys_ok checked z" "desc_mono (sy_store y) (sy_store z)" by blast+
  note zz' = param_step_ok [OF step.hyps(2) z(1)]
  have "get_param (sy_store z') n = get_param (sy_store y) n"
    if "describe_param (sy_store y) n = Some d" "pd_read_only d" for n d
    using step.IH step.prems that z(2) param_step_read_only [OF step.hyps(2) z(1), of n d] by (auto simp: desc_mono_def)
  with z zz' show ?case by (auto simp: desc_mono_def)
qed simp

lemma param_init_ok: "sys_ok checked (param_init overrides)"
  by (simp add: sys_ok_def param_init_def store_ok_def ps_with_overrides_def)

text \<open>An uninterrupted update is a run of the steps.\<close>

lemma validate_and_apply_run:
  assumes "validate_and_apply checked s params atomic = (Ok rs, s')" and "\<not> st_poisoned s" and "pc i = Idle"
  shows "(param_step checked undeclaring)\<^sup>*\<^sup>*
     \<lparr>sy_store = st_store (s :: nat parameter_state), sy_pc = pc\<rparr> \<lparr>sy_store = st_store s', sy_pc = pc\<rparr>"
proof -
  let ?y = "\<lparr>sy_store = st_store s, sy_pc = pc\<rparr>"
  obtain rs0 where v: "validate_all checked (st_store s) params = Ok rs0"
    using assms(1,2) by (auto simp: validate_and_apply_def split: res.splits)
  let ?v = "?y\<lparr>sy_pc := pc(i := Validated params atomic rs0)\<rparr>"
  have s1: "param_step checked undeclaring ?y ?v"
    using param_step.validated [of ?y i checked params rs0 undeclaring atomic] v assms(3) by simp
  obtain out u where c: "callback_phase (st_callback s) (st_user s) params atomic rs0 = (out, u)"
    by (cases "callback_phase (st_callback s) (st_user s) params atomic rs0")
  have idle: "pc(i := Idle) = pc" using assms(3) by (simp add: fun_upd_idem)
  show ?thesis
  proof (cases "\<exists>rs'. out = Some (Inr rs') \<and> \<not> (atomic \<and> \<not> all_successful rs')")
    case True
    then obtain rs' where o: "out = Some (Inr rs')" "\<not> (atomic \<and> \<not> all_successful rs')" by blast
    obtain st' ch where a: "apply_all (st_store s) ec_default (zip params rs') = (st', ch)"
      by (cases "apply_all (st_store s) ec_default (zip params rs')")
    have "param_step checked undeclaring ?v (?v\<lparr>sy_pc := (sy_pc ?v)(i := Decided params rs')\<rparr>)"
      by (rule param_step.decided [OF _ c [unfolded o(1)] o(2)]) simp
    moreover have "param_step checked undeclaring (?v\<lparr>sy_pc := (sy_pc ?v)(i := Decided params rs')\<rparr>) \<lparr>sy_store = st', sy_pc = pc\<rparr>"
      using param_step.applied [of "?v\<lparr>sy_pc := (sy_pc ?v)(i := Decided params rs')\<rparr>" i params rs' st' ch checked undeclaring] a
      by (simp add: idle)
    moreover have "st_store s' = st'"
      using assms(1,2) v c o a by (auto simp: validate_and_apply_def publish_changes_def)
    ultimately show ?thesis using s1 by (simp add: converse_rtranclp_into_rtranclp)
  next
    case False
    then have "param_step checked undeclaring ?v (?v\<lparr>sy_pc := (sy_pc ?v)(i := Idle)\<rparr>)"
      by (intro param_step.abandoned [OF _ c]) auto
    moreover have "st_store s' = st_store s"
      using assms(1,2) v c False by (auto simp: validate_and_apply_def split: option.splits sum.splits if_splits)
    ultimately show ?thesis using s1 by (simp add: idle converse_rtranclp_into_rtranclp)
  qed
qed

section \<open>Properties\<close>

definition applied_params :: "bool \<Rightarrow> parameter list \<Rightarrow> set_parameters_result list \<Rightarrow> parameter list" where
  "applied_params atomic params rs =
     (if atomic \<and> \<not> all_successful rs then [] else accepted (zip params rs))"

definition update_effect :: "bool \<Rightarrow> 'u parameter_state \<Rightarrow> 'u parameter_state \<Rightarrow> parameter list \<Rightarrow> bool" where
  "update_effect checked s s' ps \<longleftrightarrow>
     store_ok checked (st_store s') \<and>
     (\<forall>n. describe_param (st_store s') n = describe_param (st_store s) n) \<and>
     (\<forall>n. get_param (st_store s') n =
        (case map_of (rev (assignments ps)) n of Some v \<Rightarrow> Some v | None \<Rightarrow> get_param (st_store s) n)) \<and>
     st_events s' = st_events s @
       (if ps = [] then []
        else [\<lparr>ev_node = st_node_fqn s, ev_new_parameters = [], ev_changed_parameters = map param_to_wire ps,
               ev_deleted_parameters = []\<rparr>])"

lemma update_effect_none:
  "store_ok checked (st_store s) \<Longrightarrow> update_effect checked s (s\<lparr>st_user := u\<rparr>) []"
  by (simp add: update_effect_def)

lemma declared_if_described: "describe_param st n = Some d \<Longrightarrow> get_param st n \<noteq> None"
  by (auto simp: describe_param_def get_param_def)

lemma update_effect_apply:
  assumes ok: "store_ok checked (st_store s)" and pr: "promised checked (st_store s) params rs"
    and a: "apply_all (st_store s) ec_default (zip params rs) = (st', changes)"
  shows "update_effect checked s (publish_changes (s\<lparr>st_user := u, st_store := st'\<rparr>) changes) (accepted (zip params rs))"
proof -
  let ?ps = "accepted (zip params rs)"
  have decl: "get_param (st_store s) (p_name p) \<noteq> None" if "p \<in> set ?ps" for p
    using pr that declared_if_described by (fastforce simp: promised_def validate_set_admits)
  then have ch: "changes = ec_default\<lparr>ec_changed_parameters := map param_to_wire ?ps\<rparr>"
    using apply_all_changes [of "zip params rs" "st_store s" ec_default] a by (simp add: ec_default_def)
  have get: "get_param st' n =
      (case map_of (rev (assignments ?ps)) n of Some v \<Rightarrow> Some v | None \<Rightarrow> get_param (st_store s) n)" for n
  proof -
    have "get_param (st_store s) n \<noteq> None" if "map_of (rev (assignments ?ps)) n = Some v" for v
      using map_of_SomeD [OF that] decl by (auto simp: assignments_def)
    then show ?thesis
      using apply_all_store [of "st_store s" ec_default "zip params rs"] a
        psm.puts_get [of "assignments ?ps" "st_store s" n] by (auto split: option.splits)
  qed
  show ?thesis
    using promised_apply [OF ok pr a] apply_desc [OF a] get
    by (simp add: update_effect_def publish_changes_def ch ec_default_def ec_is_empty_def)
qed

lemma publish_changes_poisoned [simp]: "st_poisoned (publish_changes s ch) = st_poisoned s"
  by (simp add: publish_changes_def)

lemma update_Panic:
  assumes "\<not> st_poisoned s" and "validate_and_apply checked s params atomic = (Panic, s')"
  shows "st_store s' = st_store s \<and> st_events s' = st_events s \<and> \<not> st_poisoned s'"
  using assms
  by (auto simp: validate_and_apply_def split: res.splits prod.splits option.splits sum.splits if_splits)

lemma update_total:
  assumes "\<not> st_poisoned s" and "\<forall>cb u ps. st_callback s = Some cb \<longrightarrow> fst (cb u ps) \<noteq> None"
  shows "fst (validate_and_apply False s params atomic) \<noteq> Panic"
proof -
  obtain rs where rs: "validate_all False (st_store s) params = Ok rs" using validate_all_total by blast
  have "fst (callback_phase (st_callback s) (st_user s) params atomic rs) \<noteq> None"
    using assms(2) by (intro callback_phase_total) simp
  then show ?thesis
    using assms(1) rs
    by (auto simp: validate_and_apply_def split: res.splits prod.splits option.splits sum.splits if_splits)
qed

lemma update_not_Err: "validate_and_apply checked s params atomic \<noteq> (Err e, s')"
  using validate_all_not_Err
  by (auto simp: validate_and_apply_def split: res.splits prod.splits option.splits sum.splits if_splits)

lemma update_Ok:
  assumes ok: "store_ok checked (st_store s)" and "\<not> st_poisoned s"
    and run: "validate_and_apply checked s params atomic = (Ok rs, s')"
  shows "promised checked (st_store s) params rs"
    and "update_effect checked s s' (applied_params atomic params rs)"
    and "\<not> st_poisoned s'"
proof -
  obtain rs0 where v: "validate_all checked (st_store s) params = Ok rs0"
    using run assms(2) validate_all_not_Err by (auto simp: validate_and_apply_def split: res.splits)
  obtain out u where c: "callback_phase (st_callback s) (st_user s) params atomic rs0 = (out, u)"
    by (cases "callback_phase (st_callback s) (st_user s) params atomic rs0")
  note unf = validate_and_apply_def v c
  have "promised checked (st_store s) params rs \<and> update_effect checked s s' (applied_params atomic params rs) \<and>
      \<not> st_poisoned s'"
  proof (cases "\<exists>rs'. out = Some (Inr rs') \<and> \<not> (atomic \<and> \<not> all_successful rs')")
    case True
    then have o: "out = Some (Inr rs)" "\<not> (atomic \<and> \<not> all_successful rs)"
      using run assms(2) by (auto simp: unf split: prod.splits)
    obtain st' ch where a: "apply_all (st_store s) ec_default (zip params rs) = (st', ch)"
      by (cases "apply_all (st_store s) ec_default (zip params rs)")
    have s': "s' = publish_changes (s\<lparr>st_user := u, st_store := st'\<rparr>) ch"
      using run assms(2) o a by (auto simp: unf)
    have pr: "promised checked (st_store s) params rs"
      using callback_phase_Inr [OF c [unfolded o(1)] validate_all_length [OF v]] validate_all_accepted [OF v]
      by (auto simp: promised_def)
    with update_effect_apply [OF ok pr a, of u] o(2) s' assms(2) show ?thesis by (auto simp: applied_params_def)
  next
    case False
    then have s': "s' = s\<lparr>st_user := u\<rparr>" and cases: "out = Some (Inl rs) \<or> out = Some (Inr rs) \<and> atomic \<and> \<not> all_successful rs"
      using run assms(2) by (auto simp: unf split: option.splits sum.splits if_splits)
    from cases have "promised checked (st_store s) params rs \<and> applied_params atomic params rs = []"
    proof
      assume "out = Some (Inl rs)"
      from callback_phase_Inl [OF c [unfolded this]] show ?thesis by (simp add: promised_def applied_params_def)
    next
      assume i: "out = Some (Inr rs) \<and> atomic \<and> \<not> all_successful rs"
      from i have "out = Some (Inr rs)" ..
      from callback_phase_Inr [OF c [unfolded this] validate_all_length [OF v]] validate_all_accepted [OF v] i
      show ?thesis by (auto simp: promised_def applied_params_def)
    qed
    with s' update_effect_none [OF ok, of u] assms(2) show ?thesis by simp
  qed
  then show "promised checked (st_store s) params rs" "update_effect checked s s' (applied_params atomic params rs)"
    "\<not> st_poisoned s'" by blast+
qed

text \<open>
  C18: a parameter update in one piece, on a well-formed store. It never ends in an error of
  its own, and it does return if the callback does and overflow checks are off. A panic of
  the callback or of a check changes no parameter and publishes nothing. Otherwise there
  is one result per parameter; a successful one is declared, not read-only and admitted by
  its description. A request that is not atomic applies the successful parameters, an
  atomic one all parameters or none; later values for a name win, descriptions stay, the
  store stays well formed, and one event with exactly the applied parameters is published,
  none if there are none.
\<close>

theorem validate_and_apply_correct:
  assumes ok: "store_ok checked (st_store s)" and "\<not> st_poisoned s"
    and run: "validate_and_apply checked s params atomic = (r, s')"
  shows "(r = Panic \<longrightarrow> st_store s' = st_store s \<and> st_events s' = st_events s \<and> \<not> st_poisoned s') \<and>
         (\<not> checked \<and> (\<forall>cb u ps. st_callback s = Some cb \<longrightarrow> fst (cb u ps) \<noteq> None) \<longrightarrow> r \<noteq> Panic) \<and>
         (r \<noteq> Panic \<longrightarrow> (\<exists>rs. r = Ok rs \<and> length rs = length params \<and>
            (\<forall>p \<in> set (accepted (zip params rs)). \<exists>d. describe_param (st_store s) (p_name p) = Some d \<and>
               \<not> pd_read_only d \<and> validate_value checked (p_value p) d = Ok ()) \<and>
            (atomic \<and> all_successful rs \<longrightarrow> applied_params atomic params rs = params) \<and>
            update_effect checked s s' (applied_params atomic params rs)))"
proof (cases r)
  case (Ok rs)
  note facts = update_Ok [OF ok assms(2) run [unfolded Ok]]
  with Ok accepted_all [of rs params] show ?thesis
    by (auto simp: promised_def validate_set_admits admits_value_def applied_params_def)
next
  case (Err e)
  then show ?thesis using run update_not_Err by blast
next
  case Panic
  have "\<not> (\<not> checked \<and> (\<forall>cb u ps. st_callback s = Some cb \<longrightarrow> fst (cb u ps) \<noteq> None))"
  proof
    assume total: "\<not> checked \<and> (\<forall>cb u ps. st_callback s = Some cb \<longrightarrow> fst (cb u ps) \<noteq> None)"
    then have "fst (validate_and_apply checked s params atomic) \<noteq> Panic"
      using update_total [OF assms(2) conjunct2 [OF total]] by simp
    with run Panic show False by simp
  qed
  with Panic update_Panic [OF assms(2) run [unfolded Panic]] show ?thesis by blast
qed

definition int_param :: "64 word \<Rightarrow> parameter" where
  "int_param v = \<lparr>p_name = ''n'', p_value = PInteger v\<rparr>"

definition int_state :: "nat parameter_state" where
  "int_state = snd (declare_parameter False (st_new ''/ns'' ''node'' [] 0) ''n'' (PInteger 1) pd_default)"

lemma int_state_props: "store_ok False (st_store int_state)" "\<not> st_poisoned int_state" "st_callback int_state = None"
  by code_simp+

lemma validate_and_apply_correct_witness:
  "\<exists>rs s'. validate_and_apply False int_state [int_param 4, int_param 5] True = (Ok rs, s') \<and> length rs = 2"
proof -
  obtain r s' where eq: "validate_and_apply False int_state [int_param 4, int_param 5] True = (r, s')"
    by (cases "validate_and_apply False int_state [int_param 4, int_param 5] True")
  from validate_and_apply_correct [OF int_state_props(1,2) eq] int_state_props(3) eq show ?thesis by auto
qed

text \<open>
  C19: concurrent parameter updates. However the phases of any number of update requests and
  declarations interleave, as long as no parameter is undeclared, every stored value is
  admitted by its description, a description once made stays, and a read-only parameter
  keeps the value it has.
\<close>

theorem concurrent_updates_safe:
  assumes "(param_step checked False)\<^sup>*\<^sup>* (param_init overrides) y" and "(param_step checked False)\<^sup>*\<^sup>* y y'"
  shows "store_ok checked (sy_store y') \<and>
         (\<forall>n d. describe_param (sy_store y) n = Some d \<longrightarrow>
            describe_param (sy_store y') n = Some d \<and>
            (pd_read_only d \<longrightarrow> get_param (sy_store y') n = get_param (sy_store y) n))"
proof -
  have "sys_ok checked y" using param_steps_ok [OF assms(1) param_init_ok] by blast
  from param_steps_ok [OF assms(2) this] show ?thesis by (auto simp: sys_ok_def desc_mono_def)
qed

text \<open>
  An ordinary and a read-only parameter, and two requests that interleave: the first sets
  the ordinary one, the second both. The attempt on the read-only one is rejected.
\<close>

definition one_param :: parameter_store where
  "one_param = snd (declare_param True ps_new ''n'' (PInteger 1) pd_default)"

definition two_params :: parameter_store where
  "two_params = snd (declare_param True one_param ''ro'' (PInteger 2) (pd_default\<lparr>pd_read_only := True\<rparr>))"

definition first_update :: "parameter list" where
  "first_update = [\<lparr>p_name = ''n'', p_value = PInteger 5\<rparr>]"

definition second_update :: "parameter list" where
  "second_update = [\<lparr>p_name = ''n'', p_value = PInteger 4\<rparr>, \<lparr>p_name = ''ro'', p_value = PInteger 9\<rparr>]"

definition second_results :: "set_parameters_result list" where
  "second_results = (case validate_all True two_params second_update of Ok rs \<Rightarrow> rs | _ \<Rightarrow> [])"

definition after_first :: parameter_store where
  "after_first = fst (apply_all two_params ec_default (zip first_update [sr_success]))"

definition after_second :: parameter_store where
  "after_second = fst (apply_all after_first ec_default (zip second_update second_results))"

lemma interleaved_facts:
  "declare_param True ps_new ''n'' (PInteger 1) pd_default = (Ok (PInteger 1), one_param)"
  "declare_param True one_param ''ro'' (PInteger 2) (pd_default\<lparr>pd_read_only := True\<rparr>) = (Ok (PInteger 2), two_params)"
  "validate_all True two_params first_update = Ok [sr_success]"
  "validate_all True two_params second_update = Ok second_results"
  "map sr_successful second_results = [True, False]"
  "get_param two_params ''n'' = Some (PInteger 1)" "get_param two_params ''ro'' = Some (PInteger 2)"
  "map_option pd_read_only (describe_param two_params ''ro'') = Some True"
  "get_param after_first ''n'' = Some (PInteger 5)" "get_param after_second ''n'' = Some (PInteger 4)"
  by code_simp+

lemma interleaved_run:
  "(param_step True False)\<^sup>*\<^sup>* (param_init []) \<lparr>sy_store = two_params, sy_pc = (\<lambda>_. Idle)\<rparr>"
  "(param_step True False)\<^sup>*\<^sup>* \<lparr>sy_store = two_params, sy_pc = (\<lambda>_. Idle)\<rparr> \<lparr>sy_store = after_second, sy_pc = (\<lambda>_. Idle)\<rparr>"
proof -
  let ?y = "\<lambda>st p0 p1. \<lparr>sy_store = st, sy_pc = (\<lambda>_. Idle)(0 := p0, 1 := p1)\<rparr>"
  have idle: "(\<lambda>_. Idle)((0::nat) := Idle, 1 := Idle) = (\<lambda>_. Idle)" by (rule ext) simp
  have two: "(\<lambda>_. Idle)(Suc 0 := p1, 0 := p0) = (\<lambda>_. Idle)(0 := p0, Suc 0 := p1)" for p0 p1
    by (rule ext) simp
  let ?v0 = "Validated first_update False [sr_success]" and ?d0 = "Decided first_update [sr_success]"
  let ?v1 = "Validated second_update False second_results" and ?d1 = "Decided second_update second_results"
  have d1: "param_step True False (param_init []) (?y one_param Idle Idle)"
    using param_step.declared [of True "param_init []" "''n''" "PInteger 1" pd_default "Ok (PInteger 1)" one_param False]
      interleaved_facts(1) unfolding idle by (simp add: param_init_def ps_with_overrides_def ps_new_def)
  have d2: "param_step True False (?y one_param Idle Idle) (?y two_params Idle Idle)"
    using param_step.declared [of True "?y one_param Idle Idle" "''ro''" "PInteger 2" "pd_default\<lparr>pd_read_only := True\<rparr>"
        "Ok (PInteger 2)" two_params False] interleaved_facts(2) by simp
  have s1: "param_step True False (?y two_params Idle Idle) (?y two_params ?v0 Idle)"
    using param_step.validated [of "?y two_params Idle Idle" 0 True first_update "[sr_success]" False False] interleaved_facts(3)
    by (simp add: two)
  have s2: "param_step True False (?y two_params ?v0 Idle) (?y two_params ?v0 ?v1)"
    using param_step.validated [of "?y two_params ?v0 Idle" 1 True second_update second_results False False] interleaved_facts(4)
    by (simp add: two)
  have s3: "param_step True False (?y two_params ?v0 ?v1) (?y two_params ?d0 ?v1)"
    using param_step.decided [of "?y two_params ?v0 ?v1" 0 first_update False "[sr_success]" None 0 "[sr_success]" 0 True False]
    by (simp add: two callback_phase_def)
  have s4: "param_step True False (?y two_params ?d0 ?v1) (?y two_params ?d0 ?d1)"
    using param_step.decided [of "?y two_params ?d0 ?v1" 1 second_update False second_results None 0 second_results 0 True False]
    by (simp add: two callback_phase_def)
  have s5: "param_step True False (?y two_params ?d0 ?d1) (?y after_first Idle ?d1)"
    using param_step.applied [of "?y two_params ?d0 ?d1" 0 first_update "[sr_success]" after_first]
    by (cases "apply_all two_params ec_default (zip first_update [sr_success])") (simp add: two after_first_def)
  have s6: "param_step True False (?y after_first Idle ?d1) (?y after_second Idle Idle)"
    using param_step.applied [of "?y after_first Idle ?d1" 1 second_update second_results after_second]
    by (cases "apply_all after_first ec_default (zip second_update second_results)") (simp add: two after_second_def)
  show "(param_step True False)\<^sup>*\<^sup>* (param_init []) \<lparr>sy_store = two_params, sy_pc = (\<lambda>_. Idle)\<rparr>"
    using converse_rtranclp_into_rtranclp [OF d1 r_into_rtranclp [of "param_step True False", OF d2]] by (simp only: idle)
  show "(param_step True False)\<^sup>*\<^sup>* \<lparr>sy_store = two_params, sy_pc = (\<lambda>_. Idle)\<rparr> \<lparr>sy_store = after_second, sy_pc = (\<lambda>_. Idle)\<rparr>"
    using converse_rtranclp_into_rtranclp [OF s1 converse_rtranclp_into_rtranclp [OF s2
      converse_rtranclp_into_rtranclp [OF s3 converse_rtranclp_into_rtranclp [OF s4
      converse_rtranclp_into_rtranclp [OF s5 r_into_rtranclp [of "param_step True False", OF s6]]]]]]
    by (simp only: idle)
qed

lemma concurrent_updates_safe_witness:
  "\<exists>y y'. (param_step True False)\<^sup>*\<^sup>* (param_init []) y \<and> (param_step True False)\<^sup>*\<^sup>* y y' \<and>
     get_param (sy_store y) ''n'' = Some (PInteger 1) \<and> get_param (sy_store y') ''n'' = Some (PInteger 4) \<and>
     map_option pd_read_only (describe_param (sy_store y') ''ro'') = Some True \<and>
     get_param (sy_store y') ''ro'' = Some (PInteger 2) \<and> store_ok True (sy_store y')"
proof -
  obtain d where d: "describe_param two_params ''ro'' = Some d" "pd_read_only d" using interleaved_facts(8) by auto
  note safe = concurrent_updates_safe [OF interleaved_run]
  have "describe_param after_second ''ro'' = Some d \<and> get_param after_second ''ro'' = get_param two_params ''ro''"
    using safe d by simp
  with safe d interleaved_facts(6,7,10) interleaved_run show ?thesis
    by (intro exI [of _ "\<lparr>sy_store = two_params, sy_pc = (\<lambda>_. Idle)\<rparr>"]
        exI [of _ "\<lparr>sy_store = after_second, sy_pc = (\<lambda>_. Idle)\<rparr>"]) simp
qed

text \<open>A parameter declared as an integer, and then as a read-only string.\<close>

definition race_store :: parameter_store where
  "race_store = snd (declare_param True ps_new ''n'' (PInteger 1) pd_default)"

definition race_redeclared :: parameter_store where
  "race_redeclared = snd (declare_param True (snd (undeclare_param race_store ''n'')) ''n''
     (PString ''text'') (pd_default\<lparr>pd_read_only := True\<rparr>))"

lemma race_facts:
  "declare_param True ps_new ''n'' (PInteger 1) pd_default = (Ok (PInteger 1), race_store)"
  "validate_all True race_store [int_param 4] = Ok [sr_success]"
  "declare_param True (snd (undeclare_param race_store ''n'')) ''n''
     (PString ''text'') (pd_default\<lparr>pd_read_only := True\<rparr>) = (Ok (PString ''text''), race_redeclared)"
  "get_param (fst (apply_all race_redeclared ec_default (zip [int_param 4] [sr_success]))) ''n'' = Some (PInteger 4)"
  "describe_param (fst (apply_all race_redeclared ec_default (zip [int_param 4] [sr_success]))) ''n'' =
     Some (pd_default\<lparr>pd_name := ''n'', pd_type := PT_String, pd_read_only := True\<rparr>)"
  by code_simp+

lemma race_run:
  "(param_step True True)\<^sup>*\<^sup>* (param_init [])
     \<lparr>sy_store = fst (apply_all race_redeclared ec_default (zip [int_param 4] [sr_success])), sy_pc = (\<lambda>_. Idle)\<rparr>"
proof -
  let ?y = "\<lambda>st pc. \<lparr>sy_store = st, sy_pc = (\<lambda>_. Idle)(0 := pc)\<rparr>"
  let ?v = "Validated [int_param 4] False [sr_success]" and ?d = "Decided [int_param 4] [sr_success]"
  have idle: "(\<lambda>_. Idle)((0::nat) := Idle) = (\<lambda>_. Idle)" by (rule ext) simp
  have s1: "param_step True True (param_init []) (?y race_store Idle)"
    using param_step.declared [of True "param_init []" "''n''" "PInteger 1" pd_default "Ok (PInteger 1)" race_store True]
      race_facts(1)
    by (simp add: param_init_def ps_with_overrides_def ps_new_def fun_upd_idem)
  have s2: "param_step True True (?y race_store Idle) (?y race_store ?v)"
    using param_step.validated [of "?y race_store Idle" 0 True "[int_param 4]" "[sr_success]" True False] race_facts(2)
    by simp
  have s3: "param_step True True (?y race_store ?v) (?y race_store ?d)"
    using param_step.decided [of "?y race_store ?v" 0 "[int_param 4]" False "[sr_success]" None 0 "[sr_success]" 0 True True]
    by (simp add: callback_phase_def)
  have s4: "param_step True True (?y race_store ?d) (?y (snd (undeclare_param race_store ''n'')) ?d)"
    using param_step.undeclared [of True "?y race_store ?d" "''n''"] by (cases "undeclare_param race_store ''n''") simp
  have s5: "param_step True True (?y (snd (undeclare_param race_store ''n'')) ?d) (?y race_redeclared ?d)"
    using param_step.declared [of True "?y (snd (undeclare_param race_store ''n'')) ?d"] race_facts(3) by fastforce
  have s6: "param_step True True (?y race_redeclared ?d)
      (?y (fst (apply_all race_redeclared ec_default (zip [int_param 4] [sr_success]))) Idle)"
    using param_step.applied [of "?y race_redeclared ?d" 0 "[int_param 4]" "[sr_success]"]
    by (cases "apply_all race_redeclared ec_default (zip [int_param 4] [sr_success])") simp
  show ?thesis
    using converse_rtranclp_into_rtranclp [OF s1 converse_rtranclp_into_rtranclp [OF s2
      converse_rtranclp_into_rtranclp [OF s3 converse_rtranclp_into_rtranclp [OF s4
      converse_rtranclp_into_rtranclp [OF s5 r_into_rtranclp [of "param_step True True", OF s6]]]]]]
    by (simp only: idle)
qed

text \<open>
  The limit of the previous property. A parameter undeclared and declared again, read-only
  and of another type, between the two phases of an update receives the value that was
  checked against the old description.
\<close>

theorem undeclare_race:
  "\<exists>y d. (param_step True True)\<^sup>*\<^sup>* (param_init []) y \<and>
     describe_param (sy_store y) ''n'' = Some d \<and> pd_read_only d \<and> pd_type d = PT_String \<and>
     get_param (sy_store y) ''n'' = Some (PInteger 4) \<and> \<not> store_ok True (sy_store y)"
proof -
  let ?st = "fst (apply_all race_redeclared ec_default (zip [int_param 4] [sr_success]))"
  have "\<not> store_ok True ?st" by code_simp
  with race_run race_facts(4,5) show ?thesis
    by (intro exI [of _ "\<lparr>sy_store = ?st, sy_pc = (\<lambda>_. Idle)\<rparr>"]
        exI [of _ "pd_default\<lparr>pd_name := ''n'', pd_type := PT_String, pd_read_only := True\<rparr>"]) simp
qed

text \<open>
  C20: a remote client reads back what it set. If the set request for parameters with
  different names reports success for all of them, the get request for those names
  returns the values sent and the type request their types, and the description keeps
  admitting them.
\<close>

theorem remote_set_then_get:
  assumes "store_ok checked (st_store s)" and "\<not> st_poisoned s"
    and "handle_set_parameters checked s (Some (map param_to_wire ps)) = (Ok (Some rs), s')"
    and "all_successful rs" and "distinct (map p_name ps)"
  shows "handle_get_parameters s' (Some (map p_name ps)) = Some (map (value_to_wire \<circ> p_value) ps) \<and>
         handle_get_parameter_types s' (Some (map p_name ps)) =
           Some (map (parameter_type_u8 \<circ> value_type \<circ> p_value) ps) \<and>
         store_ok checked (st_store s')"
proof -
  have run: "validate_and_apply checked s ps False = (Ok rs, s')"
    using assms(3) by (auto simp: handle_set_parameters_def comp_def res_map_Ok split: prod.splits)
  note facts = update_Ok [OF assms(1,2) run]
  have "accepted (zip ps rs) = ps" using facts(1) assms(4) by (intro accepted_all) (auto simp: promised_def)
  with facts(2) have eff: "update_effect checked s s' ps" by (simp add: applied_params_def)
  have get: "get_param (st_store s') (p_name p) = Some (p_value p)" if "p \<in> set ps" for p
  proof -
    have "map_of (rev (assignments ps)) (p_name p) = Some (p_value p)"
      using that assms(5) by (intro map_of_is_SomeI) (auto simp: assignments_def comp_def rev_map [symmetric])
    then show ?thesis using eff by (simp add: update_effect_def)
  qed
  have "\<exists>e. map_of (ps_parameters (st_store s')) (p_name p) = Some e \<and> pe_value e = p_value p" if "p \<in> set ps" for p
    using get [OF that] by (auto simp: get_param_def)
  then show ?thesis
    using eff facts(3)
    by (force simp: handle_get_parameters_def handle_get_parameter_types_def get_many_def get_types_def
        get_type_def update_effect_def)
qed

lemma remote_set_then_get_witness:
  "handle_get_parameters (snd (handle_set_parameters False int_state (Some (map param_to_wire [int_param 4]))))
     (Some [''n'']) = Some [value_to_wire (PInteger 4)]"
proof -
  have set: "handle_set_parameters False int_state (Some (map param_to_wire [int_param 4])) =
      (Ok (Some [sr_success]), snd (handle_set_parameters False int_state (Some (map param_to_wire [int_param 4]))))"
    by (rule prod_eqI) (code_simp, simp)
  have "all_successful [sr_success]" "distinct (map p_name [int_param 4])" by code_simp+
  from remote_set_then_get [OF int_state_props(1,2) set this] show ?thesis
    by (simp add: int_param_def)
qed

end
