(* ===== verification/Message_Codec.thy ===== *)
theory Message_Codec
  imports Dynamic_Cdr
begin

text \<open>
  The native message path: \<open>NativeCdrSerdes\<close> of \<open>crates/hiroz/src/msg.rs\<close> and hand-written
  implementations of the three CDR traits for structs. An implementation is a record with
  one operation per trait; the combinators are the ways the implementations are written:
  one field after the other, a vector of structs, a field under a conversion. The contract
  of an implementation is the locale \<open>cdr_codec\<close>; the combinators keep it, so each message
  is covered by the interpretation on its record.
\<close>

section \<open>Implementations of the CDR traits\<close>

record 'm codec =
  mc_serialize :: "byte_order \<Rightarrow> bytes cdr_writer \<Rightarrow> 'm \<Rightarrow> (bytes cdr_writer, cdr_error) res"
  mc_deserialize :: "byte_order \<Rightarrow> 'm rd"
  mc_size :: "'m \<Rightarrow> nat \<Rightarrow> nat"

text \<open>The implementations of \<open>traits.rs\<close> that the messages use.\<close>

definition bool_codec :: "bool codec" where
  "bool_codec = \<lparr>mc_serialize = (\<lambda>bo w v. write_bool vec_buffer w v), mc_deserialize = (\<lambda>bo. read_bool),
     mc_size = (\<lambda>v pos. cdr_serialized_size (VBool v) pos)\<rparr>"

definition i8_codec :: "u8 codec" where
  "i8_codec = \<lparr>mc_serialize = (\<lambda>bo w v. write_i8 vec_buffer w v), mc_deserialize = (\<lambda>bo. read_i8),
     mc_size = (\<lambda>v pos. cdr_serialized_size (VI8 v) pos)\<rparr>"

definition u8_codec :: "u8 codec" where
  "u8_codec = \<lparr>mc_serialize = (\<lambda>bo w v. write_u8 vec_buffer w v), mc_deserialize = (\<lambda>bo. read_u8),
     mc_size = (\<lambda>v pos. cdr_serialized_size (VU8 v) pos)\<rparr>"

definition i32_codec :: "u32 codec" where
  "i32_codec = \<lparr>mc_serialize = write_i32 vec_buffer, mc_deserialize = read_i32,
     mc_size = (\<lambda>v pos. cdr_serialized_size (VI32 v) pos)\<rparr>"

definition u32_codec :: "u32 codec" where
  "u32_codec = \<lparr>mc_serialize = write_u32 vec_buffer, mc_deserialize = read_u32,
     mc_size = (\<lambda>v pos. cdr_serialized_size (VU32 v) pos)\<rparr>"

definition string_codec :: "bytes codec" where
  "string_codec = \<lparr>mc_serialize = write_string vec_buffer, mc_deserialize = read_string,
     mc_size = (\<lambda>v pos. cdr_serialized_size (VString v) pos)\<rparr>"

definition array_codec :: "nat \<Rightarrow> 'm codec \<Rightarrow> 'm list codec" where
  "array_codec n C = \<lparr>mc_serialize = (\<lambda>bo w vs. res_fold (mc_serialize C bo) w vs),
     mc_deserialize = (\<lambda>bo. read_n n (mc_deserialize C bo)),
     mc_size = (\<lambda>vs pos. foldl (\<lambda>p x. mc_size C x p) pos vs)\<rparr>"

definition vec_codec :: "'m codec \<Rightarrow> 'm list codec" where
  "vec_codec C = \<lparr>mc_serialize = (\<lambda>bo w vs. res_bind (write_sequence_length vec_buffer bo w (length vs))
       (\<lambda>w1. res_fold (mc_serialize C bo) w1 vs)),
     mc_deserialize = (\<lambda>bo. rd_bind (read_sequence_length bo) (\<lambda>count. read_n count (mc_deserialize C bo))),
     mc_size = (\<lambda>vs pos. foldl (\<lambda>p x. mc_size C x p) (pos + cdr_padding pos 4 + 4) vs)\<rparr>"

text \<open>Two fields in order.\<close>

definition pair_codec :: "'a codec \<Rightarrow> 'b codec \<Rightarrow> ('a \<times> 'b) codec" where
  "pair_codec A B = \<lparr>mc_serialize = (\<lambda>bo w (a, b). res_bind (mc_serialize A bo w a) (\<lambda>w1. mc_serialize B bo w1 b)),
     mc_deserialize = (\<lambda>bo. rd_bind (mc_deserialize A bo) (\<lambda>a. rd_bind (mc_deserialize B bo) (\<lambda>b. rd_return (a, b)))),
     mc_size = (\<lambda>(a, b) pos. mc_size B b (mc_size A a pos))\<rparr>"

text \<open>A struct \<open>build a\<close> with the content \<open>fields_of m\<close>; \<open>build\<close> may refuse.\<close>

definition struct_codec :: "('a \<Rightarrow> ('m, cdr_error) res) \<Rightarrow> ('m \<Rightarrow> 'a) \<Rightarrow> 'a codec \<Rightarrow> 'm codec" where
  "struct_codec build fields_of A = \<lparr>mc_serialize = (\<lambda>bo w m. mc_serialize A bo w (fields_of m)),
     mc_deserialize = (\<lambda>bo. rd_bind (mc_deserialize A bo)
       (\<lambda>a r. (build a, r))),
     mc_size = (\<lambda>m pos. mc_size A (fields_of m) pos)\<rparr>"

section \<open>NativeCdrSerdes\<close>

datatype serdes_error = TooShort | WrongEncapsulationLE u8 u8 | CdrReadError cdr_error

definition native_serialize :: "'m codec \<Rightarrow> 'm \<Rightarrow> (bytes, cdr_error) res" where
  "native_serialize C m = res_map wr_buffer (mc_serialize C LittleEndian (writer_new vec_buffer cdr_header_le) m)"

definition native_deserialize :: "'m codec \<Rightarrow> bytes \<Rightarrow> ('m, serdes_error) res" where
  "native_deserialize C input =
     (if length input < 4 then Err TooShort
      else if take 2 input \<noteq> [0x00, 0x01] then Err (WrongEncapsulationLE (input ! 0) (input ! 1))
      else map_err CdrReadError (fst (mc_deserialize C LittleEndian (reader_new (drop 4 input)))))"

section \<open>The contract\<close>

text \<open>
  An implementation with the messages \<open>ok\<close> it can carry and their wire form \<open>enc\<close>: it
  writes the wire form, reads it back, knows its size, and reads any input safely.
\<close>

locale cdr_codec =
  fixes C :: "'m codec"
    and ok :: "'m \<Rightarrow> bool"
    and enc :: "byte_order \<Rightarrow> nat \<Rightarrow> 'm \<Rightarrow> bytes"
  assumes writes: "ok m \<Longrightarrow> vecb.wok w \<Longrightarrow> vecb.wrt w (mc_serialize C bo w m) (enc bo (writer_position vec_buffer w) m)"
    and reads: "ok m \<Longrightarrow> decodes (mc_deserialize C bo) p (enc bo p m) m"
    and sizes: "ok m \<Longrightarrow> mc_size C m p = p + length (enc bo p m)"
    and safe: "rd_safe (mc_deserialize C bo)"
begin

lemma native_wire: "ok m \<Longrightarrow> native_serialize C m = Ok (cdr_header_le @ enc LittleEndian 0 m)"
  using writes [of m "writer_new vec_buffer cdr_header_le" LittleEndian] vecb.new_ok [of cdr_header_le]
  by (auto simp: native_serialize_def wrote_def writer_new_def)

lemma native_roundtrip:
  assumes "ok m"
  shows "\<exists>bs. native_serialize C m = Ok bs \<and> native_deserialize C bs = Ok m \<and> length bs = mc_size C m 0 + 4"
proof -
  have "mc_deserialize C LittleEndian (reader_new (enc LittleEndian 0 m @ [])) =
      (Ok m, \<lparr>rd_input = enc LittleEndian 0 m @ [], rd_position = length (enc LittleEndian 0 m)\<rparr>)"
    by (rule decodes_at_start) (rule reads [OF assms])
  then show ?thesis
    using native_wire [OF assms] sizes [OF assms, of 0 LittleEndian]
    by (simp add: native_deserialize_def cdr_header_le_def)
qed

lemma native_total: "native_deserialize C bs \<noteq> Panic"
proof -
  have "rd_ok (reader_new (drop 4 bs))" by (simp add: rd_ok_def reader_new_def)
  then have "fst (mc_deserialize C LittleEndian (reader_new (drop 4 bs))) \<noteq> Panic"
    using safe unfolding rd_safe_def by blast
  then show ?thesis
    by (cases "fst (mc_deserialize C LittleEndian (reader_new (drop 4 bs)))") (auto simp: native_deserialize_def)
qed

end

section \<open>Combinators keep the contract\<close>

lemma codec_octets:
  "cdr_codec bool_codec (\<lambda>_. True) (\<lambda>bo p v. [if v then 1 else 0])"
  "cdr_codec i8_codec (\<lambda>_. True) (\<lambda>bo p v. [v])"
  "cdr_codec u8_codec (\<lambda>_. True) (\<lambda>bo p v. [v])"
  by (unfold_locales;
      simp add: bool_codec_def i8_codec_def u8_codec_def vecb.wrote_octets decodes_octets;
      intro rd_safe_intros)+

lemma codec_words:
  "cdr_codec i32_codec (\<lambda>_. True) (\<lambda>bo p v. enc_word bo 4 p v)"
  "cdr_codec u32_codec (\<lambda>_. True) (\<lambda>bo p v. enc_word bo 4 p v)"
  by (unfold_locales;
      simp add: i32_codec_def u32_codec_def vecb.wrote_words decodes_words;
      intro rd_safe_intros)+

lemma codec_string:
  "cdr_codec string_codec (\<lambda>s. utf8_valid s \<and> length s + 1 < 2 ^ 32) enc_string"
proof (unfold_locales, goal_cases)
  case (3 m p bo)
  then show ?case by (simp add: string_codec_def enc_string_def Let_def)
qed (auto simp: string_codec_def vecb.wrote_string decodes_string intro!: rd_safe_intros)

lemma codec_pair:
  assumes "cdr_codec A okA encA" and "cdr_codec B okB encB"
  shows "cdr_codec (pair_codec A B) (\<lambda>(a, b). okA a \<and> okB b)
     (\<lambda>bo p (a, b). encA bo p a @ encB bo (p + length (encA bo p a)) b)"
proof -
  note A = cdr_codec.writes [OF assms(1)] cdr_codec.reads [OF assms(1)] cdr_codec.sizes [OF assms(1)] cdr_codec.safe [OF assms(1)]
  note B = cdr_codec.writes [OF assms(2)] cdr_codec.reads [OF assms(2)] cdr_codec.sizes [OF assms(2)] cdr_codec.safe [OF assms(2)]
  show ?thesis
  proof (unfold_locales, goal_cases)
    case (1 m w bo)
    then show ?case
      by (cases m) (auto simp: pair_codec_def intro!: vecb.wrote_bind [OF _ A(1)] B(1) [where bo = bo] dest: sym)
  next
    case (2 m bo p)
    then show ?case
      by (cases m) (auto simp: pair_codec_def intro!: decodes_bind [OF A(2)] decodes_bind_return [OF B(2)])
  next
    case (3 m p bo)
    then show ?case by (cases m) (auto simp: pair_codec_def A(3) [where bo = bo] B(3) [where bo = bo])
  next
    case (4 bo)
    then show ?case by (simp add: pair_codec_def) (intro rd_safe_intros A B)
  qed
qed

lemma decodes_build:
  assumes "decodes m p c a" and "f a = Ok v"
  shows "decodes (rd_bind m (\<lambda>a r. (f a, r))) p c v"
  using decodes_bind [OF assms(1), of "\<lambda>a r. (f a, r)" "[]" v] assms(2) by (simp add: decodes_def)

lemma rd_safe_build: "rd_safe m \<Longrightarrow> (\<And>a. f a \<noteq> Panic) \<Longrightarrow> rd_safe (rd_bind m (\<lambda>a r. (f a, r)))"
  by (rule rd_safe_bind) (auto simp: rd_safe_def)

lemma codec_struct:
  assumes "cdr_codec A ok enc" and "\<And>m. okm m \<Longrightarrow> ok (fields_of m) \<and> build (fields_of m) = Ok m"
    and "\<And>a. build a \<noteq> Panic"
  shows "cdr_codec (struct_codec build fields_of A) okm (\<lambda>bo p m. enc bo p (fields_of m))"
proof (unfold_locales, goal_cases)
  case (2 m bo p)
  then show ?case
    using decodes_build [OF cdr_codec.reads [OF assms(1)], of "fields_of m" build m bo p] assms(2)
    by (simp add: struct_codec_def)
next
  case (4 bo)
  then show ?case using rd_safe_build [OF cdr_codec.safe [OF assms(1)] assms(3)] by (simp add: struct_codec_def)
qed (use assms(2) cdr_codec.writes [OF assms(1)] cdr_codec.sizes [OF assms(1)] in \<open>simp_all add: struct_codec_def\<close>)

lemma codec_array:
  assumes "cdr_codec A ok enc"
  shows "cdr_codec (array_codec n A) (\<lambda>xs. length xs = n \<and> list_all ok xs) (\<lambda>bo. enc_seq (enc bo))"
proof (unfold_locales, goal_cases)
  case (1 m w bo)
  then show ?case
    using vecb.wrote_fold [of w m "mc_serialize A bo" "enc bo"] cdr_codec.writes [OF assms]
    by (auto simp: array_codec_def list_all_iff)
next
  case (2 m bo p)
  then show ?case
    using decodes_read_n [of m "mc_deserialize A bo" "enc bo" "\<lambda>x. x"] cdr_codec.reads [OF assms]
    by (auto simp: array_codec_def list_all_iff)
next
  case (3 m p bo)
  then show ?case
    using foldl_size_enc_seq [of m "mc_size A" "enc bo"] cdr_codec.sizes [OF assms]
    by (auto simp: array_codec_def list_all_iff)
next
  case (4 bo)
  then show ?case by (simp add: array_codec_def) (intro rd_safe_intros cdr_codec.safe [OF assms])
qed

lemma codec_vec:
  assumes "cdr_codec A ok enc"
  shows "cdr_codec (vec_codec A) (\<lambda>xs. length xs \<le> 100000000 \<and> list_all ok xs)
     (\<lambda>bo p xs. enc_word bo 4 p (word_of_nat (length xs) :: u32) @
        enc_seq (enc bo) (p + cdr_padding p 4 + 4) xs)"
proof (unfold_locales, goal_cases)
  case (1 m w bo)
  let ?l = "enc_word bo 4 (writer_position vec_buffer w) (word_of_nat (length m) :: u32)"
  have rest: "vecb.wrt w' (res_fold (mc_serialize A bo) w' m)
      (enc_seq (enc bo) (writer_position vec_buffer w + cdr_padding (writer_position vec_buffer w) 4 + 4) m)"
    if "vecb.wok w'" "writer_position vec_buffer w' = writer_position vec_buffer w + length ?l" for w'
    using vecb.wrote_fold [of w' m "mc_serialize A bo" "enc bo"] cdr_codec.writes [OF assms] 1(1) that
    by (auto simp: list_all_iff add.assoc)
  from vecb.wrote_bind [OF 1(2) vecb.wrote_sequence_length [OF 1(2)] rest] show ?case
    by (simp add: vec_codec_def)
next
  case (2 m bo p)
  then have "decodes (read_n (length m) (mc_deserialize A bo)) q (enc_seq (enc bo) q m) m" for q
    using decodes_read_n [of m "mc_deserialize A bo" "enc bo" "\<lambda>x. x"] cdr_codec.reads [OF assms]
    by (auto simp: list_all_iff)
  with 2 show ?case
    by (auto simp: vec_codec_def add.assoc intro!: decodes_bind [OF decodes_sequence_length])
next
  case (3 m p bo)
  then show ?case
    using foldl_size_enc_seq [of m "mc_size A" "enc bo"] cdr_codec.sizes [OF assms]
    by (auto simp: vec_codec_def list_all_iff)
next
  case (4 bo)
  then show ?case by (simp add: vec_codec_def) (intro rd_safe_intros cdr_codec.safe [OF assms])
qed

end
