(* ===== verification/Action_Messages.thy ===== *)
theory Action_Messages
  imports Message_Codec
begin

text \<open>
  \<open>crates/hiroz/src/action/mod.rs\<close> and \<open>messages.rs\<close>: goal ids, statuses and their
  transitions, time stamps, and the wire form of the action messages that have one of
  their own (those that carry a user type go through serde).
\<close>

section \<open>Goals\<close>

type_synonym goal_id = bytes

definition goal_id_is_valid :: "goal_id \<Rightarrow> bool" where
  "goal_id_is_valid i \<longleftrightarrow> list_ex (\<lambda>x. x \<noteq> 0) i"

datatype goal_status = Unknown | Accepted | Executing | Canceling | Succeeded | Canceled | Aborted

definition status_is_active :: "goal_status \<Rightarrow> bool" where
  "status_is_active s \<longleftrightarrow> s = Accepted \<or> s = Executing \<or> s = Canceling"

definition status_is_terminal :: "goal_status \<Rightarrow> bool" where
  "status_is_terminal s \<longleftrightarrow> s = Succeeded \<or> s = Canceled \<or> s = Aborted"

fun status_i8 :: "goal_status \<Rightarrow> u8" where
  "status_i8 Unknown = 0"
| "status_i8 Accepted = 1"
| "status_i8 Executing = 2"
| "status_i8 Canceling = 3"
| "status_i8 Succeeded = 4"
| "status_i8 Canceled = 5"
| "status_i8 Aborted = 6"

text \<open>The error text shows the value, a signed octet.\<close>

definition show_i8 :: "u8 \<Rightarrow> string" where
  "show_i8 v = (if sint v < 0 then CHR ''-'' # show_nat (nat (- sint v)) else show_nat (nat (sint v)))"

definition status_try_from :: "u8 \<Rightarrow> (goal_status, string) res" where
  "status_try_from v =
     (if v = 0 then Ok Unknown else if v = 1 then Ok Accepted else if v = 2 then Ok Executing
      else if v = 3 then Ok Canceling else if v = 4 then Ok Succeeded else if v = 5 then Ok Canceled
      else if v = 6 then Ok Aborted else Err (''Invalid GoalStatus value: '' @ show_i8 v))"

datatype goal_event = Execute | CancelGoal | Succeed | Abort | CanceledEvent

fun transition_goal_state :: "goal_status \<Rightarrow> goal_event \<Rightarrow> goal_status" where
  "transition_goal_state Accepted Execute = Executing"
| "transition_goal_state Accepted CancelGoal = Canceling"
| "transition_goal_state Executing CancelGoal = Canceling"
| "transition_goal_state Executing Succeed = Succeeded"
| "transition_goal_state Executing Abort = Aborted"
| "transition_goal_state Canceling CanceledEvent = Canceled"
| "transition_goal_state Canceling Succeed = Succeeded"
| "transition_goal_state Canceling Abort = Aborted"
| "transition_goal_state _ _ = Unknown"

record ros_time =
  t_sec :: u32
  t_nanosec :: u32

text \<open>The wall clock in nanoseconds since the epoch; the seconds are cut to 32 bits.\<close>

definition time_now :: "nat \<Rightarrow> ros_time" where
  "time_now ns = \<lparr>t_sec = word_of_nat (ns div 10 ^ 9), t_nanosec = word_of_nat (ns mod 10 ^ 9)\<rparr>"

definition time_zero :: ros_time where
  "time_zero = \<lparr>t_sec = 0, t_nanosec = 0\<rparr>"

record goal_info =
  gi_goal_id :: goal_id
  gi_stamp :: ros_time

definition goal_info_new :: "nat \<Rightarrow> goal_id \<Rightarrow> goal_info" where
  "goal_info_new ns i = \<lparr>gi_goal_id = i, gi_stamp = time_now ns\<rparr>"

section \<open>Messages\<close>

record goal_status_info =
  gsi_goal_info :: goal_info
  gsi_status :: goal_status

record status_message =
  sm_status_list :: "goal_status_info list"

record cancel_goal_request =
  cgr_goal_info :: goal_info

record cancel_goal_response =
  cgs_return_code :: u8
  cgs_goals_canceling :: "goal_info list"

text \<open>\<open>GoalResponse\<close> and \<open>SendGoalResponse\<close> have the same fields and implementations.\<close>

record send_goal_response =
  sgr_accepted :: bool
  sgr_stamp_sec :: u32
  sgr_stamp_nanosec :: u32

text \<open>\<open>ResultRequest\<close> and \<open>GetResultRequest\<close>.\<close>

record get_result_request =
  grr_goal_id :: goal_id

section \<open>CDR implementations\<close>

definition goal_id_codec :: "goal_id codec" where
  "goal_id_codec = array_codec 16 u8_codec"

definition goal_status_codec :: "goal_status codec" where
  "goal_status_codec = struct_codec (\<lambda>v. map_err Custom (status_try_from v)) status_i8 i8_codec"

definition time_codec :: "ros_time codec" where
  "time_codec = struct_codec (\<lambda>(s, n). Ok \<lparr>t_sec = s, t_nanosec = n\<rparr>) (\<lambda>t. (t_sec t, t_nanosec t))
     (pair_codec i32_codec u32_codec)"

definition goal_info_codec :: "goal_info codec" where
  "goal_info_codec = struct_codec (\<lambda>(i, t). Ok \<lparr>gi_goal_id = i, gi_stamp = t\<rparr>) (\<lambda>g. (gi_goal_id g, gi_stamp g))
     (pair_codec goal_id_codec time_codec)"

definition goal_status_info_codec :: "goal_status_info codec" where
  "goal_status_info_codec = struct_codec (\<lambda>(g, s). Ok \<lparr>gsi_goal_info = g, gsi_status = s\<rparr>)
     (\<lambda>i. (gsi_goal_info i, gsi_status i)) (pair_codec goal_info_codec goal_status_codec)"

definition status_message_codec :: "status_message codec" where
  "status_message_codec = struct_codec (\<lambda>l. Ok \<lparr>sm_status_list = l\<rparr>) sm_status_list (vec_codec goal_status_info_codec)"

definition cancel_goal_request_codec :: "cancel_goal_request codec" where
  "cancel_goal_request_codec = struct_codec (\<lambda>g. Ok \<lparr>cgr_goal_info = g\<rparr>) cgr_goal_info goal_info_codec"

definition cancel_goal_response_codec :: "cancel_goal_response codec" where
  "cancel_goal_response_codec = struct_codec (\<lambda>(c, gs). Ok \<lparr>cgs_return_code = c, cgs_goals_canceling = gs\<rparr>)
     (\<lambda>r. (cgs_return_code r, cgs_goals_canceling r)) (pair_codec i8_codec (vec_codec goal_info_codec))"

definition send_goal_response_codec :: "send_goal_response codec" where
  "send_goal_response_codec = struct_codec
     (\<lambda>(a, s, n). Ok \<lparr>sgr_accepted = a, sgr_stamp_sec = s, sgr_stamp_nanosec = n\<rparr>)
     (\<lambda>r. (sgr_accepted r, sgr_stamp_sec r, sgr_stamp_nanosec r))
     (pair_codec bool_codec (pair_codec i32_codec u32_codec))"

definition get_result_request_codec :: "get_result_request codec" where
  "get_result_request_codec = struct_codec (\<lambda>i. Ok \<lparr>grr_goal_id = i\<rparr>) grr_goal_id goal_id_codec"

section \<open>Every implementation keeps the contract\<close>

lemma status_codec [simp]: "status_try_from (status_i8 s) = Ok s"
  by (cases s) (simp_all add: status_try_from_def)

lemma status_try_from_total: "map_err Custom (status_try_from v) \<noteq> Panic"
  by (simp add: status_try_from_def)

definition goal_id_enc :: "byte_order \<Rightarrow> nat \<Rightarrow> goal_id \<Rightarrow> bytes" where
  "goal_id_enc bo = enc_seq (\<lambda>p v. [v])"

definition time_enc :: "byte_order \<Rightarrow> nat \<Rightarrow> ros_time \<Rightarrow> bytes" where
  "time_enc bo p t = enc_word bo 4 p (t_sec t) @ enc_word bo 4 (p + length (enc_word bo 4 p (t_sec t))) (t_nanosec t)"

definition goal_info_enc :: "byte_order \<Rightarrow> nat \<Rightarrow> goal_info \<Rightarrow> bytes" where
  "goal_info_enc bo p g = goal_id_enc bo p (gi_goal_id g) @
     time_enc bo (p + length (goal_id_enc bo p (gi_goal_id g))) (gi_stamp g)"

definition goal_status_info_enc :: "byte_order \<Rightarrow> nat \<Rightarrow> goal_status_info \<Rightarrow> bytes" where
  "goal_status_info_enc bo p i = goal_info_enc bo p (gsi_goal_info i) @ [status_i8 (gsi_status i)]"

definition vec_enc :: "(byte_order \<Rightarrow> nat \<Rightarrow> 'm \<Rightarrow> bytes) \<Rightarrow> byte_order \<Rightarrow> nat \<Rightarrow> 'm list \<Rightarrow> bytes" where
  "vec_enc enc bo p xs = enc_word bo 4 p (word_of_nat (length xs) :: u32) @ enc_seq (enc bo) (p + cdr_padding p 4 + 4) xs"

definition goal_id_ok :: "goal_id \<Rightarrow> bool" where
  "goal_id_ok i \<longleftrightarrow> length i = 16"

definition goal_info_ok :: "goal_info \<Rightarrow> bool" where
  "goal_info_ok g \<longleftrightarrow> goal_id_ok (gi_goal_id g)"

interpretation gid: cdr_codec goal_id_codec goal_id_ok goal_id_enc
  using codec_array [OF codec_octets(3), of 16]
  by (simp add: goal_id_codec_def goal_id_ok_def [abs_def] goal_id_enc_def [abs_def] list_all_iff)

interpretation gst: cdr_codec goal_status_codec "\<lambda>_. True" "\<lambda>bo p s. [status_i8 s]"
  unfolding goal_status_codec_def
  by (rule codec_struct [OF codec_octets(2)]) (simp_all add: status_try_from_total)

interpretation tim: cdr_codec time_codec "\<lambda>_. True" time_enc
  using codec_struct [OF codec_pair [OF codec_words(1,2)], of "\<lambda>_. True" "\<lambda>t. (t_sec t, t_nanosec t)"
      "\<lambda>(s, n). Ok \<lparr>t_sec = s, t_nanosec = n\<rparr>"]
  by (simp add: time_codec_def time_enc_def [abs_def] split_beta)

interpretation gin: cdr_codec goal_info_codec goal_info_ok goal_info_enc
  using codec_struct [OF codec_pair [OF gid.cdr_codec_axioms tim.cdr_codec_axioms], of goal_info_ok
      "\<lambda>g. (gi_goal_id g, gi_stamp g)" "\<lambda>(i, t). Ok \<lparr>gi_goal_id = i, gi_stamp = t\<rparr>"]
  by (simp add: goal_info_codec_def goal_info_enc_def [abs_def] goal_info_ok_def split_beta)

interpretation gsi: cdr_codec goal_status_info_codec "\<lambda>i. goal_info_ok (gsi_goal_info i)" goal_status_info_enc
  using codec_struct [OF codec_pair [OF gin.cdr_codec_axioms gst.cdr_codec_axioms], of "\<lambda>i. goal_info_ok (gsi_goal_info i)"
      "\<lambda>i. (gsi_goal_info i, gsi_status i)" "\<lambda>(g, s). Ok \<lparr>gsi_goal_info = g, gsi_status = s\<rparr>"]
  by (simp add: goal_status_info_codec_def goal_status_info_enc_def [abs_def] split_beta)

interpretation sms: cdr_codec status_message_codec
  "\<lambda>m. length (sm_status_list m) \<le> 100000000 \<and> list_all (\<lambda>i. goal_info_ok (gsi_goal_info i)) (sm_status_list m)"
  "\<lambda>bo p m. vec_enc goal_status_info_enc bo p (sm_status_list m)"
  unfolding status_message_codec_def vec_enc_def
  by (rule codec_struct [OF codec_vec [OF gsi.cdr_codec_axioms]]) simp_all

interpretation cgq: cdr_codec cancel_goal_request_codec "\<lambda>m. goal_info_ok (cgr_goal_info m)"
  "\<lambda>bo p m. goal_info_enc bo p (cgr_goal_info m)"
  unfolding cancel_goal_request_codec_def by (rule codec_struct [OF gin.cdr_codec_axioms]) simp_all

interpretation cgs: cdr_codec cancel_goal_response_codec
  "\<lambda>m. length (cgs_goals_canceling m) \<le> 100000000 \<and> list_all goal_info_ok (cgs_goals_canceling m)"
  "\<lambda>bo p m. cgs_return_code m # vec_enc goal_info_enc bo (Suc p) (cgs_goals_canceling m)"
  using codec_struct [OF codec_pair [OF codec_octets(2) codec_vec [OF gin.cdr_codec_axioms]],
      of "\<lambda>m. length (cgs_goals_canceling m) \<le> 100000000 \<and> list_all goal_info_ok (cgs_goals_canceling m)"
      "\<lambda>r. (cgs_return_code r, cgs_goals_canceling r)" "\<lambda>(c, gs). Ok \<lparr>cgs_return_code = c, cgs_goals_canceling = gs\<rparr>"]
  by (simp add: cancel_goal_response_codec_def vec_enc_def split_beta)

interpretation sgr: cdr_codec send_goal_response_codec "\<lambda>_. True"
  "\<lambda>bo p m. (if sgr_accepted m then 1 else 0) # time_enc bo (Suc p) \<lparr>t_sec = sgr_stamp_sec m, t_nanosec = sgr_stamp_nanosec m\<rparr>"
  using codec_struct [OF codec_pair [OF codec_octets(1) codec_pair [OF codec_words(1,2)]], of "\<lambda>_. True"
      "\<lambda>r. (sgr_accepted r, sgr_stamp_sec r, sgr_stamp_nanosec r)"
      "\<lambda>(a, s, n). Ok \<lparr>sgr_accepted = a, sgr_stamp_sec = s, sgr_stamp_nanosec = n\<rparr>"]
  by (simp add: send_goal_response_codec_def time_enc_def split_beta)

interpretation grq: cdr_codec get_result_request_codec "\<lambda>m. goal_id_ok (grr_goal_id m)"
  "\<lambda>bo p m. goal_id_enc bo p (grr_goal_id m)"
  unfolding get_result_request_codec_def by (rule codec_struct [OF gid.cdr_codec_axioms]) simp_all

section \<open>Properties\<close>

text \<open>
  C27: the native action messages. A status message, a cancel request and its response, the
  response to a goal and a result request, with 16-byte goal ids and lists under the
  reader's limit, are serialized without an error to as many bytes as their size
  implementation computes plus the header, and read back. Reading arbitrary bytes as any of
  them returns a message or an error, never a panic.
\<close>

theorem action_messages_roundtrip:
  assumes "length (sm_status_list sm) \<le> 100000000" and "\<forall>i \<in> set (sm_status_list sm). goal_info_ok (gsi_goal_info i)"
    and "goal_info_ok (cgr_goal_info cq)"
    and "length (cgs_goals_canceling cs) \<le> 100000000" and "\<forall>g \<in> set (cgs_goals_canceling cs). goal_info_ok g"
    and "goal_id_ok (grr_goal_id rq)"
  shows "(\<exists>bs. native_serialize status_message_codec sm = Ok bs \<and> native_deserialize status_message_codec bs = Ok sm \<and>
            length bs = mc_size status_message_codec sm 0 + 4) \<and>
         (\<exists>bs. native_serialize cancel_goal_request_codec cq = Ok bs \<and> native_deserialize cancel_goal_request_codec bs = Ok cq \<and>
            length bs = mc_size cancel_goal_request_codec cq 0 + 4) \<and>
         (\<exists>bs. native_serialize cancel_goal_response_codec cs = Ok bs \<and> native_deserialize cancel_goal_response_codec bs = Ok cs \<and>
            length bs = mc_size cancel_goal_response_codec cs 0 + 4) \<and>
         (\<exists>bs. native_serialize send_goal_response_codec sr = Ok bs \<and> native_deserialize send_goal_response_codec bs = Ok sr \<and>
            length bs = mc_size send_goal_response_codec sr 0 + 4) \<and>
         (\<exists>bs. native_serialize get_result_request_codec rq = Ok bs \<and> native_deserialize get_result_request_codec bs = Ok rq \<and>
            length bs = mc_size get_result_request_codec rq 0 + 4) \<and>
         native_deserialize status_message_codec raw \<noteq> Panic \<and> native_deserialize cancel_goal_request_codec raw \<noteq> Panic \<and>
         native_deserialize cancel_goal_response_codec raw \<noteq> Panic \<and> native_deserialize send_goal_response_codec raw \<noteq> Panic \<and>
         native_deserialize get_result_request_codec raw \<noteq> Panic"
proof -
  have "length (sm_status_list sm) \<le> 100000000 \<and> list_all (\<lambda>i. goal_info_ok (gsi_goal_info i)) (sm_status_list sm)"
    "length (cgs_goals_canceling cs) \<le> 100000000 \<and> list_all goal_info_ok (cgs_goals_canceling cs)"
    using assms by (simp_all add: list_all_iff)
  then show ?thesis
    by (intro conjI sms.native_roundtrip cgq.native_roundtrip cgs.native_roundtrip sgr.native_roundtrip
        grq.native_roundtrip sms.native_total cgq.native_total cgs.native_total sgr.native_total grq.native_total
        assms TrueI) simp_all
qed

definition sample_goal_info :: goal_info where
  "sample_goal_info = \<lparr>gi_goal_id = replicate 16 7, gi_stamp = time_zero\<rparr>"

lemma action_messages_roundtrip_witness:
  "\<exists>bs. native_serialize status_message_codec \<lparr>sm_status_list = [\<lparr>gsi_goal_info = sample_goal_info, gsi_status = Executing\<rparr>]\<rparr> = Ok bs \<and>
     native_deserialize status_message_codec bs =
       Ok \<lparr>sm_status_list = [\<lparr>gsi_goal_info = sample_goal_info, gsi_status = Executing\<rparr>]\<rparr>"
proof -
  have "goal_info_ok sample_goal_info" by (simp add: goal_info_ok_def goal_id_ok_def sample_goal_info_def)
  then show ?thesis
    using action_messages_roundtrip [of "\<lparr>sm_status_list = [\<lparr>gsi_goal_info = sample_goal_info, gsi_status = Executing\<rparr>]\<rparr>"
        "\<lparr>cgr_goal_info = sample_goal_info\<rparr>" "\<lparr>cgs_return_code = 0, cgs_goals_canceling = [sample_goal_info]\<rparr>"
        "\<lparr>grr_goal_id = replicate 16 7\<rparr>" "\<lparr>sgr_accepted = True, sgr_stamp_sec = 0, sgr_stamp_nanosec = 0\<rparr>" "[]"]
    by (auto simp: goal_id_ok_def)
qed

end
