(* ===== verification/Action_Server.thy ===== *)
theory Action_Server
  imports Action_Messages Bounded_Queue "HOL-Library.AList" "HOL-Library.Multiset"
begin

text \<open>
  \<open>crates/hiroz/src/action/state.rs\<close>, \<open>server.rs\<close> and \<open>driver.rs\<close>: the goals of an action
  server, the operations of its goal handles, result and cancel requests in the manual and
  the driver mode, and the driver loop. Every closure passed to \<open>SafeGoalManager::modify\<close>
  or \<open>read\<close> runs under the mutex and is one function; a panic inside it poisons the mutex,
  after which every further access panics. An \<open>Instant\<close> is the number of nanoseconds of the
  monotonic clock; adding a duration panics when the seconds leave 64 signed bits. The wall
  clock is an argument of what stamps messages. A cancel flag and a cancel channel are
  shared by a goal entry and a handle: they live in stores and are known by their address. A
  request is decoded when it is received; its attachment decides whether the reply can be
  built, which the code takes for granted with \<open>unwrap\<close>. Cloning and serializing the goal
  and result types of the user are taken not to panic.
\<close>

section \<open>Requests\<close>

datatype 'p payload = NoPayload | Malformed | Decoded 'p

datatype attachment_state = NoAttachment | BadAttachment | GoodAttachment

record 'p zquery =
  zq_id :: nat
  zq_payload :: "'p payload"
  zq_attachment :: attachment_state

datatype 'r action_reply =
    GoalReply send_goal_response
  | CancelReply cancel_goal_response
  | ResultReply u8 'r

section \<open>Goal states\<close>

datatype ('g, 'r) server_goal_state =
    SAccepted 'g nat "nat option"
  | SExecuting 'g nat "nat option"
  | SCanceling 'g
  | STerminated 'r goal_status nat "nat option"

record ('g, 'r) goal_manager =
  gm_goals :: "(goal_id \<times> ('g, 'r) server_goal_state) list"
  gm_result_timeout :: nat
  gm_goal_timeout :: "nat option"
  gm_result_futures :: "(goal_id \<times> nat list) list"

definition gm_new :: "nat \<Rightarrow> nat option \<Rightarrow> ('g, 'r) goal_manager" where
  "gm_new result_timeout goal_timeout =
     \<lparr>gm_goals = [], gm_result_timeout = result_timeout, gm_goal_timeout = goal_timeout, gm_result_futures = []\<rparr>"

text \<open>A per-goal cancel channel: its content, and whether its receiver is still there.\<close>

record cancel_channel =
  ch_queries :: "goal_info zquery list"
  ch_open :: bool

record ('g, 'r) action_server =
  sv_manager :: "('g, 'r) goal_manager"
  sv_poisoned :: bool
  sv_flags :: "bool list"
  sv_channels :: "cancel_channel list"
  sv_routes :: "(goal_id \<times> nat) list"
  sv_goal_queue :: "(goal_id \<times> 'g) zquery bounded_queue"
  sv_cancel_queue :: "goal_info zquery bounded_queue"
  sv_result_queue :: "goal_id zquery bounded_queue"
  sv_waiters :: nat
  sv_notified :: "(nat \<times> 'r \<times> goal_status) list"
  sv_statuses :: "status_message list"
  sv_replies :: "(nat \<times> 'r action_reply) list"

definition sv_new :: "nat \<Rightarrow> nat option \<Rightarrow> nat \<Rightarrow> ('g, 'r) action_server" where
  "sv_new result_timeout goal_timeout depth =
     \<lparr>sv_manager = gm_new result_timeout goal_timeout, sv_poisoned = False, sv_flags = [], sv_channels = [], sv_routes = [],
      sv_goal_queue = bq_new depth, sv_cancel_queue = bq_new depth, sv_result_queue = bq_new depth,
      sv_waiters = 0, sv_notified = [], sv_statuses = [], sv_replies = []\<rparr>"

definition goal_entry :: "('g, 'r) action_server \<Rightarrow> goal_id \<Rightarrow> ('g, 'r) server_goal_state option" where
  "goal_entry s i = map_of (gm_goals (sv_manager s)) i"

definition set_goal :: "('g, 'r) action_server \<Rightarrow> goal_id \<Rightarrow> ('g, 'r) server_goal_state \<Rightarrow> ('g, 'r) action_server" where
  "set_goal s i st = s\<lparr>sv_manager := (sv_manager s)\<lparr>gm_goals := AList.update i st (gm_goals (sv_manager s))\<rparr>\<rparr>"

fun state_status :: "('g, 'r) server_goal_state \<Rightarrow> goal_status" where
  "state_status (SAccepted _ _ _) = Accepted"
| "state_status (SExecuting _ _ _) = Executing"
| "state_status (SCanceling _) = Canceling"
| "state_status (STerminated _ st _ _) = st"

definition publish_status :: "nat \<Rightarrow> ('g, 'r) action_server \<Rightarrow> ('g, 'r) action_server" where
  "publish_status wall s = s\<lparr>sv_statuses := sv_statuses s @
     [\<lparr>sm_status_list = map (\<lambda>(i, st). \<lparr>gsi_goal_info = goal_info_new wall i, gsi_status = state_status st\<rparr>)
        (gm_goals (sv_manager s))\<rparr>]\<rparr>"

text \<open>
  A critical section: it panics when the mutex is poisoned, and a panic inside it (no
  value) poisons the mutex. \<open>publish_status\<close> above also takes the lock, but always in the
  wake of a critical section that succeeded, with which it is one step here.
\<close>

definition locked ::
  "(('g, 'r) action_server \<Rightarrow> 'a option \<times> ('g, 'r) action_server) \<Rightarrow> ('g, 'r) action_server \<Rightarrow>
    ('a, unit) res \<times> ('g, 'r) action_server" where
  "locked f s =
     (if sv_poisoned s then (Panic, s)
      else (case f s of
              (Some a, s') \<Rightarrow> (Ok a, s')
            | (None, s') \<Rightarrow> (Panic, s'\<lparr>sv_poisoned := True\<rparr>)))"

text \<open>The reply paths that unwrap the attachment, and the one that does not.\<close>

definition reply_unwrap :: "'p zquery \<Rightarrow> 'r action_reply \<Rightarrow> ('g, 'r) action_server \<Rightarrow> (unit, unit) res \<times> ('g, 'r) action_server" where
  "reply_unwrap q r s =
     (if zq_attachment q = GoodAttachment then (Ok (), s\<lparr>sv_replies := sv_replies s @ [(zq_id q, r)]\<rparr>) else (Panic, s))"

definition reply_if_attached :: "'p zquery \<Rightarrow> 'r action_reply \<Rightarrow> ('g, 'r) action_server \<Rightarrow> ('g, 'r) action_server" where
  "reply_if_attached q r s =
     (if zq_attachment q = GoodAttachment then s\<lparr>sv_replies := sv_replies s @ [(zq_id q, r)]\<rparr> else s)"

section \<open>Cancel dispatcher\<close>

definition cd_register :: "goal_id \<Rightarrow> ('g, 'r) action_server \<Rightarrow> nat \<times> ('g, 'r) action_server" where
  "cd_register i s =
     (length (sv_channels s),
      s\<lparr>sv_channels := sv_channels s @ [\<lparr>ch_queries = [], ch_open = True\<rparr>],
        sv_routes := AList.update i (length (sv_channels s)) (sv_routes s)\<rparr>)"

definition cd_deregister :: "goal_id \<Rightarrow> ('g, 'r) action_server \<Rightarrow> ('g, 'r) action_server" where
  "cd_deregister i s = s\<lparr>sv_routes := AList.delete i (sv_routes s)\<rparr>"

text \<open>\<open>try_send\<close> on a channel of capacity 4.\<close>

definition channel_send :: "nat \<Rightarrow> goal_info zquery \<Rightarrow> cancel_channel list \<Rightarrow> cancel_channel list" where
  "channel_send c q chs =
     (let ch = chs ! c
      in if ch_open ch \<and> length (ch_queries ch) < 4 then chs[c := ch\<lparr>ch_queries := ch_queries ch @ [q]\<rparr>] else chs)"

definition route_cancel :: "goal_info zquery \<Rightarrow> ('g, 'r) action_server \<Rightarrow> ('g, 'r) action_server" where
  "route_cancel q s =
     (case zq_payload q of
        Decoded g \<Rightarrow>
          (case map_of (sv_routes s) (gi_goal_id g) of
             Some c \<Rightarrow> s\<lparr>sv_channels := channel_send c q (sv_channels s)\<rparr>
           | None \<Rightarrow> s)
      | _ \<Rightarrow> s)"

function cd_drain :: "('g, 'r) action_server \<Rightarrow> ('g, 'r) action_server" where
  "cd_drain s =
     (case bq_try_recv (sv_cancel_queue s) of
        (Some q, rest) \<Rightarrow> cd_drain (route_cancel q (s\<lparr>sv_cancel_queue := rest\<rparr>))
      | (None, _) \<Rightarrow> s)"
  by pat_completeness auto

lemma route_cancel_queue [simp]: "sv_cancel_queue (route_cancel q s) = sv_cancel_queue s"
  by (simp add: route_cancel_def split: payload.splits option.splits)

termination cd_drain
  by (relation "measure (\<lambda>s. length (bq_data (sv_cancel_queue s)))")
     (auto simp: bq_try_recv_def split: list.splits)

declare cd_drain.simps [simp del]

section \<open>Goal handles\<close>

record ('g) goal_handle =
  gh_goal :: 'g
  gh_info :: goal_info
  gh_query :: "(goal_id \<times> 'g) zquery option"
  gh_cancel_flag :: "nat option"
  gh_cancel_rx :: "nat option"

text \<open>
  The last instant (seconds in \<open>i64\<close>, nanoseconds below a second), \<open>Instant + Duration\<close>,
  and the optional deadline of a goal.
\<close>

definition max_instant :: nat where
  "max_instant = 2 ^ 63 * 10 ^ 9 - 1"

definition instant_add :: "nat \<Rightarrow> nat \<Rightarrow> nat option" where
  "instant_add now t = (if now + t \<le> max_instant then Some (now + t) else None)"

definition expiry :: "nat \<Rightarrow> nat option \<Rightarrow> nat option option" where
  "expiry now timeout = (case timeout of None \<Rightarrow> Some None | Some t \<Rightarrow> map_option Some (instant_add now t))"

text \<open>The critical section of \<open>accept\<close> and of \<open>execute\<close>; the deadline is computed first.\<close>

definition enter_goal ::
  "goal_id \<Rightarrow> (nat option \<Rightarrow> ('g, 'r) server_goal_state) \<Rightarrow> nat \<Rightarrow> ('g, 'r) action_server \<Rightarrow>
    (unit, unit) res \<times> ('g, 'r) action_server" where
  "enter_goal i entry now =
     locked (\<lambda>s. case expiry now (gm_goal_timeout (sv_manager s)) of
                   None \<Rightarrow> (None, s)
                 | Some e \<Rightarrow> (Some (), set_goal s i (entry e)))"

definition requested_handle :: "nat \<Rightarrow> (goal_id \<times> 'g) zquery \<Rightarrow> goal_id \<Rightarrow> 'g \<Rightarrow> 'g goal_handle" where
  "requested_handle wall q i g =
     \<lparr>gh_goal = g, gh_info = goal_info_new wall i, gh_query = Some q, gh_cancel_flag = None, gh_cancel_rx = None\<rparr>"

definition gh_accept ::
  "nat \<Rightarrow> nat \<Rightarrow> 'g goal_handle \<Rightarrow> ('g, 'r) action_server \<Rightarrow> ('g goal_handle, unit) res \<times> ('g, 'r) action_server" where
  "gh_accept now wall h s =
     (case enter_goal (gi_goal_id (gh_info h)) (SAccepted (gh_goal h) now) now s of
        (Ok _, s1) \<Rightarrow>
          (let response = GoalReply \<lparr>sgr_accepted = True, sgr_stamp_sec = t_sec (gi_stamp (gh_info h)),
                 sgr_stamp_nanosec = t_nanosec (gi_stamp (gh_info h))\<rparr>;
               (sent, s2) = (case gh_query h of None \<Rightarrow> (Ok (), s1) | Some q \<Rightarrow> reply_unwrap q response s1)
           in case sent of
                Ok _ \<Rightarrow> (Ok (h\<lparr>gh_query := None\<rparr>), publish_status wall s2)
              | Err e \<Rightarrow> (Err e, s2)
              | Panic \<Rightarrow> (Panic, s2))
      | (Err e, s1) \<Rightarrow> (Err e, s1)
      | (Panic, s1) \<Rightarrow> (Panic, s1))"

definition gh_reject :: "'g goal_handle \<Rightarrow> ('g, 'r) action_server \<Rightarrow> (unit, unit) res \<times> ('g, 'r) action_server" where
  "gh_reject h s =
     (case gh_query h of
        None \<Rightarrow> (Ok (), s)
      | Some q \<Rightarrow> reply_unwrap q (GoalReply \<lparr>sgr_accepted = False, sgr_stamp_sec = 0, sgr_stamp_nanosec = 0\<rparr>) s)"

text \<open>A handle is consumed, and with it the receiver of its cancel channel.\<close>

definition close_channel :: "nat option \<Rightarrow> ('g, 'r) action_server \<Rightarrow> ('g, 'r) action_server" where
  "close_channel rx s =
     (case rx of None \<Rightarrow> s
      | Some c \<Rightarrow> s\<lparr>sv_channels := (sv_channels s)[c := (sv_channels s ! c)\<lparr>ch_open := False\<rparr>]\<rparr>)"

definition gh_execute ::
  "nat \<Rightarrow> nat \<Rightarrow> 'g goal_handle \<Rightarrow> ('g, 'r) action_server \<Rightarrow> ('g goal_handle, unit) res \<times> ('g, 'r) action_server" where
  "gh_execute now wall h s =
     (let i = gi_goal_id (gh_info h);
          flag = length (sv_flags s);
          s1 = s\<lparr>sv_flags := sv_flags s @ [False]\<rparr>;
          (rx, s2) = cd_register i s1
      in case enter_goal i (SExecuting (gh_goal h) flag) now s2 of
           (Ok _, s3) \<Rightarrow>
             (Ok (h\<lparr>gh_query := None, gh_cancel_flag := Some flag, gh_cancel_rx := Some rx\<rparr>), publish_status wall s3)
         | (Err e, s3) \<Rightarrow> (Err e, close_channel (Some rx) s3)
         | (Panic, s3) \<Rightarrow> (Panic, close_channel (Some rx) s3))"

definition is_cancel_requested :: "'g goal_handle \<Rightarrow> ('g, 'r) action_server \<Rightarrow> bool" where
  "is_cancel_requested h s = (case gh_cancel_flag h of None \<Rightarrow> False | Some f \<Rightarrow> sv_flags s ! f)"

definition request_cancel :: "goal_id \<Rightarrow> ('g, 'r) action_server \<Rightarrow> (bool, unit) res \<times> ('g, 'r) action_server" where
  "request_cancel i =
     locked (\<lambda>s. case goal_entry s i of
                   Some (SExecuting _ flag _) \<Rightarrow> (Some True, s\<lparr>sv_flags := (sv_flags s)[flag := True]\<rparr>)
                 | _ \<Rightarrow> (Some False, s))"

text \<open>Polling: drain the shared queue, then look at the goal's own channel.\<close>

definition try_process_cancel :: "'g goal_handle \<Rightarrow> ('g, 'r) action_server \<Rightarrow> (bool, unit) res \<times> ('g, 'r) action_server" where
  "try_process_cancel h s =
     (if is_cancel_requested h s then (Ok True, s)
      else
        (let s1 = cd_drain s
         in case gh_cancel_rx h of
              None \<Rightarrow> (Ok False, s1)
            | Some rx \<Rightarrow>
                (case ch_queries (sv_channels s1 ! rx) of
                   [] \<Rightarrow> (Ok False, s1)
                 | q # qs \<Rightarrow>
                     (let s2 = s1\<lparr>sv_channels := (sv_channels s1)[rx := (sv_channels s1 ! rx)\<lparr>ch_queries := qs\<rparr>]\<rparr>
                      in case zq_payload q of
                           Decoded g \<Rightarrow>
                             (case request_cancel (gi_goal_id (gh_info h)) s2 of
                                (Panic, s3) \<Rightarrow> (Panic, s3)
                              | (_, s3) \<Rightarrow>
                                  (Ok True,
                                   reply_if_attached q (CancelReply \<lparr>cgs_return_code = 1, cgs_goals_canceling = [g]\<rparr>) s3))
                         | _ \<Rightarrow> (Ok False, s2)))))"

text \<open>
  \<open>terminate\<close>: the entry and the waiters are exchanged under the lock, the waiters are
  notified outside of it. Whatever happens, the handle is consumed.
\<close>

definition gh_terminate ::
  "nat \<Rightarrow> nat \<Rightarrow> 'g goal_handle \<Rightarrow> 'r \<Rightarrow> goal_status \<Rightarrow> ('g, 'r) action_server \<Rightarrow>
    (unit, unit) res \<times> ('g, 'r) action_server" where
  "gh_terminate now wall h result status s =
     (let i = gi_goal_id (gh_info h);
          s1 = cd_deregister i s;
          (taken, s2) = locked (\<lambda>s.
            case instant_add now (gm_result_timeout (sv_manager s)) of
              None \<Rightarrow> (None, s)
            | Some e \<Rightarrow>
                (let t = set_goal s i (STerminated result status now (Some e));
                     futures = gm_result_futures (sv_manager t)
                 in (Some (unwrap_or (map_of futures i) []),
                     t\<lparr>sv_manager := (sv_manager t)\<lparr>gm_result_futures := AList.delete i futures\<rparr>\<rparr>))) s1
      in case taken of
           Ok futures \<Rightarrow>
             (let s3 = s2\<lparr>sv_notified := sv_notified s2 @ map (\<lambda>tx. (tx, result, status)) futures\<rparr>
              in (Ok (), close_channel (gh_cancel_rx h) (publish_status wall s3)))
         | Err e \<Rightarrow> (Err e, close_channel (gh_cancel_rx h) s2)
         | Panic \<Rightarrow> (Panic, close_channel (gh_cancel_rx h) s2))"

definition gh_succeed :: "nat \<Rightarrow> nat \<Rightarrow> 'g goal_handle \<Rightarrow> 'r \<Rightarrow> ('g, 'r) action_server \<Rightarrow>
    (unit, unit) res \<times> ('g, 'r) action_server" where
  "gh_succeed now wall h result = gh_terminate now wall h result Succeeded"

definition gh_abort :: "nat \<Rightarrow> nat \<Rightarrow> 'g goal_handle \<Rightarrow> 'r \<Rightarrow> ('g, 'r) action_server \<Rightarrow>
    (unit, unit) res \<times> ('g, 'r) action_server" where
  "gh_abort now wall h result = gh_terminate now wall h result Aborted"

definition gh_canceled :: "nat \<Rightarrow> nat \<Rightarrow> 'g goal_handle \<Rightarrow> 'r \<Rightarrow> ('g, 'r) action_server \<Rightarrow>
    (unit, unit) res \<times> ('g, 'r) action_server" where
  "gh_canceled now wall h result = gh_terminate now wall h result Canceled"

section \<open>Expiration\<close>

fun should_expire :: "nat \<Rightarrow> ('g, 'r) server_goal_state \<Rightarrow> bool" where
  "should_expire now (SAccepted _ _ e) = (case e of None \<Rightarrow> False | Some exp \<Rightarrow> exp \<le> now)"
| "should_expire now (SExecuting _ _ e) = (case e of None \<Rightarrow> False | Some exp \<Rightarrow> exp \<le> now)"
| "should_expire now (STerminated _ _ _ e) = (case e of None \<Rightarrow> False | Some exp \<Rightarrow> exp \<le> now)"
| "should_expire now (SCanceling _) = False"

definition expire_goals :: "nat \<Rightarrow> nat \<Rightarrow> ('g, 'r) action_server \<Rightarrow> (goal_id list, unit) res \<times> ('g, 'r) action_server" where
  "expire_goals now wall s =
     (case locked (\<lambda>s.
        (let goals = gm_goals (sv_manager s)
         in (Some (map fst (filter (\<lambda>(i, st). should_expire now st) goals)),
             s\<lparr>sv_manager := (sv_manager s)\<lparr>gm_goals := filter (\<lambda>(i, st). \<not> should_expire now st) goals\<rparr>\<rparr>))) s of
        (Ok expired, s1) \<Rightarrow> (Ok expired, if expired \<noteq> [] then publish_status wall s1 else s1)
      | (Err e, s1) \<Rightarrow> (Err e, s1)
      | (Panic, s1) \<Rightarrow> (Panic, s1))"

definition set_result_timeout :: "nat \<Rightarrow> ('g, 'r) action_server \<Rightarrow> (unit, unit) res \<times> ('g, 'r) action_server" where
  "set_result_timeout t = locked (\<lambda>s. (Some (), s\<lparr>sv_manager := (sv_manager s)\<lparr>gm_result_timeout := t\<rparr>\<rparr>))"

section \<open>Requests\<close>

definition add_waiter :: "goal_id \<Rightarrow> ('g, 'r) action_server \<Rightarrow> nat \<times> ('g, 'r) action_server" where
  "add_waiter i s =
     (let w = sv_waiters s; futures = gm_result_futures (sv_manager s)
      in (w, s\<lparr>sv_waiters := Suc w,
               sv_manager := (sv_manager s)\<lparr>gm_result_futures :=
                 AList.update i (unwrap_or (map_of futures i) [] @ [w]) futures\<rparr>\<rparr>))"

text \<open>
  What a result request leads to: a reply at once, a waiter, or nothing. The manual mode
  also waits for a goal it does not know.
\<close>

datatype 'r result_state = RTerminated 'r goal_status | RWaiting nat | RNotFound

definition result_legacy :: "goal_id \<Rightarrow> ('g, 'r) action_server \<Rightarrow> ('r result_state, unit) res \<times> ('g, 'r) action_server" where
  "result_legacy i =
     locked (\<lambda>s. case goal_entry s i of
                   Some (STerminated r st _ _) \<Rightarrow> (Some (RTerminated r st), s)
                 | _ \<Rightarrow> (let (w, s') = add_waiter i s in (Some (RWaiting w), s')))"

definition result_driver :: "goal_id \<Rightarrow> ('g, 'r) action_server \<Rightarrow> ('r result_state, unit) res \<times> ('g, 'r) action_server" where
  "result_driver i =
     locked (\<lambda>s. case goal_entry s i of
                   Some (STerminated r st _ _) \<Rightarrow> (Some (RTerminated r st), s)
                 | Some _ \<Rightarrow> (let (w, s') = add_waiter i s in (Some (RWaiting w), s'))
                 | None \<Rightarrow> (Some RNotFound, s))"

text \<open>
  \<open>handle_cancel_request\<close> of the driver; the payload is unwrapped.
\<close>

definition handle_cancel_request :: "goal_info zquery \<Rightarrow> ('g, 'r) action_server \<Rightarrow> (unit, unit) res \<times> ('g, 'r) action_server" where
  "handle_cancel_request q s =
     (case zq_payload q of
        NoPayload \<Rightarrow> (Panic, s)
      | Malformed \<Rightarrow> (Ok (), s)
      | Decoded g \<Rightarrow>
          (case request_cancel (gi_goal_id g) s of
             (Ok cancelled, s1) \<Rightarrow>
               reply_unwrap q (CancelReply \<lparr>cgs_return_code = (if cancelled then 0 else 1),
                 cgs_goals_canceling = (if cancelled then [g] else [])\<rparr>) s1
           | (Err e, s1) \<Rightarrow> (Err e, s1)
           | (Panic, s1) \<Rightarrow> (Panic, s1)))"

text \<open>\<open>handle_goal_request\<close> of the driver, up to the call of the handler.\<close>

definition handle_goal_request ::
  "nat \<Rightarrow> nat \<Rightarrow> (goal_id \<times> 'g) zquery \<Rightarrow> ('g, 'r) action_server \<Rightarrow> ('g goal_handle option, unit) res \<times> ('g, 'r) action_server" where
  "handle_goal_request now wall q s =
     (case zq_payload q of
        NoPayload \<Rightarrow> (Panic, s)
      | Malformed \<Rightarrow> (Ok None, s)
      | Decoded (i, g) \<Rightarrow>
          (case gh_accept now wall (requested_handle wall q i g) s of
             (Ok h, s1) \<Rightarrow>
               (case gh_execute now wall h s1 of
                  (Ok h', s2) \<Rightarrow> (Ok (Some h'), s2)
                | (Err e, s2) \<Rightarrow> (Err e, s2)
                | (Panic, s2) \<Rightarrow> (Panic, s2))
           | (Err e, s1) \<Rightarrow> (Err e, s1)
           | (Panic, s1) \<Rightarrow> (Panic, s1)))"

definition reply_result :: "goal_id zquery \<Rightarrow> 'r \<Rightarrow> goal_status \<Rightarrow> ('g, 'r) action_server \<Rightarrow> (unit, unit) res \<times> ('g, 'r) action_server" where
  "reply_result q result status s = reply_unwrap q (ResultReply (status_i8 status) result) s"

section \<open>Operations as steps\<close>

text \<open>
  Every operation that changes the server, by whichever task: arrivals of requests, the
  critical sections of the handles, the request handlers and the clean-up.
\<close>

inductive sv_step :: "('g, 'r) action_server \<Rightarrow> ('g, 'r) action_server \<Rightarrow> bool" where
  goal_arrives: "sv_step s (s\<lparr>sv_goal_queue := snd (bq_push (sv_goal_queue s) gq)\<rparr>)"
| cancel_arrives: "sv_step s (s\<lparr>sv_cancel_queue := snd (bq_push (sv_cancel_queue s) cq)\<rparr>)"
| result_arrives: "sv_step s (s\<lparr>sv_result_queue := snd (bq_push (sv_result_queue s) rq)\<rparr>)"
| goal_taken: "bq_recv (sv_goal_queue s) = Some (gq, rest) \<Longrightarrow> sv_step s (s\<lparr>sv_goal_queue := rest\<rparr>)"
| cancel_taken: "bq_recv (sv_cancel_queue s) = Some (cq, rest) \<Longrightarrow> sv_step s (s\<lparr>sv_cancel_queue := rest\<rparr>)"
| result_taken: "bq_recv (sv_result_queue s) = Some (rq, rest) \<Longrightarrow> sv_step s (s\<lparr>sv_result_queue := rest\<rparr>)"
| accepts: "sv_step s (snd (gh_accept now wall h s))"
| rejects: "sv_step s (snd (gh_reject h s))"
| executes: "sv_step s (snd (gh_execute now wall h s))"
| polls: "sv_step s (snd (try_process_cancel h s))"
| cancels: "sv_step s (snd (handle_cancel_request cq s))"
| terminates: "status_is_terminal st \<Longrightarrow> sv_step s (snd (gh_terminate now wall h r st s))"
| drops: "sv_step s (close_channel rx s)"
| expires: "sv_step s (snd (expire_goals now wall s))"
| sets_timeout: "sv_step s (snd (set_result_timeout t s))"
| asks_legacy: "sv_step s (snd (result_legacy i s))"
| asks_driver: "sv_step s (snd (result_driver i s))"
| answers: "sv_step s (snd (reply_result rq r st s))"

definition waiting_for :: "('g, 'r) action_server \<Rightarrow> goal_id \<Rightarrow> nat list" where
  "waiting_for s i = unwrap_or (map_of (gm_result_futures (sv_manager s)) i) []"

text \<open>What the result bookkeeping looks at.\<close>

definition results_of :: "('g, 'r) action_server \<Rightarrow> ('g, 'r) goal_manager \<times> nat \<times> (nat \<times> 'r \<times> goal_status) list" where
  "results_of s = (sv_manager s, sv_waiters s, sv_notified s)"

lemma results_of_simps [simp]:
  "results_of (s\<lparr>sv_goal_queue := a\<rparr>) = results_of s" "results_of (s\<lparr>sv_cancel_queue := b\<rparr>) = results_of s"
  "results_of (s\<lparr>sv_result_queue := c\<rparr>) = results_of s" "results_of (s\<lparr>sv_flags := d\<rparr>) = results_of s"
  "results_of (s\<lparr>sv_channels := e\<rparr>) = results_of s" "results_of (s\<lparr>sv_routes := f\<rparr>) = results_of s"
  "results_of (s\<lparr>sv_replies := g\<rparr>) = results_of s" "results_of (publish_status wall s) = results_of s"
  "results_of (s\<lparr>sv_poisoned := p\<rparr>) = results_of s"
  by (simp_all add: results_of_def publish_status_def)

lemma locked_simps:
  "\<not> sv_poisoned s \<Longrightarrow> f s = (Some a, s') \<Longrightarrow> locked f s = (Ok a, s')"
  "\<not> sv_poisoned s \<Longrightarrow> f s = (None, s') \<Longrightarrow> locked f s = (Panic, s'\<lparr>sv_poisoned := True\<rparr>)"
  "sv_poisoned s \<Longrightarrow> locked f s = (Panic, s)"
  by (simp_all add: locked_def)

lemma results_of_locked:
  "results_of (snd (f s)) = results_of s \<Longrightarrow> results_of (snd (locked f s)) = results_of s"
  by (simp add: locked_def split_beta split: option.split)

lemma enter_goal_cases:
  fixes s :: "('g, 'r) action_server"
  obtains (entered) e where "\<not> sv_poisoned s" "expiry now (gm_goal_timeout (sv_manager s)) = Some e"
      "enter_goal i entry now s = (Ok (), set_goal s i (entry e))"
  | (panics) "sv_poisoned s \<or> expiry now (gm_goal_timeout (sv_manager s)) = None"
      "enter_goal i entry now s = (Panic, s\<lparr>sv_poisoned := True\<rparr>)"
proof (cases "sv_poisoned s")
  case True
  then have "s\<lparr>sv_poisoned := True\<rparr> = s" by simp
  with True show ?thesis using panics by (simp add: enter_goal_def locked_simps)
next
  case False
  then show ?thesis
    using entered panics
    by (cases "expiry now (gm_goal_timeout (sv_manager s))") (simp_all add: enter_goal_def locked_simps)
qed

lemma results_of_ops [simp]:
  "results_of (snd (reply_unwrap q r s)) = results_of s" "results_of (reply_if_attached q r s) = results_of s"
  "results_of (close_channel rx s) = results_of s" "results_of (snd (request_cancel i s)) = results_of s"
  "results_of (route_cancel cq s) = results_of s" "results_of (snd (cd_register i s)) = results_of s"
  "results_of (cd_deregister i s) = results_of s"
  by (auto simp: reply_unwrap_def reply_if_attached_def close_channel_def request_cancel_def route_cancel_def
      cd_register_def cd_deregister_def intro!: results_of_locked split: option.splits server_goal_state.splits payload.splits)

lemma results_of_drain [simp]: "results_of (cd_drain s) = results_of s"
proof (induction s rule: cd_drain.induct)
  case (1 s)
  obtain x rest where x: "bq_try_recv (sv_cancel_queue s) = (x, rest)" by force
  then show ?case
  proof (cases x)
    case None
    with x show ?thesis by (simp add: cd_drain.simps)
  next
    case (Some q)
    with x 1 [OF x [symmetric] Some] show ?thesis by (subst cd_drain.simps) simp
  qed
qed

lemma results_of_cancels [simp]:
  fixes s :: "('g, 'r) action_server"
  shows
  "results_of (snd (try_process_cancel h s)) = results_of s"
  "results_of (snd (handle_cancel_request cq s)) = results_of s"
  "results_of (snd (gh_reject h s)) = results_of s"
  "results_of (snd (reply_result rq r st s)) = results_of s"
proof -
  have drop_result: "results_of (snd (case x of (Panic, t) \<Rightarrow> (Panic, t) | (_, t) \<Rightarrow> (Ok True, reply_if_attached q r t))) =
      results_of (snd x)" for x :: "(bool, unit) res \<times> ('g, 'r) action_server" and q :: "goal_info zquery" and r
    by (simp split: prod.split res.split)
  show "results_of (snd (try_process_cancel h s)) = results_of s"
    by (auto simp: try_process_cancel_def Let_def drop_result split: option.split list.split payload.split)
  show "results_of (snd (handle_cancel_request cq s)) = results_of s"
  proof (cases "zq_payload cq")
    case (Decoded g)
    obtain out t where c: "request_cancel (gi_goal_id g) s = (out, t)" by force
    then have "results_of t = results_of s" using results_of_ops(4) [of "gi_goal_id g" s] by simp
    with Decoded c show ?thesis by (simp add: handle_cancel_request_def split: res.split)
  qed (simp_all add: handle_cancel_request_def)
  show "results_of (snd (gh_reject h s)) = results_of s" by (simp add: gh_reject_def split: option.split)
  show "results_of (snd (reply_result rq r st s)) = results_of s" by (simp add: reply_result_def)
qed

lemma results_of_goals:
  "results_of (set_goal s i st) =
     ((sv_manager s)\<lparr>gm_goals := AList.update i st (gm_goals (sv_manager s))\<rparr>, sv_waiters s, sv_notified s)"
  by (simp add: results_of_def set_goal_def)

lemma results_of_accept:
  "results_of (snd (gh_accept now wall h s)) = results_of s \<or>
   (\<exists>e. results_of (snd (gh_accept now wall h s)) =
     results_of (set_goal s (gi_goal_id (gh_info h)) (SAccepted (gh_goal h) now e)))"
proof (cases rule: enter_goal_cases [of s now "gi_goal_id (gh_info h)" "SAccepted (gh_goal h) now"])
  case (entered e)
  have "results_of (snd (gh_accept now wall h s)) =
      results_of (set_goal s (gi_goal_id (gh_info h)) (SAccepted (gh_goal h) now e))"
  proof (cases "gh_query h")
    case (Some q)
    then show ?thesis
      by (cases "zq_attachment q = GoodAttachment") (simp_all add: gh_accept_def entered(3) Let_def reply_unwrap_def)
  qed (simp add: gh_accept_def entered(3) Let_def)
  then show ?thesis by blast
qed (simp add: gh_accept_def)

lemma results_of_execute:
  "results_of (snd (gh_execute now wall h s)) = results_of s \<or>
   (\<exists>f e. results_of (snd (gh_execute now wall h s)) =
     results_of (set_goal s (gi_goal_id (gh_info h)) (SExecuting (gh_goal h) f e)))"
proof -
  let ?i = "gi_goal_id (gh_info h)" and ?f = "length (sv_flags s)"
  let ?s = "snd (cd_register ?i (s\<lparr>sv_flags := sv_flags s @ [False]\<rparr>))"
  show ?thesis
  proof (cases rule: enter_goal_cases [of ?s now ?i "SExecuting (gh_goal h) ?f"])
    case (entered e)
    then have "results_of (snd (gh_execute now wall h s)) = results_of (set_goal s ?i (SExecuting (gh_goal h) ?f e))"
      by (simp add: gh_execute_def Let_def split_beta results_of_goals) (simp add: cd_register_def)
    then show ?thesis by blast
  next
    case panics
    then show ?thesis by (simp add: gh_execute_def Let_def split_beta)
  qed
qed

text \<open>When the lock is usable and the expiry of a result is an instant, a goal can be terminated.\<close>

definition can_terminate :: "nat \<Rightarrow> ('g, 'r) action_server \<Rightarrow> bool" where
  "can_terminate now s \<longleftrightarrow> \<not> sv_poisoned s \<and> now + gm_result_timeout (sv_manager s) \<le> max_instant"

lemma cd_deregister_fields [simp]:
  "sv_poisoned (cd_deregister i s) = sv_poisoned s" "sv_manager (cd_deregister i s) = sv_manager s"
  "sv_notified (cd_deregister i s) = sv_notified s" "sv_waiters (cd_deregister i s) = sv_waiters s"
  by (simp_all add: cd_deregister_def)

lemma results_of_terminate:
  assumes "can_terminate now s"
  shows "fst (gh_terminate now wall h r st s) = Ok ()"
    and "results_of (snd (gh_terminate now wall h r st s)) =
     (let i = gi_goal_id (gh_info h); m = sv_manager s
      in (m\<lparr>gm_goals := AList.update i (STerminated r st now (Some (now + gm_result_timeout m))) (gm_goals m),
            gm_result_futures := AList.delete i (gm_result_futures m)\<rparr>,
          sv_waiters s, sv_notified s @ map (\<lambda>tx. (tx, r, st)) (waiting_for s i)))"
  using assms
  by (simp_all add: gh_terminate_def Let_def locked_def can_terminate_def instant_add_def)
    (simp add: results_of_def set_goal_def waiting_for_def)

lemma terminate_panics:
  assumes "\<not> can_terminate now s"
  shows "gh_terminate now wall h r st s =
     (Panic, close_channel (gh_cancel_rx h) ((cd_deregister (gi_goal_id (gh_info h)) s)\<lparr>sv_poisoned := True\<rparr>))"
proof (cases "sv_poisoned s")
  case True
  then have same: "(cd_deregister i s)\<lparr>sv_poisoned := True\<rparr> = cd_deregister i s" for i by (simp add: cd_deregister_def)
  show ?thesis unfolding same using True by (simp add: gh_terminate_def Let_def locked_def)
next
  case False
  with assms show ?thesis by (simp add: gh_terminate_def Let_def locked_def instant_add_def can_terminate_def)
qed

lemma results_of_expire:
  "results_of (snd (expire_goals now wall s)) =
     ((if sv_poisoned s then sv_manager s
       else (sv_manager s)\<lparr>gm_goals := filter (\<lambda>(i, st). \<not> should_expire now st) (gm_goals (sv_manager s))\<rparr>),
      sv_waiters s, sv_notified s)"
  by (simp add: expire_goals_def locked_def Let_def) (simp add: results_of_def)

section \<open>Invariant of the result bookkeeping\<close>

text \<open>
  Nobody waits for a terminated goal, and every waiter ever made is either waiting, in one
  place, or has been notified, once. No goal is ever in the canceling state.
\<close>

definition results_ok :: "('g, 'r) goal_manager \<times> nat \<times> (nat \<times> 'r \<times> goal_status) list \<Rightarrow> bool" where
  "results_ok rs \<longleftrightarrow>
     (case rs of (m, n, notified) \<Rightarrow>
        (\<forall>i r st t e. map_of (gm_goals m) i = Some (STerminated r st t e) \<longrightarrow>
           map_of (gm_result_futures m) i = None \<and> status_is_terminal st) \<and>
        (\<forall>i g. map_of (gm_goals m) i \<noteq> Some (SCanceling g)) \<and>
        distinct (map fst (gm_goals m)) \<and>
        distinct (map fst (gm_result_futures m)) \<and>
        mset (concat (map snd (gm_result_futures m))) + mset (map fst notified) = mset [0..<n])"

lemma update_concat:
  "distinct (map fst al) \<Longrightarrow>
   mset (concat (map snd (AList.update i v al))) + mset (unwrap_or (map_of al i) []) = mset (concat (map snd al)) + mset v"
  by (induction al) auto

lemma delete_concat:
  "distinct (map fst al) \<Longrightarrow>
   mset (concat (map snd (AList.delete i al))) + mset (unwrap_or (map_of al i) []) = mset (concat (map snd al))"
proof (induction al)
  case (Cons a al)
  then show ?case
  proof (cases "fst a = i")
    case True
    with Cons.prems have "i \<notin> fst ` set al" by auto
    then have "AList.delete i al = al" "map_of al i = None"
      by (force simp: AList.delete_eq map_of_eq_None_iff filter_id_conv)+
    with True Cons show ?thesis by (cases a) (simp add: AList.delete_eq)
  next
    case False
    with Cons show ?thesis by (cases a) (simp add: AList.delete_eq)
  qed
qed (simp add: AList.delete_eq)

lemma results_ok_goal:
  assumes "results_ok (m, n, nt)" and "\<And>r s t e. st \<noteq> STerminated r s t e" and "\<And>g. st \<noteq> SCanceling g"
  shows "results_ok (m\<lparr>gm_goals := AList.update i st (gm_goals m)\<rparr>, n, nt)"
  using assms by (auto simp: results_ok_def update_conv' distinct_update)

lemma results_ok_set_goal:
  assumes "results_ok (results_of s)" and "\<And>r s t e. st \<noteq> STerminated r s t e" and "\<And>g. st \<noteq> SCanceling g"
  shows "results_ok (results_of (set_goal s i st))"
  unfolding results_of_goals using assms by (intro results_ok_goal) (simp_all add: results_of_def)

lemma results_ok_waiter:
  assumes "results_ok (results_of s)" and "\<And>r st t e. goal_entry s i \<noteq> Some (STerminated r st t e)"
  shows "results_ok (results_of (snd (add_waiter i s)))"
proof -
  let ?f = "gm_result_futures (sv_manager s)"
  have d: "distinct (map fst ?f)" and n: "mset (concat (map snd ?f)) + mset (map fst (sv_notified s)) = mset [0..<sv_waiters s]"
    using assms(1) by (simp_all add: results_ok_def results_of_def)
  have "mset (concat (map snd (AList.update i (unwrap_or (map_of ?f i) [] @ [sv_waiters s]) ?f))) =
      mset (concat (map snd ?f)) + {#sv_waiters s#}"
    using update_concat [OF d, of i "unwrap_or (map_of ?f i) [] @ [sv_waiters s]"] by simp
  then show ?thesis
    using assms n
    by (auto simp: results_ok_def results_of_def add_waiter_def Let_def goal_entry_def update_conv' distinct_update
        atLeastLessThanSuc) blast
qed

lemma results_ok_terminate:
  assumes "results_ok (results_of s)" and "status_is_terminal st"
  shows "results_ok (results_of (snd (gh_terminate now wall h r st s)))"
proof (cases "can_terminate now s")
  case False
  then show ?thesis using assms(1) by (simp add: terminate_panics)
next
  case True
  let ?f = "gm_result_futures (sv_manager s)" and ?i = "gi_goal_id (gh_info h)"
  have d: "distinct (map fst ?f)" and n: "mset (concat (map snd ?f)) + mset (map fst (sv_notified s)) = mset [0..<sv_waiters s]"
    using assms(1) by (simp_all add: results_ok_def results_of_def)
  have "mset (map fst (sv_notified s @ map (\<lambda>tx. (tx, r, st)) (waiting_for s ?i))) =
      mset (map fst (sv_notified s)) + mset (unwrap_or (map_of ?f ?i) [])"
    by (simp add: waiting_for_def comp_def)
  with n delete_concat [OF d, of ?i]
  have "mset (concat (map snd (AList.delete ?i ?f))) +
      mset (map fst (sv_notified s @ map (\<lambda>tx. (tx, r, st)) (waiting_for s ?i))) = mset [0..<sv_waiters s]"
    by (simp add: add.commute add.left_commute)
  then show ?thesis
    using assms unfolding results_of_terminate(2) [OF True]
    by (auto simp: results_ok_def results_of_def Let_def update_conv' delete_conv' distinct_update distinct_delete
        multiset.map_comp comp_def)
qed

lemma map_of_filter_snd:
  "distinct (map fst al) \<Longrightarrow>
   map_of (filter (\<lambda>(i, v). \<not> P v) al) i = (case map_of al i of Some v \<Rightarrow> if P v then None else Some v | None \<Rightarrow> None)"
proof (induction al)
  case (Cons a al)
  obtain j v where a: "a = (j, v)" by force
  show ?case
  proof (cases "i = j")
    case True
    with Cons a have "map_of al i = None" by (simp add: map_of_eq_None_iff)
    with True Cons a show ?thesis by simp
  qed (use Cons a in simp)
qed simp

lemma results_ok_filter:
  assumes "results_ok (m, n, nt)"
  shows "results_ok (m\<lparr>gm_goals := filter P (gm_goals m)\<rparr>, n, nt)"
proof -
  have "map_of (filter P (gm_goals m)) i = Some v \<Longrightarrow> map_of (gm_goals m) i = Some v" for i v
    using assms by (auto simp: results_ok_def dest!: map_of_SomeD)
  moreover have "distinct (map fst (filter P (gm_goals m)))"
    using assms by (simp add: results_ok_def distinct_map_filter)
  ultimately show ?thesis using assms unfolding results_ok_def by fastforce
qed

lemma sv_step_results_ok:
  assumes "sv_step s s'" and "results_ok (results_of s)"
  shows "results_ok (results_of s')"
  using assms(1)
proof cases
  case (accepts now wall h)
  then show ?thesis
    using results_of_accept [of now wall h s] results_ok_set_goal [OF assms(2)] assms(2) by auto
next
  case (executes now wall h)
  then show ?thesis
    using results_of_execute [of now wall h s] results_ok_set_goal [OF assms(2)] assms(2) by auto
next
  case (terminates st now wall h r)
  then show ?thesis using results_ok_terminate [OF assms(2)] by simp
next
  case (expires now wall)
  then show ?thesis
    using assms(2) results_ok_filter [of "sv_manager s" "sv_waiters s" "sv_notified s" "\<lambda>(i, st). \<not> should_expire now st"]
    by (cases "sv_poisoned s") (simp_all add: results_of_expire, simp_all add: results_of_def)
next
  case (sets_timeout t)
  have "results_ok (m\<lparr>gm_result_timeout := t\<rparr>, n, nt) = results_ok (m, n, nt)"
    for m :: "('a, 'b) goal_manager" and n and nt :: "(nat \<times> 'b \<times> goal_status) list"
    by (simp add: results_ok_def)
  then show ?thesis using sets_timeout assms(2)
    by (cases "sv_poisoned s") (simp_all add: set_result_timeout_def locked_def results_of_def)
next
  case (asks_legacy i)
  then show ?thesis
    using assms(2) results_ok_waiter [OF assms(2), of i]
    by (auto simp: result_legacy_def locked_def split_beta Let_def split: option.splits server_goal_state.splits)
next
  case (asks_driver i)
  then show ?thesis
    using assms(2) results_ok_waiter [OF assms(2), of i]
    by (auto simp: result_driver_def locked_def split_beta Let_def split: option.splits server_goal_state.splits)
qed (use assms(2) in simp_all)

lemma sv_new_results_ok: "results_ok (results_of (sv_new result_timeout goal_timeout depth))"
  by (simp add: results_ok_def results_of_def sv_new_def gm_new_def)

lemma sv_reach_results_ok:
  "sv_step\<^sup>*\<^sup>* (sv_new result_timeout goal_timeout depth) s \<Longrightarrow> results_ok (results_of s)"
  by (induction rule: rtranclp_induct) (auto simp: sv_new_results_ok intro: sv_step_results_ok)

section \<open>Effects on the waiters\<close>

lemma new_waiter:
  assumes "result_driver i s = (Ok (RWaiting w), s') \<or> result_legacy i s = (Ok (RWaiting w), s')"
  shows "w = sv_waiters s \<and> waiting_for s' i = waiting_for s i @ [w] \<and> sv_notified s' = sv_notified s"
proof -
  have "(w, s') = add_waiter i s"
    using assms
    by (auto simp: result_driver_def result_legacy_def locked_def split_beta split: if_splits option.splits server_goal_state.splits)
  then show ?thesis by (simp add: add_waiter_def Let_def waiting_for_def update_conv')
qed

lemma terminate_effect:
  "case gh_terminate now wall h r st s of (out, s') \<Rightarrow>
     (if can_terminate now s
      then out = Ok () \<and>
        goal_entry s' (gi_goal_id (gh_info h)) = Some (STerminated r st now (Some (now + gm_result_timeout (sv_manager s)))) \<and>
        sv_notified s' = sv_notified s @ map (\<lambda>w. (w, r, st)) (waiting_for s (gi_goal_id (gh_info h)))
      else out = Panic \<and> sv_poisoned s' \<and> goal_entry s' = goal_entry s \<and>
        sv_notified s' = sv_notified s \<and> waiting_for s' = waiting_for s)"
proof (cases "can_terminate now s")
  case True
  then show ?thesis
    using results_of_terminate [OF True, of wall h r st]
    by (simp add: split_beta) (simp add: results_of_def goal_entry_def Let_def update_conv')
next
  case False
  let ?s = "snd (gh_terminate now wall h r st s)"
  have "results_of ?s = results_of s" using False by (simp add: terminate_panics)
  moreover have "sv_poisoned ?s" using False by (simp add: terminate_panics close_channel_def split: option.split)
  ultimately show ?thesis
    using False by (simp add: split_beta) (simp add: terminate_panics results_of_def goal_entry_def waiting_for_def fun_eq_iff)
qed

section \<open>Facts on cancel routing\<close>

definition cancel_for :: "goal_id \<Rightarrow> goal_info zquery \<Rightarrow> bool" where
  "cancel_for i q \<longleftrightarrow> (case zq_payload q of Decoded g \<Rightarrow> gi_goal_id g = i | _ \<Rightarrow> False)"

text \<open>Channel \<open>c\<close> is the open channel of goal \<open>i\<close> and of no other goal.\<close>

definition routed :: "('g, 'r) action_server \<Rightarrow> goal_id \<Rightarrow> nat \<Rightarrow> bool" where
  "routed s i c \<longleftrightarrow> map_of (sv_routes s) i = Some c \<and> (\<forall>j. map_of (sv_routes s) j = Some c \<longrightarrow> j = i) \<and>
     c < length (sv_channels s) \<and> ch_open (sv_channels s ! c) \<and> length (ch_queries (sv_channels s ! c)) \<le> 4"

lemma routedD:
  assumes "routed s i c"
  shows "map_of (sv_routes s) i = Some c" and "map_of (sv_routes s) j = Some c \<Longrightarrow> j = i"
    and "c < length (sv_channels s)" and "ch_open (sv_channels s ! c)" and "length (ch_queries (sv_channels s ! c)) \<le> 4"
  using assms unfolding routed_def by blast+

lemma route_cancel_fields [simp]: "sv_routes (route_cancel q s) = sv_routes s"
  by (simp add: route_cancel_def split: payload.splits option.splits)

lemma channel_send_other: "c \<noteq> d \<Longrightarrow> channel_send d q chs ! c = chs ! c"
  by (simp add: channel_send_def Let_def)

lemma channel_send_here:
  assumes "c < length chs" and "ch_open (chs ! c)" and "length (ch_queries (chs ! c)) \<le> 4"
  shows "ch_open (channel_send c q chs ! c)"
    and "ch_queries (channel_send c q chs ! c) = take 4 (ch_queries (chs ! c) @ [q])"
  using assms by (simp_all add: channel_send_def Let_def)

lemma length_take_le: "length (take n xs) \<le> n"
  by simp

lemma length_channel_send [simp]: "length (channel_send c q chs) = length chs"
  by (simp add: channel_send_def Let_def)

lemma route_cancel_channel:
  assumes "routed s i c"
  shows "sv_channels (route_cancel q s) ! c =
      (if cancel_for i q then channel_send c q (sv_channels s) ! c else sv_channels s ! c)"
    and "length (sv_channels (route_cancel q s)) = length (sv_channels s)"
proof -
  have "sv_channels (route_cancel q s) ! c =
      (if cancel_for i q then channel_send c q (sv_channels s) ! c else sv_channels s ! c)"
  proof (cases "zq_payload q")
    case (Decoded g)
    show ?thesis
    proof (cases "map_of (sv_routes s) (gi_goal_id g)")
      case None
      with routedD(1) [OF assms] have "gi_goal_id g \<noteq> i" by auto
      with None Decoded show ?thesis by (simp add: route_cancel_def cancel_for_def)
    next
      case (Some d)
      have chs: "sv_channels (route_cancel q s) = channel_send d q (sv_channels s)"
        using Some Decoded by (simp add: route_cancel_def)
      have for_i: "cancel_for i q \<longleftrightarrow> gi_goal_id g = i" using Decoded by (simp add: cancel_for_def)
      show ?thesis
      proof (cases "gi_goal_id g = i")
        case True
        with Some routedD(1) [OF assms] have "d = c" by simp
        with True show ?thesis by (simp only: chs for_i simp_thms if_True)
      next
        case False
        with Some routedD(2) [OF assms, of "gi_goal_id g"] have "c \<noteq> d" by blast
        with False show ?thesis by (simp add: chs for_i channel_send_other)
      qed
    qed
  qed (simp_all add: route_cancel_def cancel_for_def)
  then show "sv_channels (route_cancel q s) ! c =
      (if cancel_for i q then channel_send c q (sv_channels s) ! c else sv_channels s ! c)" .
  show "length (sv_channels (route_cancel q s)) = length (sv_channels s)"
    by (simp add: route_cancel_def split: payload.splits option.splits)
qed

lemma route_cancel_routed:
  assumes "routed s i c"
  shows "routed (route_cancel q s) i c"
    and "ch_queries (sv_channels (route_cancel q s) ! c) =
       take 4 (ch_queries (sv_channels s ! c) @ (if cancel_for i q then [q] else []))"
proof -
  have c: "c < length (sv_channels s)" "ch_open (sv_channels s ! c)" "length (ch_queries (sv_channels s ! c)) \<le> 4"
    by (fact routedD [OF assms])+
  show q: "ch_queries (sv_channels (route_cancel q s) ! c) =
       take 4 (ch_queries (sv_channels s ! c) @ (if cancel_for i q then [q] else []))"
    using channel_send_here(2) [OF c] c(3) by (simp add: route_cancel_channel [OF assms])
  have "ch_open (sv_channels (route_cancel q s) ! c)"
    using channel_send_here(1) [OF c] c(2) by (simp add: route_cancel_channel(1) [OF assms])
  moreover have "length (take 4 (ch_queries (sv_channels s ! c) @ (if cancel_for i q then [q] else []))) \<le> 4"
    by (rule length_take_le)
  ultimately show "routed (route_cancel q s) i c"
    unfolding routed_def q route_cancel_fields route_cancel_channel(2) [OF assms]
    using assms unfolding routed_def by blast
qed

lemma take_take_append: "take n (take n xs @ ys) = take n (xs @ ys)"
  by (cases "length xs \<le> n") simp_all

lemma drain_routed:
  "routed s i c \<Longrightarrow>
     bq_data (sv_cancel_queue (cd_drain s)) = [] \<and>
     ch_queries (sv_channels (cd_drain s) ! c) =
       take 4 (ch_queries (sv_channels s ! c) @ filter (cancel_for i) (bq_data (sv_cancel_queue s)))"
proof (induction s rule: cd_drain.induct)
  case (1 s)
  show ?case
  proof (cases "bq_data (sv_cancel_queue s)")
    case Nil
    with 1 show ?thesis by (simp add: cd_drain.simps bq_try_recv_def routed_def)
  next
    case (Cons q qs)
    let ?rest = "(sv_cancel_queue s)\<lparr>bq_data := qs\<rparr>"
    let ?s' = "s\<lparr>sv_cancel_queue := ?rest\<rparr>"
    have recv: "bq_try_recv (sv_cancel_queue s) = (Some q, ?rest)" using Cons by (simp add: bq_try_recv_def)
    have routed: "routed ?s' i c" using 1(2) by (simp add: routed_def)
    note step = route_cancel_routed [OF routed, of q]
    have ih: "bq_data (sv_cancel_queue (cd_drain (route_cancel q ?s'))) = [] \<and>
        ch_queries (sv_channels (cd_drain (route_cancel q ?s')) ! c) =
          take 4 (ch_queries (sv_channels (route_cancel q ?s') ! c) @ filter (cancel_for i) qs)"
      using 1(1) [OF recv [symmetric] refl step(1)] by simp
    have "cd_drain s = cd_drain (route_cancel q ?s')" by (subst cd_drain.simps) (simp add: recv)
    moreover have "take 4 (ch_queries (sv_channels s ! c) @ (if cancel_for i q then [q] else []) @ filter (cancel_for i) qs) =
        take 4 (ch_queries (sv_channels s ! c) @ filter (cancel_for i) (q # qs))"
      by (cases "cancel_for i q") simp_all
    ultimately show ?thesis
      using ih unfolding step(2) Cons take_take_append append_assoc by simp
  qed
qed

section \<open>Recorded status of the goals\<close>

definition status_of :: "('g, 'r) action_server \<Rightarrow> goal_id \<rightharpoonup> goal_status" where
  "status_of s i = map_option state_status (goal_entry s i)"

lemma status_of_results: "results_of s = results_of s' \<Longrightarrow> status_of s = status_of s'"
  by (simp add: results_of_def status_of_def goal_entry_def fun_eq_iff)

lemma status_of_set_goal: "status_of (set_goal s i st) = (status_of s)(i \<mapsto> state_status st)"
  by (simp add: status_of_def goal_entry_def set_goal_def fun_eq_iff update_conv')

text \<open>No deadline computed at this time overflows, and nothing has panicked under the lock.\<close>

definition in_time :: "nat \<Rightarrow> ('g, 'r) action_server \<Rightarrow> bool" where
  "in_time now s \<longleftrightarrow> can_terminate now s \<and>
     (case gm_goal_timeout (sv_manager s) of None \<Rightarrow> True | Some t \<Rightarrow> now + t \<le> max_instant)"

lemma in_time_enter:
  assumes "in_time now s"
  obtains e where "enter_goal i entry now s = (Ok (), set_goal s i (entry e))"
proof -
  have "\<not> (sv_poisoned s \<or> expiry now (gm_goal_timeout (sv_manager s)) = None)"
    using assms by (auto simp: in_time_def can_terminate_def expiry_def instant_add_def split: option.splits)
  with that show ?thesis by (cases rule: enter_goal_cases [of s now i entry]) auto
qed

lemma in_time_execute:
  "in_time now s \<Longrightarrow> in_time now (snd (cd_register i (s\<lparr>sv_flags := fs\<rparr>)))"
  by (simp add: in_time_def can_terminate_def cd_register_def)

lemma status_of_accept:
  assumes "in_time now s"
  shows "status_of (snd (gh_accept now wall h s)) = (status_of s)(gi_goal_id (gh_info h) \<mapsto> Accepted)"
proof -
  obtain e where e: "enter_goal (gi_goal_id (gh_info h)) (SAccepted (gh_goal h) now) now s =
      (Ok (), set_goal s (gi_goal_id (gh_info h)) (SAccepted (gh_goal h) now e))"
    by (rule in_time_enter [OF assms, of "gi_goal_id (gh_info h)" "SAccepted (gh_goal h) now"])
  have "results_of (snd (gh_accept now wall h s)) = results_of (set_goal s (gi_goal_id (gh_info h)) (SAccepted (gh_goal h) now e))"
  proof (cases "gh_query h")
    case (Some q)
    then show ?thesis by (cases "zq_attachment q = GoodAttachment") (simp_all add: gh_accept_def e Let_def reply_unwrap_def)
  qed (simp add: gh_accept_def e Let_def)
  from status_of_results [OF this] show ?thesis by (simp add: status_of_set_goal)
qed

lemma execute_starts:
  assumes "in_time now s"
  obtains h' s' where "gh_execute now wall h s = (Ok h', s')"
    "status_of s' = (status_of s)(gi_goal_id (gh_info h) \<mapsto> Executing)"
    "\<not> is_cancel_requested h' s'" "is_cancel_requested h' (snd (request_cancel (gi_goal_id (gh_info h)) s'))"
proof -
  let ?i = "gi_goal_id (gh_info h)" and ?f = "length (sv_flags s)"
  let ?s = "snd (cd_register ?i (s\<lparr>sv_flags := sv_flags s @ [False]\<rparr>))"
  obtain e where e: "enter_goal ?i (SExecuting (gh_goal h) ?f) now ?s = (Ok (), set_goal ?s ?i (SExecuting (gh_goal h) ?f e))"
    by (rule in_time_enter [OF in_time_execute [OF assms, of ?i "sv_flags s @ [False]"], of ?i "SExecuting (gh_goal h) ?f"])
  let ?s' = "publish_status wall (set_goal ?s ?i (SExecuting (gh_goal h) ?f e))"
  have usable: "\<not> sv_poisoned s" using assms by (simp add: in_time_def can_terminate_def)
  have "status_of ?s = status_of s" by (rule status_of_results) simp
  moreover have "status_of ?s' = status_of (set_goal ?s ?i (SExecuting (gh_goal h) ?f e))" by (rule status_of_results) simp
  ultimately have "status_of ?s' = (status_of s)(?i \<mapsto> Executing)" by (simp add: status_of_set_goal)
  with usable show ?thesis
    by (intro that [of "h\<lparr>gh_query := None, gh_cancel_flag := Some ?f, gh_cancel_rx := Some (length (sv_channels s))\<rparr>" ?s'])
      (simp_all add: gh_execute_def Let_def split_beta e, simp_all add: cd_register_def is_cancel_requested_def request_cancel_def
        locked_def publish_status_def set_goal_def goal_entry_def update_conv')
qed

lemma status_of_terminate:
  assumes "can_terminate now s"
  shows "status_of (snd (gh_terminate now wall h r st s)) = (status_of s)(gi_goal_id (gh_info h) \<mapsto> st)"
proof -
  have "sv_manager (snd (gh_terminate now wall h r st s)) = fst (results_of (snd (gh_terminate now wall h r st s)))"
    by (simp add: results_of_def)
  then show ?thesis
    by (simp add: results_of_terminate(2) [OF assms] Let_def status_of_def goal_entry_def fun_eq_iff update_conv')
qed

section \<open>Properties\<close>



text \<open>
  Cancel requests in the polling mode. Draining the shared queue leaves it empty and
  appends to the channel of each registered goal exactly the decodable requests for that
  goal, in order, up to the four the channel holds: a request for one goal is never lost
  because the handle of another one polled first.
\<close>

theorem cancel_routing:
  assumes "map_of (sv_routes s) i = Some c" and "\<forall>j. map_of (sv_routes s) j = Some c \<longrightarrow> j = i"
    and "c < length (sv_channels s)" and "ch_open (sv_channels s ! c)" and "length (ch_queries (sv_channels s ! c)) \<le> 4"
  shows "bq_data (sv_cancel_queue (cd_drain s)) = [] \<and>
         ch_queries (sv_channels (cd_drain s) ! c) =
           take 4 (ch_queries (sv_channels s ! c) @ filter (cancel_for i) (bq_data (sv_cancel_queue s)))"
proof -
  have "routed s i c" using assms unfolding routed_def by blast
  then show ?thesis by (rule drain_routed)
qed

lemma cancel_routing_witness:
  "bq_data (sv_cancel_queue (cd_drain ((sv_new 10 None 4 :: (unit, unit) action_server)
      \<lparr>sv_routes := [([1], 0)], sv_channels := [\<lparr>ch_queries = [], ch_open = True\<rparr>]\<rparr>))) = []"
  using cancel_routing [of "(sv_new 10 None 4 :: (unit, unit) action_server)
      \<lparr>sv_routes := [([1], 0)], sv_channels := [\<lparr>ch_queries = [], ch_open = True\<rparr>]\<rparr>" "[1]" 0] by simp

text \<open>
  The operations of the goal handles against the transition table. Accepting records the
  goal as accepted; executing, succeeding and aborting go where \<open>transition_goal_state\<close> goes,
  and \<open>canceled\<close> goes where the table goes in two steps, through a canceling state that the
  server itself never records. A cancel request is accepted exactly for an executing goal;
  it leaves the recorded states alone and raises the flag that the handle of the goal
  polls, which was down when the goal started. No operation of a handle touches another
  goal.
\<close>

theorem goal_transitions:
  assumes "in_time now s"
  shows "status_of (snd (gh_accept now wall h s)) = (status_of s)(gi_goal_id (gh_info h) \<mapsto> Accepted) \<and>
   status_of (snd (gh_execute now wall h s)) = (status_of s)(gi_goal_id (gh_info h) \<mapsto> transition_goal_state Accepted Execute) \<and>
   status_of (snd (gh_succeed now wall h r s)) = (status_of s)(gi_goal_id (gh_info h) \<mapsto> transition_goal_state Executing Succeed) \<and>
   status_of (snd (gh_abort now wall h r s)) = (status_of s)(gi_goal_id (gh_info h) \<mapsto> transition_goal_state Executing Abort) \<and>
   status_of (snd (gh_canceled now wall h r s)) = (status_of s)(gi_goal_id (gh_info h) \<mapsto>
     transition_goal_state (transition_goal_state Executing CancelGoal) CanceledEvent) \<and>
   status_of (snd (request_cancel j s)) = status_of s \<and>
   fst (request_cancel j s) = Ok (\<exists>g f e. goal_entry s j = Some (SExecuting g f e)) \<and>
   (case gh_execute now wall h s of
      (Ok h', s') \<Rightarrow> \<not> is_cancel_requested h' s' \<and> is_cancel_requested h' (snd (request_cancel (gi_goal_id (gh_info h)) s'))
    | _ \<Rightarrow> False)"
proof -
  have usable: "can_terminate now s" and p: "\<not> sv_poisoned s" using assms by (simp_all add: in_time_def can_terminate_def)
  have "status_of (snd (request_cancel j s)) = status_of s" by (rule status_of_results) simp
  moreover have "fst (request_cancel j s) = Ok (\<exists>g f e. goal_entry s j = Some (SExecuting g f e))"
    using p by (auto simp: request_cancel_def locked_def split: option.splits server_goal_state.splits)
  moreover obtain h' s' where "gh_execute now wall h s = (Ok h', s')"
    "status_of s' = (status_of s)(gi_goal_id (gh_info h) \<mapsto> Executing)"
    "\<not> is_cancel_requested h' s'" "is_cancel_requested h' (snd (request_cancel (gi_goal_id (gh_info h)) s'))"
    by (rule execute_starts [OF assms])
  ultimately show ?thesis
    by (simp add: status_of_accept [OF assms] gh_succeed_def gh_abort_def gh_canceled_def status_of_terminate [OF usable])
qed

lemma goal_transitions_witness:
  "status_of (snd (gh_accept 1 0 (requested_handle 0 \<lparr>zq_id = 0, zq_payload = Malformed, zq_attachment = GoodAttachment\<rparr> [1] ())
     (sv_new 10 None 4 :: (unit, unit) action_server))) [1] = Some Accepted"
  using goal_transitions [of 1 "sv_new 10 None 4 :: (unit, unit) action_server" 0
      "requested_handle 0 \<lparr>zq_id = 0, zq_payload = Malformed, zq_attachment = GoodAttachment\<rparr> [1] ()"]
  by (simp add: in_time_def can_terminate_def sv_new_def gm_new_def max_instant_def requested_handle_def goal_info_new_def)

text \<open>
  Expiration. Exactly the goals whose deadline has passed are reported and forgotten, an
  accepted or executing goal without a goal timeout never is, the others keep their
  entries, and the status list is published once if anything was removed.
\<close>

theorem expire_exact:
  assumes "sv_step\<^sup>*\<^sup>* (sv_new result_timeout goal_timeout depth) s"
    and "expire_goals now wall s = (Ok expired, s')"
  shows "distinct expired \<and>
    set expired = {i. \<exists>st. goal_entry s i = Some st \<and> should_expire now st} \<and>
    goal_entry s' = (\<lambda>i. if i \<in> set expired then None else goal_entry s i) \<and>
    sv_statuses s' = (if expired = [] then sv_statuses s else sv_statuses s @
      [\<lparr>sm_status_list = map (\<lambda>(i, st). \<lparr>gsi_goal_info = goal_info_new wall i, gsi_status = state_status st\<rparr>)
          (gm_goals (sv_manager s'))\<rparr>])"
proof -
  let ?goals = "gm_goals (sv_manager s)"
  have d: "distinct (map fst ?goals)"
    using sv_reach_results_ok [OF assms(1)] by (simp add: results_ok_def results_of_def)
  have e: "expired = map fst (filter (\<lambda>(i, st). should_expire now st) ?goals)"
    and m: "gm_goals (sv_manager s') = filter (\<lambda>(i, st). \<not> should_expire now st) ?goals"
    using assms(2) by (auto simp: expire_goals_def locked_def Let_def publish_status_def split: if_splits)
  have set: "set expired = {i. \<exists>st. goal_entry s i = Some st \<and> should_expire now st}"
    unfolding e goal_entry_def map_of_eq_Some_iff [OF d] by force
  have "map_of (filter (\<lambda>(i, st). \<not> should_expire now st) ?goals) i = (if i \<in> set expired then None else map_of ?goals i)" for i
    unfolding set goal_entry_def map_of_filter_snd [OF d] by (cases "map_of ?goals i") auto
  then have "goal_entry s' = (\<lambda>i. if i \<in> set expired then None else goal_entry s i)"
    by (simp add: goal_entry_def m fun_eq_iff)
  moreover have "distinct expired" using d by (simp add: e distinct_map_filter)
  moreover have "sv_statuses s' = (if expired = [] then sv_statuses s else sv_statuses s @
      [\<lparr>sm_status_list = map (\<lambda>(i, st). \<lparr>gsi_goal_info = goal_info_new wall i, gsi_status = state_status st\<rparr>)
          (gm_goals (sv_manager s'))\<rparr>])"
    using assms(2) by (auto simp: expire_goals_def locked_def Let_def publish_status_def split: if_splits)
  ultimately show ?thesis using set by blast
qed

lemma expire_exact_witness:
  "goal_entry (snd (expire_goals 15 0 (snd (gh_terminate 5 0 (requested_handle 0
      \<lparr>zq_id = 0, zq_payload = Malformed, zq_attachment = GoodAttachment\<rparr> [1] ()) ''done'' Succeeded (sv_new 10 None 4))))) [1] = None"
proof -
  let ?h = "requested_handle 0 \<lparr>zq_id = 0, zq_payload = Malformed, zq_attachment = GoodAttachment\<rparr> [1] ()"
  let ?s = "snd (gh_terminate 5 0 ?h ''done'' Succeeded (sv_new 10 None 4))"
  have reach: "sv_step\<^sup>*\<^sup>* (sv_new 10 None 4) ?s"
    by (intro r_into_rtranclp sv_step.terminates) (simp add: status_is_terminal_def)
  have s: "gm_goals (sv_manager ?s) = [([1], STerminated ''done'' Succeeded 5 (Some 15))]" "\<not> sv_poisoned ?s"
    by (simp_all add: gh_terminate_def cd_deregister_def locked_def instant_add_def max_instant_def sv_new_def gm_new_def
        set_goal_def publish_status_def close_channel_def requested_handle_def goal_info_new_def Let_def)
  obtain expired s' where e: "expire_goals 15 0 ?s = (Ok expired, s')" using s(2) by (simp add: expire_goals_def locked_def Let_def)
  note facts = expire_exact [OF reach e]
  have "goal_entry ?s [1] = Some (STerminated ''done'' Succeeded 5 (Some 15))" by (simp add: goal_entry_def s(1))
  then have "[1] \<in> set expired" using facts by simp
  with facts e show ?thesis by simp
qed

end
