(* ===== verification/Action_Driver.thy ===== *)
theory Action_Driver
  imports Action_Server
begin

text \<open>
  \<open>crates/hiroz/src/action/driver.rs\<close>: the driver loop of an action server with a goal
  handler. \<open>tokio::select!\<close> takes any ready branch, so the loop is a machine with one label
  for each branch, the awaits inside a branch being states of their own; the goal tasks it
  spawned and the arrival of remote requests interleave with it. The goal handler is the
  user's code: it may poll for a cancel request, finish its goal with any result, drop its
  handle or panic, at any time and in any order; once it has given its handle away, what it
  still does is not seen here. The owner of the server may change the result timeout at any
  time. A panic in a task ends the task; a panic in the loop ends the loop, and dropping its
  task set aborts the goal tasks.
\<close>

section \<open>State\<close>

datatype 'g goal_task =
    TRequested "(goal_id \<times> 'g) zquery"
  | TExecuting "'g goal_handle"
  | TFinished
  | TPanicked

datatype driver_pc =
    DSelect
  | DAwaiting nat "goal_id zquery"
  | DStopped
  | DCrashed

record ('g, 'r) driver_system =
  ds_server :: "('g, 'r) action_server"
  ds_tasks :: "'g goal_task list"
  ds_shutdown :: bool
  ds_pc :: driver_pc

definition ds_new :: "nat \<Rightarrow> nat option \<Rightarrow> nat \<Rightarrow> ('g, 'r) driver_system" where
  "ds_new result_timeout goal_timeout depth =
     \<lparr>ds_server = sv_new result_timeout goal_timeout depth, ds_tasks = [], ds_shutdown = False, ds_pc = DSelect\<rparr>"

definition with_server :: "('g, 'r) driver_system \<Rightarrow> ('g, 'r) action_server \<Rightarrow> ('g, 'r) driver_system" where
  "with_server d s = d\<lparr>ds_server := s\<rparr>"

text \<open>The receivers of the cancel channels of aborted tasks are dropped.\<close>

definition task_rx :: "'g goal_task \<Rightarrow> nat option" where
  "task_rx t = (case t of TExecuting h \<Rightarrow> gh_cancel_rx h | _ \<Rightarrow> None)"

definition abort_all :: "('g, 'r) driver_system \<Rightarrow> ('g, 'r) driver_system" where
  "abort_all d = d\<lparr>ds_server := fold (\<lambda>t. close_channel (task_rx t)) (ds_tasks d) (ds_server d), ds_tasks := []\<rparr>"

definition crash :: "('g, 'r) driver_system \<Rightarrow> ('g, 'r) driver_system" where
  "crash d = (abort_all d)\<lparr>ds_pc := DCrashed\<rparr>"

definition loop_continues :: "('a, unit) res \<times> ('g, 'r) action_server \<Rightarrow> ('g, 'r) driver_system \<Rightarrow> ('g, 'r) driver_system" where
  "loop_continues out d =
     (case out of
        (Panic, s) \<Rightarrow> crash (with_server d s)
      | (_, s) \<Rightarrow> (with_server d s)\<lparr>ds_pc := DSelect\<rparr>)"

section \<open>Branches of the loop\<close>

definition on_shutdown :: "('g, 'r) driver_system \<Rightarrow> ('g, 'r) driver_system option" where
  "on_shutdown d =
     (if ds_pc d = DSelect \<and> ds_shutdown d then Some ((abort_all d)\<lparr>ds_pc := DStopped\<rparr>) else None)"

definition finished :: "'g goal_task \<Rightarrow> bool" where
  "finished t = (case t of TFinished \<Rightarrow> True | TPanicked \<Rightarrow> True | _ \<Rightarrow> False)"

definition on_join :: "nat \<Rightarrow> ('g, 'r) driver_system \<Rightarrow> ('g, 'r) driver_system option" where
  "on_join k d =
     (if ds_pc d = DSelect \<and> k < length (ds_tasks d) \<and> finished (ds_tasks d ! k)
      then Some (d\<lparr>ds_tasks := take k (ds_tasks d) @ drop (Suc k) (ds_tasks d)\<rparr>) else None)"

definition on_tick :: "nat \<Rightarrow> nat \<Rightarrow> ('g, 'r) driver_system \<Rightarrow> ('g, 'r) driver_system option" where
  "on_tick now wall d =
     (if ds_pc d = DSelect then Some (loop_continues (expire_goals now wall (ds_server d)) d) else None)"

definition on_goal :: "('g, 'r) driver_system \<Rightarrow> ('g, 'r) driver_system option" where
  "on_goal d =
     (case (ds_pc d, bq_recv (sv_goal_queue (ds_server d))) of
        (DSelect, Some (q, rest)) \<Rightarrow>
          Some (d\<lparr>ds_server := (ds_server d)\<lparr>sv_goal_queue := rest\<rparr>, ds_tasks := ds_tasks d @ [TRequested q]\<rparr>)
      | _ \<Rightarrow> None)"

definition on_cancel :: "('g, 'r) driver_system \<Rightarrow> ('g, 'r) driver_system option" where
  "on_cancel d =
     (case (ds_pc d, bq_recv (sv_cancel_queue (ds_server d))) of
        (DSelect, Some (q, rest)) \<Rightarrow>
          Some (loop_continues (handle_cancel_request q ((ds_server d)\<lparr>sv_cancel_queue := rest\<rparr>)) d)
      | _ \<Rightarrow> None)"

text \<open>\<open>handle_result_request\<close> up to its await, and what follows the await.\<close>

definition handle_result_request :: "goal_id zquery \<Rightarrow> ('g, 'r) driver_system \<Rightarrow> ('g, 'r) driver_system" where
  "handle_result_request q d =
     (case zq_payload q of
        NoPayload \<Rightarrow> crash d
      | Malformed \<Rightarrow> d
      | Decoded i \<Rightarrow>
          (case result_driver i (ds_server d) of
             (Ok (RTerminated r st), s) \<Rightarrow> loop_continues (reply_result q r st s) d
           | (Ok (RWaiting w), s) \<Rightarrow> (with_server d s)\<lparr>ds_pc := DAwaiting w q\<rparr>
           | (Panic, s) \<Rightarrow> crash (with_server d s)
           | (_, s) \<Rightarrow> with_server d s))"

definition on_result :: "('g, 'r) driver_system \<Rightarrow> ('g, 'r) driver_system option" where
  "on_result d =
     (case (ds_pc d, bq_recv (sv_result_queue (ds_server d))) of
        (DSelect, Some (q, rest)) \<Rightarrow>
          Some (handle_result_request q (with_server d ((ds_server d)\<lparr>sv_result_queue := rest\<rparr>)))
      | _ \<Rightarrow> None)"

definition on_notified :: "('g, 'r) driver_system \<Rightarrow> ('g, 'r) driver_system option" where
  "on_notified d =
     (case ds_pc d of
        DAwaiting w q \<Rightarrow>
          (case map_of (sv_notified (ds_server d)) w of
             Some (r, st) \<Rightarrow> Some (loop_continues (reply_result q r st (ds_server d)) d)
           | None \<Rightarrow> None)
      | _ \<Rightarrow> None)"

section \<open>Goal tasks\<close>

definition task_start :: "nat \<Rightarrow> nat \<Rightarrow> nat \<Rightarrow> ('g, 'r) driver_system \<Rightarrow> ('g, 'r) driver_system option" where
  "task_start now wall k d =
     (if k < length (ds_tasks d)
      then (case ds_tasks d ! k of
              TRequested q \<Rightarrow>
                (case handle_goal_request now wall q (ds_server d) of
                   (Ok (Some h), s) \<Rightarrow> Some (d\<lparr>ds_server := s, ds_tasks := (ds_tasks d)[k := TExecuting h]\<rparr>)
                 | (Panic, s) \<Rightarrow> Some (d\<lparr>ds_server := s, ds_tasks := (ds_tasks d)[k := TPanicked]\<rparr>)
                 | (_, s) \<Rightarrow> Some (d\<lparr>ds_server := s, ds_tasks := (ds_tasks d)[k := TFinished]\<rparr>))
            | _ \<Rightarrow> None)
      else None)"

definition executing_task :: "nat \<Rightarrow> ('g, 'r) driver_system \<Rightarrow> 'g goal_handle option" where
  "executing_task k d =
     (if k < length (ds_tasks d) then (case ds_tasks d ! k of TExecuting h \<Rightarrow> Some h | _ \<Rightarrow> None) else None)"

text \<open>The handler polls for a cancel request; a panic there unwinds the handler and drops its handle.\<close>

definition task_poll :: "nat \<Rightarrow> ('g, 'r) driver_system \<Rightarrow> ('g, 'r) driver_system option" where
  "task_poll k d =
     (case executing_task k d of
        Some h \<Rightarrow>
          (case try_process_cancel h (ds_server d) of
             (Panic, s) \<Rightarrow> Some (d\<lparr>ds_server := close_channel (gh_cancel_rx h) s, ds_tasks := (ds_tasks d)[k := TPanicked]\<rparr>)
           | (_, s) \<Rightarrow> Some (with_server d s))
      | None \<Rightarrow> None)"

definition task_finish :: "nat \<Rightarrow> nat \<Rightarrow> nat \<Rightarrow> 'r \<Rightarrow> goal_status \<Rightarrow> ('g, 'r) driver_system \<Rightarrow> ('g, 'r) driver_system option" where
  "task_finish now wall k r st d =
     (case executing_task k d of
        Some h \<Rightarrow>
          (if st \<in> {Succeeded, Aborted, Canceled}
           then (case gh_terminate now wall h r st (ds_server d) of
                   (Panic, s) \<Rightarrow> Some (d\<lparr>ds_server := s, ds_tasks := (ds_tasks d)[k := TPanicked]\<rparr>)
                 | (_, s) \<Rightarrow> Some (d\<lparr>ds_server := s, ds_tasks := (ds_tasks d)[k := TFinished]\<rparr>))
           else None)
      | None \<Rightarrow> None)"

text \<open>The handler panics by itself.\<close>

definition task_panic :: "nat \<Rightarrow> ('g, 'r) driver_system \<Rightarrow> ('g, 'r) driver_system option" where
  "task_panic k d =
     (case executing_task k d of
        Some h \<Rightarrow> Some (d\<lparr>ds_server := close_channel (gh_cancel_rx h) (ds_server d), ds_tasks := (ds_tasks d)[k := TPanicked]\<rparr>)
      | None \<Rightarrow> None)"

definition task_drop :: "nat \<Rightarrow> ('g, 'r) driver_system \<Rightarrow> ('g, 'r) driver_system option" where
  "task_drop k d =
     (case executing_task k d of
        Some h \<Rightarrow> Some (d\<lparr>ds_server := close_channel (gh_cancel_rx h) (ds_server d), ds_tasks := (ds_tasks d)[k := TFinished]\<rparr>)
      | None \<Rightarrow> None)"

section \<open>Runs\<close>

datatype ('g, 'r) driver_label =
    LGoalArrives "(goal_id \<times> 'g) zquery"
  | LCancelArrives "goal_info zquery"
  | LResultArrives "goal_id zquery"
  | LShutdownRequested
  | LShutdown
  | LJoin nat
  | LTick nat nat
  | LGoal
  | LCancel
  | LResult
  | LNotified
  | LStart nat nat nat
  | LPoll nat
  | LFinish nat nat nat 'r goal_status
  | LDrop nat
  | LPanic nat
  | LSetTimeout nat

fun drv_step :: "('g, 'r) driver_label \<Rightarrow> ('g, 'r) driver_system \<Rightarrow> ('g, 'r) driver_system option" where
  "drv_step (LGoalArrives q) d =
     Some (with_server d ((ds_server d)\<lparr>sv_goal_queue := snd (bq_push (sv_goal_queue (ds_server d)) q)\<rparr>))"
| "drv_step (LCancelArrives q) d =
     Some (with_server d ((ds_server d)\<lparr>sv_cancel_queue := snd (bq_push (sv_cancel_queue (ds_server d)) q)\<rparr>))"
| "drv_step (LResultArrives q) d =
     Some (with_server d ((ds_server d)\<lparr>sv_result_queue := snd (bq_push (sv_result_queue (ds_server d)) q)\<rparr>))"
| "drv_step LShutdownRequested d = Some (d\<lparr>ds_shutdown := True\<rparr>)"
| "drv_step LShutdown d = on_shutdown d"
| "drv_step (LJoin k) d = on_join k d"
| "drv_step (LTick now wall) d = on_tick now wall d"
| "drv_step LGoal d = on_goal d"
| "drv_step LCancel d = on_cancel d"
| "drv_step LResult d = on_result d"
| "drv_step LNotified d = on_notified d"
| "drv_step (LStart now wall k) d = task_start now wall k d"
| "drv_step (LPoll k) d = task_poll k d"
| "drv_step (LFinish now wall k r st) d = task_finish now wall k r st d"
| "drv_step (LDrop k) d = task_drop k d"
| "drv_step (LPanic k) d = task_panic k d"
| "drv_step (LSetTimeout t) d = Some (with_server d (snd (set_result_timeout t (ds_server d))))"

primrec drv_run :: "('g, 'r) driver_label list \<Rightarrow> ('g, 'r) driver_system \<Rightarrow> ('g, 'r) driver_system option" where
  "drv_run [] d = Some d"
| "drv_run (l # ls) d = (case drv_step l d of Some d' \<Rightarrow> drv_run ls d' | None \<Rightarrow> None)"

lemma drv_run_invariant:
  assumes "drv_run ls d = Some d'" and "P d" and "\<And>l d d'. l \<in> set ls \<Longrightarrow> drv_step l d = Some d' \<Longrightarrow> P d \<Longrightarrow> P d'"
  shows "P d'"
  using assms
proof (induction ls arbitrary: d)
  case (Cons l ls)
  then obtain e where e: "drv_step l d = Some e" "drv_run ls e = Some d'" by (auto split: option.splits)
  have "P e" by (rule Cons.prems(3) [OF _ e(1) Cons.prems(2)]) simp
  then show ?case by (rule Cons.IH [OF e(2)]) (rule Cons.prems(3), simp_all)
qed simp

section \<open>Steps of the loop as steps of the server\<close>

lemma server_of [simp]: "ds_server (with_server d s) = s" "ds_pc (with_server d s) = ds_pc d" "ds_tasks (with_server d s) = ds_tasks d"
  by (simp_all add: with_server_def)

lemma close_channels_steps: "sv_step\<^sup>*\<^sup>* s (fold (\<lambda>t. close_channel (f t)) ts s)"
proof (induction ts arbitrary: s)
  case (Cons t ts)
  have "sv_step s (close_channel (f t) s)" by (rule sv_step.drops)
  with Cons show ?case by (simp add: converse_rtranclp_into_rtranclp)
qed simp

lemma results_of_close_all [simp]: "results_of (fold (\<lambda>t. close_channel (f t)) ts s) = results_of s"
  by (induction ts arbitrary: s) simp_all

lemma abort_all_steps: "sv_step\<^sup>*\<^sup>* (ds_server d) (ds_server (abort_all d))"
  by (simp add: abort_all_def close_channels_steps)

lemma loop_continues_steps:
  assumes "sv_step\<^sup>*\<^sup>* s (snd out)"
  shows "sv_step\<^sup>*\<^sup>* s (ds_server (loop_continues out d))"
proof (cases "fst out = Panic")
  case True
  then have "loop_continues out d = crash (with_server d (snd out))" by (cases out) (simp add: loop_continues_def)
  then show ?thesis using assms abort_all_steps [of "with_server d (snd out)"] by (simp add: crash_def)
next
  case False
  then have "loop_continues out d = (with_server d (snd out))\<lparr>ds_pc := DSelect\<rparr>"
    by (cases out; cases "fst out") (simp_all add: loop_continues_def)
  then show ?thesis using assms by simp
qed

lemma goal_request_accepted:
  assumes "zq_payload q = Decoded p" and "gh_accept now wall (requested_handle wall q (fst p) (snd p)) s = (Ok h, t)"
  shows "snd (handle_goal_request now wall q s) = snd (gh_execute now wall h t)"
proof -
  obtain out u where e: "gh_execute now wall h t = (out, u)" by force
  show ?thesis using assms e by (cases out) (simp_all add: handle_goal_request_def split_beta)
qed

lemma handle_goal_request_steps: "sv_step\<^sup>*\<^sup>* s (snd (handle_goal_request now wall q s))"
proof (cases "zq_payload q")
  case (Decoded p)
  obtain out t where a: "gh_accept now wall (requested_handle wall q (fst p) (snd p)) s = (out, t)" by force
  then have accept: "sv_step s t" using sv_step.accepts [of s now wall "requested_handle wall q (fst p) (snd p)"] by simp
  show ?thesis
  proof (cases out)
    case (Ok h)
    then have "snd (handle_goal_request now wall q s) = snd (gh_execute now wall h t)"
      using goal_request_accepted [OF Decoded] a by simp
    then show ?thesis using accept sv_step.executes [of t now wall h] by (simp add: converse_rtranclp_into_rtranclp)
  qed (use accept a Decoded in \<open>simp_all add: handle_goal_request_def split_beta r_into_rtranclp\<close>)
qed (simp_all add: handle_goal_request_def)

lemma handle_result_request_steps: "sv_step\<^sup>*\<^sup>* (ds_server d) (ds_server (handle_result_request q d))"
proof (cases "zq_payload q")
  case (Decoded i)
  obtain out s where r: "result_driver i (ds_server d) = (out, s)" by force
  then have first: "sv_step (ds_server d) s" using sv_step.asks_driver [of "ds_server d" i] by simp
  show ?thesis
  proof (cases out)
    case (Ok a)
    show ?thesis
    proof (cases a)
      case (RTerminated r st)
      have "sv_step\<^sup>*\<^sup>* (ds_server d) (snd (reply_result q r st s))"
        using first sv_step.answers [of s q r st] by (rule converse_rtranclp_into_rtranclp [OF _ r_into_rtranclp])
      then show ?thesis using Decoded r Ok RTerminated by (simp add: handle_result_request_def loop_continues_steps)
    qed (use Decoded r Ok first in \<open>simp_all add: handle_result_request_def r_into_rtranclp\<close>)
  next
    case Panic
    then have "ds_server (handle_result_request q d) = ds_server (abort_all (with_server d s))"
      using Decoded r by (simp add: handle_result_request_def crash_def)
    then show ?thesis using first abort_all_steps [of "with_server d s"] by (simp add: converse_rtranclp_into_rtranclp)
  qed (use Decoded r first in \<open>simp_all add: handle_result_request_def r_into_rtranclp\<close>)
next
  case NoPayload
  then show ?thesis using abort_all_steps [of d] by (simp add: handle_result_request_def crash_def)
qed (simp add: handle_result_request_def)

text \<open>What a task does to the server, whatever comes out of it.\<close>

lemma task_start_server:
  assumes "task_start now wall k d = Some d'"
  obtains q u where "k < length (ds_tasks d)" "ds_tasks d ! k = TRequested q" "ds_pc d' = ds_pc d"
    "ds_server d' = snd (handle_goal_request now wall q (ds_server d))" "ds_tasks d' = (ds_tasks d)[k := u]"
    "u = TPanicked \<longleftrightarrow> fst (handle_goal_request now wall q (ds_server d)) = Panic" "\<forall>q'. u \<noteq> TRequested q'"
  using assms that
  by (auto simp: task_start_def split: if_splits goal_task.splits res.splits option.splits prod.splits)

lemma task_poll_server:
  assumes "task_poll k d = Some d'"
  obtains h where "executing_task k d = Some h" "ds_pc d' = ds_pc d"
    "if fst (try_process_cancel h (ds_server d)) = Panic
     then ds_server d' = close_channel (gh_cancel_rx h) (snd (try_process_cancel h (ds_server d))) \<and>
       ds_tasks d' = (ds_tasks d)[k := TPanicked]
     else ds_server d' = snd (try_process_cancel h (ds_server d)) \<and> ds_tasks d' = ds_tasks d"
  using assms that by (auto simp: task_poll_def split: option.splits prod.splits res.splits)

lemma task_finish_server:
  assumes "task_finish now wall k r st d = Some d'"
  obtains h where "executing_task k d = Some h" "ds_pc d' = ds_pc d" "st \<in> {Succeeded, Aborted, Canceled}"
    "ds_server d' = snd (gh_terminate now wall h r st (ds_server d))"
    "ds_tasks d' = (ds_tasks d)[k := if fst (gh_terminate now wall h r st (ds_server d)) = Panic then TPanicked else TFinished]"
  using assms that by (auto simp: task_finish_def split: option.splits prod.splits res.splits if_splits)

lemma task_end_server:
  assumes "task_drop k d = Some d' \<or> task_panic k d = Some d'"
  obtains h u where "executing_task k d = Some h" "ds_pc d' = ds_pc d"
    "ds_server d' = close_channel (gh_cancel_rx h) (ds_server d)" "ds_tasks d' = (ds_tasks d)[k := u]"
    "u = TFinished \<or> u = TPanicked \<and> task_panic k d = Some d'"
  using assms that by (auto simp: task_drop_def task_panic_def split: option.splits)

lemma drv_step_steps: "drv_step l d = Some d' \<Longrightarrow> sv_step\<^sup>*\<^sup>* (ds_server d) (ds_server d')"
proof (cases l)
  case (LShutdown)
  then show "drv_step l d = Some d' \<Longrightarrow> ?thesis"
    using abort_all_steps [of d] by (auto simp: on_shutdown_def split: if_splits)
next
  case (LStart now wall k)
  assume "drv_step l d = Some d'"
  with LStart have "task_start now wall k d = Some d'" by simp
  then obtain q where "ds_server d' = snd (handle_goal_request now wall q (ds_server d))" by (rule task_start_server)
  then show ?thesis using handle_goal_request_steps [of "ds_server d" now wall q] by simp
next
  case (LPoll k)
  assume "drv_step l d = Some d'"
  with LPoll have "task_poll k d = Some d'" by simp
  then obtain h where "ds_server d' = snd (try_process_cancel h (ds_server d)) \<or>
      ds_server d' = close_channel (gh_cancel_rx h) (snd (try_process_cancel h (ds_server d)))"
    by (rule task_poll_server) (auto split: if_splits)
  then show ?thesis
    using sv_step.polls [of "ds_server d" h] sv_step.drops [of "snd (try_process_cancel h (ds_server d))" "gh_cancel_rx h"]
    by (metis converse_rtranclp_into_rtranclp r_into_rtranclp)
next
  case (LFinish now wall k r st)
  assume "drv_step l d = Some d'"
  with LFinish have "task_finish now wall k r st d = Some d'" by simp
  then show ?thesis
    by (rule task_finish_server) (auto simp: status_is_terminal_def intro!: r_into_rtranclp sv_step.terminates)
next
  case (LTick now wall)
  assume "drv_step l d = Some d'"
  with LTick have "d' = loop_continues (expire_goals now wall (ds_server d)) d" by (simp add: on_tick_def split: if_splits)
  moreover have "sv_step\<^sup>*\<^sup>* (ds_server d) (snd (expire_goals now wall (ds_server d)))"
    by (rule r_into_rtranclp) (rule sv_step.expires)
  ultimately show ?thesis by (simp add: loop_continues_steps)
next
  case LCancel
  assume "drv_step l d = Some d'"
  with LCancel obtain q rest where q: "bq_recv (sv_cancel_queue (ds_server d)) = Some (q, rest)"
    "d' = loop_continues (handle_cancel_request q ((ds_server d)\<lparr>sv_cancel_queue := rest\<rparr>)) d"
    by (auto simp: on_cancel_def split: driver_pc.splits option.splits)
  have "sv_step\<^sup>*\<^sup>* (ds_server d) (snd (handle_cancel_request q ((ds_server d)\<lparr>sv_cancel_queue := rest\<rparr>)))"
    using sv_step.cancel_taken [OF q(1)] sv_step.cancels [of "(ds_server d)\<lparr>sv_cancel_queue := rest\<rparr>" q]
    by (rule converse_rtranclp_into_rtranclp [OF _ r_into_rtranclp])
  then show ?thesis unfolding q(2) by (rule loop_continues_steps)
next
  case LResult
  assume "drv_step l d = Some d'"
  with LResult obtain q rest where q: "bq_recv (sv_result_queue (ds_server d)) = Some (q, rest)"
    "d' = handle_result_request q (with_server d ((ds_server d)\<lparr>sv_result_queue := rest\<rparr>))"
    by (auto simp: on_result_def split: driver_pc.splits option.splits)
  have "sv_step (ds_server d) ((ds_server d)\<lparr>sv_result_queue := rest\<rparr>)" by (rule sv_step.result_taken [OF q(1)])
  moreover have "sv_step\<^sup>*\<^sup>* ((ds_server d)\<lparr>sv_result_queue := rest\<rparr>) (ds_server d')"
    using handle_result_request_steps [of "with_server d ((ds_server d)\<lparr>sv_result_queue := rest\<rparr>)" q] q(2) by simp
  ultimately show ?thesis by (rule converse_rtranclp_into_rtranclp)
next
  case LNotified
  assume "drv_step l d = Some d'"
  with LNotified obtain q r st where "d' = loop_continues (reply_result q r st (ds_server d)) d"
    by (auto simp: on_notified_def split: driver_pc.splits option.splits)
  moreover have "sv_step\<^sup>*\<^sup>* (ds_server d) (snd (reply_result q r st (ds_server d)))"
    by (rule r_into_rtranclp) (rule sv_step.answers)
  ultimately show ?thesis by (simp add: loop_continues_steps)
next
  case LShutdownRequested
  then show "drv_step l d = Some d' \<Longrightarrow> ?thesis" by auto
next
  case (LJoin k)
  then show "drv_step l d = Some d' \<Longrightarrow> ?thesis" by (auto simp: on_join_def split: if_splits)
qed (auto simp: on_goal_def task_drop_def task_panic_def split: driver_pc.splits option.splits
    intro!: r_into_rtranclp sv_step.intros)

lemma drv_run_reach:
  assumes "drv_run ls (ds_new result_timeout goal_timeout depth) = Some d"
  shows "sv_step\<^sup>*\<^sup>* (sv_new result_timeout goal_timeout depth) (ds_server d)"
  using assms
  by (rule drv_run_invariant) (auto simp: ds_new_def dest: drv_step_steps intro: rtranclp_trans)

section \<open>What the operations keep\<close>

definition queues_of :: "('g, 'r) action_server \<Rightarrow> _" where
  "queues_of s = (sv_goal_queue s, sv_cancel_queue s, sv_result_queue s)"

lemma queues_of_ops [simp]:
  "queues_of (set_goal s i st) = queues_of s" "queues_of (publish_status wall s) = queues_of s"
  "queues_of (snd (reply_unwrap q r s)) = queues_of s" "queues_of (reply_if_attached q r s) = queues_of s"
  "queues_of (close_channel rx s) = queues_of s" "queues_of (snd (request_cancel i s)) = queues_of s"
  "queues_of (snd (cd_register i s)) = queues_of s" "queues_of (cd_deregister i s) = queues_of s"
  "queues_of (snd (add_waiter i s)) = queues_of s" "queues_of (s\<lparr>sv_poisoned := p\<rparr>) = queues_of s"
  "queues_of (s\<lparr>sv_flags := fs\<rparr>) = queues_of s" "queues_of (s\<lparr>sv_channels := cs\<rparr>) = queues_of s"
  "queues_of (s\<lparr>sv_manager := m\<rparr>) = queues_of s" "queues_of (s\<lparr>sv_notified := n\<rparr>) = queues_of s"
  by (auto simp: queues_of_def set_goal_def publish_status_def reply_unwrap_def reply_if_attached_def close_channel_def
      request_cancel_def locked_def cd_register_def cd_deregister_def add_waiter_def Let_def
      split: option.splits server_goal_state.splits)

lemma queues_of_enter [simp]: "queues_of (snd (enter_goal i entry now s)) = queues_of s"
  by (cases rule: enter_goal_cases [of s now i entry]) simp_all

lemma queues_of_handles [simp]:
  "queues_of (snd (gh_accept now wall h s)) = queues_of s"
  "queues_of (snd (gh_execute now wall h s)) = queues_of s"
  "queues_of (snd (gh_terminate now wall h r st s)) = queues_of s"
  "queues_of (snd (expire_goals now wall s)) = queues_of s"
  "queues_of (snd (set_result_timeout t s)) = queues_of s"
  "queues_of (snd (handle_cancel_request cq s)) = queues_of s"
  "queues_of (snd (result_driver i s)) = queues_of s"
  "queues_of (snd (reply_result rq r st s)) = queues_of s"
proof -
  show "queues_of (snd (gh_accept now wall h s)) = queues_of s"
  proof (cases rule: enter_goal_cases [of s now "gi_goal_id (gh_info h)" "SAccepted (gh_goal h) now"])
    case (entered e)
    show ?thesis
    proof (cases "gh_query h")
      case (Some q)
      then show ?thesis
        by (cases "zq_attachment q = GoodAttachment")
          (simp_all add: gh_accept_def entered(3) Let_def reply_unwrap_def, simp_all add: queues_of_def set_goal_def)
    qed (simp add: gh_accept_def entered(3) Let_def)
  qed (simp add: gh_accept_def)
  let ?s = "snd (cd_register (gi_goal_id (gh_info h)) (s\<lparr>sv_flags := sv_flags s @ [False]\<rparr>))"
  have "queues_of (snd (enter_goal (gi_goal_id (gh_info h)) (SExecuting (gh_goal h) (length (sv_flags s))) now ?s)) = queues_of s"
    by simp
  then show "queues_of (snd (gh_execute now wall h s)) = queues_of s"
    by (auto simp: gh_execute_def Let_def split_beta split: res.split)
  show "queues_of (snd (gh_terminate now wall h r st s)) = queues_of s"
    by (simp add: gh_terminate_def locked_def Let_def split: option.split)
  show "queues_of (snd (expire_goals now wall s)) = queues_of s"
    by (simp add: expire_goals_def locked_def Let_def)
  show "queues_of (snd (set_result_timeout t s)) = queues_of s"
    by (simp add: set_result_timeout_def locked_def)
  show "queues_of (snd (handle_cancel_request cq s)) = queues_of s"
  proof (cases "zq_payload cq")
    case (Decoded g)
    obtain out u where c: "request_cancel (gi_goal_id g) s = (out, u)" by force
    then have "queues_of u = queues_of s" using queues_of_ops(6) [of "gi_goal_id g" s] by simp
    with Decoded c show ?thesis by (simp add: handle_cancel_request_def split: res.split)
  qed (simp_all add: handle_cancel_request_def)
  show "queues_of (snd (result_driver i s)) = queues_of s"
    by (simp add: result_driver_def locked_def split_beta Let_def split: option.split server_goal_state.split)
  show "queues_of (snd (reply_result rq r st s)) = queues_of s"
    by (simp add: reply_result_def)
qed

lemma queues_of_goal_request [simp]: "queues_of (snd (handle_goal_request now wall q s)) = queues_of s"
proof (cases "zq_payload q")
  case (Decoded p)
  obtain out u where a: "gh_accept now wall (requested_handle wall q (fst p) (snd p)) s = (out, u)" by force
  then have u: "queues_of u = queues_of s" using queues_of_handles(1) [of now wall "requested_handle wall q (fst p) (snd p)" s] by simp
  show ?thesis
  proof (cases out)
    case (Ok h)
    then have "snd (handle_goal_request now wall q s) = snd (gh_execute now wall h u)"
      using goal_request_accepted [OF Decoded] a by simp
    then show ?thesis using u by simp
  qed (use u a Decoded in \<open>simp_all add: handle_goal_request_def split_beta\<close>)
qed (simp_all add: handle_goal_request_def)

lemma queues_of_close_all [simp]: "queues_of (fold (\<lambda>t. close_channel (f t)) ts s) = queues_of s"
  by (induction ts arbitrary: s) simp_all

lemma drain_queues:
  "sv_goal_queue (cd_drain s) = sv_goal_queue s" "sv_result_queue (cd_drain s) = sv_result_queue s"
  "bq_data (sv_cancel_queue (cd_drain s)) = []"
proof (induction s rule: cd_drain.induct)
  case (1 s)
  have route: "sv_goal_queue (route_cancel q t) = sv_goal_queue t" "sv_result_queue (route_cancel q t) = sv_result_queue t"
    for q and t :: "('a, 'b) action_server"
    by (simp_all add: route_cancel_def split: payload.splits option.splits)
  show "sv_goal_queue (cd_drain s) = sv_goal_queue s" "sv_result_queue (cd_drain s) = sv_result_queue s"
    "bq_data (sv_cancel_queue (cd_drain s)) = []"
    by (cases "bq_data (sv_cancel_queue s)"; simp add: cd_drain.simps [of s] bq_try_recv_def route 1)+
qed

lemma queues_of_poll:
  fixes s :: "('g, 'r) action_server"
  shows "queues_of (snd (try_process_cancel h s)) = (if is_cancel_requested h s then queues_of s else queues_of (cd_drain s))"
proof -
  have drop_result: "queues_of (snd (case x of (Panic, t) \<Rightarrow> (Panic, t) | (_, t) \<Rightarrow> (Ok True, reply_if_attached q r t))) =
      queues_of (snd x)" for x :: "(bool, unit) res \<times> ('g, 'r) action_server" and q :: "goal_info zquery" and r
    by (simp split: prod.split res.split)
  show ?thesis
    by (simp add: try_process_cancel_def Let_def drop_result split: option.split list.split payload.split)
qed

section \<open>Deadlines that are instants\<close>

text \<open>The lock and the configured timeouts.\<close>

definition limits_of :: "('g, 'r) action_server \<Rightarrow> bool \<times> nat option \<times> nat" where
  "limits_of s = (sv_poisoned s, gm_goal_timeout (sv_manager s), gm_result_timeout (sv_manager s))"

lemma limits_of_ops [simp]:
  "limits_of (set_goal s i st) = limits_of s" "limits_of (publish_status wall s) = limits_of s"
  "limits_of (snd (reply_unwrap q r s)) = limits_of s" "limits_of (reply_if_attached q r s) = limits_of s"
  "limits_of (close_channel rx s) = limits_of s" "limits_of (snd (cd_register i s)) = limits_of s"
  "limits_of (cd_deregister i s) = limits_of s" "limits_of (route_cancel cq s) = limits_of s"
  "limits_of (s\<lparr>sv_flags := fs\<rparr>) = limits_of s" "limits_of (s\<lparr>sv_channels := cs\<rparr>) = limits_of s"
  "limits_of (s\<lparr>sv_replies := rs\<rparr>) = limits_of s" "limits_of (s\<lparr>sv_notified := n\<rparr>) = limits_of s"
  "limits_of (s\<lparr>sv_goal_queue := gq\<rparr>) = limits_of s" "limits_of (s\<lparr>sv_cancel_queue := kq\<rparr>) = limits_of s"
  "limits_of (s\<lparr>sv_result_queue := rq\<rparr>) = limits_of s"
  "limits_of (s\<lparr>sv_manager := (sv_manager s)\<lparr>gm_goals := gs\<rparr>\<rparr>) = limits_of s"
  by (auto simp: limits_of_def set_goal_def publish_status_def reply_unwrap_def reply_if_attached_def close_channel_def
      cd_register_def cd_deregister_def route_cancel_def split: option.splits payload.splits)

lemma limits_of_drain [simp]: "limits_of (cd_drain s) = limits_of s"
proof (induction s rule: cd_drain.induct)
  case (1 s)
  show ?case
    by (cases "bq_data (sv_cancel_queue s)"; simp add: cd_drain.simps [of s] bq_try_recv_def 1)
qed

lemma limits_of_close_all [simp]: "limits_of (fold (\<lambda>t. close_channel (f t)) ts s) = limits_of s"
  by (induction ts arbitrary: s) simp_all

definition timely :: "nat \<Rightarrow> nat option \<Rightarrow> nat \<Rightarrow> bool" where
  "timely R G now \<longleftrightarrow> now + R \<le> max_instant \<and> (case G of None \<Rightarrow> True | Some t \<Rightarrow> now + t \<le> max_instant)"

definition sound :: "nat \<Rightarrow> nat option \<Rightarrow> ('g, 'r) action_server \<Rightarrow> bool" where
  "sound R G s \<longleftrightarrow> \<not> sv_poisoned s \<and> gm_goal_timeout (sv_manager s) = G \<and> gm_result_timeout (sv_manager s) \<le> R"

lemma sound_limits: "sound R G s \<longleftrightarrow> (\<exists>r\<le>R. limits_of s = (False, G, r))"
  by (auto simp: sound_def limits_of_def)

lemma sound_eq: "limits_of s = limits_of s' \<Longrightarrow> sound R G s = sound R G s'"
  by (simp add: sound_limits)

lemma sound_in_time: "sound R G s \<Longrightarrow> timely R G now \<Longrightarrow> in_time now s"
  by (auto simp: sound_def timely_def in_time_def can_terminate_def)

lemma sound_usable: "sound R G s \<Longrightarrow> \<not> sv_poisoned s"
  by (simp add: sound_def)

lemma usable_cancel:
  assumes "\<not> sv_poisoned s"
  obtains b s' where "request_cancel i s = (Ok b, s')" "limits_of s' = limits_of s"
proof -
  have "limits_of (snd (request_cancel i s)) = limits_of s \<and> (\<exists>b. fst (request_cancel i s) = Ok b)"
    using assms by (auto simp: request_cancel_def locked_def split: option.split server_goal_state.split)
  then show ?thesis using that by (metis prod.collapse)
qed

lemma usable_result:
  assumes "\<not> sv_poisoned s"
  obtains a s' where "result_driver i s = (Ok a, s')" "limits_of s' = limits_of s"
proof -
  have "limits_of (snd (add_waiter i s)) = limits_of s" by (simp add: add_waiter_def Let_def limits_of_def)
  then have "limits_of (snd (result_driver i s)) = limits_of s \<and> (\<exists>a. fst (result_driver i s) = Ok a)"
    using assms by (simp add: result_driver_def locked_def split_beta split: option.split server_goal_state.split)
  then show ?thesis using that by (metis prod.collapse)
qed

lemma usable_expire:
  assumes "\<not> sv_poisoned s"
  shows "fst (expire_goals now wall s) \<noteq> Panic" and "limits_of (snd (expire_goals now wall s)) = limits_of s"
  using assms by (simp_all add: expire_goals_def locked_def Let_def)

lemma usable_poll:
  assumes "\<not> sv_poisoned s"
  shows "fst (try_process_cancel h s) \<noteq> Panic \<and> limits_of (snd (try_process_cancel h s)) = limits_of s"
proof -
  have drained: "\<not> sv_poisoned (cd_drain s)" using assms limits_of_drain [of s] by (simp add: limits_of_def)
  have ok: "\<exists>b t. request_cancel i ((cd_drain s)\<lparr>sv_channels := cs\<rparr>) = (Ok b, t) \<and> limits_of t = limits_of s" for i cs
  proof -
    let ?s = "(cd_drain s)\<lparr>sv_channels := cs\<rparr>"
    have "\<not> sv_poisoned ?s" using drained by simp
    then obtain b t where "request_cancel i ?s = (Ok b, t)" "limits_of t = limits_of ?s" by (rule usable_cancel)
    then show ?thesis by simp
  qed
  show ?thesis
  proof (cases "is_cancel_requested h s \<or> gh_cancel_rx h = None")
    case False
    then obtain rx where rx: "gh_cancel_rx h = Some rx" "\<not> is_cancel_requested h s" by auto
    show ?thesis
    proof (cases "ch_queries (sv_channels (cd_drain s) ! rx)")
      case (Cons q qs)
      obtain b t where "request_cancel (gi_goal_id (gh_info h))
          ((cd_drain s)\<lparr>sv_channels := (sv_channels (cd_drain s))[rx := (sv_channels (cd_drain s) ! rx)\<lparr>ch_queries := qs\<rparr>]\<rparr>) = (Ok b, t)"
        "limits_of t = limits_of s"
        using ok by blast
      with rx Cons show ?thesis by (simp add: try_process_cancel_def Let_def split: payload.split)
    qed (simp add: try_process_cancel_def Let_def rx)
  qed (auto simp: try_process_cancel_def Let_def)
qed

lemma in_time_accept:
  assumes "in_time now s" and "zq_attachment q = GoodAttachment"
  obtains h s' where "gh_accept now wall (requested_handle wall q i g) s = (Ok h, s')" "limits_of s' = limits_of s"
proof -
  obtain e where "enter_goal i (SAccepted g now) now s = (Ok (), set_goal s i (SAccepted g now e))"
    by (rule in_time_enter [OF assms(1)])
  with assms(2) have "limits_of (snd (gh_accept now wall (requested_handle wall q i g) s)) = limits_of s \<and>
      (\<exists>h. fst (gh_accept now wall (requested_handle wall q i g) s) = Ok h)"
    by (simp add: gh_accept_def requested_handle_def goal_info_new_def Let_def reply_unwrap_def)
  then show ?thesis using that by (metis prod.collapse)
qed

lemma in_time_executes:
  assumes "in_time now s"
  obtains h' s' where "gh_execute now wall h s = (Ok h', s')" "limits_of s' = limits_of s"
proof -
  let ?i = "gi_goal_id (gh_info h)" and ?f = "length (sv_flags s)"
  let ?s = "snd (cd_register ?i (s\<lparr>sv_flags := sv_flags s @ [False]\<rparr>))"
  obtain e where "enter_goal ?i (SExecuting (gh_goal h) ?f) now ?s = (Ok (), set_goal ?s ?i (SExecuting (gh_goal h) ?f e))"
    by (rule in_time_enter [OF in_time_execute [OF assms, of ?i "sv_flags s @ [False]"], of ?i "SExecuting (gh_goal h) ?f"])
  then have "limits_of (snd (gh_execute now wall h s)) = limits_of s \<and> (\<exists>h'. fst (gh_execute now wall h s) = Ok h')"
    by (simp add: gh_execute_def Let_def split_beta)
  then show ?thesis using that by (metis prod.collapse)
qed

lemma in_time_limits: "limits_of s = limits_of s' \<Longrightarrow> in_time now s = in_time now s'"
  by (simp add: limits_of_def in_time_def can_terminate_def)

lemma terminate_limits:
  assumes "can_terminate now s"
  shows "fst (gh_terminate now wall h r st s) = Ok ()" and "limits_of (snd (gh_terminate now wall h r st s)) = limits_of s"
proof -
  show "fst (gh_terminate now wall h r st s) = Ok ()" by (rule results_of_terminate(1) [OF assms])
  show "limits_of (snd (gh_terminate now wall h r st s)) = limits_of s"
    using assms by (simp add: gh_terminate_def Let_def locked_def can_terminate_def instant_add_def)
      (simp add: limits_of_def set_goal_def)
qed

section \<open>Requests that do not bring the loop down\<close>

text \<open>What every client library sends: a payload, decodable or not, and an attachment.\<close>

definition good_query :: "'p zquery \<Rightarrow> bool" where
  "good_query q \<longleftrightarrow> zq_payload q \<noteq> NoPayload \<and> zq_attachment q = GoodAttachment"

text \<open>
  Good requests, at times from which every configured timeout still leads to an instant,
  for result timeouts up to \<open>R\<close> and the goal timeout \<open>G\<close>.
\<close>

fun good_label :: "nat \<Rightarrow> nat option \<Rightarrow> ('g, 'r) driver_label \<Rightarrow> bool" where
  "good_label R G (LGoalArrives q) = good_query q"
| "good_label R G (LCancelArrives q) = good_query q"
| "good_label R G (LResultArrives q) = good_query q"
| "good_label R G (LStart now wall k) = timely R G now"
| "good_label R G (LFinish now wall k r st) = timely R G now"
| "good_label R G (LSetTimeout t) = (t \<le> R)"
| "good_label R G _ = True"

fun handler_panics :: "('g, 'r) driver_label \<Rightarrow> bool" where
  "handler_panics (LPanic k) = True"
| "handler_panics _ = False"

definition good_queues :: "('g, 'r) action_server \<Rightarrow> bool" where
  "good_queues s \<longleftrightarrow>
     list_all good_query (bq_data (sv_goal_queue s)) \<and> list_all good_query (bq_data (sv_cancel_queue s)) \<and>
     list_all good_query (bq_data (sv_result_queue s))"

definition good_task :: "'g goal_task \<Rightarrow> bool" where
  "good_task t = (case t of TRequested q \<Rightarrow> good_query q | _ \<Rightarrow> True)"

definition good_server :: "nat \<Rightarrow> nat option \<Rightarrow> ('g, 'r) action_server \<Rightarrow> bool" where
  "good_server R G s \<longleftrightarrow> good_queues s \<and> sound R G s"

definition good_system :: "nat \<Rightarrow> nat option \<Rightarrow> ('g, 'r) driver_system \<Rightarrow> bool" where
  "good_system R G d \<longleftrightarrow>
     good_server R G (ds_server d) \<and> list_all good_task (ds_tasks d) \<and>
     (case ds_pc d of DCrashed \<Rightarrow> False | DAwaiting w q \<Rightarrow> good_query q | _ \<Rightarrow> True)"

lemma good_server_eq:
  "queues_of s = queues_of s' \<Longrightarrow> limits_of s = limits_of s' \<Longrightarrow> good_server R G s = good_server R G s'"
  using sound_eq [of s s' R G] by (simp add: queues_of_def good_server_def good_queues_def)

lemma good_push: "list_all P (bq_data b) \<Longrightarrow> P x \<Longrightarrow> list_all P (bq_data (snd (bq_push b x)))"
  by (cases "bq_data b") (auto simp: bq_push_def Let_def)

lemma good_recv: "list_all P (bq_data b) \<Longrightarrow> bq_recv b = Some (x, b') \<Longrightarrow> P x \<and> list_all P (bq_data b')"
  by (auto simp: bq_recv_def bq_try_recv_def split: list.splits)

lemma good_update: "list_all P xs \<Longrightarrow> P x \<Longrightarrow> list_all P (xs[k := x])"
  by (auto simp: list_all_iff dest: set_update_subset_insert [THEN subsetD])

lemma good_take: "list_all P xs \<Longrightarrow> list_all P (take k xs)"
  and good_drop: "list_all P xs \<Longrightarrow> list_all P (drop k xs)"
  by (auto simp: list_all_iff dest: in_set_takeD in_set_dropD)

lemma count_update_le: "count_list (xs[k := x]) y \<le> count_list xs y + (if x = y then 1 else 0)"
proof (induction xs arbitrary: k)
  case (Cons a xs)
  show ?case
  proof (cases k)
    case (Suc j)
    then show ?thesis using Cons [of j] by simp
  qed simp
qed simp

lemma count_remove_le: "count_list (take k xs @ drop (Suc k) xs) y \<le> count_list xs y"
proof -
  have "count_list xs y = count_list (take k xs) y + count_list (drop k xs) y"
    by (metis append_take_drop_id count_list_append)
  moreover have "count_list (drop (Suc k) xs) y \<le> count_list (drop k xs) y"
    by (cases "drop k xs") (simp_all flip: tl_drop add: drop_Suc)
  ultimately show ?thesis by simp
qed

text \<open>A step that keeps the system good and makes no task panic, except by its handler.\<close>

definition stays_good :: "nat \<Rightarrow> nat option \<Rightarrow> ('g, 'r) driver_system \<Rightarrow> bool \<Rightarrow> ('g, 'r) driver_system \<Rightarrow> bool" where
  "stays_good R G d panics d' \<longleftrightarrow> good_system R G d' \<and>
     count_list (ds_tasks d') TPanicked \<le> count_list (ds_tasks d) TPanicked + (if panics then 1 else 0)"

lemma good_loop_continues:
  assumes "good_server R G (snd out)" and "list_all good_task (ds_tasks d)" and "fst out \<noteq> Panic"
  shows "stays_good R G d p (loop_continues out d)"
  using assms by (cases out; cases "fst out") (simp_all add: loop_continues_def good_system_def stays_good_def)

lemma good_task_ends:
  assumes "good_system R G d" and "good_server R G (ds_server d')" and "ds_pc d' = ds_pc d"
    and "ds_tasks d' = (ds_tasks d)[k := u]" and "good_task u" and "u = TPanicked \<Longrightarrow> p"
  shows "stays_good R G d p d'"
  using assms good_update [of good_task "ds_tasks d" u k] count_update_le [of "ds_tasks d" k u TPanicked]
  by (auto simp: stays_good_def good_system_def split: if_splits)

lemma good_reply: "good_query q \<Longrightarrow> fst (reply_result q r st s) \<noteq> Panic"
  by (simp add: good_query_def reply_result_def reply_unwrap_def)

lemma limits_of_reply [simp]: "limits_of (snd (reply_result q r st s)) = limits_of s"
  by (simp add: reply_result_def)

lemma good_cancel:
  assumes "good_query q" and "good_server R G s"
  shows "fst (handle_cancel_request q s) \<noteq> Panic" and "good_server R G (snd (handle_cancel_request q s))"
proof -
  have "fst (handle_cancel_request q s) \<noteq> Panic \<and> limits_of (snd (handle_cancel_request q s)) = limits_of s"
  proof (cases "zq_payload q")
    case (Decoded g)
    have "\<not> sv_poisoned s" using assms(2) by (simp add: good_server_def sound_def)
    then obtain b s' where "request_cancel (gi_goal_id g) s = (Ok b, s')" "limits_of s' = limits_of s" by (rule usable_cancel)
    with Decoded assms(1) show ?thesis by (simp add: handle_cancel_request_def good_query_def reply_unwrap_def)
  qed (use assms(1) in \<open>simp_all add: handle_cancel_request_def good_query_def\<close>)
  then show "fst (handle_cancel_request q s) \<noteq> Panic" "good_server R G (snd (handle_cancel_request q s))"
    using good_server_eq [of "snd (handle_cancel_request q s)" s] assms(2) by simp_all
qed

lemma good_goal:
  assumes "good_query q" and "good_server R G s" and "timely R G now"
  shows "fst (handle_goal_request now wall q s) \<noteq> Panic" and "good_server R G (snd (handle_goal_request now wall q s))"
proof -
  have time: "in_time now s" using assms(2,3) sound_in_time by (auto simp: good_server_def)
  have "fst (handle_goal_request now wall q s) \<noteq> Panic \<and> limits_of (snd (handle_goal_request now wall q s)) = limits_of s"
  proof (cases "zq_payload q")
    case (Decoded p)
    have att: "zq_attachment q = GoodAttachment" using assms(1) by (simp add: good_query_def)
    obtain h s1 where a: "gh_accept now wall (requested_handle wall q (fst p) (snd p)) s = (Ok h, s1)" "limits_of s1 = limits_of s"
      by (rule in_time_accept [OF time att])
    have "in_time now s1" using in_time_limits [OF a(2)] time by simp
    then obtain h' s2 where "gh_execute now wall h s1 = (Ok h', s2)" "limits_of s2 = limits_of s1" by (rule in_time_executes)
    with Decoded a show ?thesis by (simp add: handle_goal_request_def split_beta)
  qed (use assms(1) in \<open>simp_all add: handle_goal_request_def good_query_def\<close>)
  then show "fst (handle_goal_request now wall q s) \<noteq> Panic" "good_server R G (snd (handle_goal_request now wall q s))"
    using good_server_eq [of "snd (handle_goal_request now wall q s)" s] assms(2) by simp_all
qed

lemma good_result:
  assumes "good_system R G d" and "ds_pc d = DSelect" and "good_query q"
  shows "stays_good R G d p (handle_result_request q d)"
proof (cases "zq_payload q")
  case (Decoded i)
  have s0: "good_server R G (ds_server d)" and t: "list_all good_task (ds_tasks d)"
    using assms(1) by (simp_all add: good_system_def)
  obtain a s where r: "result_driver i (ds_server d) = (Ok a, s)" "limits_of s = limits_of (ds_server d)"
    by (rule usable_result [of "ds_server d" i]) (use s0 in \<open>simp_all add: good_server_def sound_def\<close>)
  have "queues_of s = queues_of (ds_server d)" using queues_of_handles(7) [of i "ds_server d"] r by simp
  with s0 r(2) have s: "good_server R G s" using good_server_eq by blast
  show ?thesis
  proof (cases a)
    case (RTerminated res st)
    have "good_server R G (snd (reply_result q res st s))"
      using s good_server_eq [of "snd (reply_result q res st s)" s] by simp
    moreover have "fst (reply_result q res st s) \<noteq> Panic" using assms(3) by (rule good_reply)
    ultimately show ?thesis using Decoded r RTerminated good_loop_continues [OF _ t] by (simp add: handle_result_request_def)
  qed (use Decoded r s t assms in \<open>simp_all add: handle_result_request_def good_system_def stays_good_def\<close>)
qed (use assms in \<open>simp_all add: handle_result_request_def good_query_def stays_good_def\<close>)

lemma good_close: "good_server R G s \<Longrightarrow> good_server R G (close_channel rx s)"
  using good_server_eq [of "close_channel rx s" s] by simp

lemma good_poll:
  assumes "good_server R G s"
  shows "fst (try_process_cancel h s) \<noteq> Panic" and "good_server R G (snd (try_process_cancel h s))"
proof -
  have ok: "fst (try_process_cancel h s) \<noteq> Panic \<and> limits_of (snd (try_process_cancel h s)) = limits_of s"
    using assms by (intro usable_poll) (simp add: good_server_def sound_def)
  then show "fst (try_process_cancel h s) \<noteq> Panic" by blast
  have "good_queues (snd (try_process_cancel h s))"
    using assms queues_of_poll [of h s] drain_queues [of s]
    by (auto simp: good_server_def good_queues_def queues_of_def split: if_splits)
  then show "good_server R G (snd (try_process_cancel h s))"
    using assms ok sound_eq by (auto simp: good_server_def)
qed

lemma good_terminate:
  assumes "good_server R G s" and "timely R G now"
  shows "fst (gh_terminate now wall h r st s) \<noteq> Panic" and "good_server R G (snd (gh_terminate now wall h r st s))"
proof -
  have "can_terminate now s" using assms sound_in_time by (auto simp: good_server_def in_time_def)
  note ok = terminate_limits [OF this, of wall h r st]
  then show "fst (gh_terminate now wall h r st s) \<noteq> Panic" by simp
  show "good_server R G (snd (gh_terminate now wall h r st s))"
    using ok(2) assms(1) good_server_eq [of "snd (gh_terminate now wall h r st s)" s] by simp
qed

lemma good_set_timeout:
  assumes "good_server R G s" and "t \<le> R"
  shows "good_server R G (snd (set_result_timeout t s))"
proof -
  have "sound R G (snd (set_result_timeout t s))"
    using assms by (simp add: good_server_def sound_def set_result_timeout_def locked_def)
  then show ?thesis using assms(1) queues_of_handles(5) [of t s] by (simp add: good_server_def good_queues_def queues_of_def)
qed

lemma good_step:
  assumes "good_label R G l" and "drv_step l d = Some d'" and "good_system R G d"
  shows "stays_good R G d (handler_panics l) d'"
proof -
  have s: "good_server R G (ds_server d)" and t: "list_all good_task (ds_tasks d)" using assms(3) by (simp_all add: good_system_def)
  then have q: "good_queues (ds_server d)" and u: "\<not> sv_poisoned (ds_server d)" by (simp_all add: good_server_def sound_def)
  have taken: "good_server R G ((ds_server d)\<lparr>sv_goal_queue := b1\<rparr>) = good_queues ((ds_server d)\<lparr>sv_goal_queue := b1\<rparr>)"
    "good_server R G ((ds_server d)\<lparr>sv_cancel_queue := b2\<rparr>) = good_queues ((ds_server d)\<lparr>sv_cancel_queue := b2\<rparr>)"
    "good_server R G ((ds_server d)\<lparr>sv_result_queue := b3\<rparr>) = good_queues ((ds_server d)\<lparr>sv_result_queue := b3\<rparr>)" for b1 b2 b3
    using s by (simp_all add: good_server_def sound_def)
  show ?thesis
  proof (cases l)
    case LShutdown
    have "good_server R G (ds_server (abort_all d))"
      using s good_server_eq [of "ds_server (abort_all d)" "ds_server d"] by (simp add: abort_all_def)
    then show ?thesis using LShutdown assms(2)
      by (auto simp: on_shutdown_def abort_all_def good_system_def stays_good_def split: if_splits)
  next
    case (LJoin k)
    then show ?thesis using assms t count_remove_le [of k "ds_tasks d" TPanicked]
      by (auto simp: on_join_def good_system_def stays_good_def split: if_splits intro: good_take good_drop)
  next
    case (LTick now wall)
    have "good_server R G (snd (expire_goals now wall (ds_server d)))"
      using s usable_expire(2) [OF u] good_server_eq [of "snd (expire_goals now wall (ds_server d))" "ds_server d"] by simp
    then show ?thesis using LTick assms(2) t usable_expire(1) [OF u]
      by (auto simp: on_tick_def split: if_splits intro: good_loop_continues)
  next
    case LGoal
    then obtain gq rest where r: "bq_recv (sv_goal_queue (ds_server d)) = Some (gq, rest)" "ds_pc d = DSelect"
      "d' = d\<lparr>ds_server := (ds_server d)\<lparr>sv_goal_queue := rest\<rparr>, ds_tasks := ds_tasks d @ [TRequested gq]\<rparr>"
      using assms(2) by (auto simp: on_goal_def split: driver_pc.splits option.splits)
    with q t show ?thesis using good_recv [OF _ r(1), of good_query]
      by (simp add: stays_good_def good_system_def taken good_queues_def good_task_def)
  next
    case LCancel
    then obtain cq rest where r: "bq_recv (sv_cancel_queue (ds_server d)) = Some (cq, rest)"
      "d' = loop_continues (handle_cancel_request cq ((ds_server d)\<lparr>sv_cancel_queue := rest\<rparr>)) d"
      using assms(2) by (auto simp: on_cancel_def split: driver_pc.splits option.splits)
    from q r(1) have g: "good_query cq" "good_server R G ((ds_server d)\<lparr>sv_cancel_queue := rest\<rparr>)"
      using good_recv [OF _ r(1), of good_query] by (simp_all add: taken good_queues_def)
    then show ?thesis unfolding r(2) using t by (intro good_loop_continues good_cancel)
  next
    case LResult
    then obtain rq rest where r: "bq_recv (sv_result_queue (ds_server d)) = Some (rq, rest)" "ds_pc d = DSelect"
      "d' = handle_result_request rq (with_server d ((ds_server d)\<lparr>sv_result_queue := rest\<rparr>))"
      using assms(2) by (auto simp: on_result_def split: driver_pc.splits option.splits)
    from q r(1) have "good_query rq" "good_server R G ((ds_server d)\<lparr>sv_result_queue := rest\<rparr>)"
      using good_recv [OF _ r(1), of good_query] by (simp_all add: taken good_queues_def)
    then have "stays_good R G (with_server d ((ds_server d)\<lparr>sv_result_queue := rest\<rparr>)) (handler_panics l) d'"
      unfolding r(3) using r(2) t by (intro good_result) (simp_all add: good_system_def)
    then show ?thesis by (simp add: stays_good_def)
  next
    case LNotified
    then obtain w rq r st where r: "ds_pc d = DAwaiting w rq" "d' = loop_continues (reply_result rq r st (ds_server d)) d"
      using assms(2) by (auto simp: on_notified_def split: driver_pc.splits option.splits)
    then have "good_query rq" using assms(3) by (simp add: good_system_def)
    moreover have "good_server R G (snd (reply_result rq r st (ds_server d)))"
      using s good_server_eq [of "snd (reply_result rq r st (ds_server d))" "ds_server d"] by simp
    ultimately show ?thesis unfolding r(2) using t by (intro good_loop_continues good_reply)
  next
    case (LStart now wall k)
    with assms(2) have "task_start now wall k d = Some d'" by simp
    then obtain gq v where g: "k < length (ds_tasks d)" "ds_tasks d ! k = TRequested gq" "ds_pc d' = ds_pc d"
      "ds_server d' = snd (handle_goal_request now wall gq (ds_server d))" "ds_tasks d' = (ds_tasks d)[k := v]"
      "v = TPanicked \<longleftrightarrow> fst (handle_goal_request now wall gq (ds_server d)) = Panic" "\<forall>q'. v \<noteq> TRequested q'"
      by (rule task_start_server)
    have "good_task (TRequested gq)" using t g(1,2) by (metis list_all_length)
    then have "good_query gq" by (simp add: good_task_def)
    note ok = good_goal [OF this s, of now wall]
    have "timely R G now" using assms(1) LStart by simp
    note ok = ok [OF this]
    have "good_task v" using g(7) by (simp add: good_task_def split: goal_task.split)
    then show ?thesis using good_task_ends [OF assms(3) _ g(3,5)] ok g(4,6) by simp
  next
    case (LPoll k)
    with assms(2) have "task_poll k d = Some d'" by simp
    then obtain h where "executing_task k d = Some h" "ds_pc d' = ds_pc d"
      "ds_server d' = snd (try_process_cancel h (ds_server d))" "ds_tasks d' = ds_tasks d"
      by (rule task_poll_server) (use good_poll(1) [OF s] in simp)
    then show ?thesis using good_poll(2) [OF s, of h] assms(3) by (simp add: stays_good_def good_system_def)
  next
    case (LFinish now wall k r st)
    with assms have "task_finish now wall k r st d = Some d'" and time: "timely R G now" by simp_all
    then obtain h where "ds_pc d' = ds_pc d" "ds_server d' = snd (gh_terminate now wall h r st (ds_server d))"
      "ds_tasks d' = (ds_tasks d)[k := TFinished]"
      using good_terminate(1) [OF s time] by (elim task_finish_server) simp
    then show ?thesis using good_terminate(2) [OF s time, of wall h r st] good_task_ends [OF assms(3), of d' k TFinished]
      by (simp add: good_task_def)
  next
    case (LDrop k)
    with assms(2) have "task_drop k d = Some d'" by simp
    then obtain h where "executing_task k d = Some h"
      "d' = d\<lparr>ds_server := close_channel (gh_cancel_rx h) (ds_server d), ds_tasks := (ds_tasks d)[k := TFinished]\<rparr>"
      by (auto simp: task_drop_def split: option.splits)
    then show ?thesis using good_close [OF s] good_task_ends [OF assms(3), of d' k TFinished] by (simp add: good_task_def)
  next
    case (LPanic k)
    with assms(2) have "task_panic k d = Some d'" by simp
    then obtain h where "executing_task k d = Some h"
      "d' = d\<lparr>ds_server := close_channel (gh_cancel_rx h) (ds_server d), ds_tasks := (ds_tasks d)[k := TPanicked]\<rparr>"
      by (auto simp: task_panic_def split: option.splits)
    then show ?thesis using LPanic good_close [OF s] good_task_ends [OF assms(3), of d' k TPanicked] by (simp add: good_task_def)
  next
    case (LSetTimeout x)
    then show ?thesis using assms good_set_timeout [OF s, of x]
      by (auto simp: stays_good_def good_system_def)
  qed (use assms q in \<open>auto simp: stays_good_def good_system_def taken with_server_def good_queues_def intro!: good_push\<close>)
qed

section \<open>The loop while it waits for a result\<close>

definition cancel_replies :: "('g, 'r) action_server \<Rightarrow> (nat \<times> 'r action_reply) list" where
  "cancel_replies s = filter (\<lambda>(i, r). case r of CancelReply c \<Rightarrow> True | _ \<Rightarrow> False) (sv_replies s)"

text \<open>Flags that exist are untouched and nobody is told that a cancel request was handled.\<close>

definition cancels_idle :: "('g, 'r) action_server \<Rightarrow> ('g, 'r) action_server \<Rightarrow> bool" where
  "cancels_idle s s' \<longleftrightarrow> take (length (sv_flags s)) (sv_flags s') = sv_flags s \<and> cancel_replies s' = cancel_replies s"

lemma cancels_idle_refl [simp]: "cancels_idle s s"
  by (simp add: cancels_idle_def)

lemma cancels_idle_trans:
  assumes "cancels_idle s t" and "cancels_idle t u"
  shows "cancels_idle s u"
proof -
  have "sv_flags t = sv_flags s @ drop (length (sv_flags s)) (sv_flags t)"
    "sv_flags u = sv_flags t @ drop (length (sv_flags t)) (sv_flags u)"
    using assms by (metis append_take_drop_id cancels_idle_def)+
  then have "sv_flags u = sv_flags s @ drop (length (sv_flags s)) (sv_flags t) @ drop (length (sv_flags t)) (sv_flags u)"
    by (metis append_assoc)
  then have "take (length (sv_flags s)) (sv_flags u) = sv_flags s" by (metis append_eq_conv_conj)
  then show ?thesis using assms by (simp add: cancels_idle_def)
qed

lemma enter_idle: "cancels_idle s (snd (enter_goal i entry now s))"
  by (cases rule: enter_goal_cases [of s now i entry]) (simp_all add: set_goal_def cancels_idle_def cancel_replies_def)

lemma publish_idle: "cancels_idle s (publish_status wall s)"
  by (simp add: publish_status_def cancels_idle_def cancel_replies_def)

lemma close_idle: "cancels_idle s (close_channel rx s)"
  by (simp add: close_channel_def cancels_idle_def cancel_replies_def split: option.splits)

lemma accept_idle: "cancels_idle s (snd (gh_accept now wall h s))"
proof (cases rule: enter_goal_cases [of s now "gi_goal_id (gh_info h)" "SAccepted (gh_goal h) now"])
  case (entered e)
  show ?thesis
  proof (cases "gh_query h")
    case (Some q)
    then show ?thesis
      by (cases "zq_attachment q = GoodAttachment")
        (simp_all add: gh_accept_def entered(3) Let_def reply_unwrap_def publish_status_def set_goal_def cancels_idle_def
          cancel_replies_def)
  qed (simp add: gh_accept_def entered(3) Let_def publish_status_def set_goal_def cancels_idle_def cancel_replies_def)
qed (simp add: gh_accept_def cancels_idle_def cancel_replies_def)

lemma execute_idle: "cancels_idle s (snd (gh_execute now wall h s))"
proof -
  let ?s = "snd (cd_register (gi_goal_id (gh_info h)) (s\<lparr>sv_flags := sv_flags s @ [False]\<rparr>))"
  obtain out t where e: "enter_goal (gi_goal_id (gh_info h)) (SExecuting (gh_goal h) (length (sv_flags s))) now ?s = (out, t)"
    by force
  have "cancels_idle s ?s" by (simp add: cd_register_def cancels_idle_def cancel_replies_def)
  moreover have "cancels_idle ?s t"
    using enter_idle [of ?s "gi_goal_id (gh_info h)" "SExecuting (gh_goal h) (length (sv_flags s))" now] e by simp
  ultimately have "cancels_idle s t" by (rule cancels_idle_trans)
  then show ?thesis
    using e publish_idle [of t wall] close_idle [of t]
    by (cases out) (simp_all add: gh_execute_def Let_def split_beta, (blast intro: cancels_idle_trans)+)
qed

lemma terminate_idle: "cancels_idle s (snd (gh_terminate now wall h r st s))"
proof (cases "can_terminate now s")
  case True
  then show ?thesis
    by (simp add: gh_terminate_def Let_def locked_def can_terminate_def instant_add_def close_channel_def publish_status_def
        set_goal_def cancels_idle_def cancel_replies_def split: option.split) (simp add: cd_deregister_def)
next
  case False
  then show ?thesis
    by (simp add: terminate_panics close_channel_def cancels_idle_def cancel_replies_def split: option.split)
      (simp add: cd_deregister_def)
qed

lemma goal_request_idle: "cancels_idle s (snd (handle_goal_request now wall q s))"
proof (cases "zq_payload q")
  case (Decoded p)
  obtain out t where a: "gh_accept now wall (requested_handle wall q (fst p) (snd p)) s = (out, t)" by force
  then have idle: "cancels_idle s t" using accept_idle [of s now wall "requested_handle wall q (fst p) (snd p)"] by simp
  show ?thesis
  proof (cases out)
    case (Ok h)
    then have "snd (handle_goal_request now wall q s) = snd (gh_execute now wall h t)"
      using goal_request_accepted [OF Decoded] a by simp
    then show ?thesis using cancels_idle_trans [OF idle execute_idle [of t now wall h]] by simp
  qed (use idle a Decoded in \<open>simp_all add: handle_goal_request_def split_beta\<close>)
qed (simp_all add: handle_goal_request_def)

text \<open>No goal disappears.\<close>

definition goals_kept :: "('g, 'r) action_server \<Rightarrow> ('g, 'r) action_server \<Rightarrow> bool" where
  "goals_kept s s' \<longleftrightarrow> dom (goal_entry s) \<subseteq> dom (goal_entry s')"

lemma goals_kept_refl [simp]: "goals_kept s s"
  by (simp add: goals_kept_def)

lemma goals_kept_trans: "goals_kept s t \<Longrightarrow> goals_kept t u \<Longrightarrow> goals_kept s u"
  by (auto simp: goals_kept_def)

lemma goal_entry_fun: "goal_entry s = map_of (gm_goals (fst (results_of s)))"
  by (simp add: goal_entry_def results_of_def fun_eq_iff)

lemma goals_kept_results: "results_of s' = results_of s \<Longrightarrow> goals_kept s s'"
  by (simp add: goals_kept_def goal_entry_fun)

lemma goals_kept_entry: "results_of s' = results_of (set_goal s i st) \<Longrightarrow> goals_kept s s'"
  by (simp add: goals_kept_def goal_entry_fun results_of_goals update_conv') (auto simp: results_of_def)

lemma accept_kept: "goals_kept s (snd (gh_accept now wall h s))"
  using results_of_accept [of now wall h s] goals_kept_results goals_kept_entry by blast

lemma execute_kept: "goals_kept s (snd (gh_execute now wall h s))"
  using results_of_execute [of now wall h s] goals_kept_results goals_kept_entry by blast

lemma goal_request_kept: "goals_kept s (snd (handle_goal_request now wall q s))"
proof (cases "zq_payload q")
  case (Decoded p)
  obtain out t where a: "gh_accept now wall (requested_handle wall q (fst p) (snd p)) s = (out, t)" by force
  then have kept: "goals_kept s t" using accept_kept [of s now wall "requested_handle wall q (fst p) (snd p)"] by simp
  show ?thesis
  proof (cases out)
    case (Ok h)
    then have "snd (handle_goal_request now wall q s) = snd (gh_execute now wall h t)"
      using goal_request_accepted [OF Decoded] a by simp
    then show ?thesis using goals_kept_trans [OF kept execute_kept [of t now wall h]] by simp
  qed (use kept a Decoded in \<open>simp_all add: handle_goal_request_def split_beta\<close>)
qed (simp_all add: handle_goal_request_def)

lemma terminate_kept: "goals_kept s (snd (gh_terminate now wall h r st s))"
proof (cases "can_terminate now s")
  case True
  show ?thesis
    by (simp add: goals_kept_def goal_entry_fun results_of_terminate(2) [OF True] Let_def update_conv')
      (auto simp: results_of_def)
next
  case False
  then show ?thesis by (simp add: terminate_panics goals_kept_results)
qed

lemma set_timeout_kept: "goals_kept s (snd (set_result_timeout t s))"
  by (simp add: set_result_timeout_def locked_def goals_kept_def goal_entry_fun results_of_def)

text \<open>The requests among the labels of a run, in order.\<close>

fun goal_arrivals :: "('g, 'r) driver_label list \<Rightarrow> (goal_id \<times> 'g) zquery list" where
  "goal_arrivals [] = []"
| "goal_arrivals (LGoalArrives q # ls) = q # goal_arrivals ls"
| "goal_arrivals (_ # ls) = goal_arrivals ls"

fun cancel_arrivals :: "('g, 'r) driver_label list \<Rightarrow> goal_info zquery list" where
  "cancel_arrivals [] = []"
| "cancel_arrivals (LCancelArrives q # ls) = q # cancel_arrivals ls"
| "cancel_arrivals (_ # ls) = cancel_arrivals ls"

fun result_arrivals :: "('g, 'r) driver_label list \<Rightarrow> goal_id zquery list" where
  "result_arrivals [] = []"
| "result_arrivals (LResultArrives q # ls) = q # result_arrivals ls"
| "result_arrivals (_ # ls) = result_arrivals ls"

definition pushes :: "'a list \<Rightarrow> 'a bounded_queue \<Rightarrow> 'a bounded_queue" where
  "pushes xs b = fold (\<lambda>x b. snd (bq_push b x)) xs b"

lemma pushes_append: "pushes ys (pushes xs b) = pushes (xs @ ys) b"
  by (simp add: pushes_def)

lemma arrivals_Cons:
  "goal_arrivals (l # ls) = goal_arrivals [l] @ goal_arrivals ls"
  "cancel_arrivals (l # ls) = cancel_arrivals [l] @ cancel_arrivals ls"
  "result_arrivals (l # ls) = result_arrivals [l] @ result_arrivals ls"
  by (cases l; simp)+

lemma sv_step_notified: "sv_step s s' \<Longrightarrow> fst ` set (sv_notified s) \<subseteq> fst ` set (sv_notified s')"
proof -
  have proj: "sv_notified t = snd (snd (results_of t))" for t :: "('a, 'b) action_server" by (simp add: results_of_def)
  assume "sv_step s s'"
  then show ?thesis
  proof cases
    case (accepts now wall h)
    then show ?thesis using results_of_accept [of now wall h s] unfolding proj results_of_goals by auto
  next
    case (executes now wall h)
    then show ?thesis using results_of_execute [of now wall h s] unfolding proj results_of_goals by auto
  next
    case (terminates st now wall h r)
    show ?thesis
    proof (cases "can_terminate now s")
      case True
      then show ?thesis using terminates unfolding proj by (simp add: results_of_terminate(2) Let_def) (auto simp: results_of_def)
    qed (use terminates in \<open>simp add: proj terminate_panics\<close>)
  next
    case (asks_legacy i)
    then show ?thesis by (simp add: result_legacy_def locked_def add_waiter_def Let_def split: option.splits server_goal_state.splits)
  next
    case (asks_driver i)
    then show ?thesis by (simp add: result_driver_def locked_def add_waiter_def Let_def split: option.splits server_goal_state.splits)
  next
    case (expires now wall)
    then show ?thesis unfolding proj by (simp add: results_of_expire) (simp add: results_of_def)
  qed (simp_all add: proj set_result_timeout_def locked_def, simp_all add: results_of_def)
qed

lemma drv_run_notified:
  assumes "drv_run ls d = Some d'" and "w \<notin> fst ` set (sv_notified (ds_server d'))"
  shows "w \<notin> fst ` set (sv_notified (ds_server d))"
proof -
  have "fst ` set (sv_notified s) \<subseteq> fst ` set (sv_notified s')" if "sv_step\<^sup>*\<^sup>* s s'" for s s' :: "('a, 'b) action_server"
    using that by (induction rule: rtranclp_induct) (use sv_step_notified in blast)+
  then have "fst ` set (sv_notified (ds_server d)) \<subseteq> fst ` set (sv_notified (ds_server d'))"
    using drv_run_invariant [OF assms(1), of "\<lambda>e. sv_step\<^sup>*\<^sup>* (ds_server d) (ds_server e)"] drv_step_steps
    by (meson rtranclp.rtrancl_refl rtranclp_trans)
  with assms(2) show ?thesis by blast
qed

lemma waiting_step:
  assumes "drv_step l d = Some d'" and "ds_pc d = DAwaiting w q" and "w \<notin> fst ` set (sv_notified (ds_server d))"
  shows "ds_pc d' = DAwaiting w q" and "goals_kept (ds_server d) (ds_server d')"
    and "sv_goal_queue (ds_server d') = pushes (goal_arrivals [l]) (sv_goal_queue (ds_server d))"
    and "sv_result_queue (ds_server d') = pushes (result_arrivals [l]) (sv_result_queue (ds_server d))"
    and "length (ds_tasks d') = length (ds_tasks d)"
    and "(\<And>k. l \<noteq> LPoll k) \<Longrightarrow> cancels_idle (ds_server d) (ds_server d') \<and>
       sv_cancel_queue (ds_server d') = pushes (cancel_arrivals [l]) (sv_cancel_queue (ds_server d))"
proof -
  have "ds_pc d' = DAwaiting w q \<and> goals_kept (ds_server d) (ds_server d') \<and>
      sv_goal_queue (ds_server d') = pushes (goal_arrivals [l]) (sv_goal_queue (ds_server d)) \<and>
      sv_result_queue (ds_server d') = pushes (result_arrivals [l]) (sv_result_queue (ds_server d)) \<and>
      length (ds_tasks d') = length (ds_tasks d) \<and>
      ((\<exists>k. l = LPoll k) \<or> cancels_idle (ds_server d) (ds_server d') \<and>
         sv_cancel_queue (ds_server d') = pushes (cancel_arrivals [l]) (sv_cancel_queue (ds_server d)))"
  proof (cases l)
    case (LStart now wall k)
    with assms(1) have "task_start now wall k d = Some d'" by simp
    then obtain gq v where
      "ds_server d' = snd (handle_goal_request now wall gq (ds_server d))" "ds_pc d' = ds_pc d" "ds_tasks d' = (ds_tasks d)[k := v]"
      by (rule task_start_server)
    then show ?thesis
      using LStart assms(2) goal_request_idle [of "ds_server d" now wall gq] goal_request_kept [of "ds_server d" now wall gq]
        queues_of_goal_request [of now wall gq "ds_server d"]
      by (simp add: pushes_def queues_of_def)
  next
    case LNotified
    moreover have "map_of (sv_notified (ds_server d)) w = None" using assms(3) by (simp add: map_of_eq_None_iff)
    ultimately show ?thesis using assms(1,2) by (simp add: on_notified_def)
  next
    case (LPoll k)
    with assms(1) have "task_poll k d = Some d'" by simp
    then obtain h s where p: "ds_pc d' = ds_pc d" "s = snd (try_process_cancel h (ds_server d))"
      "ds_server d' = s \<or> ds_server d' = close_channel (gh_cancel_rx h) s" "length (ds_tasks d') = length (ds_tasks d)"
      by (rule task_poll_server) (auto split: if_splits)
    have "results_of s = results_of (ds_server d)" using p(2) by simp
    with p(3) have "goals_kept (ds_server d) (ds_server d')" by (auto intro: goals_kept_results)
    moreover have "sv_goal_queue (ds_server d') = sv_goal_queue s" "sv_result_queue (ds_server d') = sv_result_queue s"
      using p(3) queues_of_ops(5) [of "gh_cancel_rx h" s] by (auto simp: queues_of_def)
    moreover have "sv_goal_queue s = sv_goal_queue (ds_server d)" "sv_result_queue s = sv_result_queue (ds_server d)"
      using queues_of_poll [of h "ds_server d"] p(2) drain_queues [of "ds_server d"] by (auto simp: queues_of_def split: if_splits)
    ultimately show ?thesis using LPoll p(1,4) assms(2) by (simp add: pushes_def)
  next
    case (LFinish now wall k r st)
    with assms(1) have "task_finish now wall k r st d = Some d'" by simp
    then obtain h v where "ds_pc d' = ds_pc d" "ds_server d' = snd (gh_terminate now wall h r st (ds_server d))"
      "ds_tasks d' = (ds_tasks d)[k := v]"
      by (rule task_finish_server)
    then show ?thesis
      using LFinish assms(2) terminate_idle [of "ds_server d" now wall h r st] terminate_kept [of "ds_server d" now wall h r st]
        queues_of_handles(3) [of now wall h r st "ds_server d"]
      by (simp add: pushes_def queues_of_def)
  next
    case (LSetTimeout t)
    then have "ds_server d' = snd (set_result_timeout t (ds_server d))" "ds_pc d' = ds_pc d" "ds_tasks d' = ds_tasks d"
      using assms(1) by auto
    then show ?thesis
      using LSetTimeout assms(2) set_timeout_kept [of "ds_server d" t] queues_of_handles(5) [of t "ds_server d"]
      by (simp add: pushes_def queues_of_def) (simp add: set_result_timeout_def locked_def cancels_idle_def cancel_replies_def)
  next
    case (LDrop k)
    with assms(1) have "task_drop k d = Some d' \<or> task_panic k d = Some d'" by simp
    then obtain h v where "executing_task k d = Some h" "ds_pc d' = ds_pc d"
      "ds_server d' = close_channel (gh_cancel_rx h) (ds_server d)" "ds_tasks d' = (ds_tasks d)[k := v]"
      "v = TFinished \<or> v = TPanicked \<and> task_panic k d = Some d'"
      by (rule task_end_server)
    then show ?thesis
      using LDrop assms(2) close_idle queues_of_ops(5) [of "gh_cancel_rx h" "ds_server d"]
      by (simp add: pushes_def queues_of_def goals_kept_results)
  next
    case (LPanic k)
    with assms(1) have "task_drop k d = Some d' \<or> task_panic k d = Some d'" by simp
    then obtain h v where "executing_task k d = Some h" "ds_pc d' = ds_pc d"
      "ds_server d' = close_channel (gh_cancel_rx h) (ds_server d)" "ds_tasks d' = (ds_tasks d)[k := v]"
      "v = TFinished \<or> v = TPanicked \<and> task_panic k d = Some d'"
      by (rule task_end_server)
    then show ?thesis
      using LPanic assms(2) close_idle queues_of_ops(5) [of "gh_cancel_rx h" "ds_server d"]
      by (simp add: pushes_def queues_of_def goals_kept_results)
  qed (use assms in \<open>auto simp: on_shutdown_def on_join_def on_tick_def on_goal_def on_cancel_def on_result_def
      pushes_def with_server_def cancels_idle_def cancel_replies_def goals_kept_def goal_entry_def\<close>)
  then show "ds_pc d' = DAwaiting w q" "goals_kept (ds_server d) (ds_server d')"
    "sv_goal_queue (ds_server d') = pushes (goal_arrivals [l]) (sv_goal_queue (ds_server d))"
    "sv_result_queue (ds_server d') = pushes (result_arrivals [l]) (sv_result_queue (ds_server d))"
    "length (ds_tasks d') = length (ds_tasks d)"
    "(\<And>k. l \<noteq> LPoll k) \<Longrightarrow> cancels_idle (ds_server d) (ds_server d') \<and>
       sv_cancel_queue (ds_server d') = pushes (cancel_arrivals [l]) (sv_cancel_queue (ds_server d))"
    by blast+
qed

text \<open>A waiter that is registered for a goal, or has been notified.\<close>

definition awaited :: "('g, 'r) action_server \<Rightarrow> nat \<Rightarrow> goal_id \<Rightarrow> bool" where
  "awaited s w i \<longleftrightarrow> w \<in> set (waiting_for s i) \<or> w \<in> fst ` set (sv_notified s)"

lemma awaited_results: "snd (results_of s) = snd (results_of s') \<Longrightarrow>
    gm_result_futures (fst (results_of s)) = gm_result_futures (fst (results_of s')) \<Longrightarrow> awaited s = awaited s'"
  by (simp add: results_of_def awaited_def waiting_for_def fun_eq_iff)

lemma awaited_step: "sv_step s s' \<Longrightarrow> awaited s w i \<Longrightarrow> awaited s' w i"
proof -
  assume "sv_step s s'" and aw: "awaited s w i"
  then show "awaited s' w i"
  proof cases
    case (accepts now wall h)
    then show ?thesis using results_of_accept [of now wall h s] aw awaited_results [of s' s] unfolding results_of_goals by (auto simp: results_of_def)
  next
    case (executes now wall h)
    then show ?thesis using results_of_execute [of now wall h s] aw awaited_results [of s' s] unfolding results_of_goals by (auto simp: results_of_def)
  next
    case (terminates st now wall h r)
    show ?thesis
    proof (cases "can_terminate now s")
      case False
      then have "results_of s' = results_of s" using terminates by (simp add: terminate_panics)
      then show ?thesis using aw awaited_results [of s' s] by simp
    next
      case True
      have p: "gm_result_futures (sv_manager s') = AList.delete (gi_goal_id (gh_info h)) (gm_result_futures (sv_manager s))"
        "sv_notified s' = sv_notified s @ map (\<lambda>tx. (tx, r, st)) (waiting_for s (gi_goal_id (gh_info h)))"
        using results_of_terminate(2) [OF True, of wall h r st] terminates(1) by (simp_all add: results_of_def Let_def)
      show ?thesis
      proof (cases "i = gi_goal_id (gh_info h)")
        case True
        with aw show ?thesis unfolding awaited_def p(2) by (auto simp: image_Un image_image)
      next
        case False
        then have "waiting_for s' i = waiting_for s i" by (simp add: waiting_for_def p(1) delete_conv')
        with aw show ?thesis unfolding awaited_def p(2) by auto
      qed
    qed
  next
    case (asks_legacy j)
    then show ?thesis using aw
      by (auto simp: result_legacy_def locked_def add_waiter_def Let_def awaited_def waiting_for_def update_conv' split: option.splits server_goal_state.splits)
  next
    case (asks_driver j)
    then show ?thesis using aw
      by (auto simp: result_driver_def locked_def add_waiter_def Let_def awaited_def waiting_for_def update_conv' split: option.splits server_goal_state.splits)
  next
    case (expires now wall)
    then show ?thesis using aw awaited_results [of s' s] by (simp add: results_of_expire) (simp add: results_of_def)
  next
    case (sets_timeout t)
    then show ?thesis using aw awaited_results [of s' s] by (simp add: set_result_timeout_def locked_def results_of_def)
  qed (use aw awaited_results [of s' s] in simp_all)
qed

lemma awaited_steps: "sv_step\<^sup>*\<^sup>* s s' \<Longrightarrow> awaited s w i \<Longrightarrow> awaited s' w i"
  by (induction rule: rtranclp_induct) (auto intro: awaited_step)

lemma result_driver_awaited: "result_driver i s = (Ok (RWaiting w), s') \<Longrightarrow> awaited s' w i"
  using new_waiter [of i s w s'] by (simp add: awaited_def)

definition await_ok :: "('g, 'r) driver_system \<Rightarrow> bool" where
  "await_ok d \<longleftrightarrow>
     (\<forall>w q. ds_pc d = DAwaiting w q \<longrightarrow> (\<exists>i. zq_payload q = Decoded i \<and> awaited (ds_server d) w i))"

lemma loop_continues_pc: "ds_pc (loop_continues out d) \<noteq> DAwaiting w q"
  by (simp add: loop_continues_def crash_def split: prod.splits res.splits)

lemma result_request_await:
  assumes "ds_pc (handle_result_request q d) = DAwaiting w q'" and "ds_pc d = DSelect"
  shows "\<exists>i. zq_payload q' = Decoded i \<and> awaited (ds_server (handle_result_request q d)) w i"
proof (cases "zq_payload q")
  case (Decoded i)
  obtain out s where r: "result_driver i (ds_server d) = (out, s)" by force
  show ?thesis
  proof (cases "\<exists>v. out = Ok (RWaiting v)")
    case True
    then obtain v where v: "out = Ok (RWaiting v)" ..
    with Decoded r assms(1) have "q' = q" "v = w" by (simp_all add: handle_result_request_def)
    with Decoded r v show ?thesis using result_driver_awaited [of i "ds_server d" v s]
      by (simp add: handle_result_request_def)
  next
    case False
    then have "ds_pc (handle_result_request q d) \<noteq> DAwaiting w q'"
      using Decoded r assms(2)
      by (auto simp: handle_result_request_def loop_continues_pc crash_def split: res.split result_state.split)
    with assms(1) show ?thesis by blast
  qed
qed (use assms in \<open>simp_all add: handle_result_request_def crash_def\<close>)

lemma await_step:
  assumes "drv_step l d = Some d'" and "await_ok d"
  shows "await_ok d'"
  unfolding await_ok_def
proof (intro allI impI)
  fix w q
  assume pc: "ds_pc d' = DAwaiting w q"
  show "\<exists>i. zq_payload q = Decoded i \<and> awaited (ds_server d') w i"
  proof (cases "ds_pc d = DAwaiting w q")
    case True
    then show ?thesis using assms(2) awaited_steps [OF drv_step_steps [OF assms(1)]] unfolding await_ok_def by blast
  next
    case False
    have "l = LResult"
      using assms(1) pc False
      by (cases l) (auto simp: loop_continues_pc on_shutdown_def on_join_def on_tick_def on_goal_def on_cancel_def on_notified_def task_start_def
          task_poll_def task_finish_def task_drop_def task_panic_def with_server_def
          split: if_splits option.splits goal_task.splits driver_pc.splits prod.splits res.splits)
    with assms(1) obtain q0 s where "d' = handle_result_request q0 (with_server d s)" "ds_pc d = DSelect"
      by (auto simp: on_result_def split: driver_pc.splits option.splits)
    then show ?thesis using result_request_await pc by fastforce
  qed
qed

lemma drv_run_await: "drv_run ls (ds_new result_timeout goal_timeout depth) = Some d \<Longrightarrow> await_ok d"
  by (erule drv_run_invariant) (simp add: await_ok_def ds_new_def, rule await_step)

lemma map_of_append_left:
  assumes "w \<notin> fst ` set xs" and "w \<in> set ys"
  shows "map_of (xs @ map (\<lambda>t. (t, v)) ys) w = Some v"
proof -
  have "map_of xs w = None" using assms(1) by (simp add: map_of_eq_None_iff)
  moreover have "map_of (map (\<lambda>t. (t, v)) ys) w = Some v" using assms(2) by (induction ys) auto
  ultimately show ?thesis by (simp add: map_add_def)
qed

lemmas driver_defs = ds_new_def sv_new_def gm_new_def bq_new_def with_server_def bq_push_def bq_recv_def bq_try_recv_def
  on_goal_def on_result_def on_tick_def on_cancel_def task_start_def task_panic_def executing_task_def loop_continues_def
  handle_goal_request_def handle_result_request_def result_driver_def gh_accept_def gh_execute_def requested_handle_def
  goal_info_new_def enter_goal_def locked_def expiry_def instant_add_def max_instant_def cd_register_def set_goal_def
  goal_entry_def update_conv' add_waiter_def reply_unwrap_def publish_status_def close_channel_def expire_goals_def Let_def

section \<open>Properties\<close>



text \<open>
  A timeout that leads past the last instant. When a handler finishes its goal and the
  result timeout overflows the clock, the addition panics while the lock is held: the
  result is lost, the goal task has panicked, and the next tick of the expiration timer
  takes the poisoned lock and ends the loop with every goal that is still running.
\<close>

theorem timeout_overflow_kills_driver:
  assumes "ds_pc d = DSelect" and "executing_task k d = Some h" and "st \<in> {Succeeded, Aborted, Canceled}"
    and "max_instant < now + gm_result_timeout (sv_manager (ds_server d))"
  shows "\<exists>d'. drv_run [LFinish now wall k r st, LTick now' wall'] d = Some d' \<and> ds_pc d' = DCrashed \<and> ds_tasks d' = [] \<and>
    sv_poisoned (ds_server d') \<and> goal_entry (ds_server d') = goal_entry (ds_server d)"
proof -
  have np: "\<not> can_terminate now (ds_server d)" using assms(4) by (simp add: can_terminate_def)
  let ?s = "snd (gh_terminate now wall h r st (ds_server d))"
  let ?d = "d\<lparr>ds_server := ?s, ds_tasks := (ds_tasks d)[k := TPanicked]\<rparr>"
  note panics = terminate_panics [OF np, of wall h r st]
  have step: "drv_step (LFinish now wall k r st) d = Some ?d" using assms(2,3) by (simp add: task_finish_def panics)
  have s: "sv_poisoned ?s" "results_of ?s = results_of (ds_server d)"
    by (simp_all add: panics) (simp add: close_channel_def split: option.split)
  then have tick: "drv_step (LTick now' wall') ?d = Some (crash (with_server ?d ?s))"
    using assms(1) by (simp add: on_tick_def expire_goals_def locked_def loop_continues_def)
  have "results_of (ds_server (crash (with_server ?d ?s))) = results_of ?s" for ts :: "'a goal_task list"
    by (simp add: crash_def abort_all_def results_of_close_all)
  moreover have "sv_poisoned (ds_server (crash (with_server ?d ?s)))"
    using s(1) limits_of_close_all [of "\<lambda>t. task_rx t" "ds_tasks ?d" ?s] by (simp add: crash_def abort_all_def limits_of_def)
  ultimately show ?thesis using step tick s(2)
    by (auto simp: crash_def abort_all_def goal_entry_def results_of_def)
qed

lemma timeout_overflow_kills_driver_witness:
  "\<exists>d d'. drv_run [LGoalArrives \<lparr>zq_id = 0, zq_payload = Decoded ([1], ()), zq_attachment = GoodAttachment\<rparr>, LGoal, LStart 1 1 0]
      (ds_new (2 ^ 64 * 10 ^ 9) None 4 :: (unit, unit) driver_system) = Some d \<and>
     drv_run [LFinish 2 2 0 () Succeeded, LTick 3 3] d = Some d' \<and> ds_pc d' = DCrashed"
proof -
  obtain d h where d: "drv_run [LGoalArrives \<lparr>zq_id = 0, zq_payload = Decoded ([1], ()), zq_attachment = GoodAttachment\<rparr>, LGoal, LStart 1 1 0]
      (ds_new (2 ^ 64 * 10 ^ 9) None 4 :: (unit, unit) driver_system) = Some d" "ds_pc d = DSelect" "executing_task 0 d = Some h"
      "gm_result_timeout (sv_manager (ds_server d)) = 2 ^ 64 * 10 ^ 9"
    by (simp add: driver_defs)
  have "max_instant < 2 + gm_result_timeout (sv_manager (ds_server d))" by (simp add: d(4) max_instant_def)
  from timeout_overflow_kills_driver [OF d(2,3) _ this, of Succeeded 2 "()" 3 3] d(1) show ?thesis by auto
qed

text \<open>
  One remote cancel request without a payload, or a decodable one without a usable
  attachment, ends the driver loop and aborts every running goal: nothing serves the
  action afterwards.
\<close>

theorem malformed_cancel_kills_driver:
  assumes "ds_pc d = DSelect" and "bq_data (sv_cancel_queue (ds_server d)) = []"
    and "zq_payload q = NoPayload \<or> zq_payload q \<noteq> Malformed \<and> zq_attachment q \<noteq> GoodAttachment"
  shows "\<exists>d'. drv_run [LCancelArrives q, LCancel] d = Some d' \<and> ds_pc d' = DCrashed \<and> ds_tasks d' = [] \<and>
     (\<forall>l\<in>{LShutdown, LJoin k, LTick now wall, LGoal, LCancel, LResult, LNotified}. drv_step l d' = None)"
proof -
  let ?s = "(ds_server d)\<lparr>sv_cancel_queue := snd (bq_push (sv_cancel_queue (ds_server d)) q)\<rparr>"
  have recv: "\<exists>rest. bq_recv (sv_cancel_queue ?s) = Some (q, rest)"
    using assms(2) by (simp add: bq_push_def bq_recv_def bq_try_recv_def Let_def)
  then obtain rest where rest: "bq_recv (sv_cancel_queue ?s) = Some (q, rest)" ..
  have panic: "fst (handle_cancel_request q s) = Panic" for s :: "('a, 'b) action_server"
    using assms(3) by (cases "zq_payload q")
      (auto simp: handle_cancel_request_def request_cancel_def locked_def reply_unwrap_def
        split: option.split server_goal_state.split)
  obtain s where out: "handle_cancel_request q (?s\<lparr>sv_cancel_queue := rest\<rparr>) = (Panic, s)"
    using panic by (metis prod.collapse)
  let ?d = "crash (with_server (with_server d ?s) s)"
  have "drv_run [LCancelArrives q, LCancel] d = Some ?d"
    using rest out assms(1) by (simp add: on_cancel_def loop_continues_def)
  moreover have "ds_pc ?d = DCrashed" "ds_tasks ?d = []" by (simp_all add: crash_def abort_all_def)
  moreover from this have "\<forall>l\<in>{LShutdown, LJoin k, LTick now wall, LGoal, LCancel, LResult, LNotified}. drv_step l ?d = None"
    by (simp add: on_shutdown_def on_join_def on_tick_def on_goal_def on_cancel_def on_result_def on_notified_def)
  ultimately show ?thesis by blast
qed

lemma malformed_cancel_kills_driver_witness:
  "\<exists>d'. drv_run [LCancelArrives \<lparr>zq_id = 0, zq_payload = NoPayload, zq_attachment = GoodAttachment\<rparr>, LCancel]
     (ds_new 10 None 4 :: (unit, unit) driver_system) = Some d' \<and> ds_pc d' = DCrashed"
  using malformed_cancel_kills_driver [of "ds_new 10 None 4 :: (unit, unit) driver_system"
      "\<lparr>zq_id = 0, zq_payload = NoPayload, zq_attachment = GoodAttachment\<rparr>" 0 0 0]
  by (simp add: ds_new_def sv_new_def bq_new_def) blast

text \<open>
  C24: a result request for a goal that has not finished stops the driver loop until that
  goal finishes. Until the waiter is notified, however long the run, whatever arrives and
  whatever the goal tasks do, the loop takes no goal or result request (the queues only
  fill up, dropping their oldest requests), spawns and reaps no task, does not react to
  shutdown, and no goal expires: every goal entry stays. As long as no goal handler drains
  the shared cancel queue itself with \<open>try_process_cancel\<close>, the cancel requests pile up
  too, no cancel flag changes and no cancel request is answered.
\<close>

theorem driver_blocked_by_result_request:
  assumes "drv_run ls d = Some d'" and "ds_pc d = DAwaiting w q" and "w \<notin> fst ` set (sv_notified (ds_server d'))"
  shows "ds_pc d' = DAwaiting w q \<and>
    sv_goal_queue (ds_server d') = pushes (goal_arrivals ls) (sv_goal_queue (ds_server d)) \<and>
    sv_result_queue (ds_server d') = pushes (result_arrivals ls) (sv_result_queue (ds_server d)) \<and>
    length (ds_tasks d') = length (ds_tasks d) \<and>
    dom (goal_entry (ds_server d)) \<subseteq> dom (goal_entry (ds_server d')) \<and>
    ((\<forall>k. LPoll k \<notin> set ls) \<longrightarrow>
       sv_cancel_queue (ds_server d') = pushes (cancel_arrivals ls) (sv_cancel_queue (ds_server d)) \<and>
       take (length (sv_flags (ds_server d))) (sv_flags (ds_server d')) = sv_flags (ds_server d) \<and>
       cancel_replies (ds_server d') = cancel_replies (ds_server d))"
proof -
  have "ds_pc d' = DAwaiting w q \<and>
      sv_goal_queue (ds_server d') = pushes (goal_arrivals ls) (sv_goal_queue (ds_server d)) \<and>
      sv_result_queue (ds_server d') = pushes (result_arrivals ls) (sv_result_queue (ds_server d)) \<and>
      length (ds_tasks d') = length (ds_tasks d) \<and> goals_kept (ds_server d) (ds_server d') \<and>
      ((\<forall>k. LPoll k \<notin> set ls) \<longrightarrow>
         sv_cancel_queue (ds_server d') = pushes (cancel_arrivals ls) (sv_cancel_queue (ds_server d)) \<and>
         cancels_idle (ds_server d) (ds_server d'))"
    using assms
  proof (induction ls arbitrary: d)
    case Nil
    then show ?case by (simp add: pushes_def)
  next
    case (Cons l ls)
    then obtain e where e: "drv_step l d = Some e" "drv_run ls e = Some d'" by (auto split: option.splits)
    have "w \<notin> fst ` set (sv_notified (ds_server d))" by (rule drv_run_notified [OF Cons.prems(1,3)])
    note step = waiting_step [OF e(1) Cons.prems(2) this]
    note rest = Cons.IH [OF e(2) step(1) Cons.prems(3)]
    have "cancels_idle (ds_server d) (ds_server d') \<and>
        sv_cancel_queue (ds_server d') = pushes (cancel_arrivals (l # ls)) (sv_cancel_queue (ds_server d))"
      if "\<forall>k. LPoll k \<notin> set (l # ls)"
    proof -
      have "l \<noteq> LPoll k" for k using that by auto
      note first = step(6) [OF this]
      have "cancels_idle (ds_server e) (ds_server d') \<and>
          sv_cancel_queue (ds_server d') = pushes (cancel_arrivals ls) (sv_cancel_queue (ds_server e))"
        using rest that by simp
      with first show ?thesis unfolding arrivals_Cons(2) [of l ls]
        using cancels_idle_trans by (auto simp flip: pushes_append)
    qed
    moreover have "goals_kept (ds_server d) (ds_server d')" using goals_kept_trans [OF step(2)] rest by blast
    ultimately show ?case
      using step(3,4,5) rest unfolding arrivals_Cons(1,3) [of l ls] pushes_append [symmetric] by simp
  qed
  then show ?thesis by (simp add: cancels_idle_def goals_kept_def)
qed

lemma driver_blocked_by_result_request_witness:
  "map_option ds_pc (drv_run
      [LGoalArrives \<lparr>zq_id = 0, zq_payload = Decoded ([1], ()), zq_attachment = GoodAttachment\<rparr>, LGoal, LStart 1 1 0,
       LResultArrives \<lparr>zq_id = 1, zq_payload = Decoded [1], zq_attachment = GoodAttachment\<rparr>, LResult,
       LCancelArrives \<lparr>zq_id = 2, zq_payload = Decoded (goal_info_new 0 [1]), zq_attachment = GoodAttachment\<rparr>, LShutdownRequested]
      (ds_new 10 None 4 :: (unit, unit) driver_system)) =
   Some (DAwaiting 0 \<lparr>zq_id = 1, zq_payload = Decoded [1], zq_attachment = GoodAttachment\<rparr>)"
proof -
  let ?q = "\<lparr>zq_id = 1, zq_payload = Decoded [1], zq_attachment = GoodAttachment\<rparr> :: goal_id zquery"
  let ?ls = "[LGoalArrives \<lparr>zq_id = 0, zq_payload = Decoded ([1], ()), zq_attachment = GoodAttachment\<rparr>, LGoal, LStart 1 1 0,
       LResultArrives ?q, LResult] :: (unit, unit) driver_label list"
  let ?ms = "[LCancelArrives \<lparr>zq_id = 2, zq_payload = Decoded (goal_info_new 0 [1]), zq_attachment = GoodAttachment\<rparr>,
      LShutdownRequested] :: (unit, unit) driver_label list"
  obtain d where d: "drv_run ?ls (ds_new 10 None 4) = Some d" "ds_pc d = DAwaiting 0 ?q" "sv_notified (ds_server d) = []"
    by (simp add: driver_defs)
  obtain d' where d': "drv_run ?ms d = Some d'" "sv_notified (ds_server d') = []" using d(3) by (simp add: with_server_def)
  have "ds_pc d' = DAwaiting 0 ?q"
    using driver_blocked_by_result_request [OF d'(1) d(2)] d'(2) by simp
  then show ?thesis using d(1) d'(1) by (auto split: option.splits)
qed

text \<open>
  The driver answers. When the loop awaits a waiter that has not been notified, the
  client's query named a goal, and as soon as the task of that goal finishes with any
  result and terminal status (without overflowing the clock), the loop can go on: it sends exactly one reply, with that
  result and status, to the query it was holding and returns to its select.
\<close>

theorem awaiting_driver_answers:
  assumes "drv_run ls (ds_new result_timeout goal_timeout depth) = Some d"
    and "ds_pc d = DAwaiting w q" and "w \<notin> fst ` set (sv_notified (ds_server d))"
    and "zq_attachment q = GoodAttachment"
    and "executing_task k d = Some h" and "zq_payload q = Decoded (gi_goal_id (gh_info h))"
    and "st \<in> {Succeeded, Aborted, Canceled}" and "can_terminate now (ds_server d)"
  shows "\<exists>d' d''. drv_step (LFinish now wall k r st) d = Some d' \<and> drv_step LNotified d' = Some d'' \<and> ds_pc d'' = DSelect \<and>
    sv_replies (ds_server d'') = sv_replies (ds_server d) @ [(zq_id q, ResultReply (status_i8 st) r)]"
proof -
  let ?s = "snd (gh_terminate now wall h r st (ds_server d))"
  let ?d' = "d\<lparr>ds_server := ?s, ds_tasks := (ds_tasks d)[k := TFinished]\<rparr>"
  have "awaited (ds_server d) w (gi_goal_id (gh_info h))"
    using drv_run_await [OF assms(1)] assms(2,6) by (simp add: await_ok_def)
  then have waits: "w \<in> set (waiting_for (ds_server d) (gi_goal_id (gh_info h)))" using assms(3) by (simp add: awaited_def)
  have "sv_notified ?s = sv_notified (ds_server d) @ map (\<lambda>tx. (tx, r, st)) (waiting_for (ds_server d) (gi_goal_id (gh_info h)))"
    using results_of_terminate(2) [OF assms(8), of wall h r st] by (simp add: results_of_def Let_def)
  with map_of_append_left [OF assms(3) waits] have "map_of (sv_notified ?s) w = Some (r, st)" by simp
  then have "drv_step LNotified ?d' = Some (loop_continues (reply_result q r st ?s) ?d')"
    using assms(2) by (simp add: on_notified_def)
  moreover have "drv_step (LFinish now wall k r st) d = Some ?d'" 
    using assms(5,7) results_of_terminate(1) [OF assms(8), of wall h r st] by (auto simp: task_finish_def split_beta)
  moreover have "sv_replies ?s = sv_replies (ds_server d)"
    using assms(8)
    by (simp add: gh_terminate_def Let_def locked_def can_terminate_def instant_add_def close_channel_def publish_status_def
        set_goal_def split: option.split) (simp add: cd_deregister_def)
  then have "ds_pc (loop_continues (reply_result q r st ?s) ?d') = DSelect \<and>
      sv_replies (ds_server (loop_continues (reply_result q r st ?s) ?d')) =
        sv_replies (ds_server d) @ [(zq_id q, ResultReply (status_i8 st) r)]"
    using assms(4) by (simp add: loop_continues_def reply_result_def reply_unwrap_def with_server_def)
  ultimately show ?thesis by blast
qed

lemma awaiting_driver_answers_witness:
  "\<exists>d d' d''. drv_run
      [LGoalArrives \<lparr>zq_id = 0, zq_payload = Decoded ([1], ()), zq_attachment = GoodAttachment\<rparr>, LGoal, LStart 1 1 0,
       LResultArrives \<lparr>zq_id = 1, zq_payload = Decoded [1], zq_attachment = GoodAttachment\<rparr>, LResult]
      (ds_new 10 None 4 :: (unit, string) driver_system) = Some d \<and>
     drv_step (LFinish 7 7 0 ''done'' Succeeded) d = Some d' \<and> drv_step LNotified d' = Some d'' \<and> ds_pc d'' = DSelect"
proof -
  let ?q = "\<lparr>zq_id = 1, zq_payload = Decoded [1], zq_attachment = GoodAttachment\<rparr> :: goal_id zquery"
  let ?ls = "[LGoalArrives \<lparr>zq_id = 0, zq_payload = Decoded ([1], ()), zq_attachment = GoodAttachment\<rparr>, LGoal, LStart 1 1 0,
       LResultArrives ?q, LResult] :: (unit, string) driver_label list"
  obtain d h where d: "drv_run ?ls (ds_new 10 None 4) = Some d" "ds_pc d = DAwaiting 0 ?q" "sv_notified (ds_server d) = []"
    "executing_task 0 d = Some h" "gi_goal_id (gh_info h) = [1]" "can_terminate 7 (ds_server d)"
    by (simp add: driver_defs can_terminate_def)
  then show ?thesis
    using awaiting_driver_answers [OF d(1,2) _ _ d(4) _ _ d(6), of Succeeded 7 "''done''"] by simp blast
qed

end
