(* ===== verification/Action_Client.thy ===== *)
theory Action_Client
  imports Action_Messages "HOL-Library.AList"
begin

text \<open>
  The action client (\<open>hiroz/src/action/client.rs\<close>): the board of active goals, to whose channels
  the feedback and status callbacks route what arrives, and the operations of the client and
  of its goal handles. The service calls are the events that end them; what the server
  answers is their argument. An unbounded feedback channel is the list of what was sent into
  it. The watch channels of tokio are a parameter, a record of operations; what their
  documentation says of them is the locale \<open>watch_lib\<close>, in particular that \<open>send\<close> without a
  receiver fails and leaves the value as it is.

  Shown: which goals the board holds after any sequence of events, that every goal gets
  exactly its own feedback in order, what its status is, and when the status goes stale.
\<close>

section \<open>State\<close>

text \<open>
  \<open>tokio::sync::watch\<close>: a channel with one receiver, \<open>send\<close>, \<open>send_if_modified\<close> with what the closure
  makes of the value (\<open>None\<close>: not modified), \<open>subscribe\<close>, the drop of a receiver, the current
  value and the number of receivers.
\<close>

record 'w watch_ops =
  wo_channel :: "goal_status \<Rightarrow> 'w"
  wo_send :: "goal_status \<Rightarrow> 'w \<Rightarrow> 'w"
  wo_send_if_modified :: "(goal_status \<Rightarrow> goal_status option) \<Rightarrow> 'w \<Rightarrow> 'w"
  wo_subscribe :: "'w \<Rightarrow> 'w"
  wo_drop_receiver :: "'w \<Rightarrow> 'w"
  wo_value :: "'w \<Rightarrow> goal_status"
  wo_receivers :: "'w \<Rightarrow> nat"

record goal_channels =
  gc_feedback_tx :: nat
  gc_status_tx :: nat

record ('f, 'w) action_client =
  ac_active_goals :: "(goal_id \<times> goal_channels) list"
  ac_feedback :: "'f list list"
  ac_status :: "'w list"

definition ac_new :: "('f, 'w) action_client" where
  "ac_new = \<lparr>ac_active_goals = [], ac_feedback = [], ac_status = []\<rparr>"

text \<open>A handle: the goal and the receivers not yet taken out of it.\<close>

record client_goal_handle =
  ch_id :: goal_id
  ch_feedback_rx :: "nat option"
  ch_status_rx :: "nat option"

definition handle_feedback :: "client_goal_handle \<Rightarrow> nat option \<times> client_goal_handle" where
  "handle_feedback h = (ch_feedback_rx h, h\<lparr>ch_feedback_rx := None\<rparr>)"

definition handle_status_watch :: "client_goal_handle \<Rightarrow> nat option \<times> client_goal_handle" where
  "handle_status_watch h = (ch_status_rx h, h\<lparr>ch_status_rx := None\<rparr>)"

section \<open>Operations\<close>

definition watch_seed :: "goal_status \<Rightarrow> goal_status option" where
  "watch_seed st = (if st = Unknown then Some Accepted else None)"

definition on_status_channel :: "goal_id \<Rightarrow> ('w \<Rightarrow> 'w) \<Rightarrow> ('f, 'w) action_client \<Rightarrow> ('f, 'w) action_client" where
  "on_status_channel g f c =
     (case map_of (ac_active_goals c) g of
        None \<Rightarrow> c
      | Some ch \<Rightarrow> c\<lparr>ac_status := (ac_status c)[gc_status_tx ch := f (ac_status c ! gc_status_tx ch)]\<rparr>)"

definition remove_goal :: "goal_id \<Rightarrow> ('f, 'w) action_client \<Rightarrow> ('f, 'w) action_client" where
  "remove_goal g c = c\<lparr>ac_active_goals := AList.delete g (ac_active_goals c)\<rparr>"

text \<open>\<open>send_goal\<close> up to the service call: new channels, held by the board and by the caller.\<close>

definition send_goal_start :: "'w watch_ops \<Rightarrow> goal_id \<Rightarrow> ('f, 'w) action_client \<Rightarrow> client_goal_handle \<times> ('f, 'w) action_client" where
  "send_goal_start W g c =
     (let fb = length (ac_feedback c); st = length (ac_status c) in
      (\<lparr>ch_id = g, ch_feedback_rx = Some fb, ch_status_rx = Some st\<rparr>,
       c\<lparr>ac_feedback := ac_feedback c @ [[]],
         ac_status := ac_status c @ [wo_channel W Unknown],
         ac_active_goals := AList.update g \<lparr>gc_feedback_tx = fb, gc_status_tx = st\<rparr> (ac_active_goals c)\<rparr>))"

datatype goal_response = CallFailed | Response send_goal_response

datatype client_error = CallError | GoalRejected

text \<open>The rest of \<open>send_goal\<close>, with the answer of the service.\<close>

definition send_goal_finish ::
  "'w watch_ops \<Rightarrow> client_goal_handle \<Rightarrow> goal_response \<Rightarrow> ('f, 'w) action_client \<Rightarrow> (client_goal_handle, client_error) res \<times> ('f, 'w) action_client" where
  "send_goal_finish W h r c =
     (case r of
        CallFailed \<Rightarrow> (Err CallError, remove_goal (ch_id h) c)
      | Response response \<Rightarrow>
          if \<not> sgr_accepted response then (Err GoalRejected, remove_goal (ch_id h) c)
          else (Ok h, on_status_channel (ch_id h) (wo_send_if_modified W watch_seed) c))"

definition on_feedback :: "goal_id \<Rightarrow> 'f \<Rightarrow> ('f, 'w) action_client \<Rightarrow> ('f, 'w) action_client" where
  "on_feedback g f c =
     (case map_of (ac_active_goals c) g of
        None \<Rightarrow> c
      | Some ch \<Rightarrow> c\<lparr>ac_feedback := (ac_feedback c)[gc_feedback_tx ch := ac_feedback c ! gc_feedback_tx ch @ [f]]\<rparr>)"

definition on_status :: "'w watch_ops \<Rightarrow> status_message \<Rightarrow> ('f, 'w) action_client \<Rightarrow> ('f, 'w) action_client" where
  "on_status W msg c =
     foldl (\<lambda>c info. on_status_channel (gi_goal_id (gsi_goal_info info)) (wo_send W (gsi_status info)) c) c (sm_status_list msg)"

definition feedback_stream :: "goal_id \<Rightarrow> ('f, 'w) action_client \<Rightarrow> nat option \<times> ('f, 'w) action_client" where
  "feedback_stream g c =
     (case map_of (ac_active_goals c) g of
        None \<Rightarrow> (None, c)
      | Some ch \<Rightarrow>
          (Some (length (ac_feedback c)),
           c\<lparr>ac_feedback := ac_feedback c @ [[]],
             ac_active_goals := AList.update g (ch\<lparr>gc_feedback_tx := length (ac_feedback c)\<rparr>) (ac_active_goals c)\<rparr>))"

definition status_watch :: "'w watch_ops \<Rightarrow> goal_id \<Rightarrow> ('f, 'w) action_client \<Rightarrow> nat option \<times> ('f, 'w) action_client" where
  "status_watch W g c =
     (case map_of (ac_active_goals c) g of
        None \<Rightarrow> (None, c)
      | Some ch \<Rightarrow> (Some (gc_status_tx ch), on_status_channel g (wo_subscribe W) c))"

text \<open>The end of \<open>result\<close> and of \<open>result_with_timeout\<close>, whatever the call returned.\<close>

definition goal_result :: "goal_id \<Rightarrow> ('r, 'e) res \<Rightarrow> ('f, 'w) action_client \<Rightarrow> ('r, 'e) res \<times> ('f, 'w) action_client" where
  "goal_result g res c = (res, remove_goal g c)"

text \<open>What \<open>cancel_goal\<close> and \<open>cancel_all_goals\<close> ask of the server; \<open>ns\<close> is the wall clock.\<close>

definition client_cancel_goal :: "nat \<Rightarrow> goal_id \<Rightarrow> cancel_goal_request" where
  "client_cancel_goal ns g = \<lparr>cgr_goal_info = goal_info_new ns g\<rparr>"

definition client_cancel_all_goals :: cancel_goal_request where
  "client_cancel_all_goals = \<lparr>cgr_goal_info = \<lparr>gi_goal_id = replicate 16 0, gi_stamp = time_zero\<rparr>\<rparr>"

section \<open>Sequences of events\<close>

datatype 'f client_event =
    EvSend goal_id
  | EvResponse goal_id goal_response
  | EvFeedback goal_id 'f
  | EvStatus status_message
  | EvFeedbackStream goal_id
  | EvStatusWatch goal_id
  | EvDropStatus goal_id
  | EvResult goal_id

fun client_apply :: "'w watch_ops \<Rightarrow> 'f client_event \<Rightarrow> ('f, 'w) action_client \<Rightarrow> ('f, 'w) action_client" where
  "client_apply W (EvSend g) c = snd (send_goal_start W g c)"
| "client_apply W (EvResponse g r) c = snd (send_goal_finish W \<lparr>ch_id = g, ch_feedback_rx = None, ch_status_rx = None\<rparr> r c)"
| "client_apply W (EvFeedback g f) c = on_feedback g f c"
| "client_apply W (EvStatus msg) c = on_status W msg c"
| "client_apply W (EvFeedbackStream g) c = snd (feedback_stream g c)"
| "client_apply W (EvStatusWatch g) c = snd (status_watch W g c)"
| "client_apply W (EvDropStatus g) c = on_status_channel g (wo_drop_receiver W) c"
| "client_apply W (EvResult g) c = snd (goal_result g (Ok () :: (unit, unit) res) c)"

definition client_run :: "'w watch_ops \<Rightarrow> 'f client_event list \<Rightarrow> ('f, 'w) action_client \<Rightarrow> ('f, 'w) action_client" where
  "client_run W es c = foldl (\<lambda>c e. client_apply W e c) c es"

section \<open>What becomes of a goal\<close>

fun ends_goal :: "goal_id \<Rightarrow> 'f client_event \<Rightarrow> bool" where
  "ends_goal g (EvResponse g' r) = (g' = g \<and> (case r of CallFailed \<Rightarrow> True | Response p \<Rightarrow> \<not> sgr_accepted p))"
| "ends_goal g (EvResult g') = (g' = g)"
| "ends_goal g _ = False"

fun starts_goal :: "goal_id \<Rightarrow> 'f client_event \<Rightarrow> bool" where
  "starts_goal g (EvSend g') = (g' = g)"
| "starts_goal g _ = False"

definition goal_active :: "goal_id \<Rightarrow> 'f client_event list \<Rightarrow> bool" where
  "goal_active g es = foldl (\<lambda>a e. (a \<or> starts_goal g e) \<and> \<not> ends_goal g e) False es"

fun feedback_of :: "goal_id \<Rightarrow> 'f client_event \<Rightarrow> 'f list" where
  "feedback_of g (EvFeedback g' f) = (if g' = g then [f] else [])"
| "feedback_of g _ = []"

fun status_step :: "goal_id \<Rightarrow> goal_status \<Rightarrow> 'f client_event \<Rightarrow> goal_status" where
  "status_step g st (EvStatus msg) =
     foldl (\<lambda>st info. if gi_goal_id (gsi_goal_info info) = g then gsi_status info else st) st (sm_status_list msg)"
| "status_step g st (EvResponse g' r) = (if g' = g \<and> st = Unknown then Accepted else st)"
| "status_step g st _ = st"

text \<open>Events that only use the channels a goal has.\<close>

fun keeps_channels :: "goal_id \<Rightarrow> 'f client_event \<Rightarrow> bool" where
  "keeps_channels g (EvFeedbackStream g') = (g' \<noteq> g)"
| "keeps_channels g (EvDropStatus g') = (g' \<noteq> g)"
| "keeps_channels g e = (\<not> starts_goal g e \<and> \<not> ends_goal g e)"

text \<open>No two goals of the board share a channel.\<close>

definition board_ok :: "('f, 'w) action_client \<Rightarrow> bool" where
  "board_ok c \<longleftrightarrow> (\<forall>g ch. map_of (ac_active_goals c) g = Some ch \<longrightarrow>
       gc_feedback_tx ch < length (ac_feedback c) \<and> gc_status_tx ch < length (ac_status c)) \<and>
     (\<forall>g g' ch ch'. map_of (ac_active_goals c) g = Some ch \<longrightarrow> map_of (ac_active_goals c) g' = Some ch' \<longrightarrow> g \<noteq> g' \<longrightarrow>
       gc_feedback_tx ch \<noteq> gc_feedback_tx ch' \<and> gc_status_tx ch \<noteq> gc_status_tx ch')"

lemma board_status [simp]:
  "ac_active_goals (on_status_channel g f c) = ac_active_goals c"
  "ac_feedback (on_status_channel g f c) = ac_feedback c"
  "length (ac_status (on_status_channel g f c)) = length (ac_status c)"
  by (simp_all add: on_status_channel_def split: option.split)

lemma board_on_status [simp]:
  "ac_active_goals (on_status W msg c) = ac_active_goals c"
  "ac_feedback (on_status W msg c) = ac_feedback c"
  "length (ac_status (on_status W msg c)) = length (ac_status c)"
proof -
  have "ac_active_goals (foldl (\<lambda>c info. on_status_channel (gi_goal_id (gsi_goal_info info)) (wo_send W (gsi_status info)) c) c is) = ac_active_goals c \<and>
      ac_feedback (foldl (\<lambda>c info. on_status_channel (gi_goal_id (gsi_goal_info info)) (wo_send W (gsi_status info)) c) c is) = ac_feedback c \<and>
      length (ac_status (foldl (\<lambda>c info. on_status_channel (gi_goal_id (gsi_goal_info info)) (wo_send W (gsi_status info)) c) c is)) = length (ac_status c)" for "is"
    by (induction "is" arbitrary: c) simp_all
  from this [of "sm_status_list msg"] show "ac_active_goals (on_status W msg c) = ac_active_goals c"
      "ac_feedback (on_status W msg c) = ac_feedback c" "length (ac_status (on_status W msg c)) = length (ac_status c)"
    unfolding on_status_def by blast+
qed

lemma board_ok_cong:
  "ac_active_goals c' = ac_active_goals c \<Longrightarrow> length (ac_feedback c') = length (ac_feedback c) \<Longrightarrow>
   length (ac_status c') = length (ac_status c) \<Longrightarrow> board_ok c' = board_ok c"
  by (simp add: board_ok_def)

lemma client_apply_board:
  "map_of (ac_active_goals (client_apply W e c)) g \<noteq> None \<longleftrightarrow>
   (map_of (ac_active_goals c) g \<noteq> None \<or> starts_goal g e) \<and> \<not> ends_goal g e"
  by (cases e)
    (auto simp: send_goal_start_def send_goal_finish_def remove_goal_def goal_result_def on_feedback_def feedback_stream_def
      status_watch_def update_conv' delete_conv' Let_def split: option.splits goal_response.splits)

lemma board_okD:
  assumes "board_ok c" and "map_of (ac_active_goals c) g = Some ch"
  shows "gc_feedback_tx ch < length (ac_feedback c)" and "gc_status_tx ch < length (ac_status c)"
    and "map_of (ac_active_goals c) g' = Some ch' \<Longrightarrow> g \<noteq> g' \<Longrightarrow> gc_feedback_tx ch \<noteq> gc_feedback_tx ch'"
    and "map_of (ac_active_goals c) g' = Some ch' \<Longrightarrow> g \<noteq> g' \<Longrightarrow> gc_status_tx ch \<noteq> gc_status_tx ch'"
  using assms unfolding board_ok_def by blast+

text \<open>A goal that gets new channels, or keeps its status channel.\<close>

lemma board_ok_update:
  assumes ok: "board_ok c" and board: "ac_active_goals c' = AList.update g ch (ac_active_goals c)"
    and fb: "length (ac_feedback c) = gc_feedback_tx ch" "length (ac_feedback c') = Suc (gc_feedback_tx ch)"
    and len: "length (ac_status c) \<le> length (ac_status c')" and st: "gc_status_tx ch < length (ac_status c')"
    and new: "\<And>g' ch'. map_of (ac_active_goals c) g' = Some ch' \<Longrightarrow> g' \<noteq> g \<Longrightarrow> gc_status_tx ch' \<noteq> gc_status_tx ch"
  shows "board_ok c'"
proof -
  have other: "gc_feedback_tx ch' < gc_feedback_tx ch \<and> gc_status_tx ch' < length (ac_status c') \<and> gc_status_tx ch' \<noteq> gc_status_tx ch"
    if "map_of (ac_active_goals c) g' = Some ch'" "g' \<noteq> g" for g' ch'
    using board_okD(1,2) [OF ok that(1)] new [OF that] fb(1) len by simp
  have "gc_feedback_tx x < length (ac_feedback c') \<and> gc_status_tx x < length (ac_status c')"
    if "map_of (ac_active_goals c') h = Some x" for h x
    using that other [of h x] fb(2) st by (auto simp: board update_conv' split: if_splits)
  moreover have "gc_feedback_tx x \<noteq> gc_feedback_tx y \<and> gc_status_tx x \<noteq> gc_status_tx y"
    if "map_of (ac_active_goals c') h = Some x" "map_of (ac_active_goals c') k = Some y" "h \<noteq> k" for h k x y
    using that other [of h x] other [of k y] board_okD(3,4) [OF ok, of h x k y]
    by (cases "h = g"; cases "k = g") (auto simp: board update_conv')
  ultimately show ?thesis by (simp add: board_ok_def)
qed

lemma board_ok_remove: "board_ok c \<Longrightarrow> board_ok (remove_goal g c)"
  unfolding board_ok_def remove_goal_def by (simp add: delete_conv')

lemma client_apply_ok:
  assumes ok: "board_ok c"
  shows "board_ok (client_apply W e c)"
proof (cases e)
  case (EvSend g)
  show ?thesis
    unfolding EvSend
    by (rule board_ok_update [OF ok, of _ g "\<lparr>gc_feedback_tx = length (ac_feedback c), gc_status_tx = length (ac_status c)\<rparr>"])
      (auto simp: send_goal_start_def Let_def dest: board_okD(2) [OF ok])
  next
  case (EvFeedbackStream g)
  show ?thesis
  proof (cases "map_of (ac_active_goals c) g")
    case None
    then show ?thesis using ok EvFeedbackStream by (simp add: feedback_stream_def)
  next
    case (Some ch)
    then show ?thesis
      unfolding EvFeedbackStream
      by (intro board_ok_update [OF ok, of _ g "ch\<lparr>gc_feedback_tx := length (ac_feedback c)\<rparr>"])
        (auto simp: feedback_stream_def board_okD(2) [OF ok] dest: board_okD(4) [OF ok])
  qed
  next
  case (EvFeedback g f)
  then show ?thesis using ok by (auto simp: on_feedback_def board_ok_def split: option.split)
  next
  case (EvResponse g r)
  then show ?thesis using ok board_ok_remove board_ok_cong [of "on_status_channel g (wo_send_if_modified W watch_seed) c" c]
    by (auto simp: send_goal_finish_def split: goal_response.split)
  next
  case (EvStatus msg)
  then show ?thesis using ok board_ok_cong [of "on_status W msg c" c] by simp
  next
  case (EvStatusWatch g)
  then show ?thesis using ok board_ok_cong [of "on_status_channel g (wo_subscribe W) c" c] by (auto simp: status_watch_def split: option.split)
  next
  case (EvDropStatus g)
  then show ?thesis using ok board_ok_cong [of "on_status_channel g (wo_drop_receiver W) c" c] by simp
  next
  case (EvResult g)
  then show ?thesis using ok board_ok_remove by (simp add: goal_result_def)
qed

lemma client_run_ok: "board_ok (client_run W es ac_new)"
proof -
  have "board_ok c \<Longrightarrow> board_ok (foldl (\<lambda>c e. client_apply W e c) c es)" for c :: "('a, 'b) action_client"
    by (induction es arbitrary: c) (simp_all add: client_apply_ok)
  moreover have "board_ok ac_new" by (simp add: board_ok_def ac_new_def)
  ultimately show ?thesis by (simp add: client_run_def)
qed

text \<open>The channels of a goal, and what an event does to them.\<close>

definition goal_at :: "'w watch_ops \<Rightarrow> goal_id \<Rightarrow> goal_channels \<Rightarrow> 'f list \<Rightarrow> goal_status \<Rightarrow> ('f, 'w) action_client \<Rightarrow> bool" where
  "goal_at W g ch q st c \<longleftrightarrow> board_ok c \<and> map_of (ac_active_goals c) g = Some ch \<and> ac_feedback c ! gc_feedback_tx ch = q \<and>
     wo_value W (ac_status c ! gc_status_tx ch) = st \<and> 0 < wo_receivers W (ac_status c ! gc_status_tx ch)"

text \<open>What the documentation says of watch channels.\<close>

locale watch_lib =
  fixes W :: "'w watch_ops"
  assumes channel_value: "wo_value W (wo_channel W st) = st" "wo_receivers W (wo_channel W st) = 1"
    and send_value: "wo_value W (wo_send W st w) = (if wo_receivers W w = 0 then wo_value W w else st)"
      "wo_receivers W (wo_send W st w) = wo_receivers W w"
    and modify_value: "wo_value W (wo_send_if_modified W f w) = unwrap_or (f (wo_value W w)) (wo_value W w)"
      "wo_receivers W (wo_send_if_modified W f w) = wo_receivers W w"
    and subscribe_value: "wo_value W (wo_subscribe W w) = wo_value W w" "wo_receivers W (wo_subscribe W w) = wo_receivers W w + 1"
    and drop_value: "wo_value W (wo_drop_receiver W w) = wo_value W w" "wo_receivers W (wo_drop_receiver W w) = wo_receivers W w - 1"

lemma status_channel_at:
  assumes "goal_at W g ch q st c" and "\<And>w. 0 < wo_receivers W w \<Longrightarrow> g' = g \<Longrightarrow> 0 < wo_receivers W (f w)"
  shows "goal_at W g ch q (if g' = g then wo_value W (f (ac_status c ! gc_status_tx ch)) else st) (on_status_channel g' f c)"
proof -
  have ok: "board_ok c" "map_of (ac_active_goals c) g = Some ch" using assms(1) by (simp_all add: goal_at_def)
  have "board_ok (on_status_channel g' f c)" using ok(1) board_ok_cong [of "on_status_channel g' f c" c] by simp
  then show ?thesis
  proof (cases "g' = g")
    case True
    then show ?thesis
      using assms ok board_okD(2) [OF ok] \<open>board_ok (on_status_channel g' f c)\<close> by (simp add: goal_at_def on_status_channel_def)
  next
    case False
    then have "ac_status (on_status_channel g' f c) ! gc_status_tx ch = ac_status c ! gc_status_tx ch"
      using board_okD(4) [OF ok, of g'] by (auto simp: on_status_channel_def nth_list_update_neq split: option.split)
    then show ?thesis using False assms(1) \<open>board_ok (on_status_channel g' f c)\<close> by (simp add: goal_at_def)
  qed
qed

lemma goal_at_value: "goal_at W g ch q st c \<Longrightarrow> wo_value W (ac_status c ! gc_status_tx ch) = st \<and> 0 < wo_receivers W (ac_status c ! gc_status_tx ch)"
  by (simp add: goal_at_def)

context watch_lib
begin

lemma on_status_at:
  assumes "goal_at W g ch q st c"
  shows "goal_at W g ch q (status_step g st (EvStatus msg)) (on_status W msg c)"
proof -
  have "goal_at W g ch q (foldl (\<lambda>st info. if gi_goal_id (gsi_goal_info info) = g then gsi_status info else st) st infos)
      (foldl (\<lambda>c info. on_status_channel (gi_goal_id (gsi_goal_info info)) (wo_send W (gsi_status info)) c) c infos)" for infos
    using assms
  proof (induction infos arbitrary: c st)
    case (Cons i infos)
    let ?g = "gi_goal_id (gsi_goal_info i)"
    have "goal_at W g ch q (if ?g = g then wo_value W (wo_send W (gsi_status i) (ac_status c ! gc_status_tx ch)) else st)
        (on_status_channel ?g (wo_send W (gsi_status i)) c)"
      by (rule status_channel_at [OF Cons.prems]) (simp add: send_value)
    then have "goal_at W g ch q (if ?g = g then gsi_status i else st) (on_status_channel ?g (wo_send W (gsi_status i)) c)"
      using goal_at_value [OF Cons.prems] by (cases "?g = g") (simp_all add: send_value)
    then show ?case using Cons.IH by simp
  qed simp
  then show ?thesis by (simp add: on_status_def)
qed

lemma client_apply_at:
  assumes at: "goal_at W g ch q st c" and "keeps_channels g e"
  shows "goal_at W g ch (q @ feedback_of g e) (status_step g st e) (client_apply W e c)"
proof -
  have ok: "board_ok c" "map_of (ac_active_goals c) g = Some ch" using at by (simp_all add: goal_at_def)
  note bounds = board_okD(1,2) [OF ok] and ok' = client_apply_ok [OF ok(1), of W e]
  show ?thesis
  proof (cases e)
    case (EvSend g')
    then show ?thesis using assms ok' bounds by (simp add: goal_at_def send_goal_start_def Let_def nth_append update_conv')
  next
    case (EvResponse g' r)
    show ?thesis
    proof (cases "g' = g")
      case True
      then obtain p where "r = Response p" "sgr_accepted p" using assms(2) EvResponse by (auto split: goal_response.splits)
      moreover have "goal_at W g ch q (if g' = g then wo_value W (wo_send_if_modified W watch_seed (ac_status c ! gc_status_tx ch)) else st)
          (on_status_channel g' (wo_send_if_modified W watch_seed) c)"
        by (rule status_channel_at [OF at]) (simp add: modify_value)
      ultimately show ?thesis
        using True EvResponse goal_at_value [OF at] by (auto simp: send_goal_finish_def watch_seed_def modify_value split: if_splits)
    next
      case False
      then have "goal_at W g ch q st (remove_goal g' c)"
        using at board_ok_remove [OF ok(1)] by (simp add: goal_at_def remove_goal_def delete_conv')
      moreover have "goal_at W g ch q st (on_status_channel g' (wo_send_if_modified W watch_seed) c)"
        using status_channel_at [OF at, of g' "wo_send_if_modified W watch_seed"] False by simp
      ultimately show ?thesis using EvResponse False by (auto simp: send_goal_finish_def split: goal_response.split)
    qed
  next
    case (EvFeedback g' f)
    then show ?thesis using at ok' bounds board_okD(3) [OF ok, of g']
      by (auto simp: goal_at_def on_feedback_def split: option.splits)
  next
    case (EvStatus msg)
    then show ?thesis using on_status_at [OF at] by simp
  next
    case (EvFeedbackStream g')
    then show ?thesis using assms ok' bounds
      by (auto simp: goal_at_def feedback_stream_def nth_append update_conv' split: option.splits)
  next
    case (EvStatusWatch g')
    have "goal_at W g ch q (if g' = g then wo_value W (wo_subscribe W (ac_status c ! gc_status_tx ch)) else st)
        (on_status_channel g' (wo_subscribe W) c)"
      by (rule status_channel_at [OF at]) (simp add: subscribe_value)
    then have "goal_at W g ch q st (on_status_channel g' (wo_subscribe W) c)"
      using goal_at_value [OF at] by (simp add: subscribe_value split: if_splits)
    then show ?thesis using EvStatusWatch at by (auto simp: status_watch_def split: option.split)
  next
    case (EvDropStatus g')
    then show ?thesis using status_channel_at [OF at, of g' "wo_drop_receiver W"] assms(2) by simp
  next
    case (EvResult g')
    then show ?thesis using assms ok' by (simp add: goal_at_def goal_result_def remove_goal_def delete_conv')
  qed
qed

lemma client_run_at:
  "goal_at W g ch q st c \<Longrightarrow> list_all (keeps_channels g) es \<Longrightarrow>
   goal_at W g ch (q @ concat (map (feedback_of g) es)) (foldl (status_step g) st es) (client_run W es c)"
proof (induction es arbitrary: c q st)
  case (Cons e es)
  then show ?case using client_apply_at [of g ch q st c e] by (fastforce simp: client_run_def)
qed (simp add: client_run_def)

end

section \<open>Properties of the client\<close>


text \<open>An instance: the value and the number of receivers.\<close>

definition pair_watch :: "(goal_status \<times> nat) watch_ops" where
  "pair_watch =
     \<lparr>wo_channel = (\<lambda>st. (st, 1)), wo_send = (\<lambda>st (v, n). (if n = 0 then v else st, n)),
      wo_send_if_modified = (\<lambda>f (v, n). (unwrap_or (f v) v, n)), wo_subscribe = (\<lambda>(v, n). (v, n + 1)),
      wo_drop_receiver = (\<lambda>(v, n). (v, n - 1)), wo_value = fst, wo_receivers = snd\<rparr>"

interpretation pair_watch: watch_lib pair_watch
  by unfold_locales (auto simp: pair_watch_def split: prod.splits)


lemma goal_active_snoc: "goal_active g (es @ [e]) = ((goal_active g es \<or> starts_goal g e) \<and> \<not> ends_goal g e)"
  by (simp add: goal_active_def)

text \<open>
  The board holds exactly the goals that were sent and neither refused nor asked for their
  result since: a goal whose handle is dropped without asking for the result stays on it.
\<close>

theorem board_exact: "map_of (ac_active_goals (client_run W es ac_new)) g \<noteq> None \<longleftrightarrow> goal_active g es"
proof (induction es rule: rev_induct)
  case Nil
  then show ?case by (simp add: client_run_def ac_new_def goal_active_def)
next
  case (snoc e es)
  have "client_run W (es @ [e]) ac_new = client_apply W e (client_run W es ac_new)" by (simp add: client_run_def)
  then show ?case using snoc client_apply_board by (metis goal_active_snoc)
qed

lemma on_status_stale:
  assumes lib: "watch_lib W" and "map_of (ac_active_goals c) g = Some ch" and "board_ok c"
    and "wo_receivers W (ac_status c ! gc_status_tx ch) = 0"
  shows "wo_value W (ac_status (on_status W msg c) ! gc_status_tx ch) = wo_value W (ac_status c ! gc_status_tx ch)"
proof -
  have "wo_value W (ac_status (foldl (\<lambda>c info. on_status_channel (gi_goal_id (gsi_goal_info info)) (wo_send W (gsi_status info)) c) c infos) ! gc_status_tx ch) =
      wo_value W (ac_status c ! gc_status_tx ch)" for infos
    using assms(2-4)
  proof (induction infos arbitrary: c)
    case (Cons i infos)
    let ?g = "gi_goal_id (gsi_goal_info i)" and ?c = "on_status_channel (gi_goal_id (gsi_goal_info i)) (wo_send W (gsi_status i)) c"
    have same: "wo_value W (ac_status ?c ! gc_status_tx ch) = wo_value W (ac_status c ! gc_status_tx ch) \<and>
        wo_receivers W (ac_status ?c ! gc_status_tx ch) = wo_receivers W (ac_status c ! gc_status_tx ch)"
    proof (cases "?g = g")
      case True
      then show ?thesis
        using Cons.prems board_okD(2) [OF Cons.prems(2,1)] watch_lib.send_value [OF lib] by (simp add: on_status_channel_def)
    next
      case False
      then show ?thesis
        using board_okD(4) [OF Cons.prems(2,1), of ?g] by (auto simp: on_status_channel_def nth_list_update_neq split: option.split)
    qed
    moreover have "board_ok ?c" using Cons.prems(2) board_ok_cong [of ?c c] by simp
    ultimately show ?case using Cons.IH [of ?c] Cons.prems by simp
  qed simp
  then show ?thesis by (simp add: on_status_def)
qed

text \<open>
  A status that nobody watches is lost. While a goal has no status receiver, status
  messages leave its watch channel as it is, and a later \<open>status_watch\<close> shows the status of
  the time before, although newer ones have arrived.
\<close>

theorem unwatched_status_lost:
  assumes "watch_lib W" and "map_of (ac_active_goals (client_run W es ac_new)) g = Some ch"
    and "wo_receivers W (ac_status (client_run W es ac_new) ! gc_status_tx ch) = 0"
  shows "fst (status_watch W g (on_status W msg (client_run W es ac_new))) = Some (gc_status_tx ch) \<and>
     wo_value W (ac_status (snd (status_watch W g (on_status W msg (client_run W es ac_new)))) ! gc_status_tx ch) =
     wo_value W (ac_status (client_run W es ac_new) ! gc_status_tx ch)"
proof -
  have "board_ok (client_run W es ac_new)" by (rule client_run_ok)
  then show ?thesis
    using on_status_stale [OF assms(1,2) _ assms(3), of msg] board_okD(2) [OF _ assms(2)] assms(2) watch_lib.subscribe_value [OF assms(1)]
    by (simp add: status_watch_def on_status_channel_def)
qed

theorem unwatched_status_lost_witness:
  "let c = client_run pair_watch [EvSend [1], EvResponse [1] (Response \<lparr>sgr_accepted = True, sgr_stamp_sec = 0, sgr_stamp_nanosec = 0\<rparr>), EvDropStatus [1]] (ac_new :: (nat, _) action_client);
       m = \<lparr>sm_status_list = [\<lparr>gsi_goal_info = \<lparr>gi_goal_id = [1], gi_stamp = time_zero\<rparr>, gsi_status = Succeeded\<rparr>]\<rparr>
   in wo_value pair_watch (ac_status (snd (status_watch pair_watch [1] (on_status pair_watch m c))) ! 0) = Accepted"
proof -
  let ?es = "[EvSend [1], EvResponse [1] (Response \<lparr>sgr_accepted = True, sgr_stamp_sec = 0, sgr_stamp_nanosec = 0\<rparr>), EvDropStatus [1]] :: nat client_event list"
  let ?ch = "\<lparr>gc_feedback_tx = 0, gc_status_tx = 0\<rparr>"
  have "map_of (ac_active_goals (client_run pair_watch ?es ac_new)) [1] = Some ?ch" by code_simp
  moreover have "wo_receivers pair_watch (ac_status (client_run pair_watch ?es ac_new) ! gc_status_tx ?ch) = 0" by code_simp
  moreover have "wo_value pair_watch (ac_status (client_run pair_watch ?es ac_new) ! 0) = Accepted" by code_simp
  ultimately show ?thesis using unwatched_status_lost [OF pair_watch.watch_lib_axioms, of ?es "[1]" ?ch] by (simp add: Let_def)
qed

end
