(* ===== verification/Events.thy ===== *)
theory Events
  imports Entity "HOL-Library.AList"
begin

text \<open>
  \<open>crates/hiroz/src/event.rs\<close>: event counters of publishers and subscriptions, the detection
  of lost messages, and the registry that tells endpoints about changes of the graph.
  Counters are 32-bit words read as signed numbers; a build with overflow checks
  (\<open>checked\<close>) panics where another one wraps, and the panic poisons the manager's mutex. A
  callback is known by a number; what it is called with, after every lock has been
  released, is part of the result.
\<close>

section \<open>Event counters\<close>

datatype event_type =
    RequestedQosIncompatible | OfferedQosIncompatible | MessageLost | SubscriptionMatched | PublicationMatched
  | SubscriptionIncompatibleType | PublisherIncompatibleType | OfferedDeadlineMissed | RequestedDeadlineMissed
  | LivelinessLost | LivelinessChanged

fun event_id :: "event_type \<Rightarrow> nat" where
  "event_id RequestedQosIncompatible = 0"
| "event_id OfferedQosIncompatible = 1"
| "event_id MessageLost = 2"
| "event_id SubscriptionMatched = 3"
| "event_id PublicationMatched = 4"
| "event_id SubscriptionIncompatibleType = 5"
| "event_id PublisherIncompatibleType = 6"
| "event_id OfferedDeadlineMissed = 7"
| "event_id RequestedDeadlineMissed = 8"
| "event_id LivelinessLost = 9"
| "event_id LivelinessChanged = 10"

definition zenoh_event_id_max :: nat where
  "zenoh_event_id_max = 11"

type_synonym i32 = "32 word"
type_synonym i64 = "64 word"

record event_status =
  es_total_count :: i32
  es_total_count_change :: i32
  es_current_count :: i32
  es_current_count_change :: i32
  es_data :: string
  es_changed :: bool
  es_last_policy_kind :: u32

definition es_default :: event_status where
  "es_default = \<lparr>es_total_count = 0, es_total_count_change = 0, es_current_count = 0, es_current_count_change = 0,
     es_data = [], es_changed = False, es_last_policy_kind = 0\<rparr>"

record events_manager =
  em_statuses :: "event_status list"
  em_callbacks :: "nat option list"
  em_entity_gid :: bytes
  em_poisoned :: bool

definition em_new :: "bytes \<Rightarrow> events_manager" where
  "em_new gid = \<lparr>em_statuses = replicate zenoh_event_id_max es_default, em_callbacks = replicate zenoh_event_id_max None,
     em_entity_gid = gid, em_poisoned = False\<rparr>"

definition em_status :: "events_manager \<Rightarrow> event_type \<Rightarrow> event_status" where
  "em_status m t = em_statuses m ! event_id t"

definition set_status :: "events_manager \<Rightarrow> event_type \<Rightarrow> event_status \<Rightarrow> events_manager" where
  "set_status m t st = m\<lparr>em_statuses := (em_statuses m)[event_id t := st]\<rparr>"

text \<open>\<open>i32\<close> addition and \<open>max(0)\<close>.\<close>

definition add_i32 :: "bool \<Rightarrow> i32 \<Rightarrow> i32 \<Rightarrow> i32 option" where
  "add_i32 checked a b =
     (if checked \<and> (sint a + sint b < - (2 ^ 31) \<or> 2 ^ 31 \<le> sint a + sint b) then None else Some (a + b))"

definition max0 :: "i32 \<Rightarrow> i32" where
  "max0 a = (if sint a < 0 then 0 else a)"

definition install_callback :: "event_type \<Rightarrow> nat \<Rightarrow> events_manager \<Rightarrow> i32 \<times> events_manager" where
  "install_callback t cb m =
     (let st = em_status m t;
          unread_count = es_total_count_change st;
          m1 = (if unread_count \<noteq> 0 then set_status m t (st\<lparr>es_total_count_change := 0\<rparr>) else m)
      in (unread_count, m1\<lparr>em_callbacks := (em_callbacks m1)[event_id t := Some cb]\<rparr>))"

definition updated_status :: "bool \<Rightarrow> i32 \<Rightarrow> u32 \<Rightarrow> event_status \<Rightarrow> event_status option" where
  "updated_status checked change policy_kind st =
     (case add_i32 checked (es_total_count st) (max0 change) of
        None \<Rightarrow> None
      | Some tot \<Rightarrow>
     (case add_i32 checked (es_total_count_change st) (max0 change) of
        None \<Rightarrow> None
      | Some tot_change \<Rightarrow>
     (case add_i32 checked (es_current_count st) change of
        None \<Rightarrow> None
      | Some current \<Rightarrow>
     (case add_i32 checked (es_current_count_change st) change of
        None \<Rightarrow> None
      | Some current_change \<Rightarrow>
          Some (st\<lparr>es_total_count := tot, es_total_count_change := tot_change, es_current_count := max0 current,
            es_current_count_change := current_change, es_changed := True,
            es_last_policy_kind := (if policy_kind \<noteq> 0 then policy_kind else es_last_policy_kind st)\<rparr>)))))"

text \<open>
  \<open>record_event_status_with_policy\<close>. What a panic leaves half updated is behind the mutex it
  poisons.
\<close>

definition record_event_status_with_policy ::
  "bool \<Rightarrow> event_type \<Rightarrow> i32 \<Rightarrow> u32 \<Rightarrow> events_manager \<Rightarrow> (nat option, unit) res \<times> events_manager" where
  "record_event_status_with_policy checked t change policy_kind m =
     (case updated_status checked change policy_kind (em_status m t) of
        None \<Rightarrow> (Panic, m\<lparr>em_poisoned := True\<rparr>)
      | Some st \<Rightarrow> (Ok (em_callbacks m ! event_id t), set_status m t st))"

definition take_event_status :: "event_type \<Rightarrow> events_manager \<Rightarrow> event_status \<times> events_manager" where
  "take_event_status t m =
     (let st = em_status m t
      in (st, set_status m t (st\<lparr>es_current_count_change := 0, es_total_count_change := 0, es_changed := False\<rparr>)))"

section \<open>Shared managers\<close>

text \<open>
  \<open>update_shared_event_status_with_policy\<close>: the calls it makes, and how it ends.
\<close>

definition update_shared_event_status_with_policy ::
  "bool \<Rightarrow> event_type \<Rightarrow> i32 \<Rightarrow> u32 \<Rightarrow> events_manager \<Rightarrow> ((nat \<times> i32) list, unit) res \<times> events_manager" where
  "update_shared_event_status_with_policy checked t change policy_kind m =
     (if em_poisoned m then (Ok [], m)
      else (case record_event_status_with_policy checked t change policy_kind m of
              (Ok None, m') \<Rightarrow> (Ok [], m')
            | (Ok (Some cb), m') \<Rightarrow> (Ok [(cb, change)], m')
            | (Err e, m') \<Rightarrow> (Err e, m')
            | (Panic, m') \<Rightarrow> (Panic, m')))"

definition update_shared_event_status ::
  "bool \<Rightarrow> event_type \<Rightarrow> i32 \<Rightarrow> events_manager \<Rightarrow> ((nat \<times> i32) list, unit) res \<times> events_manager" where
  "update_shared_event_status checked t change m = update_shared_event_status_with_policy checked t change 0 m"

definition handle_take_event :: "event_type \<Rightarrow> events_manager \<Rightarrow> (event_status, unit) res \<times> events_manager" where
  "handle_take_event t m =
     (if em_poisoned m then (Panic, m) else (let (st, m') = take_event_status t m in (Ok st, m')))"

definition handle_is_ready :: "event_type \<Rightarrow> events_manager \<Rightarrow> (bool, unit) res" where
  "handle_is_ready t m = (if em_poisoned m then Panic else Ok (es_changed (em_status m t)))"

definition handle_set_callback :: "event_type \<Rightarrow> nat \<Rightarrow> events_manager \<Rightarrow> ((nat \<times> i32) list, unit) res \<times> events_manager" where
  "handle_set_callback t cb m =
     (if em_poisoned m then (Panic, m)
      else (let (unread_count, m') = install_callback t cb m
            in (Ok (if unread_count \<noteq> 0 then [(cb, unread_count)] else []), m')))"

section \<open>Lost messages\<close>

definition sat_sub_i64 :: "int \<Rightarrow> int \<Rightarrow> int" where
  "sat_sub_i64 a b = max (- (2 ^ 63)) (min (2 ^ 63 - 1) (a - b))"

text \<open>\<open>MessageLossTracker\<close>: the highest sequence number seen from each publisher.\<close>

type_synonym loss_tracker = "(bytes \<times> i64) list"

definition loss_of :: "loss_tracker \<Rightarrow> bytes \<Rightarrow> i64 \<Rightarrow> int \<times> loss_tracker" where
  "loss_of seen gid n =
     (case map_of seen gid of
        None \<Rightarrow> (0, AList.update gid n seen)
      | Some high_water \<Rightarrow>
          if sint n \<le> sint high_water then (0, seen)
          else (sat_sub_i64 (sat_sub_i64 (sint n) (sint high_water)) 1, AList.update gid n seen))"

definition observe ::
  "bool \<Rightarrow> bytes \<Rightarrow> i64 \<Rightarrow> loss_tracker \<times> events_manager \<Rightarrow> ((nat \<times> i32) list, unit) res \<times> loss_tracker \<times> events_manager" where
  "observe checked gid n tm =
     (let (lost, seen') = loss_of (fst tm) gid n
      in if lost > 0
         then (let (out, m') = update_shared_event_status checked MessageLost (word_of_int (min lost (2 ^ 31 - 1))) (snd tm)
               in (out, seen', m'))
         else (Ok [], seen', snd tm))"

section \<open>Graph changes\<close>

record graph_event_manager =
  gem_callbacks :: "(bytes \<times> (event_type \<times> nat) list) list"
  gem_topics :: "(bytes \<times> string) list"
  gem_guards :: "nat list"

definition gem_new :: graph_event_manager where
  "gem_new = \<lparr>gem_callbacks = [], gem_topics = [], gem_guards = []\<rparr>"

definition register_event_callback :: "bytes \<Rightarrow> string \<Rightarrow> event_type \<Rightarrow> nat \<Rightarrow> graph_event_manager \<Rightarrow> graph_event_manager" where
  "register_event_callback gid topic t cb g =
     g\<lparr>gem_callbacks := AList.update gid (AList.update t cb (unwrap_or (map_of (gem_callbacks g) gid) [])) (gem_callbacks g),
       gem_topics := AList.update gid topic (gem_topics g)\<rparr>"

definition unregister_entity :: "bytes \<Rightarrow> graph_event_manager \<Rightarrow> graph_event_manager" where
  "unregister_entity gid g =
     g\<lparr>gem_callbacks := AList.delete gid (gem_callbacks g), gem_topics := AList.delete gid (gem_topics g)\<rparr>"

definition register_graph_guard_condition :: "nat \<Rightarrow> graph_event_manager \<Rightarrow> graph_event_manager" where
  "register_graph_guard_condition gc g = g\<lparr>gem_guards := gem_guards g @ [gc]\<rparr>"

definition unregister_graph_guard_condition :: "nat \<Rightarrow> graph_event_manager \<Rightarrow> graph_event_manager" where
  "unregister_graph_guard_condition gc g = g\<lparr>gem_guards := filter (\<lambda>x. x \<noteq> gc) (gem_guards g)\<rparr>"

definition encoded_change :: "event_type \<Rightarrow> i32 \<Rightarrow> u32 \<Rightarrow> i32" where
  "encoded_change t change policy_kind =
     (if policy_kind \<noteq> 0 \<and> t \<in> {RequestedQosIncompatible, OfferedQosIncompatible}
      then or (push_bit 16 policy_kind) (and change 0xFFFF) else change)"

definition trigger_event_with_policy :: "bytes \<Rightarrow> event_type \<Rightarrow> i32 \<Rightarrow> u32 \<Rightarrow> graph_event_manager \<Rightarrow> (nat \<times> i32) list" where
  "trigger_event_with_policy gid t change policy_kind g =
     (case map_of (gem_callbacks g) gid of
        None \<Rightarrow> []
      | Some cbs \<Rightarrow> (case map_of cbs t of None \<Rightarrow> [] | Some cb \<Rightarrow> [(cb, encoded_change t change policy_kind)]))"

definition trigger_event :: "bytes \<Rightarrow> event_type \<Rightarrow> i32 \<Rightarrow> graph_event_manager \<Rightarrow> (nat \<times> i32) list" where
  "trigger_event gid t change g = trigger_event_with_policy gid t change 0 g"

definition matched_event :: "'z entity \<Rightarrow> (event_type \<times> string) option" where
  "matched_event e =
     (case e of
        EndpointEntity ep \<Rightarrow>
          (case ee_kind ep of
             Publisher \<Rightarrow> Some (SubscriptionMatched, ee_topic ep)
           | Subscription \<Rightarrow> Some (PublicationMatched, ee_topic ep)
           | _ \<Rightarrow> None)
      | NodeEntity _ \<Rightarrow> None)"

text \<open>\<open>trigger_graph_change\<close>: the guard conditions triggered and the callbacks called.\<close>

definition trigger_graph_change :: "'z entity \<Rightarrow> bool \<Rightarrow> graph_event_manager \<Rightarrow> nat list \<times> (nat \<times> i32) list" where
  "trigger_graph_change e appeared g =
     (gem_guards g,
      case matched_event e of
        None \<Rightarrow> []
      | Some (t, topic) \<Rightarrow>
          map (\<lambda>cb. (cb, if appeared then 1 else -1))
            (List.map_filter (\<lambda>(gid, cbs). map_of cbs t)
              (filter (\<lambda>(gid, cbs). map_of (gem_topics g) gid = Some topic) (gem_callbacks g))))"

section \<open>Runs on one manager\<close>

datatype ev_op = UpdateEvent event_type i32 u32 | TakeEvent event_type | SetCallback event_type nat

datatype ev_report = Took event_type event_status | Backlog event_type nat i32 | Called event_type nat i32 | EvPanic

fun ev_apply :: "bool \<Rightarrow> ev_op \<Rightarrow> events_manager \<Rightarrow> ev_report list \<times> events_manager" where
  "ev_apply checked (UpdateEvent t change policy) m =
     (case update_shared_event_status_with_policy checked t change policy m of
        (Ok calls, m') \<Rightarrow> (map (\<lambda>(cb, c). Called t cb c) calls, m')
      | (_, m') \<Rightarrow> ([EvPanic], m'))"
| "ev_apply checked (TakeEvent t) m =
     (case handle_take_event t m of (Ok st, m') \<Rightarrow> ([Took t st], m') | (_, m') \<Rightarrow> ([EvPanic], m'))"
| "ev_apply checked (SetCallback t cb) m =
     (case handle_set_callback t cb m of
        (Ok calls, m') \<Rightarrow> (map (\<lambda>(cb, c). Backlog t cb c) calls, m')
      | (_, m') \<Rightarrow> ([EvPanic], m'))"

primrec ev_run :: "bool \<Rightarrow> ev_op list \<Rightarrow> events_manager \<Rightarrow> ev_report list \<times> events_manager" where
  "ev_run checked [] m = ([], m)"
| "ev_run checked (op # ops) m =
     (let (rs, m') = ev_apply checked op m; (rs', m'') = ev_run checked ops m' in (rs @ rs', m''))"

lemma ev_run_snoc:
  "ev_run checked (ops @ [op]) m =
     (let (rs, m') = ev_run checked ops m; (rs', m'') = ev_apply checked op m' in (rs @ rs', m''))"
  by (induction ops arbitrary: m) (simp_all add: Let_def split_beta)

text \<open>
  What happened, how much changed altogether, and what polls and backlogs took out of the
  counter of unread occurrences. A callback called for an update takes nothing out of it.
\<close>

fun happened :: "event_type \<Rightarrow> ev_op list \<Rightarrow> int" where
  "happened t [] = 0"
| "happened t (UpdateEvent u change _ # ops) = (if u = t then max 0 (sint change) else 0) + happened t ops"
| "happened t (_ # ops) = happened t ops"

fun volume :: "ev_op list \<Rightarrow> int" where
  "volume [] = 0"
| "volume (UpdateEvent _ change _ # ops) = abs (sint change) + volume ops"
| "volume (_ # ops) = volume ops"

fun drained :: "event_type \<Rightarrow> ev_report list \<Rightarrow> int" where
  "drained t [] = 0"
| "drained t (Took u st # rs) = (if u = t then sint (es_total_count_change st) else 0) + drained t rs"
| "drained t (Backlog u _ n # rs) = (if u = t then sint n else 0) + drained t rs"
| "drained t (_ # rs) = drained t rs"

fun has_callback :: "event_type \<Rightarrow> ev_op list \<Rightarrow> bool" where
  "has_callback t [] = False"
| "has_callback t (SetCallback u _ # ops) = (u = t \<or> has_callback t ops)"
| "has_callback t (_ # ops) = has_callback t ops"

text \<open>The changes a callback must be told: those made while one was installed.\<close>

fun due :: "bool \<Rightarrow> event_type \<Rightarrow> ev_op list \<Rightarrow> i32 list" where
  "due on t [] = []"
| "due on t (SetCallback u _ # ops) = due (on \<or> u = t) t ops"
| "due on t (UpdateEvent u change _ # ops) = (if on \<and> u = t then [change] else []) @ due on t ops"
| "due on t (TakeEvent _ # ops) = due on t ops"

fun told :: "event_type \<Rightarrow> ev_report list \<Rightarrow> i32 list" where
  "told t [] = []"
| "told t (Called u _ change # rs) = (if u = t then [change] else []) @ told t rs"
| "told t (_ # rs) = told t rs"

lemma happened_append: "happened t (xs @ ys) = happened t xs + happened t ys"
  by (induction t xs rule: happened.induct) auto

lemma volume_append: "volume (xs @ ys) = volume xs + volume ys"
  by (induction xs rule: volume.induct) auto

lemma volume_nonneg: "0 \<le> volume xs"
  by (induction xs rule: volume.induct) auto

lemma drained_append [simp]: "drained t (xs @ ys) = drained t xs + drained t ys"
  by (induction t xs rule: drained.induct) auto

lemma told_append [simp]: "told t (xs @ ys) = told t xs @ told t ys"
  by (induction t xs rule: told.induct) auto

lemma due_append: "due on t (xs @ ys) = due on t xs @ due (on \<or> has_callback t xs) t ys"
  by (induction on t xs rule: due.induct) (auto simp: disj_ac)

lemma has_callback_append: "has_callback t (xs @ ys) \<longleftrightarrow> has_callback t xs \<or> has_callback t ys"
  by (induction t xs rule: has_callback.induct) auto

section \<open>Counters within bounds\<close>

definition bounded_status :: "int \<Rightarrow> event_status \<Rightarrow> bool" where
  "bounded_status v st \<longleftrightarrow>
     0 \<le> sint (es_total_count_change st) \<and> sint (es_total_count_change st) \<le> sint (es_total_count st) \<and>
     sint (es_total_count st) \<le> v \<and> abs (sint (es_current_count st)) \<le> v \<and> abs (sint (es_current_count_change st)) \<le> v"

lemma sint_add_i32:
  fixes a b :: i32
  assumes "- (2 ^ 31) \<le> sint a + sint b" and "sint a + sint b < 2 ^ 31"
  shows "sint (a + b) = sint a + sint b"
  using assms by (simp add: sint_word_ariths signed_take_bit_int_eq_self_iff)

lemma add_i32_exact:
  assumes "- (2 ^ 31) \<le> sint a + sint b" and "sint a + sint b < 2 ^ 31"
  shows "add_i32 checked a b = Some (a + b)"
  using assms by (simp add: add_i32_def)

lemma sint_max0 [simp]: "sint (max0 a) = max 0 (sint a)"
  by (simp add: max0_def)

lemma updated_status_exact:
  assumes b: "bounded_status v st" and v: "v + abs (sint change) < 2 ^ 31"
  shows "\<exists>st'. updated_status checked change policy st = Some st' \<and> bounded_status (v + abs (sint change)) st' \<and>
    sint (es_total_count st') = sint (es_total_count st) + max 0 (sint change) \<and>
    sint (es_total_count_change st') = sint (es_total_count_change st) + max 0 (sint change)"
proof -
  note b' = b [unfolded bounded_status_def]
  have exact: "add_i32 checked (es_total_count st) (max0 change) = Some (es_total_count st + max0 change)"
    "add_i32 checked (es_total_count_change st) (max0 change) = Some (es_total_count_change st + max0 change)"
    "add_i32 checked (es_current_count st) change = Some (es_current_count st + change)"
    "add_i32 checked (es_current_count_change st) change = Some (es_current_count_change st + change)"
    using b' v by (intro add_i32_exact; auto)+
  have sums: "sint (es_total_count st + max0 change) = sint (es_total_count st) + max 0 (sint change)"
    "sint (es_total_count_change st + max0 change) = sint (es_total_count_change st) + max 0 (sint change)"
    "sint (es_current_count st + change) = sint (es_current_count st) + sint change"
    "sint (es_current_count_change st + change) = sint (es_current_count_change st) + sint change"
    using b' v by (subst sint_add_i32; auto)+
  show ?thesis
    unfolding updated_status_def exact using b' sums by (auto simp: bounded_status_def)
qed

section \<open>Accounting\<close>

lemma event_id_lt [simp]: "event_id t < zenoh_event_id_max"
  by (cases t) (simp_all add: zenoh_event_id_max_def)

lemma event_id_inj [simp]: "event_id t = event_id u \<longleftrightarrow> t = u"
  by (cases t; cases u) simp_all

lemma bounded_status_mono: "bounded_status v st \<Longrightarrow> v \<le> v' \<Longrightarrow> bounded_status v' st"
  by (auto simp: bounded_status_def)

lemma bounded_status_reset:
  assumes "bounded_status v st"
  shows "bounded_status v (st\<lparr>es_total_count_change := 0\<rparr>)"
    and "bounded_status v (st\<lparr>es_current_count_change := 0, es_total_count_change := 0, es_changed := False\<rparr>)"
  using assms by (simp_all add: bounded_status_def)

definition accounted :: "ev_op list \<Rightarrow> ev_report list \<Rightarrow> events_manager \<Rightarrow> bool" where
  "accounted ops rs m \<longleftrightarrow>
     length (em_statuses m) = zenoh_event_id_max \<and> length (em_callbacks m) = zenoh_event_id_max \<and>
     \<not> em_poisoned m \<and> EvPanic \<notin> set rs \<and>
     (\<forall>t. bounded_status (volume ops) (em_status m t) \<and> sint (es_total_count (em_status m t)) = happened t ops \<and>
        drained t rs + sint (es_total_count_change (em_status m t)) = happened t ops \<and> told t rs = due False t ops \<and>
        (em_callbacks m ! event_id t \<noteq> None \<longleftrightarrow> has_callback t ops))"

lemma em_status_set [simp]:
  "length (em_statuses m) = zenoh_event_id_max \<Longrightarrow> em_status (set_status m t st) u = (if u = t then st else em_status m u)"
  by (simp add: em_status_def set_status_def nth_list_update)

lemma set_status_fields [simp]:
  "em_callbacks (set_status m t st) = em_callbacks m" "em_poisoned (set_status m t st) = em_poisoned m"
  "length (em_statuses (set_status m t st)) = length (em_statuses m)"
  by (simp_all add: set_status_def)

lemma em_status_callbacks [simp]: "em_status (m\<lparr>em_callbacks := cs\<rparr>) t = em_status m t"
  by (simp add: em_status_def)

lemma accounted_update:
  assumes a: "accounted ops rs m" and v: "volume (ops @ [UpdateEvent t change policy]) < 2 ^ 31"
    and r: "ev_apply checked (UpdateEvent t change policy) m = (rs', m')"
  shows "accounted (ops @ [UpdateEvent t change policy]) (rs @ rs') m'"
proof -
  have len: "length (em_statuses m) = zenoh_event_id_max" and np: "\<not> em_poisoned m"
    using a by (simp_all add: accounted_def)
  have "bounded_status (volume ops) (em_status m t)" using a by (simp add: accounted_def)
  then obtain st' where st': "updated_status checked change policy (em_status m t) = Some st'"
    "bounded_status (volume ops + abs (sint change)) st'"
    "sint (es_total_count st') = sint (es_total_count (em_status m t)) + max 0 (sint change)"
    "sint (es_total_count_change st') = sint (es_total_count_change (em_status m t)) + max 0 (sint change)"
    using updated_status_exact [of "volume ops" "em_status m t" change checked policy] v by (auto simp: volume_append)
  have out: "m' = set_status m t st'"
    "rs' = (case em_callbacks m ! event_id t of None \<Rightarrow> [] | Some cb \<Rightarrow> [Called t cb change])"
    using r np st'(1) by (auto simp: update_shared_event_status_with_policy_def record_event_status_with_policy_def split: option.splits)
  have "em_callbacks m ! event_id t \<noteq> None \<longleftrightarrow> has_callback t ops" using a by (simp add: accounted_def)
  then have tell: "told u rs' = (if u = t \<and> has_callback t ops then [change] else [])" "drained u rs' = 0" "EvPanic \<notin> set rs'" for u
    unfolding out(2) by (auto split: option.splits)
  show ?thesis
    using a st'(2-) len bounded_status_mono [of "volume ops" _ "volume ops + abs (sint change)"]
    unfolding accounted_def out(1)
    by (auto simp: volume_append happened_append due_append has_callback_append tell)
qed

lemma accounted_take:
  assumes a: "accounted ops rs m" and r: "ev_apply checked (TakeEvent t) m = (rs', m')"
  shows "accounted (ops @ [TakeEvent t]) (rs @ rs') m'"
proof -
  have len: "length (em_statuses m) = zenoh_event_id_max" and np: "\<not> em_poisoned m"
    using a by (simp_all add: accounted_def)
  have out: "rs' = [Took t (em_status m t)]" "m' = set_status m t ((em_status m t)
      \<lparr>es_current_count_change := 0, es_total_count_change := 0, es_changed := False\<rparr>)"
    using r np by (auto simp: handle_take_event_def take_event_status_def Let_def)
  show ?thesis
    using a len unfolding accounted_def out
    by (auto simp: volume_append happened_append due_append has_callback_append bounded_status_reset)
qed

lemma accounted_callback:
  assumes a: "accounted ops rs m" and r: "ev_apply checked (SetCallback t cb) m = (rs', m')"
  shows "accounted (ops @ [SetCallback t cb]) (rs @ rs') m'"
proof -
  let ?n = "es_total_count_change (em_status m t)"
  have len: "length (em_statuses m) = zenoh_event_id_max" "length (em_callbacks m) = zenoh_event_id_max" and np: "\<not> em_poisoned m"
    using a by (simp_all add: accounted_def)
  have rs': "rs' = (if ?n \<noteq> 0 then [Backlog t cb ?n] else [])"
    using r np by (auto simp: handle_set_callback_def install_callback_def Let_def split: if_splits)
  have m': "m' = (if ?n \<noteq> 0 then set_status m t ((em_status m t)\<lparr>es_total_count_change := 0\<rparr>) else m)
      \<lparr>em_callbacks := (em_callbacks m)[event_id t := Some cb]\<rparr>"
    using r np by (auto simp: handle_set_callback_def install_callback_def Let_def split: if_splits)
  have tell: "told u rs' = []" "drained u rs' = (if u = t then sint ?n else 0)" "EvPanic \<notin> set rs'" for u
    by (simp_all add: rs')
  have st: "em_status m' u = (if u = t then (em_status m t)\<lparr>es_total_count_change := 0\<rparr> else em_status m u)" for u
    using len by (simp add: m')
  have fields: "length (em_statuses m') = zenoh_event_id_max" "length (em_callbacks m') = zenoh_event_id_max" "\<not> em_poisoned m'"
    "em_callbacks m' ! event_id u = (if u = t then Some cb else em_callbacks m ! event_id u)" for u
    using len np by (auto simp: m' nth_list_update)
  show ?thesis
    using a unfolding accounted_def
    by (auto simp: volume_append happened_append due_append has_callback_append bounded_status_reset tell st fields)
qed

lemma ev_run_accounted:
  "volume ops < 2 ^ 31 \<Longrightarrow> ev_run checked ops (em_new gid) = (rs, m) \<Longrightarrow> accounted ops rs m"
proof (induction ops arbitrary: rs m rule: rev_induct)
  case Nil
  then show ?case
    by (auto simp: accounted_def em_new_def em_status_def es_default_def bounded_status_def)
next
  case (snoc op ops)
  obtain rs0 m0 where run: "ev_run checked ops (em_new gid) = (rs0, m0)" by force
  obtain rs1 m1 where step: "ev_apply checked op m0 = (rs1, m1)" by force
  have eq: "rs = rs0 @ rs1" "m = m1" using snoc.prems(2) run step by (simp_all add: ev_run_snoc)
  have "volume ops < 2 ^ 31" using snoc.prems(1) volume_nonneg [of "[op]"] by (simp add: volume_append)
  note acc = snoc.IH [OF this run]
  show ?case
    unfolding eq
  proof (cases op)
    case (UpdateEvent t change policy)
    then show "accounted (ops @ [op]) (rs0 @ rs1) m1" using accounted_update acc snoc.prems(1) step by blast
  qed (use acc step accounted_take accounted_callback in blast)+
qed

section \<open>Gaps in a sequence\<close>

text \<open>
  The sequence numbers that were a new maximum when they arrived, and the numbers between
  the first and the highest one that never were.
\<close>

definition add_mark :: "int \<Rightarrow> int list \<Rightarrow> int list" where
  "add_mark n hs = (if \<forall>h\<in>set hs. h < n then hs @ [n] else hs)"

definition high_marks :: "int list \<Rightarrow> int list" where
  "high_marks xs = fold add_mark xs []"

definition missed :: "int list \<Rightarrow> int" where
  "missed xs = (if xs = [] then 0 else int (card ({hd xs..Max (set xs)} - set (high_marks xs))))"

lemma high_marks_snoc: "high_marks (xs @ [n]) = add_mark n (high_marks xs)"
  by (simp add: high_marks_def)

lemma Max_snoc: "xs \<noteq> [] \<Longrightarrow> Max (set (xs @ [n])) = max (n :: int) (Max (set xs))"
  by (simp add: Max_insert)

lemma high_marks_step:
  fixes M :: int
  assumes "H \<subseteq> {l..M}" and "M \<in> H" and "H = set hs"
  shows "set (add_mark n hs) = (if M < n then insert n H else H)"
    and "set (add_mark n hs) \<subseteq> {l..max n M}" and "max n M \<in> set (add_mark n hs)"
proof -
  have "(\<forall>h\<in>set hs. h < n) \<longleftrightarrow> M < n" using assms by fastforce
  then show eq: "set (add_mark n hs) = (if M < n then insert n H else H)" using assms(3) by (simp add: add_mark_def)
  have "l \<le> M" using assms(1,2) by auto
  then show "set (add_mark n hs) \<subseteq> {l..max n M}" and "max n M \<in> set (add_mark n hs)"
    unfolding eq using assms(1,2) by (auto simp: max_def)
qed

lemma high_marks_bounds:
  "xs \<noteq> [] \<Longrightarrow> set (high_marks xs) \<subseteq> {hd xs..Max (set xs)} \<and> Max (set xs) \<in> set (high_marks xs)"
proof (induction xs rule: rev_induct)
  case (snoc n xs)
  show ?case
  proof (cases "xs = []")
    case True
    then show ?thesis by (simp add: high_marks_def add_mark_def)
  next
    case False
    from snoc.IH [OF False] have ih: "set (high_marks xs) \<subseteq> {hd xs..Max (set xs)}" "Max (set xs) \<in> set (high_marks xs)" by auto
    show ?thesis
      using high_marks_step(2,3) [OF ih refl, of n] unfolding Max_snoc [OF False] high_marks_snoc by (simp only: hd_append2 [OF False])
  qed
qed simp

lemma missed_snoc:
  assumes "xs \<noteq> []"
  shows "missed (xs @ [n]) = missed xs + (if Max (set xs) < n then n - Max (set xs) - 1 else 0)"
proof -
  define M H l where "M = Max (set xs)" and "H = set (high_marks xs)" and "l = hd xs"
  have b: "H \<subseteq> {l..M}" "M \<in> H" using high_marks_bounds [OF assms] by (simp_all add: M_def H_def l_def)
  have marks: "set (high_marks (xs @ [n])) = (if M < n then insert n H else H)"
    unfolding high_marks_snoc by (rule high_marks_step(1) [OF b]) (simp add: H_def)
  have before: "missed xs = int (card ({l..M} - H))" using assms by (simp add: missed_def M_def H_def l_def)
  have after: "missed (xs @ [n]) = int (card ({l..max n M} - (if M < n then insert n H else H)))"
    unfolding missed_def marks Max_snoc [OF assms] M_def [symmetric] using assms by (simp add: l_def)
  have "int (card ({l..n} - insert n H)) = int (card ({l..M} - H)) + (n - M - 1)" if "M < n"
  proof -
    have "l \<le> M" using b by auto
    then have "{l..n} - insert n H = ({l..M} - H) \<union> {M + 1..n - 1}" using that b by auto
    moreover have "({l..M} - H) \<inter> {M + 1..n - 1} = {}" by auto
    ultimately show ?thesis using that by (simp add: card_Un_disjoint)
  qed
  then show ?thesis unfolding before after M_def [symmetric] by (simp add: max_def)
qed

lemma missed_single [simp]: "missed [n] = 0"
  by (simp add: missed_def high_marks_def add_mark_def)

lemma missed_nonneg: "0 \<le> missed xs"
  by (simp add: missed_def)

lemma high_marks_increasing: "sorted_wrt (<) xs \<Longrightarrow> high_marks xs = xs"
  by (induction xs rule: rev_induct) (auto simp: high_marks_snoc add_mark_def sorted_wrt_append, simp add: high_marks_def)

section \<open>Runs of the tracker\<close>

primrec loss_run :: "bool \<Rightarrow> (bytes \<times> i64) list \<Rightarrow> loss_tracker \<times> events_manager \<Rightarrow> loss_tracker \<times> events_manager" where
  "loss_run checked [] tm = tm"
| "loss_run checked (a # as) tm = loss_run checked as (snd (observe checked (fst a) (snd a) tm))"

lemma loss_run_snoc: "loss_run checked (as @ [a]) tm = snd (observe checked (fst a) (snd a) (loss_run checked as tm))"
  by (induction as arbitrary: tm) simp_all

definition arrivals :: "bytes \<Rightarrow> (bytes \<times> i64) list \<Rightarrow> int list" where
  "arrivals gid as = map (\<lambda>a. sint (snd a)) (filter (\<lambda>a. fst a = gid) as)"

definition all_missed :: "(bytes \<times> i64) list \<Rightarrow> int" where
  "all_missed as = (\<Sum>gid\<in>fst ` set as. missed (arrivals gid as))"

lemma arrivals_snoc: "arrivals gid (as @ [a]) = arrivals gid as @ (if fst a = gid then [sint (snd a)] else [])"
  by (simp add: arrivals_def)

lemma arrivals_empty: "arrivals gid as = [] \<longleftrightarrow> gid \<notin> fst ` set as"
  by (auto simp: arrivals_def filter_empty_conv)

lemma all_missed_snoc:
  "all_missed (as @ [a]) = all_missed as +
     (if arrivals (fst a) as = [] then 0
      else missed (arrivals (fst a) as @ [sint (snd a)]) - missed (arrivals (fst a) as))"
proof -
  let ?g = "fst a" and ?S = "fst ` set as"
  have other: "missed (arrivals h (as @ [a])) = missed (arrivals h as)" if "h \<noteq> ?g" for h
    using that by (simp add: arrivals_snoc)
  have "(\<Sum>h\<in>?S - {?g}. missed (arrivals h (as @ [a]))) = (\<Sum>h\<in>?S - {?g}. missed (arrivals h as))"
    by (rule sum.cong) (auto simp: other)
  moreover have "all_missed (as @ [a]) = missed (arrivals ?g (as @ [a])) + (\<Sum>h\<in>?S - {?g}. missed (arrivals h (as @ [a])))"
    unfolding all_missed_def by (simp add: sum.insert_remove)
  moreover have "all_missed as = missed (arrivals ?g as) + (\<Sum>h\<in>?S - {?g}. missed (arrivals h as))"
    by (cases "?g \<in> ?S") (simp_all add: all_missed_def sum.remove [of ?S ?g] arrivals_empty [THEN iffD2] missed_def [of "[]"])
  ultimately show ?thesis by (cases "arrivals ?g as = []") (simp_all add: arrivals_snoc missed_def [of "[]"])
qed

text \<open>
  The tracker after the arrivals \<open>as\<close>: it remembers the highest number of each publisher, and
  the manager is as after one update for each gap.
\<close>

definition tracked :: "bool \<Rightarrow> bytes \<Rightarrow> (bytes \<times> i64) list \<Rightarrow> loss_tracker \<times> events_manager \<Rightarrow> bool" where
  "tracked checked gid as tm \<longleftrightarrow>
     (\<forall>g. map_option sint (map_of (fst tm) g) = (if arrivals g as = [] then None else Some (Max (set (arrivals g as))))) \<and>
     (\<exists>ops. snd tm = snd (ev_run checked ops (em_new gid)) \<and> volume ops = all_missed as \<and> happened MessageLost ops = all_missed as)"

lemma sint_small: "0 \<le> n \<Longrightarrow> n < 2 ^ 31 \<Longrightarrow> sint (word_of_int n :: i32) = n"
  by (simp add: signed_of_int signed_take_bit_int_eq_self_iff)

lemma loss_of_exact:
  assumes "\<forall>g. map_option sint (map_of seen g) = (if arrivals g as = [] then None else Some (Max (set (arrivals g as))))"
    and "all_missed (as @ [(g, n)]) < 2 ^ 31" and "0 \<le> all_missed as"
  shows "fst (loss_of seen g n) = all_missed (as @ [(g, n)]) - all_missed as"
    and "map_option sint (map_of (snd (loss_of seen g n)) h) =
      (if arrivals h (as @ [(g, n)]) = [] then None else Some (Max (set (arrivals h (as @ [(g, n)])))))"
proof -
  let ?M = "Max (set (arrivals g as))"
  have seen: "map_option sint (map_of seen k) = (if arrivals k as = [] then None else Some (Max (set (arrivals k as))))" for k
    using assms(1) by blast
  have "fst (loss_of seen g n) = all_missed (as @ [(g, n)]) - all_missed as \<and>
      map_option sint (map_of (snd (loss_of seen g n)) g) = Some (Max (set (arrivals g as @ [sint n])))"
  proof (cases "arrivals g as = []")
    case True
    then have "map_of seen g = None" using seen [of g] by simp
    then show ?thesis using True by (simp add: loss_of_def all_missed_snoc update_conv')
  next
    case False
    then obtain w where w: "map_of seen g = Some w" "sint w = ?M" using seen [of g] by auto
    have diff: "all_missed (as @ [(g, n)]) - all_missed as = (if ?M < sint n then sint n - ?M - 1 else 0)"
      using missed_snoc [OF False, of "sint n"] False unfolding all_missed_snoc fst_conv snd_conv by simp
    note mx = Max_snoc [OF False, of "sint n"]
    show ?thesis
    proof (cases "?M < sint n")
      case True
      then have "0 \<le> sint n - ?M - 1" "sint n - ?M - 1 < 2 ^ 31" using diff assms(2,3) by simp_all
      then have "sat_sub_i64 (sat_sub_i64 (sint n) ?M) 1 = sint n - ?M - 1" by (simp add: sat_sub_i64_def)
      then show ?thesis unfolding diff mx using True w by (simp add: loss_of_def update_conv' max_def)
    next
      case False
      then show ?thesis unfolding diff mx using w by (simp add: loss_of_def max_def)
    qed
  qed
  moreover have "map_of (snd (loss_of seen g n)) h = map_of seen h" if "h \<noteq> g"
    using that by (simp add: loss_of_def update_conv' split: option.splits)
  ultimately show "fst (loss_of seen g n) = all_missed (as @ [(g, n)]) - all_missed as"
    and "map_option sint (map_of (snd (loss_of seen g n)) h) =
      (if arrivals h (as @ [(g, n)]) = [] then None else Some (Max (set (arrivals h (as @ [(g, n)])))))"
    using seen [of h] by (auto simp: arrivals_snoc)
qed

lemma all_missed_mono: "all_missed as \<le> all_missed (as @ [a])"
  by (simp add: all_missed_snoc missed_snoc)

lemma all_missed_nonneg: "0 \<le> all_missed as"
  by (simp add: all_missed_def sum_nonneg missed_nonneg)

lemma tracked_step:
  assumes t: "tracked checked gid as tm" and v: "all_missed (as @ [(g, n)]) < 2 ^ 31"
  shows "tracked checked gid (as @ [(g, n)]) (snd (observe checked g n tm))"
proof -
  obtain seen m where tm: "tm = (seen, m)" by force
  let ?lost = "all_missed (as @ [(g, n)]) - all_missed as"
  obtain ops where ops: "m = snd (ev_run checked ops (em_new gid))" "volume ops = all_missed as"
    "happened MessageLost ops = all_missed as" using t by (auto simp: tracked_def tm)
  note loss = loss_of_exact [OF _ v all_missed_nonneg, of seen]
  have seen: "\<forall>g. map_option sint (map_of seen g) = (if arrivals g as = [] then None else Some (Max (set (arrivals g as))))"
    using t by (simp add: tracked_def tm)
  have small: "?lost < 2 ^ 31" "0 \<le> ?lost" using v all_missed_nonneg [of as] all_missed_mono [of as "(g, n)"] by simp_all
  let ?ops = "ops @ (if ?lost > 0 then [UpdateEvent MessageLost (word_of_int ?lost) 0] else [])"
  have "snd (snd (observe checked g n tm)) = snd (ev_run checked ?ops (em_new gid))"
    using small loss(1) [OF seen]
    by (auto simp: observe_def tm split_beta Let_def ops(1) ev_run_snoc update_shared_event_status_def
        split: res.splits option.splits)
  moreover have "volume ?ops = all_missed (as @ [(g, n)])" "happened MessageLost ?ops = all_missed (as @ [(g, n)])"
    using small ops(2,3) by (auto simp: volume_append happened_append sint_small simp del: of_int_diff)
  moreover have "fst (snd (observe checked g n tm)) = snd (loss_of seen g n)"
    by (simp add: observe_def tm split_beta Let_def)
  ultimately show ?thesis using loss(2) [OF seen] unfolding tracked_def by auto
qed

lemma loss_run_tracked: "all_missed as < 2 ^ 31 \<Longrightarrow> tracked checked gid as (loss_run checked as ([], em_new gid))"
proof (induction as rule: rev_induct)
  case Nil
  have "ev_run checked [] (em_new gid) = ([], em_new gid)" by simp
  then show ?case
    unfolding tracked_def by (auto simp: arrivals_def all_missed_def intro!: exI [of _ "[]"])
next
  case (snoc a as)
  then have "tracked checked gid as (loss_run checked as ([], em_new gid))" using all_missed_mono [of as a] by simp
  then show ?case using tracked_step [of checked gid as _ "fst a" "snd a"] snoc.prems by (simp add: loss_run_snoc)
qed

section \<open>Properties\<close>



text \<open>
  The same occurrences are reported twice: a callback is told of three losses as they
  happen, and the callback installed next receives them again as a backlog.
\<close>

lemma told_and_backlog:
  "fst (ev_run True [SetCallback MessageLost 7, UpdateEvent MessageLost 3 0, SetCallback MessageLost 8] (em_new [])) =
     [Called MessageLost 7 3, Backlog MessageLost 8 3]"
  by code_simp

text \<open>
  Lost messages are counted exactly. Whatever samples of whichever publishers arrive in
  whichever order, as long as fewer than \<open>2\<^sup>3\<^sup>1\<close> are missing, the count of the message-lost event is the
  number of sequence numbers, over all publishers, between the first and the highest one
  received that were not received as a new maximum; for a publisher whose samples arrive in
  order these are exactly the samples that did not arrive. Replayed, repeated and reordered
  samples never add to the count.
\<close>

theorem message_loss_exact:
  assumes "all_missed as < 2 ^ 31" and "loss_run checked as ([], em_new gid) = (seen, m)"
  shows "sint (es_total_count (em_status m MessageLost)) = (\<Sum>g\<in>fst ` set as. missed (arrivals g as)) \<and>
    (\<forall>g. sorted_wrt (<) (arrivals g as) \<and> arrivals g as \<noteq> [] \<longrightarrow>
       missed (arrivals g as) = int (card ({hd (arrivals g as)..Max (set (arrivals g as))} - set (arrivals g as))))"
proof -
  obtain ops where ops: "m = snd (ev_run checked ops (em_new gid))" "volume ops = all_missed as"
    "happened MessageLost ops = all_missed as"
    using loss_run_tracked [OF assms(1), of checked gid] assms(2) by (auto simp: tracked_def)
  have "sint (es_total_count (em_status m MessageLost)) = all_missed as"
    using ev_run_accounted [of ops checked gid "fst (ev_run checked ops (em_new gid))" m] ops assms(1) by (simp add: accounted_def)
  then show ?thesis by (simp add: all_missed_def missed_def high_marks_increasing)
qed

lemma message_loss_exact_witness:
  "sint (es_total_count (em_status (snd (loss_run True [([1], 4), ([2], 9), ([1], 7), ([1], 5)] ([], em_new []))) MessageLost)) = 2"
proof -
  let ?as = "[([1], 4), ([2], 9), ([1], 7), ([1], 5)] :: (bytes \<times> i64) list"
  have sum: "(\<Sum>g\<in>fst ` set ?as. missed (arrivals g ?as)) = 2" by code_simp
  then have "all_missed ?as < 2 ^ 31" by (simp only: all_missed_def) simp
  from message_loss_exact [OF this, of True "[]" "fst (loss_run True ?as ([], em_new []))" "snd (loss_run True ?as ([], em_new []))"]
  show ?thesis unfolding sum by simp
qed

end
