(* ===== verification/Graph.thy ===== *)
theory Graph
  imports Key_Expr Events "HOL-Library.Multiset" "HOL-Library.List_Lexorder" "HOL-Library.Product_Lexorder" "HOL-Library.Char_ord"
begin

text \<open>
  \<open>crates/hiroz/src/graph.rs\<close> (with the extensions of \<open>entity.rs\<close>): the discovery graph. Tokens
  that appear are cached and parsed when somebody asks; parsed entities are owned by one
  table and found through four indexes of weak references. An entity has an address; a weak
  reference is an address, and upgrading it succeeds while the table or a caller who was
  handed the entity owns that address. The token parser is the field \<open>parser\<close>, an argument
  here. The slab of the indexes belongs to a library: what inserting does to the order of
  its entries, and when it is full, are arguments (\<open>slab_ops\<close>). The callbacks of the event
  manager run after the lock is released and are part of the results.
\<close>

section \<open>Keys of an entity\<close>

definition normalize_node_namespace :: "string \<Rightarrow> string" where
  "normalize_node_namespace ns = (if ns = ''/'' then [] else ns)"

definition node_key :: "'z node_entity \<Rightarrow> string \<times> string" where
  "node_key n = (normalize_node_namespace (ne_namespace n), ne_name n)"

definition entity_to_liveliness_ke :: "'z zenoh_ops \<Rightarrow> 'z entity \<Rightarrow> (string, key_error) res" where
  "entity_to_liveliness_ke Z e =
     (case e of NodeEntity n \<Rightarrow> node_liveliness_key_expr Z n | EndpointEntity ep \<Rightarrow> liveliness_key_expr Z ep)"

definition ends_with :: "string \<Rightarrow> string \<Rightarrow> bool" where
  "ends_with s suf \<longleftrightarrow> strip_suffix_str suf s \<noteq> None"

definition is_action_server_sub_endpoint :: "endpoint_kind \<Rightarrow> string \<Rightarrow> bool" where
  "is_action_server_sub_endpoint kind topic =
     (case kind of
        Service \<Rightarrow> list_ex (ends_with topic) [''/_action/send_goal'', ''/_action/get_result'', ''/_action/cancel_goal'']
      | Publisher \<Rightarrow> list_ex (ends_with topic) [''/_action/feedback'', ''/_action/status'']
      | _ \<Rightarrow> False)"

definition topic_key :: "'z entity \<Rightarrow> string option" where
  "topic_key e =
     (case e of EndpointEntity ep \<Rightarrow> if ee_kind ep \<in> {Publisher, Subscription} then Some (ee_topic ep) else None | _ \<Rightarrow> None)"

definition service_key :: "'z entity \<Rightarrow> string option" where
  "service_key e =
     (case e of EndpointEntity ep \<Rightarrow> if ee_kind ep \<in> {Service, Client} then Some (ee_topic ep) else None | _ \<Rightarrow> None)"

definition action_key :: "'z entity \<Rightarrow> string option" where
  "action_key e =
     (case e of
        EndpointEntity ep \<Rightarrow>
          if is_action_server_sub_endpoint (ee_kind ep) (ee_topic ep) then action_name_from_topic (ee_topic ep) else None
      | _ \<Rightarrow> None)"

definition by_node_key :: "'z entity \<Rightarrow> (string \<times> string) option" where
  "by_node_key e = (case e of NodeEntity n \<Rightarrow> Some (node_key n) | EndpointEntity ep \<Rightarrow> map_option node_key (ee_node ep))"

section \<open>Graph data\<close>

record slab_ops =
  so_insert :: "nat \<Rightarrow> nat list \<Rightarrow> nat list"
  so_full :: "nat list \<Rightarrow> bool"

record 'z graph_data =
  gd_cached :: "string list"
  gd_parsed :: "(string \<times> nat \<times> 'z entity) list"
  gd_by_topic :: "(string \<times> nat list) list"
  gd_by_service :: "(string \<times> nat list) list"
  gd_by_node :: "((string \<times> string) \<times> nat list) list"
  gd_by_action :: "(string \<times> nat list) list"
  gd_held :: "(nat \<times> 'z entity) list"
  gd_next :: nat

definition gd_new :: "'z graph_data" where
  "gd_new = \<lparr>gd_cached = [], gd_parsed = [], gd_by_topic = [], gd_by_service = [], gd_by_node = [], gd_by_action = [],
     gd_held = [], gd_next = 0\<rparr>"

text \<open>\<open>Weak::upgrade\<close>.\<close>

definition upgrade :: "'z graph_data \<Rightarrow> nat \<Rightarrow> 'z entity option" where
  "upgrade d a = map_of (map snd (gd_parsed d) @ gd_held d) a"

definition upgradable :: "'z graph_data \<Rightarrow> nat \<Rightarrow> bool" where
  "upgradable d a \<longleftrightarrow> upgrade d a \<noteq> None"

definition slab_of :: "('k \<times> nat list) list \<Rightarrow> 'k \<Rightarrow> nat list" where
  "slab_of idx k = unwrap_or (map_of idx k) []"

text \<open>One entry of an index: drop dead references from a full slab, then insert.\<close>

definition slab_add :: "slab_ops \<Rightarrow> (nat \<Rightarrow> bool) \<Rightarrow> nat \<Rightarrow> 'k option \<Rightarrow> ('k \<times> nat list) list \<Rightarrow> ('k \<times> nat list) list" where
  "slab_add S live a key idx =
     (case key of
        None \<Rightarrow> idx
      | Some k \<Rightarrow>
          (let slab = slab_of idx k; slab' = (if so_full S slab then filter live slab else slab)
           in AList.update k (so_insert S a slab') idx))"

text \<open>The indexing that \<open>parse\<close> and \<open>add_local_entity\<close> share.\<close>

definition index_entity :: "slab_ops \<Rightarrow> nat \<Rightarrow> 'z entity \<Rightarrow> 'z graph_data \<Rightarrow> 'z graph_data" where
  "index_entity S a e d =
     (let live = upgradable d
      in d\<lparr>gd_by_topic := slab_add S live a (topic_key e) (gd_by_topic d),
           gd_by_service := slab_add S live a (service_key e) (gd_by_service d),
           gd_by_action := slab_add S live a (action_key e) (gd_by_action d),
           gd_by_node := slab_add S live a (by_node_key e) (gd_by_node d)\<rparr>)"

definition gd_insert :: "string \<Rightarrow> 'z graph_data \<Rightarrow> 'z graph_data" where
  "gd_insert ke d =
     (if map_of (gd_parsed d) ke \<noteq> None then d else d\<lparr>gd_cached := List.insert ke (gd_cached d)\<rparr>)"

definition gd_remove :: "string \<Rightarrow> 'z graph_data \<Rightarrow> 'z graph_data" where
  "gd_remove ke d = d\<lparr>gd_cached := removeAll ke (gd_cached d), gd_parsed := AList.delete ke (gd_parsed d)\<rparr>"

type_synonym 'z token_parser = "string \<Rightarrow> ('z entity, entity_conversion_error) res"

definition parse_one :: "'z token_parser \<Rightarrow> slab_ops \<Rightarrow> string \<Rightarrow> 'z graph_data \<Rightarrow> 'z graph_data" where
  "parse_one P S ke d =
     (if map_of (gd_parsed d) ke \<noteq> None then d
      else (case P ke of
              Ok e \<Rightarrow>
                (let a = gd_next d; d1 = index_entity S a e d
                 in d1\<lparr>gd_parsed := AList.update ke (a, e) (gd_parsed d1), gd_next := Suc a\<rparr>)
            | _ \<Rightarrow> d))"

definition gd_parse :: "'z token_parser \<Rightarrow> slab_ops \<Rightarrow> 'z graph_data \<Rightarrow> 'z graph_data" where
  "gd_parse P S d = fold (parse_one P S) (gd_cached d) (d\<lparr>gd_cached := []\<rparr>)"

definition ensure_parsed :: "'z token_parser \<Rightarrow> slab_ops \<Rightarrow> 'z graph_data \<Rightarrow> 'z graph_data" where
  "ensure_parsed P S d = (if gd_cached d \<noteq> [] then gd_parse P S d else d)"

text \<open>Walking a slab: the entities that can be upgraded, and the slab without the others.\<close>

definition upgraded :: "'z graph_data \<Rightarrow> nat list \<Rightarrow> (nat \<times> 'z entity) list" where
  "upgraded d slab = List.map_filter (\<lambda>a. map_option (Pair a) (upgrade d a)) slab"

definition retained :: "'z graph_data \<Rightarrow> 'k \<Rightarrow> ('k \<times> nat list) list \<Rightarrow> ('k \<times> nat list) list" where
  "retained d k idx = (case map_of idx k of None \<Rightarrow> idx | Some slab \<Rightarrow> AList.update k (filter (upgradable d) slab) idx)"

definition visit_by_topic ::
  "'z token_parser \<Rightarrow> slab_ops \<Rightarrow> string \<Rightarrow> 'z graph_data \<Rightarrow> (nat \<times> 'z entity) list \<times> 'z graph_data" where
  "visit_by_topic P S topic d0 =
     (let d = ensure_parsed P S d0
      in (upgraded d (slab_of (gd_by_topic d) topic), d\<lparr>gd_by_topic := retained d topic (gd_by_topic d)\<rparr>))"

definition visit_by_service ::
  "'z token_parser \<Rightarrow> slab_ops \<Rightarrow> string \<Rightarrow> 'z graph_data \<Rightarrow> (nat \<times> 'z entity) list \<times> 'z graph_data" where
  "visit_by_service P S name d0 =
     (let d = ensure_parsed P S d0
      in (upgraded d (slab_of (gd_by_service d) name), d\<lparr>gd_by_service := retained d name (gd_by_service d)\<rparr>))"

definition visit_by_node ::
  "'z token_parser \<Rightarrow> slab_ops \<Rightarrow> string \<times> string \<Rightarrow> 'z graph_data \<Rightarrow> (nat \<times> 'z entity) list \<times> 'z graph_data" where
  "visit_by_node P S key d0 =
     (let d = ensure_parsed P S d0
      in (upgraded d (slab_of (gd_by_node d) key), d\<lparr>gd_by_node := retained d key (gd_by_node d)\<rparr>))"

definition visit_by_action ::
  "'z token_parser \<Rightarrow> slab_ops \<Rightarrow> string \<Rightarrow> 'z graph_data \<Rightarrow> (nat \<times> 'z entity) list \<times> 'z graph_data" where
  "visit_by_action P S name d0 =
     (let d = ensure_parsed P S d0
      in (upgraded d (slab_of (gd_by_action d) name), d\<lparr>gd_by_action := retained d name (gd_by_action d)\<rparr>))"

section \<open>Tokens and local entities\<close>

text \<open>
  The liveliness callback, with the change it reports to the event manager. A token that
  cannot be parsed is cached all the same. On removal the change is reported first.
\<close>

definition on_put :: "'z token_parser \<Rightarrow> string \<Rightarrow> 'z graph_data \<Rightarrow> ('z entity \<times> bool) option \<times> 'z graph_data" where
  "on_put P ke d =
     (let already_parsed = map_of (gd_parsed d) ke \<noteq> None;
          already_cached = ke \<in> set (gd_cached d);
          d' = (if already_parsed then d else if already_cached then d else gd_insert ke d)
      in (if already_parsed then None else (case P ke of Ok e \<Rightarrow> Some (e, True) | _ \<Rightarrow> None), d'))"

definition on_delete :: "'z token_parser \<Rightarrow> string \<Rightarrow> 'z graph_data \<Rightarrow> ('z entity \<times> bool) option \<times> 'z graph_data" where
  "on_delete P ke d = (case P ke of Ok e \<Rightarrow> Some (e, False) | _ \<Rightarrow> None, gd_remove ke d)"

text \<open>The initial query: tokens of the own session are skipped.\<close>

definition entity_zid :: "'z entity \<Rightarrow> 'z option" where
  "entity_zid e = (case e of NodeEntity n \<Rightarrow> Some (ne_z_id n) | EndpointEntity ep \<Rightarrow> map_option ne_z_id (ee_node ep))"

definition is_entity_local :: "'z \<Rightarrow> 'z entity \<Rightarrow> bool" where
  "is_entity_local zid e \<longleftrightarrow> entity_zid e = Some zid"

definition on_query_reply :: "'z token_parser \<Rightarrow> 'z \<Rightarrow> string \<Rightarrow> 'z graph_data \<Rightarrow> 'z graph_data" where
  "on_query_reply P zid ke d =
     (case P ke of Ok e \<Rightarrow> if is_entity_local zid e then d else gd_insert ke d | _ \<Rightarrow> gd_insert ke d)"

definition add_local_entity ::
  "'z zenoh_ops \<Rightarrow> slab_ops \<Rightarrow> 'z entity \<Rightarrow> 'z graph_data \<Rightarrow> (('z entity \<times> bool) option, key_error) res \<times> 'z graph_data" where
  "add_local_entity Z S e d =
     (case entity_to_liveliness_ke Z e of
        Ok ke \<Rightarrow>
          (let already_exists = map_of (gd_parsed d) ke \<noteq> None;
               a = gd_next d;
               d1 = d\<lparr>gd_parsed := AList.update ke (a, e) (gd_parsed d), gd_next := Suc a\<rparr>
           in (Ok (if already_exists then None else Some (e, True)), index_entity S a e d1))
      | Err x \<Rightarrow> (Err x, d)
      | Panic \<Rightarrow> (Panic, d))"

text \<open>\<open>retain\<close> on the slab of one key, keeping live entities with another token.\<close>

definition drop_token :: "'z zenoh_ops \<Rightarrow> 'z graph_data \<Rightarrow> string \<Rightarrow> 'k option \<Rightarrow> ('k \<times> nat list) list \<Rightarrow> ('k \<times> nat list) list" where
  "drop_token Z d ke key idx =
     (case key of
        None \<Rightarrow> idx
      | Some k \<Rightarrow>
          (case map_of idx k of
             None \<Rightarrow> idx
           | Some slab \<Rightarrow>
               AList.update k (filter (\<lambda>a. case upgrade d a of None \<Rightarrow> False
                 | Some e \<Rightarrow> entity_to_liveliness_ke Z e \<noteq> Ok ke) slab) idx))"

definition remove_local_entity :: "'z zenoh_ops \<Rightarrow> 'z entity \<Rightarrow> 'z graph_data \<Rightarrow> (unit, key_error) res \<times> 'z graph_data" where
  "remove_local_entity Z e d =
     (case entity_to_liveliness_ke Z e of
        Ok ke \<Rightarrow>
          (let d1 = gd_remove ke d
           in (Ok (), d1\<lparr>gd_by_topic := drop_token Z d1 ke (topic_key e) (gd_by_topic d1),
                 gd_by_service := drop_token Z d1 ke (service_key e) (gd_by_service d1),
                 gd_by_node := drop_token Z d1 ke (by_node_key e) (gd_by_node d1)\<rparr>))
      | Err x \<Rightarrow> (Err x, d)
      | Panic \<Rightarrow> (Panic, d))"

section \<open>Queries\<close>

definition entity_get_endpoint :: "'z entity \<Rightarrow> 'z endpoint_entity option" where
  "entity_get_endpoint e = (case e of NodeEntity _ \<Rightarrow> None | EndpointEntity ep \<Rightarrow> Some ep)"

definition is_kind :: "endpoint_kind \<Rightarrow> 'z entity \<Rightarrow> bool" where
  "is_kind kind e = (case entity_get_endpoint e of None \<Rightarrow> False | Some ep \<Rightarrow> ee_kind ep = kind)"

definition count_by_service :: "'z token_parser \<Rightarrow> slab_ops \<Rightarrow> endpoint_kind \<Rightarrow> string \<Rightarrow> 'z graph_data \<Rightarrow> nat \<times> 'z graph_data" where
  "count_by_service P S kind name d =
     (let (es, d') = visit_by_service P S name d in (length (filter (\<lambda>(a, e). is_kind kind e) es), d'))"

definition graph_count :: "'z token_parser \<Rightarrow> slab_ops \<Rightarrow> endpoint_kind \<Rightarrow> string \<Rightarrow> 'z graph_data \<Rightarrow> nat \<times> 'z graph_data" where
  "graph_count P S kind name d =
     (if kind \<in> {Publisher, Subscription}
      then (let (es, d') = visit_by_topic P S name d in (length (filter (\<lambda>(a, e). is_kind kind e) es), d'))
      else count_by_service P S kind name d)"

text \<open>The caller becomes an owner of the entities it gets; \<open>release\<close> is the drop of one.\<close>

definition get_entities_by_topic ::
  "'z token_parser \<Rightarrow> slab_ops \<Rightarrow> endpoint_kind \<Rightarrow> string \<Rightarrow> 'z graph_data \<Rightarrow> (nat \<times> 'z entity) list \<times> 'z graph_data" where
  "get_entities_by_topic P S kind topic d =
     (let (es, d') = visit_by_topic P S topic d; res = filter (\<lambda>(a, e). is_kind kind e) es
      in (res, d'\<lparr>gd_held := res @ gd_held d'\<rparr>))"

definition get_entities_by_service ::
  "'z token_parser \<Rightarrow> slab_ops \<Rightarrow> endpoint_kind \<Rightarrow> string \<Rightarrow> 'z graph_data \<Rightarrow> (nat \<times> 'z entity) list \<times> 'z graph_data" where
  "get_entities_by_service P S kind name d =
     (let (es, d') = visit_by_service P S name d; res = filter (\<lambda>(a, e). is_kind kind e) es
      in (res, d'\<lparr>gd_held := res @ gd_held d'\<rparr>))"

definition release :: "nat \<times> 'z entity \<Rightarrow> 'z graph_data \<Rightarrow> 'z graph_data" where
  "release ae d = d\<lparr>gd_held := remove1 ae (gd_held d)\<rparr>"

definition get_entities_by_node ::
  "'z token_parser \<Rightarrow> slab_ops \<Rightarrow> endpoint_kind \<Rightarrow> string \<times> string \<Rightarrow> 'z graph_data \<Rightarrow> 'z endpoint_entity list \<times> 'z graph_data" where
  "get_entities_by_node P S kind key d =
     (let (es, d') = visit_by_node P S key d
      in (List.map_filter (\<lambda>(a, e). case e of EndpointEntity ep \<Rightarrow> if ee_kind ep = kind then Some ep else None | _ \<Rightarrow> None) es, d'))"

definition action_bits :: "(string \<times> u8) list" where
  "action_bits = [(''/_action/send_goal'', 1), (''/_action/get_result'', 2), (''/_action/cancel_goal'', 4),
     (''/_action/feedback'', 8), (''/_action/status'', 16)]"

definition found_bits :: "string \<Rightarrow> u8" where
  "found_bits topic = fold (\<lambda>(suf, bit) acc. if ends_with topic suf then acc OR bit else acc) action_bits 0"

definition has_action_server :: "'z token_parser \<Rightarrow> slab_ops \<Rightarrow> string \<Rightarrow> 'z graph_data \<Rightarrow> bool \<times> 'z graph_data" where
  "has_action_server P S name d =
     (let (es, d') = visit_by_action P S name d;
          found = fold (\<lambda>(a, e) acc. case entity_get_endpoint e of None \<Rightarrow> acc | Some ep \<Rightarrow> acc OR found_bits (ee_topic ep)) es 0
      in (found = 0b11111, d'))"

definition node_exists :: "'z token_parser \<Rightarrow> slab_ops \<Rightarrow> string \<times> string \<Rightarrow> 'z graph_data \<Rightarrow> bool \<times> 'z graph_data" where
  "node_exists P S key d0 = (let d = ensure_parsed P S d0 in (map_of (gd_by_node d) key \<noteq> None, d))"

definition denormalized :: "string \<Rightarrow> string" where
  "denormalized ns = (if ns = [] then ''/'' else if hd ns \<noteq> CHR ''/'' then CHR ''/'' # ns else ns)"

definition get_node_names_with_enclaves ::
  "'z token_parser \<Rightarrow> slab_ops \<Rightarrow> 'z graph_data \<Rightarrow> (string \<times> string \<times> string) list \<times> 'z graph_data" where
  "get_node_names_with_enclaves P S d0 =
     (let d = ensure_parsed P S d0
      in (concat (map (\<lambda>((ns, name), slab).
            List.map_filter (\<lambda>(a, e). case e of NodeEntity n \<Rightarrow> Some (name, denormalized ns, denormalized (ne_enclave n)) | _ \<Rightarrow> None)
              (upgraded d slab)) (gd_by_node d)), d))"

definition get_node_names :: "'z token_parser \<Rightarrow> slab_ops \<Rightarrow> 'z graph_data \<Rightarrow> (string \<times> string) list \<times> 'z graph_data" where
  "get_node_names P S d0 =
     (let d = ensure_parsed P S d0
      in (concat (map (\<lambda>((ns, name), slab).
            List.map_filter (\<lambda>(a, e). case e of NodeEntity n \<Rightarrow> Some (name, denormalized ns) | _ \<Rightarrow> None)
              (upgraded d slab)) (gd_by_node d)), d))"

text \<open>The first type found in each slab; every slab is cleaned on the way.\<close>

definition first_type :: "endpoint_kind set \<Rightarrow> (nat \<times> 'z entity) list \<Rightarrow> string option" where
  "first_type kinds es =
     (case List.map_filter (\<lambda>(a, e). case entity_get_endpoint e of
          Some ep \<Rightarrow> if ee_kind ep \<in> kinds then map_option ti_name (ee_type_info ep) else None | None \<Rightarrow> None) es of
        [] \<Rightarrow> None
      | t # _ \<Rightarrow> Some t)"

definition names_and_types ::
  "endpoint_kind set \<Rightarrow> 'z graph_data \<Rightarrow> (string \<times> nat list) list \<Rightarrow> (string \<times> string) list" where
  "names_and_types kinds d idx =
     List.map_filter (\<lambda>(name, slab). map_option (Pair name) (first_type kinds (upgraded d slab))) idx"

definition retained_all :: "'z graph_data \<Rightarrow> ('k \<times> nat list) list \<Rightarrow> ('k \<times> nat list) list" where
  "retained_all d idx = map (\<lambda>(k, slab). (k, filter (upgradable d) slab)) idx"

definition get_service_names_and_types ::
  "'z token_parser \<Rightarrow> slab_ops \<Rightarrow> 'z graph_data \<Rightarrow> (string \<times> string) list \<times> 'z graph_data" where
  "get_service_names_and_types P S d0 =
     (let d = ensure_parsed P S d0
      in (names_and_types {Service} d (gd_by_service d), d\<lparr>gd_by_service := retained_all d (gd_by_service d)\<rparr>))"

definition get_topic_names_and_types ::
  "'z token_parser \<Rightarrow> slab_ops \<Rightarrow> 'z graph_data \<Rightarrow> (string \<times> string) list \<times> 'z graph_data" where
  "get_topic_names_and_types P S d0 =
     (let d = ensure_parsed P S d0
      in (names_and_types {Publisher, Subscription} d (gd_by_topic d), d\<lparr>gd_by_topic := retained_all d (gd_by_topic d)\<rparr>))"

definition filter_action_names_and_types :: "(string \<times> string) list \<Rightarrow> (string \<times> string) list" where
  "filter_action_names_and_types topics =
     List.map_filter (\<lambda>(topic, type). map_option (\<lambda>action. (action, unwrap_or (strip_suffix_str ''_FeedbackMessage'' type) type))
       (strip_suffix_str ''/_action/feedback'' topic)) topics"

definition has_external_entity :: "'z token_parser \<Rightarrow> slab_ops \<Rightarrow> 'z list \<Rightarrow> 'z graph_data \<Rightarrow> bool \<times> 'z graph_data" where
  "has_external_entity P S exclude d0 =
     (let d = ensure_parsed P S d0
      in (list_ex (\<lambda>(ke, a, e). case entity_zid e of None \<Rightarrow> True | Some z \<Rightarrow> z \<notin> set exclude) (gd_parsed d), d))"

definition get_names_and_types_by_node ::
  "'z token_parser \<Rightarrow> slab_ops \<Rightarrow> string \<times> string \<Rightarrow> endpoint_kind \<Rightarrow> 'z graph_data \<Rightarrow> (string \<times> string) list \<times> 'z graph_data" where
  "get_names_and_types_by_node P S key kind d =
     (let (es, d') = visit_by_node P S key d
      in (sorted_list_of_set (set (List.map_filter (\<lambda>(a, e). case entity_get_endpoint e of
            Some ep \<Rightarrow> if ee_kind ep = kind then map_option (\<lambda>ti. (ee_topic ep, ti_name ti)) (ee_type_info ep) else None
          | None \<Rightarrow> None) es)), d'))"

definition get_action_client_names_and_types_by_node ::
  "'z token_parser \<Rightarrow> slab_ops \<Rightarrow> string \<times> string \<Rightarrow> 'z graph_data \<Rightarrow> (string \<times> string) list \<times> 'z graph_data" where
  "get_action_client_names_and_types_by_node P S key d =
     (let (ts, d') = get_names_and_types_by_node P S key Subscription d in (filter_action_names_and_types ts, d'))"

definition get_action_server_names_and_types_by_node ::
  "'z token_parser \<Rightarrow> slab_ops \<Rightarrow> string \<times> string \<Rightarrow> 'z graph_data \<Rightarrow> (string \<times> string) list \<times> 'z graph_data" where
  "get_action_server_names_and_types_by_node P S key d =
     (let (ts, d') = get_names_and_types_by_node P S key Publisher d in (filter_action_names_and_types ts, d'))"

definition get_action_names_and_types ::
  "'z token_parser \<Rightarrow> slab_ops \<Rightarrow> 'z graph_data \<Rightarrow> (string \<times> string) list \<times> 'z graph_data" where
  "get_action_names_and_types P S d =
     (let (ts, d') = get_topic_names_and_types P S d in (remdups_adj (sort (filter_action_names_and_types ts)), d'))"

text \<open>\<open>snapshot\<close>: one query after the other; the entities counted for a topic are dropped at once.\<close>

record graph_snapshot =
  gs_topics :: "(string \<times> string \<times> nat \<times> nat) list"
  gs_nodes :: "(string \<times> string) list"
  gs_services :: "(string \<times> string) list"

primrec snapshot_topics ::
  "'z token_parser \<Rightarrow> slab_ops \<Rightarrow> (string \<times> string) list \<Rightarrow> 'z graph_data \<Rightarrow> (string \<times> string \<times> nat \<times> nat) list \<times> 'z graph_data" where
  "snapshot_topics P S [] d = ([], d)"
| "snapshot_topics P S (t # ts) d =
     (let (publishers, d1) = graph_count P S Publisher (fst t) d;
          (subscribers, d2) = graph_count P S Subscription (fst t) d1;
          (rest, d3) = snapshot_topics P S ts d2
      in ((fst t, snd t, publishers, subscribers) # rest, d3))"

definition snapshot :: "'z token_parser \<Rightarrow> slab_ops \<Rightarrow> 'z graph_data \<Rightarrow> graph_snapshot \<times> 'z graph_data" where
  "snapshot P S d =
     (let (names, d1) = get_topic_names_and_types P S d;
          (topics, d2) = snapshot_topics P S names d1;
          (nodes, d3) = get_node_names P S d2;
          (services, d4) = get_service_names_and_types P S d3
      in (\<lparr>gs_topics = topics, gs_nodes = nodes, gs_services = services\<rparr>, d4))"

section \<open>Indexes\<close>

text \<open>
  What an index owes to the table of parsed entities: the slab of a key holds the address of
  each entity with that key once and of no other parsed entity. Dead addresses do not matter.
\<close>

definition index_ok :: "('z entity \<Rightarrow> 'k option) \<Rightarrow> (nat \<times> 'z entity) set \<Rightarrow> nat \<Rightarrow> ('k \<times> nat list) list \<Rightarrow> bool" where
  "index_ok key own n idx \<longleftrightarrow>
     distinct (map fst idx) \<and>
     (\<forall>k. \<forall>a\<in>set (slab_of idx k). a < n) \<and>
     (\<forall>(a, e)\<in>own. \<forall>k. count_list (slab_of idx k) a = (if key e = Some k then 1 else 0))"

definition slab_ok :: "slab_ops \<Rightarrow> bool" where
  "slab_ok S \<longleftrightarrow> (\<forall>a slab. mset (so_insert S a slab) = add_mset a (mset slab))"

lemma count_list_mset: "count_list xs a = Multiset.count (mset xs) a"
  by (induction xs) auto

lemma slab_insert_count: "slab_ok S \<Longrightarrow> count_list (so_insert S a slab) b = count_list slab b + (if a = b then 1 else 0)"
  by (simp add: slab_ok_def count_list_mset)

lemma slab_insert_set: "slab_ok S \<Longrightarrow> set (so_insert S a slab) = insert a (set slab)"
  by (metis set_mset_mset set_mset_add_mset_insert slab_ok_def)

lemma count_list_filter: "count_list (filter p xs) a = (if p a then count_list xs a else 0)"
  by (induction xs) auto

lemma slab_of_update: "slab_of (AList.update k v idx) k' = (if k' = k then v else slab_of idx k')"
  by (simp add: slab_of_def update_conv')

lemma index_ok_new: "index_ok key {} n []"
  by (simp add: index_ok_def slab_of_def)

lemma index_ok_shrink: "index_ok key own n idx \<Longrightarrow> own' \<subseteq> own \<Longrightarrow> index_ok key own' n idx"
  unfolding index_ok_def by blast

lemma index_ok_slab:
  assumes "index_ok key own n idx" and "set slab' \<subseteq> set (slab_of idx k)"
    and "\<And>a e. (a, e) \<in> own \<Longrightarrow> count_list slab' a = count_list (slab_of idx k) a"
  shows "index_ok key own n (AList.update k slab' idx)"
  using assms by (auto simp: index_ok_def slab_of_update distinct_update)

lemma index_ok_add:
  assumes "slab_ok S" and "index_ok key own n idx" and "\<And>a e. (a, e) \<in> own \<Longrightarrow> live a" and "fst ` own \<subseteq> {..<n}"
  shows "index_ok key (insert (n, e) own) (Suc n) (slab_add S live n (key e) idx)"
proof (cases "key e")
  case None
  have "count_list (slab_of idx k) n = 0" for k using assms(2) by (auto simp: index_ok_def count_list_0_iff)
  then show ?thesis using assms(2) None by (auto simp: slab_add_def index_ok_def less_SucI)
next
  case (Some k)
  let ?slab = "slab_of idx k"
  let ?kept = "if so_full S ?slab then filter live ?slab else ?slab"
  have fresh: "n \<notin> set (slab_of idx j)" for j using assms(2) by (auto simp: index_ok_def)
  have kept: "count_list ?kept a = count_list ?slab a" if "(a, x) \<in> own" for a x
    using assms(3) [OF that] by (simp add: count_list_filter)
  have slabs: "slab_of (slab_add S live n (key e) idx) j = (if j = k then so_insert S n ?kept else slab_of idx j)" for j
    using Some by (simp add: slab_add_def slab_of_update Let_def)
  have apart: "a \<noteq> n" if "(a, x) \<in> own" for a x using that assms(4) by force
  have "distinct (map fst (slab_add S live n (key e) idx))"
    using assms(2) Some by (simp add: slab_add_def index_ok_def distinct_update Let_def)
  moreover have "a < Suc n" if "a \<in> set (slab_of (slab_add S live n (key e) idx) j)" for a j
    using that assms(2) by (auto simp: slabs slab_insert_set [OF assms(1)] index_ok_def less_SucI split: if_splits)
  moreover have "count_list (slab_of (slab_add S live n (key e) idx) j) n = (if key e = Some j then 1 else 0)" for j
    unfolding slabs using fresh [of k] fresh [of j] Some by (simp add: slab_insert_count [OF assms(1)] count_list_filter)
  moreover have "count_list (slab_of (slab_add S live n (key e) idx) j) a = (if key x = Some j then 1 else 0)"
    if "(a, x) \<in> own" for a x j
    unfolding slabs using that assms(2) apart [OF that] kept [OF that]
    by (fastforce simp: slab_insert_count [OF assms(1)] index_ok_def)
  ultimately show ?thesis by (auto simp: index_ok_def)
qed

section \<open>Invariant\<close>

definition owned :: "'z graph_data \<Rightarrow> (nat \<times> 'z entity) set" where
  "owned d = snd ` set (gd_parsed d)"

definition indexes_ok :: "(nat \<times> 'z entity) set \<Rightarrow> nat \<Rightarrow> 'z graph_data \<Rightarrow> bool" where
  "indexes_ok own n d \<longleftrightarrow>
     index_ok topic_key own n (gd_by_topic d) \<and> index_ok service_key own n (gd_by_service d) \<and>
     index_ok by_node_key own n (gd_by_node d) \<and> index_ok action_key own n (gd_by_action d)"

definition table_ok :: "'z zenoh_ops \<Rightarrow> nat \<Rightarrow> (string \<times> nat \<times> 'z entity) set \<Rightarrow> bool" where
  "table_ok Z n T \<longleftrightarrow>
     inj_on (\<lambda>t. fst (snd t)) T \<and> (\<forall>(ke, a, e)\<in>T. a < n) \<and>
     (\<forall>(ke, a, e)\<in>T. \<forall>ke'. entity_to_liveliness_ke Z e = Ok ke' \<longrightarrow> ke' = ke)"

definition graph_ok :: "'z zenoh_ops \<Rightarrow> 'z graph_data \<Rightarrow> bool" where
  "graph_ok Z d \<longleftrightarrow>
     distinct (map fst (gd_parsed d)) \<and> table_ok Z (gd_next d) (set (gd_parsed d)) \<and> indexes_ok (owned d) (gd_next d) d"

text \<open>A token that is what the code itself would announce for the entity it stands for.\<close>

definition canonical_token :: "'z zenoh_ops \<Rightarrow> 'z token_parser \<Rightarrow> string \<Rightarrow> bool" where
  "canonical_token Z P ke \<longleftrightarrow> (\<forall>e ke'. P ke = Ok e \<longrightarrow> entity_to_liveliness_ke Z e = Ok ke' \<longrightarrow> ke' = ke)"

lemma graph_ok_new: "graph_ok Z gd_new"
  by (simp add: graph_ok_def gd_new_def owned_def indexes_ok_def index_ok_new table_ok_def)

lemma indexes_ok_shrink: "indexes_ok own n d \<Longrightarrow> own' \<subseteq> own \<Longrightarrow> indexes_ok own' n d"
  unfolding indexes_ok_def by (blast intro: index_ok_shrink)

lemma indexes_ok_fields [simp]:
  "indexes_ok own n (d\<lparr>gd_cached := c\<rparr>) = indexes_ok own n d" "indexes_ok own n (d\<lparr>gd_parsed := p\<rparr>) = indexes_ok own n d"
  "indexes_ok own n (d\<lparr>gd_held := h\<rparr>) = indexes_ok own n d" "indexes_ok own n (d\<lparr>gd_next := m\<rparr>) = indexes_ok own n d"
  by (simp_all add: indexes_ok_def)

lemma owned_fields [simp]:
  "owned (d\<lparr>gd_cached := c\<rparr>) = owned d" "owned (d\<lparr>gd_held := h\<rparr>) = owned d" "owned (d\<lparr>gd_next := m\<rparr>) = owned d"
  "owned (d\<lparr>gd_by_topic := t\<rparr>) = owned d" "owned (d\<lparr>gd_by_service := sv\<rparr>) = owned d" "owned (d\<lparr>gd_by_node := nd\<rparr>) = owned d"
  "owned (d\<lparr>gd_by_action := ac\<rparr>) = owned d"
  by (simp_all add: owned_def)

lemma graph_ok_fields [simp]:
  "graph_ok Z (d\<lparr>gd_cached := c\<rparr>) = graph_ok Z d" "graph_ok Z (d\<lparr>gd_held := h\<rparr>) = graph_ok Z d"
  by (simp_all add: graph_ok_def)

lemma indexes_ok_add:
  assumes "slab_ok S" and "indexes_ok own n d" and "\<And>a x. (a, x) \<in> own \<Longrightarrow> upgradable d a" and "fst ` own \<subseteq> {..<n}"
  shows "indexes_ok (insert (n, e) own) (Suc n) (index_entity S n e d)"
  using assms by (auto simp: indexes_ok_def index_entity_def Let_def intro!: index_ok_add)

lemma upgradable_owned: "(a, e) \<in> owned d \<Longrightarrow> upgradable d a"
  by (force simp: upgradable_def upgrade_def owned_def map_of_eq_None_iff)

lemma upgrade_owned:
  assumes "graph_ok Z d" and "(a, e) \<in> owned d"
  shows "upgrade d a = Some e"
proof -
  obtain ke where ke: "(ke, a, e) \<in> set (gd_parsed d)" using assms(2) by (auto simp: owned_def)
  then obtain x where x: "map_of (map snd (gd_parsed d)) a = Some x"
    by (metis (no_types, lifting) image_eqI image_set list.set_map not_Some_eq map_of_eq_None_iff fst_conv snd_conv)
  then obtain ke' where "(ke', a, x) \<in> set (gd_parsed d)" by (auto dest!: map_of_SomeD)
  with ke assms(1) have "x = e"
    using inj_onD [of "\<lambda>t. fst (snd t)" "set (gd_parsed d)" "(ke, a, e)" "(ke', a, x)"] by (simp add: graph_ok_def table_ok_def)
  with x show ?thesis by (simp add: upgrade_def map_add_Some_iff)
qed

section \<open>Operations keep the invariant\<close>

lemma set_update: "distinct (map fst al) \<Longrightarrow> set (AList.update k v al) = insert (k, v) (set (AList.delete k al))"
proof (induction al)
  case (Cons x al)
  then show ?case
  proof (cases "fst x = k")
    case True
    with Cons.prems have "k \<notin> fst ` set al" by auto
    then have "AList.delete k al = al" by (force simp: AList.delete_eq filter_id_conv)
    with True show ?thesis by (cases x) (simp add: AList.delete_eq)
  next
    case False
    with Cons show ?thesis by (cases x) (auto simp: AList.delete_eq)
  qed
qed (simp add: AList.delete_eq)

lemma set_delete_subset: "set (AList.delete k al) \<subseteq> set al"
  by (auto simp: AList.delete_eq)

lemma table_ok_shrink: "table_ok Z n T \<Longrightarrow> T' \<subseteq> T \<Longrightarrow> table_ok Z n T'"
  unfolding table_ok_def by (blast intro: inj_on_subset)

lemma table_ok_add:
  assumes "table_ok Z n T" and "\<And>ke'. entity_to_liveliness_ke Z e = Ok ke' \<Longrightarrow> ke' = ke"
  shows "table_ok Z (Suc n) (insert (ke, n, e) T)"
  using assms by (auto simp: table_ok_def inj_on_def less_SucI)

lemma graph_ok_remove: "graph_ok Z d \<Longrightarrow> graph_ok Z (gd_remove ke d)"
  using set_delete_subset [of ke "gd_parsed d"]
  by (auto simp: graph_ok_def gd_remove_def owned_def distinct_delete intro: table_ok_shrink indexes_ok_shrink)

text \<open>
  A token gets a new entity at a fresh address: in \<open>parse\<close>, where the indexes are filled first, and
  in \<open>add_local_entity\<close>, where the table is.
\<close>

lemma graph_ok_own:
  assumes "slab_ok S" and "graph_ok Z d" and "\<And>ke'. entity_to_liveliness_ke Z e = Ok ke' \<Longrightarrow> ke' = ke"
    and "indexes_ok (owned (gd_remove ke d)) (gd_next d) d1" and "\<And>a x. (a, x) \<in> owned (gd_remove ke d) \<Longrightarrow> upgradable d1 a"
    and "gd_parsed d2 = AList.update ke (gd_next d, e) (gd_parsed d)" and "gd_next d2 = Suc (gd_next d)"
    and "gd_by_topic d2 = gd_by_topic d3" "gd_by_service d2 = gd_by_service d3" "gd_by_node d2 = gd_by_node d3" "gd_by_action d2 = gd_by_action d3"
    and "d3 = index_entity S (gd_next d) e d1"
  shows "graph_ok Z d2"
proof -
  let ?n = "gd_next d" and ?T = "set (AList.delete ke (gd_parsed d))"
  note ok = graph_ok_remove [OF assms(2), of ke]
  have T: "set (gd_parsed d2) = insert (ke, ?n, e) ?T" using assms(2,6) by (simp add: set_update graph_ok_def)
  have own: "owned d2 = insert (?n, e) (owned (gd_remove ke d))" by (simp add: owned_def T gd_remove_def)
  have "table_ok Z ?n ?T" using ok by (simp add: graph_ok_def gd_remove_def)
  then have "table_ok Z (gd_next d2) (set (gd_parsed d2))" unfolding T assms(7) using assms(3) by (rule table_ok_add)
  moreover have "fst ` owned (gd_remove ke d) \<subseteq> {..<?n}" using ok by (auto simp: graph_ok_def table_ok_def owned_def gd_remove_def)
  then have "indexes_ok (owned d2) (gd_next d2) d3"
    unfolding own assms(7,12) using assms(1,4,5) by (intro indexes_ok_add)
  then have "indexes_ok (owned d2) (gd_next d2) d2" by (simp add: indexes_ok_def assms(8-11))
  moreover have "distinct (map fst (gd_parsed d2))" using assms(2,6) by (simp add: distinct_update graph_ok_def)
  ultimately show ?thesis by (simp add: graph_ok_def)
qed

lemma indexes_removed: "graph_ok Z d \<Longrightarrow> indexes_ok (owned (gd_remove ke d)) (gd_next d) d"
  using graph_ok_remove [of Z d ke] by (simp add: graph_ok_def gd_remove_def)

lemma graph_ok_parse_one:
  assumes "slab_ok S" and "graph_ok Z d" and "canonical_token Z P ke"
  shows "graph_ok Z (parse_one P S ke d)"
proof (cases "map_of (gd_parsed d) ke = None \<and> (\<exists>e. P ke = Ok e)")
  case True
  then obtain e where e: "map_of (gd_parsed d) ke = None" "P ke = Ok e" by auto
  have sub: "owned (gd_remove ke d) \<subseteq> owned d" using set_delete_subset [of ke] by (fastforce simp: owned_def gd_remove_def)
  show ?thesis
  proof (rule graph_ok_own [OF assms(1,2) _ indexes_removed [OF assms(2), of ke]])
    show "\<And>ke'. entity_to_liveliness_ke Z e = Ok ke' \<Longrightarrow> ke' = ke" using assms(3) e(2) by (auto simp: canonical_token_def)
    show "\<And>a x. (a, x) \<in> owned (gd_remove ke d) \<Longrightarrow> upgradable d a" using sub upgradable_owned by blast
  qed (use e in \<open>simp_all add: parse_one_def Let_def, simp_all add: index_entity_def Let_def\<close>)
next
  case False
  then have "parse_one P S ke d = d" by (auto simp: parse_one_def split: res.splits)
  then show ?thesis using assms(2) by simp
qed

lemma graph_ok_parse:
  assumes "slab_ok S" and "graph_ok Z d" and "list_all (canonical_token Z P) (gd_cached d)"
  shows "graph_ok Z (gd_parse P S d)"
proof -
  have "graph_ok Z (fold (parse_one P S) kes d')" if "graph_ok Z d'" "list_all (canonical_token Z P) kes" for kes d'
    using that by (induction kes arbitrary: d') (auto simp: graph_ok_parse_one [OF assms(1)])
  then show ?thesis using assms(2,3) by (simp add: gd_parse_def)
qed

lemma graph_ok_add_local:
  assumes "slab_ok S" and "graph_ok Z d"
  shows "graph_ok Z (snd (add_local_entity Z S e d))"
proof (cases "entity_to_liveliness_ke Z e")
  case (Ok ke)
  let ?d1 = "d\<lparr>gd_parsed := AList.update ke (gd_next d, e) (gd_parsed d), gd_next := Suc (gd_next d)\<rparr>"
  have "set (gd_parsed ?d1) = insert (ke, gd_next d, e) (set (AList.delete ke (gd_parsed d)))"
    using assms(2) by (simp add: set_update graph_ok_def)
  then have sub: "owned (gd_remove ke d) \<subseteq> owned ?d1" by (auto simp: owned_def gd_remove_def)
  have "graph_ok Z (index_entity S (gd_next d) e ?d1)"
  proof (rule graph_ok_own [OF assms])
    show "indexes_ok (owned (gd_remove ke d)) (gd_next d) ?d1" using indexes_removed [OF assms(2), of ke] by simp
    show "\<And>a x. (a, x) \<in> owned (gd_remove ke d) \<Longrightarrow> upgradable ?d1 a" using sub upgradable_owned by blast
  qed (use Ok in \<open>simp_all add: index_entity_def Let_def\<close>)
  then show ?thesis using Ok by (simp add: add_local_entity_def Let_def)
qed (use assms in \<open>simp_all add: add_local_entity_def\<close>)

lemma index_ok_drop_token:
  assumes "graph_ok Z d" and "ke \<notin> fst ` set (gd_parsed d)" and "index_ok key (owned d) n idx"
  shows "index_ok key (owned d) n (drop_token Z d ke k idx)"
proof -
  have other: "\<exists>x. upgrade d a = Some x \<and> entity_to_liveliness_ke Z x \<noteq> Ok ke" if own: "(a, e) \<in> owned d" for a e
  proof -
    obtain ke' where ke': "(ke', a, e) \<in> set (gd_parsed d)" using own by (auto simp: owned_def)
    then have "ke' \<noteq> ke" using assms(2) by force
    moreover have "entity_to_liveliness_ke Z e = Ok ke \<longrightarrow> ke = ke'" using ke' assms(1) by (auto simp: graph_ok_def table_ok_def)
    ultimately show ?thesis using upgrade_owned [OF assms(1) own] by auto
  qed
  show ?thesis
  proof (cases k)
    case (Some j)
    show ?thesis
    proof (cases "map_of idx j")
      case None
      then show ?thesis using Some assms(3) by (simp add: drop_token_def)
    next
      case (Some slab)
      then have "slab_of idx j = slab" by (simp add: slab_of_def)
      then show ?thesis using Some \<open>k = Some j\<close> other
        by (auto simp: drop_token_def count_list_filter intro!: index_ok_slab [OF assms(3)] split: option.splits) fastforce+
    qed
  qed (use assms(3) in \<open>simp add: drop_token_def\<close>)
qed

lemma graph_ok_remove_local:
  assumes "graph_ok Z d"
  shows "graph_ok Z (snd (remove_local_entity Z e d))"
proof (cases "entity_to_liveliness_ke Z e")
  case (Ok ke)
  let ?d1 = "gd_remove ke d"
  have ok: "graph_ok Z ?d1" by (rule graph_ok_remove [OF assms])
  have gone: "ke \<notin> fst ` set (gd_parsed ?d1)" by (auto simp: gd_remove_def AList.delete_eq)
  show ?thesis
    using Ok ok by (simp add: remove_local_entity_def Let_def graph_ok_def indexes_ok_def index_ok_drop_token [OF ok gone])
qed (use assms in \<open>simp_all add: remove_local_entity_def\<close>)

lemma index_ok_retained:
  assumes "index_ok key (owned d) n idx"
  shows "index_ok key (owned d) n (retained d k idx)"
  using index_ok_slab [OF assms, of "filter (upgradable d) (slab_of idx k)" k] upgradable_owned [of _ _ d]
  by (auto simp: retained_def slab_of_def count_list_filter assms split: option.splits)

lemma index_ok_retained_all:
  assumes "index_ok key (owned d) n idx"
  shows "index_ok key (owned d) n (retained_all d idx)"
proof -
  have "slab_of (retained_all d idx) k = filter (upgradable d) (slab_of idx k)" for k
    by (cases "map_of idx k") (simp_all add: slab_of_def retained_all_def map_of_map)
  moreover have "map fst (retained_all d idx) = map fst idx" by (induction idx) (auto simp: retained_all_def)
  ultimately show ?thesis using assms upgradable_owned [of _ _ d] by (auto simp: index_ok_def count_list_filter)
qed

section \<open>Runs\<close>

datatype 'z graph_op =
    TokenPut string
  | TokenDelete string
  | QueryReply 'z string
  | AddLocal "'z entity"
  | RemoveLocal "'z entity"
  | CountEntities endpoint_kind string
  | EntitiesByTopic endpoint_kind string
  | EntitiesByService endpoint_kind string
  | EntitiesByNode endpoint_kind "string \<times> string"
  | ReleaseEntity "nat \<times> 'z entity"
  | HasActionServer string
  | NodeExists "string \<times> string"
  | NodeNames
  | TopicNames
  | ServiceNames
  | ExternalEntity "'z list"

fun graph_apply :: "'z zenoh_ops \<Rightarrow> 'z token_parser \<Rightarrow> slab_ops \<Rightarrow> 'z graph_op \<Rightarrow> 'z graph_data \<Rightarrow> 'z graph_data" where
  "graph_apply Z P S (TokenPut ke) d = snd (on_put P ke d)"
| "graph_apply Z P S (TokenDelete ke) d = snd (on_delete P ke d)"
| "graph_apply Z P S (QueryReply zid ke) d = on_query_reply P zid ke d"
| "graph_apply Z P S (AddLocal e) d = snd (add_local_entity Z S e d)"
| "graph_apply Z P S (RemoveLocal e) d = snd (remove_local_entity Z e d)"
| "graph_apply Z P S (CountEntities kind name) d = snd (graph_count P S kind name d)"
| "graph_apply Z P S (EntitiesByTopic kind name) d = snd (get_entities_by_topic P S kind name d)"
| "graph_apply Z P S (EntitiesByService kind name) d = snd (get_entities_by_service P S kind name d)"
| "graph_apply Z P S (EntitiesByNode kind key) d = snd (get_entities_by_node P S kind key d)"
| "graph_apply Z P S (ReleaseEntity ae) d = release ae d"
| "graph_apply Z P S (HasActionServer name) d = snd (has_action_server P S name d)"
| "graph_apply Z P S (NodeExists key) d = snd (node_exists P S key d)"
| "graph_apply Z P S NodeNames d = snd (get_node_names P S d)"
| "graph_apply Z P S TopicNames d = snd (get_topic_names_and_types P S d)"
| "graph_apply Z P S ServiceNames d = snd (get_service_names_and_types P S d)"
| "graph_apply Z P S (ExternalEntity exclude) d = snd (has_external_entity P S exclude d)"

definition graph_run :: "'z zenoh_ops \<Rightarrow> 'z token_parser \<Rightarrow> slab_ops \<Rightarrow> 'z graph_op list \<Rightarrow> 'z graph_data \<Rightarrow> 'z graph_data" where
  "graph_run Z P S ops d = fold (graph_apply Z P S) ops d"

text \<open>
  The specification: the announced entities by token. Nothing but tokens and local
  registrations changes it.
\<close>

definition ok_of :: "'z token_parser \<Rightarrow> string \<Rightarrow> 'z entity option" where
  "ok_of P ke = (case P ke of Ok e \<Rightarrow> Some e | _ \<Rightarrow> None)"

definition announce :: "'z token_parser \<Rightarrow> string \<Rightarrow> (string \<rightharpoonup> 'z entity) \<Rightarrow> (string \<rightharpoonup> 'z entity)" where
  "announce P ke L = (if L ke = None then L(ke := ok_of P ke) else L)"

fun spec_apply :: "'z zenoh_ops \<Rightarrow> 'z token_parser \<Rightarrow> 'z graph_op \<Rightarrow> (string \<rightharpoonup> 'z entity) \<Rightarrow> (string \<rightharpoonup> 'z entity)" where
  "spec_apply Z P (TokenPut ke) L = announce P ke L"
| "spec_apply Z P (TokenDelete ke) L = L(ke := None)"
| "spec_apply Z P (QueryReply zid ke) L =
     (case ok_of P ke of Some e \<Rightarrow> if is_entity_local zid e then L else announce P ke L | None \<Rightarrow> L)"
| "spec_apply Z P (AddLocal e) L = (case entity_to_liveliness_ke Z e of Ok ke \<Rightarrow> L(ke \<mapsto> e) | _ \<Rightarrow> L)"
| "spec_apply Z P (RemoveLocal e) L = (case entity_to_liveliness_ke Z e of Ok ke \<Rightarrow> L(ke := None) | _ \<Rightarrow> L)"
| "spec_apply Z P _ L = L"

definition spec_run :: "'z zenoh_ops \<Rightarrow> 'z token_parser \<Rightarrow> 'z graph_op list \<Rightarrow> (string \<rightharpoonup> 'z entity)" where
  "spec_run Z P ops = fold (spec_apply Z P) ops (\<lambda>_. None)"

definition live :: "'z token_parser \<Rightarrow> 'z graph_data \<Rightarrow> (string \<rightharpoonup> 'z entity)" where
  "live P d ke =
     (case map_of (gd_parsed d) ke of
        Some (a, e) \<Rightarrow> Some e
      | None \<Rightarrow> if ke \<in> set (gd_cached d) then ok_of P ke else None)"

lemma live_parse_one:
  "live P (parse_one P S ke (d\<lparr>gd_cached := kes\<rparr>)) = live P (d\<lparr>gd_cached := ke # kes\<rparr>)"
  by (auto simp: live_def parse_one_def index_entity_def Let_def update_conv' ok_of_def fun_eq_iff split: option.splits res.splits)

lemma live_index [simp]:
  "live P (d\<lparr>gd_by_topic := t\<rparr>) = live P d" "live P (d\<lparr>gd_by_service := s\<rparr>) = live P d" "live P (d\<lparr>gd_by_node := n\<rparr>) = live P d"
  "live P (d\<lparr>gd_by_action := a\<rparr>) = live P d" "live P (d\<lparr>gd_held := h\<rparr>) = live P d"
  by (simp_all add: live_def fun_eq_iff)

lemma parse_one_cached: "parse_one P S ke (d\<lparr>gd_cached := kes\<rparr>) = (parse_one P S ke d)\<lparr>gd_cached := kes\<rparr>"
  by (simp add: parse_one_def index_entity_def Let_def upgradable_def [abs_def] upgrade_def split: res.splits)

lemma live_fold_parse: "live P (fold (parse_one P S) kes (d\<lparr>gd_cached := []\<rparr>)) = live P (d\<lparr>gd_cached := kes\<rparr>)"
proof (induction kes arbitrary: d)
  case (Cons ke kes)
  have "fold (parse_one P S) (ke # kes) (d\<lparr>gd_cached := []\<rparr>) = fold (parse_one P S) kes ((parse_one P S ke d)\<lparr>gd_cached := []\<rparr>)"
    by (simp add: parse_one_cached)
  then have "live P (fold (parse_one P S) (ke # kes) (d\<lparr>gd_cached := []\<rparr>)) = live P ((parse_one P S ke d)\<lparr>gd_cached := kes\<rparr>)"
    by (simp add: Cons.IH)
  then show ?case by (simp only: parse_one_cached [symmetric] live_parse_one)
qed simp

lemma cached_fold_parse: "gd_cached (fold (parse_one P S) kes (d\<lparr>gd_cached := []\<rparr>)) = []"
proof (induction kes arbitrary: d)
  case (Cons ke kes)
  then show ?case using Cons.IH [of "parse_one P S ke d"] by (simp add: parse_one_cached)
qed simp

definition state_ok :: "'z zenoh_ops \<Rightarrow> 'z token_parser \<Rightarrow> 'z graph_data \<Rightarrow> bool" where
  "state_ok Z P d \<longleftrightarrow> graph_ok Z d \<and> list_all (canonical_token Z P) (gd_cached d)"

lemma ensure_parsed_ok:
  assumes "slab_ok S" and "state_ok Z P d"
  shows "graph_ok Z (ensure_parsed P S d)" and "gd_cached (ensure_parsed P S d) = []" and "live P (ensure_parsed P S d) = live P d"
proof -
  show "graph_ok Z (ensure_parsed P S d)" using assms graph_ok_parse by (auto simp: ensure_parsed_def state_ok_def)
  show "gd_cached (ensure_parsed P S d) = []" by (simp add: ensure_parsed_def gd_parse_def cached_fold_parse)
  show "live P (ensure_parsed P S d) = live P d" by (simp add: ensure_parsed_def gd_parse_def live_fold_parse)
qed

text \<open>A query leaves the graph as \<open>ensure_parsed\<close> does, up to dead references and handed-out entities.\<close>

definition query_like :: "'z zenoh_ops \<Rightarrow> 'z token_parser \<Rightarrow> 'z graph_data \<Rightarrow> 'z graph_data \<Rightarrow> bool" where
  "query_like Z P d d' \<longleftrightarrow> state_ok Z P d' \<and> live P d' = live P d"

lemma visits_query_like:
  assumes "slab_ok S" and "state_ok Z P d"
  shows "query_like Z P d (snd (visit_by_topic P S t d))" and "query_like Z P d (snd (visit_by_service P S t d))"
    and "query_like Z P d (snd (visit_by_node P S k d))" and "query_like Z P d (snd (visit_by_action P S t d))"
    and "query_like Z P d (ensure_parsed P S d)"
    and "query_like Z P d (snd (get_topic_names_and_types P S d))" and "query_like Z P d (snd (get_service_names_and_types P S d))"
  using ensure_parsed_ok [OF assms]
  by (simp_all add: query_like_def state_ok_def visit_by_topic_def visit_by_service_def visit_by_node_def visit_by_action_def
      get_topic_names_and_types_def get_service_names_and_types_def Let_def graph_ok_def indexes_ok_def
      index_ok_retained index_ok_retained_all)

lemma query_like_held: "query_like Z P d (d'\<lparr>gd_held := h\<rparr>) = query_like Z P d d'"
  by (simp add: query_like_def state_ok_def)

lemma queries_query_like:
  assumes "slab_ok S" and "state_ok Z P d"
  shows "query_like Z P d (snd (graph_count P S kind t d))" and "query_like Z P d (snd (get_entities_by_topic P S kind t d))"
    and "query_like Z P d (snd (get_entities_by_service P S kind t d))" and "query_like Z P d (snd (get_entities_by_node P S kind k d))"
    and "query_like Z P d (snd (has_action_server P S t d))" and "query_like Z P d (snd (node_exists P S k d))"
    and "query_like Z P d (snd (get_node_names P S d))" and "query_like Z P d (snd (has_external_entity P S ex d))"
    and "query_like Z P d (release ae d)"
proof -
  show "query_like Z P d (release ae d)" using assms(2) by (simp add: release_def query_like_held) (simp add: query_like_def)
qed (use visits_query_like [OF assms] in \<open>simp_all add: graph_count_def count_by_service_def get_entities_by_topic_def
    get_entities_by_service_def get_entities_by_node_def has_action_server_def node_exists_def get_node_names_def
    has_external_entity_def split_beta Let_def query_like_held\<close>)

lemma gd_insert_ok:
  assumes "state_ok Z P d" and "canonical_token Z P ke"
  shows "state_ok Z P (gd_insert ke d)" and "live P (gd_insert ke d) = announce P ke (live P d)"
proof -
  show "state_ok Z P (gd_insert ke d)" using assms by (auto simp: gd_insert_def state_ok_def list_all_iff List.insert_def)
  show "live P (gd_insert ke d) = announce P ke (live P d)"
    by (auto simp: gd_insert_def live_def announce_def ok_of_def fun_eq_iff split: option.splits res.splits)
qed

fun canonical_op :: "'z zenoh_ops \<Rightarrow> 'z token_parser \<Rightarrow> 'z graph_op \<Rightarrow> bool" where
  "canonical_op Z P (TokenPut ke) = canonical_token Z P ke"
| "canonical_op Z P (QueryReply _ ke) = canonical_token Z P ke"
| "canonical_op Z P _ = True"

lemma graph_step:
  assumes "slab_ok S" and "state_ok Z P d" and "canonical_op Z P op"
  shows "state_ok Z P (graph_apply Z P S op d) \<and> live P (graph_apply Z P S op d) = spec_apply Z P op (live P d)"
proof (cases op)
  case (TokenPut ke)
  have "live P d ke \<noteq> None \<or> ok_of P ke = None \<or> map_of (gd_parsed d) ke = None \<and> ke \<notin> set (gd_cached d)"
    by (auto simp: live_def split: option.splits)
  then have "announce P ke (live P d) = live P d" if "map_of (gd_parsed d) ke \<noteq> None \<or> ke \<in> set (gd_cached d)"
    using that by (auto simp: announce_def fun_eq_iff)
  with TokenPut show ?thesis using gd_insert_ok [OF assms(2), of ke] assms by (auto simp: on_put_def Let_def)
next
  case (TokenDelete ke)
  have "state_ok Z P (gd_remove ke d)"
    using assms(2) graph_ok_remove by (auto simp: state_ok_def gd_remove_def list_all_iff)
  moreover have "live P (gd_remove ke d) = (live P d)(ke := None)"
    by (auto simp: live_def gd_remove_def delete_conv' fun_eq_iff)
  ultimately show ?thesis using TokenDelete by (simp add: on_delete_def)
next
  case (QueryReply zid ke)
  have "announce P ke (live P d) = live P d" if "ok_of P ke = None"
    using that by (auto simp: announce_def fun_eq_iff)
  with QueryReply show ?thesis
    using gd_insert_ok [OF assms(2), of ke] assms by (auto simp: on_query_reply_def ok_of_def split: res.splits)
next
  case (AddLocal e)
  show ?thesis
  proof (cases "entity_to_liveliness_ke Z e")
    case (Ok ke)
    have "live P (snd (add_local_entity Z S e d)) = (live P d)(ke \<mapsto> e)"
      using Ok by (auto simp: add_local_entity_def index_entity_def Let_def live_def update_conv' fun_eq_iff)
    moreover have "gd_cached (snd (add_local_entity Z S e d)) = gd_cached d"
      using Ok by (simp add: add_local_entity_def index_entity_def Let_def)
    ultimately show ?thesis using AddLocal Ok assms(2) graph_ok_add_local [OF assms(1), of Z d e] by (simp add: state_ok_def)
  qed (use AddLocal assms(2) in \<open>simp_all add: add_local_entity_def\<close>)
next
  case (RemoveLocal e)
  show ?thesis
  proof (cases "entity_to_liveliness_ke Z e")
    case (Ok ke)
    have "live P (snd (remove_local_entity Z e d)) = (live P d)(ke := None)"
      using Ok by (auto simp: remove_local_entity_def Let_def gd_remove_def live_def delete_conv' fun_eq_iff)
    moreover have "gd_cached (snd (remove_local_entity Z e d)) = removeAll ke (gd_cached d)"
      using Ok by (simp add: remove_local_entity_def gd_remove_def Let_def)
    ultimately show ?thesis using RemoveLocal Ok assms(2) graph_ok_remove_local [of Z d e] by (auto simp: state_ok_def list_all_iff)
  qed (use RemoveLocal assms(2) in \<open>simp_all add: remove_local_entity_def\<close>)
qed (use queries_query_like [OF assms(1,2)] visits_query_like [OF assms(1,2)] in \<open>simp_all add: query_like_def\<close>)

lemma graph_run_ok:
  assumes "slab_ok S" and "list_all (canonical_op Z P) ops"
  shows "state_ok Z P (graph_run Z P S ops gd_new) \<and> live P (graph_run Z P S ops gd_new) = spec_run Z P ops"
  using assms(2)
proof (induction ops rule: rev_induct)
  case Nil
  then show ?case by (simp add: graph_run_def spec_run_def state_ok_def graph_ok_new) (simp add: gd_new_def live_def fun_eq_iff)
next
  case (snoc op ops)
  then show ?case using graph_step [OF assms(1), of Z P "graph_run Z P S ops gd_new" op] by (simp add: graph_run_def spec_run_def)
qed

section \<open>Answers\<close>

lemma set_map_filter: "set (List.map_filter f xs) = {y. \<exists>x\<in>set xs. f x = Some y}"
  by (induction xs) (auto split: option.splits)

text \<open>Nobody outside the graph still owns an entity whose token is gone.\<close>

definition no_stale :: "'z graph_data \<Rightarrow> bool" where
  "no_stale d \<longleftrightarrow> set (gd_held d) \<subseteq> owned d"

lemma upgrade_iff:
  assumes "graph_ok Z d" and "no_stale d"
  shows "upgrade d a = Some e \<longleftrightarrow> (a, e) \<in> owned d"
proof
  assume "upgrade d a = Some e"
  then have "(a, e) \<in> set (map snd (gd_parsed d) @ gd_held d)" unfolding upgrade_def by (rule map_of_SomeD)
  then show "(a, e) \<in> owned d" using assms(2) by (auto simp: owned_def no_stale_def)
qed (rule upgrade_owned [OF assms(1)])

text \<open>The entities found under a key are the owned ones with that key, each once.\<close>

lemma upgraded_exact:
  assumes ok: "graph_ok Z d" and ns: "no_stale d" and idx: "index_ok key (owned d) (gd_next d) idx"
  shows "distinct (upgraded d (slab_of idx k))" and "set (upgraded d (slab_of idx k)) = {(a, e) \<in> owned d. key e = Some k}"
proof -
  have set: "set (upgraded d slab) = {(a, e) \<in> owned d. a \<in> set slab}" for slab
    by (auto simp: upgraded_def set_map_filter upgrade_iff [OF ok ns])
  have in_slab: "a \<in> set (slab_of idx k) \<longleftrightarrow> key e = Some k" if "(a, e) \<in> owned d" for a e
  proof -
    have "count_list (slab_of idx k) a = (if key e = Some k then 1 else 0)" using idx that by (auto simp: index_ok_def)
    then show ?thesis by (metis count_list_0_iff zero_neq_one)
  qed
  show "set (upgraded d (slab_of idx k)) = {(a, e) \<in> owned d. key e = Some k}"
    unfolding set using in_slab by auto
  have "distinct (upgraded d slab)" if "\<And>a. upgradable d a \<Longrightarrow> count_list slab a \<le> 1" for slab
    using that
  proof (induction slab)
    case (Cons a slab)
    have "count_list slab b \<le> 1" if "upgradable d b" for b using Cons.prems [OF that] by (auto split: if_splits)
    moreover have "a \<notin> set slab" if "upgradable d a" using Cons.prems [OF that] by (simp add: count_list_0_iff)
    ultimately show ?case
      using Cons.IH by (auto simp: upgraded_def map_filter_def upgradable_def split: option.splits)
  qed (simp add: upgraded_def map_filter_def)
  moreover have "count_list (slab_of idx k) a \<le> 1" if up: "upgradable d a" for a
  proof -
    obtain e where "(a, e) \<in> owned d" using up by (auto simp: upgradable_def upgrade_iff [OF ok ns])
    then show ?thesis using idx by (auto simp: index_ok_def)
  qed
  ultimately show "distinct (upgraded d (slab_of idx k))" by blast
qed

lemma live_parsed:
  assumes "graph_ok Z d" and "gd_cached d = []"
  shows "live P d ke = Some e \<longleftrightarrow> (\<exists>a. (ke, a, e) \<in> set (gd_parsed d))"
proof -
  have keys: "distinct (map fst (gd_parsed d))" using assms(1) by (simp add: graph_ok_def)
  show ?thesis
    unfolding map_of_eq_Some_iff [OF keys, symmetric] using assms(2) by (cases "map_of (gd_parsed d) ke") (auto simp: live_def)
qed

lemma card_owned:
  assumes "graph_ok Z d" and "gd_cached d = []"
  shows "card {(a, e) \<in> owned d. Q e} = card {ke. \<exists>e. live P d ke = Some e \<and> Q e}"
proof -
  let ?T = "{t \<in> set (gd_parsed d). Q (snd (snd t))}"
  have inj: "inj_on (\<lambda>t. fst (snd t)) (set (gd_parsed d))" and keys: "distinct (map fst (gd_parsed d))"
    using assms(1) by (simp_all add: graph_ok_def table_ok_def)
  have "inj_on (fst \<circ> snd) ?T" by (rule inj_on_subset [OF inj [folded comp_def]]) auto
  then have "inj_on snd ?T" by (rule inj_on_imageI2)
  then have "card (snd ` ?T) = card ?T" by (rule card_image)
  moreover have "snd ` ?T = {(a, e) \<in> owned d. Q e}" by (force simp: owned_def)
  moreover have "inj_on fst (set (gd_parsed d))" using keys by (simp add: distinct_map)
  then have "inj_on fst ?T" by (rule inj_on_subset) auto
  then have "card (fst ` ?T) = card ?T" by (rule card_image)
  moreover have "fst ` ?T = {ke. \<exists>e. live P d ke = Some e \<and> Q e}"
    unfolding live_parsed [OF assms] by force
  ultimately show ?thesis by simp
qed

lemma update_superset: "map_of al k = None \<Longrightarrow> set al \<subseteq> set (AList.update k v al)"
  by (induction al) (auto split: if_splits)

lemma ensure_parsed_held: "gd_held (ensure_parsed P S d) = gd_held d" "owned d \<subseteq> owned (ensure_parsed P S d)"
proof -
  have one: "gd_held (parse_one P S ke x) = gd_held x" "owned x \<subseteq> owned (parse_one P S ke x)" for ke x
  proof -
    show "gd_held (parse_one P S ke x) = gd_held x"
      by (simp add: parse_one_def index_entity_def Let_def split: res.splits)
    show "owned x \<subseteq> owned (parse_one P S ke x)"
    proof (cases "map_of (gd_parsed x) ke = None \<and> (\<exists>e. P ke = Ok e)")
      case True
      then obtain e where "gd_parsed (parse_one P S ke x) = AList.update ke (gd_next x, e) (gd_parsed x)"
        by (auto simp: parse_one_def index_entity_def Let_def)
      then show ?thesis using True update_superset [of "gd_parsed x" ke] by (simp add: owned_def image_mono)
    next
      case False
      then have "parse_one P S ke x = x" by (auto simp: parse_one_def split: res.splits)
      then show ?thesis by simp
    qed
  qed
  have "gd_held (fold (parse_one P S) kes x) = gd_held x \<and> owned x \<subseteq> owned (fold (parse_one P S) kes x)" for kes x
    by (induction kes arbitrary: x) (use one in \<open>auto, blast\<close>)
  from this [of "gd_cached d" "d\<lparr>gd_cached := []\<rparr>"]
  show "gd_held (ensure_parsed P S d) = gd_held d" "owned d \<subseteq> owned (ensure_parsed P S d)"
    by (simp_all add: ensure_parsed_def gd_parse_def)
qed

lemma found_exact:
  assumes "slab_ok S" and "state_ok Z P d" and "no_stale d"
    and "\<And>d1. graph_ok Z d1 \<Longrightarrow> index_ok key (owned d1) (gd_next d1) (idx d1)"
    and "es = upgraded (ensure_parsed P S d) (slab_of (idx (ensure_parsed P S d)) k)"
  shows "length (filter (\<lambda>(a, e). Q e) es) = card {ke. \<exists>e. live P d ke = Some e \<and> key e = Some k \<and> Q e}"
    and "(\<exists>(a, e)\<in>set es. Q e) \<longleftrightarrow> (\<exists>ke e. live P d ke = Some e \<and> key e = Some k \<and> Q e)"
proof -
  let ?d = "ensure_parsed P S d"
  note ep = ensure_parsed_ok [OF assms(1,2)]
  have ns: "no_stale ?d" using assms(3) ensure_parsed_held [where P = P and S = S and d = d] by (auto simp: no_stale_def)
  note exact = upgraded_exact [OF ep(1) ns assms(4) [OF ep(1)], of k, folded assms(5)]
  have "length (filter (\<lambda>(a, e). Q e) es) = card (set (filter (\<lambda>(a, e). Q e) es))"
    using exact(1) by (simp only: distinct_card distinct_filter)
  also have "set (filter (\<lambda>(a, e). Q e) es) = {(a, e) \<in> owned ?d. key e = Some k \<and> Q e}" using exact(2) by auto
  also have "card \<dots> = card {ke. \<exists>e. live P ?d ke = Some e \<and> key e = Some k \<and> Q e}" by (rule card_owned [OF ep(1,2)])
  finally show "length (filter (\<lambda>(a, e). Q e) es) = card {ke. \<exists>e. live P d ke = Some e \<and> key e = Some k \<and> Q e}"
    unfolding ep(3) .
  have own: "(\<exists>a. (a, e) \<in> owned ?d) \<longleftrightarrow> (\<exists>ke. live P ?d ke = Some e)" for e
    unfolding live_parsed [OF ep(1,2)] by (force simp: owned_def)
  have "(\<exists>(a, e)\<in>set es. Q e) \<longleftrightarrow> (\<exists>e. (\<exists>a. (a, e) \<in> owned ?d) \<and> key e = Some k \<and> Q e)" using exact(2) by auto
  then show "(\<exists>(a, e)\<in>set es. Q e) \<longleftrightarrow> (\<exists>ke e. live P d ke = Some e \<and> key e = Some k \<and> Q e)"
    unfolding own ep(3) by blast
qed

lemma graph_ok_indexes:
  assumes "graph_ok Z d"
  shows "index_ok topic_key (owned d) (gd_next d) (gd_by_topic d)" and "index_ok service_key (owned d) (gd_next d) (gd_by_service d)"
    and "index_ok by_node_key (owned d) (gd_next d) (gd_by_node d)" and "index_ok action_key (owned d) (gd_next d) (gd_by_action d)"
  using assms by (simp_all add: graph_ok_def indexes_ok_def)

text \<open>The five bits of \<open>has_action_server\<close>.\<close>

definition mask :: "(string \<Rightarrow> bool) \<Rightarrow> u8" where
  "mask p =
     (if p ''/_action/send_goal'' then 1 else 0) OR (if p ''/_action/get_result'' then 2 else 0) OR
     (if p ''/_action/cancel_goal'' then 4 else 0) OR (if p ''/_action/feedback'' then 8 else 0) OR
     (if p ''/_action/status'' then 16 else 0)"

lemma bit_if_zero: "bit (if b then x else 0 :: u8) n \<longleftrightarrow> b \<and> bit x n"
  by simp

lemma mask_or: "mask p OR mask q = mask (\<lambda>s. p s \<or> q s)"
  unfolding mask_def by (rule bit_word_eqI) (simp only: bit_or_iff bit_if_zero, blast)

lemma mask_none: "mask (\<lambda>s. False) = 0"
  by (simp add: mask_def)

lemma mask_full: "mask p = 0b11111 \<longleftrightarrow> p ''/_action/send_goal'' \<and> p ''/_action/get_result'' \<and> p ''/_action/cancel_goal'' \<and>
    p ''/_action/feedback'' \<and> p ''/_action/status''"
  by (auto simp: mask_def split: if_splits)

lemma found_bits_mask: "found_bits topic = mask (ends_with topic)"
  by (simp add: found_bits_def action_bits_def mask_def or.assoc)

definition on_topic :: "'z entity \<Rightarrow> string \<Rightarrow> bool" where
  "on_topic e suf = (case entity_get_endpoint e of None \<Rightarrow> False | Some ep \<Rightarrow> ends_with (ee_topic ep) suf)"

lemma on_topic_iff: "on_topic e suf \<longleftrightarrow> (\<exists>ep. e = EndpointEntity ep \<and> ends_with (ee_topic ep) suf)"
  by (cases e) (simp_all add: on_topic_def entity_get_endpoint_def)

lemma fold_found:
  "fold (\<lambda>(a, e) acc. case entity_get_endpoint e of None \<Rightarrow> acc | Some ep \<Rightarrow> acc OR found_bits (ee_topic ep)) es (mask p) =
     mask (\<lambda>suf. p suf \<or> (\<exists>(a, e)\<in>set es. on_topic e suf))"
proof (induction es arbitrary: p)
  case (Cons x es)
  obtain a e where x: "x = (a, e)" by force
  have "(case entity_get_endpoint e of None \<Rightarrow> mask p | Some ep \<Rightarrow> mask p OR found_bits (ee_topic ep)) = mask (\<lambda>suf. p suf \<or> on_topic e suf)"
    by (simp add: on_topic_def found_bits_mask mask_or split: option.splits)
  then show ?case using Cons.IH by (simp add: x disj_assoc)
qed simp

lemma topic_kind:
  "kind \<in> {Publisher, Subscription} \<Longrightarrow> topic_key e = Some name \<and> is_kind kind e \<longleftrightarrow>
     (\<exists>ep. e = EndpointEntity ep \<and> ee_kind ep = kind \<and> ee_topic ep = name)"
  by (cases e) (auto simp: topic_key_def is_kind_def entity_get_endpoint_def)

lemma service_kind:
  "kind \<notin> {Publisher, Subscription} \<Longrightarrow> service_key e = Some name \<and> is_kind kind e \<longleftrightarrow>
     (\<exists>ep. e = EndpointEntity ep \<and> ee_kind ep = kind \<and> ee_topic ep = name)"
  by (cases e; cases kind) (auto simp: service_key_def is_kind_def entity_get_endpoint_def)

section \<open>Keys of the node index\<close>

definition has_key :: "('k \<times> nat list) list \<Rightarrow> 'k \<Rightarrow> bool" where
  "has_key idx k \<longleftrightarrow> map_of idx k \<noteq> None"

lemma has_key_ops:
  "has_key idx k \<Longrightarrow> has_key (slab_add S f a key idx) k" "has_key (slab_add S f a (Some k) idx) k"
  "has_key idx k \<Longrightarrow> has_key (retained d j idx) k" "has_key idx k \<Longrightarrow> has_key (drop_token Z d ke j' idx) k"
  by (auto simp: has_key_def slab_add_def retained_def drop_token_def Let_def update_conv' split: option.splits)

lemma node_keys_parse_one: "has_key (gd_by_node d) k \<Longrightarrow> has_key (gd_by_node (parse_one P S ke d)) k"
  by (simp add: parse_one_def index_entity_def Let_def has_key_ops split: res.splits)

lemma node_keys_ensure: "has_key (gd_by_node d) k \<Longrightarrow> has_key (gd_by_node (ensure_parsed P S d)) k"
proof -
  have "has_key (gd_by_node x) k \<Longrightarrow> has_key (gd_by_node (fold (parse_one P S) kes x)) k" for kes x
    by (induction kes arbitrary: x) (simp_all add: node_keys_parse_one)
  then show "has_key (gd_by_node d) k \<Longrightarrow> ?thesis" by (simp add: ensure_parsed_def gd_parse_def)
qed

lemma node_keys_apply:
  assumes "has_key (gd_by_node d) k"
  shows "has_key (gd_by_node (graph_apply Z P S op d)) k"
  using node_keys_ensure [OF assms, of P S] assms
  by (cases op)
    (simp_all add: on_put_def on_delete_def on_query_reply_def gd_insert_def gd_remove_def add_local_entity_def remove_local_entity_def
      index_entity_def graph_count_def count_by_service_def get_entities_by_topic_def get_entities_by_service_def get_entities_by_node_def
      release_def has_action_server_def node_exists_def get_node_names_def get_topic_names_and_types_def get_service_names_and_types_def
      has_external_entity_def visit_by_topic_def visit_by_service_def visit_by_node_def visit_by_action_def Let_def split_beta
      has_key_ops split: res.splits)

lemma node_keys_run: "has_key (gd_by_node d) k \<Longrightarrow> has_key (gd_by_node (graph_run Z P S ops d)) k"
  unfolding graph_run_def by (induction ops arbitrary: d) (simp_all add: node_keys_apply)

section \<open>Properties\<close>


definition vec_slab :: slab_ops where
  "vec_slab = \<lparr>so_insert = \<lambda>a slab. slab @ [a], so_full = \<lambda>slab. 128 \<le> length slab\<rparr>"

definition offline :: "unit zenoh_ops" where
  "offline = \<lparr>z_show = \<lambda>_. [], z_parse = \<lambda>_. None, z_key_ok = \<lambda>_. False\<rparr>"

definition talker :: "unit endpoint_entity" where
  "talker = \<lparr>ee_id = 1, ee_node = None, ee_kind = Publisher, ee_topic = ''/chatter'', ee_type_info = None, ee_qos = qos_default\<rparr>"


text \<open>
  The price of weak references. A caller that keeps an entity it was handed keeps it
  alive in the indexes: after the publisher's token is gone nothing is announced any more,
  but the graph goes on counting the publisher until the caller drops its copy.
\<close>

theorem held_entity_outlives_token:
  assumes "slab_ok S" and "P ke = Ok (EndpointEntity ep)" and "ee_kind ep = Publisher"
    and "d = graph_run Z P S [TokenPut ke, EntitiesByTopic Publisher (ee_topic ep), TokenDelete ke] gd_new"
  shows "live P d = (\<lambda>_. None) \<and> fst (graph_count P S Publisher (ee_topic ep) d) = 1 \<and>
    fst (graph_count P S Publisher (ee_topic ep) (release (0, EndpointEntity ep) d)) = 0"
proof -
  have "mset (so_insert S 0 []) = {#0#}" using assms(1) by (simp add: slab_ok_def)
  then have one: "so_insert S 0 [] = [0]" by simp
  have "gd_cached d = []" "gd_parsed d = []" "map_of (gd_by_topic d) (ee_topic ep) = Some [0]" "gd_held d = [(0, EndpointEntity ep)]"
    using assms(2,3) one unfolding assms(4)
    by (simp_all add: graph_run_def on_put_def gd_insert_def gd_new_def get_entities_by_topic_def visit_by_topic_def ensure_parsed_def
        gd_parse_def parse_one_def index_entity_def slab_add_def slab_of_def topic_key_def upgraded_def map_filter_def upgrade_def
        upgradable_def retained_def is_kind_def entity_get_endpoint_def on_delete_def gd_remove_def Let_def)
  then show ?thesis
    using assms(3) by (simp add: graph_count_def visit_by_topic_def ensure_parsed_def live_def fun_eq_iff release_def upgraded_def
        slab_of_def map_filter_def upgrade_def is_kind_def entity_get_endpoint_def Let_def)
qed

lemma held_entity_outlives_token_witness:
  "fst (graph_count (\<lambda>_. Ok (EndpointEntity talker)) vec_slab Publisher ''/chatter''
     (graph_run offline (\<lambda>_. Ok (EndpointEntity talker)) vec_slab
        [TokenPut ''a'', EntitiesByTopic Publisher ''/chatter'', TokenDelete ''a''] gd_new)) = 1"
  using held_entity_outlives_token [of vec_slab "\<lambda>_. Ok (EndpointEntity talker)" "''a''" talker _ offline]
  by (simp add: slab_ok_def vec_slab_def talker_def)

text \<open>
  A node is never forgotten. Once a node or an endpoint of it was announced and somebody
  asked, \<open>node_exists\<close> says that the node exists for ever after, whatever disappears, even
  when nothing at all is announced any more.
\<close>

theorem node_exists_never_forgets:
  assumes "P ke = Ok e" and "by_node_key e = Some key"
  shows "fst (node_exists P S key (graph_run Z P S (TokenPut ke # NodeExists key # ops) gd_new)) \<and>
    spec_run Z P [TokenPut ke, NodeExists key, TokenDelete ke] = (\<lambda>_. None)"
proof -
  let ?d = "graph_run Z P S [TokenPut ke, NodeExists key] gd_new"
  have "has_key (gd_by_node ?d) key"
    using assms
    by (simp add: graph_run_def on_put_def gd_insert_def gd_new_def node_exists_def ensure_parsed_def gd_parse_def parse_one_def
        index_entity_def Let_def has_key_ops)
  then have "has_key (gd_by_node (graph_run Z P S ops ?d)) key" by (rule node_keys_run)
  then have "has_key (gd_by_node (ensure_parsed P S (graph_run Z P S ops ?d))) key" by (rule node_keys_ensure)
  then have "fst (node_exists P S key (graph_run Z P S (TokenPut ke # NodeExists key # ops) gd_new))"
    by (simp add: node_exists_def Let_def graph_run_def has_key_def)
  moreover have "spec_run Z P [TokenPut ke, NodeExists key, TokenDelete ke] = (\<lambda>_. None)"
    by (simp add: spec_run_def announce_def fun_eq_iff)
  ultimately show ?thesis by simp
qed

definition lone_node :: "unit node_entity" where
  "lone_node = \<lparr>ne_domain_id = 0, ne_z_id = (), ne_id = 1, ne_name = ''n'', ne_namespace = ''/'', ne_enclave = []\<rparr>"

lemma node_exists_never_forgets_witness:
  "fst (node_exists (\<lambda>_. Ok (NodeEntity lone_node)) vec_slab ([], ''n'')
     (graph_run offline (\<lambda>_. Ok (NodeEntity lone_node)) vec_slab [TokenPut ''a'', NodeExists ([], ''n''), TokenDelete ''a''] gd_new))"
  using node_exists_never_forgets [of "\<lambda>_. Ok (NodeEntity lone_node)" "''a''" "NodeEntity lone_node" "([], ''n'')" vec_slab offline
      "[TokenDelete ''a'']"]
  by (simp add: by_node_key_def node_key_def normalize_node_namespace_def lone_node_def)

end
