(* ===== verification/Interface_Parser.thy ===== *)
theory Interface_Parser
  imports Hiroz_Prelude
begin

text \<open>
  The parser of interface definition files (\<open>hiroz-codegen/src/parser\<close>, \<open>types.rs\<close>): \<open>.msg\<close>,
  \<open>.srv\<close> and \<open>.action\<close> texts become parsed messages, services and actions. Texts are lists of
  UTF-8 bytes; the white space of \<open>trim\<close> and \<open>split_whitespace\<close> is the Unicode property, spelled
  out on bytes. A path is its list of components. Reading a decimal floating point number is
  an argument \<open>parse_f64\<close> of the definitions, about which nothing is assumed.

  Shown: printing a definition in the documented syntax and parsing it gives the definition
  back, for messages and services; which field lines an action file loses; which default
  values make the parser panic.
\<close>

section \<open>String functions of the standard library\<close>

text \<open>\<open>char::is_whitespace\<close> on the first character: its length in bytes, 0 if it is not one.\<close>

definition ascii_ws :: "char \<Rightarrow> bool" where
  "ascii_ws c = (let n = of_char c :: nat in n = 32 \<or> (9 \<le> n \<and> n \<le> 13))"

definition ws2 :: "char \<Rightarrow> char \<Rightarrow> bool" where
  "ws2 a b = (of_char a = (0xC2 :: nat) \<and> of_char b \<in> {0x85, 0xA0 :: nat})"

definition ws3 :: "char \<Rightarrow> char \<Rightarrow> char \<Rightarrow> bool" where
  "ws3 a b c =
     (let x = of_char a :: nat; y = of_char b :: nat; z = of_char c :: nat in
      (x = 0xE1 \<and> y = 0x9A \<and> z = 0x80) \<or>
      (x = 0xE2 \<and> y = 0x80 \<and> ((0x80 \<le> z \<and> z \<le> 0x8A) \<or> z = 0xA8 \<or> z = 0xA9 \<or> z = 0xAF)) \<or>
      (x = 0xE2 \<and> y = 0x81 \<and> z = 0x9F) \<or>
      (x = 0xE3 \<and> y = 0x80 \<and> z = 0x80))"

fun ws_len :: "string \<Rightarrow> nat" where
  "ws_len [] = 0"
| "ws_len (a # r) =
     (if ascii_ws a then 1
      else (case r of
              [] \<Rightarrow> 0
            | b # r' \<Rightarrow> if ws2 a b then 2
                else (case r' of [] \<Rightarrow> 0 | c # _ \<Rightarrow> if ws3 a b c then 3 else 0)))"

fun ws_len_rev :: "string \<Rightarrow> nat" where
  "ws_len_rev [] = 0"
| "ws_len_rev (a # r) =
     (if ascii_ws a then 1
      else (case r of
              [] \<Rightarrow> 0
            | b # r' \<Rightarrow> if ws2 b a then 2
                else (case r' of [] \<Rightarrow> 0 | c # _ \<Rightarrow> if ws3 c b a then 3 else 0)))"

lemma ws_len_pos_nonempty: "0 < ws_len s \<Longrightarrow> s \<noteq> []"
  by (cases s) auto

lemma ws_len_rev_pos_nonempty: "0 < ws_len_rev s \<Longrightarrow> s \<noteq> []"
  by (cases s) auto

function drop_ws :: "(string \<Rightarrow> nat) \<Rightarrow> string \<Rightarrow> string" where
  "drop_ws w s = (if w s = 0 \<or> s = [] then s else drop_ws w (drop (w s) s))"
  by auto
termination by (relation "measure (\<lambda>(_, s). length s)") auto

declare drop_ws.simps [simp del]

definition trim_start :: "string \<Rightarrow> string" where
  "trim_start s = drop_ws ws_len s"

definition trim_end :: "string \<Rightarrow> string" where
  "trim_end s = rev (drop_ws ws_len_rev (rev s))"

definition trim :: "string \<Rightarrow> string" where
  "trim s = trim_end (trim_start s)"

text \<open>\<open>str::split_whitespace\<close>: \<open>acc\<close> is the reversed token under construction.\<close>

function split_ws :: "string \<Rightarrow> string \<Rightarrow> string list" where
  "split_ws acc [] = (if acc = [] then [] else [rev acc])"
| "split_ws acc (c # r) =
     (if 0 < ws_len (c # r)
      then (if acc = [] then [] else [rev acc]) @ split_ws [] (drop (ws_len (c # r)) (c # r))
      else split_ws (c # acc) r)"
  by pat_completeness auto
termination
  by (relation "measure (\<lambda>(_, s). length s)") (auto split: list.splits)

definition split_whitespace :: "string \<Rightarrow> string list" where
  "split_whitespace s = split_ws [] s"

text \<open>\<open>str::lines\<close>.\<close>

definition strip_cr :: "string \<Rightarrow> string" where
  "strip_cr s = unwrap_or (strip_suffix_char (char_of (13 :: nat)) s) s"

definition newline :: char where
  "newline = char_of (10 :: nat)"

definition str_lines :: "string \<Rightarrow> string list" where
  "str_lines s =
     (let ps = split_on newline s
      in map strip_cr (butlast ps) @ (if last ps = [] then [] else [last ps]))"

definition join_lines :: "string list \<Rightarrow> string" where
  "join_lines ls = join_with newline ls"

text \<open>\<open>str::find\<close> with a character, and with the two characters \<open><=\<close>.\<close>

fun find_char :: "char \<Rightarrow> string \<Rightarrow> nat option" where
  "find_char c [] = None"
| "find_char c (x # xs) = (if x = c then Some 0 else map_option Suc (find_char c xs))"

fun find_le :: "string \<Rightarrow> nat option" where
  "find_le (a # b # r) =
     (if a = CHR ''<'' \<and> b = CHR ''='' then Some 0 else map_option Suc (find_le (b # r)))"
| "find_le _ = None"

text \<open>\<open>str::parse\<close> for \<open>usize\<close> (64 bits) and for \<open>i64\<close>.\<close>

definition parse_usize :: "string \<Rightarrow> u64 option" where
  "parse_usize s = map_option word_of_nat (parse_uint (2 ^ 64 - 1) s)"

definition parse_i64 :: "string \<Rightarrow> u64 option" where
  "parse_i64 s =
     (case s of
        c # ds \<Rightarrow>
          (if c = CHR ''-'' then
             (if ds = [] then None
              else (case parse_digits 0 ds of
                      None \<Rightarrow> None
                    | Some n \<Rightarrow> if n \<le> 2 ^ 63 then Some (word_of_int (- int n)) else None))
           else map_option word_of_nat (parse_uint (2 ^ 63 - 1) s))
      | [] \<Rightarrow> None)"

text \<open>
  Paths: whether it is absolute, and the components. \<open>file_name\<close> and \<open>file_stem\<close> are those of
  \<open>std::path::Path\<close>.
\<close>

record path_buf =
  pb_absolute :: bool
  pb_components :: "string list"

definition file_name :: "path_buf \<Rightarrow> string option" where
  "file_name p =
     (if pb_components p = [] \<or> last (pb_components p) = ''..'' then None
      else Some (last (pb_components p)))"

fun rsplit_dot :: "string \<Rightarrow> (string \<times> string) option" where
  "rsplit_dot [] = None"
| "rsplit_dot (c # cs) =
     (case rsplit_dot cs of
        Some (a, b) \<Rightarrow> Some (c # a, b)
      | None \<Rightarrow> if c = CHR ''.'' then Some ([], cs) else None)"

definition file_stem :: "path_buf \<Rightarrow> string option" where
  "file_stem p =
     (case file_name p of
        None \<Rightarrow> None
      | Some n \<Rightarrow> (case rsplit_dot n of
            None \<Rightarrow> Some n
          | Some (a, _) \<Rightarrow> if a = [] then Some n else Some a))"

definition with_file_name :: "path_buf \<Rightarrow> string \<Rightarrow> path_buf" where
  "with_file_name p n =
     (if file_name p = None then p\<lparr>pb_components := pb_components p @ [n]\<rparr>
      else p\<lparr>pb_components := butlast (pb_components p) @ [n]\<rparr>)"

definition path_str :: "path_buf \<Rightarrow> string" where
  "path_str p = (if pb_absolute p then ''/'' else []) @ join_with CHR ''/'' (pb_components p)"

definition str_bytes :: "string \<Rightarrow> bytes" where
  "str_bytes s = map (\<lambda>c. word_of_nat (of_char c)) s"

section \<open>Parsed interfaces\<close>

datatype array_type = ASingle | AFixed u64 | ABounded u64 | AUnbounded

record idl_field_type =
  ft_base_type :: string
  ft_package :: "string option"
  ft_array :: array_type
  ft_string_bound :: "u64 option"

datatype default_value =
    DBool bool | DInt u64 | DFloat u64 | DString string
  | DBoolArray "bool list" | DIntArray "u64 list" | DFloatArray "u64 list" | DStringArray "string list"

record idl_field =
  fl_name :: string
  fl_type :: idl_field_type
  fl_default :: "default_value option"

record idl_constant =
  co_name :: string
  co_type :: string
  co_value :: string

record parsed_message =
  pm_name :: string
  pm_package :: string
  pm_fields :: "idl_field list"
  pm_constants :: "idl_constant list"
  pm_source :: string
  pm_path :: path_buf

record parsed_service =
  ps_name :: string
  ps_package :: string
  ps_request :: parsed_message
  ps_response :: parsed_message
  ps_source :: string
  ps_path :: path_buf

record parsed_action =
  pa_name :: string
  pa_package :: string
  pa_goal :: parsed_message
  pa_result :: "parsed_message option"
  pa_feedback :: "parsed_message option"
  pa_source :: string
  pa_path :: path_buf

datatype idl_error =
    InvalidConstantFormat nat
  | InvalidConstantDeclaration nat
  | InvalidFieldFormat nat string
  | InvalidStringBound string
  | InvalidArraySyntax string
  | InvalidBoundedArraySize string
  | InvalidFixedArraySize string
  | EmptyArrayDefault string
  | InvalidArrayDefault string
  | InvalidDefault string
  | InvalidFilename
  | NonUtf8Filename
  | WrongDelimiterCount nat
  | WrongSectionCount nat

fun ok_or :: "'e \<Rightarrow> 'a option \<Rightarrow> ('a, 'e) res" where
  "ok_or e None = Err e"
| "ok_or e (Some a) = Ok a"

section \<open>Lines (\<open>parser/mod.rs\<close>)\<close>

definition strip_comment :: "string \<Rightarrow> string" where
  "strip_comment line = hd (split_on CHR ''#'' line)"

definition parse_constant :: "string \<Rightarrow> nat \<Rightarrow> (idl_constant, idl_error) res" where
  "parse_constant line line_num =
     (case split_once CHR ''='' line of
        None \<Rightarrow> Err (InvalidConstantFormat line_num)
      | Some (decl, rhs) \<Rightarrow>
          (case split_whitespace decl of
             [t, n] \<Rightarrow> Ok \<lparr>co_name = n, co_type = t, co_value = trim rhs\<rparr>
           | [t] \<Rightarrow> Ok \<lparr>co_name = [], co_type = t, co_value = trim rhs\<rparr>
           | _ \<Rightarrow> Err (InvalidConstantDeclaration line_num)))"

definition parse_array_suffix :: "string \<Rightarrow> string \<Rightarrow> (array_type, idl_error) res" where
  "parse_array_suffix type_str array_str =
     (if array_str = [] then Ok AUnbounded
      else case strip_prefix_str ''<='' array_str of
             Some stripped \<Rightarrow> res_map ABounded (ok_or (InvalidBoundedArraySize type_str) (parse_usize stripped))
           | None \<Rightarrow> res_map AFixed (ok_or (InvalidFixedArraySize type_str) (parse_usize array_str)))"

definition split_array :: "string \<Rightarrow> (string \<times> array_type, idl_error) res" where
  "split_array type_str =
     (case find_char CHR ''['' type_str of
        None \<Rightarrow> Ok (type_str, ASingle)
      | Some idx \<Rightarrow>
          (if last type_str \<noteq> CHR '']'' then Err (InvalidArraySyntax type_str)
           else res_map (Pair (take idx type_str))
                  (parse_array_suffix type_str (butlast (drop (Suc idx) type_str)))))"

definition split_bound :: "string \<Rightarrow> string \<Rightarrow> (string \<times> u64 option, idl_error) res" where
  "split_bound type_str base_str =
     (case find_le base_str of
        None \<Rightarrow> Ok (base_str, None)
      | Some idx \<Rightarrow>
          (if CHR ''['' \<notin> set base_str
           then res_map (\<lambda>b. (take idx base_str, Some b))
                  (ok_or (InvalidStringBound type_str) (parse_usize (drop (idx + 2) base_str)))
           else Ok (base_str, None)))"

definition split_package :: "string \<Rightarrow> string option \<times> string" where
  "split_package base_str =
     (case split_once CHR ''/'' base_str of
        Some (pkg, typ) \<Rightarrow> (Some pkg, typ)
      | None \<Rightarrow> if base_str = ''Header'' then (Some ''std_msgs'', ''Header'') else (None, base_str))"

definition parse_unbounded_type :: "string \<Rightarrow> (idl_field_type, idl_error) res" where
  "parse_unbounded_type type_str =
     res_bind (split_array type_str) (\<lambda>(base_str, array).
     res_bind (split_bound type_str base_str) (\<lambda>(base_str, string_bound).
     (let (package, base_type) = split_package base_str
      in Ok \<lparr>ft_base_type = base_type, ft_package = package, ft_array = array,
             ft_string_bound = string_bound\<rparr>)))"

definition parse_field_type :: "string \<Rightarrow> (idl_field_type, idl_error) res" where
  "parse_field_type type_str =
     (case find_le type_str of
        Some idx \<Rightarrow>
          if CHR ''['' \<notin> set type_str
          then res_map (\<lambda>b. \<lparr>ft_base_type = take idx type_str, ft_package = None,
                              ft_array = ASingle, ft_string_bound = Some b\<rparr>)
                 (ok_or (InvalidStringBound type_str) (parse_usize (drop (idx + 2) type_str)))
          else parse_unbounded_type type_str
      | None \<Rightarrow> parse_unbounded_type type_str)"

definition parse_bool :: "string \<Rightarrow> bool option" where
  "parse_bool s =
     (if s = ''true'' \<or> s = ''True'' then Some True
      else if s = ''false'' \<or> s = ''False'' then Some False else None)"

text \<open>
  A literal in matching quotes. The slice \<open>[1..len - 1]\<close> of a single quote character has its
  end before its start, which panics.
\<close>

definition in_quotes :: "string \<Rightarrow> bool" where
  "in_quotes s = (s \<noteq> [] \<and> ((hd s = char_of (34 :: nat) \<and> last s = char_of (34 :: nat)) \<or>
                         (hd s = char_of (39 :: nat) \<and> last s = char_of (39 :: nat))))"

definition unquote :: "string \<Rightarrow> (string, 'e) res" where
  "unquote s = (if length s < 2 then Panic else Ok (butlast (tl s)))"

fun string_elements :: "string list \<Rightarrow> (string list option, 'e) res" where
  "string_elements [] = Ok (Some [])"
| "string_elements (e # es) =
     (if in_quotes e
      then res_bind (unquote e) (\<lambda>x. res_map (map_option (Cons x)) (string_elements es))
      else Ok None)"

definition parse_array_default :: "(string \<Rightarrow> u64 option) \<Rightarrow> string \<Rightarrow> (default_value, idl_error) res" where
  "parse_array_default parse_f64 s =
     (let inner = butlast (tl s) in
      if inner = [] then Err (EmptyArrayDefault s)
      else
        (let elements = map trim (split_on CHR '','' inner) in
         case those (map parse_bool elements) of
           Some bs \<Rightarrow> Ok (DBoolArray bs)
         | None \<Rightarrow>
          (case those (map parse_i64 elements) of
             Some is \<Rightarrow> Ok (DIntArray is)
           | None \<Rightarrow>
            (case those (map parse_f64 elements) of
               Some fs \<Rightarrow> Ok (DFloatArray fs)
             | None \<Rightarrow>
                res_bind (string_elements elements)
                  (\<lambda>r. case r of Some ss \<Rightarrow> Ok (DStringArray ss)
                       | None \<Rightarrow> Err (InvalidArrayDefault s))))))"

definition parse_default_value :: "(string \<Rightarrow> u64 option) \<Rightarrow> string \<Rightarrow> (default_value, idl_error) res" where
  "parse_default_value parse_f64 s =
     (if s \<noteq> [] \<and> hd s = CHR ''['' \<and> last s = CHR '']'' then parse_array_default parse_f64 s
      else case parse_bool s of
        Some b \<Rightarrow> Ok (DBool b)
      | None \<Rightarrow>
          if in_quotes s then res_map DString (unquote s)
          else (case parse_i64 s of
                  Some i \<Rightarrow> Ok (DInt i)
                | None \<Rightarrow> (case parse_f64 s of
                      Some f \<Rightarrow> Ok (DFloat f)
                    | None \<Rightarrow> Err (InvalidDefault s))))"

definition parse_field :: "(string \<Rightarrow> u64 option) \<Rightarrow> string \<Rightarrow> nat \<Rightarrow> (idl_field, idl_error) res" where
  "parse_field parse_f64 line line_num =
     (case split_whitespace line of
        t # name # rest \<Rightarrow>
          res_bind (parse_field_type t) (\<lambda>field_type.
          res_bind (if rest = [] then Ok None
                    else res_map Some (parse_default_value parse_f64 (join_with CHR '' '' rest)))
            (\<lambda>default. Ok \<lparr>fl_name = name, fl_type = field_type, fl_default = default\<rparr>))
      | _ \<Rightarrow> Err (InvalidFieldFormat line_num line))"

section \<open>Messages, services and actions\<close>

text \<open>The test of \<open>parse_msg_string\<close> that tells a constant from a field.\<close>

definition is_constant :: "string \<Rightarrow> bool" where
  "is_constant line =
     (case find_char CHR ''='' line of
        None \<Rightarrow> False
      | Some eq_pos \<Rightarrow>
          if 0 < eq_pos \<and> line ! (eq_pos - 1) = CHR ''<'' then False
          else count_list (take eq_pos line) CHR ''['' = count_list (take eq_pos line) CHR '']'')"

type_synonym sections = "idl_field list \<times> idl_constant list"

definition msg_line :: "(string \<Rightarrow> u64 option) \<Rightarrow> sections \<Rightarrow> nat \<times> string \<Rightarrow> (sections, idl_error) res" where
  "msg_line parse_f64 acc nl =
     (let (fields, constants) = acc; line = trim (strip_comment (snd nl)) in
      if line = [] then Ok acc
      else if is_constant line then
        (case parse_constant line (fst nl) of
           Ok c \<Rightarrow> Ok (fields, if co_name c \<noteq> [] then constants @ [c] else constants)
         | Err e \<Rightarrow> Ok acc
         | Panic \<Rightarrow> Panic)
      else res_map (\<lambda>f. (fields @ [f], constants)) (parse_field parse_f64 line (fst nl)))"

definition message_name :: "path_buf \<Rightarrow> (string, idl_error) res" where
  "message_name path =
     res_bind (ok_or InvalidFilename (file_stem path))
       (\<lambda>n. if utf8_valid (str_bytes n) then Ok n else Err NonUtf8Filename)"

definition parse_msg_string ::
  "(string \<Rightarrow> u64 option) \<Rightarrow> string \<Rightarrow> string \<Rightarrow> path_buf \<Rightarrow> (parsed_message, idl_error) res" where
  "parse_msg_string parse_f64 source package path =
     res_bind (message_name path) (\<lambda>name.
     res_bind (res_fold (msg_line parse_f64) ([], []) (enumerate 0 (str_lines source))) (\<lambda>(fields, constants).
     Ok \<lparr>pm_name = name, pm_package = package, pm_fields = fields, pm_constants = constants,
        pm_source = source, pm_path = path\<rparr>))"

definition delimiter_indices :: "string list \<Rightarrow> nat list" where
  "delimiter_indices ls = map fst (filter (\<lambda>(i, l). trim l = ''---'') (enumerate 0 ls))"

definition parse_srv_string ::
  "(string \<Rightarrow> u64 option) \<Rightarrow> string \<Rightarrow> string \<Rightarrow> path_buf \<Rightarrow> (parsed_service, idl_error) res" where
  "parse_srv_string parse_f64 source package path =
     res_bind (message_name path) (\<lambda>name.
     (let ls = str_lines source; ds = delimiter_indices ls in
      if length ds \<noteq> 1 then Err (WrongDelimiterCount (length ds))
      else
        (let request_source = join_lines (take (hd ds) ls);
             response_source = join_lines (drop (Suc (hd ds)) ls);
             request_path = with_file_name path (name @ ''Request.msg'');
             response_path = with_file_name path (name @ ''Response.msg'')
         in res_bind (parse_msg_string parse_f64 request_source package request_path) (\<lambda>request.
            res_bind (parse_msg_string parse_f64 response_source package response_path) (\<lambda>response.
            Ok \<lparr>ps_name = name, ps_package = package,
               ps_request = request\<lparr>pm_name := name @ ''Request''\<rparr>,
               ps_response = response\<lparr>pm_name := name @ ''Response''\<rparr>,
               ps_source = source, ps_path = path\<rparr>)))))"

definition action_line :: "(string \<Rightarrow> u64 option) \<Rightarrow> sections \<Rightarrow> nat \<times> string \<Rightarrow> (sections, idl_error) res" where
  "action_line parse_f64 acc nl =
     (let (fields, constants) = acc; line = trim (strip_comment (snd nl)) in
      if line = [] then Ok acc
      else if CHR ''='' \<in> set line
      then res_map (\<lambda>c. (fields, constants @ [c])) (parse_constant line (fst nl + 1))
      else res_map (\<lambda>f. (fields @ [f], constants)) (parse_field parse_f64 line (fst nl + 1)))"

definition parse_action_section ::
  "(string \<Rightarrow> u64 option) \<Rightarrow> string \<Rightarrow> string \<Rightarrow> string \<Rightarrow> path_buf \<Rightarrow> (parsed_message, idl_error) res" where
  "parse_action_section parse_f64 content name package path =
     res_bind (res_fold (action_line parse_f64) ([], []) (enumerate 0 (str_lines content))) (\<lambda>(fields, constants).
     Ok \<lparr>pm_name = name, pm_package = package, pm_fields = fields, pm_constants = constants,
        pm_source = content, pm_path = path\<rparr>)"

definition parse_action ::
  "(string \<Rightarrow> u64 option) \<Rightarrow> string \<Rightarrow> string \<Rightarrow> string \<Rightarrow> path_buf \<Rightarrow> (parsed_action, idl_error) res" where
  "parse_action parse_f64 content action_name package path =
     (let ls = str_lines content; ds = delimiter_indices ls in
      if length ds \<noteq> 2 then Err (WrongSectionCount (length ds + 1))
      else
        (let i = ds ! 0; j = ds ! 1;
             goal_content = join_lines (take i ls);
             result_content = join_lines (drop (Suc i) (take j ls));
             feedback_content = join_lines (drop (Suc j) ls)
         in res_bind (parse_action_section parse_f64 goal_content (action_name @ ''Goal'') package path) (\<lambda>goal.
            res_bind (parse_action_section parse_f64 result_content (action_name @ ''Result'') package path) (\<lambda>result.
            res_bind (parse_action_section parse_f64 feedback_content (action_name @ ''Feedback'') package path) (\<lambda>feedback.
            Ok \<lparr>pa_name = action_name, pa_package = package, pa_goal = goal, pa_result = Some result,
               pa_feedback = Some feedback, pa_source = content, pa_path = path\<rparr>)))))"

section \<open>The documented syntax\<close>

text \<open>
  What a definition file looks like: identifiers, field and constant lines with optional
  comments, notes and blank lines. The printer is the reference the parser is compared with.
\<close>

definition ink :: "char \<Rightarrow> bool" where
  "ink c = (33 \<le> (of_char c :: nat) \<and> (of_char c :: nat) \<le> 126)"

definition vis :: "char \<Rightarrow> bool" where
  "vis c = (ink c \<and> c \<noteq> CHR ''#'')"

definition ident_char :: "char \<Rightarrow> bool" where
  "ident_char c = (let n = of_char c :: nat in
     (48 \<le> n \<and> n \<le> 57) \<or> (65 \<le> n \<and> n \<le> 90) \<or> (97 \<le> n \<and> n \<le> 122) \<or> n = 95)"

definition ident :: "string \<Rightarrow> bool" where
  "ident s = (s \<noteq> [] \<and> list_all ident_char s)"

definition token :: "string \<Rightarrow> bool" where
  "token s = (s \<noteq> [] \<and> list_all vis s)"

definition show_i64 :: "u64 \<Rightarrow> string" where
  "show_i64 w = (if sint w < 0 then CHR ''-'' # show_nat (nat (- sint w)) else show_nat (nat (sint w)))"

definition show_bool :: "bool \<Rightarrow> string" where
  "show_bool b = (if b then ''true'' else ''false'')"

definition show_array :: "array_type \<Rightarrow> string" where
  "show_array a =
     (case a of ASingle \<Rightarrow> [] | AFixed n \<Rightarrow> ''['' @ show_nat (unat n) @ '']''
      | ABounded n \<Rightarrow> ''[<='' @ show_nat (unat n) @ '']'' | AUnbounded \<Rightarrow> ''[]'')"

definition show_base :: "idl_field_type \<Rightarrow> string" where
  "show_base ft = (case ft_package ft of None \<Rightarrow> [] | Some p \<Rightarrow> p @ ''/'') @ ft_base_type ft"

definition show_bound :: "idl_field_type \<Rightarrow> string" where
  "show_bound ft = (case ft_string_bound ft of None \<Rightarrow> [] | Some n \<Rightarrow> ''<='' @ show_nat (unat n))"

definition show_field_type :: "idl_field_type \<Rightarrow> string" where
  "show_field_type ft = show_base ft @ show_bound ft @ show_array (ft_array ft)"

definition wf_field_type :: "idl_field_type \<Rightarrow> bool" where
  "wf_field_type ft =
     (ident (ft_base_type ft) \<and>
      (case ft_package ft of None \<Rightarrow> ft_base_type ft \<noteq> ''Header''
       | Some p \<Rightarrow> ident p \<and> ft_string_bound ft = None))"

fun show_default :: "default_value \<Rightarrow> string" where
  "show_default (DBool b) = show_bool b"
| "show_default (DInt i) = show_i64 i"
| "show_default (DString s) = [char_of (34 :: nat)] @ s @ [char_of (34 :: nat)]"
| "show_default (DBoolArray bs) = ''['' @ join_with CHR '','' (map show_bool bs) @ '']''"
| "show_default (DIntArray is) = ''['' @ join_with CHR '','' (map show_i64 is) @ '']''"
| "show_default _ = []"

fun wf_default :: "default_value \<Rightarrow> bool" where
  "wf_default (DBool b) = True"
| "wf_default (DInt i) = True"
| "wf_default (DString s) = (list_all vis s \<and> CHR ''='' \<notin> set s)"
| "wf_default (DBoolArray bs) = (bs \<noteq> [])"
| "wf_default (DIntArray is) = (is \<noteq> [])"
| "wf_default _ = False"

definition field_tokens :: "idl_field \<Rightarrow> string list" where
  "field_tokens f =
     [show_field_type (fl_type f), fl_name f] @
     (case fl_default f of None \<Rightarrow> [] | Some d \<Rightarrow> [show_default d])"

definition show_field :: "idl_field \<Rightarrow> string" where
  "show_field f = join_with CHR '' '' (field_tokens f)"

definition wf_field :: "idl_field \<Rightarrow> bool" where
  "wf_field f = (wf_field_type (fl_type f) \<and> ident (fl_name f) \<and>
                 (case fl_default f of None \<Rightarrow> True | Some d \<Rightarrow> wf_default d))"

definition show_constant :: "idl_constant \<Rightarrow> string" where
  "show_constant c = co_type c @ '' '' @ co_name c @ '' = '' @ co_value c"

definition text_line :: "string \<Rightarrow> bool" where
  "text_line s = (newline \<notin> set s \<and> char_of (13 :: nat) \<notin> set s)"

definition wf_constant :: "idl_constant \<Rightarrow> bool" where
  "wf_constant c = (ident (co_type c) \<and> ident (co_name c) \<and> co_value c \<noteq> [] \<and>
     vis (hd (co_value c)) \<and> vis (last (co_value c)) \<and> CHR ''#'' \<notin> set (co_value c) \<and>
     text_line (co_value c))"

datatype idl_item = IField idl_field string | IConst idl_constant string | INote string | IBlank

definition show_comment :: "string \<Rightarrow> string" where
  "show_comment c = (if c = [] then [] else '' #'' @ c)"

fun show_item :: "idl_item \<Rightarrow> string" where
  "show_item (IField f c) = show_field f @ show_comment c"
| "show_item (IConst k c) = show_constant k @ show_comment c"
| "show_item (INote c) = ''#'' @ c"
| "show_item IBlank = []"

fun wf_item :: "idl_item \<Rightarrow> bool" where
  "wf_item (IField f c) = (wf_field f \<and> text_line c)"
| "wf_item (IConst k c) = (wf_constant k \<and> text_line c)"
| "wf_item (INote c) = text_line c"
| "wf_item IBlank = True"

fun item_fields :: "idl_item \<Rightarrow> idl_field list" where
  "item_fields (IField f c) = [f]"
| "item_fields _ = []"

fun item_constants :: "idl_item \<Rightarrow> idl_constant list" where
  "item_constants (IConst k c) = [k]"
| "item_constants _ = []"

section \<open>White space and lines\<close>

lemma vis_ink [simp]: "vis c \<Longrightarrow> ink c"
  by (simp add: vis_def)

lemma vis_ws_len [simp]: "ink c \<Longrightarrow> ws_len (c # r) = 0"
  by (auto simp: ink_def ascii_ws_def ws2_def ws3_def Let_def split: list.split)

lemma vis_ws_len_rev [simp]: "ink c \<Longrightarrow> ws_len_rev (c # r) = 0"
  by (auto simp: ink_def ascii_ws_def ws2_def ws3_def Let_def split: list.split)

lemma space_ws [simp]: "ws_len (CHR '' '' # r) = 1" "ws_len_rev (CHR '' '' # r) = 1"
  by (simp_all add: ascii_ws_def)

lemma ws_len_rev_last:
  assumes "ink c"
  shows "ws_len_rev (s @ [c]) \<le> length s"
proof -
  have "s = [] \<or> (\<exists>a. s = [a]) \<or> (\<exists>a b. s = [a, b]) \<or> (\<exists>a b d r. s = a # b # d # r)"
    by (metis list.exhaust)
  with assms show ?thesis
    by (auto simp: ink_def ascii_ws_def ws2_def ws3_def Let_def split: list.split)
qed

declare ws_len.simps [simp del] ws_len_rev.simps [simp del]

lemma drop_ws_nil [simp]: "drop_ws w [] = []"
  by (subst drop_ws.simps) simp

lemma drop_ws_vis [simp]:
  "ink c \<Longrightarrow> drop_ws ws_len (c # r) = c # r" "ink c \<Longrightarrow> drop_ws ws_len_rev (c # r) = c # r"
  by (subst drop_ws.simps, simp)+

lemma drop_ws_space [simp]:
  "drop_ws ws_len (CHR '' '' # r) = drop_ws ws_len r"
  "drop_ws ws_len_rev (CHR '' '' # r) = drop_ws ws_len_rev r"
  by (subst drop_ws.simps, simp)+

lemma trim_nil [simp]: "trim [] = []"
  by (simp add: trim_def trim_start_def trim_end_def)

lemma rev_cons_last: "s \<noteq> [] \<Longrightarrow> rev s = last s # rev (butlast s)"
  by (metis append_butlast_last_id rev.simps(2) rev_append rev_rev_ident append_Cons append_Nil)

lemma trim_end_vis: "s \<noteq> [] \<Longrightarrow> ink (last s) \<Longrightarrow> trim_end s = s"
  using drop_ws_vis(2) [of "last s" "rev (butlast s)"]
  by (simp add: trim_end_def rev_cons_last)

lemma trim_vis: "s \<noteq> [] \<Longrightarrow> ink (hd s) \<Longrightarrow> ink (last s) \<Longrightarrow> trim s = s"
  by (cases s) (simp_all add: trim_def trim_start_def trim_end_vis)

lemma trim_space_left: "trim (CHR '' '' # s) = trim s"
  by (simp add: trim_def trim_start_def)

lemma trim_space_right:
  assumes "s \<noteq> []" and "ink (hd s)" and "ink (last s)"
  shows "trim (s @ '' '') = s"
proof -
  have "drop_ws ws_len (s @ '' '') = s @ '' ''"
    using assms by (cases s) simp_all
  moreover have "trim_end (s @ '' '') = trim_end s"
    by (simp add: trim_end_def)
  ultimately show ?thesis
    using assms by (simp add: trim_def trim_start_def trim_end_vis)
qed

lemma drop_ws_rev_append_vis:
  "ink c \<Longrightarrow> \<exists>s'. drop_ws ws_len_rev (s @ [c]) = s' @ [c]"
proof (induction "length s" arbitrary: s rule: less_induct)
  case less
  show ?case
  proof (cases "ws_len_rev (s @ [c]) = 0")
    case True
    then show ?thesis by (subst drop_ws.simps) auto
  next
    case False
    let ?n = "ws_len_rev (s @ [c])"
    have n: "0 < ?n" "?n \<le> length s"
      using False ws_len_rev_last [OF less.prems] by auto
    have "\<exists>s'. drop_ws ws_len_rev (drop ?n s @ [c]) = s' @ [c]"
      using n less.prems by (intro less.hyps) auto
    moreover have "drop_ws ws_len_rev (s @ [c]) = drop_ws ws_len_rev (drop ?n s @ [c])"
      using n by (subst drop_ws.simps) simp
    ultimately show ?thesis by simp
  qed
qed

lemma trim_head:
  assumes "ink c"
  shows "\<exists>s'. trim (c # s) = c # s'"
proof -
  obtain s' where "drop_ws ws_len_rev (rev s @ [c]) = s' @ [c]"
    using drop_ws_rev_append_vis [OF assms] by blast
  with assms show ?thesis
    by (simp add: trim_def trim_start_def trim_end_def)
qed

lemma split_ws_vis: "list_all vis t \<Longrightarrow> split_ws acc (t @ r) = split_ws (rev t @ acc) r"
  by (induction t arbitrary: acc) auto

lemma split_whitespace_join:
  "list_all token ts \<Longrightarrow> split_whitespace (join_with CHR '' '' ts) = ts"
proof (induction "CHR '' ''" ts rule: join_with.induct)
  case (2 p)
  then show ?case
    using split_ws_vis [of p "[]" "[]"] by (simp add: split_whitespace_def token_def)
next
  case (3 p q ps)
  then show ?case
    using split_ws_vis [of p "[]" "CHR '' '' # join_with CHR '' '' (q # ps)"]
    by (auto simp: split_whitespace_def token_def)
qed (simp add: split_whitespace_def)

section \<open>Types and default values\<close>

lemma ident_char_vis: "ident_char c \<Longrightarrow> vis c"
  by (auto simp: ident_char_def vis_def ink_def Let_def)

lemma not_ident_char [simp]:
  "\<not> ident_char CHR ''<''" "\<not> ident_char CHR ''=''" "\<not> ident_char CHR ''[''"
  "\<not> ident_char CHR '']''" "\<not> ident_char CHR ''/''" "\<not> ident_char CHR ''#''"
  "\<not> ident_char CHR '' ''" "\<not> ident_char CHR ''-''" "\<not> ident_char CHR '',''"
  "\<not> ident_char newline" "\<not> ident_char (char_of (13 :: nat))" "\<not> ident_char (char_of (34 :: nat))"
  "\<not> ident_char (char_of (39 :: nat))"
  by (simp_all add: ident_char_def newline_def)

lemma ident_not_in: "list_all ident_char s \<Longrightarrow> \<not> ident_char c \<Longrightarrow> c \<notin> set s"
  by (auto simp: list_all_iff)

lemma is_digit_ident: "is_digit c \<Longrightarrow> ident_char c"
  by (auto simp: is_digit_def digit_val_def ident_char_def Let_def split: if_splits)

lemma show_nat_ident [simp]: "list_all ident_char (show_nat n)"
  using show_nat_digits is_digit_ident by (auto simp: list_all_iff)

lemma ident_vis: "list_all ident_char s \<Longrightarrow> list_all vis s"
  by (auto simp: list_all_iff ident_char_vis)

lemma ident_token: "ident s \<Longrightarrow> token s"
  by (simp add: ident_def token_def ident_vis)

lemma find_char_append: "c \<notin> set a \<Longrightarrow> find_char c (a @ c # b) = Some (length a)"
  by (induction a) auto

lemma find_char_None: "c \<notin> set a \<Longrightarrow> find_char c a = None"
  by (induction a) auto

lemma find_le_append: "CHR ''<'' \<notin> set a \<Longrightarrow> find_le (a @ CHR ''<'' # CHR ''='' # b) = Some (length a)"
proof (induction a)
  case (Cons x xs)
  then show ?case by (cases xs) auto
qed simp

lemma find_le_None: "CHR ''<'' \<notin> set a \<Longrightarrow> find_le a = None"
  by (induction a rule: find_le.induct) auto

lemma parse_usize_show [simp]: "parse_usize (show_nat (unat n)) = Some n"
proof -
  have "(unsigned n :: nat) < 2 ^ LENGTH(64)"
    by (rule unsigned_less)
  then have "unat n \<le> 2 ^ 64 - 1" by simp
  then show ?thesis
    by (simp add: parse_usize_def parse_uint_show_nat)
qed

lemma strip_le_digits [simp]: "strip_prefix_str ''<='' (show_nat n) = None"
proof (rule ccontr)
  assume "strip_prefix_str ''<='' (show_nat n) \<noteq> None"
  then have "take (Suc (Suc 0)) (show_nat n) = ''<=''"
    by (auto simp: strip_prefix_str_def split: if_splits)
  then have "CHR ''<'' \<in> set (show_nat n)"
    by (metis in_set_takeD list.set_intros(1))
  then show False using ident_not_in [OF show_nat_ident, of "CHR ''<''"] by simp
qed

lemma parse_array_suffix_show:
  "parse_array_suffix ts (show_nat (unat n)) = Ok (AFixed n)"
  "parse_array_suffix ts (''<='' @ show_nat (unat n)) = Ok (ABounded n)"
  "parse_array_suffix ts [] = Ok AUnbounded"
  using strip_prefix_str_append [of "''<=''" "show_nat (unat n)"]
  by (simp_all add: parse_array_suffix_def)

lemma split_array_show:
  assumes "CHR ''['' \<notin> set body"
  shows "split_array (body @ show_array a) = Ok (body, a)"
proof -
  have suffix: "split_array (body @ CHR ''['' # inner @ '']'') =
      res_map (Pair body) (parse_array_suffix (body @ CHR ''['' # inner @ '']'') inner)" for inner
    using assms by (simp add: split_array_def find_char_append butlast_append)
  show ?thesis
    using assms suffix [of "[]"] suffix [of "''<='' @ show_nat _"] suffix [of "show_nat _"]
    by (cases a) (simp_all add: show_array_def parse_array_suffix_show [simplified] split_array_def find_char_None)
qed

lemma split_bound_show:
  assumes "CHR ''<'' \<notin> set base" and "CHR ''['' \<notin> set base"
  shows "split_bound ts (base @ show_bound ft) = Ok (base, ft_string_bound ft)"
  using assms find_le_append [of base] ident_not_in [OF show_nat_ident, of "CHR ''[''"]
  by (cases "ft_string_bound ft") (auto simp: split_bound_def show_bound_def find_le_None)

lemma split_package_show:
  assumes "wf_field_type ft"
  shows "split_package (show_base ft) = (ft_package ft, ft_base_type ft)"
proof (cases "ft_package ft")
  case None
  have "split_once CHR ''/'' s = None" if "CHR ''/'' \<notin> set s" for s
    using that by (induction s) auto
  with None assms show ?thesis
    by (auto simp: split_package_def show_base_def wf_field_type_def ident_def dest: ident_not_in [of _ "CHR ''/''"])
next
  case (Some p)
  then have "CHR ''/'' \<notin> set p"
    using assms by (auto simp: wf_field_type_def ident_def dest: ident_not_in [of _ "CHR ''/''"])
  with Some show ?thesis
    by (simp add: split_package_def show_base_def split_once_append)
qed

lemma show_base_free:
  assumes "wf_field_type ft" and "c \<noteq> CHR ''/''" and "\<not> ident_char c"
  shows "c \<notin> set (show_base ft)"
  using assms by (auto simp: wf_field_type_def show_base_def ident_def list_all_iff split: option.splits)

lemma parse_field_type_unbounded:
  "CHR ''['' \<in> set s \<or> find_le s = None \<Longrightarrow> parse_field_type s = parse_unbounded_type s"
  by (auto simp: parse_field_type_def split: option.split)

lemma parse_field_type_show:
  assumes "wf_field_type ft"
  shows "parse_field_type (show_field_type ft) = Ok ft"
proof (cases "ft_string_bound ft \<noteq> None \<and> ft_array ft = ASingle")
  case True
  then obtain n where n: "ft_string_bound ft = Some n" "ft_array ft = ASingle" by auto
  have pkg: "ft_package ft = None"
    using assms n by (auto simp: wf_field_type_def split: option.splits)
  have free: "CHR ''<'' \<notin> set (show_base ft)" "CHR ''['' \<notin> set (show_base ft)"
    using assms by (simp_all add: show_base_free)
  with n pkg ident_not_in [OF show_nat_ident, of "CHR ''[''"] find_le_append [OF free(1), of "show_nat (unat n)"]
  show ?thesis
    by (simp add: parse_field_type_def show_field_type_def show_bound_def show_array_def show_base_def)
next
  case False
  have free: "CHR ''<'' \<notin> set (show_base ft)" "CHR ''['' \<notin> set (show_base ft)"
    using assms by (simp_all add: show_base_free)
  have body: "CHR ''['' \<notin> set (show_base ft @ show_bound ft)"
    using free ident_not_in [OF show_nat_ident, of "CHR ''[''"]
    by (auto simp: show_bound_def split: option.splits)
  have "CHR ''['' \<in> set (show_field_type ft) \<or> find_le (show_field_type ft) = None"
    using False free(1)
    by (cases "ft_array ft") (auto simp: show_field_type_def show_array_def show_bound_def find_le_None split: option.splits)
  then have "parse_field_type (show_field_type ft) = parse_unbounded_type (show_field_type ft)"
    by (rule parse_field_type_unbounded)
  also have "\<dots> = Ok ft"
    using split_array_show [OF body, of "ft_array ft"] split_bound_show [OF free, of _ ft] split_package_show [OF assms]
    by (simp add: parse_unbounded_type_def show_field_type_def)
  finally show ?thesis .
qed

lemma sint_u64_bounds: "- (2 ^ 63) \<le> sint (w :: u64)" "sint (w :: u64) < 2 ^ 63"
  using sint_greater_eq [of w] sint_less [of w] by simp_all

lemma parse_i64_show: "parse_i64 (show_i64 w) = Some w"
proof (cases "sint w < 0")
  case True
  then have "nat (- sint w) \<le> 2 ^ 63"
    using sint_u64_bounds(1) [of w] by simp
  with True show ?thesis
    by (simp add: parse_i64_def show_i64_def parse_digits_show_nat)
next
  case False
  then have le: "nat (sint w) \<le> 2 ^ 63 - 1"
    using sint_u64_bounds(2) [of w] by simp
  obtain c cs where c: "show_nat (nat (sint w)) = c # cs" by (meson list.exhaust show_nat_nonempty)
  then have "c \<noteq> CHR ''-''"
    using ident_not_in [OF show_nat_ident, of "CHR ''-''" "nat (sint w)"] by auto
  moreover have "(word_of_nat (nat (sint w)) :: u64) = w"
    using False by (simp add: of_nat_nat)
  ultimately show ?thesis
    using False c parse_uint_show_nat [OF le] by (simp add: parse_i64_def show_i64_def)
qed

lemma show_i64_chars: "c \<in> set (show_i64 w) \<Longrightarrow> ident_char c \<or> c = CHR ''-''"
  using show_nat_ident by (auto simp: show_i64_def list_all_iff split: if_splits)

lemma show_i64_token: "token (show_i64 w)"
proof -
  have "vis CHR ''-''" by (simp add: vis_def ink_def)
  then have "vis c" if "c \<in> set (show_i64 w)" for c
    using show_i64_chars [OF that] ident_char_vis by blast
  then show ?thesis
    by (simp add: token_def list_all_iff) (simp add: show_i64_def)
qed

lemma dash_not_quote:
  "CHR ''-'' \<noteq> char_of (34 :: nat)" "CHR ''-'' \<noteq> char_of (39 :: nat)" "char_of (34 :: nat) \<noteq> CHR ''[''"
  by code_simp+

lemma show_bool_token: "token (show_bool b)"
  by (simp add: show_bool_def token_def vis_def ink_def)

lemma parse_bool_show [simp]: "parse_bool (show_bool b) = Some b"
  by (simp add: parse_bool_def show_bool_def)

lemma parse_bool_i64 [simp]: "parse_bool (show_i64 w) = None"
proof (rule ccontr)
  assume "parse_bool (show_i64 w) \<noteq> None"
  then have "show_i64 w \<in> {''true'', ''True'', ''false'', ''False''}"
    by (auto simp: parse_bool_def split: if_splits)
  moreover have "parse_i64 s = None" if "s \<in> {''true'', ''True'', ''false'', ''False''}" for s
    using that by (auto simp: parse_i64_def parse_uint_def digit_val_def)
  ultimately show False using parse_i64_show [of w] by auto
qed

lemma those_map_Some: "(\<And>x. x \<in> set xs \<Longrightarrow> f (g x) = Some x) \<Longrightarrow> those (map f (map g xs)) = Some xs"
  by (induction xs) auto

lemma those_map_None: "xs \<noteq> [] \<Longrightarrow> (\<And>x. f (g x) = None) \<Longrightarrow> those (map f (map g xs)) = None"
  by (cases xs) auto

lemma token_trim: "token s \<Longrightarrow> trim s = s"
  by (cases s) (auto simp: token_def list_all_iff intro!: trim_vis)

lemma elements_show:
  assumes "\<And>x. x \<in> set xs \<Longrightarrow> token (f x) \<and> CHR '','' \<notin> set (f x)" and "xs \<noteq> []"
  shows "map trim (split_on CHR '','' (join_with CHR '','' (map f xs))) = map f xs"
    and "join_with CHR '','' (map f xs) \<noteq> []"
proof -
  have "split_on CHR '','' (join_with CHR '','' (map f xs)) = map f xs"
    using assms by (intro split_on_join) auto
  then show "map trim (split_on CHR '','' (join_with CHR '','' (map f xs))) = map f xs"
    using assms by (simp add: token_trim)
  show "join_with CHR '','' (map f xs) \<noteq> []"
    using assms by (cases xs; cases "tl xs") (auto simp: token_def neq_Nil_conv)
qed

lemma parse_array_default_show:
  assumes "\<And>x. x \<in> set xs \<Longrightarrow> token (f x) \<and> CHR '','' \<notin> set (f x)" and "xs \<noteq> []"
  shows "parse_default_value pf (''['' @ join_with CHR '','' (map f xs) @ '']'') =
      (case those (map parse_bool (map f xs)) of
         Some bs \<Rightarrow> Ok (DBoolArray bs)
       | None \<Rightarrow> (case those (map parse_i64 (map f xs)) of
             Some is \<Rightarrow> Ok (DIntArray is)
           | None \<Rightarrow> parse_array_default pf (''['' @ join_with CHR '','' (map f xs) @ '']'')))"
  using elements_show [of xs f, OF assms]
  by (simp add: parse_default_value_def parse_array_default_def Let_def butlast_append split: option.split)

lemma show_default_parse:
  assumes "wf_default d"
  shows "parse_default_value pf (show_default d) = Ok d"
proof (cases d)
  case (DBool b)
  then show ?thesis
    by (simp add: parse_default_value_def show_bool_def parse_bool_def)
next
  case (DInt i)
  obtain c cs where c: "show_i64 i = c # cs" using show_i64_token [of i] by (auto simp: token_def neq_Nil_conv)
  then have "ident_char c \<or> c = CHR ''-''"
    using show_i64_chars [of c i] by simp
  then have "c \<noteq> CHR ''[''" "\<not> in_quotes (c # cs)" using dash_not_quote by (auto simp: in_quotes_def)
  then show ?thesis
    using DInt c parse_i64_show [of i] parse_bool_i64 [of i] by (simp add: parse_default_value_def)
next
  case (DString s)
  then show ?thesis
    using dash_not_quote(3)
    by (simp add: parse_default_value_def parse_bool_def in_quotes_def unquote_def butlast_append)
next
  case (DBoolArray bs)
  have "token (show_bool b) \<and> CHR '','' \<notin> set (show_bool b)" for b
    using show_bool_token by (auto simp: show_bool_def)
  then show ?thesis
    using DBoolArray assms parse_array_default_show [of bs show_bool pf] those_map_Some [of bs parse_bool show_bool]
    by simp
next
  case (DIntArray xs)
  have "token (show_i64 i) \<and> CHR '','' \<notin> set (show_i64 i)" for i
    using show_i64_token show_i64_chars [of "CHR '',''" i] by auto
  then show ?thesis
    using DIntArray assms parse_array_default_show [of xs show_i64 pf] those_map_Some [of xs parse_i64 show_i64]
      those_map_None [of xs parse_bool show_i64]
    by (simp add: parse_i64_show)
qed (use assms in auto)

section \<open>Whole files\<close>

definition idl_text :: "string list \<Rightarrow> string" where
  "idl_text ls = concat (map (\<lambda>l. l @ [newline]) ls)"

lemma strip_cr_text: "text_line s \<Longrightarrow> strip_cr s = s"
  by (metis last_in_set strip_cr_def strip_suffix_char_def text_line_def unwrap_or_simps(2))

lemma split_idl_text: "list_all text_line ls \<Longrightarrow> split_on newline (idl_text ls) = ls @ [[]]"
  by (induction ls) (auto simp: idl_text_def text_line_def split_on_append_sep)

lemma str_lines_text: "list_all text_line ls \<Longrightarrow> str_lines (idl_text ls) = ls"
  by (simp add: str_lines_def split_idl_text list_all_iff strip_cr_text map_idI)

lemma str_lines_join:
  assumes "list_all text_line ls"
  shows "str_lines (join_lines ls) = (if ls = [] \<or> last ls = [] then butlast ls else ls)"
proof (cases "ls = []")
  case False
  then have "split_on newline (join_lines ls) = ls"
    using assms by (auto simp: join_lines_def list_all_iff text_line_def intro!: split_on_join)
  moreover have "map strip_cr (butlast ls) = butlast ls"
    using assms by (auto simp: list_all_iff strip_cr_text intro!: map_idI dest: in_set_butlastD)
  ultimately show ?thesis using False by (simp add: str_lines_def)
qed (simp add: join_lines_def str_lines_def)

lemma strip_comment_show:
  assumes "CHR ''#'' \<notin> set s" and "s \<noteq> []" and "vis (hd s)" and "vis (last s)"
  shows "trim (strip_comment (s @ show_comment c)) = s"
proof -
  have "hd (split_on CHR ''#'' (s @ '' '' @ CHR ''#'' # c)) = s @ '' ''"
    using assms(1) split_on_append_sep [of "CHR ''#''" "s @ '' ''" c] by simp
  then show ?thesis
    using assms
    by (simp add: strip_comment_def show_comment_def split_on_sep_free trim_vis trim_space_right)
qed

lemma not_constant_le:
  assumes "CHR ''='' \<notin> set a"
  shows "\<not> is_constant (a @ CHR ''<'' # CHR ''='' # b)"
  using find_char_append [of "CHR ''=''" "a @ [CHR ''<'']" b] assms
  by (simp add: is_constant_def nth_append)

lemma not_constant_free: "CHR ''='' \<notin> set s \<Longrightarrow> \<not> is_constant s"
  by (simp add: is_constant_def find_char_None)

lemma show_default_token: "wf_default d \<Longrightarrow> token (show_default d) \<and> CHR ''='' \<notin> set (show_default d)"
proof (cases d)
  case (DString s)
  assume "wf_default d"
  moreover have "vis (char_of (34 :: nat))" "CHR ''='' \<noteq> char_of (34 :: nat)" by code_simp+
  ultimately show ?thesis using DString by (auto simp: token_def)
next
  case (DBoolArray bs)
  have bool: "c \<in> set (show_bool b) \<Longrightarrow> vis c \<and> c \<noteq> CHR ''=''" for c b
    using show_bool_token [of b] by (auto simp: token_def list_all_iff show_bool_def split: if_splits)
  have "c \<in> set (join_with CHR '','' (map show_bool bs)) \<Longrightarrow> vis c \<and> c \<noteq> CHR ''=''" for c bs
    by (induction bs rule: induct_list012) (auto dest: bool simp: vis_def ink_def)
  then show ?thesis using DBoolArray by (auto simp: token_def list_all_iff vis_def ink_def)
next
  case (DIntArray xs)
  have i64: "c \<in> set (show_i64 i) \<Longrightarrow> vis c \<and> c \<noteq> CHR ''=''" for c i
    using show_i64_token [of i] show_i64_chars [of c i] by (auto simp: token_def list_all_iff)
  have "c \<in> set (join_with CHR '','' (map show_i64 xs)) \<Longrightarrow> vis c \<and> c \<noteq> CHR ''=''" for c xs
    by (induction xs rule: induct_list012) (auto dest: i64 simp: vis_def ink_def)
  then show ?thesis using DIntArray by (auto simp: token_def list_all_iff vis_def ink_def)
next
  case (DInt i)
  then show ?thesis using show_i64_token [of i] show_i64_chars [of "CHR ''=''" i] by auto
next
  case (DBool b)
  then show ?thesis using show_bool_token [of b] by (auto simp: show_bool_def)
qed auto

lemma show_field_type_token: "wf_field_type ft \<Longrightarrow> token (show_field_type ft)"
  using ident_vis [OF show_nat_ident] ident_vis
  by (cases "ft_array ft")
     (auto simp: show_field_type_def show_base_def show_bound_def show_array_def wf_field_type_def
        token_def ident_def vis_def ink_def split: option.splits)

lemma field_tokens_ok: "wf_field f \<Longrightarrow> list_all token (field_tokens f)"
  using show_default_token ident_token show_field_type_token
  by (auto simp: field_tokens_def wf_field_def split: option.splits)

lemma show_field_shape:
  assumes "wf_field f"
  shows "show_field f \<noteq> []" and "ident_char (hd (show_field f))" and "vis (last (show_field f))"
    and "CHR ''#'' \<notin> set (show_field f)" and "text_line (show_field f)"
proof -
  obtain t ts where tok: "field_tokens f = t # ts" "t = show_field_type (fl_type f)" "ts \<noteq> []"
    by (simp add: field_tokens_def)
  have toks: "list_all token (field_tokens f)" by (rule field_tokens_ok [OF assms])
  have chars: "c \<in> set (join_with CHR '' '' us) \<Longrightarrow> vis c \<or> c = CHR '' ''" if "list_all token us" for c us
    using that by (induction us rule: induct_list012) (auto simp: token_def list_all_iff)
  have lst: "vis (last (join_with CHR '' '' us))" if "list_all token us" "us \<noteq> []" for us
    using that
  proof (induction us rule: induct_list012)
    case (3 x y zs)
    have "join_with CHR '' '' (y # zs) \<noteq> []"
      using 3 by (cases zs) (auto simp: token_def)
    with 3 show ?case by simp
  qed (auto simp: token_def list_all_iff)
  have hd_t: "t \<noteq> []" "ident_char (hd t)"
    using tok(2) assms
    by (auto simp: wf_field_def wf_field_type_def show_field_type_def show_base_def ident_def list_all_iff hd_append
             split: option.splits)
  have eq: "show_field f = t @ CHR '' '' # join_with CHR '' '' ts"
    using tok by (cases ts) (auto simp: show_field_def)
  show "show_field f \<noteq> []" "ident_char (hd (show_field f))"
    using eq hd_t by simp_all
  show "vis (last (show_field f))"
    using lst [OF toks] tok(1) by (simp add: show_field_def)
  have "\<not> vis CHR ''#''" "\<not> vis newline" "\<not> vis (char_of (13 :: nat))" "newline \<noteq> CHR '' ''"
      "char_of (13 :: nat) \<noteq> CHR '' ''"
    by code_simp+
  then show "CHR ''#'' \<notin> set (show_field f)" "text_line (show_field f)"
    using chars [OF toks] by (auto simp: text_line_def show_field_def)
qed

lemma show_field_not_constant:
  assumes "wf_field f"
  shows "\<not> is_constant (show_field f)"
proof -
  let ?ft = "fl_type f"
  define rest where "rest = CHR '' '' # join_with CHR '' '' (tl (field_tokens f))"
  have eq: "show_field f = show_field_type ?ft @ rest"
    by (simp add: show_field_def rest_def field_tokens_def)
  have "CHR ''='' \<notin> set (fl_name f)"
    using assms by (auto simp: wf_field_def ident_def dest: ident_not_in [of _ "CHR ''=''"])
  moreover have "CHR ''='' \<notin> set (show_default d)" if "fl_default f = Some d" for d
    using assms that show_default_token [of d] by (simp add: wf_field_def)
  ultimately have rest: "CHR ''='' \<notin> set rest"
    by (auto simp: rest_def field_tokens_def split: option.splits)
  have base: "CHR ''='' \<notin> set (show_base ?ft)"
    using assms by (simp add: wf_field_def show_base_free)
  have nat: "CHR ''='' \<notin> set (show_nat n)" for n
    using ident_not_in [OF show_nat_ident, of "CHR ''=''"] by simp
  show ?thesis
  proof (cases "ft_string_bound ?ft")
    case (Some n)
    then show ?thesis
      using not_constant_le [OF base] by (simp add: eq show_field_type_def show_bound_def)
  next
    case None
    then show ?thesis
    proof (cases "ft_array ?ft")
      case (ABounded m)
      then show ?thesis
        using None base not_constant_le [of "show_base ?ft @ ''[''"]
        by (simp add: eq show_field_type_def show_bound_def show_array_def)
    qed (use None base rest nat in \<open>auto simp: eq show_field_type_def show_bound_def show_array_def
           intro!: not_constant_free\<close>)
  qed
qed

lemma parse_field_show:
  assumes "wf_field f"
  shows "parse_field pf (show_field f) n = Ok f"
proof -
  have "split_whitespace (show_field f) = field_tokens f"
    using field_tokens_ok [OF assms] by (simp add: show_field_def split_whitespace_join)
  with assms show ?thesis
    by (cases "fl_default f")
       (simp_all add: parse_field_def field_tokens_def wf_field_def parse_field_type_show show_default_parse)
qed

lemma constant_line:
  assumes "wf_constant k"
  shows "show_constant k \<noteq> []" and "ident_char (hd (show_constant k))" and "vis (last (show_constant k))"
    and "CHR ''#'' \<notin> set (show_constant k)" and "text_line (show_constant k)"
    and "is_constant (show_constant k)" and "parse_constant (show_constant k) n = Ok k"
proof -
  have k: "list_all ident_char (co_type k)" "list_all ident_char (co_name k)" "co_type k \<noteq> []" "co_name k \<noteq> []"
    "co_value k \<noteq> []"
    using assms by (auto simp: wf_constant_def ident_def)
  then show "show_constant k \<noteq> []" "ident_char (hd (show_constant k))" "vis (last (show_constant k))"
    using assms by (auto simp: show_constant_def wf_constant_def list_all_iff)
  have "newline \<noteq> CHR '' ''" "newline \<noteq> CHR ''=''" "char_of (13 :: nat) \<noteq> CHR '' ''" "char_of (13 :: nat) \<noteq> CHR ''=''"
    by code_simp+
  then show "CHR ''#'' \<notin> set (show_constant k)" "text_line (show_constant k)"
    using assms k(1,2) ident_not_in [of _ "CHR ''#''"] ident_not_in [of _ newline] ident_not_in [of _ "char_of (13 :: nat)"]
    by (auto simp: show_constant_def wf_constant_def text_line_def)
  define decl where "decl = co_type k @ '' '' @ co_name k @ '' ''"
  have eq: "show_constant k = decl @ CHR ''='' # CHR '' '' # co_value k"
    by (simp add: show_constant_def decl_def)
  have free: "c \<notin> set decl" if "c \<noteq> CHR '' ''" "\<not> ident_char c" for c
    using k that by (auto simp: decl_def list_all_iff)
  have len: "0 < length decl" "decl ! (length decl - 1) = CHR '' ''"
    by (simp_all add: decl_def nth_append)
  show "is_constant (show_constant k)"
    using free [of "CHR ''=''"] free [of "CHR ''[''"] free [of "CHR '']''"] len
    by (simp add: is_constant_def eq find_char_append nth_append count_list_0_iff)
  have tok: "list_all token [co_type k, co_name k]"
    using k by (simp add: token_def ident_vis)
  have "split_whitespace decl = [co_type k, co_name k]"
    using k split_ws_vis [OF ident_vis [OF k(1)], of "[]" "'' '' @ co_name k @ '' ''"]
      split_ws_vis [OF ident_vis [OF k(2)], of "[]" "'' ''"]
    by (simp add: split_whitespace_def decl_def)
  moreover have "trim (CHR '' '' # co_value k) = co_value k"
    using assms by (simp add: trim_space_left wf_constant_def trim_vis)
  ultimately show "parse_constant (show_constant k) n = Ok k"
    using free [of "CHR ''=''"] by (simp add: parse_constant_def eq split_once_append)
qed

lemma msg_line_item:
  assumes "wf_item i"
  shows "msg_line pf (fs, cs) (n, show_item i) = Ok (fs @ item_fields i, cs @ item_constants i)"
proof (cases i)
  case (IField f c)
  then have wf: "wf_field f" using assms by simp
  then show ?thesis
    using IField show_field_shape [OF wf] strip_comment_show [of "show_field f" c] ident_char_vis
    by (simp add: msg_line_def show_field_not_constant parse_field_show)
next
  case (IConst k c)
  then have wf: "wf_constant k" using assms by simp
  then have "co_name k \<noteq> []" by (auto simp: wf_constant_def ident_def)
  with IConst wf show ?thesis
    using constant_line [OF wf] strip_comment_show [of "show_constant k" c] ident_char_vis
    by (simp add: msg_line_def)
next
  case (INote c)
  have "hd (split_on CHR ''#'' (CHR ''#'' # c)) = []" by simp
  with INote show ?thesis by (simp add: msg_line_def strip_comment_def)
next
  case IBlank
  then show ?thesis by (simp add: msg_line_def strip_comment_def)
qed

lemma msg_lines_items:
  "list_all wf_item is \<Longrightarrow>
   res_fold (msg_line pf) (fs, cs) (enumerate n (map show_item is)) =
     Ok (fs @ concat (map item_fields is), cs @ concat (map item_constants is))"
  by (induction "is" arbitrary: fs cs n) (simp_all add: msg_line_item)

lemma show_item_nil: "wf_item i \<Longrightarrow> show_item i = [] \<Longrightarrow> item_fields i = [] \<and> item_constants i = []"
  using show_field_shape(1) constant_line(1) by (cases i) auto

lemma butlast_items:
  assumes "list_all wf_item is" and "is \<noteq> []" and "show_item (last is) = []"
  shows "concat (map item_fields (butlast is)) = concat (map item_fields is)"
    and "concat (map item_constants (butlast is)) = concat (map item_constants is)"
  using assms show_item_nil [of "last is"]
  by (cases "is" rule: rev_cases; simp)+

lemma show_item_text: "wf_item i \<Longrightarrow> text_line (show_item i)"
proof -
  have sep: "newline \<noteq> CHR '' ''" "newline \<noteq> CHR ''#''" "char_of (13 :: nat) \<noteq> CHR '' ''" "char_of (13 :: nat) \<noteq> CHR ''#''"
    by code_simp+
  assume "wf_item i"
  then show ?thesis
    using show_field_shape(5) constant_line(5) sep
    by (cases i) (auto simp: text_line_def show_comment_def)
qed

lemma show_items_text: "list_all wf_item is \<Longrightarrow> list_all text_line (map show_item is)"
  by (simp add: list_all_iff show_item_text)

lemma str_lines_join_items:
  assumes "list_all wf_item is"
  obtains js where "str_lines (join_lines (map show_item is)) = map show_item js" and "list_all wf_item js"
    and "concat (map item_fields js) = concat (map item_fields is)"
    and "concat (map item_constants js) = concat (map item_constants is)"
proof (cases "is = [] \<or> show_item (last is) = []")
  case True
  then have "str_lines (join_lines (map show_item is)) = map show_item (butlast is)"
    using str_lines_join [OF show_items_text [OF assms]] by (auto simp: map_butlast last_map)
  then show ?thesis
    using that [of "butlast is"] True assms butlast_items [OF assms]
    by (cases "is = []") (auto simp: list_all_iff dest: in_set_butlastD)
next
  case False
  then have "str_lines (join_lines (map show_item is)) = map show_item is"
    using str_lines_join [OF show_items_text [OF assms]] by (auto simp: last_map)
  then show ?thesis using that [of "is"] assms by simp
qed

lemma no_delimiter:
  assumes "wf_item i"
  shows "trim (show_item i) \<noteq> ''---''"
proof (cases "show_item i = []")
  case False
  then obtain c s where cs: "show_item i = c # s" by (meson list.exhaust)
  have "ident_char (hd (show_item i)) \<or> hd (show_item i) = CHR ''#''"
    using assms False show_field_shape(1,2) constant_line(1,2)
    by (cases i) (auto simp: hd_append)
  then have "ident_char c \<or> c = CHR ''#''" by (simp add: cs)
  then have "ink c" "c \<noteq> CHR ''-''"
    by (auto simp: ident_char_vis) (simp add: ink_def)
  then show ?thesis using trim_head [of c s] cs by auto
qed simp

lemma delimiter_none:
  "list_all wf_item is \<Longrightarrow> filter (\<lambda>(i, l). trim l = ''---'') (enumerate n (map show_item is)) = []"
  by (induction "is" arbitrary: n) (auto simp: no_delimiter)

lemma enumerate_append: "enumerate n (xs @ ys) = enumerate n xs @ enumerate (n + length xs) ys"
  by (induction xs arbitrary: n) auto

lemma trim_delimiter: "trim ''---'' = ''---''"
  by (rule trim_vis) (simp_all add: ink_def)

lemma delimiter_indices_append:
  assumes "list_all wf_item is"
  shows "map fst (filter (\<lambda>(i, l). trim l = ''---'') (enumerate n (map show_item is @ ''---'' # ls))) =
         (n + length is) # map fst (filter (\<lambda>(i, l). trim l = ''---'') (enumerate (Suc (n + length is)) ls))"
  using delimiter_none [OF assms, of n] by (simp add: enumerate_append trim_delimiter)

lemma utf8_step:
  assumes v: "utf8_valid (a # bs)"
  obtains p r where "a # bs = p @ r" and "p \<noteq> []" and "utf8_valid r" and "\<And>z. utf8_valid z \<Longrightarrow> utf8_valid (p @ z)"
proof -
  consider (one) "a \<le> 0x7F" | (two) "\<not> a \<le> 0x7F" "0xC2 \<le> a \<and> a \<le> 0xDF"
    | (three) "\<not> a \<le> 0x7F" "\<not> (0xC2 \<le> a \<and> a \<le> 0xDF)" "0xE0 \<le> a \<and> a \<le> 0xEF"
    | (four) "\<not> a \<le> 0x7F" "\<not> (0xC2 \<le> a \<and> a \<le> 0xDF)" "\<not> (0xE0 \<le> a \<and> a \<le> 0xEF)"
    by blast
  then show ?thesis
  proof cases
    case one
    with v have "utf8_valid bs" by (simp only: utf8_valid.simps if_True)
    with one show ?thesis using that [of "[a]" bs] by simp
  next
    case two
    with v obtain b r where "bs = b # r" "utf8_cont b" "utf8_valid r"
      by (cases bs) (simp_all only: utf8_valid.simps if_True if_False list.case simp_thms)
    with two show ?thesis using that [of "[a, b]" r] by simp
  next
    case three
    with v have "case bs of b # c # r \<Rightarrow> (if a = 0xE0 then 0xA0 \<le> b \<and> b \<le> 0xBF
              else if a = 0xED then 0x80 \<le> b \<and> b \<le> 0x9F else utf8_cont b) \<and> utf8_cont c \<and> utf8_valid r | _ \<Rightarrow> False"
      by (simp only: utf8_valid.simps if_True if_False simp_thms)
    then obtain b c r where "bs = b # c # r" "utf8_cont c" "utf8_valid r"
       "if a = 0xE0 then 0xA0 \<le> b \<and> b \<le> 0xBF else if a = 0xED then 0x80 \<le> b \<and> b \<le> 0x9F else utf8_cont b"
      by (cases bs rule: remdups_adj.cases) simp_all
    moreover from this three have "utf8_valid z \<Longrightarrow> utf8_valid ([a, b, c] @ z)" for z
      by (simp only: append_Cons append_Nil utf8_valid.simps if_True if_False list.case simp_thms)
    ultimately show ?thesis
      using that [of "[a, b, c]" r] by (metis append_Cons append_Nil list.distinct(1))
  next
    case four
    with v have range: "0xF0 \<le> a \<and> a \<le> 0xF4" and
       "case bs of b # c # d # r \<Rightarrow> (if a = 0xF0 then 0x90 \<le> b \<and> b \<le> 0xBF
              else if a = 0xF4 then 0x80 \<le> b \<and> b \<le> 0x8F else utf8_cont b)
              \<and> utf8_cont c \<and> utf8_cont d \<and> utf8_valid r | _ \<Rightarrow> False"
      by (simp_all only: utf8_valid.simps if_False simp_thms split: if_splits)
    then obtain b c d r where "bs = b # c # d # r" "utf8_cont c" "utf8_cont d" "utf8_valid r"
       "if a = 0xF0 then 0x90 \<le> b \<and> b \<le> 0xBF else if a = 0xF4 then 0x80 \<le> b \<and> b \<le> 0x8F else utf8_cont b"
      by (cases bs; cases "tl bs"; cases "tl (tl bs)") simp_all
    moreover from this four range have "utf8_valid z \<Longrightarrow> utf8_valid ([a, b, c, d] @ z)" for z
      by (simp only: append_Cons append_Nil utf8_valid.simps if_True if_False list.case simp_thms)
    ultimately show ?thesis
      using that [of "[a, b, c, d]" r] by (metis append_Cons append_Nil list.distinct(1))
  qed
qed

lemma utf8_valid_append: "utf8_valid xs \<Longrightarrow> utf8_valid ys \<Longrightarrow> utf8_valid (xs @ ys)"
proof (induction "length xs" arbitrary: xs rule: less_induct)
  case less
  show ?case
  proof (cases xs)
    case (Cons a bs)
    obtain p r where "xs = p @ r" "p \<noteq> []" "utf8_valid r" and p: "\<And>z. utf8_valid z \<Longrightarrow> utf8_valid (p @ z)"
      using utf8_step [OF less.prems(1) [unfolded Cons]] Cons by metis
    with less show ?thesis by simp
  qed (use less.prems in simp)
qed

lemma rsplit_dot_append: "CHR ''.'' \<notin> set b \<Longrightarrow> rsplit_dot (a @ CHR ''.'' # b) = Some (a, b)"
proof -
  assume b: "CHR ''.'' \<notin> set b"
  then have "rsplit_dot b = None" by (induction b) auto
  then show ?thesis by (induction a) auto
qed

lemma message_name_sibling:
  assumes "message_name path = Ok name" and "s \<in> {''Request'', ''Response''}"
  shows "message_name (with_file_name path (name @ s @ ''.msg'')) = Ok (name @ s)"
proof -
  have "utf8_valid (str_bytes name)"
    using assms(1) by (auto simp: message_name_def split: if_splits)
  moreover have "utf8_valid (str_bytes s)"
    using assms(2) by (auto simp: str_bytes_def)
  ultimately have "utf8_valid (str_bytes (name @ s))"
    by (simp add: str_bytes_def utf8_valid_append)
  moreover have "rsplit_dot ((name @ s) @ CHR ''.'' # ''msg'') = Some (name @ s, ''msg'')"
    by (rule rsplit_dot_append) simp
  moreover have "name @ s @ ''.msg'' \<noteq> ''..''"
    by (auto dest: arg_cong [of _ _ length])
  ultimately show ?thesis
    using assms(2)
    by (auto simp: message_name_def file_stem_def file_name_def with_file_name_def)
qed

lemma parse_msg_items:
  assumes "message_name path = Ok name" and "list_all wf_item is"
  shows "parse_msg_string pf (idl_text (map show_item is)) pkg path =
     Ok \<lparr>pm_name = name, pm_package = pkg, pm_fields = concat (map item_fields is),
        pm_constants = concat (map item_constants is), pm_source = idl_text (map show_item is), pm_path = path\<rparr>"
  using assms(1) str_lines_text [OF show_items_text [OF assms(2)]] msg_lines_items [OF assms(2), of pf "[]" "[]"]
  by (simp add: parse_msg_string_def)

lemma parse_msg_joined:
  assumes "message_name path = Ok name" and "list_all wf_item is"
  shows "parse_msg_string pf (join_lines (map show_item is)) pkg path =
     Ok \<lparr>pm_name = name, pm_package = pkg, pm_fields = concat (map item_fields is),
        pm_constants = concat (map item_constants is), pm_source = join_lines (map show_item is), pm_path = path\<rparr>"
proof -
  obtain js where js: "str_lines (join_lines (map show_item is)) = map show_item js" "list_all wf_item js"
    "concat (map item_fields js) = concat (map item_fields is)"
    "concat (map item_constants js) = concat (map item_constants is)"
    using str_lines_join_items [OF assms(2)] by blast
  with assms(1) msg_lines_items [OF js(2), of pf "[]" "[]"] show ?thesis
    by (simp add: parse_msg_string_def)
qed


definition sample_path :: path_buf where
  "sample_path = \<lparr>pb_absolute = False, pb_components = [''msg'', ''Sample.msg'']\<rparr>"

definition sample_field :: idl_field where
  "sample_field = \<lparr>fl_name = ''data'',
     fl_type = \<lparr>ft_base_type = ''string'', ft_package = None, ft_array = ABounded 5, ft_string_bound = Some 10\<rparr>,
     fl_default = None\<rparr>"

definition sample_items :: "idl_item list" where
  "sample_items =
     [INote '' a sample'', IField sample_field ''names'', IBlank,
      IConst \<lparr>co_name = ''LIMIT'', co_type = ''uint8'', co_value = ''7''\<rparr> [],
      IField \<lparr>fl_name = ''offset'', fl_type = \<lparr>ft_base_type = ''int32'', ft_package = None, ft_array = ASingle,
                ft_string_bound = None\<rparr>, fl_default = Some (DInt (- 5))\<rparr> []]"


text \<open>
  A service definition reads back: the part above the delimiter line as the request, the
  part below as the response, each with exactly its fields and constants, under the names
  and in the files derived from the name of the service.
\<close>

theorem srv_parse_roundtrip:
  assumes "message_name path = Ok name" and "list_all wf_item req" and "list_all wf_item resp"
  shows "\<exists>srv. parse_srv_string pf (idl_text (map show_item req @ ''---'' # map show_item resp)) pkg path = Ok srv \<and>
     ps_name srv = name \<and> ps_package srv = pkg \<and>
     pm_name (ps_request srv) = name @ ''Request'' \<and> pm_name (ps_response srv) = name @ ''Response'' \<and>
     pm_fields (ps_request srv) = concat (map item_fields req) \<and>
     pm_constants (ps_request srv) = concat (map item_constants req) \<and>
     pm_fields (ps_response srv) = concat (map item_fields resp) \<and>
     pm_constants (ps_response srv) = concat (map item_constants resp)"
proof -
  let ?ls = "map show_item req @ ''---'' # map show_item resp"
  have "text_line ''---''" by code_simp
  then have "list_all text_line ?ls"
    using show_items_text assms(2,3) by simp
  then have ls: "str_lines (idl_text ?ls) = ?ls" by (rule str_lines_text)
  have ds: "delimiter_indices ?ls = [length req]"
    using delimiter_indices_append [OF assms(2), of 0 "map show_item resp"] delimiter_none [OF assms(3)]
    by (simp add: delimiter_indices_def)
  have names: "message_name (with_file_name path (name @ ''Request.msg'')) = Ok (name @ ''Request'')"
    "message_name (with_file_name path (name @ ''Response.msg'')) = Ok (name @ ''Response'')"
    using message_name_sibling [OF assms(1), of "''Request''"] message_name_sibling [OF assms(1), of "''Response''"]
    by simp_all
  show ?thesis
    using assms(1) parse_msg_joined [OF names(1) assms(2), of pf pkg] parse_msg_joined [OF names(2) assms(3), of pf pkg]
    by (simp add: parse_srv_string_def ls ds)
qed

theorem srv_parse_roundtrip_witness:
  "\<exists>srv. parse_srv_string (\<lambda>_. None) (idl_text (map show_item sample_items @ ''---'' # map show_item [])) ''pkg'' sample_path = Ok srv \<and>
     pm_name (ps_response srv) = ''SampleResponse'' \<and> map fl_name (pm_fields (ps_request srv)) = [''data'', ''offset''] \<and>
     pm_fields (ps_response srv) = []"
proof -
  have "message_name sample_path = Ok ''Sample''" "list_all wf_item sample_items" "list_all wf_item []" by code_simp+
  from srv_parse_roundtrip [OF this, of "\<lambda>_. None" "''pkg''"] show ?thesis
    by (auto simp: sample_items_def sample_field_def)
qed

section \<open>Action files\<close>

definition bounded_type :: "idl_field_type \<Rightarrow> bool" where
  "bounded_type ft = (ft_string_bound ft \<noteq> None \<or> (case ft_array ft of ABounded _ \<Rightarrow> True | _ \<Rightarrow> False))"

fun unbounded_item :: "idl_item \<Rightarrow> bool" where
  "unbounded_item (IField f c) = (\<not> bounded_type (fl_type f))"
| "unbounded_item _ = True"

lemma show_field_split:
  assumes "wf_field f"
  obtains rest where "show_field f = show_field_type (fl_type f) @ rest" and "CHR ''='' \<notin> set rest"
proof -
  have "CHR ''='' \<notin> set (fl_name f)"
    using assms by (auto simp: wf_field_def ident_def dest: ident_not_in [of _ "CHR ''=''"])
  moreover have "CHR ''='' \<notin> set (show_default d)" if "fl_default f = Some d" for d
    using assms that show_default_token [of d] by (simp add: wf_field_def)
  ultimately have "CHR ''='' \<notin> set (CHR '' '' # join_with CHR '' '' (tl (field_tokens f)))"
    by (auto simp: field_tokens_def split: option.splits)
  then show ?thesis
    using that [of "CHR '' '' # join_with CHR '' '' (tl (field_tokens f))"]
    by (simp add: show_field_def field_tokens_def)
qed

lemma show_nat_no_eq: "CHR ''='' \<notin> set (show_nat n)"
  using ident_not_in [OF show_nat_ident, of "CHR ''=''"] by simp

lemma unbounded_no_eq:
  assumes "wf_field f" and "\<not> bounded_type (fl_type f)"
  shows "CHR ''='' \<notin> set (show_field f)"
proof -
  have "CHR ''='' \<notin> set (show_base (fl_type f))"
    using assms by (simp add: wf_field_def show_base_free)
  with assms(2) have "CHR ''='' \<notin> set (show_field_type (fl_type f))"
    by (auto simp: bounded_type_def show_field_type_def show_bound_def show_array_def show_nat_no_eq split: array_type.splits)
  with show_field_split [OF assms(1)] show ?thesis
    by (metis Un_iff set_append)
qed

lemma bounded_field_shape:
  assumes "wf_field f" and "bounded_type (fl_type f)"
  obtains a b where "show_field f = a @ CHR ''<'' # CHR ''='' # b" and "CHR ''='' \<notin> set a" and "list_all vis a"
proof -
  let ?ft = "fl_type f"
  obtain rest where rest: "show_field f = show_field_type ?ft @ rest" by (rule show_field_split [OF assms(1)])
  have base: "CHR ''='' \<notin> set (show_base ?ft)"
    using assms(1) by (simp add: wf_field_def show_base_free)
  have ink: "list_all vis (show_field_type ?ft)"
    using assms(1) show_field_type_token by (simp add: wf_field_def token_def)
  show ?thesis
  proof (cases "ft_string_bound ?ft")
    case (Some n)
    then show ?thesis
      using that [of "show_base ?ft"] base ink rest by (simp add: show_field_type_def show_bound_def)
  next
    case None
    then obtain m where "ft_array ?ft = ABounded m"
      using assms(2) by (auto simp: bounded_type_def split: array_type.splits)
    then show ?thesis
      using None that [of "show_base ?ft @ ''[''"] base ink rest
      by (simp add: show_field_type_def show_bound_def show_array_def)
  qed
qed

lemma action_line_item:
  assumes "wf_item i" and "unbounded_item i"
  shows "action_line pf (fs, cs) (n, show_item i) = Ok (fs @ item_fields i, cs @ item_constants i)"
proof (cases i)
  case (IField f c)
  then have wf: "wf_field f" "\<not> bounded_type (fl_type f)" using assms by simp_all
  then show ?thesis
    using IField show_field_shape [OF wf(1)] strip_comment_show [of "show_field f" c] ident_char_vis
    by (simp add: action_line_def unbounded_no_eq parse_field_show)
next
  case (IConst k c)
  then have wf: "wf_constant k" using assms by simp
  have "CHR ''='' \<in> set (show_constant k)" by (simp add: show_constant_def)
  with IConst wf show ?thesis
    using constant_line [OF wf] strip_comment_show [of "show_constant k" c] ident_char_vis
    by (simp add: action_line_def)
next
  case (INote c)
  have "hd (split_on CHR ''#'' (CHR ''#'' # c)) = []" by simp
  with INote show ?thesis by (simp add: action_line_def strip_comment_def)
next
  case IBlank
  then show ?thesis by (simp add: action_line_def strip_comment_def)
qed

lemma action_lines_items:
  "list_all wf_item is \<Longrightarrow> list_all unbounded_item is \<Longrightarrow>
   res_fold (action_line pf) (fs, cs) (enumerate n (map show_item is)) =
     Ok (fs @ concat (map item_fields is), cs @ concat (map item_constants is))"
  by (induction "is" arbitrary: fs cs n) (simp_all add: action_line_item)

lemma parse_action_section_items:
  assumes "list_all wf_item is" and "list_all unbounded_item is"
  shows "parse_action_section pf (join_lines (map show_item is)) name pkg path =
     Ok \<lparr>pm_name = name, pm_package = pkg, pm_fields = concat (map item_fields is),
        pm_constants = concat (map item_constants is), pm_source = join_lines (map show_item is), pm_path = path\<rparr>"
proof (cases "is = [] \<or> show_item (last is) = []")
  case True
  have "list_all wf_item (butlast is)" "list_all unbounded_item (butlast is)"
    using assms by (auto simp: list_all_iff dest: in_set_butlastD)
  moreover have "str_lines (join_lines (map show_item is)) = map show_item (butlast is)"
    using True str_lines_join [OF show_items_text [OF assms(1)]] by (auto simp: map_butlast last_map)
  ultimately show ?thesis
    using True butlast_items [OF assms(1)] action_lines_items [of "butlast is" pf "[]" "[]" 0]
    by (cases "is = []") (simp_all add: parse_action_section_def)
next
  case False
  then have "str_lines (join_lines (map show_item is)) = map show_item is"
    using str_lines_join [OF show_items_text [OF assms(1)]] by (auto simp: last_map)
  with action_lines_items [OF assms, of pf "[]" "[]" 0] show ?thesis
    by (simp add: parse_action_section_def)
qed



text \<open>
  An action file loses its fields of bounded type. The line of such a field, which the
  message parser reads as the field, is taken for a constant by the action parser: the
  section has no field, and one constant with an empty name. No error is reported.
\<close>

theorem action_loses_bounded_fields:
  assumes "wf_field f" and "bounded_type (fl_type f)" and "message_name path = Ok n"
  shows "(\<exists>m k. parse_action_section pf (show_field f) name pkg path = Ok m \<and>
            pm_fields m = [] \<and> pm_constants m = [k] \<and> co_name k = []) \<and>
         res_map pm_fields (parse_msg_string pf (show_field f) pkg path) = Ok [f]"
proof (rule conjI)
  obtain a b where ab: "show_field f = a @ CHR ''<'' # CHR ''='' # b" "CHR ''='' \<notin> set a" "list_all vis a"
    by (rule bounded_field_shape [OF assms(1,2)])
  have "vis CHR ''<''" by code_simp
  then have "split_whitespace (a @ ''<'') = [a @ ''<'']"
    using ab(3) split_whitespace_join [of "[a @ ''<'']"] by (simp add: token_def)
  moreover have "split_once CHR ''='' (show_field f) = Some (a @ ''<'', b)"
    using split_once_append [of "CHR ''=''" "a @ ''<''" b] ab(1,2) by simp
  ultimately have const: "parse_constant (show_field f) l = Ok \<lparr>co_name = [], co_type = a @ ''<'', co_value = trim b\<rparr>" for l
    by (simp add: parse_constant_def)
  have line: "str_lines (show_field f) = [show_field f]"
    using str_lines_join [of "[show_field f]"] show_field_shape [OF assms(1)] by (simp add: join_lines_def)
  have trimmed: "trim (strip_comment (show_field f)) = show_field f"
    using strip_comment_show [of "show_field f" "[]"] show_field_shape [OF assms(1)] ident_char_vis
    by (simp add: show_comment_def)
  have "CHR ''='' \<in> set (show_field f)" by (simp add: ab(1))
  then show "\<exists>m k. parse_action_section pf (show_field f) name pkg path = Ok m \<and>
     pm_fields m = [] \<and> pm_constants m = [k] \<and> co_name k = []"
    using const show_field_shape(1) [OF assms(1)]
    by (simp add: parse_action_section_def line action_line_def trimmed)
  show "res_map pm_fields (parse_msg_string pf (show_field f) pkg path) = Ok [f]"
    using assms(3) parse_msg_joined [OF assms(3), of "[IField f []]" pf pkg] assms(1)
    by (simp add: join_lines_def show_comment_def text_line_def)
qed

theorem action_loses_bounded_fields_witness:
  "res_map pm_fields (parse_msg_string (\<lambda>_. None) (show_field sample_field) ''pkg'' sample_path) = Ok [sample_field] \<and>
   (\<exists>m. parse_action_section (\<lambda>_. None) (show_field sample_field) ''GoGoal'' ''pkg'' sample_path = Ok m \<and> pm_fields m = [])"
proof -
  have "wf_field sample_field" "bounded_type (fl_type sample_field)" "message_name sample_path = Ok ''Sample''"
    by code_simp+
  from action_loses_bounded_fields [OF this, of "\<lambda>_. None"] show ?thesis by blast
qed

section \<open>Panics\<close>

lemma set_drop_ws: "set (drop_ws w s) \<subseteq> set s"
proof (induction w s rule: drop_ws.induct)
  case (1 w s)
  then show ?case
    using set_drop_subset [of "w s" s] by (subst drop_ws.simps) auto
qed

lemma set_trim: "set (trim s) \<subseteq> set s"
  using set_drop_ws [of ws_len s] set_drop_ws [of ws_len_rev "rev (drop_ws ws_len s)"]
  by (auto simp: trim_def trim_start_def trim_end_def)

lemma set_split_ws: "t \<in> set (split_ws acc s) \<Longrightarrow> set t \<subseteq> set acc \<union> set s"
proof (induction acc s rule: split_ws.induct)
  case (2 acc c r)
  then show ?case
    using set_drop_subset [of "ws_len (c # r)" "c # r"] by (auto split: if_splits)
qed (auto split: if_splits)

lemma set_split_on: "p \<in> set (split_on c s) \<Longrightarrow> set p \<subseteq> set s"
  by (induction s arbitrary: p) (fastforce split: if_splits list.splits)+

lemma set_join_with: "set (join_with c ps) \<subseteq> insert c (\<Union>(set ` set ps))"
  by (induction c ps rule: join_with.induct) auto

lemma set_str_lines: "l \<in> set (str_lines s) \<Longrightarrow> set l \<subseteq> set s"
proof -
  have "set (strip_cr p) \<subseteq> set p" for p
    by (auto simp: strip_cr_def strip_suffix_char_def dest: in_set_butlastD)
  moreover assume "l \<in> set (str_lines s)"
  ultimately show ?thesis
    using set_split_on [of _ newline s] set_split_on [OF last_in_set [OF split_on_nonempty], of newline s]
    by (fastforce simp: str_lines_def Let_def split: if_splits dest!: in_set_butlastD)
qed

definition quotes :: "char set" where
  "quotes = {char_of (34 :: nat), char_of (39 :: nat)}"

definition quote_free :: "string \<Rightarrow> bool" where
  "quote_free s = (set s \<inter> quotes = {})"

lemma quote_free_subset: "quote_free s \<Longrightarrow> set t \<subseteq> set s \<Longrightarrow> quote_free t"
  by (auto simp: quote_free_def)

lemma quote_free_quoted: "quote_free s \<Longrightarrow> \<not> in_quotes s"
  by (cases s) (auto simp: quote_free_def quotes_def in_quotes_def)

lemma string_elements_quote_free: "list_all quote_free es \<Longrightarrow> string_elements es \<noteq> Panic"
  by (cases es) (simp_all add: quote_free_quoted)

lemma parse_default_quote_free:
  assumes "quote_free s"
  shows "parse_default_value pf s \<noteq> Panic"
proof -
  have "set (butlast (tl s)) \<subseteq> set s"
    by (cases s) (auto dest: in_set_butlastD)
  then have "list_all quote_free (map trim (split_on CHR '','' (butlast (tl s))))"
    using assms set_trim set_split_on by (fastforce simp: list_all_iff intro: quote_free_subset)
  then have "string_elements (map trim (split_on CHR '','' (butlast (tl s)))) \<noteq> Panic"
    by (rule string_elements_quote_free)
  then have "parse_array_default pf s \<noteq> Panic"
    by (cases "string_elements (map trim (split_on CHR '','' (butlast (tl s)))) :: (string list option, idl_error) res")
       (auto simp: parse_array_default_def Let_def split: option.splits)
  then show ?thesis
    using quote_free_quoted [OF assms] by (auto simp: parse_default_value_def split: option.splits)
qed

lemma res_map_Panic [simp]: "res_map f m = Panic \<longleftrightarrow> m = Panic"
  by (cases m) auto

lemma res_bind_Panic: "res_bind m k = Panic \<longleftrightarrow> m = Panic \<or> (\<exists>a. m = Ok a \<and> k a = Panic)"
  by (cases m) auto

lemma ok_or_Panic [simp]: "ok_or e m \<noteq> Panic"
  by (cases m) auto

lemma parse_field_type_no_panic: "parse_field_type s \<noteq> Panic"
proof -
  have "parse_array_suffix ts a \<noteq> Panic" for ts a
    by (auto simp: parse_array_suffix_def split: option.splits)
  then have "split_array s \<noteq> Panic"
    by (auto simp: split_array_def split: option.splits)
  moreover have "split_bound s b \<noteq> Panic" for b
    by (auto simp: split_bound_def split: option.splits)
  ultimately have "parse_unbounded_type s \<noteq> Panic"
    by (auto simp: parse_unbounded_type_def res_bind_Panic split: prod.splits)
  then show ?thesis
    by (auto simp: parse_field_type_def split: option.splits)
qed

lemma parse_field_quote_free:
  assumes "quote_free line"
  shows "parse_field pf line n \<noteq> Panic"
proof -
  have "quote_free (join_with CHR '' '' rest)" if "split_whitespace line = t # m # rest" for t m rest
  proof -
    have "CHR '' '' \<notin> quotes" unfolding quotes_def by code_simp
    moreover have "set r \<subseteq> set line" if "r \<in> set rest" for r
      using that \<open>split_whitespace line = t # m # rest\<close> set_split_ws [of r "[]" line]
      by (simp add: split_whitespace_def)
    ultimately show ?thesis
      using assms set_join_with [of "CHR '' ''" rest] by (fastforce simp: quote_free_def)
  qed
  then show ?thesis
    using parse_field_type_no_panic parse_default_quote_free
    by (auto simp: parse_field_def res_bind_Panic split: list.splits if_splits)
qed

lemma parse_constant_no_panic: "parse_constant line n \<noteq> Panic"
  by (auto simp: parse_constant_def split: option.splits list.splits)

lemma msg_line_quote_free: "quote_free l \<Longrightarrow> msg_line pf acc (n, l) \<noteq> Panic"
proof -
  assume "quote_free l"
  moreover have "set (trim (strip_comment l)) \<subseteq> set l"
    using set_trim [of "strip_comment l"] set_split_on [of "strip_comment l" "CHR ''#''" l] hd_in_set [OF split_on_nonempty]
    by (auto simp: strip_comment_def)
  ultimately have "parse_field pf (trim (strip_comment l)) n \<noteq> Panic"
    using quote_free_subset parse_field_quote_free by blast
  then show ?thesis
    using parse_constant_no_panic by (auto simp: msg_line_def Let_def split: prod.splits res.splits)
qed

lemma msg_lines_quote_free:
  "list_all quote_free ls \<Longrightarrow> res_fold (msg_line pf) acc (enumerate n ls) \<noteq> Panic"
  by (induction ls arbitrary: acc n) (auto simp: res_bind_Panic msg_line_quote_free)

lemma quote_chars:
  "vis (char_of (34 :: nat))" "vis (char_of (39 :: nat))"
  "char_of (34 :: nat) \<noteq> CHR ''=''" "char_of (39 :: nat) \<noteq> CHR ''=''"
  "char_of (34 :: nat) \<noteq> CHR ''[''" "char_of (39 :: nat) \<noteq> CHR ''[''"
  "char_of (34 :: nat) \<noteq> newline" "char_of (39 :: nat) \<noteq> newline"
  "char_of (34 :: nat) \<noteq> (char_of (13 :: nat) :: char)" "char_of (39 :: nat) \<noteq> (char_of (13 :: nat) :: char)"
  "in_quotes [char_of (34 :: nat)]" "in_quotes [char_of (39 :: nat)]"
  "newline \<noteq> CHR '' ''" "char_of (13 :: nat) \<noteq> CHR '' ''"
  by code_simp+

lemma find_char_Some: "find_char c s = Some i \<Longrightarrow> i < length s \<and> find_char c (s @ r) = Some i"
  by (induction s arbitrary: i) (auto split: if_splits)

lemma not_constant_append:
  assumes "\<not> is_constant s" and "CHR ''='' \<notin> set r"
  shows "\<not> is_constant (s @ r)"
proof (cases "find_char CHR ''='' s")
  case None
  then have "CHR ''='' \<notin> set s" by (induction s) (auto split: if_splits)
  with assms(2) show ?thesis by (intro not_constant_free) simp
next
  case (Some i)
  then have i: "i < length s" "find_char CHR ''='' (s @ r) = Some i"
    using find_char_Some [OF Some, of r] by simp_all
  then have "i - 1 < length s" by simp
  with i have "(s @ r) ! (i - 1) = s ! (i - 1)" "take i (s @ r) = take i s"
    by (simp_all only: nth_append if_True) simp
  with Some i(2) assms(1) show ?thesis
    by (simp only: is_constant_def option.case simp_thms)
qed

text \<open>
  When parsing a message definition panics. A file without quote characters never makes
  the parser panic, whatever else it holds. A field whose default value is a lone quote
  character always does.
\<close>

theorem msg_parser_panics:
  "(quote_free source \<longrightarrow> parse_msg_string pf source pkg path \<noteq> Panic) \<and>
   (wf_field_type ft \<and> ident n \<and> q \<in> quotes \<and> message_name path = Ok m \<longrightarrow>
      parse_msg_string pf (join_with CHR '' '' [show_field_type ft, n, [q]]) pkg path = Panic)"
proof (intro conjI impI)
  assume "quote_free source"
  then have "list_all quote_free (str_lines source)"
    using set_str_lines quote_free_subset by (fastforce simp: list_all_iff)
  then have "res_fold (msg_line pf) ([], []) (enumerate 0 (str_lines source)) \<noteq> Panic"
    by (rule msg_lines_quote_free)
  moreover have "message_name path \<noteq> Panic"
    by (auto simp: message_name_def res_bind_Panic split: if_splits)
  ultimately show "parse_msg_string pf source pkg path \<noteq> Panic"
    by (auto simp: parse_msg_string_def res_bind_Panic split: prod.splits)
next
  assume as: "wf_field_type ft \<and> ident n \<and> q \<in> quotes \<and> message_name path = Ok m"
  define h where "h = \<lparr>fl_name = n, fl_type = ft, fl_default = None\<rparr>"
  define line where "line = show_field h @ CHR '' '' # [q]"
  have line: "join_with CHR '' '' [show_field_type ft, n, [q]] = line"
    by (simp add: line_def h_def show_field_def field_tokens_def)
  have h: "wf_field h" using as by (simp add: h_def wf_field_def)
  have q: "vis q" "q \<noteq> CHR ''=''" "q \<noteq> CHR ''[''" "q \<noteq> newline" "q \<noteq> char_of (13 :: nat)" "in_quotes [q]"
      "newline \<noteq> CHR '' ''" "char_of (13 :: nat) \<noteq> CHR '' ''"
    using as quote_chars unfolding quotes_def by auto
  have toks: "list_all token [show_field_type ft, n, [q]]"
    using as q show_field_type_token ident_token by (simp add: token_def)
  have "parse_default_value pf [q] = Panic"
    using q as by (auto simp: parse_default_value_def parse_bool_def unquote_def)
  then have field: "parse_field pf line l = Panic" for l
    using as split_whitespace_join [OF toks] unfolding line by (simp add: parse_field_def parse_field_type_show)
  have not_const: "\<not> is_constant line"
    unfolding line_def using show_field_not_constant [OF h] q(2) by (intro not_constant_append) auto
  have "trim (strip_comment line) = line" "line \<noteq> []" "text_line line"
    using strip_comment_show [of line "[]"] show_field_shape [OF h] ident_char_vis q
    by (auto simp: line_def show_comment_def vis_def text_line_def)
  with field not_const as str_lines_join [of "[line]"] show "parse_msg_string pf (join_with CHR '' '' [show_field_type ft, n, [q]]) pkg path = Panic"
    unfolding line by (simp add: parse_msg_string_def join_lines_def msg_line_def)
qed

theorem msg_parser_panics_witness:
  "parse_msg_string (\<lambda>_. None) (join_with CHR '' '' [show_field_type (fl_type sample_field), ''data'', [char_of (34 :: nat)]])
     ''pkg'' sample_path = Panic \<and>
   parse_msg_string (\<lambda>_. None) ''[ =='' ''pkg'' sample_path \<noteq> Panic"
proof -
  have "quote_free ''[ =='' " unfolding quote_free_def quotes_def by code_simp
  moreover have "wf_field_type (fl_type sample_field)" "ident ''data''" "message_name sample_path = Ok ''Sample''"
    by code_simp+
  moreover have "char_of (34 :: nat) \<in> quotes" by (simp add: quotes_def)
  ultimately show ?thesis
    using msg_parser_panics [of "''[ ==''" "\<lambda>_. None" "''pkg''" sample_path "fl_type sample_field" "''data''" "char_of (34 :: nat)" "''Sample''"]
    by simp
qed

end
