(* ===== verification/Type_Schema.thy ===== *)
theory Type_Schema
  imports Hiroz_Prelude "HOL-Library.Sublist"
begin

text \<open>
  Identities of types (\<open>hiroz-schema/src\<close>): the two spellings of a type name, type ids, type
  descriptions, and the hash of a description. The JSON text of a value (crate \<open>serde_json\<close>),
  SHA-256 (crate \<open>sha2\<close>) and hexadecimal text (crate \<open>hex\<close>) are arguments of the definitions.

  Shown: when a name survives the translation to the DDS spelling and back, and that the hash
  identifies a description up to default values.
\<close>

section \<open>Type names (\<open>type_name.rs\<close>)\<close>

text \<open>\<open>str::find\<close> and \<open>str::replace\<close> with a string pattern.\<close>

fun find_str :: "string \<Rightarrow> string \<Rightarrow> nat option" where
  "find_str p [] = (if p = [] then Some 0 else None)"
| "find_str p (x # xs) = (if prefix p (x # xs) then Some 0 else map_option Suc (find_str p xs))"

function replace_str :: "string \<Rightarrow> string \<Rightarrow> string \<Rightarrow> string" where
  "replace_str p r s =
     (if s = [] \<or> p = [] then s
      else if prefix p s then r @ replace_str p r (drop (length p) s)
      else hd s # replace_str p r (tl s))"
  by auto
termination by (relation "measure (\<lambda>(_, _, s). length s)") auto

declare replace_str.simps [simp del]

definition kinds :: "string list" where
  "kinds = [''msg'', ''srv'', ''action'']"

definition dds_segment :: string where
  "dds_segment = ''dds_::''"

definition dds_from_namespace :: "string \<Rightarrow> string \<Rightarrow> string" where
  "dds_from_namespace namespace name =
     (if namespace = [] then dds_segment @ name @ ''_''
      else namespace @ ''::'' @ dds_segment @ name @ ''_'')"

definition split_canonical :: "string \<Rightarrow> (string \<times> string \<times> string) option" where
  "split_canonical canonical =
     (case split_on CHR ''/'' canonical of
        [package, kind, name] \<Rightarrow> if kind \<in> set kinds then Some (package, kind, name) else None
      | _ \<Rightarrow> None)"

definition dds_from_canonical :: "string \<Rightarrow> string option" where
  "dds_from_canonical canonical =
     (case split_canonical canonical of
        None \<Rightarrow> None
      | Some (package, kind, name) \<Rightarrow> Some (dds_from_namespace (package @ ''::'' @ kind) name))"

definition service_from_response :: "string \<Rightarrow> string option" where
  "service_from_response response_dds =
     map_option (\<lambda>stem. stem @ ''_'') (strip_suffix_str ''_Response_'' response_dds)"

definition ros_from_dds_strict :: "string \<Rightarrow> string" where
  "ros_from_dds_strict dds =
     (case strip_suffix_char CHR ''_'' dds of
        None \<Rightarrow> dds
      | Some stem \<Rightarrow>
          (case find_str dds_segment stem of
             None \<Rightarrow> dds
           | Some pos \<Rightarrow> replace_str ''::'' ''/'' (take pos stem) @ drop (pos + length dds_segment) stem))"

definition ros_from_dds :: "string \<Rightarrow> string" where
  "ros_from_dds dds =
     (let strict = ros_from_dds_strict dds in
      if strict \<noteq> dds then strict
      else rev (dropWhile (\<lambda>c. c = CHR ''_'')
             (rev (foldl (\<lambda>out kind. replace_str (''::'' @ kind @ ''::'') (''/'' @ kind @ ''/'') out) dds kinds))))"

section \<open>Type ids (\<open>type_id.rs\<close>)\<close>

definition tid_is_nested :: "u8 \<Rightarrow> bool" where
  "tid_is_nested t = (t = 1 \<or> t = 49 \<or> t = 97 \<or> t = 145)"

definition tid_is_array :: "u8 \<Rightarrow> bool" where
  "tid_is_array t = (t \<ge> 49 \<and> t \<le> 65)"

definition tid_is_bounded_sequence :: "u8 \<Rightarrow> bool" where
  "tid_is_bounded_sequence t = (t \<ge> 97 \<and> t \<le> 113)"

definition tid_is_unbounded_sequence :: "u8 \<Rightarrow> bool" where
  "tid_is_unbounded_sequence t = (t \<ge> 145 \<and> t \<le> 161)"

definition tid_is_single :: "u8 \<Rightarrow> bool" where
  "tid_is_single t = (t \<ge> 1 \<and> t \<le> 17)"

definition tid_base_type :: "u8 \<Rightarrow> u8" where
  "tid_base_type t =
     (if tid_is_unbounded_sequence t then t - 144
      else if tid_is_bounded_sequence t then t - 96
      else if tid_is_array t then t - 48 else t)"

definition tid_type_name :: "u8 \<Rightarrow> string option" where
  "tid_type_name t =
     (let b = tid_base_type t in
      if b = 1 then Some ''nested'' else if b = 2 then Some ''int8'' else if b = 3 then Some ''uint8''
      else if b = 4 then Some ''int16'' else if b = 5 then Some ''uint16''
      else if b = 6 then Some ''int32'' else if b = 7 then Some ''uint32''
      else if b = 8 then Some ''int64'' else if b = 9 then Some ''uint64''
      else if b = 10 then Some ''float32'' else if b = 11 then Some ''float64''
      else if b = 15 then Some ''bool'' else if b = 17 then Some ''string'' else None)"

section \<open>Type descriptions (\<open>type_description.rs\<close>)\<close>

record field_type_description =
  ftd_type_id :: u8
  ftd_capacity :: u64
  ftd_string_capacity :: u64
  ftd_nested_type_name :: string

record field_description =
  fd_name :: string
  fd_type :: field_type_description
  fd_default_value :: string

record type_description =
  td_type_name :: string
  td_fields :: "field_description list"

record type_description_msg =
  tm_type_description :: type_description
  tm_referenced :: "type_description list"

definition ftd_primitive :: "u8 \<Rightarrow> field_type_description" where
  "ftd_primitive t = \<lparr>ftd_type_id = t, ftd_capacity = 0, ftd_string_capacity = 0, ftd_nested_type_name = []\<rparr>"

definition ftd_nested :: "u8 \<Rightarrow> string \<Rightarrow> field_type_description" where
  "ftd_nested t n = \<lparr>ftd_type_id = t, ftd_capacity = 0, ftd_string_capacity = 0, ftd_nested_type_name = n\<rparr>"

definition ftd_array :: "u8 \<Rightarrow> u64 \<Rightarrow> field_type_description" where
  "ftd_array t c = \<lparr>ftd_type_id = t, ftd_capacity = c, ftd_string_capacity = 0, ftd_nested_type_name = []\<rparr>"

definition ftd_nested_array :: "u8 \<Rightarrow> u64 \<Rightarrow> string \<Rightarrow> field_type_description" where
  "ftd_nested_array t c n = \<lparr>ftd_type_id = t, ftd_capacity = c, ftd_string_capacity = 0, ftd_nested_type_name = n\<rparr>"

record field_description_for_hash =
  fh_name :: string
  fh_type :: field_type_description

record type_description_for_hash =
  th_type_name :: string
  th_fields :: "field_description_for_hash list"

record type_description_msg_for_hash =
  mh_type_description :: type_description_for_hash
  mh_referenced :: "type_description_for_hash list"

definition td_for_hash :: "type_description \<Rightarrow> type_description_for_hash" where
  "td_for_hash td = \<lparr>th_type_name = td_type_name td,
     th_fields = map (\<lambda>f. \<lparr>fh_name = fd_name f, fh_type = fd_type f\<rparr>) (td_fields td)\<rparr>"

definition to_hash_version :: "type_description_msg \<Rightarrow> type_description_msg_for_hash" where
  "to_hash_version m = \<lparr>mh_type_description = td_for_hash (tm_type_description m),
     mh_referenced = map td_for_hash (tm_referenced m)\<rparr>"

section \<open>The hash (\<open>hash.rs\<close>)\<close>

text \<open>
  \<open>derive(Serialize)\<close> writes a struct as an object with its fields in their order, under their
  serde names.
\<close>

datatype json = JNumber nat | JString string | JArray "json list" | JObject "(string \<times> json) list"

definition json_field_type :: "field_type_description \<Rightarrow> json" where
  "json_field_type t = JObject
     [(''type_id'', JNumber (unat (ftd_type_id t))), (''capacity'', JNumber (unat (ftd_capacity t))),
      (''string_capacity'', JNumber (unat (ftd_string_capacity t))),
      (''nested_type_name'', JString (ftd_nested_type_name t))]"

definition json_field :: "field_description_for_hash \<Rightarrow> json" where
  "json_field f = JObject [(''name'', JString (fh_name f)), (''type'', json_field_type (fh_type f))]"

definition json_type :: "type_description_for_hash \<Rightarrow> json" where
  "json_type t = JObject [(''type_name'', JString (th_type_name t)), (''fields'', JArray (map json_field (th_fields t)))]"

definition json_msg :: "type_description_msg_for_hash \<Rightarrow> json" where
  "json_msg m = JObject
     [(''type_description'', json_type (mh_type_description m)),
      (''referenced_type_descriptions'', JArray (map json_type (mh_referenced m)))]"

fun add_spaces :: "string \<Rightarrow> string" where
  "add_spaces (a # b # r) =
     (if (a = CHR '':'' \<or> a = CHR '','') \<and> b \<noteq> CHR '' '' then a # CHR '' '' # add_spaces (b # r)
      else a # add_spaces (b # r))"
| "add_spaces s = s"

definition to_ros2_json :: "(json \<Rightarrow> string) \<Rightarrow> json \<Rightarrow> string" where
  "to_ros2_json compact j = add_spaces (compact j)"

definition calculate_hash :: "(json \<Rightarrow> string) \<Rightarrow> (string \<Rightarrow> bytes) \<Rightarrow> type_description_msg \<Rightarrow> bytes" where
  "calculate_hash compact sha256 m = sha256 (to_ros2_json compact (json_msg (to_hash_version m)))"

text \<open>\<open>TypeHash\<close> (\<open>lib.rs\<close>).\<close>

datatype rihs_error = BadPrefix | BadHex | BadLength nat

definition rihs_string :: "(bytes \<Rightarrow> string) \<Rightarrow> bytes \<Rightarrow> string" where
  "rihs_string hex_encode h = ''RIHS01_'' @ hex_encode h"

definition rihs_parse :: "(string \<Rightarrow> bytes option) \<Rightarrow> string \<Rightarrow> (bytes, rihs_error) res" where
  "rihs_parse hex_decode s =
     (case strip_prefix_str ''RIHS01_'' s of
        None \<Rightarrow> Err BadPrefix
      | Some hex_part \<Rightarrow>
          (case hex_decode hex_part of
             None \<Rightarrow> Err BadHex
           | Some bs \<Rightarrow> if length bs \<noteq> 32 then Err (BadLength (length bs)) else Ok bs))"

definition hash_zero :: bytes where
  "hash_zero = replicate 32 0"

section \<open>Names survive the translation\<close>

lemma prefix_dds_colon:
  assumes "CHR '':'' \<notin> set p" and "prefix dds_segment (p @ CHR '':'' # r)"
  shows "p = ''dds_''"
proof -
  obtain z where z: "p @ CHR '':'' # r = dds_segment @ z"
    using assms(2) by (auto simp: prefix_def)
  have "takeWhile (\<lambda>c. c \<noteq> CHR '':'') (p @ CHR '':'' # r) = p"
    using assms(1) by (induction p) auto
  with z show ?thesis by (simp add: dds_segment_def)
qed

lemma colon_not_dds [simp]: "\<not> prefix dds_segment (CHR '':'' # s)"
  by (simp add: dds_segment_def)

lemma find_dds_skip:
  assumes "CHR '':'' \<notin> set p" and "\<not> suffix ''dds_'' p"
  shows "find_str dds_segment (p @ CHR '':'' # r) = map_option (\<lambda>i. Suc (length p) + i) (find_str dds_segment r)"
  using assms
proof (induction p)
  case Nil
  then show ?case by (simp add: dds_segment_def)
next
  case (Cons x xs)
  have "\<not> prefix dds_segment (x # xs @ CHR '':'' # r)"
    using prefix_dds_colon [of "x # xs" r] Cons.prems by auto
  moreover have "\<not> suffix ''dds_'' xs"
    using Cons.prems(2) by (simp add: suffix_Cons)
  ultimately show ?case
    using Cons by (simp add: option.map_comp comp_def)
qed

lemma find_dds_early:
  assumes "CHR '':'' \<notin> set q"
  shows "find_str dds_segment (q @ ''dds_::'' @ r) = Some (length q)"
  using assms
proof (induction q)
  case Nil
  then show ?case by (simp add: dds_segment_def)
next
  case (Cons x xs)
  have "\<not> prefix dds_segment (x # xs @ ''dds_::'' @ r)"
    using prefix_dds_colon [of "x # xs @ ''dds_''" "CHR '':'' # r"] Cons.prems by auto
  with Cons show ?case by simp
qed

lemma replace_sep:
  "CHR '':'' \<notin> set p \<Longrightarrow> replace_str ''::'' ''/'' (p @ CHR '':'' # CHR '':'' # r) = p @ CHR ''/'' # replace_str ''::'' ''/'' r"
  by (induction p) (subst replace_str.simps, simp)+

lemma replace_none: "CHR '':'' \<notin> set p \<Longrightarrow> replace_str ''::'' ''/'' p = p"
  by (induction p) (subst replace_str.simps, auto)+

lemma kinds_props: "k \<in> set kinds \<Longrightarrow> CHR '':'' \<notin> set k \<and> \<not> suffix ''dds_'' k \<and> k \<noteq> [] \<and> hd k \<noteq> CHR ''d''"
  unfolding kinds_def by (auto simp: suffix_def Cons_eq_append_conv)

lemma dds_stem: "strip_suffix_char CHR ''_'' (s @ ''_'') = Some s"
  by (simp add: strip_suffix_char_def)

lemma strict_at:
  assumes "find_str dds_segment (x @ dds_segment @ y) = Some (length x)"
  shows "ros_from_dds_strict (x @ dds_segment @ y @ ''_'') = replace_str ''::'' ''/'' x @ y"
  using assms dds_stem [of "x @ dds_segment @ y"] by (simp add: ros_from_dds_strict_def)

lemma strict_roundtrip:
  assumes "CHR '':'' \<notin> set p" and "\<not> suffix ''dds_'' p" and "k \<in> set kinds"
  shows "ros_from_dds_strict (dds_from_namespace (p @ ''::'' @ k) n) = p @ ''/'' @ k @ ''/'' @ n"
proof -
  let ?x = "p @ CHR '':'' # CHR '':'' # k @ CHR '':'' # CHR '':'' # []"
  have k: "CHR '':'' \<notin> set k" "\<not> suffix ''dds_'' k" using kinds_props [OF assms(3)] by simp_all
  have colon: "find_str dds_segment (CHR '':'' # s) = map_option Suc (find_str dds_segment s)" for s
    by (simp add: dds_segment_def)
  have here: "find_str dds_segment (dds_segment @ n) = Some 0" by (simp add: dds_segment_def)
  have "find_str dds_segment (?x @ dds_segment @ n) = Some (length ?x)"
    using find_dds_skip [OF assms(1,2)] find_dds_skip [OF k] by (simp add: here)
  moreover have "replace_str ''::'' ''/'' ?x = p @ ''/'' @ k @ ''/''"
    using replace_sep [OF assms(1)] replace_sep [OF k(1), of "[]"] replace_none [of "[]"] by simp
  ultimately show ?thesis
    using strict_at [of ?x n] by (simp add: dds_from_namespace_def)
qed

lemma strict_wrong:
  assumes "CHR '':'' \<notin> set q" and "k \<in> set kinds"
  shows "ros_from_dds_strict (dds_from_namespace ((q @ ''dds_'') @ ''::'' @ k) n) = q @ k @ ''::'' @ dds_segment @ n"
proof -
  have "find_str dds_segment (q @ dds_segment @ k @ ''::'' @ dds_segment @ n) = Some (length q)"
    using find_dds_early [OF assms(1)] by (simp add: dds_segment_def)
  from strict_at [OF this] show ?thesis
    using replace_none [OF assms(1)] by (simp add: dds_from_namespace_def dds_segment_def)
qed

lemma split_canonical_eq: "split_canonical c = Some (p, k, n) \<Longrightarrow> c = p @ ''/'' @ k @ ''/'' @ n \<and> k \<in> set kinds"
  using join_split_on [of "CHR ''/''" c]
  by (auto simp: split_canonical_def split: list.splits if_splits)

text \<open>
  The DDS spelling of a type name. Of a canonical name whose package holds no colon the
  translation back gives the name again exactly when the package does not end in \<open>dds_\<close>; then
  the tolerant variant agrees. So names of valid packages, which do not end in an
  underscore, never collide on the wire.
\<close>

theorem dds_name_roundtrip:
  assumes "split_canonical c = Some (p, k, n)" and "CHR '':'' \<notin> set p"
  shows "\<exists>d. dds_from_canonical c = Some d \<and> (ros_from_dds_strict d = c \<longleftrightarrow> \<not> suffix ''dds_'' p) \<and>
     (suffix ''dds_'' p \<or> ros_from_dds d = c)"
proof -
  have c: "c = p @ ''/'' @ k @ ''/'' @ n" "k \<in> set kinds"
    using split_canonical_eq [OF assms(1)] by auto
  let ?d = "dds_from_namespace (p @ ''::'' @ k) n"
  have d: "dds_from_canonical c = Some ?d" by (simp add: dds_from_canonical_def assms(1))
  show ?thesis
  proof (cases "suffix ''dds_'' p")
    case True
    then obtain q where q: "p = q @ ''dds_''" by (auto simp: suffix_def)
    then have "ros_from_dds_strict ?d = q @ k @ ''::'' @ dds_segment @ n"
      using strict_wrong [of q k n] assms(2) c(2) by simp
    moreover have "q @ k @ ''::'' @ dds_segment @ n \<noteq> c"
      using c kinds_props [OF c(2)] q by (cases k) auto
    ultimately show ?thesis using d True by auto
  next
    case False
    then have s: "ros_from_dds_strict ?d = c"
      using strict_roundtrip [OF assms(2) False c(2)] c(1) by simp
    have "c \<noteq> ?d"
    proof
      assume "c = ?d"
      then have "p @ CHR ''/'' # k @ ''/'' @ n = p @ CHR '':'' # CHR '':'' # k @ ''::'' @ dds_segment @ n @ ''_''"
        using c(1) by (simp add: dds_from_namespace_def)
      then show False by simp
    qed
    then show ?thesis using d s False by (auto simp: ros_from_dds_def)
  qed
qed

theorem dds_name_roundtrip_witness:
  "\<exists>d. dds_from_canonical ''std_msgs/msg/String'' = Some d \<and> ros_from_dds_strict d = ''std_msgs/msg/String''"
proof -
  have "split_canonical ''std_msgs/msg/String'' = Some (''std_msgs'', ''msg'', ''String'')" "CHR '':'' \<notin> set ''std_msgs''"
    "\<not> suffix ''dds_'' ''std_msgs''"
    by code_simp+
  with dds_name_roundtrip [OF this(1,2)] show ?thesis by blast
qed

section \<open>The hash identifies the description\<close>

definition name_char :: "char \<Rightarrow> bool" where
  "name_char c = (let n = of_char c :: nat in
     (47 \<le> n \<and> n \<le> 57) \<or> (65 \<le> n \<and> n \<le> 90) \<or> (97 \<le> n \<and> n \<le> 122) \<or> n = 95)"

fun json_plain :: "json \<Rightarrow> bool" and json_plain_list :: "json list \<Rightarrow> bool"
  and json_plain_members :: "(string \<times> json) list \<Rightarrow> bool" where
  "json_plain (JNumber n) = True"
| "json_plain (JString s) = list_all name_char s"
| "json_plain (JArray js) = json_plain_list js"
| "json_plain (JObject ms) = json_plain_members ms"
| "json_plain_list [] = True"
| "json_plain_list (j # js) = (json_plain j \<and> json_plain_list js)"
| "json_plain_members [] = True"
| "json_plain_members ((k, v) # ms) = (list_all name_char k \<and> json_plain v \<and> json_plain_members ms)"

text \<open>
  What \<open>calculate_hash\<close> relies on in \<open>serde_json::to_string\<close>: on values whose strings need no
  escaping, different values have different texts, and the text is compact.
\<close>

definition compact_ok :: "(json \<Rightarrow> string) \<Rightarrow> bool" where
  "compact_ok compact \<longleftrightarrow>
     (\<forall>a b. json_plain a \<longrightarrow> json_plain b \<longrightarrow> compact a = compact b \<longrightarrow> a = b) \<and>
     (\<forall>a. json_plain a \<longrightarrow> CHR '' '' \<notin> set (compact a))"

definition plain_type :: "type_description \<Rightarrow> bool" where
  "plain_type td \<longleftrightarrow> list_all name_char (td_type_name td) \<and>
     list_all (\<lambda>f. list_all name_char (fd_name f) \<and> list_all name_char (ftd_nested_type_name (fd_type f))) (td_fields td)"

definition plain_msg :: "type_description_msg \<Rightarrow> bool" where
  "plain_msg m \<longleftrightarrow> plain_type (tm_type_description m) \<and> list_all plain_type (tm_referenced m)"

lemma add_spaces_filter: "CHR '' '' \<notin> set s \<Longrightarrow> filter (\<lambda>c. c \<noteq> CHR '' '') (add_spaces s) = s"
  by (induction s rule: add_spaces.induct) auto

lemma add_spaces_inj: "CHR '' '' \<notin> set s \<Longrightarrow> CHR '' '' \<notin> set t \<Longrightarrow> add_spaces s = add_spaces t \<Longrightarrow> s = t"
  by (metis add_spaces_filter)

lemma json_plain_list_map: "json_plain_list (map f xs) \<longleftrightarrow> list_all (\<lambda>x. json_plain (f x)) xs"
  by (induction xs) auto

lemma key_chars:
  "list_all name_char ''type_id''" "list_all name_char ''capacity''" "list_all name_char ''string_capacity''"
  "list_all name_char ''nested_type_name''" "list_all name_char ''name''" "list_all name_char ''type''"
  "list_all name_char ''type_name''" "list_all name_char ''fields''" "list_all name_char ''type_description''"
  "list_all name_char ''referenced_type_descriptions''"
  by code_simp+

lemma json_type_plain: "plain_type td \<Longrightarrow> json_plain (json_type (td_for_hash td))"
  by (simp add: plain_type_def json_type_def td_for_hash_def json_field_def json_field_type_def json_plain_list_map
        list_all_iff key_chars [unfolded list_all_iff])

lemma json_msg_plain: "plain_msg m \<Longrightarrow> json_plain (json_msg (to_hash_version m))"
  by (simp add: plain_msg_def json_msg_def to_hash_version_def json_type_plain json_plain_list_map list_all_iff
        key_chars [unfolded list_all_iff])

lemma json_field_type_inj: "json_field_type a = json_field_type b \<Longrightarrow> a = b"
  by (cases a; cases b) (auto simp: json_field_type_def intro: unsigned_word_eqI)

lemma json_field_inj: "json_field a = json_field b \<Longrightarrow> a = b"
  by (cases a; cases b) (auto simp: json_field_def dest: json_field_type_inj)

lemma json_type_inj: "json_type a = json_type b \<Longrightarrow> a = b"
  by (cases a; cases b) (auto simp: json_type_def intro: list.inj_map_strong json_field_inj)

lemma json_msg_inj: "json_msg a = json_msg b \<Longrightarrow> a = b"
  by (cases a; cases b) (auto simp: json_msg_def intro: list.inj_map_strong json_type_inj dest: json_type_inj)

text \<open>
  C33: a type hash identifies a type. For two descriptions with ordinary names whose JSON texts
  SHA-256 does not happen to map to the same value, the hashes are equal exactly when the
  descriptions agree in every name, type id, capacity and referenced type, in order; the
  default values do not count.
\<close>

theorem hash_identifies_type:
  assumes "compact_ok compact" and "plain_msg a" and "plain_msg b"
    and "inj_on sha256 {to_ros2_json compact (json_msg (to_hash_version a)),
                        to_ros2_json compact (json_msg (to_hash_version b))}"
  shows "calculate_hash compact sha256 a = calculate_hash compact sha256 b \<longleftrightarrow> to_hash_version a = to_hash_version b"
proof
  let ?j = "\<lambda>m. json_msg (to_hash_version m)"
  assume "calculate_hash compact sha256 a = calculate_hash compact sha256 b"
  then have "sha256 (to_ros2_json compact (?j a)) = sha256 (to_ros2_json compact (?j b))"
    by (simp only: calculate_hash_def)
  then have "to_ros2_json compact (?j a) = to_ros2_json compact (?j b)"
    by (rule inj_onD [OF assms(4)]) blast+
  then have "add_spaces (compact (?j a)) = add_spaces (compact (?j b))"
    by (simp only: to_ros2_json_def)
  moreover have "json_plain (?j a)" "json_plain (?j b)"
    using assms(2,3) by (simp_all add: json_msg_plain)
  moreover from this have "CHR '' '' \<notin> set (compact (?j a))" "CHR '' '' \<notin> set (compact (?j b))"
    using assms(1) by (simp_all add: compact_ok_def)
  ultimately have "compact (?j a) = compact (?j b)" by (metis add_spaces_inj)
  with \<open>json_plain (?j a)\<close> \<open>json_plain (?j b)\<close> assms(1) have "?j a = ?j b"
    by (simp add: compact_ok_def)
  then show "to_hash_version a = to_hash_version b" by (rule json_msg_inj)
qed (simp add: calculate_hash_def)

section \<open>A compact JSON text\<close>

abbreviation dquote :: char where
  "dquote \<equiv> CHR 0x22"

fun json_compact :: "json \<Rightarrow> string" and json_list :: "json list \<Rightarrow> string" and json_elements :: "json list \<Rightarrow> string"
  and json_object :: "(string \<times> json) list \<Rightarrow> string" and json_members :: "(string \<times> json) list \<Rightarrow> string" where
  "json_compact (JNumber n) = show_nat n"
| "json_compact (JString s) = dquote # s @ [dquote]"
| "json_compact (JArray js) = CHR ''['' # json_list js"
| "json_compact (JObject ms) = CHR ''{'' # json_object ms"
| "json_list [] = '']''"
| "json_list (j # js) = json_compact j @ json_elements js"
| "json_elements [] = '']''"
| "json_elements (j # js) = CHR '','' # json_compact j @ json_elements js"
| "json_object [] = ''}''"
| "json_object ((k, v) # ms) = dquote # k @ dquote # CHR '':'' # json_compact v @ json_members ms"
| "json_members [] = ''}''"
| "json_members ((k, v) # ms) = CHR '','' # dquote # k @ dquote # CHR '':'' # json_compact v @ json_members ms"

definition stop :: "string \<Rightarrow> bool" where
  "stop r \<longleftrightarrow> r = [] \<or> \<not> is_digit (hd r)"

lemma not_digit_json [simp]:
  "\<not> is_digit CHR '']''" "\<not> is_digit CHR ''}''" "\<not> is_digit dquote" "\<not> is_digit CHR ''[''" "\<not> is_digit CHR ''{''"
  by (simp_all add: is_digit_def digit_val_def)

lemma stop_elements [simp]: "stop (json_elements js @ r)"
  by (cases js) (simp_all add: stop_def)

lemma stop_members [simp]: "stop (json_members ms @ r)"
  by (cases ms rule: json_members.cases) (simp_all add: stop_def)

lemma show_nat_prefix:
  assumes "show_nat n @ r = show_nat m @ s" and "stop r" and "stop s"
  shows "n = m \<and> r = s"
proof -
  have "takeWhile is_digit (show_nat k @ t) = show_nat k" if "stop t" for k t
    using that show_nat_digits [of _ k] by (cases t) (auto simp: stop_def takeWhile_append)
  with assms have "show_nat n = show_nat m" by metis
  then show ?thesis using assms(1) show_nat_inj [of n m] by simp
qed

lemma quote_prefix:
  assumes "x @ dquote # r = y @ dquote # s" and "list_all name_char x" and "list_all name_char y"
  shows "x = y \<and> r = s"
proof -
  have "\<not> name_char dquote" by code_simp
  then have "takeWhile (\<lambda>c. c \<noteq> dquote) (z @ dquote # t) = z" if "list_all name_char z" for z t
    using that by (induction z) auto
  with assms have "x = y" by metis
  then show ?thesis using assms(1) by simp
qed

text \<open>The first character tells the kind of a value.\<close>

definition json_kind :: "char \<Rightarrow> nat" where
  "json_kind c = (if is_digit c then 0 else if c = dquote then 1 else if c = CHR ''['' then 2 else if c = CHR ''{'' then 3 else 4)"

lemma json_head:
  obtains c w where "json_compact j = c # w"
    and "json_kind c = (case j of JNumber _ \<Rightarrow> 0 | JString _ \<Rightarrow> 1 | JArray _ \<Rightarrow> 2 | JObject _ \<Rightarrow> 3)"
proof (cases j)
  case (JNumber n)
  obtain c w where "show_nat n = c # w" by (meson list.exhaust show_nat_nonempty)
  moreover from this have "is_digit c" using show_nat_digits [of c n] by simp
  ultimately show ?thesis using that JNumber by (simp add: json_kind_def)
qed (use that in \<open>auto simp: json_kind_def\<close>)

lemma json_kind_eq:
  assumes "json_compact a @ r = json_compact b @ s"
  shows "(case a of JNumber _ \<Rightarrow> 0 | JString _ \<Rightarrow> 1 | JArray _ \<Rightarrow> 2 | JObject _ \<Rightarrow> (3 :: nat)) =
         (case b of JNumber _ \<Rightarrow> 0 | JString _ \<Rightarrow> 1 | JArray _ \<Rightarrow> 2 | JObject _ \<Rightarrow> 3)"
  using assms json_head [of a] json_head [of b] by (metis append_Cons list.inject)

lemma json_compact_not_close: "json_compact j @ r \<noteq> CHR '']'' # s"
proof
  assume "json_compact j @ r = CHR '']'' # s"
  moreover obtain c w where "json_compact j = c # w"
    "json_kind c = (case j of JNumber _ \<Rightarrow> 0 | JString _ \<Rightarrow> 1 | JArray _ \<Rightarrow> 2 | JObject _ \<Rightarrow> 3)"
    by (rule json_head)
  ultimately show False by (cases j) (simp_all add: json_kind_def)
qed

lemma json_prefix:
  "json_plain a \<Longrightarrow> json_plain b \<Longrightarrow> json_compact a @ r = json_compact b @ s \<Longrightarrow> stop r \<Longrightarrow> stop s \<Longrightarrow> a = b \<and> r = s"
  "json_plain_list js \<Longrightarrow> json_plain_list js' \<Longrightarrow> json_list js @ r = json_list js' @ s \<Longrightarrow> js = js' \<and> r = s"
  "json_plain_list es \<Longrightarrow> json_plain_list es' \<Longrightarrow> json_elements es @ r = json_elements es' @ s \<Longrightarrow> es = es' \<and> r = s"
  "json_plain_members os \<Longrightarrow> json_plain_members os' \<Longrightarrow> json_object os @ r = json_object os' @ s \<Longrightarrow> os = os' \<and> r = s"
  "json_plain_members ms \<Longrightarrow> json_plain_members ms' \<Longrightarrow> json_members ms @ r = json_members ms' @ s \<Longrightarrow> ms = ms' \<and> r = s"
proof (induction a and js and es and os and ms arbitrary: b r s and js' r s and es' r s and os' r s and ms' r s
       rule: json_compact_json_list_json_elements_json_object_json_members.induct)
  case (1 n)
  then obtain m where "b = JNumber m" using json_kind_eq [OF 1(3)] by (cases b) simp_all
  with 1 show ?case using show_nat_prefix [of n r m s] by simp
next
  case (2 x)
  then obtain y where "b = JString y" using json_kind_eq [OF 2(3)] by (cases b) simp_all
  with 2 show ?case using quote_prefix [of x r y s] by simp
next
  case (3 js)
  obtain y where b: "b = JArray y" using json_kind_eq [OF 3(4)] by (cases b) simp_all
  with 3(2-) b show ?case using 3(1) [of y r s] by simp
next
  case (4 ms)
  obtain y where b: "b = JObject y" using json_kind_eq [OF 4(4)] by (cases b) simp_all
  with 4(2-) b show ?case using 4(1) [of y r s] by simp
next
  case 5
  then show ?case using json_compact_not_close by (cases js') (auto dest: sym)
next
  case (6 j js)
  obtain j' js'' where js': "js' = j' # js''" using json_compact_not_close 6(5) by (cases js') simp_all
  with 6(3-) have "j = j' \<and> json_elements js @ r = json_elements js'' @ s"
    by (intro 6(1)) simp_all
  with 6(3-) js' show ?case using 6(2) [of js'' r s] by simp
next
  case 7
  then show ?case by (cases es') auto
next
  case (8 j js)
  obtain j' js'' where js': "es' = j' # js''" using 8(5) by (cases es') simp_all
  with 8(3-) have "j = j' \<and> json_elements js @ r = json_elements js'' @ s"
    by (intro 8(1)) simp_all
  with 8(3-) js' show ?case using 8(2) [of js'' r s] by simp
next
  case 9
  then show ?case by (cases os' rule: json_members.cases) auto
next
  case (10 k v ms)
  obtain k' v' ms'' where ms': "os' = (k', v') # ms''" using 10(5) by (cases os' rule: json_members.cases) simp_all
  with 10(3-) have k: "k = k' \<and> CHR '':'' # json_compact v @ json_members ms @ r = CHR '':'' # json_compact v' @ json_members ms'' @ s"
    by (intro quote_prefix) simp_all
  with 10(3-) ms' have "v = v' \<and> json_members ms @ r = json_members ms'' @ s"
    by (intro 10(1)) simp_all
  with 10(3-) ms' k show ?case using 10(2) [of ms'' r s] by simp
next
  case 11
  then show ?case by (cases ms' rule: json_members.cases) auto
next
  case (12 k v ms)
  obtain k' v' ms'' where ms': "ms' = (k', v') # ms''" using 12(5) by (cases ms' rule: json_members.cases) simp_all
  with 12(3-) have k: "k = k' \<and> CHR '':'' # json_compact v @ json_members ms @ r = CHR '':'' # json_compact v' @ json_members ms'' @ s"
    by (intro quote_prefix) simp_all
  with 12(3-) ms' have "v = v' \<and> json_members ms @ r = json_members ms'' @ s"
    by (intro 12(1)) simp_all
  with 12(3-) ms' k show ?case using 12(2) [of ms'' r s] by simp
qed

lemma json_no_space:
  "json_plain a \<Longrightarrow> CHR '' '' \<notin> set (json_compact a)"
  "json_plain_list js \<Longrightarrow> CHR '' '' \<notin> set (json_list js)"
  "json_plain_list es \<Longrightarrow> CHR '' '' \<notin> set (json_elements es)"
  "json_plain_members os \<Longrightarrow> CHR '' '' \<notin> set (json_object os)"
  "json_plain_members ms \<Longrightarrow> CHR '' '' \<notin> set (json_members ms)"
proof (induction a and js and es and os and ms
       rule: json_compact_json_list_json_elements_json_object_json_members.induct)
  case (1 n)
  have "\<not> is_digit CHR '' ''" by code_simp
  then show ?case by (simp add: show_nat_no_sep)
next
  case (2 s)
  have "\<not> name_char CHR '' ''" by code_simp
  with 2 show ?case by (auto simp: list_all_iff)
next
  case (10 k v ms)
  have "\<not> name_char CHR '' ''" by code_simp
  with 10 show ?case by (auto simp: list_all_iff)
next
  case (12 k v ms)
  have "\<not> name_char CHR '' ''" by code_simp
  with 12 show ?case by (auto simp: list_all_iff)
qed simp_all

lemma json_compact_ok: "compact_ok json_compact"
proof -
  have "a = b" if "json_plain a" "json_plain b" "json_compact a = json_compact b" for a b
    using json_prefix(1) [OF that(1,2), of "[]" "[]"] that(3) by (simp add: stop_def)
  then show ?thesis using json_no_space(1) by (simp add: compact_ok_def)
qed

definition sample_desc :: "u8 \<Rightarrow> type_description_msg" where
  "sample_desc t = \<lparr>tm_type_description = \<lparr>td_type_name = ''std_msgs/msg/String'',
      td_fields = [\<lparr>fd_name = ''data'', fd_type = ftd_primitive t, fd_default_value = []\<rparr>]\<rparr>, tm_referenced = []\<rparr>"

theorem hash_identifies_type_witness:
  "calculate_hash json_compact (map (\<lambda>c. word_of_nat (of_char c))) (sample_desc 17) \<noteq>
   calculate_hash json_compact (map (\<lambda>c. word_of_nat (of_char c))) (sample_desc 16)"
proof -
  let ?sha = "map (\<lambda>c. word_of_nat (of_char c)) :: string \<Rightarrow> bytes"
  have "inj ?sha"
  proof (rule injI)
    fix x y assume "?sha x = ?sha y"
    then have "map (unat :: u8 \<Rightarrow> nat) (?sha x) = map unat (?sha y)" by simp
    then have "map (of_char :: char \<Rightarrow> nat) x = map of_char y"
      by (simp add: comp_def unat_of_nat)
    then show "x = y" by (simp add: inj_map_eq_map inj_def)
  qed
  then have inj: "inj_on ?sha A" for A by (rule inj_on_subset) blast
  have plain: "plain_msg (sample_desc 17)" "plain_msg (sample_desc 16)" by code_simp+
  have "to_hash_version (sample_desc 17) \<noteq> to_hash_version (sample_desc 16)" by code_simp
  then show ?thesis
    using hash_identifies_type [OF json_compact_ok plain inj] by blast
qed

end
