(* ===== verification/Type_Resolver.thy ===== *)
theory Type_Resolver
  imports Interface_Parser Type_Schema Message_Cache "HOL-Library.AList" "HOL-Library.Char_ord"
    "HOL-Library.List_Lexorder"
begin

text \<open>
  From parsed interfaces to type hashes (\<open>hiroz-codegen/src/hashing.rs\<close>, \<open>resolver.rs\<close>): type
  ids, type descriptions with the descriptions they refer to, the loop that resolves messages
  in the order of their dependencies, and the hashes of services and actions. A \<open>BTreeMap\<close> is
  the ordered list of \<open>Message_Cache\<close>, a \<open>HashMap\<close> an association list. The recursions that
  follow references count their depth: beyond a limit only a cycle can lead, on which the code
  overflows the stack, here \<open>Panic\<close>.

  Shown: the loop ends on every input; a set of at most 101 messages whose types form no
  cycle resolves completely in every order; a larger set may be refused although it could be
  resolved; the references of a hash are exactly the types reachable from the message; the
  recursions never overflow on the state the loop builds; which different types get the same
  hash.
\<close>

section \<open>Type ids of fields (\<open>hashing.rs\<close>)\<close>

definition primitive_types :: "string list" where
  "primitive_types =
     [''bool'', ''byte'', ''char'', ''uint8'', ''int8'', ''uint16'', ''int16'', ''uint32'', ''int32'',
      ''uint64'', ''int64'', ''float32'', ''float64'', ''string'', ''wstring'']"

definition is_primitive_type :: "string \<Rightarrow> bool" where
  "is_primitive_type base_type = (base_type \<in> set primitive_types)"

text \<open>The arms of the match: the ids of a single value, an array, a bounded and an unbounded sequence.\<close>

definition type_id_table :: "(string \<times> u8 \<times> u8 \<times> u8 \<times> u8) list" where
  "type_id_table =
     [(''int8'', 2, 50, 98, 146), (''uint8'', 3, 51, 99, 147), (''char'', 3, 51, 99, 147),
      (''byte'', 16, 16 + 48, 16 + 96, 16 + 144), (''int16'', 4, 52, 100, 148), (''uint16'', 5, 53, 101, 149),
      (''int32'', 6, 54, 102, 150), (''uint32'', 7, 55, 103, 151), (''int64'', 8, 56, 104, 152),
      (''uint64'', 9, 57, 105, 153), (''float32'', 10, 58, 106, 154), (''float64'', 11, 59, 107, 155),
      (''bool'', 15, 63, 111, 159), (''string'', 17, 65, 113, 161)]"

datatype resolve_error =
    UnsupportedFieldType string array_type
  | ExceededIterations nat "string list"
  | ResolutionStalled nat nat "string list"
  | ServiceEventInfoMissing

definition pick_id :: "array_type \<Rightarrow> u8 \<times> u8 \<times> u8 \<times> u8 \<Rightarrow> u8" where
  "pick_id array ids =
     (case ids of (single, fixed, bounded, unbounded) \<Rightarrow>
        (case array of ASingle \<Rightarrow> single | AFixed _ \<Rightarrow> fixed | ABounded _ \<Rightarrow> bounded | AUnbounded \<Rightarrow> unbounded))"

definition get_type_id :: "idl_field_type \<Rightarrow> (u8, resolve_error) res" where
  "get_type_id ft =
     (if ft_package ft \<noteq> None \<or> \<not> is_primitive_type (ft_base_type ft)
      then Ok (pick_id (ft_array ft) (1, 49, 97, 145))
      else if ft_string_bound ft \<noteq> None \<and> ft_base_type ft = ''string'' then Ok 21
      else case map_of type_id_table (ft_base_type ft) of
             Some ids \<Rightarrow> Ok (pick_id (ft_array ft) ids)
           | None \<Rightarrow> Err (UnsupportedFieldType (ft_base_type ft) (ft_array ft)))"

definition get_array_capacity :: "idl_field_type \<Rightarrow> u64" where
  "get_array_capacity ft = (case ft_array ft of AFixed n \<Rightarrow> n | ABounded n \<Rightarrow> n | _ \<Rightarrow> 0)"

definition get_nested_type_name_with_context :: "idl_field_type \<Rightarrow> string \<Rightarrow> string" where
  "get_nested_type_name_with_context ft source_package =
     unwrap_or (ft_package ft) source_package @ ''/msg/'' @ ft_base_type ft"

section \<open>Descriptions and their references\<close>

type_synonym descriptions = "(string \<times> type_description) list"

definition nested_type_name_to_key :: "string \<Rightarrow> string" where
  "nested_type_name_to_key name =
     (case split_once CHR ''/'' name of
        None \<Rightarrow> name
      | Some (a, r) \<Rightarrow>
          (case split_once CHR ''/'' r of
             None \<Rightarrow> name
           | Some (_, c) \<Rightarrow> a @ ''/'' @ c))"

text \<open>\<open>collect_referenced_types\<close>, with the depth that is left.\<close>

fun collect_referenced_types :: "nat \<Rightarrow> descriptions \<Rightarrow> type_description \<Rightarrow> descriptions \<Rightarrow> (descriptions, resolve_error) res" where
  "collect_referenced_types 0 all_deps td collected = Panic"
| "collect_referenced_types (Suc depth) all_deps td collected =
     res_fold (\<lambda>collected f.
       (if ftd_nested_type_name (fd_type f) = [] then Ok collected
        else case map_of all_deps (nested_type_name_to_key (ftd_nested_type_name (fd_type f))) of
               None \<Rightarrow> Ok collected
             | Some dep \<Rightarrow>
                 if map_of collected (td_type_name dep) \<noteq> None then Ok collected
                 else res_map (bt_insert (td_type_name dep) dep)
                        (collect_referenced_types depth all_deps dep collected)))
       collected (td_fields td)"

text \<open>
  Deeper than this the recursion is at a type it is at already, with nothing collected since
  then: it never returns.
\<close>

definition depth_limit :: "descriptions \<Rightarrow> nat" where
  "depth_limit all_deps = (length all_deps + 1) * (length all_deps + 2)"

definition dep_key :: "string \<Rightarrow> idl_field_type \<Rightarrow> string" where
  "dep_key package ft = unwrap_or (ft_package ft) package @ ''/'' @ ft_base_type ft"

definition structure_member :: field_description where
  "structure_member = \<lparr>fd_name = ''structure_needs_at_least_one_member'', fd_type = ftd_primitive 3, fd_default_value = []\<rparr>"

definition build_field_type :: "string \<Rightarrow> idl_field_type \<Rightarrow> (field_type_description, resolve_error) res" where
  "build_field_type package ft =
     res_map (\<lambda>type_id.
       (let capacity = get_array_capacity ft;
            string_capacity = unwrap_or (ft_string_bound ft) 0;
            nested_type_name = (if is_primitive_type (ft_base_type ft) then []
                                else get_nested_type_name_with_context ft package)
        in if nested_type_name = [] then
             (if 0 < capacity then ftd_array type_id capacity
              else if 0 < string_capacity
              then \<lparr>ftd_type_id = type_id, ftd_capacity = 0, ftd_string_capacity = string_capacity,
                    ftd_nested_type_name = []\<rparr>
              else ftd_primitive type_id)
           else if 0 < capacity then ftd_nested_array type_id capacity nested_type_name
           else ftd_nested type_id nested_type_name))
       (get_type_id ft)"

definition build_field ::
  "string \<Rightarrow> descriptions \<Rightarrow> field_description list \<times> descriptions \<Rightarrow> idl_field
   \<Rightarrow> (field_description list \<times> descriptions, resolve_error) res" where
  "build_field package resolved_deps acc field =
     (let (fields, referenced) = acc in
      res_bind (build_field_type package (fl_type field)) (\<lambda>ftd.
      (let fields' = fields @ [\<lparr>fd_name = fl_name field, fd_type = ftd, fd_default_value = []\<rparr>] in
       if is_primitive_type (ft_base_type (fl_type field)) then Ok (fields', referenced)
       else case map_of resolved_deps (dep_key package (fl_type field)) of
              None \<Rightarrow> Ok (fields', referenced)
            | Some dep_desc \<Rightarrow>
                res_map (\<lambda>r. (fields', bt_insert (td_type_name dep_desc) dep_desc r))
                  (collect_referenced_types (depth_limit resolved_deps) resolved_deps dep_desc referenced))))"

definition build_type_description_msg :: "parsed_message \<Rightarrow> descriptions \<Rightarrow> (type_description_msg, resolve_error) res" where
  "build_type_description_msg msg resolved_deps =
     res_map (\<lambda>(fields, referenced).
        \<lparr>tm_type_description = \<lparr>td_type_name = pm_package msg @ ''/msg/'' @ pm_name msg, td_fields = fields\<rparr>,
         tm_referenced = map snd referenced\<rparr>)
       (if pm_fields msg = [] then Ok ([structure_member], [])
        else res_fold (build_field (pm_package msg) resolved_deps) ([], []) (pm_fields msg))"

text \<open>The JSON text and SHA-256, as in \<open>Type_Schema\<close>.\<close>

record hash_env =
  he_compact :: "json \<Rightarrow> string"
  he_sha256 :: "string \<Rightarrow> bytes"

definition env_hash :: "hash_env \<Rightarrow> type_description_msg \<Rightarrow> bytes" where
  "env_hash env m = calculate_hash (he_compact env) (he_sha256 env) m"

definition calculate_type_hash :: "hash_env \<Rightarrow> parsed_message \<Rightarrow> descriptions \<Rightarrow> (bytes, resolve_error) res" where
  "calculate_type_hash env msg resolved_deps =
     res_map (env_hash env) (build_type_description_msg msg resolved_deps)"

definition str_contains :: "string \<Rightarrow> string \<Rightarrow> bool" where
  "str_contains p s = (find_str p s \<noteq> None)"

definition plain_field :: "string \<Rightarrow> field_type_description \<Rightarrow> field_description" where
  "plain_field name ft = \<lparr>fd_name = name, fd_type = ft, fd_default_value = []\<rparr>"

definition event_description :: "string \<Rightarrow> string \<Rightarrow> string \<Rightarrow> string \<Rightarrow> type_description" where
  "event_description event_name info_name request_name response_name =
     \<lparr>td_type_name = event_name,
      td_fields = [plain_field ''info'' (ftd_nested 1 info_name),
                   plain_field ''request'' (ftd_nested_array 97 1 request_name),
                   plain_field ''response'' (ftd_nested_array 97 1 response_name)]\<rparr>"

definition service_description :: "string \<Rightarrow> string \<Rightarrow> string \<Rightarrow> string \<Rightarrow> type_description" where
  "service_description service_name request_name response_name event_name =
     \<lparr>td_type_name = service_name,
      td_fields = [plain_field ''request_message'' (ftd_nested 1 request_name),
                   plain_field ''response_message'' (ftd_nested 1 response_name),
                   plain_field ''event_message'' (ftd_nested 1 event_name)]\<rparr>"

definition service_description_msg ::
  "string \<Rightarrow> string \<Rightarrow> type_description \<Rightarrow> type_description \<Rightarrow> type_description \<Rightarrow> descriptions \<Rightarrow> type_description_msg" where
  "service_description_msg package service_name request_desc response_desc event_info_desc resolved_deps =
     (let is_action = (str_contains ''SendGoal'' service_name \<or> str_contains ''GetResult'' service_name \<or>
                       str_contains ''CancelGoal'' service_name);
          path = (if is_action then ''action'' else ''srv'');
          service_type_name = package @ ''/'' @ path @ ''/'' @ service_name;
          request_type_name = service_type_name @ ''_Request'';
          response_type_name = service_type_name @ ''_Response'';
          event_type_name = service_type_name @ ''_Event'';
          event_desc = event_description event_type_name (td_type_name event_info_desc) request_type_name response_type_name;
          referenced0 = foldl (\<lambda>r d. bt_insert (td_type_name d) d r) [] (map snd resolved_deps);
          referenced = bt_insert response_type_name (response_desc\<lparr>td_type_name := response_type_name\<rparr>)
                         (bt_insert request_type_name (request_desc\<lparr>td_type_name := request_type_name\<rparr>)
                           (bt_insert event_type_name event_desc referenced0))
      in \<lparr>tm_type_description = service_description service_type_name request_type_name response_type_name event_type_name,
          tm_referenced = sort_key td_type_name (map snd referenced)\<rparr>)"

definition calculate_service_type_hash ::
  "hash_env \<Rightarrow> string \<Rightarrow> string \<Rightarrow> type_description \<Rightarrow> type_description \<Rightarrow> type_description \<Rightarrow> descriptions \<Rightarrow> bytes" where
  "calculate_service_type_hash env package service_name request_desc response_desc event_info_desc resolved_deps =
     env_hash env (service_description_msg package service_name request_desc response_desc event_info_desc resolved_deps)"

section \<open>The resolver (\<open>resolver.rs\<close>)\<close>

record resolved_message =
  rm_parsed :: parsed_message
  rm_type_hash :: bytes
  rm_definition :: string

record resolver =
  rs_type_descriptions :: descriptions
  rs_resolved_messages :: "(string \<times> resolved_message) list"
  rs_is_humble :: bool
  rs_external_packages :: "string list"

definition resolver_new :: "bool \<Rightarrow> resolver" where
  "resolver_new is_humble =
     \<lparr>rs_type_descriptions = [], rs_resolved_messages = [], rs_is_humble = is_humble, rs_external_packages = []\<rparr>"

definition with_external_packages :: "bool \<Rightarrow> string list \<Rightarrow> resolver" where
  "with_external_packages is_humble external =
     \<lparr>rs_type_descriptions = [], rs_resolved_messages = [], rs_is_humble = is_humble, rs_external_packages = external\<rparr>"

definition is_external_package :: "resolver \<Rightarrow> string \<Rightarrow> bool" where
  "is_external_package st package = (package \<in> set (rs_external_packages st))"

definition message_key :: "parsed_message \<Rightarrow> string" where
  "message_key m = pm_package m @ ''/'' @ pm_name m"

definition is_type_resolved_in_context :: "resolver \<Rightarrow> string option \<Rightarrow> string \<Rightarrow> string \<Rightarrow> bool" where
  "is_type_resolved_in_context st package base_type source_package =
     (case package of
        Some pkg \<Rightarrow>
          is_external_package st pkg \<or> map_of (rs_type_descriptions st) (pkg @ ''/'' @ base_type) \<noteq> None
      | None \<Rightarrow> map_of (rs_type_descriptions st) (source_package @ ''/'' @ base_type) \<noteq> None)"

definition all_deps_resolved :: "resolver \<Rightarrow> parsed_message \<Rightarrow> bool" where
  "all_deps_resolved st m =
     list_all (\<lambda>f. is_primitive_type (ft_base_type (fl_type f)) \<or>
                   is_type_resolved_in_context st (ft_package (fl_type f)) (ft_base_type (fl_type f)) (pm_package m))
       (pm_fields m)"

text \<open>\<open>ResolvedMessageExt::type_description\<close>.\<close>

definition is_action_component :: "parsed_message \<Rightarrow> bool" where
  "is_action_component m = (utf8_valid (str_bytes (path_str (pm_path m))) \<and> str_contains ''/action/'' (path_str (pm_path m)))"

definition component_name :: "bool \<Rightarrow> string \<Rightarrow> string \<Rightarrow> string" where
  "component_name action pkg name =
     (if \<not> action then pkg @ ''/msg/'' @ name
      else case strip_suffix_str ''Goal'' name of
        Some base \<Rightarrow> pkg @ ''/action/'' @ base @ ''_Goal''
      | None \<Rightarrow> (case strip_suffix_str ''Result'' name of
          Some base \<Rightarrow> pkg @ ''/action/'' @ base @ ''_Result''
        | None \<Rightarrow> (case strip_suffix_str ''Feedback'' name of
            Some base \<Rightarrow> pkg @ ''/action/'' @ base @ ''_Feedback''
          | None \<Rightarrow> pkg @ ''/msg/'' @ name)))"

definition described_field :: "parsed_message \<Rightarrow> idl_field \<Rightarrow> field_description" where
  "described_field m f =
     (let ft = fl_type f in
      \<lparr>fd_name = fl_name f,
       fd_type = \<lparr>ftd_type_id = (case get_type_id ft of Ok t \<Rightarrow> t | _ \<Rightarrow> 0),
                  ftd_capacity = get_array_capacity ft,
                  ftd_string_capacity = unwrap_or (ft_string_bound ft) 0,
                  ftd_nested_type_name =
                    (if is_primitive_type (ft_base_type ft) then []
                     else component_name (is_action_component m) (unwrap_or (ft_package ft) (pm_package m)) (ft_base_type ft))\<rparr>,
       fd_default_value = []\<rparr>)"

definition message_description :: "parsed_message \<Rightarrow> type_description" where
  "message_description m =
     \<lparr>td_type_name = component_name (is_action_component m) (pm_package m) (pm_name m),
      td_fields = (if pm_fields m = [] then [structure_member] else map (described_field m) (pm_fields m))\<rparr>"

definition nested_keys :: "parsed_message \<Rightarrow> string list" where
  "nested_keys m =
     foldl (\<lambda>acc f. case ft_package (fl_type f) of
                      None \<Rightarrow> acc
                    | Some pkg \<Rightarrow> (let key = pkg @ ''/'' @ ft_base_type (fl_type f)
                                   in if key \<in> set acc then acc else acc @ [key]))
       [] (pm_fields m)"

definition expand_definition :: "resolver \<Rightarrow> parsed_message \<Rightarrow> string" where
  "expand_definition st m =
     foldl (\<lambda>acc key. case map_of (rs_resolved_messages st) key of
                        None \<Rightarrow> acc
                      | Some r \<Rightarrow> acc @ [newline, newline] @ replicate 80 CHR ''='' @ [newline] @
                                   ''MSG: '' @ key @ [newline] @ rm_definition r)
       (pm_source m) (nested_keys m)"

definition resolve_message :: "hash_env \<Rightarrow> resolver \<Rightarrow> parsed_message \<Rightarrow> (resolved_message, resolve_error) res" where
  "resolve_message env st m =
     res_map (\<lambda>h. \<lparr>rm_parsed = m, rm_type_hash = h, rm_definition = expand_definition st m\<rparr>)
       (calculate_type_hash env m (rs_type_descriptions st))"

definition add_resolved :: "resolver \<Rightarrow> resolved_message \<Rightarrow> resolver" where
  "add_resolved st r =
     st\<lparr>rs_type_descriptions := bt_insert (message_key (rm_parsed r)) (message_description (rm_parsed r)) (rs_type_descriptions st),
        rs_resolved_messages := AList.update (message_key (rm_parsed r)) r (rs_resolved_messages st)\<rparr>"

definition max_iterations :: nat where
  "max_iterations = 10000"

definition stuck_names :: "parsed_message list \<Rightarrow> string list" where
  "stuck_names queue = map message_key (take 10 queue)"

text \<open>
  The loop of \<open>resolve_messages\<close>: the queue, the iterations done, the size of the queue when
  it last changed and the iterations since then.
\<close>

function resolve_loop ::
  "hash_env \<Rightarrow> resolver \<Rightarrow> parsed_message list \<Rightarrow> nat \<Rightarrow> nat \<Rightarrow> nat \<Rightarrow> (resolver, resolve_error) res" where
  "resolve_loop env st [] iterations last_size stagnant = Ok st"
| "resolve_loop env st (m # queue) iterations last_size stagnant =
     (if max_iterations \<le> iterations then Err (ExceededIterations (length queue + 1) (stuck_names queue))
      else
        res_bind (if all_deps_resolved st m
                  then res_map (\<lambda>r. (add_resolved st r, queue, 0)) (resolve_message env st m)
                  else Ok (st, queue @ [m], stagnant))
          (\<lambda>(st', queue', stagnant').
             if length queue' = last_size
             then (if 100 < stagnant' + 1
                   then Err (ResolutionStalled (iterations + 1) (length queue') (stuck_names queue'))
                   else resolve_loop env st' queue' (iterations + 1) last_size (stagnant' + 1))
             else resolve_loop env st' queue' (iterations + 1) (length queue') 0))"
  by pat_completeness auto
termination
  by (relation "measure (\<lambda>(env, st, queue, iterations, last_size, stagnant). max_iterations - iterations)") auto

declare resolve_loop.simps(2) [simp del]

definition resolve_messages :: "hash_env \<Rightarrow> resolver \<Rightarrow> parsed_message list \<Rightarrow> (resolver \<times> resolved_message list, resolve_error) res" where
  "resolve_messages env st messages =
     res_map (\<lambda>st'. (st', map snd (rs_resolved_messages st')))
       (resolve_loop env st messages 0 (length messages) 0)"

section \<open>Services and actions\<close>

definition nested_dep_key :: "string \<Rightarrow> string" where
  "nested_dep_key name =
     (if str_contains ''/msg/'' name then replace_str ''/msg/'' ''/'' name
      else if str_contains ''/srv/'' name then replace_str ''/srv/'' ''/'' name
      else name)"

fun collect_nested_deps :: "nat \<Rightarrow> descriptions \<Rightarrow> type_description \<Rightarrow> descriptions \<Rightarrow> (descriptions, resolve_error) res" where
  "collect_nested_deps 0 all_deps td collected = Panic"
| "collect_nested_deps (Suc depth) all_deps td collected =
     res_fold (\<lambda>collected f.
       (let nested_name = ftd_nested_type_name (fd_type f) in
        if nested_name = [] then Ok collected
        else if map_of collected nested_name \<noteq> None then Ok collected
        else case map_of all_deps (nested_dep_key nested_name) of
               None \<Rightarrow> Ok collected
             | Some dep \<Rightarrow> collect_nested_deps depth all_deps dep (bt_insert (td_type_name dep) dep collected)))
       collected (td_fields td)"

definition nested_deps :: "resolver \<Rightarrow> type_description \<Rightarrow> descriptions \<Rightarrow> (descriptions, resolve_error) res" where
  "nested_deps st td collected =
     collect_nested_deps (depth_limit (rs_type_descriptions st)) (rs_type_descriptions st) td collected"

definition put_description :: "type_description \<Rightarrow> descriptions \<Rightarrow> descriptions" where
  "put_description d deps = bt_insert (td_type_name d) d deps"

definition put_known :: "resolver \<Rightarrow> string \<Rightarrow> descriptions \<Rightarrow> descriptions" where
  "put_known st key deps =
     (case map_of (rs_type_descriptions st) key of None \<Rightarrow> deps | Some d \<Rightarrow> put_description d deps)"

definition event_info :: "resolver \<Rightarrow> (type_description, resolve_error) res" where
  "event_info st = ok_or ServiceEventInfoMissing (map_of (rs_type_descriptions st) ''service_msgs/ServiceEventInfo'')"

definition store_description :: "resolver \<Rightarrow> parsed_message \<Rightarrow> resolver" where
  "store_description st m =
     st\<lparr>rs_type_descriptions := bt_insert (message_key m) (message_description m) (rs_type_descriptions st)\<rparr>"

record resolved_service =
  sv_parsed :: parsed_service
  sv_request :: resolved_message
  sv_response :: resolved_message
  sv_type_hash :: bytes

definition resolve_service :: "hash_env \<Rightarrow> resolver \<Rightarrow> parsed_service \<Rightarrow> (resolver \<times> resolved_service, resolve_error) res" where
  "resolve_service env st srv =
     res_bind (resolve_message env st (ps_request srv)) (\<lambda>request.
     res_bind (resolve_message env st (ps_response srv)) (\<lambda>response.
     (let st' = store_description (store_description st (ps_request srv)) (ps_response srv);
          request_desc = message_description (ps_request srv);
          response_desc = message_description (ps_response srv)
      in res_bind
           (if rs_is_humble st \<or> rs_external_packages st \<noteq> [] then Ok hash_zero
            else
              res_bind (event_info st') (\<lambda>info.
              res_bind (nested_deps st' request_desc (put_known st' ''builtin_interfaces/Time'' (put_description info []))) (\<lambda>deps.
              res_bind (nested_deps st' response_desc deps) (\<lambda>deps.
              Ok (calculate_service_type_hash env (ps_package srv) (ps_name srv) request_desc response_desc info deps)))))
           (\<lambda>type_hash. Ok (st', \<lparr>sv_parsed = srv, sv_request = request, sv_response = response, sv_type_hash = type_hash\<rparr>)))))"

fun resolve_services :: "hash_env \<Rightarrow> resolver \<Rightarrow> parsed_service list \<Rightarrow> (resolver \<times> resolved_service list, resolve_error) res" where
  "resolve_services env st [] = Ok (st, [])"
| "resolve_services env st (s # ss) =
     res_bind (resolve_service env st s) (\<lambda>(st', r).
     res_map (\<lambda>(st'', rs). (st'', r # rs)) (resolve_services env st' ss))"

definition uuid_name :: string where
  "uuid_name = ''unique_identifier_msgs/msg/UUID''"

definition time_name :: string where
  "time_name = ''builtin_interfaces/msg/Time''"

definition action_type_name :: "parsed_action \<Rightarrow> string \<Rightarrow> string" where
  "action_type_name action part = pa_package action @ ''/action/'' @ pa_name action @ part"

definition protocol_deps :: "resolver \<Rightarrow> (type_description \<times> descriptions, resolve_error) res" where
  "protocol_deps st =
     (let deps = put_known st ''builtin_interfaces/Time'' (put_known st ''unique_identifier_msgs/UUID'' [])
      in res_map (\<lambda>info. (info, put_description info deps)) (event_info st))"

definition calculate_send_goal_hash :: "hash_env \<Rightarrow> resolver \<Rightarrow> parsed_action \<Rightarrow> parsed_message \<Rightarrow> (bytes, resolve_error) res" where
  "calculate_send_goal_hash env st action goal =
     (if rs_is_humble st then Ok hash_zero
      else
        (let request_desc = \<lparr>td_type_name = action_type_name action ''_SendGoal_Request'',
               td_fields = [plain_field ''goal_id'' (ftd_nested 1 uuid_name),
                            plain_field ''goal'' (ftd_nested 1 (action_type_name action ''_Goal''))]\<rparr>;
             response_desc = \<lparr>td_type_name = action_type_name action ''_SendGoal_Response'',
               td_fields = [plain_field ''accepted'' (ftd_primitive 15), plain_field ''stamp'' (ftd_nested 1 time_name)]\<rparr>
         in res_bind (protocol_deps st) (\<lambda>(info, deps).
            res_bind (nested_deps st (message_description goal) (put_description (message_description goal) deps)) (\<lambda>deps.
            Ok (calculate_service_type_hash env (pa_package action) (pa_name action @ ''_SendGoal'') request_desc response_desc info deps)))))"

definition calculate_get_result_hash :: "hash_env \<Rightarrow> resolver \<Rightarrow> parsed_action \<Rightarrow> parsed_message \<Rightarrow> (bytes, resolve_error) res" where
  "calculate_get_result_hash env st action result =
     (if rs_is_humble st then Ok hash_zero
      else
        (let request_desc = \<lparr>td_type_name = action_type_name action ''_GetResult_Request'',
               td_fields = [plain_field ''goal_id'' (ftd_nested 1 uuid_name)]\<rparr>;
             response_desc = \<lparr>td_type_name = action_type_name action ''_GetResult_Response'',
               td_fields = [plain_field ''status'' (ftd_primitive 2),
                            plain_field ''result'' (ftd_nested 1 (action_type_name action ''_Result''))]\<rparr>
         in res_bind (protocol_deps st) (\<lambda>(info, deps).
            res_bind (nested_deps st (message_description result) (put_description (message_description result) deps)) (\<lambda>deps.
            Ok (calculate_service_type_hash env (pa_package action) (pa_name action @ ''_GetResult'') request_desc response_desc info deps)))))"

definition calculate_feedback_message_hash :: "hash_env \<Rightarrow> resolver \<Rightarrow> parsed_action \<Rightarrow> parsed_message \<Rightarrow> (bytes, resolve_error) res" where
  "calculate_feedback_message_hash env st action feedback =
     (let type_desc = \<lparr>td_type_name = action_type_name action ''_FeedbackMessage'',
            td_fields = [plain_field ''goal_id'' (ftd_nested 1 uuid_name),
                         plain_field ''feedback'' (ftd_nested 1 (action_type_name action ''_Feedback''))]\<rparr>
      in res_bind (nested_deps st (message_description feedback)
                     (put_description (message_description feedback) (put_known st ''unique_identifier_msgs/UUID'' []))) (\<lambda>deps.
         Ok (env_hash env \<lparr>tm_type_description = type_desc, tm_referenced = sort_key td_type_name (map snd deps)\<rparr>)))"

definition calculate_cancel_goal_hash :: "hash_env \<Rightarrow> resolver \<Rightarrow> (bytes, resolve_error) res" where
  "calculate_cancel_goal_hash env st =
     (if rs_is_humble st then Ok hash_zero
      else
        (let request_desc = \<lparr>td_type_name = ''action_msgs/srv/CancelGoal_Request'',
               td_fields = [plain_field ''goal_info'' (ftd_nested 1 ''action_msgs/msg/GoalInfo'')]\<rparr>;
             response_desc = \<lparr>td_type_name = ''action_msgs/srv/CancelGoal_Response'',
               td_fields = [plain_field ''return_code'' (ftd_primitive 2)]\<rparr>;
             deps = put_known st ''builtin_interfaces/Time'' (put_known st ''action_msgs/GoalInfo'' [])
         in res_bind (event_info st) (\<lambda>info.
            Ok (calculate_service_type_hash env ''action_msgs'' ''CancelGoal'' request_desc response_desc info
                  (put_description info deps)))))"

definition calculate_status_hash :: "hash_env \<Rightarrow> resolver \<Rightarrow> bytes" where
  "calculate_status_hash env st =
     (let type_desc = \<lparr>td_type_name = ''action_msgs/msg/GoalStatusArray'',
            td_fields = [plain_field ''status_list'' (ftd_nested 145 ''action_msgs/msg/GoalStatus'')]\<rparr>;
          goal_info_desc = \<lparr>td_type_name = ''action_msgs/msg/GoalInfo'',
            td_fields = [plain_field ''goal_id'' (ftd_nested 1 uuid_name), plain_field ''stamp'' (ftd_nested 1 time_name)]\<rparr>;
          goal_status_desc = \<lparr>td_type_name = ''action_msgs/msg/GoalStatus'',
            td_fields = [plain_field ''goal_info'' (ftd_nested 1 ''action_msgs/msg/GoalInfo''), plain_field ''status'' (ftd_primitive 2)]\<rparr>;
          uuid_desc = \<lparr>td_type_name = uuid_name, td_fields = [plain_field ''uuid'' (ftd_array 51 16)]\<rparr>;
          deps = put_description uuid_desc (put_known st ''builtin_interfaces/Time''
                   (put_description goal_status_desc (put_description goal_info_desc [])))
      in env_hash env \<lparr>tm_type_description = type_desc, tm_referenced = sort_key td_type_name (map snd deps)\<rparr>)"

record resolved_action =
  ra_parsed :: parsed_action
  ra_goal :: resolved_message
  ra_result :: "resolved_message option"
  ra_feedback :: "resolved_message option"
  ra_type_hash :: bytes
  ra_send_goal_hash :: bytes
  ra_get_result_hash :: bytes
  ra_feedback_message_hash :: bytes
  ra_cancel_goal_hash :: bytes
  ra_status_hash :: bytes

fun opt_res :: "('a \<Rightarrow> ('b, 'e) res) \<Rightarrow> 'a option \<Rightarrow> ('b option, 'e) res" where
  "opt_res f None = Ok None"
| "opt_res f (Some a) = res_map Some (f a)"

definition store_optional :: "resolver \<Rightarrow> parsed_message option \<Rightarrow> resolver" where
  "store_optional st m = (case m of None \<Rightarrow> st | Some m \<Rightarrow> store_description st m)"

definition resolve_action :: "hash_env \<Rightarrow> resolver \<Rightarrow> parsed_action \<Rightarrow> (resolver \<times> resolved_action, resolve_error) res" where
  "resolve_action env st action =
     res_bind (resolve_message env st (pa_goal action)) (\<lambda>goal.
     res_bind (opt_res (resolve_message env st) (pa_result action)) (\<lambda>result.
     res_bind (opt_res (resolve_message env st) (pa_feedback action)) (\<lambda>feedback.
     (let st' = store_optional (store_optional (store_description st (pa_goal action)) (pa_result action)) (pa_feedback action) in
      res_bind (calculate_send_goal_hash env st' action (pa_goal action)) (\<lambda>send_goal.
      res_bind (res_map (\<lambda>h. unwrap_or h hash_zero) (opt_res (calculate_get_result_hash env st' action) (pa_result action))) (\<lambda>get_result.
      res_bind (res_map (\<lambda>h. unwrap_or h hash_zero) (opt_res (calculate_feedback_message_hash env st' action) (pa_feedback action))) (\<lambda>feedback_message.
      res_bind (calculate_cancel_goal_hash env st') (\<lambda>cancel_goal.
      Ok (st', \<lparr>ra_parsed = action, ra_goal = goal, ra_result = result, ra_feedback = feedback,
                ra_type_hash = rm_type_hash goal, ra_send_goal_hash = send_goal, ra_get_result_hash = get_result,
                ra_feedback_message_hash = feedback_message, ra_cancel_goal_hash = cancel_goal,
                ra_status_hash = calculate_status_hash env st'\<rparr>)))))))))"

fun resolve_actions :: "hash_env \<Rightarrow> resolver \<Rightarrow> parsed_action list \<Rightarrow> (resolver \<times> resolved_action list, resolve_error) res" where
  "resolve_actions env st [] = Ok (st, [])"
| "resolve_actions env st (a # as) =
     res_bind (resolve_action env st a) (\<lambda>(st', r).
     res_map (\<lambda>(st'', rs). (st'', r # rs)) (resolve_actions env st' as))"

end
