(* ===== verification/Type_Resolution.thy ===== *)
theory Type_Resolution
  imports Type_Resolver "HOL-Library.Multiset"
begin

text \<open>
  Correctness of the resolver: what the references of a type description are, that the
  recursions over them end, what the resolution loop accepts and refuses, and which types
  share a hash.
\<close>

section \<open>References\<close>

text \<open>The keys a description refers to, as far as they are known, and what is reachable over them.\<close>

definition ref_keys :: "descriptions \<Rightarrow> type_description \<Rightarrow> string list" where
  "ref_keys all td =
     filter (\<lambda>k. map_of all k \<noteq> None)
       (map (\<lambda>f. nested_type_name_to_key (ftd_nested_type_name (fd_type f)))
         (filter (\<lambda>f. ftd_nested_type_name (fd_type f) \<noteq> []) (td_fields td)))"

inductive reaches :: "descriptions \<Rightarrow> type_description \<Rightarrow> string \<Rightarrow> bool" for all td where
  direct: "k \<in> set (ref_keys all td) \<Longrightarrow> reaches all td k"
| step: "reaches all td k \<Longrightarrow> map_of all k = Some d \<Longrightarrow> k' \<in> set (ref_keys all d) \<Longrightarrow> reaches all td k'"

definition named :: "descriptions \<Rightarrow> bool" where
  "named all \<longleftrightarrow> (\<forall>k d. map_of all k = Some d \<longrightarrow> nested_type_name_to_key (td_type_name d) = k)"

definition ranked :: "descriptions \<Rightarrow> (string \<Rightarrow> nat) \<Rightarrow> bool" where
  "ranked all rank \<longleftrightarrow> (\<forall>k d. map_of all k = Some d \<longrightarrow>
     rank k < length all \<and> (\<forall>k' \<in> set (ref_keys all d). rank k' < rank k))"

text \<open>A collection under construction: ordered, taken from the known descriptions, and closed.\<close>

definition has_ref :: "descriptions \<Rightarrow> descriptions \<Rightarrow> string \<Rightarrow> bool" where
  "has_ref all c k \<longleftrightarrow> (\<exists>d. map_of all k = Some d \<and> map_of c (td_type_name d) = Some d)"

definition coll :: "descriptions \<Rightarrow> descriptions \<Rightarrow> bool" where
  "coll all c \<longleftrightarrow> bt_ordered c \<and>
     (\<forall>n d. map_of c n = Some d \<longrightarrow> td_type_name d = n \<and> map_of all (nested_type_name_to_key n) = Some d \<and>
        (\<forall>k \<in> set (ref_keys all d). has_ref all c k))"

text \<open>What collecting the references of \<open>ks\<close>, with everything they lead to, does to a collection.\<close>

definition collects :: "descriptions \<Rightarrow> (string \<Rightarrow> bool) \<Rightarrow> string list \<Rightarrow> descriptions \<Rightarrow> descriptions \<Rightarrow> bool" where
  "collects all R ks c c' \<longleftrightarrow> coll all c' \<and> map_of c \<subseteq>\<^sub>m map_of c' \<and> (\<forall>k \<in> set ks. has_ref all c' k) \<and>
     (\<forall>n d. map_of c' n = Some d \<longrightarrow> map_of c n = Some d \<or> R (nested_type_name_to_key n))"

lemma collD:
  assumes "coll all c" and "map_of c n = Some d"
  shows "td_type_name d = n" and "map_of all (nested_type_name_to_key n) = Some d"
    and "k \<in> set (ref_keys all d) \<Longrightarrow> has_ref all c k"
  using assms unfolding coll_def by blast+

lemma collectsD:
  assumes "collects all R ks c c'"
  shows "coll all c'" and "map_of c \<subseteq>\<^sub>m map_of c'" and "k \<in> set ks \<Longrightarrow> has_ref all c' k"
    and "map_of c' n = Some d \<Longrightarrow> map_of c n = Some d \<or> R (nested_type_name_to_key n)"
  using assms unfolding collects_def by blast+

lemma has_ref_mono: "has_ref all c k \<Longrightarrow> map_of c \<subseteq>\<^sub>m map_of c' \<Longrightarrow> has_ref all c' k"
  unfolding has_ref_def map_le_def by (metis domI)

lemma collects_refl: "coll all c \<Longrightarrow> (\<And>k. k \<in> set ks \<Longrightarrow> has_ref all c k) \<Longrightarrow> collects all R ks c c"
  by (simp add: collects_def)

lemma collects_trans:
  assumes "collects all R ks c c'" and "collects all R ls c' c''"
  shows "collects all R (ks @ ls) c c''"
proof -
  have "map_of c \<subseteq>\<^sub>m map_of c''" using assms map_le_trans unfolding collects_def by blast
  moreover have "has_ref all c'' k" if "k \<in> set ks" for k
    using assms that has_ref_mono unfolding collects_def by blast
  moreover have "map_of c n = Some d \<or> R (nested_type_name_to_key n)" if "map_of c'' n = Some d" for n d
    using collectsD(4) [OF assms(2) that] collectsD(4) [OF assms(1)] by blast
  ultimately show ?thesis using collectsD(1,3) [OF assms(2)] by (auto simp: collects_def)
qed

lemma reaches_trans: "reaches all d k \<Longrightarrow> reaches all td k0 \<Longrightarrow> map_of all k0 = Some d \<Longrightarrow> reaches all td k"
  by (induction rule: reaches.induct) (auto intro: reaches.step)

lemma collects_insert:
  assumes named: "named all" and coll: "coll all c" and key: "map_of all k = Some dep" and R: "R k"
    and sub: "collects all (\<lambda>j. reaches all dep j) (ref_keys all dep) c c1"
    and trans: "\<And>j. reaches all dep j \<Longrightarrow> R j"
  shows "collects all R [k] c (bt_insert (td_type_name dep) dep c1)"
proof -
  let ?n = "td_type_name dep" and ?c = "bt_insert (td_type_name dep) dep c1"
  have kn: "nested_type_name_to_key ?n = k" using named key by (simp add: named_def)
  have c1: "coll all c1" "map_of c \<subseteq>\<^sub>m map_of c1" "\<And>j. j \<in> set (ref_keys all dep) \<Longrightarrow> has_ref all c1 j"
    using collectsD(1,2,3) [OF sub] by auto
  have "map_of ?c n = Some d" if "map_of c1 n = Some d" for n d
    using collD(2) [OF c1(1) that] that key kn by (auto simp: map_of_bt_insert)
  then have le: "map_of c1 \<subseteq>\<^sub>m map_of ?c" by (auto simp: map_le_def)
  have refs: "has_ref all ?c j" if "j \<in> set (ref_keys all d)" "map_of ?c n = Some d" for j d n
  proof (cases "n = ?n")
    case True
    then have "d = dep" using that(2) by (simp add: map_of_bt_insert)
    with that(1) show ?thesis using c1(3) has_ref_mono [OF _ le] by blast
  next
    case False
    then have "map_of c1 n = Some d" using that(2) by (simp add: map_of_bt_insert)
    then have "has_ref all c1 j" using collD(3) [OF c1(1)] that(1) by blast
    then show ?thesis by (rule has_ref_mono [OF _ le])
  qed
  have entry: "td_type_name d = n \<and> map_of all (nested_type_name_to_key n) = Some d" if "map_of ?c n = Some d" for n d
    using that key kn collD(1,2) [OF c1(1), of n d] by (auto simp: map_of_bt_insert split: if_splits)
  have "bt_ordered ?c" using c1(1) by (simp add: coll_def bt_insert_ordered)
  with entry refs have "coll all ?c" unfolding coll_def by blast
  moreover have "has_ref all ?c k" using key by (auto simp: has_ref_def map_of_bt_insert)
  moreover have "map_of c n = Some d \<or> R (nested_type_name_to_key n)" if "map_of ?c n = Some d" for n d
    using that collectsD(4) [OF sub, of n d] trans R kn by (auto simp: map_of_bt_insert split: if_splits)
  moreover have "map_of c \<subseteq>\<^sub>m map_of ?c" using c1(2) le map_le_trans by blast
  ultimately show ?thesis unfolding collects_def by auto
qed

lemma has_ref_contained:
  assumes "named all" and "coll all c" and "map_of all k = Some dep" and "map_of c (td_type_name dep) \<noteq> None"
  shows "has_ref all c k"
proof -
  obtain y where y: "map_of c (td_type_name dep) = Some y" using assms(4) by blast
  have "nested_type_name_to_key (td_type_name dep) = k" using assms(1,3) by (simp add: named_def)
  with collD(2) [OF assms(2) y] assms(3) have "y = dep" by simp
  with y assms(3) show ?thesis by (auto simp: has_ref_def)
qed

lemma collect_referenced_ok:
  assumes "named all" and "ranked all rank"
  shows "coll all c \<Longrightarrow> (\<And>k. k \<in> set (ref_keys all td) \<Longrightarrow> Suc (rank k) < depth) \<Longrightarrow> 0 < depth \<Longrightarrow>
     \<exists>c'. collect_referenced_types depth all td c = Ok c' \<and> collects all (reaches all td) (ref_keys all td) c c'"
proof (induction depth arbitrary: td c)
  case 0
  then show ?case by simp
next
  case (Suc depth)
  let ?key = "\<lambda>f. nested_type_name_to_key (ftd_nested_type_name (fd_type f))"
  let ?step = "\<lambda>collected f.
       (if ftd_nested_type_name (fd_type f) = [] then Ok collected
        else case map_of all (?key f) of
               None \<Rightarrow> Ok collected
             | Some dep \<Rightarrow>
                 if map_of collected (td_type_name dep) \<noteq> None then Ok collected
                 else res_map (bt_insert (td_type_name dep) dep)
                        (collect_referenced_types depth all dep collected))"
  let ?keys = "\<lambda>fs. filter (\<lambda>k. map_of all k \<noteq> None) (map ?key (filter (\<lambda>f. ftd_nested_type_name (fd_type f) \<noteq> []) fs))"
  have one: "\<exists>c'. ?step c f = Ok c' \<and> collects all (reaches all td) (?keys [f]) c c'"
    if f: "f \<in> set (td_fields td)" and c: "coll all c" for f c
  proof (cases "ftd_nested_type_name (fd_type f) = [] \<or> map_of all (?key f) = None")
    case True
    then show ?thesis using collects_refl [OF c, of "[]"] by auto
  next
    case False
    then obtain dep where dep: "ftd_nested_type_name (fd_type f) \<noteq> []" "map_of all (?key f) = Some dep" by auto
    then have key: "?key f \<in> set (ref_keys all td)" using f by (auto simp: ref_keys_def)
    show ?thesis
    proof (cases "map_of c (td_type_name dep) = None")
      case False
      then show ?thesis
        using dep collects_refl [OF c, of "[?key f]"] has_ref_contained [OF assms(1) c dep(2)] by simp
    next
      case True
      have "rank k < rank (?key f)" if "k \<in> set (ref_keys all dep)" for k
        using assms(2) dep(2) that unfolding ranked_def by blast
      moreover have key_rank: "rank (?key f) < depth" using Suc.prems(2) key by blast
      ultimately have "Suc (rank k) < depth" if "k \<in> set (ref_keys all dep)" for k
        using that by (meson Suc_leI order_le_less_trans)
      moreover have "0 < depth" using key_rank by simp
      ultimately obtain c1 where c1: "collect_referenced_types depth all dep c = Ok c1"
          "collects all (reaches all dep) (ref_keys all dep) c c1"
        using Suc.IH [OF c, of dep] by blast
      have "collects all (reaches all td) [?key f] c (bt_insert (td_type_name dep) dep c1)"
        using reaches.direct [OF key] reaches_trans [OF _ reaches.direct [OF key] dep(2)]
        by (intro collects_insert [OF assms(1) c dep(2) _ c1(2)]) auto
      with dep True c1(1) show ?thesis by simp
    qed
  qed
  have "\<exists>c'. res_fold ?step c fs = Ok c' \<and> collects all (reaches all td) (?keys fs) c c'"
    if "set fs \<subseteq> set (td_fields td)" and "coll all c" for fs c
    using that
  proof (induction fs arbitrary: c)
    case Nil
    then show ?case using collects_refl [of all c "[]"] by simp
  next
    case (Cons f fs)
    then obtain c1 where c1: "?step c f = Ok c1" "collects all (reaches all td) (?keys [f]) c c1"
      using one [of f c] by auto
    moreover from this have "coll all c1" by (simp add: collects_def)
    ultimately obtain c2 where "res_fold ?step c1 fs = Ok c2" "collects all (reaches all td) (?keys fs) c1 c2"
      using Cons by auto
    with c1 collects_trans [OF c1(2), of "?keys fs" c2] show ?case by auto
  qed
  from this [OF subset_refl Suc.prems(1)] show ?case by (simp add: ref_keys_def)
qed

section \<open>The references of a message\<close>

definition supported :: "parsed_message \<Rightarrow> bool" where
  "supported m \<longleftrightarrow> list_all (\<lambda>f. is_ok (get_type_id (fl_type f))) (pm_fields m)"

definition dep_keys :: "parsed_message \<Rightarrow> string list" where
  "dep_keys m = map (\<lambda>f. dep_key (pm_package m) (fl_type f))
                  (filter (\<lambda>f. \<not> is_primitive_type (ft_base_type (fl_type f))) (pm_fields m))"

definition msg_keys :: "descriptions \<Rightarrow> parsed_message \<Rightarrow> string list" where
  "msg_keys all m = filter (\<lambda>k. map_of all k \<noteq> None) (dep_keys m)"

definition msg_reaches :: "descriptions \<Rightarrow> parsed_message \<Rightarrow> string \<Rightarrow> bool" where
  "msg_reaches all m k \<longleftrightarrow> k \<in> set (msg_keys all m) \<or>
     (\<exists>k0 d. k0 \<in> set (msg_keys all m) \<and> map_of all k0 = Some d \<and> reaches all d k)"

lemma depth_limit_enough: "ranked all rank \<Longrightarrow> map_of all k = Some d \<Longrightarrow> Suc (rank k) < depth_limit all"
  by (fastforce simp: ranked_def depth_limit_def)

lemma coll_nil: "coll all []"
  by (simp add: coll_def)

lemma collect_from_known:
  assumes "named all" and "ranked all rank" and "map_of all k = Some d" and "coll all c"
  shows "\<exists>c'. collect_referenced_types (depth_limit all) all d c = Ok c' \<and> collects all (reaches all d) (ref_keys all d) c c'"
proof (rule collect_referenced_ok [OF assms(1,2,4)])
  show "Suc (rank j) < depth_limit all" if "j \<in> set (ref_keys all d)" for j
    using that depth_limit_enough [OF assms(2)] by (auto simp: ref_keys_def)
qed (simp add: depth_limit_def)

lemma is_ok_build_field_type: "is_ok (get_type_id ft) \<Longrightarrow> \<exists>t. build_field_type pkg ft = Ok t"
  by (cases "get_type_id ft") (auto simp: build_field_type_def Let_def)

definition field_of :: "string \<Rightarrow> idl_field \<Rightarrow> field_description" where
  "field_of pkg f = \<lparr>fd_name = fl_name f,
     fd_type = (case build_field_type pkg (fl_type f) of Ok t \<Rightarrow> t | _ \<Rightarrow> ftd_primitive 0), fd_default_value = []\<rparr>"

lemma build_field_ok:
  assumes inv: "named all" "ranked all rank" and sup: "is_ok (get_type_id (fl_type f))" and c: "coll all c"
    and f: "f \<in> set (pm_fields m)"
  shows "\<exists>c'. build_field (pm_package m) all (fs, c) f = Ok (fs @ [field_of (pm_package m) f], c') \<and>
     collects all (msg_reaches all m)
       (filter (\<lambda>k. map_of all k \<noteq> None) (if is_primitive_type (ft_base_type (fl_type f)) then [] else [dep_key (pm_package m) (fl_type f)])) c c'"
proof -
  let ?k = "dep_key (pm_package m) (fl_type f)"
  obtain ft where ft: "build_field_type (pm_package m) (fl_type f) = Ok ft"
    using is_ok_build_field_type [OF sup] by blast
  show ?thesis
  proof (cases "is_primitive_type (ft_base_type (fl_type f)) \<or> map_of all ?k = None")
    case True
    then show ?thesis
      using ft collects_refl [OF c, of "[]"] by (auto simp: build_field_def field_of_def Let_def)
  next
    case False
    then obtain d where d: "\<not> is_primitive_type (ft_base_type (fl_type f))" "map_of all ?k = Some d" by auto
    then have key: "?k \<in> set (msg_keys all m)" using f by (auto simp: msg_keys_def dep_keys_def)
    obtain c1 where c1: "collect_referenced_types (depth_limit all) all d c = Ok c1"
        "collects all (reaches all d) (ref_keys all d) c c1"
      using collect_from_known [OF inv d(2) c] by blast
    have "collects all (msg_reaches all m) [?k] c (bt_insert (td_type_name d) d c1)"
      using key d(2) by (intro collects_insert [OF inv(1) c d(2) _ c1(2)]) (auto simp: msg_reaches_def)
    with d ft c1(1) show ?thesis by (simp add: build_field_def field_of_def Let_def)
  qed
qed

lemma build_fields_ok:
  assumes "named all" "ranked all rank" and "set gs \<subseteq> set (pm_fields m)"
    and "list_all (\<lambda>f. is_ok (get_type_id (fl_type f))) gs" and "coll all c"
  shows "\<exists>c'. res_fold (build_field (pm_package m) all) (fs, c) gs = Ok (fs @ map (field_of (pm_package m)) gs, c') \<and>
     collects all (msg_reaches all m)
       (filter (\<lambda>k. map_of all k \<noteq> None)
          (map (\<lambda>f. dep_key (pm_package m) (fl_type f)) (filter (\<lambda>f. \<not> is_primitive_type (ft_base_type (fl_type f))) gs))) c c'"
  using assms(3-)
proof (induction gs arbitrary: fs c)
  case Nil
  then show ?case using collects_refl [of all c "[]"] by simp
next
  case (Cons g gs)
  then obtain c1 where c1: "build_field (pm_package m) all (fs, c) g = Ok (fs @ [field_of (pm_package m) g], c1)"
    "collects all (msg_reaches all m)
       (filter (\<lambda>k. map_of all k \<noteq> None) (if is_primitive_type (ft_base_type (fl_type g)) then [] else [dep_key (pm_package m) (fl_type g)])) c c1"
    using build_field_ok [OF assms(1,2), of g c m fs] by auto
  then have cc1: "coll all c1" using collectsD(1) by blast
  have "set gs \<subseteq> set (pm_fields m)" "list_all (\<lambda>f. is_ok (get_type_id (fl_type f))) gs"
    using Cons.prems by simp_all
  from Cons.IH [OF this cc1, of "fs @ [field_of (pm_package m) g]"] obtain c2 where "res_fold (build_field (pm_package m) all) (fs @ [field_of (pm_package m) g], c1) gs =
        Ok ((fs @ [field_of (pm_package m) g]) @ map (field_of (pm_package m)) gs, c2)"
      "collects all (msg_reaches all m)
       (filter (\<lambda>k. map_of all k \<noteq> None)
          (map (\<lambda>f. dep_key (pm_package m) (fl_type f)) (filter (\<lambda>f. \<not> is_primitive_type (ft_base_type (fl_type f))) gs))) c1 c2"
    by blast
  with c1 collects_trans [OF c1(2)] show ?case by (auto split: if_splits)
qed

text \<open>The fields a message is described with.\<close>

definition msg_fields :: "parsed_message \<Rightarrow> field_description list" where
  "msg_fields m = (if pm_fields m = [] then [structure_member] else map (field_of (pm_package m)) (pm_fields m))"

definition is_references :: "descriptions \<Rightarrow> parsed_message \<Rightarrow> type_description list \<Rightarrow> bool" where
  "is_references all m ds \<longleftrightarrow> sorted_wrt (<) (map td_type_name ds) \<and>
     (\<forall>d. d \<in> set ds \<longleftrightarrow> (\<exists>k. msg_reaches all m k \<and> map_of all k = Some d))"

lemma has_ref_closed:
  assumes "coll all c" and "reaches all d k" and "\<And>j. j \<in> set (ref_keys all d) \<Longrightarrow> has_ref all c j"
  shows "has_ref all c k"
  using assms(2)
proof (induction rule: reaches.induct)
  case (direct k)
  then show ?case by (rule assms(3))
next
  case (step k e k')
  from step.IH step.hyps(2) have "map_of c (td_type_name e) = Some e" by (auto simp: has_ref_def)
  then show ?case using collD(3) [OF assms(1)] step.hyps(3) by blast
qed

lemma collected_references:
  assumes "collects all (msg_reaches all m) (msg_keys all m) [] c"
  shows "is_references all m (map snd c)"
proof -
  note c = collectsD [OF assms]
  have has: "has_ref all c k" if reach: "msg_reaches all m k" for k
  proof (cases "k \<in> set (msg_keys all m)")
    case True
    then show ?thesis by (rule c(3))
  next
    case False
    then obtain k0 d where k0: "k0 \<in> set (msg_keys all m)" "map_of all k0 = Some d" "reaches all d k"
      using reach by (auto simp: msg_reaches_def)
    then have "map_of c (td_type_name d) = Some d" using c(3) [of k0] by (auto simp: has_ref_def)
    then show ?thesis using has_ref_closed [OF c(1) k0(3)] collD(3) [OF c(1)] by blast
  qed
  have dist: "bt_ordered c" using c(1) by (simp add: coll_def)
  then have entry: "(n, d) \<in> set c \<longleftrightarrow> map_of c n = Some d" for n d by (rule btm.entry_iff)
  have "map td_type_name (map snd c) = map fst c"
    using collD(1) [OF c(1)] entry by (auto simp: comp_def)
  with dist have "sorted_wrt (<) (map td_type_name (map snd c))" by (simp only:)
  moreover have "d \<in> snd ` set c \<longleftrightarrow> (\<exists>k. msg_reaches all m k \<and> map_of all k = Some d)" for d
  proof
    assume "d \<in> snd ` set c"
    then obtain n where n: "map_of c n = Some d" using entry by force
    then have "msg_reaches all m (nested_type_name_to_key n)" using c(4) [OF n] by simp
    then show "\<exists>k. msg_reaches all m k \<and> map_of all k = Some d" using collD(2) [OF c(1) n] by blast
  next
    assume "\<exists>k. msg_reaches all m k \<and> map_of all k = Some d"
    then have "map_of c (td_type_name d) = Some d" using has by (fastforce simp: has_ref_def)
    then show "d \<in> snd ` set c" using entry by force
  qed
  ultimately show ?thesis by (simp add: is_references_def)
qed

lemma build_description:
  assumes "named all" and "ranked all rank" and "supported m"
  shows "\<exists>ds. build_type_description_msg m all =
       Ok \<lparr>tm_type_description = \<lparr>td_type_name = pm_package m @ ''/msg/'' @ pm_name m, td_fields = msg_fields m\<rparr>,
          tm_referenced = ds\<rparr> \<and> is_references all m ds"
proof (cases "pm_fields m = []")
  case True
  moreover from True have "is_references all m []"
    by (auto simp: is_references_def msg_reaches_def msg_keys_def dep_keys_def)
  ultimately show ?thesis by (simp add: build_type_description_msg_def msg_fields_def)
next
  case False
  obtain c where c: "res_fold (build_field (pm_package m) all) ([], []) (pm_fields m) =
      Ok (map (field_of (pm_package m)) (pm_fields m), c)" "collects all (msg_reaches all m) (msg_keys all m) [] c"
    using build_fields_ok [OF assms(1,2) subset_refl, of m "[]" "[]"] assms(3) coll_nil
    by (auto simp: supported_def msg_keys_def dep_keys_def)
  then show ?thesis
    using False collected_references [OF c(2)] by (simp add: build_type_description_msg_def msg_fields_def)
qed

section \<open>The state of the resolver\<close>

definition regular :: "parsed_message \<Rightarrow> bool" where
  "regular m \<longleftrightarrow> CHR ''/'' \<notin> set (pm_package m) \<and> \<not> is_action_component m \<and> supported m \<and>
     list_all (\<lambda>f. case ft_package (fl_type f) of None \<Rightarrow> True | Some p \<Rightarrow> CHR ''/'' \<notin> set p) (pm_fields m)"

definition closed_descs :: "descriptions \<Rightarrow> bool" where
  "closed_descs all \<longleftrightarrow> (\<forall>k d f. map_of all k = Some d \<longrightarrow> f \<in> set (td_fields d) \<longrightarrow>
     ftd_nested_type_name (fd_type f) \<noteq> [] \<longrightarrow> map_of all (nested_type_name_to_key (ftd_nested_type_name (fd_type f))) \<noteq> None)"

definition wf_descs :: "descriptions \<Rightarrow> bool" where
  "wf_descs all \<longleftrightarrow> bt_ordered all \<and> named all \<and> closed_descs all \<and> (\<exists>rank. ranked all rank)"

lemma key_of_name: "CHR ''/'' \<notin> set pkg \<Longrightarrow> nested_type_name_to_key (pkg @ ''/msg/'' @ b) = pkg @ ''/'' @ b"
  using split_once_append [of "CHR ''/''" "''msg''" b]
  by (simp add: nested_type_name_to_key_def split_once_append)

lemma described_key:
  assumes "regular m" and "f \<in> set (pm_fields m)" and "\<not> is_primitive_type (ft_base_type (fl_type f))"
  shows "ftd_nested_type_name (fd_type (described_field m f)) \<noteq> []"
    and "nested_type_name_to_key (ftd_nested_type_name (fd_type (described_field m f))) = dep_key (pm_package m) (fl_type f)"
proof -
  have "CHR ''/'' \<notin> set (unwrap_or (ft_package (fl_type f)) (pm_package m))"
    using assms(1,2) by (auto simp: regular_def list_all_iff unwrap_or_def split: option.splits)
  then show "nested_type_name_to_key (ftd_nested_type_name (fd_type (described_field m f))) = dep_key (pm_package m) (fl_type f)"
    using assms by (simp add: described_field_def component_name_def regular_def dep_key_def key_of_name [simplified] Let_def)
  show "ftd_nested_type_name (fd_type (described_field m f)) \<noteq> []"
    using assms by (simp add: described_field_def component_name_def regular_def Let_def)
qed

lemma described_primitive: "is_primitive_type (ft_base_type (fl_type f)) \<Longrightarrow> ftd_nested_type_name (fd_type (described_field m f)) = []"
  by (simp add: described_field_def Let_def)

lemma nested_of_description:
  assumes "regular m"
  shows "(\<exists>f \<in> set (td_fields (message_description m)). ftd_nested_type_name (fd_type f) \<noteq> [] \<and>
            nested_type_name_to_key (ftd_nested_type_name (fd_type f)) = k) \<longleftrightarrow> k \<in> set (dep_keys m)"
proof (cases "pm_fields m = []")
  case True
  then show ?thesis by (simp add: message_description_def structure_member_def ftd_primitive_def dep_keys_def)
next
  case False
  then have eq: "td_fields (message_description m) = map (described_field m) (pm_fields m)"
    by (simp add: message_description_def)
  have iff: "(ftd_nested_type_name (fd_type (described_field m f)) \<noteq> [] \<and>
            nested_type_name_to_key (ftd_nested_type_name (fd_type (described_field m f))) = k) \<longleftrightarrow>
      (\<not> is_primitive_type (ft_base_type (fl_type f)) \<and> dep_key (pm_package m) (fl_type f) = k)"
    if "f \<in> set (pm_fields m)" for f
    using described_key [OF assms that] described_primitive [of f m]
    by (cases "is_primitive_type (ft_base_type (fl_type f))") simp_all
  let ?Q = "\<lambda>f. ftd_nested_type_name (fd_type f) \<noteq> [] \<and> nested_type_name_to_key (ftd_nested_type_name (fd_type f)) = k"
  have "(\<exists>f \<in> set (td_fields (message_description m)). ?Q f) \<longleftrightarrow> (\<exists>f \<in> set (pm_fields m). ?Q (described_field m f))"
    by (simp add: eq)
  also have "\<dots> \<longleftrightarrow> (\<exists>f \<in> set (pm_fields m). \<not> is_primitive_type (ft_base_type (fl_type f)) \<and> dep_key (pm_package m) (fl_type f) = k)"
    by (rule bex_cong [OF refl iff])
  also have "\<dots> \<longleftrightarrow> k \<in> set (dep_keys m)" by (auto simp: dep_keys_def)
  finally show ?thesis .
qed

lemma ref_keys_iff:
  "k \<in> set (ref_keys all d) \<longleftrightarrow> map_of all k \<noteq> None \<and>
     (\<exists>f \<in> set (td_fields d). ftd_nested_type_name (fd_type f) \<noteq> [] \<and> nested_type_name_to_key (ftd_nested_type_name (fd_type f)) = k)"
  by (auto simp: ref_keys_def)

lemma ref_keys_description:
  "regular m \<Longrightarrow> set (ref_keys all (message_description m)) = set (msg_keys all m)"
  by (rule set_eqI) (simp only: ref_keys_iff nested_of_description msg_keys_def set_filter mem_Collect_eq conj_commute)

lemma named_description: "regular m \<Longrightarrow> nested_type_name_to_key (td_type_name (message_description m)) = message_key m"
  by (simp add: message_description_def component_name_def message_key_def regular_def key_of_name [simplified])

lemma length_bt_insert: "k \<notin> fst ` set es \<Longrightarrow> length (bt_insert k v es) = Suc (length es)"
  by (induction es) auto

lemma map_of_None_fst: "map_of es k = None \<longleftrightarrow> k \<notin> fst ` set es"
  by (simp add: map_of_eq_None_iff)

lemma ref_keys_insert:
  assumes "closed_descs all" and "map_of all k0 = None" and "map_of all k = Some d"
  shows "ref_keys (bt_insert k0 v all) d = ref_keys all d"
  unfolding ref_keys_def
proof (rule filter_cong)
  fix x assume "x \<in> set (map (\<lambda>f. nested_type_name_to_key (ftd_nested_type_name (fd_type f)))
      (filter (\<lambda>f. ftd_nested_type_name (fd_type f) \<noteq> []) (td_fields d)))"
  then have "map_of all x \<noteq> None" using assms(1,3) unfolding closed_descs_def by auto
  then show "(map_of (bt_insert k0 v all) x \<noteq> None) = (map_of all x \<noteq> None)"
    by (simp add: map_of_bt_insert)
qed simp

lemma wf_descs_insert:
  assumes wf: "wf_descs all" and reg: "regular m" and new: "map_of all (message_key m) = None"
    and deps: "\<And>k. k \<in> set (dep_keys m) \<Longrightarrow> map_of all k \<noteq> None"
  shows "wf_descs (bt_insert (message_key m) (message_description m) all)" (is "wf_descs ?all")
proof -
  let ?k = "message_key m" and ?d = "message_description m"
  obtain rank where rank: "ranked all rank" using wf by (auto simp: wf_descs_def)
  have cl: "closed_descs all" using wf by (simp add: wf_descs_def)
  have keep: "ref_keys ?all d = ref_keys all d" if "map_of all k = Some d" for k d
    by (rule ref_keys_insert [OF cl new that])
  have self: "set (ref_keys ?all ?d) \<subseteq> dom (map_of all)"
    using ref_keys_description [OF reg, of ?all] deps by (auto simp: msg_keys_def)
  have len: "length ?all = Suc (length all)"
    using new by (simp add: length_bt_insert map_of_None_fst)
  have "ranked ?all (rank(?k := length all))"
    unfolding ranked_def
  proof (intro allI impI)
    fix k d assume kd: "map_of ?all k = Some d"
    show "(rank(?k := length all)) k < length ?all \<and> (\<forall>k'\<in>set (ref_keys ?all d). (rank(?k := length all)) k' < (rank(?k := length all)) k)"
    proof (cases "k = ?k")
      case True
      then have "d = ?d" using kd by (simp add: map_of_bt_insert)
      moreover have "(rank(?k := length all)) k' < length all" if "k' \<in> dom (map_of all)" for k'
        using that rank new by (auto simp: ranked_def)
      ultimately have "\<forall>k' \<in> set (ref_keys ?all d). (rank(?k := length all)) k' < length all" using self by blast
      then show ?thesis using True len by simp
    next
      case False
      then have old: "map_of all k = Some d" using kd by (simp add: map_of_bt_insert)
      then have "rank k < length all" "\<And>k'. k' \<in> set (ref_keys all d) \<Longrightarrow> rank k' < rank k"
        using rank unfolding ranked_def by blast+
      moreover have "?k \<notin> set (ref_keys all d)" using new by (simp add: ref_keys_def)
      ultimately show ?thesis using keep [OF old] False len by auto
    qed
  qed
  moreover have "named ?all"
    using wf named_description [OF reg] by (auto simp: wf_descs_def named_def map_of_bt_insert)
  moreover have "closed_descs ?all"
    unfolding closed_descs_def
  proof (intro allI impI)
    fix k d f assume as: "map_of ?all k = Some d" "f \<in> set (td_fields d)" "ftd_nested_type_name (fd_type f) \<noteq> []"
    let ?n = "nested_type_name_to_key (ftd_nested_type_name (fd_type f))"
    have "map_of all ?n \<noteq> None"
    proof (cases "k = ?k")
      case True
      then have "d = ?d" using as(1) by (simp add: map_of_bt_insert)
      then have "?n \<in> set (dep_keys m)" using nested_of_description [OF reg] as(2,3) by blast
      then show ?thesis by (rule deps)
    next
      case False
      then have "map_of all k = Some d" using as(1) by (simp add: map_of_bt_insert)
      then show ?thesis using cl as(2,3) unfolding closed_descs_def by blast
    qed
    then show "map_of ?all ?n \<noteq> None" by (simp add: map_of_bt_insert)
  qed
  moreover have "bt_ordered ?all" using wf by (simp add: wf_descs_def bt_insert_ordered)
  ultimately show ?thesis unfolding wf_descs_def by blast
qed

text \<open>A larger set of descriptions does not change what a message with known types refers to.\<close>

lemma map_of_le: "map_of a \<subseteq>\<^sub>m map_of b \<Longrightarrow> map_of a k = Some d \<Longrightarrow> map_of b k = Some d"
  by (metis domI map_le_def)

lemma ref_keys_le:
  assumes "closed_descs all" and "map_of all \<subseteq>\<^sub>m map_of all'" and "map_of all k = Some d"
  shows "ref_keys all' d = ref_keys all d"
  unfolding ref_keys_def
proof (rule filter_cong)
  fix x assume "x \<in> set (map (\<lambda>f. nested_type_name_to_key (ftd_nested_type_name (fd_type f)))
      (filter (\<lambda>f. ftd_nested_type_name (fd_type f) \<noteq> []) (td_fields d)))"
  then have "map_of all x \<noteq> None" using assms(1,3) unfolding closed_descs_def by auto
  then show "(map_of all' x \<noteq> None) = (map_of all x \<noteq> None)"
    using assms(2) unfolding map_le_def by (metis domIff)
qed simp

lemma reaches_le:
  assumes cl: "closed_descs all" and le: "map_of all \<subseteq>\<^sub>m map_of all'" and d: "map_of all k0 = Some d"
  shows "reaches all' d k \<longleftrightarrow> reaches all d k"
proof
  assume "reaches all' d k"
  then have "reaches all d k \<and> map_of all k \<noteq> None"
  proof (induction rule: reaches.induct)
    case (direct k)
    then have k: "k \<in> set (ref_keys all d)" using ref_keys_le [OF cl le d] by simp
    then show ?case using reaches.direct [OF k] by (auto simp: ref_keys_def)
  next
    case (step k e k')
    then have "map_of all k = Some e" using le unfolding map_le_def by (metis domIff)
    moreover from this have "k' \<in> set (ref_keys all e)" using ref_keys_le [OF cl le] step.hyps(3) by simp
    ultimately show ?case using step.IH reaches.step [of all d k e k'] by (simp add: ref_keys_iff)
  qed
  then show "reaches all d k" ..
next
  assume "reaches all d k"
  then show "reaches all' d k"
  proof (induction rule: reaches.induct)
    case (direct k)
    then have "k \<in> set (ref_keys all' d)" using ref_keys_le [OF cl le d] by simp
    then show ?case by (rule reaches.direct)
  next
    case (step k e k')
    then have "k' \<in> set (ref_keys all' e)" using ref_keys_le [OF cl le step.hyps(2)] by simp
    with step.IH map_of_le [OF le step.hyps(2)] show ?case by (rule reaches.step)
  qed
qed

lemma references_unique: "is_references all m ds \<Longrightarrow> is_references all' m es \<Longrightarrow>
    (\<And>d. (\<exists>k. msg_reaches all m k \<and> map_of all k = Some d) \<longleftrightarrow> (\<exists>k. msg_reaches all' m k \<and> map_of all' k = Some d)) \<Longrightarrow> ds = es"
proof -
  assume as: "is_references all m ds" "is_references all' m es"
    "\<And>d. (\<exists>k. msg_reaches all m k \<and> map_of all k = Some d) \<longleftrightarrow> (\<exists>k. msg_reaches all' m k \<and> map_of all' k = Some d)"
  then have set_eq: "set ds = set es" by (auto simp: is_references_def)
  have "sorted_wrt (<) (map td_type_name ds)" "sorted_wrt (<) (map td_type_name es)"
    using as(1,2) by (simp_all add: is_references_def)
  then have sorted: "sorted (map td_type_name ds)" "distinct (map td_type_name ds)"
      "sorted (map td_type_name es)" "distinct (map td_type_name es)"
    by (simp_all only: strict_sorted_iff)
  then have "map td_type_name ds = map td_type_name es"
    using set_eq by (intro sorted_distinct_set_unique) auto
  moreover have "inj_on td_type_name (set ds \<union> set es)"
    using sorted(2) set_eq by (simp add: distinct_map)
  ultimately show "ds = es" by (rule map_inj_on)
qed

lemma msg_reaches_le:
  assumes "closed_descs all" and le: "map_of all \<subseteq>\<^sub>m map_of all'"
    and deps: "\<And>k. k \<in> set (dep_keys m) \<Longrightarrow> map_of all k \<noteq> None"
  shows "(\<exists>k. msg_reaches all' m k \<and> map_of all' k = Some d) \<longleftrightarrow> (\<exists>k. msg_reaches all m k \<and> map_of all k = Some d)"
proof -
  have known: "map_of all' k = map_of all k" if "map_of all k \<noteq> None" for k
    using that map_of_le [OF le] by auto
  have keys: "set (msg_keys all' m) = set (msg_keys all m)" "\<And>k. k \<in> set (msg_keys all m) \<Longrightarrow> map_of all k \<noteq> None"
    using deps known by (auto simp: msg_keys_def)
  have reach: "msg_reaches all' m k \<longleftrightarrow> msg_reaches all m k" for k
    using keys known reaches_le [OF assms(1) le] unfolding msg_reaches_def by metis
  have "reaches all e k \<Longrightarrow> map_of all k \<noteq> None" for e k
    by (erule reaches.cases) (auto simp: ref_keys_iff)
  then have "msg_reaches all m k \<Longrightarrow> map_of all k \<noteq> None" for k
    using keys(2) unfolding msg_reaches_def by blast
  then show ?thesis using reach known by metis
qed

lemma build_stable:
  assumes wf: "wf_descs all" "wf_descs all'" and le: "map_of all \<subseteq>\<^sub>m map_of all'" and sup: "supported m"
    and deps: "\<And>k. k \<in> set (dep_keys m) \<Longrightarrow> map_of all k \<noteq> None"
  shows "build_type_description_msg m all' = build_type_description_msg m all"
proof -
  obtain rank rank' where ranks: "ranked all rank" "ranked all' rank'" using wf by (auto simp: wf_descs_def)
  have nm: "named all" "named all'" "closed_descs all" using wf by (simp_all add: wf_descs_def)
  obtain ds where ds: "build_type_description_msg m all =
       Ok \<lparr>tm_type_description = \<lparr>td_type_name = pm_package m @ ''/msg/'' @ pm_name m, td_fields = msg_fields m\<rparr>,
          tm_referenced = ds\<rparr>" "is_references all m ds"
    using build_description [OF nm(1) ranks(1) sup] by blast
  obtain es where es: "build_type_description_msg m all' =
       Ok \<lparr>tm_type_description = \<lparr>td_type_name = pm_package m @ ''/msg/'' @ pm_name m, td_fields = msg_fields m\<rparr>,
          tm_referenced = es\<rparr>" "is_references all' m es"
    using build_description [OF nm(2) ranks(2) sup] by blast
  have "es = ds"
    using references_unique [OF es(2) ds(2)] msg_reaches_le [OF nm(3) le deps] by blast
  with ds es show ?thesis by simp
qed

definition known :: "resolver \<Rightarrow> string set" where
  "known st = dom (map_of (rs_type_descriptions st))"

lemma all_deps_iff:
  "rs_external_packages st = [] \<Longrightarrow> all_deps_resolved st m \<longleftrightarrow> set (dep_keys m) \<subseteq> known st"
  by (auto simp: all_deps_resolved_def is_type_resolved_in_context_def is_external_package_def list_all_iff dep_keys_def
        dep_key_def known_def unwrap_or_def split: option.splits)

definition resolver_inv :: "hash_env \<Rightarrow> resolver \<Rightarrow> bool" where
  "resolver_inv env st \<longleftrightarrow> rs_external_packages st = [] \<and> wf_descs (rs_type_descriptions st) \<and>
     (\<forall>k r. map_of (rs_resolved_messages st) k = Some r \<longrightarrow>
        k = message_key (rm_parsed r) \<and> supported (rm_parsed r) \<and> set (dep_keys (rm_parsed r)) \<subseteq> known st \<and>
        calculate_type_hash env (rm_parsed r) (rs_type_descriptions st) = Ok (rm_type_hash r))"

lemma resolver_new_inv: "resolver_inv env (resolver_new h)"
  by (simp add: resolver_inv_def resolver_new_def wf_descs_def named_def closed_descs_def ranked_def)

lemma resolve_message_ok:
  assumes "resolver_inv env st" and "supported m"
  obtains r where "resolve_message env st m = Ok r" and "rm_parsed r = m"
    and "calculate_type_hash env m (rs_type_descriptions st) = Ok (rm_type_hash r)"
proof -
  have "named (rs_type_descriptions st)" "\<exists>rank. ranked (rs_type_descriptions st) rank"
    using assms(1) by (auto simp: resolver_inv_def wf_descs_def)
  then obtain h where "calculate_type_hash env m (rs_type_descriptions st) = Ok h"
    using build_description assms(2) unfolding calculate_type_hash_def by fastforce
  then show ?thesis
    using that [of "\<lparr>rm_parsed = m, rm_type_hash = h, rm_definition = expand_definition st m\<rparr>"]
    by (simp add: resolve_message_def)
qed

lemma add_resolved_inv:
  assumes inv: "resolver_inv env st" and reg: "regular m" and new: "message_key m \<notin> known st"
    and deps: "set (dep_keys m) \<subseteq> known st" and r: "rm_parsed r = m"
    and hash: "calculate_type_hash env m (rs_type_descriptions st) = Ok (rm_type_hash r)"
  shows "resolver_inv env (add_resolved st r)" and "known (add_resolved st r) = insert (message_key m) (known st)"
proof -
  let ?all = "rs_type_descriptions st" and ?all' = "rs_type_descriptions (add_resolved st r)"
  have wf: "wf_descs ?all" using inv by (simp add: resolver_inv_def)
  have all': "?all' = bt_insert (message_key m) (message_description m) ?all"
    by (simp add: add_resolved_def r)
  have none: "map_of ?all (message_key m) = None" using new by (simp add: known_def domIff)
  have wf': "wf_descs ?all'"
    unfolding all' using deps by (intro wf_descs_insert [OF wf reg none]) (auto simp: known_def)
  have le: "map_of ?all \<subseteq>\<^sub>m map_of ?all'"
    using none by (auto simp: all' map_of_bt_insert map_le_def)
  show kn: "known (add_resolved st r) = insert (message_key m) (known st)"
    by (simp add: known_def all' map_of_bt_insert)
  have stable: "calculate_type_hash env n ?all' = calculate_type_hash env n ?all"
    if "supported n" "set (dep_keys n) \<subseteq> known st" for n
  proof -
    have "map_of ?all k \<noteq> None" if "k \<in> set (dep_keys n)" for k
      using that \<open>set (dep_keys n) \<subseteq> known st\<close> by (auto simp: known_def)
    then show ?thesis using build_stable [OF wf wf' le that(1)] by (simp add: calculate_type_hash_def)
  qed
  have "k = message_key (rm_parsed q) \<and> supported (rm_parsed q) \<and> set (dep_keys (rm_parsed q)) \<subseteq> known (add_resolved st r) \<and>
        calculate_type_hash env (rm_parsed q) ?all' = Ok (rm_type_hash q)"
    if "map_of (rs_resolved_messages (add_resolved st r)) k = Some q" for k q
  proof (cases "k = message_key m")
    case True
    then have "q = r" using that by (simp add: add_resolved_def r update_conv')
    then show ?thesis using True r reg hash deps stable [of m] kn by (auto simp: regular_def)
  next
    case False
    then have "map_of (rs_resolved_messages st) k = Some q"
      using that by (simp add: add_resolved_def r update_conv')
    then have "k = message_key (rm_parsed q) \<and> supported (rm_parsed q) \<and> set (dep_keys (rm_parsed q)) \<subseteq> known st \<and>
        calculate_type_hash env (rm_parsed q) ?all = Ok (rm_type_hash q)"
      using inv unfolding resolver_inv_def by blast
    then show ?thesis using stable kn by auto
  qed
  moreover have "rs_external_packages (add_resolved st r) = []"
    using inv by (simp add: add_resolved_def resolver_inv_def)
  ultimately show "resolver_inv env (add_resolved st r)"
    using wf' unfolding resolver_inv_def by blast
qed

section \<open>The loop\<close>

text \<open>The messages that can be resolved at all, given the known types.\<close>

inductive resolvable :: "string set \<Rightarrow> parsed_message set \<Rightarrow> string \<Rightarrow> bool" for K M where
  "m \<in> M \<Longrightarrow> (\<And>k. k \<in> set (dep_keys m) \<Longrightarrow> k \<in> K \<or> resolvable K M k) \<Longrightarrow> resolvable K M (message_key m)"

lemma resolvable_ready: "resolvable K M k \<Longrightarrow> \<exists>m \<in> M. set (dep_keys m) \<subseteq> K"
  by (induction rule: resolvable.induct) blast

lemma resolvable_remove:
  "resolvable K (insert m M) k \<Longrightarrow> k = message_key m \<or> resolvable (insert (message_key m) K) M k"
proof (induction rule: resolvable.induct)
  case (1 n)
  then show ?case
    using resolvable.intros [of n M "insert (message_key m) K"] by blast
qed

lemma resolvable_add:
  assumes "resolvable (insert (message_key m) K) M k" and "set (dep_keys m) \<subseteq> K"
  shows "resolvable K (insert m M) k"
  using assms(1)
proof (induction rule: resolvable.induct)
  case (1 n)
  have "resolvable K (insert m M) (message_key m)"
    using assms(2) by (intro resolvable.intros) auto
  with 1 show ?case by (intro resolvable.intros) blast+
qed

text \<open>What a run that resolves the messages \<open>q\<close> does.\<close>

definition resolves :: "hash_env \<Rightarrow> resolver \<Rightarrow> parsed_message set \<Rightarrow> resolver \<Rightarrow> bool" where
  "resolves env st q st' \<longleftrightarrow> resolver_inv env st' \<and>
     (\<forall>m \<in> q. map_of (rs_type_descriptions st') (message_key m) = Some (message_description m) \<and>
        map_option rm_parsed (map_of (rs_resolved_messages st') (message_key m)) = Some m) \<and>
     (\<forall>k. k \<notin> message_key ` q \<longrightarrow> map_of (rs_type_descriptions st') k = map_of (rs_type_descriptions st) k \<and>
        map_of (rs_resolved_messages st') k = map_of (rs_resolved_messages st) k)"

lemma resolves_nil: "resolver_inv env st \<Longrightarrow> resolves env st {} st"
  by (simp add: resolves_def)

lemma resolves_step:
  assumes "resolves env (add_resolved st r) (set q) st'" and "rm_parsed r = m" and "message_key m \<notin> message_key ` set q"
  shows "resolves env st (set (m # q)) st'"
  using assms unfolding resolves_def
  by (auto simp: add_resolved_def map_of_bt_insert update_conv')

definition fresh_queue :: "resolver \<Rightarrow> parsed_message list \<Rightarrow> bool" where
  "fresh_queue st q \<longleftrightarrow> distinct (map message_key q) \<and> list_all regular q \<and> message_key ` set q \<inter> known st = {}"

lemma resolve_step_ready:
  assumes inv: "resolver_inv env st" and fresh: "fresh_queue st (m # q)" and ready: "set (dep_keys m) \<subseteq> known st"
    and it: "it < max_iterations"
  obtains r where "resolve_loop env st (m # q) it (Suc (length q)) s = resolve_loop env (add_resolved st r) q (it + 1) (length q) 0"
    and "resolver_inv env (add_resolved st r)" and "fresh_queue (add_resolved st r) q" and "rm_parsed r = m"
    and "known (add_resolved st r) = insert (message_key m) (known st)"
proof -
  have m: "regular m" "message_key m \<notin> known st" "supported m"
    using fresh by (auto simp: fresh_queue_def regular_def)
  obtain r where r: "resolve_message env st m = Ok r" "rm_parsed r = m"
      "calculate_type_hash env m (rs_type_descriptions st) = Ok (rm_type_hash r)"
    by (rule resolve_message_ok [OF inv m(3)])
  note add = add_resolved_inv [OF inv m(1,2) ready r(2,3)]
  have "all_deps_resolved st m" using ready inv all_deps_iff by (simp add: resolver_inv_def)
  then have "resolve_loop env st (m # q) it (Suc (length q)) s = resolve_loop env (add_resolved st r) q (it + 1) (length q) 0"
    using r(1) it by (simp add: resolve_loop.simps(2))
  moreover have "fresh_queue (add_resolved st r) q"
    using fresh add(2) by (auto simp: fresh_queue_def)
  ultimately show ?thesis using that r(2) add by blast
qed

lemma resolve_step_blocked:
  assumes "resolver_inv env st" and "\<not> set (dep_keys m) \<subseteq> known st" and "it < max_iterations"
  shows "resolve_loop env st (m # q) it (Suc (length q)) s =
     (if 100 < s + 1 then Err (ResolutionStalled (it + 1) (Suc (length q)) (stuck_names (q @ [m])))
      else resolve_loop env st (q @ [m]) (it + 1) (Suc (length q)) (s + 1))"
proof -
  have "\<not> all_deps_resolved st m" using assms all_deps_iff by (simp add: resolver_inv_def)
  then show ?thesis using assms(3) by (simp add: resolve_loop.simps(2))
qed

text \<open>\<open>budget n\<close> iterations are enough for \<open>n\<close> messages in the worst order.\<close>

fun budget :: "nat \<Rightarrow> nat" where
  "budget 0 = 0"
| "budget (Suc n) = Suc n + budget n"

lemma resolve_loop_complete:
  assumes "resolver_inv env st" and "fresh_queue st q" and "length q \<le> 101"
    and "\<And>m. m \<in> set q \<Longrightarrow> resolvable (known st) (set q) (message_key m)"
    and "s \<le> length q" and "\<And>m. m \<in> set (drop (length q - s) q) \<Longrightarrow> \<not> set (dep_keys m) \<subseteq> known st"
    and "it + budget (length q) \<le> max_iterations + s"
  shows "\<exists>st'. resolve_loop env st q it (length q) s = Ok st' \<and> resolves env st (set q) st'"
  using assms
proof (induction "max_iterations - it" arbitrary: st q it s rule: less_induct)
  case less
  show ?case
  proof (cases q)
    case Nil
    then show ?thesis using resolves_nil [OF less.prems(1)] by simp
  next
    case (Cons m q')
    obtain n where n: "n \<in> set q" "set (dep_keys n) \<subseteq> known st"
      using resolvable_ready less.prems(4) [of m] Cons by (metis list.set_intros(1))
    have "n \<notin> set (drop (length q - s) q)" using less.prems(6) n(2) by blast
    then have "set (drop (length q - s) q) \<noteq> set q" using n(1) by blast
    then have s: "s < length q" using less.prems(5) by (metis diff_self_eq_0 drop_0 le_neq_implies_less)
    have b: "budget (length q) = length q + budget (length q')" by (simp add: Cons)
    then have it: "it < max_iterations" using less.prems(7) s by linarith
    show ?thesis
    proof (cases "set (dep_keys m) \<subseteq> known st")
      case True
      obtain r where r: "resolve_loop env st q it (length q) s = resolve_loop env (add_resolved st r) q' (it + 1) (length q') 0"
          "resolver_inv env (add_resolved st r)" "fresh_queue (add_resolved st r) q'" "rm_parsed r = m"
          "known (add_resolved st r) = insert (message_key m) (known st)"
        using resolve_step_ready [OF less.prems(1) less.prems(2) [unfolded Cons] True it, of s] Cons by auto
      have new: "message_key m \<notin> message_key ` set q'" using less.prems(2) Cons by (auto simp: fresh_queue_def)
      have "resolvable (known (add_resolved st r)) (set q') (message_key n)" if "n \<in> set q'" for n
      proof -
        have "resolvable (known st) (insert m (set q')) (message_key n)"
          using less.prems(4) [of n] that Cons by simp
        moreover have "message_key n \<noteq> message_key m" using that new by (metis imageI)
        ultimately show ?thesis using resolvable_remove r(5) by metis
      qed
      moreover have "it + 1 + budget (length q') \<le> max_iterations + 0" using less.prems(7) s b by linarith
      ultimately have "\<exists>st'. resolve_loop env (add_resolved st r) q' (it + 1) (length q') 0 = Ok st' \<and>
          resolves env (add_resolved st r) (set q') st'"
        using r(2,3) less.prems(3) Cons it by (intro less.hyps) auto
      then show ?thesis using r(1,4) new resolves_step Cons by fastforce
    next
      case False
      have tail: "\<not> set (dep_keys n) \<subseteq> known st" if "n \<in> set (drop (length q - Suc s) (q' @ [m]))" for n
      proof -
        have "drop (length q - Suc s) (q' @ [m]) = drop (length q' - s) q' @ [m]" using s Cons by simp
        moreover have "drop (length q - s) q = drop (length q' - s) q'" using s Cons by (simp add: Suc_diff_le)
        ultimately show ?thesis using that False less.prems(6) by auto
      qed
      have sq: "Suc s < length q"
      proof (rule ccontr)
        assume "\<not> Suc s < length q"
        then have "drop (length q - Suc s) (q' @ [m]) = q' @ [m]" using s by simp
        then show False using tail n Cons by auto
      qed
      then have "\<not> 100 < s + 1" using less.prems(3) by simp
      then have eq: "resolve_loop env st q it (length q) s = resolve_loop env st (q' @ [m]) (it + 1) (length (q' @ [m])) (s + 1)"
        using resolve_step_blocked [OF less.prems(1) False it, of q' s] Cons by simp
      have "\<exists>st'. resolve_loop env st (q' @ [m]) (it + 1) (length (q' @ [m])) (s + 1) = Ok st' \<and>
          resolves env st (set (q' @ [m])) st'"
      proof (rule less.hyps)
        show "max_iterations - (it + 1) < max_iterations - it" using it by simp
        show "fresh_queue st (q' @ [m])" using less.prems(2) Cons by (auto simp: fresh_queue_def)
        show "resolvable (known st) (set (q' @ [m])) (message_key n)" if "n \<in> set (q' @ [m])" for n
          using less.prems(4) [of n] that Cons by auto
        show "it + 1 + budget (length (q' @ [m])) \<le> max_iterations + (s + 1)" using less.prems(7) Cons by simp
      qed (use less.prems Cons sq tail in auto)
      then show ?thesis using eq Cons by auto
    qed
  qed
qed

lemma resolve_message_parsed: "resolve_message env st m = Ok r \<Longrightarrow> rm_parsed r = m \<and> calculate_type_hash env m (rs_type_descriptions st) = Ok (rm_type_hash r)"
  by (cases "calculate_type_hash env m (rs_type_descriptions st)") (auto simp: resolve_message_def)

lemma resolve_loop_sound:
  assumes "resolver_inv env st" and "fresh_queue st q"
  shows "resolve_loop env st q it (length q) s \<noteq> Panic \<and>
     (\<forall>st'. resolve_loop env st q it (length q) s = Ok st' \<longrightarrow>
        resolves env st (set q) st' \<and> (\<forall>m \<in> set q. resolvable (known st) (set q) (message_key m)))"
  using assms
proof (induction "max_iterations - it" arbitrary: st q it s rule: less_induct)
  case less
  show ?case
  proof (cases q)
    case Nil
    then show ?thesis using resolves_nil [OF less.prems(1)] by simp
  next
    case (Cons m q')
    show ?thesis
    proof (cases "it < max_iterations")
      case False
      then show ?thesis using Cons by (simp add: resolve_loop.simps(2))
    next
      case it: True
      show ?thesis
      proof (cases "set (dep_keys m) \<subseteq> known st")
        case True
        obtain r where r: "resolve_loop env st q it (length q) s = resolve_loop env (add_resolved st r) q' (it + 1) (length q') 0"
            "resolver_inv env (add_resolved st r)" "fresh_queue (add_resolved st r) q'" "rm_parsed r = m"
            "known (add_resolved st r) = insert (message_key m) (known st)"
          using resolve_step_ready [OF less.prems(1) less.prems(2) [unfolded Cons] True it, of s] Cons by auto
        have new: "message_key m \<notin> message_key ` set q'" using less.prems(2) Cons by (auto simp: fresh_queue_def)
        have IH: "resolve_loop env (add_resolved st r) q' (it + 1) (length q') 0 \<noteq> Panic \<and>
          (\<forall>st'. resolve_loop env (add_resolved st r) q' (it + 1) (length q') 0 = Ok st' \<longrightarrow>
             resolves env (add_resolved st r) (set q') st' \<and>
             (\<forall>m \<in> set q'. resolvable (known (add_resolved st r)) (set q') (message_key m)))"
          using r(2,3) it by (intro less.hyps) auto
        have "resolvable (known st) (set q) (message_key m)"
          using True Cons by (intro resolvable.intros) auto
        moreover have "resolvable (known st) (set q) k" if "resolvable (known (add_resolved st r)) (set q') k" for k
          using resolvable_add [OF _ True] that r(5) Cons by simp
        ultimately show ?thesis
          using IH r(1,4) new resolves_step [of env st r q' _ m] Cons by fastforce
      next
        case False
        note eq = resolve_step_blocked [OF less.prems(1) False it, of q' s]
        show ?thesis
        proof (cases "100 < s + 1")
          case True
          then show ?thesis using eq Cons by simp
        next
          case False
          have "fresh_queue st (q' @ [m])" using less.prems(2) Cons by (auto simp: fresh_queue_def)
          then have "resolve_loop env st (q' @ [m]) (it + 1) (length (q' @ [m])) (s + 1) \<noteq> Panic \<and>
             (\<forall>st'. resolve_loop env st (q' @ [m]) (it + 1) (length (q' @ [m])) (s + 1) = Ok st' \<longrightarrow>
                resolves env st (set (q' @ [m])) st' \<and>
                (\<forall>n \<in> set (q' @ [m]). resolvable (known st) (set (q' @ [m])) (message_key n)))"
            using less.prems(1) it by (intro less.hyps) auto
          then show ?thesis using eq False Cons by simp
        qed
      qed
    qed
  qed
qed

text \<open>In the order of dependencies every message is resolved when its turn comes.\<close>

lemma resolve_in_order:
  assumes "resolver_inv env st" and "fresh_queue st q" and "it + length q \<le> max_iterations"
    and "\<And>i. i < length q \<Longrightarrow> set (dep_keys (q ! i)) \<subseteq> known st \<union> message_key ` set (take i q)"
  shows "\<exists>st'. resolve_loop env st q it (length q) s = Ok st'"
  using assms
proof (induction q arbitrary: st it s)
  case Nil
  then show ?case by simp
next
  case (Cons m q)
  have "set (dep_keys m) \<subseteq> known st" using Cons.prems(4) [of 0] by simp
  moreover have "it < max_iterations" using Cons.prems(3) by simp
  ultimately obtain r where r: "resolve_loop env st (m # q) it (Suc (length q)) s = resolve_loop env (add_resolved st r) q (it + 1) (length q) 0"
      "resolver_inv env (add_resolved st r)" "fresh_queue (add_resolved st r) q"
      "known (add_resolved st r) = insert (message_key m) (known st)"
    using resolve_step_ready [OF Cons.prems(1,2)] by metis
  have "set (dep_keys (q ! i)) \<subseteq> known (add_resolved st r) \<union> message_key ` set (take i q)" if "i < length q" for i
    using Cons.prems(4) [of "Suc i"] that r(4) by auto
  then have "\<exists>st'. resolve_loop env (add_resolved st r) q (it + 1) (length q) 0 = Ok st'"
    using r(2,3) Cons.prems(3) by (intro Cons.IH) auto
  then show ?case using r(1) by simp
qed

lemma resolve_stalls:
  assumes "resolver_inv env st" and "\<And>m. m \<in> set bs \<Longrightarrow> \<not> set (dep_keys m) \<subseteq> known st"
    and "length bs = 101 - s" and "s \<le> 100" and "it + 101 < max_iterations + s"
  shows "\<exists>names. resolve_loop env st (bs @ q) it (length (bs @ q)) s =
     Err (ResolutionStalled (it + 101 - s) (length (bs @ q)) names)"
  using assms
proof (induction bs arbitrary: q it s)
  case Nil
  then show ?case by simp
next
  case (Cons b bs)
  have it: "it < max_iterations" using Cons.prems(4,5) by linarith
  have blocked: "\<not> set (dep_keys b) \<subseteq> known st" using Cons.prems(2) by simp
  note eq = resolve_step_blocked [OF Cons.prems(1) blocked it, of "bs @ q" s]
  show ?case
  proof (cases "s = 100")
    case True
    then show ?thesis using eq Cons.prems(3) by simp
  next
    case False
    then have "\<exists>names. resolve_loop env st (bs @ (q @ [b])) (it + 1) (length (bs @ (q @ [b]))) (s + 1) =
       Err (ResolutionStalled ((it + 1) + 101 - (s + 1)) (length (bs @ (q @ [b]))) names)"
      using Cons.prems by (intro Cons.IH) auto
    then show ?thesis using eq False Cons.prems(4) by (simp add: add.commute)
  qed
qed

lemma new_fresh: "list_all regular ms \<Longrightarrow> distinct (map message_key ms) \<Longrightarrow> fresh_queue (resolver_new h) ms"
  by (simp add: fresh_queue_def known_def resolver_new_def)

lemma known_new [simp]: "known (resolver_new h) = {}"
  by (simp add: known_def resolver_new_def)

lemma budget_101: "budget 101 \<le> max_iterations"
  by code_simp

lemma budget_mono: "n \<le> m \<Longrightarrow> budget n \<le> budget m"
  by (induction m) (auto simp: le_Suc_eq)

lemma resolve_loop_distinct:
  "resolve_loop env st q it n s = Ok st' \<Longrightarrow> distinct (map fst (rs_resolved_messages st)) \<Longrightarrow>
   distinct (map fst (rs_resolved_messages st'))"
proof (induction env st q it n s rule: resolve_loop.induct)
  case (1 env st it n s)
  then show ?case by simp
next
  case (2 env st m q it n s)
  let ?step = "if all_deps_resolved st m then res_map (\<lambda>r. (add_resolved st r, q, 0)) (resolve_message env st m)
     else Ok (st, q @ [m], s)"
  have it: "\<not> max_iterations \<le> it" using 2(3) by (auto simp: resolve_loop.simps(2))
  obtain st1 q1 s1 where step: "?step = Ok (st1, q1, s1)"
    using 2(3) it by (cases ?step) (auto simp: resolve_loop.simps(2))
  have keep: "distinct (map fst (rs_resolved_messages st1))"
    using step 2(4) by (cases "resolve_message env st m") (auto simp: add_resolved_def distinct_update split: if_splits)
  show ?case
    using 2(1) [OF it step refl refl] 2(2) [OF it step refl refl] 2(3) it step keep
    by (auto simp: resolve_loop.simps(2) split: if_splits)
qed

lemma resolve_messages_iff:
  "resolve_messages env st ms = Ok (st', rs) \<longleftrightarrow>
     resolve_loop env st ms 0 (length ms) 0 = Ok st' \<and> rs = map snd (rs_resolved_messages st')"
  by (cases "resolve_loop env st ms 0 (length ms) 0") (auto simp: resolve_messages_def)

lemma new_run:
  assumes reg: "list_all regular ms" and dist: "distinct (map message_key ms)"
    and run: "resolve_messages env (resolver_new h) ms = Ok (st, rs)"
  shows "resolver_inv env st" and "known st = message_key ` set ms"
    and "map_of (rs_type_descriptions st) = map_of (map (\<lambda>m. (message_key m, message_description m)) ms)"
    and "mset (map rm_parsed rs) = mset ms"
    and "\<And>r. r \<in> set rs \<Longrightarrow> map_of (rs_resolved_messages st) (message_key (rm_parsed r)) = Some r"
proof -
  let ?d = "map (\<lambda>m. (message_key m, message_description m)) ms" and ?E = "rs_resolved_messages st"
  have loop: "resolve_loop env (resolver_new h) ms 0 (length ms) 0 = Ok st" and rs: "rs = map snd ?E"
    using run by (simp_all add: resolve_messages_iff)
  have res: "resolves env (resolver_new h) (set ms) st"
    using resolve_loop_sound [OF resolver_new_inv new_fresh [OF reg dist]] loop by blast
  then show inv: "resolver_inv env st" by (simp add: resolves_def)
  have dd: "distinct (map fst ?d)" using dist by (simp add: comp_def)
  have "map_of (rs_type_descriptions st) k = map_of ?d k" for k
  proof (cases "k \<in> message_key ` set ms")
    case True
    then obtain m where m: "m \<in> set ms" "k = message_key m" by blast
    then have "map_of ?d k = Some (message_description m)"
      using dd by (auto intro!: map_of_is_SomeI)
    then show ?thesis using res m by (simp add: resolves_def)
  next
    case False
    then have "map_of ?d k = None" by (auto simp: map_of_eq_None_iff)
    then show ?thesis using res False by (simp add: resolves_def resolver_new_def)
  qed
  then show desc: "map_of (rs_type_descriptions st) = map_of ?d" by blast
  then show "known st = message_key ` set ms" by (simp add: known_def dom_map_of_conv_image_fst image_image)
  have dE: "distinct (map fst ?E)"
    using resolve_loop_distinct [OF loop] by (simp add: resolver_new_def)
  have key: "k = message_key (rm_parsed r)" if "(k, r) \<in> set ?E" for k r
    using inv dE that unfolding resolver_inv_def by (metis map_of_is_SomeI)
  have in_ms: "rm_parsed r \<in> set ms" if "(k, r) \<in> set ?E" for k r
  proof -
    have some: "map_of ?E k = Some r" using dE that by simp
    then have "k \<in> message_key ` set ms" using res by (auto simp: resolves_def resolver_new_def)
    then show ?thesis using res some by (force simp: resolves_def)
  qed
  have "set ms \<subseteq> rm_parsed ` snd ` set ?E"
  proof
    fix m assume "m \<in> set ms"
    then obtain r where "map_of ?E (message_key m) = Some r" "rm_parsed r = m"
      using res by (auto simp: resolves_def)
    then show "m \<in> rm_parsed ` snd ` set ?E" by (force dest: map_of_SomeD)
  qed
  then have sets: "set (map rm_parsed rs) = set ms" using in_ms by (auto simp: rs)
  have "map message_key (map rm_parsed rs) = map fst ?E" using key by (auto simp: rs)
  then have "distinct (map rm_parsed rs)" using dE distinct_map [of message_key "map rm_parsed rs"] by simp
  moreover have "distinct ms" using dist by (simp add: distinct_map)
  ultimately show "mset (map rm_parsed rs) = mset ms" using sets set_eq_iff_mset_eq_distinct by blast
  show "map_of ?E (message_key (rm_parsed r)) = Some r" if "r \<in> set rs" for r
    using that key dE by (auto simp: rs)
qed

lemma new_run_hash:
  assumes "list_all regular ms" and "distinct (map message_key ms)"
    and "resolve_messages env (resolver_new h) ms = Ok (st, rs)" and "r \<in> set rs"
  shows "calculate_type_hash env (rm_parsed r) (rs_type_descriptions st) = Ok (rm_type_hash r)"
    and "supported (rm_parsed r)" and "set (dep_keys (rm_parsed r)) \<subseteq> known st"
  using new_run(1,5) [OF assms(1-3)] assms(4) unfolding resolver_inv_def by blast+

section \<open>Properties of the resolution\<close>

text \<open>
  C30: Up to 101 messages (of distinct names, with types the hash supports) are resolved
  exactly when every message is reached in some order of dependencies, whatever order they
  come in; the loop always ends, and no recursion of it overflows.
\<close>

theorem resolution_complete:
  assumes "list_all regular ms" and "distinct (map message_key ms)" and "length ms \<le> 101"
  shows "((\<exists>r. resolve_messages env (resolver_new h) ms = Ok r) \<longleftrightarrow>
            list_all (\<lambda>m. resolvable {} (set ms) (message_key m)) ms) \<and>
         resolve_messages env (resolver_new h) ms \<noteq> Panic"
proof -
  note fresh = new_fresh [OF assms(1,2), of h]
  note sound = resolve_loop_sound [OF resolver_new_inv fresh, of env 0 0]
  have "\<exists>r. resolve_messages env (resolver_new h) ms = Ok r" if all: "list_all (\<lambda>m. resolvable {} (set ms) (message_key m)) ms"
  proof -
    have "0 + budget (length ms) \<le> max_iterations + 0"
      using budget_101 budget_mono [OF assms(3)] by simp
    then have "\<exists>st'. resolve_loop env (resolver_new h) ms 0 (length ms) 0 = Ok st' \<and> resolves env (resolver_new h) (set ms) st'"
      using all assms(3) by (intro resolve_loop_complete [OF resolver_new_inv fresh]) (auto simp: list_all_iff)
    then show ?thesis by (auto simp: resolve_messages_iff)
  qed
  moreover have "list_all (\<lambda>m. resolvable {} (set ms) (message_key m)) ms"
    if ok: "resolve_messages env (resolver_new h) ms = Ok r" for r
    using sound ok by (cases r) (auto simp: resolve_messages_iff list_all_iff)
  moreover have "resolve_messages env (resolver_new h) ms \<noteq> Panic"
    using sound by (cases "resolve_loop env (resolver_new h) ms 0 (length ms) 0") (auto simp: resolve_messages_def)
  ultimately show ?thesis by blast
qed

text \<open>
  C31: What a successful run holds: the messages given, once each, with their descriptions; and
  the hash of each is that of its own description with the descriptions of exactly the types
  it reaches, in the order of their names.
\<close>

theorem resolution_exact:
  assumes "list_all regular ms" and "distinct (map message_key ms)"
    and "resolve_messages env (resolver_new h) ms = Ok (st, rs)"
  shows "map_of (rs_type_descriptions st) = map_of (map (\<lambda>m. (message_key m, message_description m)) ms) \<and>
     mset (map rm_parsed rs) = mset ms \<and>
     list_all (\<lambda>r. \<exists>ds. is_references (rs_type_descriptions st) (rm_parsed r) ds \<and>
        rm_type_hash r = env_hash env
          \<lparr>tm_type_description = \<lparr>td_type_name = pm_package (rm_parsed r) @ ''/msg/'' @ pm_name (rm_parsed r),
              td_fields = msg_fields (rm_parsed r)\<rparr>,
           tm_referenced = ds\<rparr>) rs"
proof -
  have wf: "named (rs_type_descriptions st)" "\<exists>rank. ranked (rs_type_descriptions st) rank"
    using new_run(1) [OF assms] by (auto simp: resolver_inv_def wf_descs_def)
  have "\<exists>ds. is_references (rs_type_descriptions st) (rm_parsed r) ds \<and>
        rm_type_hash r = env_hash env
          \<lparr>tm_type_description = \<lparr>td_type_name = pm_package (rm_parsed r) @ ''/msg/'' @ pm_name (rm_parsed r),
              td_fields = msg_fields (rm_parsed r)\<rparr>,
           tm_referenced = ds\<rparr>" if "r \<in> set rs" for r
    using new_run_hash(1,2) [OF assms that] wf build_description
    by (fastforce simp: calculate_type_hash_def)
  then show ?thesis using new_run(3,4) [OF assms] by (simp add: list_all_iff)
qed

lemma bt_ordered_unique:
  assumes "bt_ordered xs" and "bt_ordered ys" and "map_of xs = map_of ys"
  shows "xs = ys"
proof -
  have o: "sorted_wrt (<) (map fst xs)" "sorted_wrt (<) (map fst ys)"
    using assms(1,2) by simp_all
  then have d: "sorted (map fst xs)" "distinct (map fst xs)" "sorted (map fst ys)" "distinct (map fst ys)"
    by (simp_all only: strict_sorted_iff)
  have "fst ` set xs = fst ` set ys" using assms(3) by (metis dom_map_of_conv_image_fst)
  then have keys: "map fst xs = map fst ys" using d by (intro sorted_distinct_set_unique) auto
  have sets: "set xs = set ys" using assms(3) d(2,4) map_of_inject_set by blast
  have "inj_on fst (set xs \<union> set ys)" using d(2) sets by (simp add: distinct_map)
  with keys show ?thesis by (rule map_inj_on)
qed

text \<open>
  C32: The order in which the files are found does not matter: two runs over the same messages
  that both succeed know the same descriptions and give every message the same hash.
\<close>

theorem resolution_order_irrelevant:
  assumes "list_all regular ms" and "distinct (map message_key ms)" and "mset ms = mset ms'"
    and "resolve_messages env (resolver_new h) ms = Ok (st, rs)"
    and "resolve_messages env (resolver_new h) ms' = Ok (st', rs')"
  shows "rs_type_descriptions st = rs_type_descriptions st' \<and>
     mset (map (\<lambda>r. (rm_parsed r, rm_type_hash r)) rs) = mset (map (\<lambda>r. (rm_parsed r, rm_type_hash r)) rs')"
proof -
  have reg': "list_all regular ms'" using assms(1,3) mset_eq_setD by (fastforce simp: list_all_iff)
  have dist': "distinct (map message_key ms')" using assms(2,3) by (metis mset_eq_imp_distinct_iff mset_map)
  note run = new_run [OF assms(1,2,4)] and run' = new_run [OF reg' dist' assms(5)]
  let ?d = "\<lambda>ms. map (\<lambda>m. (message_key m, message_description m)) ms"
  have "mset (?d ms) = mset (?d ms')" using assms(3) by simp
  then have "set (?d ms) = set (?d ms')" by (rule mset_eq_setD)
  then have "map_of (?d ms) = map_of (?d ms')"
    using assms(2) dist' by (subst map_of_inject_set) (simp_all add: comp_def)
  then have "map_of (rs_type_descriptions st) = map_of (rs_type_descriptions st')" using run(3) run'(3) by simp
  moreover have "bt_ordered (rs_type_descriptions st)" "bt_ordered (rs_type_descriptions st')"
    using run(1) run'(1) by (simp_all add: resolver_inv_def wf_descs_def)
  ultimately have eq: "rs_type_descriptions st = rs_type_descriptions st'" by (intro bt_ordered_unique)
  let ?h = "\<lambda>m. (m, case calculate_type_hash env m (rs_type_descriptions st) of Ok v \<Rightarrow> v | _ \<Rightarrow> [])"
  have "map (\<lambda>r. (rm_parsed r, rm_type_hash r)) rs = map ?h (map rm_parsed rs)"
    using new_run_hash(1) [OF assms(1,2,4)] by simp
  moreover have "map (\<lambda>r. (rm_parsed r, rm_type_hash r)) rs' = map ?h (map rm_parsed rs')"
    using new_run_hash(1) [OF reg' dist' assms(5)] eq by simp
  moreover have "mset (map ?h (map rm_parsed rs)) = mset (map ?h (map rm_parsed rs'))"
    unfolding mset_map [of ?h] run(4) run'(4) assms(3) ..
  ultimately show ?thesis using eq by (simp only: simp_thms)
qed

text \<open>
  The loop gives up after 101 messages in a row that are not ready, not after 100 passes
  over the queue: where more than 100 messages wait for one that comes last, resolution is
  refused, although the same messages with that one first are all resolved.
\<close>

theorem resolution_refuses_resolvable:
  assumes "list_all regular (l # bs)" and "distinct (map message_key (l # bs))" and "dep_keys l = []"
    and "list_all (\<lambda>b. set (dep_keys b) = {message_key l}) bs" and "101 \<le> length bs" and "length bs < 10000"
  shows "(\<exists>names. resolve_messages env (resolver_new h) (bs @ [l]) = Err (ResolutionStalled 101 (length bs + 1) names)) \<and>
     (\<exists>r. resolve_messages env (resolver_new h) (l # bs) = Ok r)"
proof
  have max: "max_iterations = 10000" by (simp add: max_iterations_def)
  have dep: "set (dep_keys b) = {message_key l}" if "b \<in> set bs" for b
    using that assms(4) by (simp add: list_all_iff)
  let ?bs = "take 101 bs" and ?q = "drop 101 bs @ [l]"
  have "\<exists>names. resolve_loop env (resolver_new h) (?bs @ ?q) 0 (length (?bs @ ?q)) 0 =
      Err (ResolutionStalled (0 + 101 - 0) (length (?bs @ ?q)) names)"
  proof (rule resolve_stalls [OF resolver_new_inv])
    show "\<not> set (dep_keys m) \<subseteq> known (resolver_new h)" if "m \<in> set ?bs" for m
      using dep [OF in_set_takeD [OF that]] by simp
  qed (use assms(5) max in auto)
  moreover have "?bs @ ?q = bs @ [l]" by simp
  ultimately have "\<exists>names. resolve_loop env (resolver_new h) (bs @ [l]) 0 (length (bs @ [l])) 0 =
      Err (ResolutionStalled 101 (length bs + 1) names)" by (metis add_0 diff_zero length_append_singleton Suc_eq_plus1)
  then show "\<exists>names. resolve_messages env (resolver_new h) (bs @ [l]) = Err (ResolutionStalled 101 (length bs + 1) names)"
    by (auto simp: resolve_messages_def)
  have "set (dep_keys ((l # bs) ! i)) \<subseteq> known (resolver_new h) \<union> message_key ` set (take i (l # bs))"
    if "i < length (l # bs)" for i
  proof (cases i)
    case 0
    then show ?thesis using assms(3) by simp
  next
    case (Suc j)
    then show ?thesis using dep [OF nth_mem, of j] that by simp
  qed
  then have "\<exists>st. resolve_loop env (resolver_new h) (l # bs) 0 (length (l # bs)) 0 = Ok st"
    using assms(6) max by (intro resolve_in_order [OF resolver_new_inv new_fresh [OF assms(1,2)]]) auto
  then show "\<exists>r. resolve_messages env (resolver_new h) (l # bs) = Ok r"
    by (auto simp: resolve_messages_iff)
qed

definition bounded_string :: "u64 \<Rightarrow> array_type \<Rightarrow> idl_field_type" where
  "bounded_string n a = \<lparr>ft_base_type = ''string'', ft_package = None, ft_array = a, ft_string_bound = Some n\<rparr>"

definition with_field :: "parsed_message \<Rightarrow> idl_field list \<Rightarrow> idl_field \<Rightarrow> idl_field_type \<Rightarrow> idl_field list \<Rightarrow> parsed_message" where
  "with_field m fs f t gs = m\<lparr>pm_fields := fs @ [f\<lparr>fl_type := t\<rparr>] @ gs\<rparr>"

lemma same_type_same_hash:
  assumes "build_field_type (pm_package m) t = build_field_type (pm_package m) t'"
    and "is_primitive_type (ft_base_type t)" and "is_primitive_type (ft_base_type t')"
  shows "calculate_type_hash env (with_field m fs f t gs) deps = calculate_type_hash env (with_field m fs f t' gs) deps"
proof -
  have "build_field (pm_package m) deps acc (f\<lparr>fl_type := t\<rparr>) = build_field (pm_package m) deps acc (f\<lparr>fl_type := t'\<rparr>)" for acc
    using assms by (cases acc) (simp add: build_field_def)
  then have "res_fold (build_field (pm_package m) deps) acc (fs @ [f\<lparr>fl_type := t\<rparr>] @ gs) =
      res_fold (build_field (pm_package m) deps) acc (fs @ [f\<lparr>fl_type := t'\<rparr>] @ gs)" for acc
    by (induction fs arbitrary: acc) simp_all
  then show ?thesis by (simp add: calculate_type_hash_def build_type_description_msg_def with_field_def)
qed

text \<open>
  Which arrays of bounded strings share a hash: \<open>string<=n\<close> and \<open>string<=n[]\<close> do, and for a
  given capacity neither the bound on the strings nor the kind of the array counts.
\<close>

theorem bounded_string_arrays_share_hash:
  assumes "0 < c"
  shows "calculate_type_hash env (with_field m fs f (bounded_string n ASingle) gs) deps =
         calculate_type_hash env (with_field m fs f (bounded_string n AUnbounded) gs) deps \<and>
     calculate_type_hash env (with_field m fs f (bounded_string n (AFixed c)) gs) deps =
         calculate_type_hash env (with_field m fs f (bounded_string n' (ABounded c)) gs) deps"
proof
  have prim: "is_primitive_type ''string''" by code_simp
  note defs = build_field_type_def get_type_id_def bounded_string_def get_array_capacity_def prim unwrap_or_def
  show "calculate_type_hash env (with_field m fs f (bounded_string n ASingle) gs) deps =
      calculate_type_hash env (with_field m fs f (bounded_string n AUnbounded) gs) deps"
    by (rule same_type_same_hash) (simp_all add: defs)
  show "calculate_type_hash env (with_field m fs f (bounded_string n (AFixed c)) gs) deps =
      calculate_type_hash env (with_field m fs f (bounded_string n' (ABounded c)) gs) deps"
    using assms by (intro same_type_same_hash) (simp_all add: defs)
qed

section \<open>Witnesses\<close>

definition example_env :: hash_env where
  "example_env = \<lparr>he_compact = json_compact, he_sha256 = (\<lambda>s. replicate 32 0)\<rparr>"

definition example_message :: "string \<Rightarrow> idl_field list \<Rightarrow> parsed_message" where
  "example_message name fs =
     \<lparr>pm_name = name, pm_package = ''p'', pm_fields = fs, pm_constants = [], pm_source = [],
      pm_path = \<lparr>pb_absolute = True, pb_components = [''p'', ''msg'', ''M.msg'']\<rparr>\<rparr>"

definition example_field :: "string \<Rightarrow> idl_field" where
  "example_field base =
     \<lparr>fl_name = ''a'', fl_type = \<lparr>ft_base_type = base, ft_package = None, ft_array = ASingle, ft_string_bound = None\<rparr>,
      fl_default = None\<rparr>"

definition leaf :: parsed_message where
  "leaf = example_message ''Leaf'' [example_field ''int32'']"

definition waiting :: "nat \<Rightarrow> parsed_message" where
  "waiting n = example_message (replicate n CHR ''W'') [example_field ''Leaf'']"

lemma leaf_facts: "regular leaf" "dep_keys leaf = []" "message_key leaf = ''p/Leaf''"
  by code_simp+

lemma example_path: "\<not> is_action_component (example_message name fs)"
proof -
  have "is_action_component (example_message name fs) = is_action_component (example_message [] [])"
    by (simp add: is_action_component_def example_message_def)
  moreover have "\<not> is_action_component (example_message [] [])" by code_simp
  ultimately show ?thesis by simp
qed

lemma waiting_facts: "regular (waiting n)" "dep_keys (waiting n) = [''p/Leaf'']" "message_key (waiting n) = ''p/'' @ replicate n CHR ''W''"
proof -
  have sup: "is_ok (get_type_id (fl_type (example_field ''Leaf'')))" by code_simp
  show "dep_keys (waiting n) = [''p/Leaf'']"
    by (simp add: dep_keys_def waiting_def example_message_def example_field_def dep_key_def is_primitive_type_def
        primitive_types_def unwrap_or_def)
  show "message_key (waiting n) = ''p/'' @ replicate n CHR ''W''"
    by (simp add: message_key_def waiting_def example_message_def)
  show "regular (waiting n)"
    using sup example_path by (simp add: regular_def waiting_def supported_def)
      (simp add: example_message_def example_field_def)
qed

lemma waiting_keys: "distinct (map message_key (leaf # map waiting [0..<n]))"
  by (auto simp: leaf_facts waiting_facts distinct_map inj_on_def comp_def Cons_replicate_eq replicate_eq_replicate)

lemma example_regular: "list_all regular (leaf # map waiting [0..<n])"
  by (simp add: leaf_facts waiting_facts list_all_iff)

lemma leaf_first: "\<exists>st rs. resolve_messages example_env (resolver_new False) [leaf, waiting 1] = Ok (st, rs)"
proof -
  have "\<exists>st. resolve_loop example_env (resolver_new False) [leaf, waiting 1] 0 (length [leaf, waiting 1]) 0 = Ok st"
  proof (rule resolve_in_order [OF resolver_new_inv new_fresh])
    show "set (dep_keys ([leaf, waiting 1] ! i)) \<subseteq> known (resolver_new False) \<union> message_key ` set (take i [leaf, waiting 1])"
      if "i < length [leaf, waiting 1]" for i
      using that by (cases i) (auto simp: leaf_facts waiting_facts)
  qed (simp_all add: leaf_facts waiting_facts max_iterations_def)
  then show ?thesis by (simp add: resolve_messages_iff)
qed

lemma example_resolvable:
  "resolvable {} {waiting 1, leaf} (message_key leaf)" "resolvable {} {waiting 1, leaf} (message_key (waiting 1))"
proof -
  show l: "resolvable {} {waiting 1, leaf} (message_key leaf)"
    by (rule resolvable.intros) (simp_all add: leaf_facts)
  show "resolvable {} {waiting 1, leaf} (message_key (waiting 1))"
    using l by (intro resolvable.intros) (auto simp: leaf_facts waiting_facts)
qed

theorem resolution_complete_witness:
  "list_all regular [waiting 1, leaf] \<and>
   (\<exists>r. resolve_messages example_env (resolver_new False) [waiting 1, leaf] = Ok r)"
proof -
  have "list_all regular [waiting 1, leaf]" "distinct (map message_key [waiting 1, leaf])"
    by (simp_all add: leaf_facts waiting_facts)
  then show ?thesis
    using resolution_complete [of "[waiting 1, leaf]" example_env False] example_resolvable by simp
qed

theorem resolution_exact_witness:
  "\<exists>st rs. resolve_messages example_env (resolver_new False) [leaf, waiting 1] = Ok (st, rs) \<and>
     mset (map rm_parsed rs) = mset [leaf, waiting 1]"
proof -
  have "list_all regular [leaf, waiting 1]" "distinct (map message_key [leaf, waiting 1])"
    by (simp_all add: leaf_facts waiting_facts)
  then show ?thesis using resolution_exact [of "[leaf, waiting 1]" example_env False] leaf_first by blast
qed

theorem resolution_order_irrelevant_witness:
  "\<exists>st rs st' rs'. resolve_messages example_env (resolver_new False) [leaf, waiting 1] = Ok (st, rs) \<and>
     resolve_messages example_env (resolver_new False) [waiting 1, leaf] = Ok (st', rs') \<and>
     rs_type_descriptions st = rs_type_descriptions st'"
proof -
  have reg: "list_all regular [leaf, waiting 1]" "distinct (map message_key [leaf, waiting 1])"
      "list_all regular [waiting 1, leaf]" "distinct (map message_key [waiting 1, leaf])"
    by (simp_all add: leaf_facts waiting_facts)
  have "mset [leaf, waiting 1] = mset [waiting 1, leaf]" by simp
  moreover obtain st rs where "resolve_messages example_env (resolver_new False) [leaf, waiting 1] = Ok (st, rs)"
    using leaf_first by blast
  moreover obtain st' where "resolve_loop example_env (resolver_new False) [waiting 1, leaf] 0 (length [waiting 1, leaf]) 0 = Ok st'"
    using resolve_loop_complete [OF resolver_new_inv new_fresh [OF reg(3,4)], where s = 0 and it = 0 and env = example_env]
      example_resolvable by (auto simp: max_iterations_def)
  ultimately show ?thesis
    using resolution_order_irrelevant [OF reg(1,2)] by (fastforce simp: resolve_messages_iff)
qed

theorem resolution_refuses_resolvable_witness:
  "(\<exists>names. resolve_messages example_env (resolver_new False) (map waiting [0..<101] @ [leaf]) =
      Err (ResolutionStalled 101 102 names)) \<and>
   (\<exists>r. resolve_messages example_env (resolver_new False) (leaf # map waiting [0..<101]) = Ok r)"
proof -
  have "list_all (\<lambda>b. set (dep_keys b) = {message_key leaf}) (map waiting [0..<101])"
    by (simp add: leaf_facts waiting_facts list_all_iff)
  then show ?thesis
    using resolution_refuses_resolvable [OF example_regular [of 101] waiting_keys leaf_facts(2), of example_env False] by simp
qed

theorem bounded_string_arrays_share_hash_witness:
  "calculate_type_hash example_env (with_field leaf [] (example_field ''string'') (bounded_string 5 (AFixed 3)) []) [] =
   calculate_type_hash example_env (with_field leaf [] (example_field ''string'') (bounded_string 9 (ABounded 3)) []) []"
  using bounded_string_arrays_share_hash [of 3 example_env leaf "[]" "example_field ''string''" 5 "[]" "[]" 9] by simp

end
