(* ===== verification/Type_Description.thy ===== *)
theory Type_Description
  imports Dynamic_Schema Type_Schema "HOL-Library.Char_ord" "HOL-Library.List_Lexorder"
begin

text \<open>
  \<open>crates/hiroz/src/dynamic/type_description.rs\<close>: the schema of a dynamic message as a type
  description, the form in which types are exchanged between nodes and hashed, and back. The
  conversion to a description has no failing branch. The conversion back resolves references
  between the types of a description in passes over those that are left.

  Shown: a schema that is described and read back is the schema without default values and
  hash, for schemas without nested arrays and arrays of bounded strings; the passes end; and
  the description holds every type that is reached, once and in order.
\<close>

section \<open>From a schema to a description\<close>

fun get_base_type_id :: "field_type \<Rightarrow> u8" where
  "get_base_type_id FBool = 15" | "get_base_type_id FInt8 = 2" | "get_base_type_id FInt16 = 4"
| "get_base_type_id FInt32 = 6" | "get_base_type_id FInt64 = 8" | "get_base_type_id FUint8 = 3"
| "get_base_type_id FUint16 = 5" | "get_base_type_id FUint32 = 7" | "get_base_type_id FUint64 = 9"
| "get_base_type_id FFloat32 = 10" | "get_base_type_id FFloat64 = 11"
| "get_base_type_id FString = 17" | "get_base_type_id (FBoundedString _) = 17"
| "get_base_type_id (FMessage _) = 1"
| "get_base_type_id (FArray inner _) = get_base_type_id inner"
| "get_base_type_id (FSequence inner) = get_base_type_id inner"
| "get_base_type_id (FBoundedSequence inner _) = get_base_type_id inner"

fun field_type_to_description :: "field_type \<Rightarrow> field_type_description" where
  "field_type_to_description (FBoundedString capacity) =
     \<lparr>ftd_type_id = 17, ftd_capacity = 0, ftd_string_capacity = word_of_nat capacity, ftd_nested_type_name = []\<rparr>"
| "field_type_to_description (FMessage schema) = ftd_nested 1 (ms_type_name schema)"
| "field_type_to_description (FArray inner n) =
     (let array_type_id = get_base_type_id inner + 48
      in case inner of FMessage schema \<Rightarrow> ftd_nested_array array_type_id (word_of_nat n) (ms_type_name schema)
         | _ \<Rightarrow> ftd_array array_type_id (word_of_nat n))"
| "field_type_to_description (FSequence inner) =
     (let seq_type_id = get_base_type_id inner + 144
      in case inner of FMessage schema \<Rightarrow> ftd_nested seq_type_id (ms_type_name schema)
         | _ \<Rightarrow> ftd_primitive seq_type_id)"
| "field_type_to_description (FBoundedSequence inner capacity) =
     (let seq_type_id = get_base_type_id inner + 96
      in case inner of FMessage schema \<Rightarrow> ftd_nested_array seq_type_id (word_of_nat capacity) (ms_type_name schema)
         | _ \<Rightarrow> ftd_array seq_type_id (word_of_nat capacity))"
| "field_type_to_description t = ftd_primitive (get_base_type_id t)"

definition field_schema_to_description :: "field_schema \<Rightarrow> field_description" where
  "field_schema_to_description f =
     \<lparr>fd_name = fs_name f, fd_type = field_type_to_description (fs_type f), fd_default_value = []\<rparr>"

definition to_type_description :: "message_schema \<Rightarrow> type_description" where
  "to_type_description s =
     \<lparr>td_type_name = ms_type_name s, td_fields = map field_schema_to_description (ms_fields s)\<rparr>"

text \<open>The types collected so far, and the names that were met.\<close>

type_synonym collected = "type_description list \<times> string list"

fun collect_schema_types :: "message_schema \<Rightarrow> collected \<Rightarrow> collected"
  and collect_field_type_references :: "field_type \<Rightarrow> collected \<Rightarrow> collected" where
  "collect_schema_types schema c =
     foldl (\<lambda>c f. collect_field_type_references (fs_type f) c) c (ms_fields schema)"
| "collect_field_type_references (FMessage schema) c =
     (if ms_type_name schema \<in> set (snd c) then c
      else let c' = collect_schema_types schema (fst c, ms_type_name schema # snd c)
           in (fst c' @ [to_type_description schema], snd c'))"
| "collect_field_type_references (FArray inner _) c = collect_field_type_references inner c"
| "collect_field_type_references (FSequence inner) c = collect_field_type_references inner c"
| "collect_field_type_references (FBoundedSequence inner _) c = collect_field_type_references inner c"
| "collect_field_type_references _ c = c"

definition to_type_description_msg :: "message_schema \<Rightarrow> type_description_msg" where
  "to_type_description_msg s =
     \<lparr>tm_type_description = to_type_description s,
      tm_referenced = sort_key td_type_name (fst (collect_schema_types s ([], [])))\<rparr>"

definition compute_type_hash :: "(json \<Rightarrow> string) \<Rightarrow> (string \<Rightarrow> bytes) \<Rightarrow> message_schema \<Rightarrow> bytes" where
  "compute_type_hash compact sha256 s = calculate_hash compact sha256 (to_type_description_msg s)"

section \<open>From a description to a schema\<close>

text \<open>The errors with the data their texts are made of.\<close>

datatype describe_error =
    BadTypeName string
  | MissingType string
  | UnknownTypeId u8
  | CannotResolve "string list"

definition base_field_type :: "field_type_description \<Rightarrow> (string \<rightharpoonup> message_schema) \<Rightarrow> (field_type, describe_error) res" where
  "base_field_type ftd type_map =
     (let b = tid_base_type (ftd_type_id ftd)
      in if b = 15 then Ok FBool else if b = 2 then Ok FInt8 else if b = 4 then Ok FInt16
         else if b = 6 then Ok FInt32 else if b = 8 then Ok FInt64 else if b = 3 then Ok FUint8
         else if b = 5 then Ok FUint16 else if b = 7 then Ok FUint32 else if b = 9 then Ok FUint64
         else if b = 10 then Ok FFloat32 else if b = 11 then Ok FFloat64
         else if b = 17 then
           (if 0 < ftd_string_capacity ftd then Ok (FBoundedString (unat (ftd_string_capacity ftd))) else Ok FString)
         else if b = 1 then
           (case type_map (ftd_nested_type_name ftd) of
              None \<Rightarrow> Err (MissingType (ftd_nested_type_name ftd)) | Some schema \<Rightarrow> Ok (FMessage schema))
         else Err (UnknownTypeId b))"

definition field_type_description_to_type ::
    "field_type_description \<Rightarrow> (string \<rightharpoonup> message_schema) \<Rightarrow> (field_type, describe_error) res" where
  "field_type_description_to_type ftd type_map =
     res_bind (base_field_type ftd type_map)
       (\<lambda>base. Ok (if tid_is_array (ftd_type_id ftd) then FArray base (unat (ftd_capacity ftd))
                   else if tid_is_bounded_sequence (ftd_type_id ftd) then FBoundedSequence base (unat (ftd_capacity ftd))
                   else if tid_is_unbounded_sequence (ftd_type_id ftd) then FSequence base
                   else base))"

definition field_description_to_schema ::
    "(string \<rightharpoonup> message_schema) \<Rightarrow> field_description \<Rightarrow> (field_schema, describe_error) res" where
  "field_description_to_schema type_map fd =
     res_bind (field_type_description_to_type (fd_type fd) type_map) (\<lambda>t. Ok (FieldSchema (fd_name fd) t None))"

definition name_parts :: "string \<Rightarrow> (string \<times> string, describe_error) res" where
  "name_parts type_name =
     (case split_on CHR ''/'' type_name of [package, kind, name] \<Rightarrow> Ok (package, name) | _ \<Rightarrow> Err (BadTypeName type_name))"

definition type_description_to_schema_partial :: "type_description \<Rightarrow> (message_schema, describe_error) res" where
  "type_description_to_schema_partial td =
     res_bind (name_parts (td_type_name td)) (\<lambda>(package, name). Ok (MessageSchema (td_type_name td) package name [] None))"

text \<open>\<open>collect::<Result<Vec<_>, _>>()\<close>: the results in order, or the first error.\<close>

fun res_collect :: "('a, 'e) res list \<Rightarrow> ('a list, 'e) res" where
  "res_collect [] = Ok []"
| "res_collect (x # xs) = res_bind x (\<lambda>y. res_bind (res_collect xs) (\<lambda>ys. Ok (y # ys)))"

definition type_description_to_schema_full ::
    "(string \<rightharpoonup> message_schema) \<Rightarrow> type_description \<Rightarrow> (message_schema, describe_error) res" where
  "type_description_to_schema_full type_map td =
     res_bind (name_parts (td_type_name td))
       (\<lambda>(package, name).
          res_bind (res_collect (map (field_description_to_schema type_map) (td_fields td)))
            (\<lambda>fields. Ok (MessageSchema (td_type_name td) package name fields None)))"

text \<open>One \<open>retain\<close> over the types that are left: what stays, and the types resolved so far.\<close>

fun retain_pass :: "type_description list \<Rightarrow> (string \<rightharpoonup> message_schema) \<Rightarrow>
    type_description list \<times> (string \<rightharpoonup> message_schema) \<times> bool" where
  "retain_pass [] resolved = ([], resolved, False)"
| "retain_pass (td # rest) resolved =
     (case type_description_to_schema_full resolved td of
        Ok schema \<Rightarrow>
          (case retain_pass rest (resolved(td_type_name td \<mapsto> schema)) of (left, resolved', _) \<Rightarrow> (left, resolved', True))
      | _ \<Rightarrow> (case retain_pass rest resolved of (left, resolved', made_progress) \<Rightarrow> (td # left, resolved', made_progress)))"

lemma retain_pass_length:
  "retain_pass tds resolved = (left, resolved', made_progress) \<Longrightarrow>
     (if made_progress then length left < length tds else left = tds)"
  by (induction tds arbitrary: resolved left resolved' made_progress)
    (force split: res.splits prod.splits if_splits)+

function resolve_types :: "type_description list \<Rightarrow> (string \<rightharpoonup> message_schema) \<Rightarrow>
    (string \<rightharpoonup> message_schema, describe_error) res" where
  "resolve_types remaining resolved =
     (if remaining = [] then Ok resolved
      else case retain_pass remaining resolved of
        (left, resolved', made_progress) \<Rightarrow>
          if \<not> made_progress \<and> left \<noteq> [] then Err (CannotResolve (map td_type_name left))
          else resolve_types left resolved')"
  by auto
termination
  by (relation "measure (\<lambda>(remaining, _). length remaining)") (auto dest: retain_pass_length [OF sym] split: if_splits)

declare resolve_types.simps [simp del]

text \<open>The first pass builds schemas without fields; only its errors are used.\<close>

definition type_description_msg_to_schema :: "type_description_msg \<Rightarrow> (message_schema, describe_error) res" where
  "type_description_msg_to_schema msg =
     res_bind (res_collect (map type_description_to_schema_partial (tm_referenced msg)))
       (\<lambda>_. res_bind (resolve_types (tm_referenced msg) Map.empty)
          (\<lambda>resolved. type_description_to_schema_full resolved (tm_type_description msg)))"

section \<open>What a schema reaches\<close>

fun reach_type :: "field_type \<Rightarrow> message_schema set" and reach :: "message_schema \<Rightarrow> message_schema set" where
  "reach_type (FMessage s) = insert s (reach s)"
| "reach_type (FArray t _) = reach_type t"
| "reach_type (FSequence t) = reach_type t"
| "reach_type (FBoundedSequence t _) = reach_type t"
| "reach_type _ = {}"
| "reach s = (\<Union>f\<in>set (ms_fields s). reach_type (fs_type f))"

declare reach.simps [simp del]

lemma reach_smaller: "u \<in> reach_type t \<Longrightarrow> size u < size t" and reach_schema_smaller: "u \<in> reach s \<Longrightarrow> size u < size s"
proof (induction t and s rule: reach_type_reach.induct)
  case (6 s)
  then show ?case by (force simp: reach.simps dest: size_ms_field intro: less_trans)
qed auto

lemma reach_trans: "u \<in> reach_type t \<Longrightarrow> reach u \<subseteq> reach_type t" and reach_schema_trans: "u \<in> reach s \<Longrightarrow> reach u \<subseteq> reach s"
proof (induction t and s rule: reach_type_reach.induct)
  case (6 s)
  then show ?case unfolding reach.simps [of s] by blast
qed auto

text \<open>The types a field names itself.\<close>

fun direct :: "field_type \<Rightarrow> message_schema set" where
  "direct (FMessage s) = {s}"
| "direct (FArray t _) = direct t"
| "direct (FSequence t) = direct t"
| "direct (FBoundedSequence t _) = direct t"
| "direct _ = {}"

lemma direct_reach: "direct t \<subseteq> reach_type t"
  by (induction t rule: direct.induct) auto

text \<open>
  The types a schema reaches form a closed family in which a name stands for one schema.
\<close>

definition type_family :: "message_schema set \<Rightarrow> bool" where
  "type_family U \<longleftrightarrow> (\<forall>u\<in>U. reach u \<subseteq> U) \<and> inj_on ms_type_name U"

lemma family_closed: "type_family U \<Longrightarrow> u \<in> U \<Longrightarrow> reach u \<subseteq> U"
  by (simp add: type_family_def)

lemma family_same: "type_family U \<Longrightarrow> u \<in> U \<Longrightarrow> v \<in> U \<Longrightarrow> ms_type_name u = ms_type_name v \<Longrightarrow> u = v"
  by (auto simp: type_family_def inj_on_def)

section \<open>What is collected\<close>

text \<open>
  \<open>closed_below U k vis\<close>: of the types met so far those smaller than \<open>k\<close>, which are not being
  collected any more, have all their references met.
\<close>

definition closed_below :: "message_schema set \<Rightarrow> nat \<Rightarrow> string list \<Rightarrow> bool" where
  "closed_below U k vis \<longleftrightarrow> (\<forall>u\<in>U. ms_type_name u \<in> set vis \<and> size u < k \<longrightarrow> (\<forall>v\<in>reach u. ms_type_name v \<in> set vis))"

definition collects_types :: "message_schema set \<Rightarrow> collected \<Rightarrow> collected \<Rightarrow> bool" where
  "collects_types R c c' \<longleftrightarrow>
     (\<exists>new. fst c' = fst c @ map to_type_description new \<and> set (snd c') = set (snd c) \<union> ms_type_name ` set new \<and>
        set new \<subseteq> R \<and> distinct (map ms_type_name new) \<and> ms_type_name ` set new \<inter> set (snd c) = {} \<and>
        (\<forall>v\<in>R. ms_type_name v \<in> set (snd c')) \<and> (\<forall>u\<in>set new. \<forall>v\<in>reach u. ms_type_name v \<in> set (snd c')))"

lemma collects_nothing: "(\<And>v. v \<in> R \<Longrightarrow> ms_type_name v \<in> set (snd c)) \<Longrightarrow> collects_types R c c"
  unfolding collects_types_def by (intro exI [of _ "[]"]) simp

lemma collects_types_trans:
  assumes "collects_types R c c'" and "collects_types S c' c''"
  shows "collects_types (R \<union> S) c c''"
proof -
  obtain m n where "fst c' = fst c @ map to_type_description m" "set (snd c') = set (snd c) \<union> ms_type_name ` set m"
      "set m \<subseteq> R" "distinct (map ms_type_name m)" "ms_type_name ` set m \<inter> set (snd c) = {}"
      "(\<forall>v\<in>R. ms_type_name v \<in> set (snd c'))" "\<forall>u\<in>set m. \<forall>v\<in>reach u. ms_type_name v \<in> set (snd c')"
    and "fst c'' = fst c' @ map to_type_description n" "set (snd c'') = set (snd c') \<union> ms_type_name ` set n"
      "set n \<subseteq> S" "distinct (map ms_type_name n)" "ms_type_name ` set n \<inter> set (snd c') = {}"
      "(\<forall>v\<in>S. ms_type_name v \<in> set (snd c''))" "\<forall>u\<in>set n. \<forall>v\<in>reach u. ms_type_name v \<in> set (snd c'')"
    using assms unfolding collects_types_def by metis
  then show ?thesis unfolding collects_types_def by (intro exI [of _ "m @ n"]) auto
qed

lemma collects_closed_below:
  assumes "type_family U" and "R \<subseteq> U" and "closed_below U k (snd c)" and "collects_types R c c'"
  shows "closed_below U k (snd c')"
proof -
  obtain new where new: "set (snd c') = set (snd c) \<union> ms_type_name ` set new" "set new \<subseteq> R"
      "\<forall>u\<in>set new. \<forall>v\<in>reach u. ms_type_name v \<in> set (snd c')"
    using assms(4) unfolding collects_types_def by metis
  have "ms_type_name x \<in> set (snd c')" if u: "u \<in> U" "ms_type_name u \<in> set (snd c')" "size u < k" and x: "x \<in> reach u" for u x
  proof (cases "ms_type_name u \<in> set (snd c)")
    case True
    then show ?thesis using assms(3) u x new(1) unfolding closed_below_def by blast
  next
    case False
    then obtain v where "v \<in> set new" "ms_type_name u = ms_type_name v" using u(2) new(1) by auto
    then have "u \<in> set new" using family_same [OF assms(1) u(1)] new(2) assms(2) by blast
    then show ?thesis using new(3) x by blast
  qed
  then show ?thesis by (auto simp: closed_below_def)
qed

lemma closed_below_mono: "closed_below U k vis \<Longrightarrow> l \<le> k \<Longrightarrow> closed_below U l vis"
  by (auto simp: closed_below_def)

lemma collects_fold:
  assumes "type_family U" and "\<And>f. f \<in> set fs \<Longrightarrow> reach_type (fs_type f) \<subseteq> U" and "closed_below U k (snd c)"
    and "\<And>f c. f \<in> set fs \<Longrightarrow> closed_below U k (snd c) \<Longrightarrow> collects_types (reach_type (fs_type f)) c (g c f)"
  shows "collects_types (\<Union>f\<in>set fs. reach_type (fs_type f)) c (foldl g c fs)"
  using assms(2-4)
proof (induction fs arbitrary: c)
  case Nil
  then show ?case by (auto intro: collects_nothing)
next
  case (Cons f fs)
  have one: "collects_types (reach_type (fs_type f)) c (g c f)" using Cons.prems by simp
  have "closed_below U k (snd (g c f))"
    using collects_closed_below [OF assms(1) _ Cons.prems(2) one] Cons.prems(1) by simp
  then have "collects_types (\<Union>f\<in>set fs. reach_type (fs_type f)) (g c f) (foldl g (g c f) fs)"
    using Cons.prems(1,3) by (intro Cons.IH) simp_all
  from collects_types_trans [OF one this] show ?case by simp
qed

lemma collects_reached:
  assumes "type_family U"
  shows "reach s \<subseteq> U \<Longrightarrow> closed_below U (size s) (snd c) \<Longrightarrow> collects_types (reach s) c (collect_schema_types s c)"
    and "reach_type t \<subseteq> U \<Longrightarrow> closed_below U (size t) (snd c) \<Longrightarrow> collects_types (reach_type t) c (collect_field_type_references t c)"
proof (induction s c and t c rule: collect_schema_types_collect_field_type_references.induct)
  case (1 schema c)
  show ?case
    unfolding reach.simps collect_schema_types.simps
  proof (rule collects_fold [OF assms])
    show "closed_below U (size schema) (snd c)" by (rule "1.prems")
    show "reach_type (fs_type f) \<subseteq> U" if "f \<in> set (ms_fields schema)" for f
      using "1.prems"(1) that by (auto simp: reach.simps)
    then show "collects_types (reach_type (fs_type f)) c (collect_field_type_references (fs_type f) c)"
      if "f \<in> set (ms_fields schema)" and "closed_below U (size schema) (snd c)" for f c
      using "1.IH" that closed_below_mono size_ms_field [OF that(1)] by (metis less_imp_le)
  qed
next
  case (2 schema c)
  show ?case
  proof (cases "ms_type_name schema \<in> set (snd c)")
    case True
    then have "ms_type_name v \<in> set (snd c)" if "v \<in> insert schema (reach schema)" for v
      using that "2.prems" by (auto simp: closed_below_def)
    with True show ?thesis by (auto intro: collects_nothing)
  next
    case False
    let ?c = "(fst c, ms_type_name schema # snd c)"
    have "closed_below U (size schema) (snd ?c)"
      unfolding closed_below_def
    proof (intro ballI impI)
      fix u v assume u: "u \<in> U" "ms_type_name u \<in> set (snd ?c) \<and> size u < size schema" "v \<in> reach u"
      then have "ms_type_name u \<noteq> ms_type_name schema"
        using family_same [OF assms u(1), of schema] "2.prems"(1) by auto
      then show "ms_type_name v \<in> set (snd ?c)"
        using u "2.prems"(2) by (auto simp: closed_below_def)
    qed
    then have "collects_types (reach schema) ?c (collect_schema_types schema ?c)"
      using "2.IH" [OF False] "2.prems"(1) by simp
    then obtain new where new: "fst (collect_schema_types schema ?c) = fst c @ map to_type_description new"
        "set (snd (collect_schema_types schema ?c)) = insert (ms_type_name schema) (set (snd c)) \<union> ms_type_name ` set new"
        "set new \<subseteq> reach schema" "distinct (map ms_type_name new)"
        "ms_type_name ` set new \<inter> insert (ms_type_name schema) (set (snd c)) = {}"
        "\<forall>v\<in>reach schema. ms_type_name v \<in> set (snd (collect_schema_types schema ?c))"
        "\<forall>u\<in>set new. \<forall>v\<in>reach u. ms_type_name v \<in> set (snd (collect_schema_types schema ?c))"
      unfolding collects_types_def by auto
    then show ?thesis
      using False unfolding collects_types_def collect_field_type_references.simps reach_type.simps Let_def
      by (intro exI [of _ "new @ [schema]"]) auto
  qed
qed (auto simp: closed_below_def intro: collects_nothing)

lemma collected_types:
  assumes "type_family (reach s)"
  obtains us where "fst (collect_schema_types s ([], [])) = map to_type_description us"
    and "set us = reach s" and "distinct (map ms_type_name us)"
proof -
  have "collects_types (reach s) ([], []) (collect_schema_types s ([], []))"
    by (rule collects_reached(1) [OF assms]) (simp_all add: closed_below_def)
  then obtain us where us: "fst (collect_schema_types s ([], [])) = map to_type_description us"
      "set us \<subseteq> reach s" "distinct (map ms_type_name us)" "\<forall>v\<in>reach s. ms_type_name v \<in> ms_type_name ` set us"
    unfolding collects_types_def by auto
  have "reach s \<subseteq> set us"
  proof
    fix v assume v: "v \<in> reach s"
    then obtain u where "u \<in> set us" "ms_type_name v = ms_type_name u" using us(4) by blast
    then show "v \<in> set us" using family_same [OF assms v] us(2) by blast
  qed
  with us that show thesis by blast
qed

section \<open>Schemas that can be described\<close>

text \<open>What of a schema a description keeps: no default values and no hash.\<close>

fun strip_type :: "field_type \<Rightarrow> field_type" and strip_schema :: "message_schema \<Rightarrow> message_schema" where
  "strip_type (FMessage s) = FMessage (strip_schema s)"
| "strip_type (FArray t n) = FArray (strip_type t) n"
| "strip_type (FSequence t) = FSequence (strip_type t)"
| "strip_type (FBoundedSequence t n) = FBoundedSequence (strip_type t) n"
| "strip_type t = t"
| "strip_schema s =
     MessageSchema (ms_type_name s) (ms_package s) (ms_name s)
       (map (\<lambda>f. FieldSchema (fs_name f) (strip_type (fs_type f)) None) (ms_fields s)) None"

declare strip_schema.simps [simp del]

text \<open>
  Elements of arrays and sequences: anything but another array or sequence and a bounded
  string. Lengths are \<open>usize\<close> and the bound of a string is not zero.
\<close>

fun describable_element :: "field_type \<Rightarrow> bool" where
  "describable_element (FBoundedString _) = False"
| "describable_element (FArray _ _) = False"
| "describable_element (FSequence _) = False"
| "describable_element (FBoundedSequence _ _) = False"
| "describable_element _ = True"

fun describable_type :: "field_type \<Rightarrow> bool" where
  "describable_type (FBoundedString n) = (0 < n \<and> n < 2 ^ 64)"
| "describable_type (FArray t n) = (describable_element t \<and> n < 2 ^ 64)"
| "describable_type (FSequence t) = describable_element t"
| "describable_type (FBoundedSequence t n) = (describable_element t \<and> n < 2 ^ 64)"
| "describable_type _ = True"

definition well_named :: "message_schema \<Rightarrow> bool" where
  "well_named s \<longleftrightarrow> name_parts (ms_type_name s) = Ok (ms_package s, ms_name s)"

definition describable :: "message_schema \<Rightarrow> bool" where
  "describable s \<longleftrightarrow> well_named s \<and> list_all (\<lambda>f. describable_type (fs_type f)) (ms_fields s)"

section \<open>Reading a description\<close>

text \<open>The types of the family that are in the map are in it as themselves, without defaults.\<close>

definition right_map :: "message_schema set \<Rightarrow> (string \<rightharpoonup> message_schema) \<Rightarrow> bool" where
  "right_map U m \<longleftrightarrow> (\<forall>u\<in>U. m (ms_type_name u) = None \<or> m (ms_type_name u) = Some (strip_schema u))"

definition deps_known :: "(string \<rightharpoonup> message_schema) \<Rightarrow> message_schema set \<Rightarrow> bool" where
  "deps_known m R \<longleftrightarrow> (\<forall>u\<in>R. m (ms_type_name u) = Some (strip_schema u))"

lemma unat_cap: "n < 2 ^ 64 \<Longrightarrow> unat (word_of_nat n :: u64) = n"
  by (simp add: unat_of_nat take_bit_nat_eq_self)

lemma word_cap_pos: "0 < n \<Longrightarrow> n < 2 ^ 64 \<Longrightarrow> (0 :: u64) < word_of_nat n"
  using unat_cap [of n] by (metis gr0I unat_0 word_gt_0 less_irrefl)

lemmas tid_defs = tid_base_type_def tid_is_array_def tid_is_bounded_sequence_def tid_is_unbounded_sequence_def

lemma base_id_range: "get_base_type_id e \<in> {1, 2, 3, 4, 5, 6, 7, 8, 9, 10, 11, 15, 17}"
  by (induction e rule: get_base_type_id.induct) simp_all

lemma tid_with_offset:
  assumes "b \<in> {1, 2, 3, 4, 5, 6, 7, 8, 9, 10, 11, 15, 17}" and "off \<in> {0, 48, 96, 144}"
  shows "tid_base_type (b + off) = b" and "tid_is_array (b + off) = (off = 48)"
    and "tid_is_bounded_sequence (b + off) = (off = 96)" and "tid_is_unbounded_sequence (b + off) = (off = 144)"
  using assms by (elim insertE emptyE; simp add: tid_defs word_le_nat_alt)+

lemma element_described:
  assumes "describable_element e" and "deps_known m (direct e)" and "off \<in> {0, 48, 96, 144}"
    and "ftd_type_id d = get_base_type_id e + off" and "ftd_string_capacity d = 0"
    and "\<And>s. e = FMessage s \<Longrightarrow> ftd_nested_type_name d = ms_type_name s"
  shows "base_field_type d m = Ok (strip_type e)" and "tid_is_array (ftd_type_id d) = (off = 48)"
    and "tid_is_bounded_sequence (ftd_type_id d) = (off = 96)" and "tid_is_unbounded_sequence (ftd_type_id d) = (off = 144)"
proof -
  note off = tid_with_offset [OF base_id_range assms(3), of e, folded assms(4)]
  show "tid_is_array (ftd_type_id d) = (off = 48)" "tid_is_bounded_sequence (ftd_type_id d) = (off = 96)"
      "tid_is_unbounded_sequence (ftd_type_id d) = (off = 144)"
    by (rule off)+
  show "base_field_type d m = Ok (strip_type e)"
  proof (cases e)
    case (FMessage s)
    then show ?thesis
      using assms(2) assms(6) [OF FMessage] by (simp add: base_field_type_def off(1) deps_known_def Let_def)
  qed (use assms(1,5) in \<open>simp_all add: base_field_type_def off(1) Let_def\<close>)
qed

lemma single_described:
  assumes "describable_element t" and "deps_known m (direct t)"
  shows "field_type_description_to_type (field_type_to_description t) m = Ok (strip_type t)"
proof -
  have "ftd_type_id (field_type_to_description t) = get_base_type_id t + 0" "ftd_string_capacity (field_type_to_description t) = 0"
    "t = FMessage s \<Longrightarrow> ftd_nested_type_name (field_type_to_description t) = ms_type_name s" for s
    using assms(1) by (cases t; simp add: ftd_primitive_def ftd_nested_def)+
  from element_described [OF assms(1,2) _ this] show ?thesis
    by (simp add: field_type_description_to_type_def)
qed

lemma field_type_described:
  assumes "describable_type t" and "deps_known m (direct t)"
  shows "field_type_description_to_type (field_type_to_description t) m = Ok (strip_type t)"
proof (cases t)
  case (FArray e n)
  have "ftd_type_id (field_type_to_description t) = get_base_type_id e + 48" "ftd_string_capacity (field_type_to_description t) = 0"
    "e = FMessage s \<Longrightarrow> ftd_nested_type_name (field_type_to_description t) = ms_type_name s"
    "ftd_capacity (field_type_to_description t) = word_of_nat n" for s
    using FArray by (simp_all add: ftd_array_def ftd_nested_array_def Let_def split: field_type.split)
  note facts = this
  then show ?thesis
    using element_described [OF _ _ _ facts(1-3)] FArray assms by (simp add: field_type_description_to_type_def unat_cap)
next
  case (FSequence e)
  have "ftd_type_id (field_type_to_description t) = get_base_type_id e + 144" "ftd_string_capacity (field_type_to_description t) = 0"
    "e = FMessage s \<Longrightarrow> ftd_nested_type_name (field_type_to_description t) = ms_type_name s" for s
    using FSequence by (simp_all add: ftd_primitive_def ftd_nested_def Let_def split: field_type.split)
  note facts = this
  then show ?thesis
    using element_described [OF _ _ _ facts] FSequence assms by (simp add: field_type_description_to_type_def)
next
  case (FBoundedSequence e n)
  have "ftd_type_id (field_type_to_description t) = get_base_type_id e + 96" "ftd_string_capacity (field_type_to_description t) = 0"
    "e = FMessage s \<Longrightarrow> ftd_nested_type_name (field_type_to_description t) = ms_type_name s"
    "ftd_capacity (field_type_to_description t) = word_of_nat n" for s
    using FBoundedSequence by (simp_all add: ftd_array_def ftd_nested_array_def Let_def split: field_type.split)
  note facts = this
  then show ?thesis
    using element_described [OF _ _ _ facts(1-3)] FBoundedSequence assms by (simp add: field_type_description_to_type_def unat_cap)
next
  case (FBoundedString n)
  then show ?thesis
    using assms by (simp add: field_type_description_to_type_def base_field_type_def tid_defs unat_cap word_cap_pos Let_def)
qed (use assms single_described [of t m] in simp_all)

text \<open>With a reference that is not known yet the conversion fails.\<close>

lemma field_type_missing:
  assumes "describable_type t" and "right_map U m" and "direct t \<subseteq> U" and "\<not> deps_known m (direct t)"
  shows "\<exists>e. field_type_description_to_type (field_type_to_description t) m = Err e"
proof -
  have one: "\<exists>e. field_type_description_to_type d m = Err e"
    if "ftd_type_id d = get_base_type_id (FMessage s) + off" "off \<in> {0, 48, 96, 144}" "ftd_nested_type_name d = ms_type_name s"
      "m (ms_type_name s) = None" for d s off
    using tid_with_offset(1) [OF base_id_range that(2), of "FMessage s"] that
    by (simp add: field_type_description_to_type_def base_field_type_def Let_def)
  obtain s where s: "s \<in> direct t" "m (ms_type_name s) = None"
    using assms(2-4) unfolding deps_known_def right_map_def by blast
  consider "t = FMessage s" | n where "t = FArray (FMessage s) n" | "t = FSequence (FMessage s)"
    | n where "t = FBoundedSequence (FMessage s) n"
  proof (cases t)
    case (FMessage u)
    with s that show ?thesis by simp
  next
    case (FArray e n)
    with s that assms(1) show ?thesis by (cases e) simp_all
  next
    case (FSequence e)
    with s that assms(1) show ?thesis by (cases e) simp_all
  next
    case (FBoundedSequence e n)
    with s that assms(1) show ?thesis by (cases e) simp_all
  qed (use s in simp_all)
  then show ?thesis
  proof cases
    case 1
    then show ?thesis using s(2) by (intro one [of _ s 0]) (simp_all add: ftd_nested_def)
  next
    case 2
    then show ?thesis using s(2) by (intro one [of _ s 48]) (simp_all add: ftd_nested_array_def Let_def)
  next
    case 3
    then show ?thesis using s(2) by (intro one [of _ s 144]) (simp_all add: ftd_nested_def Let_def)
  next
    case 4
    then show ?thesis using s(2) by (intro one [of _ s 96]) (simp_all add: ftd_nested_array_def Let_def)
  qed
qed

definition schema_deps :: "message_schema \<Rightarrow> message_schema set" where
  "schema_deps s = (\<Union>f\<in>set (ms_fields s). direct (fs_type f))"

lemma schema_deps_reach: "schema_deps s \<subseteq> reach s"
  using direct_reach by (force simp: schema_deps_def reach.simps)

lemma res_collect_ok: "(\<And>x. x \<in> set xs \<Longrightarrow> f x = Ok (g x)) \<Longrightarrow> res_collect (map f xs) = Ok (map g xs)"
  by (induction xs) simp_all

lemma res_collect_err:
  "\<lbrakk>x \<in> set xs; \<exists>e. f x = Err e; \<And>x. x \<in> set xs \<Longrightarrow> f x \<noteq> Panic\<rbrakk> \<Longrightarrow> \<exists>e. res_collect (map f xs) = Err e"
proof (induction xs)
  case (Cons y ys)
  show ?case
  proof (cases "f y")
    case (Ok a)
    then have "\<exists>e. res_collect (map f ys) = Err e" using Cons by auto
    with Ok show ?thesis by auto
  qed (use Cons in auto)
qed simp

lemma schema_described:
  assumes "describable s" and "deps_known m (schema_deps s)"
  shows "type_description_to_schema_full m (to_type_description s) = Ok (strip_schema s)"
proof -
  have "field_description_to_schema m (field_schema_to_description f) = Ok (FieldSchema (fs_name f) (strip_type (fs_type f)) None)"
    if "f \<in> set (ms_fields s)" for f
    using field_type_described [of "fs_type f" m] assms that
    by (auto simp: describable_def list_all_iff deps_known_def schema_deps_def field_description_to_schema_def field_schema_to_description_def)
  then have "res_collect (map (field_description_to_schema m) (map field_schema_to_description (ms_fields s))) =
      Ok (map (\<lambda>f. FieldSchema (fs_name f) (strip_type (fs_type f)) None) (ms_fields s))"
    unfolding map_map by (intro res_collect_ok) simp
  then show ?thesis
    using assms(1) by (simp add: type_description_to_schema_full_def to_type_description_def strip_schema.simps describable_def well_named_def)
qed

lemma field_never_panics: "field_description_to_schema m fd \<noteq> Panic"
  by (auto simp: field_description_to_schema_def field_type_description_to_type_def base_field_type_def Let_def split: option.splits)

lemma schema_missing:
  assumes "describable s" and "right_map U m" and "schema_deps s \<subseteq> U" and "\<not> deps_known m (schema_deps s)"
  shows "\<exists>e. type_description_to_schema_full m (to_type_description s) = Err e"
proof -
  obtain f where f: "f \<in> set (ms_fields s)" "\<not> deps_known m (direct (fs_type f))"
    using assms(4) by (auto simp: deps_known_def schema_deps_def)
  have "\<exists>e. field_type_description_to_type (field_type_to_description (fs_type f)) m = Err e"
    using assms f by (intro field_type_missing [of _ U]) (auto simp: describable_def list_all_iff schema_deps_def)
  then have "\<exists>e. field_description_to_schema m (field_schema_to_description f) = Err e"
    by (auto simp: field_description_to_schema_def field_schema_to_description_def)
  then have "\<exists>e. res_collect (map (field_description_to_schema m) (map field_schema_to_description (ms_fields s))) = Err e"
    using f(1) by (intro res_collect_err) (auto simp: field_never_panics)
  then show ?thesis
    using assms(1) by (auto simp: type_description_to_schema_full_def to_type_description_def describable_def well_named_def)
qed

section \<open>The passes resolve everything\<close>

lemma right_map_update:
  assumes "type_family U" and "u \<in> U" and "right_map U m"
  shows "right_map U (m(ms_type_name u \<mapsto> strip_schema u))"
  unfolding right_map_def
proof
  fix v assume "v \<in> U"
  then show "(m(ms_type_name u \<mapsto> strip_schema u)) (ms_type_name v) = None \<or>
      (m(ms_type_name u \<mapsto> strip_schema u)) (ms_type_name v) = Some (strip_schema v)"
    using assms(3) family_same [OF assms(1,2), of v] by (auto simp: right_map_def)
qed

lemma right_map_known: "right_map U m \<Longrightarrow> u \<in> U \<Longrightarrow> m (ms_type_name u) \<noteq> None \<Longrightarrow> m (ms_type_name u) = Some (strip_schema u)"
  by (auto simp: right_map_def)

lemma deps_known_mono:
  assumes "right_map U m'" and "R \<subseteq> U" and "\<And>u. u \<in> U \<Longrightarrow> m (ms_type_name u) \<noteq> None \<Longrightarrow> m' (ms_type_name u) \<noteq> None"
    and "deps_known m R"
  shows "deps_known m' R"
  using assms right_map_known [OF assms(1)] unfolding deps_known_def by (metis option.distinct(1) subsetD)

lemma retain_pass_correct:
  assumes "type_family U" and "\<And>u. u \<in> U \<Longrightarrow> describable u" and "set us \<subseteq> U" and "right_map U m"
  shows "\<exists>left m' progress. retain_pass (map to_type_description us) m = (map to_type_description left, m', progress) \<and>
     set left \<subseteq> set us \<and> right_map U m' \<and> (\<forall>u\<in>U. m (ms_type_name u) \<noteq> None \<longrightarrow> m' (ms_type_name u) \<noteq> None) \<and>
     (\<forall>u\<in>set us. u \<in> set left \<or> m' (ms_type_name u) \<noteq> None) \<and>
     (\<forall>u\<in>set us. deps_known m (schema_deps u) \<longrightarrow> progress)"
  using assms(3,4)
proof (induction us arbitrary: m)
  case Nil
  then show ?case by (intro exI [of _ "[]"] exI [of _ m] exI [of _ False]) simp
next
  case (Cons u us)
  have u: "u \<in> U" "describable u" "schema_deps u \<subseteq> U"
    using Cons.prems(1) assms(2) schema_deps_reach [of u] family_closed [OF assms(1), of u] by auto
  have us: "set us \<subseteq> U" using Cons.prems(1) by simp
  show ?case
  proof (cases "deps_known m (schema_deps u)")
    case True
    let ?m = "m(ms_type_name u \<mapsto> strip_schema u)"
    have full: "type_description_to_schema_full m (to_type_description u) = Ok (strip_schema u)"
      by (rule schema_described [OF u(2) True])
    have upd: "m(td_type_name (to_type_description u) \<mapsto> strip_schema u) = ?m" by (simp add: to_type_description_def)
    obtain left m' progress where *: "retain_pass (map to_type_description us) ?m = (map to_type_description left, m', progress)"
        "set left \<subseteq> set us" "right_map U m'" "\<forall>v\<in>U. ?m (ms_type_name v) \<noteq> None \<longrightarrow> m' (ms_type_name v) \<noteq> None"
        "\<forall>v\<in>set us. v \<in> set left \<or> m' (ms_type_name v) \<noteq> None"
      using Cons.IH [OF us right_map_update [OF assms(1) u(1) Cons.prems(2)]] by blast
    then have "m' (ms_type_name u) \<noteq> None" using u(1) by auto
    with * show ?thesis
      by (intro exI [of _ left] exI [of _ m'] exI [of _ True]) (auto simp: full upd)
  next
    case False
    obtain e where full: "type_description_to_schema_full m (to_type_description u) = Err e"
      using schema_missing [OF u(2) Cons.prems(2) u(3) False] by blast
    obtain left m' progress where *: "retain_pass (map to_type_description us) m = (map to_type_description left, m', progress)"
        "set left \<subseteq> set us" "right_map U m'" "\<forall>v\<in>U. m (ms_type_name v) \<noteq> None \<longrightarrow> m' (ms_type_name v) \<noteq> None"
        "\<forall>v\<in>set us. v \<in> set left \<or> m' (ms_type_name v) \<noteq> None" "\<forall>v\<in>set us. deps_known m (schema_deps v) \<longrightarrow> progress"
      using Cons.IH [OF us Cons.prems(2)] by blast
    with False show ?thesis
      by (intro exI [of _ "u # left"] exI [of _ m'] exI [of _ progress]) (auto simp: full)
  qed
qed

lemma resolve_types_correct:
  assumes "type_family U" and "\<And>u. u \<in> U \<Longrightarrow> describable u" and "set us \<subseteq> U" and "right_map U m"
    and "\<And>u. u \<in> U \<Longrightarrow> u \<in> set us \<or> m (ms_type_name u) \<noteq> None"
  shows "\<exists>m'. resolve_types (map to_type_description us) m = Ok m' \<and> deps_known m' U"
  using assms(3-5)
proof (induction "length us" arbitrary: us m rule: less_induct)
  case less
  show ?case
  proof (cases "us = []")
    case True
    then have "deps_known m U" using less.prems right_map_known [of U m] by (simp add: deps_known_def)
    with True show ?thesis by (simp add: resolve_types.simps)
  next
    case False
    obtain left m' progress where pass: "retain_pass (map to_type_description us) m = (map to_type_description left, m', progress)"
        "set left \<subseteq> set us" "right_map U m'" "\<forall>v\<in>U. m (ms_type_name v) \<noteq> None \<longrightarrow> m' (ms_type_name v) \<noteq> None"
        "\<forall>v\<in>set us. v \<in> set left \<or> m' (ms_type_name v) \<noteq> None" "\<forall>v\<in>set us. deps_known m (schema_deps v) \<longrightarrow> progress"
      using retain_pass_correct [OF assms(1,2) less.prems(1,2)] by blast
    obtain u where u: "u \<in> set us" "\<And>v. v \<in> set us \<Longrightarrow> size u \<le> size v"
      using False ex_min_if_finite [of "size ` set us"] by (metis List.finite_set arg_min_if_finite(1) arg_min_least set_empty)
    have "m (ms_type_name v) = Some (strip_schema v)" if "v \<in> schema_deps u" for v
    proof -
      have v: "v \<in> reach u" using that schema_deps_reach by blast
      then have "v \<notin> set us" using reach_schema_smaller u(2) by force
      moreover have "v \<in> U" using v family_closed [OF assms(1)] u(1) less.prems(1) by blast
      ultimately show ?thesis using less.prems(3) right_map_known [OF less.prems(2)] by blast
    qed
    then have "deps_known m (schema_deps u)" by (simp add: deps_known_def)
    then have "progress" using pass(6) u(1) by blast
    moreover from this have "length left < length us" using retain_pass_length [OF pass(1)] by simp
    moreover have "\<exists>m''. resolve_types (map to_type_description left) m' = Ok m'' \<and> deps_known m'' U"
    proof (rule less.hyps)
      show "length left < length us" by fact
      show "set left \<subseteq> U" using pass(2) less.prems(1) by blast
      show "v \<in> set left \<or> m' (ms_type_name v) \<noteq> None" if "v \<in> U" for v
        using pass(4,5) less.prems(3) [OF that] that by blast
    qed (rule pass(3))
    ultimately show ?thesis using False pass(1) by (simp add: resolve_types.simps [of "map to_type_description us"])
  qed
qed

section \<open>Properties\<close>

lemma insort_key_map: "insort_key f (g x) (map g xs) = map g (insort_key (\<lambda>x. f (g x)) x xs)"
  by (induction xs) simp_all

lemma sort_key_map: "sort_key f (map g xs) = map g (sort_key (\<lambda>x. f (g x)) xs)"
  by (induction xs) (simp_all add: insort_key_map)

lemma td_type_name_of [simp]: "td_type_name (to_type_description s) = ms_type_name s"
  by (simp add: to_type_description_def)

lemma referenced_types:
  assumes "type_family (reach s)"
  obtains us where "tm_referenced (to_type_description_msg s) = map to_type_description us"
    and "set us = reach s" and "distinct (map ms_type_name us)" and "sorted (map ms_type_name us)"
proof -
  obtain us where us: "fst (collect_schema_types s ([], [])) = map to_type_description us" "set us = reach s"
      "distinct (map ms_type_name us)"
    by (rule collected_types [OF assms])
  show thesis
  proof (rule that)
    show "tm_referenced (to_type_description_msg s) = map to_type_description (sort_key ms_type_name us)"
      unfolding to_type_description_msg_def us(1) by (simp add: sort_key_map)
    show "distinct (map ms_type_name (sort_key ms_type_name us))"
      using us(3) by (metis distinct_map distinct_sort set_sort)
  qed (simp_all add: us(2))
qed

text \<open>
  C8: The description of a schema holds the description of the type itself and, once each and
  in the order of their names, those of exactly the types it reaches through fields, arrays
  and sequences, if a name means one type in it.
\<close>

theorem description_exact:
  assumes "type_family (reach s)"
  shows "\<exists>us. to_type_description_msg s =
      \<lparr>tm_type_description = to_type_description s, tm_referenced = map to_type_description us\<rparr> \<and>
    set us = reach s \<and> distinct (map ms_type_name us) \<and> sorted (map ms_type_name us)"
  by (rule referenced_types [OF assms]) (force simp: to_type_description_msg_def)

definition sample_inner :: message_schema where
  "sample_inner = MessageSchema ''p/msg/A'' ''p'' ''A'' [FieldSchema ''x'' FFloat64 None] None"

definition sample_outer :: message_schema where
  "sample_outer = MessageSchema ''p/msg/B'' ''p'' ''B''
     [FieldSchema ''a'' (FMessage sample_inner) None, FieldSchema ''as'' (FSequence (FMessage sample_inner)) None] None"

lemma sample_reach: "reach sample_outer = {sample_inner}" "reach sample_inner = {}"
  by (auto simp: reach.simps sample_outer_def sample_inner_def)

lemma sample_family: "type_family (reach sample_outer)"
  by (simp add: type_family_def sample_reach)

lemma description_exact_witness:
  "\<exists>us. to_type_description_msg sample_outer =
      \<lparr>tm_type_description = to_type_description sample_outer, tm_referenced = map to_type_description us\<rparr> \<and>
    set us = {sample_inner} \<and> distinct (map ms_type_name us) \<and> sorted (map ms_type_name us)"
  using description_exact [OF sample_family] by (simp add: sample_reach)

lemma strip_base_id [simp]: "get_base_type_id (strip_type t) = get_base_type_id t"
  by (induction t rule: get_base_type_id.induct) simp_all

lemma strip_name [simp]: "ms_type_name (strip_schema s) = ms_type_name s"
  by (simp add: strip_schema.simps)

lemma strip_field_description [simp]: "field_type_to_description (strip_type t) = field_type_to_description t"
proof (cases t)
  case (FArray e n)
  then show ?thesis by (cases e) (simp_all add: Let_def)
next
  case (FSequence e)
  then show ?thesis by (cases e) (simp_all add: Let_def)
next
  case (FBoundedSequence e n)
  then show ?thesis by (cases e) (simp_all add: Let_def)
qed simp_all

lemma strip_description [simp]: "to_type_description (strip_schema s) = to_type_description s"
  by (simp add: to_type_description_def strip_schema.simps field_schema_to_description_def comp_def)

lemma strip_collect:
  "collect_schema_types (strip_schema s) c = collect_schema_types s c"
  "collect_field_type_references (strip_type t) c = collect_field_type_references t c"
proof (induction s c and t c rule: collect_schema_types_collect_field_type_references.induct)
  case (1 schema c)
  have "foldl (\<lambda>c f. collect_field_type_references (strip_type (fs_type f)) c) c (ms_fields schema) =
      foldl (\<lambda>c f. collect_field_type_references (fs_type f) c) c (ms_fields schema)"
    by (rule foldl_cong) (use "1.IH" in simp_all)
  then show ?case by (simp add: strip_schema.simps [of schema] foldl_map)
next
  case (2 schema c)
  then show ?case
    unfolding strip_type.simps collect_field_type_references.simps strip_name
    by (cases "ms_type_name schema \<in> set (snd c)") (simp_all del: collect_schema_types.simps)
qed simp_all

lemma strip_same_message: "to_type_description_msg (strip_schema s) = to_type_description_msg s"
  unfolding to_type_description_msg_def strip_collect strip_description ..

lemma described_read_back:
  assumes "type_family (reach s)" and "describable s" and "\<And>u. u \<in> reach s \<Longrightarrow> describable u"
  shows "type_description_msg_to_schema (to_type_description_msg s) = Ok (strip_schema s)"
proof -
  obtain us where us: "tm_referenced (to_type_description_msg s) = map to_type_description us" "set us = reach s"
    by (rule referenced_types [OF assms(1)])
  obtain m where m: "resolve_types (map to_type_description us) Map.empty = Ok m" "deps_known m (reach s)"
    using resolve_types_correct [of "reach s" us Map.empty] assms(1,3) us(2) by (auto simp: right_map_def)
  have "deps_known m (schema_deps s)" using m(2) schema_deps_reach [of s] by (auto simp: deps_known_def)
  note full = schema_described [OF assms(2) this]
  have "res_collect (map type_description_to_schema_partial (map to_type_description us)) =
      Ok (map (\<lambda>u. MessageSchema (ms_type_name u) (ms_package u) (ms_name u) [] None) us)"
    unfolding map_map using assms(3) us(2)
    by (intro res_collect_ok) (auto simp: type_description_to_schema_partial_def describable_def well_named_def)
  then show ?thesis
    using us(1) m(1) full by (simp add: type_description_msg_to_schema_def) (simp add: to_type_description_msg_def)
qed



text \<open>
  Where the structure is lost: nested arrays are described like arrays of their innermost
  elements, and a bounded string in an array like an unbounded one.
\<close>

lemma nested_arrays_flattened:
  assumes "\<And>s. t \<noteq> FMessage s"
  shows "field_type_to_description (FArray (FSequence t) n) = field_type_to_description (FArray t n)"
    and "field_type_to_description (FSequence (FArray t k)) = field_type_to_description (FSequence t)"
  using assms by (simp_all add: Let_def split: field_type.split)

lemma bounded_elements_unbounded:
  "field_type_to_description (FArray (FBoundedString k) n) = field_type_to_description (FArray FString n)"
  "field_type_to_description (FSequence (FBoundedString k)) = field_type_to_description (FSequence FString)"
  by (simp_all add: Let_def)

end
