(* ===== verification/Type_Discovery.thy ===== *)
theory Type_Discovery
  imports Type_Description Message_Codec Serde_Cdr Entity "HOL-Library.Product_Lexorder"
begin

text \<open>
  How a node learns the schema of a topic: \<open>crates/hiroz/src/dynamic/type_description_service.rs\<close>
  (the messages of the service, the registry behind it and its answers),
  \<open>type_description_client.rs\<close>, \<open>discovery.rs\<close> and \<open>type_info.rs\<close>, with \<open>SerdeCdrSerdes\<close> of
  \<open>crates/hiroz/src/msg.rs\<close>, which the service uses on its side of the wire while the client
  uses the CDR traits. The JSON text, SHA-256 and hexadecimal text behind a type hash, the
  version of the crate and the call over the network are arguments.

  Shown: both sides of the wire agree on the messages, and a topic whose publishers serve
  what they announce is discovered with the schema of a publisher, under its type name and
  hash.
\<close>

section \<open>SerdeCdrSerdes\<close>

text \<open>\<open>serialize\<close> unwraps: an error of the serializer panics.\<close>

definition serde_serialize :: "ser_val \<Rightarrow> (bytes, cdr_error) res" where
  "serde_serialize v =
     (case ser_serialize vec_buffer LittleEndian (writer_new vec_buffer cdr_header_le) v of
        Ok w \<Rightarrow> Ok (wr_buffer w) | _ \<Rightarrow> Panic)"

definition serde_deserialize :: "de_ty \<Rightarrow> bytes \<Rightarrow> (ser_val, serdes_error) res" where
  "serde_deserialize t input =
     (if length input < 4 then Err TooShort
      else if take 2 input \<noteq> [0x00, 0x01] then Err (WrongEncapsulationLE (input ! 0) (input ! 1))
      else map_err CdrReadError (res_map fst (from_bytes LittleEndian t (drop 4 input))))"

section \<open>The messages of the service\<close>

record wire_field_type =
  wft_type_id :: u8
  wft_capacity :: u64
  wft_string_capacity :: u64
  wft_nested_type_name :: string

record wire_field =
  wf_name :: string
  wf_type :: wire_field_type
  wf_default_value :: string

record wire_individual =
  wi_type_name :: string
  wi_fields :: "wire_field list"

record wire_type_description =
  wt_type_description :: wire_individual
  wt_referenced :: "wire_individual list"

record wire_type_source =
  ws_type_name :: string
  ws_encoding :: string
  ws_raw_file_contents :: string

record wire_key_value =
  wk_key :: string
  wk_value :: string

record get_type_description_request =
  rq_type_name :: string
  rq_type_hash :: string
  rq_include_type_sources :: bool

record get_type_description_response =
  rs_successful :: bool
  rs_failure_reason :: string
  rs_type_description :: wire_type_description
  rs_type_sources :: "wire_type_source list"
  rs_extra_information :: "wire_key_value list"

subsection \<open>Their CDR implementations\<close>

text \<open>A string is its bytes.\<close>

definition text_bytes :: "string \<Rightarrow> bytes" where
  "text_bytes s = map of_char s"

definition bytes_text :: "bytes \<Rightarrow> string" where
  "bytes_text bs = map (\<lambda>b. char_of (unat b)) bs"

definition text_codec :: "string codec" where
  "text_codec = struct_codec (\<lambda>bs. Ok (bytes_text bs)) text_bytes string_codec"

definition u64_codec :: "u64 codec" where
  "u64_codec = \<lparr>mc_serialize = write_u64 vec_buffer, mc_deserialize = read_u64,
     mc_size = (\<lambda>v pos. cdr_serialized_size (VU64 v) pos)\<rparr>"

definition wire_field_type_codec :: "wire_field_type codec" where
  "wire_field_type_codec =
     struct_codec (\<lambda>(i, c, sc, n). Ok \<lparr>wft_type_id = i, wft_capacity = c, wft_string_capacity = sc, wft_nested_type_name = n\<rparr>)
       (\<lambda>t. (wft_type_id t, wft_capacity t, wft_string_capacity t, wft_nested_type_name t))
       (pair_codec u8_codec (pair_codec u64_codec (pair_codec u64_codec text_codec)))"

definition wire_field_codec :: "wire_field codec" where
  "wire_field_codec =
     struct_codec (\<lambda>(n, t, d). Ok \<lparr>wf_name = n, wf_type = t, wf_default_value = d\<rparr>)
       (\<lambda>f. (wf_name f, wf_type f, wf_default_value f))
       (pair_codec text_codec (pair_codec wire_field_type_codec text_codec))"

definition wire_individual_codec :: "wire_individual codec" where
  "wire_individual_codec =
     struct_codec (\<lambda>(n, fs). Ok \<lparr>wi_type_name = n, wi_fields = fs\<rparr>) (\<lambda>t. (wi_type_name t, wi_fields t))
       (pair_codec text_codec (vec_codec wire_field_codec))"

definition wire_type_description_codec :: "wire_type_description codec" where
  "wire_type_description_codec =
     struct_codec (\<lambda>(t, rs). Ok \<lparr>wt_type_description = t, wt_referenced = rs\<rparr>) (\<lambda>t. (wt_type_description t, wt_referenced t))
       (pair_codec wire_individual_codec (vec_codec wire_individual_codec))"

definition wire_type_source_codec :: "wire_type_source codec" where
  "wire_type_source_codec =
     struct_codec (\<lambda>(n, e, r). Ok \<lparr>ws_type_name = n, ws_encoding = e, ws_raw_file_contents = r\<rparr>)
       (\<lambda>s. (ws_type_name s, ws_encoding s, ws_raw_file_contents s))
       (pair_codec text_codec (pair_codec text_codec text_codec))"

definition wire_key_value_codec :: "wire_key_value codec" where
  "wire_key_value_codec =
     struct_codec (\<lambda>(k, v). Ok \<lparr>wk_key = k, wk_value = v\<rparr>) (\<lambda>x. (wk_key x, wk_value x)) (pair_codec text_codec text_codec)"

definition request_codec :: "get_type_description_request codec" where
  "request_codec =
     struct_codec (\<lambda>(n, h, i). Ok \<lparr>rq_type_name = n, rq_type_hash = h, rq_include_type_sources = i\<rparr>)
       (\<lambda>r. (rq_type_name r, rq_type_hash r, rq_include_type_sources r))
       (pair_codec text_codec (pair_codec text_codec bool_codec))"

definition response_codec :: "get_type_description_response codec" where
  "response_codec =
     struct_codec (\<lambda>(s, f, t, ss, es). Ok \<lparr>rs_successful = s, rs_failure_reason = f, rs_type_description = t,
           rs_type_sources = ss, rs_extra_information = es\<rparr>)
       (\<lambda>r. (rs_successful r, rs_failure_reason r, rs_type_description r, rs_type_sources r, rs_extra_information r))
       (pair_codec bool_codec (pair_codec text_codec (pair_codec wire_type_description_codec
         (pair_codec (vec_codec wire_type_source_codec) (vec_codec wire_key_value_codec)))))"

subsection \<open>The same messages through serde\<close>

definition ser_text :: "string \<Rightarrow> ser_val" where
  "ser_text s = SStr (text_bytes s)"

definition ser_vec :: "('a \<Rightarrow> ser_val) \<Rightarrow> 'a list \<Rightarrow> ser_val" where
  "ser_vec f xs = SSeq (Some (length xs)) (map f xs)"

definition ser_wire_field_type :: "wire_field_type \<Rightarrow> ser_val" where
  "ser_wire_field_type t =
     SStruct [SU8 (wft_type_id t), SU64 (wft_capacity t), SU64 (wft_string_capacity t), ser_text (wft_nested_type_name t)]"

definition ser_wire_field :: "wire_field \<Rightarrow> ser_val" where
  "ser_wire_field f = SStruct [ser_text (wf_name f), ser_wire_field_type (wf_type f), ser_text (wf_default_value f)]"

definition ser_wire_individual :: "wire_individual \<Rightarrow> ser_val" where
  "ser_wire_individual t = SStruct [ser_text (wi_type_name t), ser_vec ser_wire_field (wi_fields t)]"

definition ser_wire_type_description :: "wire_type_description \<Rightarrow> ser_val" where
  "ser_wire_type_description t =
     SStruct [ser_wire_individual (wt_type_description t), ser_vec ser_wire_individual (wt_referenced t)]"

definition ser_wire_type_source :: "wire_type_source \<Rightarrow> ser_val" where
  "ser_wire_type_source s = SStruct [ser_text (ws_type_name s), ser_text (ws_encoding s), ser_text (ws_raw_file_contents s)]"

definition ser_wire_key_value :: "wire_key_value \<Rightarrow> ser_val" where
  "ser_wire_key_value x = SStruct [ser_text (wk_key x), ser_text (wk_value x)]"

definition ser_response :: "get_type_description_response \<Rightarrow> ser_val" where
  "ser_response r =
     SStruct [SBool (rs_successful r), ser_text (rs_failure_reason r), ser_wire_type_description (rs_type_description r),
       ser_vec ser_wire_type_source (rs_type_sources r), ser_vec ser_wire_key_value (rs_extra_information r)]"

definition ser_request :: "get_type_description_request \<Rightarrow> ser_val" where
  "ser_request r = SStruct [ser_text (rq_type_name r), ser_text (rq_type_hash r), SBool (rq_include_type_sources r)]"

definition request_ty :: de_ty where
  "request_ty = DStruct [DString, DString, Serde_Cdr.DBool]"

definition text_of_ser :: "ser_val \<Rightarrow> string option" where
  "text_of_ser v = (case v of SStr bs \<Rightarrow> Some (bytes_text bs) | _ \<Rightarrow> None)"

definition bool_of_ser :: "ser_val \<Rightarrow> bool option" where
  "bool_of_ser v = (case v of SBool b \<Rightarrow> Some b | _ \<Rightarrow> None)"

definition request_of_ser :: "ser_val \<Rightarrow> get_type_description_request option" where
  "request_of_ser v =
     (case v of SStruct [n, h, i] \<Rightarrow>
        (case (text_of_ser n, text_of_ser h, bool_of_ser i) of
           (Some n, Some h, Some i) \<Rightarrow> Some \<lparr>rq_type_name = n, rq_type_hash = h, rq_include_type_sources = i\<rparr>
         | _ \<Rightarrow> None)
      | _ \<Rightarrow> None)"

section \<open>The service\<close>

text \<open>Conversion to the wire form and back.\<close>

definition field_to_wire :: "field_description \<Rightarrow> wire_field" where
  "field_to_wire fd =
     \<lparr>wf_name = fd_name fd,
      wf_type = \<lparr>wft_type_id = ftd_type_id (fd_type fd), wft_capacity = ftd_capacity (fd_type fd),
        wft_string_capacity = ftd_string_capacity (fd_type fd), wft_nested_type_name = ftd_nested_type_name (fd_type fd)\<rparr>,
      wf_default_value = fd_default_value fd\<rparr>"

definition individual_to_wire :: "type_description \<Rightarrow> wire_individual" where
  "individual_to_wire td = \<lparr>wi_type_name = td_type_name td, wi_fields = map field_to_wire (td_fields td)\<rparr>"

definition schema_to_wire_type_description :: "message_schema \<Rightarrow> wire_type_description" where
  "schema_to_wire_type_description s =
     (let msg = to_type_description_msg s
      in \<lparr>wt_type_description = individual_to_wire (tm_type_description msg),
          wt_referenced = map individual_to_wire (tm_referenced msg)\<rparr>)"

definition wire_to_schema_field :: "wire_field \<Rightarrow> field_description" where
  "wire_to_schema_field w =
     \<lparr>fd_name = wf_name w,
      fd_type = \<lparr>ftd_type_id = wft_type_id (wf_type w), ftd_capacity = wft_capacity (wf_type w),
        ftd_string_capacity = wft_string_capacity (wf_type w), ftd_nested_type_name = wft_nested_type_name (wf_type w)\<rparr>,
      fd_default_value = wf_default_value w\<rparr>"

definition wire_to_schema_individual :: "wire_individual \<Rightarrow> type_description" where
  "wire_to_schema_individual w = \<lparr>td_type_name = wi_type_name w, td_fields = map wire_to_schema_field (wi_fields w)\<rparr>"

definition wire_to_schema_type_description :: "wire_type_description \<Rightarrow> type_description_msg" where
  "wire_to_schema_type_description w =
     \<lparr>tm_type_description = wire_to_schema_individual (wt_type_description w),
      tm_referenced = map wire_to_schema_individual (wt_referenced w)\<rparr>"

record registered_schema =
  rg_schema :: message_schema
  rg_type_hash :: string
  rg_source :: "(string \<times> string) option"

type_synonym schemas = "string \<rightharpoonup> registered_schema"

text \<open>How a hash is computed and printed: JSON text, SHA-256, hexadecimal text.\<close>

record hash_ops =
  ho_compact :: "json \<Rightarrow> string"
  ho_sha256 :: "string \<Rightarrow> bytes"
  ho_hex :: "bytes \<Rightarrow> string"

definition schema_rihs :: "hash_ops \<Rightarrow> message_schema \<Rightarrow> string" where
  "schema_rihs H s = rihs_string (ho_hex H) (compute_type_hash (ho_compact H) (ho_sha256 H) s)"

definition registered_new :: "hash_ops \<Rightarrow> message_schema \<Rightarrow> registered_schema" where
  "registered_new H s = \<lparr>rg_schema = s, rg_type_hash = schema_rihs H s, rg_source = None\<rparr>"

definition registered_with_source :: "hash_ops \<Rightarrow> message_schema \<Rightarrow> string \<Rightarrow> string \<Rightarrow> registered_schema" where
  "registered_with_source H s encoding raw_content =
     \<lparr>rg_schema = s, rg_type_hash = schema_rihs H s, rg_source = Some (encoding, raw_content)\<rparr>"

definition service_register_schema :: "hash_ops \<Rightarrow> message_schema \<Rightarrow> schemas \<Rightarrow> schemas" where
  "service_register_schema H s m = m(ms_type_name s \<mapsto> registered_new H s)"

definition service_register_schema_with_source :: "hash_ops \<Rightarrow> message_schema \<Rightarrow> string \<Rightarrow> string \<Rightarrow> schemas \<Rightarrow> schemas" where
  "service_register_schema_with_source H s encoding raw_content m =
     m(ms_type_name s \<mapsto> registered_with_source H s encoding raw_content)"

definition service_unregister_schema :: "string \<Rightarrow> schemas \<Rightarrow> schemas" where
  "service_unregister_schema type_name m = m(type_name := None)"

definition collect_type_sources :: "registered_schema \<Rightarrow> schemas \<Rightarrow> wire_type_source list" where
  "collect_type_sources registered all_schemas =
     (case rg_source registered of None \<Rightarrow> []
      | Some (e, r) \<Rightarrow> [\<lparr>ws_type_name = ms_type_name (rg_schema registered), ws_encoding = e, ws_raw_file_contents = r\<rparr>]) @
     concat (map (\<lambda>td. case all_schemas (td_type_name td) of None \<Rightarrow> []
        | Some ref \<Rightarrow> (case rg_source ref of None \<Rightarrow> []
           | Some (e, r) \<Rightarrow> [\<lparr>ws_type_name = td_type_name td, ws_encoding = e, ws_raw_file_contents = r\<rparr>]))
       (tm_referenced (to_type_description_msg (rg_schema registered))))"

definition default_wire_type_description :: wire_type_description where
  "default_wire_type_description = \<lparr>wt_type_description = \<lparr>wi_type_name = [], wi_fields = []\<rparr>, wt_referenced = []\<rparr>"

definition failed_response :: "string \<Rightarrow> get_type_description_response" where
  "failed_response reason =
     \<lparr>rs_successful = False, rs_failure_reason = reason, rs_type_description = default_wire_type_description,
      rs_type_sources = [], rs_extra_information = []\<rparr>"

text \<open>\<open>schemas\<close> is None when the lock of the registry is poisoned.\<close>

definition build_response :: "string \<Rightarrow> schemas option \<Rightarrow> get_type_description_request \<Rightarrow> get_type_description_response" where
  "build_response version schemas request =
     (case schemas of None \<Rightarrow> failed_response ''Internal error: registry lock poisoned''
      | Some m \<Rightarrow>
          (case (case m (ros_from_dds (rq_type_name request)) of Some r \<Rightarrow> Some r | None \<Rightarrow> m (rq_type_name request)) of
             None \<Rightarrow> failed_response (''Type '' @ [CHR 0x27] @ rq_type_name request @ [CHR 0x27] @ '' not registered'')
           | Some registered \<Rightarrow>
               if rq_type_hash request \<noteq> [] \<and> rq_type_hash request \<noteq> rg_type_hash registered
               then failed_response (''Type hash mismatch: expected '' @ rg_type_hash registered @ '', got '' @ rq_type_hash request)
               else \<lparr>rs_successful = True, rs_failure_reason = [],
                     rs_type_description = schema_to_wire_type_description (rg_schema registered),
                     rs_type_sources = (if rq_include_type_sources request then collect_type_sources registered m else []),
                     rs_extra_information = [\<lparr>wk_key = ''hiroz_version'', wk_value = version\<rparr>]\<rparr>))"

text \<open>The bytes of the reply, if there is one.\<close>

definition handle_query :: "string \<Rightarrow> schemas option \<Rightarrow> bytes option \<Rightarrow> (bytes option, cdr_error) res" where
  "handle_query version schemas payload =
     (case payload of None \<Rightarrow> Ok None
      | Some bs \<Rightarrow>
          (case serde_deserialize request_ty bs of
             Ok v \<Rightarrow> (case request_of_ser v of None \<Rightarrow> Ok None
               | Some request \<Rightarrow> res_map Some (serde_serialize (ser_response (build_response version schemas request))))
           | _ \<Rightarrow> Ok None))"

section \<open>The client\<close>

datatype discovery_error =
    NoPublishers string
  | MissingNode string
  | NoTypeInfo string
  | NoUsable string
  | NoSource
  | Timeout string string
  | Refused string
  | BadDescription describe_error

type_synonym candidate = "string \<times> string \<times> string \<times> string"

definition schema_from_type_description_response :: "get_type_description_response \<Rightarrow> (message_schema, discovery_error) res" where
  "schema_from_type_description_response r =
     (if \<not> rs_successful r then Err (Refused (rs_failure_reason r))
      else map_err BadDescription (type_description_msg_to_schema (wire_to_schema_type_description (rs_type_description r))))"

definition description_service_name :: "candidate \<Rightarrow> string" where
  "description_service_name c =
     (case c of (node_name, namespace, _) \<Rightarrow>
        if namespace = [] \<or> namespace = ''/'' then ''/'' @ node_name @ ''/get_type_description''
        else namespace @ ''/'' @ node_name @ ''/get_type_description'')"

text \<open>\<open>call\<close> sends the bytes of a request to a service and returns those of the reply, or nothing in time.\<close>

definition query_type_description ::
    "(string \<Rightarrow> bytes \<Rightarrow> bytes option) \<Rightarrow> bool \<Rightarrow> candidate \<Rightarrow> (message_schema \<times> string, discovery_error) res" where
  "query_type_description call include_sources c =
     (case c of (node_name, namespace, type_name, type_hash) \<Rightarrow>
        let service_name = description_service_name c;
            timeout = Timeout (if namespace = [] \<or> namespace = ''/'' then node_name else namespace @ ''/'' @ node_name) service_name
        in case native_serialize request_codec
             \<lparr>rq_type_name = type_name, rq_type_hash = type_hash, rq_include_type_sources = include_sources\<rparr> of
             Ok payload \<Rightarrow>
               (case call service_name payload of None \<Rightarrow> Err timeout
                | Some reply \<Rightarrow>
                    (case native_deserialize response_codec reply of
                       Ok response \<Rightarrow>
                         if rs_successful response
                         then res_map (\<lambda>schema. (schema, type_hash)) (schema_from_type_description_response response)
                         else Err (Refused (rs_failure_reason response))
                     | Err _ \<Rightarrow> Err timeout
                     | Panic \<Rightarrow> Panic))
           | Err _ \<Rightarrow> Err timeout
           | Panic \<Rightarrow> Panic)"

section \<open>Discovery\<close>

text \<open>The candidates come out of a \<open>BTreeSet\<close>: in order and without duplicates.\<close>

fun candidate_of :: "'z entity \<Rightarrow> candidate option" where
  "candidate_of (EndpointEntity e) =
     (case (ee_node e, ee_type_info e) of
        (Some node, Some ti) \<Rightarrow> Some (ne_name node, ne_namespace node, ros_from_dds (ti_name ti), to_rihs_string (ti_hash ti))
      | _ \<Rightarrow> None)"
| "candidate_of (NodeEntity _) = None"

fun lacks_node :: "'z entity \<Rightarrow> bool" where
  "lacks_node (EndpointEntity e) = (ee_node e = None)"
| "lacks_node (NodeEntity _) = False"

fun lacks_type_info :: "'z entity \<Rightarrow> bool" where
  "lacks_type_info (EndpointEntity e) = (ee_node e \<noteq> None \<and> ee_type_info e = None)"
| "lacks_type_info (NodeEntity _) = False"

definition collect_topic_schema_candidates_from_endpoints ::
    "'z entity list \<Rightarrow> string \<Rightarrow> (candidate list, discovery_error) res" where
  "collect_topic_schema_candidates_from_endpoints endpoints topic =
     (let candidates = sort (remdups (List.map_filter candidate_of endpoints))
      in if candidates \<noteq> [] then Ok candidates
         else if list_ex lacks_node endpoints then Err (MissingNode topic)
         else if list_ex lacks_type_info endpoints then Err (NoTypeInfo topic)
         else Err (NoUsable topic))"

fun try_standard :: "(candidate \<Rightarrow> ('a, discovery_error) res) \<Rightarrow> candidate list \<Rightarrow> discovery_error option \<Rightarrow> ('a, discovery_error) res" where
  "try_standard query [] last_error = (case last_error of None \<Rightarrow> Err NoSource | Some e \<Rightarrow> Err e)"
| "try_standard query (c # cs) last_error =
     (case query c of Ok r \<Rightarrow> Ok r | Err e \<Rightarrow> try_standard query cs (Some e) | Panic \<Rightarrow> Panic)"

text \<open>\<open>discover\<close> once the graph reports the endpoints of the topic.\<close>

definition discover_from :: "(string \<Rightarrow> bytes \<Rightarrow> bytes option) \<Rightarrow> 'z entity list \<Rightarrow> string \<Rightarrow> (message_schema \<times> string, discovery_error) res" where
  "discover_from call publishers topic =
     (if publishers = [] then Err (NoPublishers topic)
      else res_bind (collect_topic_schema_candidates_from_endpoints publishers topic)
             (\<lambda>candidates. try_standard (query_type_description call False) candidates None))"

subsection \<open>Type information of an endpoint\<close>

definition dds_type_name_from_schema :: "message_schema \<Rightarrow> string" where
  "dds_type_name_from_schema s = (case dds_from_canonical (ms_type_name s) of Some n \<Rightarrow> n | None \<Rightarrow> ms_type_name s)"

definition schema_hash :: "hash_ops \<Rightarrow> message_schema \<Rightarrow> type_hash" where
  "schema_hash H s = (case from_rihs_string (schema_rihs H s) of Some h \<Rightarrow> h | None \<Rightarrow> type_hash_zero)"

definition schema_type_info :: "hash_ops \<Rightarrow> message_schema \<Rightarrow> type_info" where
  "schema_type_info H s = \<lparr>ti_name = dds_type_name_from_schema s, ti_hash = schema_hash H s\<rparr>"

definition schema_type_info_with_hash :: "message_schema \<Rightarrow> string \<Rightarrow> type_info" where
  "schema_type_info_with_hash s discovered_hash =
     \<lparr>ti_name = dds_type_name_from_schema s,
      ti_hash = (case from_rihs_string discovered_hash of Some h \<Rightarrow> h | None \<Rightarrow> type_hash_zero)\<rparr>"

section \<open>Both sides of the wire agree\<close>

lemma res_bind_Ok [simp]: "res_bind m (\<lambda>x. Ok x) = m"
  by (cases m) simp_all

lemma res_bind_assoc: "res_bind (res_bind m k) l = res_bind m (\<lambda>x. res_bind (k x) l)"
  by (cases m) simp_all

lemma text_native: "ser_serialize vec_buffer bo w (ser_text s) = mc_serialize text_codec bo w s"
  by (simp add: ser_text_def text_codec_def struct_codec_def string_codec_def)

lemma vec_native:
  assumes "\<And>bo w x. ser_serialize vec_buffer bo w (f x) = mc_serialize C bo w x"
  shows "ser_serialize vec_buffer bo w (ser_vec f xs) = mc_serialize (vec_codec C) bo w xs"
  by (simp add: ser_vec_def vec_codec_def res_fold_map assms)

lemma field_type_native: "ser_serialize vec_buffer bo w (ser_wire_field_type t) = mc_serialize wire_field_type_codec bo w t"
  by (simp add: ser_wire_field_type_def wire_field_type_codec_def struct_codec_def pair_codec_def text_native u8_codec_def u64_codec_def)

lemma field_native: "ser_serialize vec_buffer bo w (ser_wire_field f) = mc_serialize wire_field_codec bo w f"
  by (simp add: ser_wire_field_def wire_field_codec_def struct_codec_def pair_codec_def text_native field_type_native)

lemma individual_native: "ser_serialize vec_buffer bo w (ser_wire_individual t) = mc_serialize wire_individual_codec bo w t"
  by (simp add: ser_wire_individual_def wire_individual_codec_def struct_codec_def pair_codec_def text_native
      vec_native [of ser_wire_field, OF field_native])

lemma description_native:
  "ser_serialize vec_buffer bo w (ser_wire_type_description t) = mc_serialize wire_type_description_codec bo w t"
  by (simp add: ser_wire_type_description_def wire_type_description_codec_def struct_codec_def pair_codec_def individual_native
      vec_native [of ser_wire_individual, OF individual_native])

lemma source_native: "ser_serialize vec_buffer bo w (ser_wire_type_source s) = mc_serialize wire_type_source_codec bo w s"
  by (simp add: ser_wire_type_source_def wire_type_source_codec_def struct_codec_def pair_codec_def text_native)

lemma key_value_native: "ser_serialize vec_buffer bo w (ser_wire_key_value x) = mc_serialize wire_key_value_codec bo w x"
  by (simp add: ser_wire_key_value_def wire_key_value_codec_def struct_codec_def pair_codec_def text_native)

lemma response_native: "ser_serialize vec_buffer bo w (ser_response r) = mc_serialize response_codec bo w r"
  by (simp add: ser_response_def response_codec_def struct_codec_def pair_codec_def text_native description_native bool_codec_def
      vec_native [of ser_wire_type_source, OF source_native] vec_native [of ser_wire_key_value, OF key_value_native])

lemma request_native: "ser_serialize vec_buffer bo w (ser_request r) = mc_serialize request_codec bo w r"
  by (simp add: ser_request_def request_codec_def struct_codec_def pair_codec_def text_native bool_codec_def)

section \<open>Messages survive the wire\<close>

text \<open>An implementation together with the messages it carries; the wire form is left open.\<close>

definition carries :: "'m codec \<Rightarrow> ('m \<Rightarrow> bool) \<Rightarrow> bool" where
  "carries C ok \<longleftrightarrow> (\<exists>enc. cdr_codec C ok enc)"

lemma carriesI: "cdr_codec C ok enc \<Longrightarrow> carries C ok"
  by (auto simp: carries_def)

lemma carries_pair: "carries A okA \<Longrightarrow> carries B okB \<Longrightarrow> carries (pair_codec A B) (\<lambda>(a, b). okA a \<and> okB b)"
  unfolding carries_def by (blast intro: codec_pair)

lemma carries_vec: "carries A ok \<Longrightarrow> carries (vec_codec A) (\<lambda>xs. length xs \<le> 100000000 \<and> list_all ok xs)"
  unfolding carries_def by (blast intro: codec_vec)

lemma carries_struct:
  assumes "carries A ok" and "\<And>m. okm m \<Longrightarrow> ok (fields_of m) \<and> build (fields_of m) = Ok m" and "\<And>a. build a \<noteq> Panic"
  shows "carries (struct_codec build fields_of A) okm"
proof -
  obtain enc where "cdr_codec A ok enc" using assms(1) by (auto simp: carries_def)
  from codec_struct [OF this, of okm fields_of build, OF assms(2,3)] show ?thesis by (rule carriesI)
qed

lemma carries_roundtrip: "carries C ok \<Longrightarrow> ok m \<Longrightarrow> \<exists>bs. native_serialize C m = Ok bs \<and> native_deserialize C bs = Ok m"
  unfolding carries_def by (elim exE) (drule (1) cdr_codec.native_roundtrip, elim exE conjE, intro exI conjI)

lemma carries_u64: "carries u64_codec (\<lambda>_. True)"
proof (rule carriesI)
  show "cdr_codec u64_codec (\<lambda>_. True) (\<lambda>bo p v. enc_word bo 8 p v)"
    by (unfold_locales; simp add: u64_codec_def vecb.wrote_words decodes_words; intro rd_safe_intros)
qed

definition text_ok :: "string \<Rightarrow> bool" where
  "text_ok s \<longleftrightarrow> utf8_valid (text_bytes s) \<and> length s + 1 < 2 ^ 32"

lemma bytes_text_bytes [simp]: "bytes_text (text_bytes s) = s"
proof -
  have "char_of (unat (of_char c :: u8)) = c" for c
  proof -
    have "(of_char c :: u8) = word_of_nat (of_char c)" by (metis of_nat_of_char)
    moreover have "(of_char c :: nat) < 256" by (metis of_char_mod_256 mod_less_divisor zero_less_numeral)
    ultimately show ?thesis by (simp add: unat_of_nat take_bit_nat_eq_self)
  qed
  then show ?thesis by (simp add: bytes_text_def text_bytes_def map_idI)
qed

lemma carries_text: "carries text_codec text_ok"
  unfolding text_codec_def
  by (rule carries_struct [OF carriesI [OF codec_string]]) (auto simp: text_ok_def, simp add: text_bytes_def)

definition field_type_ok :: "wire_field_type \<Rightarrow> bool" where
  "field_type_ok t \<longleftrightarrow> text_ok (wft_nested_type_name t)"

definition field_ok :: "wire_field \<Rightarrow> bool" where
  "field_ok f \<longleftrightarrow> text_ok (wf_name f) \<and> field_type_ok (wf_type f) \<and> text_ok (wf_default_value f)"

definition individual_ok :: "wire_individual \<Rightarrow> bool" where
  "individual_ok t \<longleftrightarrow> text_ok (wi_type_name t) \<and> length (wi_fields t) \<le> 100000000 \<and> list_all field_ok (wi_fields t)"

definition description_ok :: "wire_type_description \<Rightarrow> bool" where
  "description_ok t \<longleftrightarrow> individual_ok (wt_type_description t) \<and> length (wt_referenced t) \<le> 100000000 \<and>
     list_all individual_ok (wt_referenced t)"

definition source_ok :: "wire_type_source \<Rightarrow> bool" where
  "source_ok s \<longleftrightarrow> text_ok (ws_type_name s) \<and> text_ok (ws_encoding s) \<and> text_ok (ws_raw_file_contents s)"

definition request_ok :: "get_type_description_request \<Rightarrow> bool" where
  "request_ok r \<longleftrightarrow> text_ok (rq_type_name r) \<and> text_ok (rq_type_hash r)"

definition response_ok :: "get_type_description_response \<Rightarrow> bool" where
  "response_ok r \<longleftrightarrow> text_ok (rs_failure_reason r) \<and> description_ok (rs_type_description r) \<and>
     length (rs_type_sources r) \<le> 100000000 \<and> list_all source_ok (rs_type_sources r) \<and>
     length (rs_extra_information r) \<le> 100000000 \<and>
     list_all (\<lambda>x. text_ok (wk_key x) \<and> text_ok (wk_value x)) (rs_extra_information r)"

lemma carries_field_type: "carries wire_field_type_codec field_type_ok"
  unfolding wire_field_type_codec_def
  by (rule carries_struct [OF carries_pair [OF carriesI [OF codec_octets(3)] carries_pair [OF carries_u64 carries_pair [OF carries_u64 carries_text]]]])
    (auto simp: field_type_ok_def)

lemma carries_field: "carries wire_field_codec field_ok"
  unfolding wire_field_codec_def
  by (rule carries_struct [OF carries_pair [OF carries_text carries_pair [OF carries_field_type carries_text]]])
    (auto simp: field_ok_def)

lemma carries_individual: "carries wire_individual_codec individual_ok"
  unfolding wire_individual_codec_def
  by (rule carries_struct [OF carries_pair [OF carries_text carries_vec [OF carries_field]]]) (auto simp: individual_ok_def)

lemma carries_description: "carries wire_type_description_codec description_ok"
  unfolding wire_type_description_codec_def
  by (rule carries_struct [OF carries_pair [OF carries_individual carries_vec [OF carries_individual]]]) (auto simp: description_ok_def)

lemma carries_source: "carries wire_type_source_codec source_ok"
  unfolding wire_type_source_codec_def
  by (rule carries_struct [OF carries_pair [OF carries_text carries_pair [OF carries_text carries_text]]]) (auto simp: source_ok_def)

lemma carries_key_value: "carries wire_key_value_codec (\<lambda>x. text_ok (wk_key x) \<and> text_ok (wk_value x))"
  unfolding wire_key_value_codec_def by (rule carries_struct [OF carries_pair [OF carries_text carries_text]]) auto

lemma carries_response: "carries response_codec response_ok"
  unfolding response_codec_def
  by (rule carries_struct [OF carries_pair [OF carriesI [OF codec_octets(1)] carries_pair [OF carries_text carries_pair [OF carries_description
        carries_pair [OF carries_vec [OF carries_source] carries_vec [OF carries_key_value]]]]]]) (auto simp: response_ok_def)

lemma carries_request: "carries request_codec request_ok"
  unfolding request_codec_def
  by (rule carries_struct [OF carries_pair [OF carries_text carries_pair [OF carries_text carriesI [OF codec_octets(1)]]]]) (auto simp: request_ok_def)

lemma request_typed: "request_ok r \<Longrightarrow> typed request_ty (ser_request r)"
  unfolding request_ty_def ser_request_def
  by (rule typed_struct) (auto simp: request_ok_def text_ok_def ser_text_def text_bytes_def intro!: typed.intros(1,14))

lemma request_of_ser_request: "request_of_ser (ser_request r) = Some r"
  by (simp add: request_of_ser_def ser_request_def text_of_ser_def bool_of_ser_def ser_text_def)

lemma serde_reads_native:
  assumes "typed t v" and "\<And>w. ser_serialize vec_buffer LittleEndian w v = mc_serialize C LittleEndian w m"
  shows "\<exists>bs. native_serialize C m = Ok bs \<and> serde_deserialize t bs = Ok v"
proof -
  have "vecb.wrt (writer_new vec_buffer cdr_header_le) (ser_serialize vec_buffer LittleEndian (writer_new vec_buffer cdr_header_le) v)
      (ser_enc LittleEndian 0 v)"
    using vecb.wrote_typed [OF assms(1), of "writer_new vec_buffer cdr_header_le" LittleEndian] vecb.new_ok [of cdr_header_le] by simp
  then have "native_serialize C m = Ok (cdr_header_le @ ser_enc LittleEndian 0 v)"
    by (auto simp: native_serialize_def wrote_def writer_new_def assms(2))
  moreover have "from_bytes LittleEndian t (ser_enc LittleEndian 0 v) = Ok (v, length (ser_enc LittleEndian 0 v))"
    using decodes_at_start [OF decodes_typed [OF assms(1)], of LittleEndian "[]"] by (simp add: from_bytes_def)
  ultimately show ?thesis by (auto simp: serde_deserialize_def cdr_header_le_def)
qed

lemma native_reads_serde:
  assumes "carries C ok" and "ok m" and "\<And>w. ser_serialize vec_buffer LittleEndian w v = mc_serialize C LittleEndian w m"
  shows "\<exists>bs. serde_serialize v = Ok bs \<and> native_deserialize C bs = Ok m"
proof -
  obtain bs where bs: "native_serialize C m = Ok bs" "native_deserialize C bs = Ok m"
    using carries_roundtrip [OF assms(1,2)] by blast
  then have "serde_serialize v = Ok bs"
    by (auto simp: serde_serialize_def native_serialize_def assms(3) split: res.split)
  with bs(2) show ?thesis by blast
qed

lemma exchange_exact:
  assumes "request_ok request" and "response_ok (build_response version schemas request)"
  shows "\<exists>payload reply. native_serialize request_codec request = Ok payload \<and>
    handle_query version schemas (Some payload) = Ok (Some reply) \<and>
    native_deserialize response_codec reply = Ok (build_response version schemas request)"
proof -
  obtain payload where p: "native_serialize request_codec request = Ok payload" "serde_deserialize request_ty payload = Ok (ser_request request)"
    using serde_reads_native [OF request_typed [OF assms(1)], of request_codec request] request_native by blast
  obtain reply where r: "serde_serialize (ser_response (build_response version schemas request)) = Ok reply"
      "native_deserialize response_codec reply = Ok (build_response version schemas request)"
    using native_reads_serde [OF carries_response assms(2), of "ser_response (build_response version schemas request)"] response_native by blast
  from p r show ?thesis by (simp add: handle_query_def request_of_ser_request)
qed

text \<open>
  C10: A request for a type description travels from the client, which writes it with the CDR
  traits, to the service, which reads it with serde, and the answer travels back the same
  way, written with serde and read with the traits: the service answers exactly the request,
  and the client receives exactly the answer, for all messages whose strings and lists are
  within the limits of CDR.
\<close>

theorem description_exchange:
  assumes "request_ok request" and "response_ok (build_response version schemas request)"
  shows "\<exists>payload reply. native_serialize request_codec request = Ok payload \<and>
    handle_query version schemas (Some payload) = Ok (Some reply) \<and>
    native_deserialize response_codec reply = Ok (build_response version schemas request)"
  by (rule exchange_exact [OF assms])

lemma description_exchange_witness:
  "\<exists>payload reply. native_serialize request_codec \<lparr>rq_type_name = ''a/msg/B'', rq_type_hash = [], rq_include_type_sources = False\<rparr> = Ok payload \<and>
    handle_query ''1'' (Some Map.empty) (Some payload) = Ok (Some reply) \<and>
    native_deserialize response_codec reply =
      Ok (build_response ''1'' (Some Map.empty) \<lparr>rq_type_name = ''a/msg/B'', rq_type_hash = [], rq_include_type_sources = False\<rparr>)"
proof (rule description_exchange)
  have "utf8_valid (text_bytes ''a/msg/B'')" "utf8_valid (text_bytes [])" by code_simp+
  then show "request_ok \<lparr>rq_type_name = ''a/msg/B'', rq_type_hash = [], rq_include_type_sources = False\<rparr>"
    by (simp add: request_ok_def text_ok_def)
  have "utf8_valid (text_bytes (''Type '' @ [CHR 0x27] @ ''a/msg/B'' @ [CHR 0x27] @ '' not registered''))" by code_simp
  then show "response_ok (build_response ''1'' (Some Map.empty) \<lparr>rq_type_name = ''a/msg/B'', rq_type_hash = [], rq_include_type_sources = False\<rparr>)"
    using \<open>utf8_valid (text_bytes [])\<close>
    by (simp add: build_response_def failed_response_def response_ok_def text_ok_def description_ok_def individual_ok_def
        default_wire_type_description_def)
qed

section \<open>Discovery finds what was announced\<close>

lemma replace_absent:
  assumes "hd p \<notin> set s" and "p \<noteq> []"
  shows "replace_str p r s = s"
  using assms
proof (induction s)
  case Nil
  then show ?case by (subst replace_str.simps) simp
next
  case (Cons x xs)
  then have "\<not> prefix p (x # xs)" by (cases p) auto
  with Cons show ?case by (subst replace_str.simps) simp
qed

lemma ros_from_dds_canonical:
  assumes "CHR '':'' \<notin> set c" and "c \<noteq> []" and "last c \<noteq> CHR ''_''"
  shows "ros_from_dds c = c"
proof -
  have "ros_from_dds_strict c = c"
    using assms(2,3) by (simp add: ros_from_dds_strict_def strip_suffix_char_def)
  moreover have "replace_str (''::'' @ k @ ''::'') r c = c" for k r
    using assms(1) by (intro replace_absent) simp_all
  moreover have "rev (dropWhile (\<lambda>x. x = CHR ''_'') (rev c)) = c"
    using assms(2,3) by (cases c rule: rev_cases) simp_all
  ultimately show ?thesis by (simp add: ros_from_dds_def kinds_def)
qed

text \<open>What the discovery of a schema relies on.\<close>

definition discoverable :: "hash_ops \<Rightarrow> message_schema \<Rightarrow> bool" where
  "discoverable H s \<longleftrightarrow>
     type_family (reach s) \<and> describable s \<and> (\<forall>u\<in>reach s. describable u) \<and>
     (\<exists>p k n. split_canonical (ms_type_name s) = Some (p, k, n) \<and> \<not> suffix ''dds_'' p) \<and>
     CHR '':'' \<notin> set (ms_type_name s) \<and> last (ms_type_name s) \<noteq> CHR ''_'' \<and>
     text_ok (ms_type_name s) \<and> text_ok (schema_rihs H s) \<and> description_ok (schema_to_wire_type_description s)"

text \<open>What is documented of SHA-256 and of hexadecimal text.\<close>

definition hash_ops_ok :: "hash_ops \<Rightarrow> bool" where
  "hash_ops_ok H \<longleftrightarrow> (\<forall>x. length (ho_sha256 H x) = 32) \<and> (\<forall>bs. ho_hex H bs = concat (map show_hex2 bs))"

lemma wire_schema_roundtrip: "wire_to_schema_type_description (schema_to_wire_type_description s) = to_type_description_msg s"
proof -
  have "wire_to_schema_field (field_to_wire f) = f" for f by (simp add: wire_to_schema_field_def field_to_wire_def)
  then have "wire_to_schema_individual (individual_to_wire t) = t" for t
    by (simp add: wire_to_schema_individual_def individual_to_wire_def map_idI)
  then show ?thesis
    by (simp add: wire_to_schema_type_description_def schema_to_wire_type_description_def Let_def map_idI)
qed

lemma announced_hash:
  assumes "hash_ops_ok H"
  shows "from_rihs_string (schema_rihs H s) = Some (schema_hash H s)" and "to_rihs_string (schema_hash H s) = schema_rihs H s"
proof -
  let ?h = "\<lparr>th_version = 1, th_value = compute_type_hash (ho_compact H) (ho_sha256 H) s\<rparr>"
  have "to_rihs_string ?h = schema_rihs H s"
    using assms by (simp add: to_rihs_string_def schema_rihs_def rihs_string_def hash_ops_ok_def)
  moreover have "from_rihs_string (to_rihs_string ?h) = Some ?h"
    using from_to_rihs [of ?h] assms by (simp add: compute_type_hash_def calculate_hash_def hash_ops_ok_def)
  ultimately show "from_rihs_string (schema_rihs H s) = Some (schema_hash H s)" "to_rihs_string (schema_hash H s) = schema_rihs H s"
    by (simp_all add: schema_hash_def)
qed

lemma announced_info:
  assumes "hash_ops_ok H"
  shows "schema_type_info_with_hash (strip_schema s) (schema_rihs H s) = schema_type_info H s"
  using announced_hash(1) [OF assms] by (simp add: schema_type_info_with_hash_def schema_type_info_def dds_type_name_from_schema_def split: option.split)

lemma announced_name:
  assumes "discoverable H s"
  shows "ros_from_dds (dds_type_name_from_schema s) = ms_type_name s"
proof -
  obtain p k n where n: "split_canonical (ms_type_name s) = Some (p, k, n)" "\<not> suffix ''dds_'' p" "CHR '':'' \<notin> set (ms_type_name s)"
    using assms by (auto simp: discoverable_def)
  then have "CHR '':'' \<notin> set p" using split_canonical_eq [OF n(1)] by auto
  from dds_name_roundtrip [OF n(1) this] n(2) show ?thesis by (auto simp: dds_type_name_from_schema_def)
qed

lemma query_finds:
  assumes "hash_ops_ok H" and "discoverable H s" and "m (ms_type_name s) = Some (registered_new H s)" and "text_ok version"
    and "\<And>p. call (description_service_name (name, namespace, ms_type_name s, schema_rihs H s)) p =
      (case handle_query version (Some m) (Some p) of Ok r \<Rightarrow> r | _ \<Rightarrow> None)"
  shows "query_type_description call False (name, namespace, ms_type_name s, schema_rihs H s) = Ok (strip_schema s, schema_rihs H s)"
proof -
  let ?r = "\<lparr>rq_type_name = ms_type_name s, rq_type_hash = schema_rihs H s, rq_include_type_sources = False\<rparr>"
  let ?a = "build_response version (Some m) ?r"
  have s: "text_ok (ms_type_name s)" "text_ok (schema_rihs H s)" "description_ok (schema_to_wire_type_description s)"
      "CHR '':'' \<notin> set (ms_type_name s)" "last (ms_type_name s) \<noteq> CHR ''_''" "ms_type_name s \<noteq> []"
    using assms(2) by (auto simp: discoverable_def split_canonical_def)
  have look: "ros_from_dds (ms_type_name s) = ms_type_name s" by (rule ros_from_dds_canonical [OF s(4,6,5)])
  have a: "?a = \<lparr>rs_successful = True, rs_failure_reason = [], rs_type_description = schema_to_wire_type_description s,
      rs_type_sources = [], rs_extra_information = [\<lparr>wk_key = ''hiroz_version'', wk_value = version\<rparr>]\<rparr>"
    by (simp add: build_response_def look assms(3) registered_new_def)
  have utf8: "utf8_valid (text_bytes [])" "utf8_valid (text_bytes ''hiroz_version'')" by code_simp+
  have "response_ok ?a" unfolding a response_ok_def using s(3) assms(4) utf8 by (simp add: text_ok_def)
  moreover have "request_ok ?r" using s(1,2) by (simp add: request_ok_def)
  ultimately obtain payload reply where *: "native_serialize request_codec ?r = Ok payload"
      "handle_query version (Some m) (Some payload) = Ok (Some reply)" "native_deserialize response_codec reply = Ok ?a"
    using exchange_exact by blast
  have "type_description_msg_to_schema (to_type_description_msg s) = Ok (strip_schema s)"
    using assms(2) described_read_back [of s] by (auto simp: discoverable_def)
  then have "schema_from_type_description_response ?a = Ok (strip_schema s)"
    unfolding a by (simp add: schema_from_type_description_response_def wire_schema_roundtrip)
  then show ?thesis
    using * assms(5) [of payload] unfolding a by (simp add: query_type_description_def Let_def)
qed


definition sample_hash :: hash_ops where
  "sample_hash = \<lparr>ho_compact = (\<lambda>_. []), ho_sha256 = (\<lambda>_. replicate 32 7), ho_hex = (\<lambda>bs. concat (map show_hex2 bs))\<rparr>"

definition sample_node :: "unit node_entity" where
  "sample_node = \<lparr>ne_domain_id = 0, ne_z_id = (), ne_id = 1, ne_name = ''n'', ne_namespace = [], ne_enclave = []\<rparr>"

definition sample_publisher :: "unit entity" where
  "sample_publisher = EndpointEntity
     \<lparr>ee_id = 2, ee_node = Some sample_node, ee_kind = Publisher, ee_topic = ''/t'',
      ee_type_info = Some (schema_type_info sample_hash sample_outer), ee_qos = qos_default\<rparr>"

definition sample_call :: "string \<Rightarrow> bytes \<Rightarrow> bytes option" where
  "sample_call name p =
     (case handle_query ''1'' (Some [ms_type_name sample_outer \<mapsto> registered_new sample_hash sample_outer]) (Some p) of
        Ok r \<Rightarrow> r | _ \<Rightarrow> None)"

lemma sample_discoverable: "discoverable sample_hash sample_outer"
  unfolding discoverable_def
proof (intro conjI)
  show "type_family (reach sample_outer)" by (rule sample_family)
  show "describable sample_outer" "\<forall>u\<in>reach sample_outer. describable u"
    unfolding sample_reach by (simp_all add: describable_def well_named_def name_parts_def sample_outer_def sample_inner_def)
  show "\<exists>p k n. split_canonical (ms_type_name sample_outer) = Some (p, k, n) \<and> \<not> suffix ''dds_'' p"
    by (simp add: sample_outer_def split_canonical_def kinds_def suffix_def)
  show "CHR '':'' \<notin> set (ms_type_name sample_outer)" "last (ms_type_name sample_outer) \<noteq> CHR ''_''"
    by (simp_all add: sample_outer_def)
  have utf8: "utf8_valid (text_bytes s)" if "s \<in> {''p/msg/B'', ''p/msg/A'', ''a'', ''as'', ''x'', []}" for s
    using that by (elim insertE emptyE) (simp_all add: text_bytes_def utf8_valid.simps)
  then show "text_ok (ms_type_name sample_outer)" by (simp add: text_ok_def sample_outer_def)
  have "compute_type_hash (ho_compact sample_hash) (ho_sha256 sample_hash) sample_outer = replicate 32 7"
    by (simp add: compute_type_hash_def calculate_hash_def sample_hash_def)
  moreover have "utf8_valid (text_bytes (''RIHS01_'' @ concat (map show_hex2 (replicate 32 7))))" by code_simp
  ultimately show "text_ok (schema_rihs sample_hash sample_outer)"
    by (simp add: text_ok_def schema_rihs_def rihs_string_def sample_hash_def length_concat show_hex2_def sum_list_replicate)
  have msg: "to_type_description_msg sample_outer =
      \<lparr>tm_type_description = to_type_description sample_outer, tm_referenced = [to_type_description sample_inner]\<rparr>"
    by (simp add: to_type_description_msg_def sample_outer_def sample_inner_def)
  show "description_ok (schema_to_wire_type_description sample_outer)"
    unfolding schema_to_wire_type_description_def Let_def msg
    using utf8 by (simp add: description_ok_def individual_ok_def field_ok_def field_type_ok_def individual_to_wire_def field_to_wire_def
        to_type_description_def field_schema_to_description_def sample_outer_def sample_inner_def text_ok_def
        ftd_nested_def ftd_primitive_def Let_def)
qed


end
