(* ===== verification/Schema_Loader.thy ===== *)
theory Schema_Loader
  imports Type_Description Type_Resolution
begin

text \<open>
  The registry of schemas and the loader that fills it from interface definitions
  (\<open>crates/hiroz/src/dynamic/registry.rs\<close>): a schema is looked up, or built from a \<open>.msg\<close> file
  found under \<open>HIROZ_MSG_PATH\<close> or embedded in the binary, and the types of its fields are loaded
  the same way. The environment variable, the files and the embedded table, which the build
  generates, are arguments. The global registry is the state; its lock is never poisoned, since
  nothing panics while it is held.

  Shown: the loader ends on every set of files, cycles included; it yields a schema exactly
  when the definition and all it refers to exist, parse and form no cycle; and the schema has
  the type hash that the code generator computes for the same definitions, for the field types
  on which both agree.
\<close>

section \<open>The registry\<close>

type_synonym registry = "string \<rightharpoonup> message_schema"

definition registry_new :: registry where
  "registry_new = Map.empty"

definition get_schema :: "string \<Rightarrow> registry \<Rightarrow> message_schema option" where
  "get_schema type_name r = r type_name"

definition register_schema :: "message_schema \<Rightarrow> registry \<Rightarrow> registry" where
  "register_schema schema r = r(ms_type_name schema \<mapsto> schema)"

definition registry_contains :: "string \<Rightarrow> registry \<Rightarrow> bool" where
  "registry_contains type_name r = (type_name \<in> dom r)"

definition registry_clear :: "registry \<Rightarrow> registry" where
  "registry_clear r = Map.empty"

text \<open>A computation that may change the registry, also when it fails.\<close>

type_synonym ('a, 'e) loading = "registry \<Rightarrow> ('a, 'e) res \<times> registry"

definition ld_bind :: "('a, 'e) loading \<Rightarrow> ('a \<Rightarrow> ('b, 'e) loading) \<Rightarrow> ('b, 'e) loading" where
  "ld_bind m k r = (case m r of (Ok a, r') \<Rightarrow> k a r' | (Err e, r') \<Rightarrow> (Err e, r') | (Panic, r') \<Rightarrow> (Panic, r'))"

fun ld_collect :: "('a \<Rightarrow> ('b, 'e) loading) \<Rightarrow> 'a list \<Rightarrow> ('b list, 'e) loading" where
  "ld_collect f [] = Pair (Ok [])"
| "ld_collect f (x # xs) = ld_bind (f x) (\<lambda>y. ld_bind (ld_collect f xs) (\<lambda>ys. Pair (Ok (y # ys))))"

section \<open>From a parsed message to a schema\<close>

definition primitive_field_types :: "(string \<times> field_type) list" where
  "primitive_field_types =
     [(''bool'', FBool), (''int8'', FInt8), (''byte'', FInt8), (''int16'', FInt16), (''int32'', FInt32),
      (''int64'', FInt64), (''uint8'', FUint8), (''char'', FUint8), (''uint16'', FUint16), (''uint32'', FUint32),
      (''uint64'', FUint64), (''float32'', FFloat32), (''float64'', FFloat64), (''string'', FString)]"

definition primitive_field_type :: "string \<Rightarrow> field_type option" where
  "primitive_field_type base_type = map_of primitive_field_types base_type"

definition bounded_string_type :: "string \<Rightarrow> field_type option" where
  "bounded_string_type base_type =
     (case strip_prefix_str ''string<='' base_type of
        None \<Rightarrow> None | Some rest \<Rightarrow> map_option (\<lambda>n. FBoundedString (unat n)) (parse_usize rest))"

text \<open>A resolver that finds no schema fails with the unit value.\<close>

type_synonym type_resolver = "string \<Rightarrow> string \<Rightarrow> (message_schema, unit) loading"

definition convert_base_type :: "type_resolver \<Rightarrow> string \<Rightarrow> string option \<Rightarrow> (field_type, dynamic_error) loading" where
  "convert_base_type resolver base_type package r =
     (case primitive_field_type base_type of
        Some t \<Rightarrow> (Ok t, r)
      | None \<Rightarrow>
          (case bounded_string_type base_type of
             Some t \<Rightarrow> (Ok t, r)
           | None \<Rightarrow>
               (case package of
                  None \<Rightarrow> (Err (InvalidTypeName base_type), r)
                | Some pkg \<Rightarrow>
                    (case resolver pkg base_type r of
                       (Ok schema, r') \<Rightarrow> (Ok (FMessage schema), r')
                     | (Err _, r') \<Rightarrow> (Err (SchemaNotFound (pkg @ ''/msg/'' @ base_type)), r')
                     | (Panic, r') \<Rightarrow> (Panic, r')))))"

definition apply_array :: "array_type \<Rightarrow> field_type \<Rightarrow> field_type" where
  "apply_array array base =
     (case array of ASingle \<Rightarrow> base | AFixed n \<Rightarrow> FArray base (unat n)
      | ABounded n \<Rightarrow> FBoundedSequence base (unat n) | AUnbounded \<Rightarrow> FSequence base)"

definition convert_field_type :: "type_resolver \<Rightarrow> idl_field \<Rightarrow> (field_type, dynamic_error) loading" where
  "convert_field_type resolver field =
     ld_bind (convert_base_type resolver (ft_base_type (fl_type field)) (ft_package (fl_type field)))
       (\<lambda>base. Pair (Ok (apply_array (ft_array (fl_type field)) base)))"

definition convert_field :: "type_resolver \<Rightarrow> idl_field \<Rightarrow> (field_schema, dynamic_error) loading" where
  "convert_field resolver f =
     ld_bind (convert_field_type resolver f) (\<lambda>t. Pair (Ok (FieldSchema (fl_name f) t None)))"

definition parsed_message_to_schema :: "type_resolver \<Rightarrow> parsed_message \<Rightarrow> (message_schema, dynamic_error) loading" where
  "parsed_message_to_schema resolver msg =
     ld_bind (ld_collect (convert_field resolver) (pm_fields msg))
       (\<lambda>fields. Pair (Ok (MessageSchema (pm_package msg @ ''/msg/'' @ pm_name msg) (pm_package msg) (pm_name msg) fields None)))"

section \<open>Where definitions come from\<close>

text \<open>
  The variable \<open>HIROZ_MSG_PATH\<close>, the files by path with their text, if they are text, the
  embedded definitions by name, and the parser of floating point numbers.
\<close>

record msg_env =
  me_msg_path :: "string option"
  me_files :: "(path_buf \<times> string option) list"
  me_embedded :: "(string \<times> string) list"
  me_parse_f64 :: "string \<Rightarrow> u64 option"

definition split_msg_type :: "string \<Rightarrow> (string \<times> string) option" where
  "split_msg_type type_name =
     (case split_on CHR ''/'' type_name of
        [pkg, kind, name] \<Rightarrow> if kind = ''msg'' then Some (pkg, name) else None
      | [pkg, name] \<Rightarrow> Some (pkg, name)
      | _ \<Rightarrow> None)"

text \<open>\<open>Path::new\<close> and \<open>join\<close> with one component; a component \<open>.\<close> stands for nothing.\<close>

definition path_of_str :: "string \<Rightarrow> path_buf" where
  "path_of_str s =
     \<lparr>pb_absolute = (s \<noteq> [] \<and> hd s = CHR ''/''),
      pb_components = filter (\<lambda>c. c \<noteq> [] \<and> c \<noteq> ''.'') (split_on CHR ''/'' s)\<rparr>"

definition path_join :: "path_buf \<Rightarrow> string \<Rightarrow> path_buf" where
  "path_join p c = (if c = [] \<or> c = ''.'' then p else p\<lparr>pb_components := pb_components p @ [c]\<rparr>)"

definition is_file :: "msg_env \<Rightarrow> path_buf \<Rightarrow> bool" where
  "is_file E p = (map_of (me_files E) p \<noteq> None)"

fun find_in_entries :: "msg_env \<Rightarrow> string \<Rightarrow> string \<Rightarrow> string list \<Rightarrow> path_buf option" where
  "find_in_entries E package name [] = None"
| "find_in_entries E package name (entry # entries) =
     (let entry = trim entry; base = path_of_str entry; file = name @ ''.msg'';
          as_prefix = path_join (path_join (path_join base package) ''msg'') file;
          as_package = path_join (path_join base ''msg'') file
      in if entry = [] then find_in_entries E package name entries
         else if is_file E as_prefix then Some as_prefix
         else if file_name base = Some package \<and> is_file E as_package then Some as_package
         else find_in_entries E package name entries)"

definition find_msg_file :: "msg_env \<Rightarrow> string \<Rightarrow> string \<Rightarrow> path_buf option" where
  "find_msg_file E package name =
     (case me_msg_path E of None \<Rightarrow> None
      | Some msg_path \<Rightarrow> find_in_entries E package name (split_on CHR '':'' msg_path))"

definition embedded_msg_source :: "msg_env \<Rightarrow> string \<Rightarrow> string \<Rightarrow> string option" where
  "embedded_msg_source E package name = map_of (me_embedded E) (package @ ''/msg/'' @ name)"

datatype msg_source = MsgFile path_buf | MsgEmbedded string

definition find_source :: "msg_env \<Rightarrow> string \<Rightarrow> string \<Rightarrow> msg_source option" where
  "find_source E package name =
     (case find_msg_file E package name of
        Some path \<Rightarrow> Some (MsgFile path)
      | None \<Rightarrow> map_option MsgEmbedded (embedded_msg_source E package name))"

text \<open>The parse of a source; \<open>Err None\<close> is a file that cannot be read.\<close>

definition parse_msg_file :: "msg_env \<Rightarrow> path_buf \<Rightarrow> string \<Rightarrow> (parsed_message, idl_error option) res" where
  "parse_msg_file E path package =
     (case map_of (me_files E) path of
        Some (Some source) \<Rightarrow> map_err Some (parse_msg_string (me_parse_f64 E) source package path)
      | _ \<Rightarrow> Err None)"

definition parse_source :: "msg_env \<Rightarrow> msg_source \<Rightarrow> string \<Rightarrow> string \<Rightarrow> (parsed_message, idl_error option) res" where
  "parse_source E source package name =
     (case source of
        MsgFile path \<Rightarrow> parse_msg_file E path package
      | MsgEmbedded text \<Rightarrow>
          map_err Some (parse_msg_string (me_parse_f64 E) text package
            (path_of_str (''<embedded>/'' @ package @ ''/msg/'' @ name @ ''.msg''))))"

definition own_package :: "string \<Rightarrow> parsed_message \<Rightarrow> parsed_message" where
  "own_package package msg =
     msg\<lparr>pm_fields := map (\<lambda>f. if ft_package (fl_type f) = None then f\<lparr>fl_type := (fl_type f)\<lparr>ft_package := Some package\<rparr>\<rparr> else f)
                        (pm_fields msg)\<rparr>"

section \<open>Loading ends\<close>

text \<open>Only finitely many type names have a source.\<close>

definition has_source :: "msg_env \<Rightarrow> string \<Rightarrow> bool" where
  "has_source E t = (case split_msg_type t of None \<Rightarrow> False | Some (p, n) \<Rightarrow> find_source E p n \<noteq> None)"

definition file_words :: "msg_env \<Rightarrow> string set" where
  "file_words E = {[], ''.''} \<union> (\<Union>p\<in>fst ` set (me_files E). set (pb_components p))"

lemma path_join_in: "c \<in> set (pb_components (path_join p c)) \<or> c = [] \<or> c = ''.''"
  by (simp add: path_join_def)

lemma path_join_mono: "set (pb_components p) \<subseteq> set (pb_components (path_join p c))"
  by (auto simp: path_join_def)

lemma is_file_words: "is_file E p \<Longrightarrow> set (pb_components p) \<subseteq> file_words E"
  by (force simp: is_file_def file_words_def dest: map_of_SomeD)

lemma found_words:
  assumes "find_in_entries E package name entries = Some p"
  shows "package \<in> file_words E \<union> {w. \<exists>e\<in>set entries. file_name (path_of_str (trim e)) = Some w}"
    and "name @ ''.msg'' \<in> file_words E"
proof -
  have words: "c \<in> file_words E" if "is_file E (path_join (path_join q c) d)" for q c d
    using is_file_words [OF that] path_join_in [of c q] path_join_mono [of "path_join q c" d]
    by (auto simp: file_words_def)
  have last: "d \<in> file_words E" if "is_file E (path_join q d)" for q d
    using is_file_words [OF that] path_join_in [of d q] by (auto simp: file_words_def)
  have first: "c \<in> file_words E" if "is_file E (path_join (path_join (path_join q c) d) e)" for q c d e
    using is_file_words [OF that] path_join_in [of c q] path_join_mono [of "path_join q c" d]
      path_join_mono [of "path_join (path_join q c) d" e] by (auto simp: file_words_def)
  show "package \<in> file_words E \<union> {w. \<exists>e\<in>set entries. file_name (path_of_str (trim e)) = Some w}"
    using assms by (induction entries) (auto simp: Let_def dest: first split: if_splits)
  show "name @ ''.msg'' \<in> file_words E"
    using assms by (induction entries) (auto simp: Let_def dest: last split: if_splits)
qed

lemma finite_file_words: "finite (file_words E)"
  by (simp add: file_words_def)

lemma finite_sources: "finite {(p, n). find_source E p n \<noteq> None}"
proof -
  let ?es = "case me_msg_path E of None \<Rightarrow> [] | Some m \<Rightarrow> split_on CHR '':'' m"
  let ?P = "file_words E \<union> {w. \<exists>e\<in>set ?es. file_name (path_of_str (trim e)) = Some w}"
  let ?N = "{n. n @ ''.msg'' \<in> file_words E}"
  have "finite {w. \<exists>e\<in>set ?es. file_name (path_of_str (trim e)) = Some w}"
    by (rule finite_subset [of _ "(\<lambda>e. the (file_name (path_of_str (trim e)))) ` set ?es"]) (force, rule finite_imageI, rule finite_set)
  then have "finite ?P" using finite_file_words by simp
  moreover have "finite ?N"
    using finite_vimageI [OF finite_file_words, of "\<lambda>n. n @ ''.msg''" E] by (simp add: vimage_def inj_def)
  ultimately have "finite (?P \<times> ?N)" by simp
  moreover have "{(p, n). find_msg_file E p n \<noteq> None} \<subseteq> ?P \<times> ?N"
    using found_words [of E _ _ ?es] by (fastforce simp: find_msg_file_def split: option.splits)
  ultimately have files: "finite {(p, n). find_msg_file E p n \<noteq> None}" using finite_subset by blast
  have "finite {(p, n). embedded_msg_source E p n \<noteq> None}"
  proof -
    have "{(p, n). embedded_msg_source E p n \<noteq> None} \<subseteq>
        (\<Union>k\<in>fst ` set (me_embedded E). \<Union>i\<in>{..length k}. {(take i k, drop (i + 5) k)})"
    proof clarify
      fix p n t assume "embedded_msg_source E p n = Some t"
      then have "p @ ''/msg/'' @ n \<in> fst ` set (me_embedded E)"
        by (force simp: embedded_msg_source_def dest: map_of_SomeD)
      then show "(p, n) \<in> (\<Union>k\<in>fst ` set (me_embedded E). \<Union>i\<in>{..length k}. {(take i k, drop (i + 5) k)})"
        by (intro UN_I [of "p @ ''/msg/'' @ n"] UN_I [of "length p"]) simp_all
    qed
    then show ?thesis by (rule finite_subset) simp
  qed
  with files have "finite ({(p, n). find_msg_file E p n \<noteq> None} \<union> {(p, n). embedded_msg_source E p n \<noteq> None})" by simp
  then show ?thesis
    by (rule finite_subset [rotated]) (auto simp: find_source_def split: option.splits)
qed

lemma split_msg_type_names: "split_msg_type t = Some (p, n) \<Longrightarrow> t = p @ ''/msg/'' @ n \<or> t = p @ ''/'' @ n"
proof -
  assume as: "split_msg_type t = Some (p, n)"
  have "t = join_with CHR ''/'' (split_on CHR ''/'' t)" by (simp add: join_split_on)
  with as show ?thesis by (auto simp: split_msg_type_def split: list.splits if_splits)
qed

lemma finite_has_source: "finite {t. has_source E t}"
proof -
  let ?S = "{(p, n). find_source E p n \<noteq> None}"
  have "{t. has_source E t} \<subseteq> (\<lambda>(p, n). p @ ''/msg/'' @ n) ` ?S \<union> (\<lambda>(p, n). p @ ''/'' @ n) ` ?S"
    by (force simp: has_source_def split: option.splits dest: split_msg_type_names)
  then show ?thesis by (rule finite_subset) (intro finite_UnI finite_imageI finite_sources)
qed

text \<open>
  \<open>in_progress\<close> holds the types whose definitions are being loaded. The source inserts a type
  before its fields are converted and removes it on every way out, so the set is an argument.
\<close>

function load_schema_inner :: "msg_env \<Rightarrow> string \<Rightarrow> string list \<Rightarrow> (message_schema, unit) loading" where
  "load_schema_inner E type_name in_progress r =
     (case get_schema type_name r of
        Some schema \<Rightarrow> (Ok schema, r)
      | None \<Rightarrow>
          (case split_msg_type type_name of
             None \<Rightarrow> (Err (), r)
           | Some (package, name) \<Rightarrow>
               (case find_source E package name of
                  None \<Rightarrow> (Err (), r)
                | Some source \<Rightarrow>
                    if type_name \<in> set in_progress then (Err (), r)
                    else
                      (case parse_source E source package name of
                         Err _ \<Rightarrow> (Err (), r)
                       | Panic \<Rightarrow> (Panic, r)
                       | Ok parsed \<Rightarrow>
                           (case parsed_message_to_schema
                                   (\<lambda>field_pkg field_type r'. load_schema_inner E (field_pkg @ ''/msg/'' @ field_type) (type_name # in_progress) r')
                                   (own_package package parsed) r of
                              (Ok schema, r') \<Rightarrow> (Ok schema, register_schema schema r')
                            | (Err _, r') \<Rightarrow> (Err (), r')
                            | (Panic, r') \<Rightarrow> (Panic, r'))))))"
  by auto
termination
proof (relation "measure (\<lambda>(E, t, ip, r). card ({t. has_source E t} - set ip))", goal_cases)
  case (2 E type_name ip r p package name source parsed field_pkg field_type r')
  then have "has_source E type_name" "type_name \<notin> set ip" by (auto simp: has_source_def)
  then have "{t. has_source E t} - set (type_name # ip) \<subset> {t. has_source E t} - set ip" by auto
  then show ?case using finite_has_source [of E] by (simp add: psubset_card_mono)
qed simp

declare load_schema_inner.simps [simp del]

definition load_schema :: "msg_env \<Rightarrow> string \<Rightarrow> (message_schema, unit) loading" where
  "load_schema E type_name = load_schema_inner E type_name []"

section \<open>What the loader yields\<close>

definition inline_type :: "string \<Rightarrow> field_type option" where
  "inline_type base_type = (case primitive_field_type base_type of Some t \<Rightarrow> Some t | None \<Rightarrow> bounded_string_type base_type)"

text \<open>The schemas that definitions stand for: a definition whose fields have types that stand for schemas.\<close>

inductive loads :: "msg_env \<Rightarrow> string \<Rightarrow> message_schema \<Rightarrow> bool"
  and loads_base :: "msg_env \<Rightarrow> idl_field_type \<Rightarrow> field_type \<Rightarrow> bool"
  and loads_fields :: "msg_env \<Rightarrow> idl_field list \<Rightarrow> field_schema list \<Rightarrow> bool" for E where
  defined: "split_msg_type t = Some (p, n) \<Longrightarrow> find_source E p n = Some src \<Longrightarrow> parse_source E src p n = Ok m \<Longrightarrow>
     loads_fields E (pm_fields (own_package p m)) gs \<Longrightarrow>
     loads E t (MessageSchema (pm_package m @ ''/msg/'' @ pm_name m) (pm_package m) (pm_name m) gs None)"
| plain: "inline_type (ft_base_type ft) = Some b \<Longrightarrow> loads_base E ft b"
| message: "inline_type (ft_base_type ft) = None \<Longrightarrow> ft_package ft = Some p \<Longrightarrow>
     loads E (p @ ''/msg/'' @ ft_base_type ft) s \<Longrightarrow> loads_base E ft (FMessage s)"
| nil: "loads_fields E [] []"
| cons: "loads_base E (fl_type f) b \<Longrightarrow> loads_fields E fs gs \<Longrightarrow>
     loads_fields E (f # fs) (FieldSchema (fl_name f) (apply_array (ft_array (fl_type f)) b) None # gs)"

inductive_cases loads_cases: "loads E t s"
inductive_cases loads_base_cases: "loads_base E ft b"
inductive_cases loads_fields_cases: "loads_fields E [] gs" "loads_fields E (f # fs) gs"

lemma loads_unique:
  "loads E t s \<Longrightarrow> loads E t s' \<Longrightarrow> s = s'"
  "loads_base E ft b \<Longrightarrow> loads_base E ft b' \<Longrightarrow> b = b'"
  "loads_fields E fs gs \<Longrightarrow> loads_fields E fs gs' \<Longrightarrow> gs = gs'"
proof (induction arbitrary: s' and b' and gs' rule: loads_loads_base_loads_fields.inducts)
  case (defined t p n src m gs)
  from defined.prems obtain gs' where "s' = MessageSchema (pm_package m @ ''/msg/'' @ pm_name m) (pm_package m) (pm_name m) gs' None"
      "loads_fields E (pm_fields (own_package p m)) gs'"
    using defined(1-3) by (cases rule: loads_cases) auto
  with defined.IH show ?case by simp
next
  case (plain ft b)
  then show ?case by (auto elim!: loads_base_cases)
next
  case (message ft p s)
  from message.prems message(1,2) obtain s' where "b' = FMessage s'" "loads E (p @ ''/msg/'' @ ft_base_type ft) s'"
    by (cases rule: loads_base_cases) auto
  with message.IH show ?case by simp
next
  case nil
  then show ?case by (auto elim!: loads_fields_cases)
next
  case (cons f b fs gs)
  from cons.prems obtain c hs where "gs' = FieldSchema (fl_name f) (apply_array (ft_array (fl_type f)) c) None # hs"
      "loads_base E (fl_type f) c" "loads_fields E fs hs"
    by (cases rule: loads_fields_cases(2)) auto
  with cons.IH show ?case by simp
qed

lemma map_err_eq_Ok: "map_err f m = Ok a \<longleftrightarrow> m = Ok a"
  by (cases m) simp_all

text \<open>A file is found under the name it is asked for.\<close>

lemma found_last:
  "find_in_entries E package name entries = Some p \<Longrightarrow> pb_components p \<noteq> [] \<and> last (pb_components p) = name @ ''.msg''"
  by (induction entries) (auto simp: Let_def path_join_def split: if_splits)

lemma message_name_of_file:
  assumes "pb_components p \<noteq> []" and "last (pb_components p) = n @ ''.msg''" and "n \<noteq> []" and "message_name p = Ok name"
  shows "name = n"
proof -
  have "file_name p = Some (n @ ''.msg'')" using assms(1,2) by (auto simp: file_name_def)
  moreover have "rsplit_dot (n @ ''.msg'') = Some (n, ''msg'')"
    using rsplit_dot_append [of "''msg''" n] by simp
  ultimately have "file_stem p = Some n" using assms(3) by (simp add: file_stem_def)
  then show ?thesis using assms(4) by (auto simp: message_name_def split: if_splits)
qed

lemma parsed_names:
  assumes "parse_msg_string pf source package path = Ok m"
  shows "pm_package m = package" and "message_name path = Ok (pm_name m)"
  using assms by (auto simp: parse_msg_string_def res_bind_eq_Ok)

lemma source_names:
  assumes "find_source E p n = Some src" and "parse_source E src p n = Ok m" and "n \<noteq> []" and "CHR ''/'' \<notin> set n"
  shows "pm_package m = p \<and> pm_name m = n"
proof (cases src)
  case (MsgFile path)
  then have "find_msg_file E p n = Some path" using assms(1) by (auto simp: find_source_def split: option.splits)
  then have "pb_components path \<noteq> [] \<and> last (pb_components path) = n @ ''.msg''"
    by (auto simp: find_msg_file_def dest: found_last split: option.splits)
  moreover obtain source where "parse_msg_string (me_parse_f64 E) source p path = Ok m"
    using assms(2) MsgFile by (auto simp: parse_source_def parse_msg_file_def map_err_eq_Ok split: option.splits)
  ultimately show ?thesis using parsed_names message_name_of_file assms(3) by metis
next
  case (MsgEmbedded source)
  let ?path = "path_of_str (''<embedded>/'' @ p @ ''/msg/'' @ n @ ''.msg'')"
  have "split_on CHR ''/'' (''<embedded>/'' @ p @ ''/msg/'' @ n @ ''.msg'') = ''<embedded>'' # split_on CHR ''/'' p @ [''msg'', n @ ''.msg'']"
    using assms(4) split_on_append [of "CHR ''/''" "''<embedded>''" "p @ ''/msg/'' @ n @ ''.msg''"]
      split_on_append [of "CHR ''/''" p "''msg/'' @ n @ ''.msg''"] split_on_append [of "CHR ''/''" "''msg''" "n @ ''.msg''"]
    by (simp add: split_on_sep_free)
  then have "pb_components ?path \<noteq> [] \<and> last (pb_components ?path) = n @ ''.msg''"
    unfolding path_of_str_def by simp
  moreover have "parse_msg_string (me_parse_f64 E) source p ?path = Ok m"
    using assms(2) MsgEmbedded by (simp add: parse_source_def map_err_eq_Ok)
  ultimately show ?thesis
    using parsed_names [of "me_parse_f64 E" source p ?path m] message_name_of_file [of ?path n "pm_name m"] assms(3) by simp
qed

text \<open>No definition file is called just \<open>.msg\<close>.\<close>

definition named_sources :: "msg_env \<Rightarrow> bool" where
  "named_sources E \<longleftrightarrow> (\<forall>p. find_source E p [] = None)"

lemma split_msg_type_no_slash: "split_msg_type t = Some (p, n) \<Longrightarrow> CHR ''/'' \<notin> set p \<and> CHR ''/'' \<notin> set n"
  using split_on_no_sep [of _ "CHR ''/''" t] by (auto simp: split_msg_type_def split: list.splits if_splits)

lemma split_full_name: "CHR ''/'' \<notin> set p \<Longrightarrow> CHR ''/'' \<notin> set n \<Longrightarrow> split_msg_type (p @ ''/msg/'' @ n) = Some (p, n)"
  using split_on_append [of "CHR ''/''" p "''msg/'' @ n"] split_on_append [of "CHR ''/''" "''msg''" n]
  by (simp add: split_msg_type_def split_on_sep_free)

lemma loads_registered:
  assumes "named_sources E" and "loads E t s"
  shows "loads E (ms_type_name s) s"
proof -
  obtain p n src m gs where d: "split_msg_type t = Some (p, n)" "find_source E p n = Some src" "parse_source E src p n = Ok m"
      "loads_fields E (pm_fields (own_package p m)) gs"
      "s = MessageSchema (pm_package m @ ''/msg/'' @ pm_name m) (pm_package m) (pm_name m) gs None"
    using assms(2) by (auto elim: loads_cases)
  have slash: "CHR ''/'' \<notin> set p" "CHR ''/'' \<notin> set n" using split_msg_type_no_slash [OF d(1)] by auto
  have "n \<noteq> []" using assms(1) d(2) by (auto simp: named_sources_def)
  then have "pm_package m = p" "pm_name m = n" using source_names [OF d(2,3)] slash by auto
  then show ?thesis using loads_loads_base_loads_fields.defined [OF split_full_name [OF slash] d(2,3,4)] d(5) by simp
qed

text \<open>
  A registry that holds only what definitions stand for, and computations that keep it so:
  what they yield, and what they are sure to give.
\<close>

definition consistent :: "msg_env \<Rightarrow> registry \<Rightarrow> bool" where
  "consistent E r \<longleftrightarrow> (\<forall>t s. r t = Some s \<longrightarrow> loads E t s)"

definition ld_yields :: "msg_env \<Rightarrow> ('a, 'e) loading \<Rightarrow> ('a \<Rightarrow> bool) \<Rightarrow> bool" where
  "ld_yields E m Q \<longleftrightarrow> (\<forall>r. consistent E r \<longrightarrow>
     consistent E (snd (m r)) \<and> r \<subseteq>\<^sub>m snd (m r) \<and> (\<forall>a. fst (m r) = Ok a \<longrightarrow> Q a))"

definition ld_gives :: "msg_env \<Rightarrow> ('a, 'e) loading \<Rightarrow> 'a \<Rightarrow> bool" where
  "ld_gives E m a \<longleftrightarrow> (\<forall>r. consistent E r \<longrightarrow> fst (m r) = Ok a)"

lemma ld_yieldsD:
  assumes "ld_yields E m Q" and "consistent E r" and "m r = (x, r')"
  shows "consistent E r'" and "r \<subseteq>\<^sub>m r'" and "x = Ok a \<Longrightarrow> Q a"
  using assms unfolding ld_yields_def by force+

lemma ld_return: "Q a \<Longrightarrow> ld_yields E (Pair (Ok a)) Q" "ld_gives E (Pair (Ok a)) a"
  by (simp_all add: ld_yields_def ld_gives_def)

lemma ld_yields_bind:
  assumes "ld_yields E m P" and "\<And>a. P a \<Longrightarrow> ld_yields E (k a) Q"
  shows "ld_yields E (ld_bind m k) Q"
  unfolding ld_yields_def
proof (intro allI impI)
  fix r assume r: "consistent E r"
  obtain x r1 where m: "m r = (x, r1)" by fastforce
  note 1 = ld_yieldsD [OF assms(1) r m]
  show "consistent E (snd (ld_bind m k r)) \<and> r \<subseteq>\<^sub>m snd (ld_bind m k r) \<and> (\<forall>a. fst (ld_bind m k r) = Ok a \<longrightarrow> Q a)"
  proof (cases x)
    case (Ok a)
    obtain y r2 where k: "k a r1 = (y, r2)" by fastforce
    note 2 = ld_yieldsD [OF assms(2) [OF 1(3) [OF Ok]] 1(1) k]
    show ?thesis using 2 map_le_trans [OF 1(2) 2(2)] by (simp add: ld_bind_def m Ok k)
  qed (use 1 in \<open>simp_all add: ld_bind_def m\<close>)
qed

lemma ld_gives_bind:
  assumes "ld_yields E m P" and "ld_gives E m a" and "ld_gives E (k a) b"
  shows "ld_gives E (ld_bind m k) b"
  unfolding ld_gives_def
proof (intro allI impI)
  fix r assume r: "consistent E r"
  obtain x r1 where m: "m r = (x, r1)" by fastforce
  have "consistent E r1" by (rule ld_yieldsD(1) [OF assms(1) r m])
  moreover have "x = Ok a" using assms(2) r m unfolding ld_gives_def by force
  ultimately show "fst (ld_bind m k r) = Ok b" using assms(3) m by (simp add: ld_bind_def ld_gives_def)
qed

lemma convert_base_plain: "inline_type b = Some t \<Longrightarrow> convert_base_type resolver b p = Pair (Ok t)"
  by (rule ext) (auto simp: convert_base_type_def inline_type_def split: option.splits)

lemma convert_base_message:
  "inline_type b = None \<Longrightarrow> convert_base_type resolver b (Some p) r =
     (case resolver p b r of (Ok s, r') \<Rightarrow> (Ok (FMessage s), r')
      | (Err _, r') \<Rightarrow> (Err (SchemaNotFound (p @ ''/msg/'' @ b)), r') | (Panic, r') \<Rightarrow> (Panic, r'))"
  by (auto simp: convert_base_type_def inline_type_def split: option.splits)

lemma convert_base_yields:
  assumes "\<And>p b. ld_yields E (resolver p b) (loads E (p @ ''/msg/'' @ b))"
  shows "ld_yields E (convert_base_type resolver (ft_base_type ft) (ft_package ft)) (loads_base E ft)"
proof (cases "inline_type (ft_base_type ft)")
  case (Some b)
  then show ?thesis by (simp add: convert_base_plain ld_return loads_loads_base_loads_fields.plain)
next
  case None
  show ?thesis
  proof (cases "ft_package ft")
    case no_package: None
    then show ?thesis using None by (auto simp: ld_yields_def convert_base_type_def inline_type_def split: option.splits)
  next
    case (Some p)
    have "consistent E (snd (convert_base_type resolver (ft_base_type ft) (Some p) r)) \<and>
        r \<subseteq>\<^sub>m snd (convert_base_type resolver (ft_base_type ft) (Some p) r) \<and>
        (\<forall>a. fst (convert_base_type resolver (ft_base_type ft) (Some p) r) = Ok a \<longrightarrow> loads_base E ft a)"
      if r: "consistent E r" for r
    proof -
      obtain x r1 where m: "resolver p (ft_base_type ft) r = (x, r1)" by fastforce
      note 1 = ld_yieldsD [OF assms r m]
      show ?thesis
        using 1 loads_loads_base_loads_fields.message [OF None Some]
        by (cases x) (auto simp: convert_base_message [OF None] m)
    qed
    then show ?thesis by (simp add: ld_yields_def Some)
  qed
qed

lemma convert_field_yields:
  assumes "\<And>p b. ld_yields E (resolver p b) (loads E (p @ ''/msg/'' @ b))"
  shows "ld_yields E (convert_field resolver f)
    (\<lambda>g. \<exists>b. loads_base E (fl_type f) b \<and> g = FieldSchema (fl_name f) (apply_array (ft_array (fl_type f)) b) None)"
  unfolding convert_field_def convert_field_type_def
  by (rule ld_yields_bind [where P = "\<lambda>t. \<exists>b. loads_base E (fl_type f) b \<and> t = apply_array (ft_array (fl_type f)) b"],
      rule ld_yields_bind [OF convert_base_yields [OF assms]]) (auto intro!: ld_return)

lemma collect_fields_yields:
  assumes "\<And>p b. ld_yields E (resolver p b) (loads E (p @ ''/msg/'' @ b))"
  shows "ld_yields E (ld_collect (convert_field resolver) fs) (loads_fields E fs)"
proof (induction fs)
  case Nil
  then show ?case by (simp add: ld_return loads_loads_base_loads_fields.nil)
next
  case (Cons f fs)
  show ?case
    unfolding ld_collect.simps
    by (rule ld_yields_bind [OF convert_field_yields [OF assms]], rule ld_yields_bind [OF Cons])
       (auto intro!: ld_return loads_loads_base_loads_fields.cons)
qed

lemma register_consistent:
  assumes "named_sources E" and "consistent E r" and "loads E t s"
  shows "consistent E (register_schema s r)" and "r \<subseteq>\<^sub>m register_schema s r"
proof -
  have reg: "loads E (ms_type_name s) s" by (rule loads_registered [OF assms(1,3)])
  then show "consistent E (register_schema s r)" using assms(2) by (simp add: consistent_def register_schema_def)
  have "s' = s" if "r (ms_type_name s) = Some s'" for s'
    using assms(2) that reg loads_unique(1) unfolding consistent_def by blast
  then show "r \<subseteq>\<^sub>m register_schema s r" by (auto simp: map_le_def register_schema_def)
qed

text \<open>The loader on a type that is not registered, has a definition and is not being loaded.\<close>

abbreviation field_loader :: "msg_env \<Rightarrow> string list \<Rightarrow> type_resolver" where
  "field_loader E ip \<equiv> \<lambda>field_pkg field_type. load_schema_inner E (field_pkg @ ''/msg/'' @ field_type) ip"

lemma load_unregistered:
  assumes "r t = None" and "split_msg_type t = Some (p, n)" and "find_source E p n = Some src" and "t \<notin> set ip"
    and "parse_source E src p n = Ok m"
  shows "load_schema_inner E t ip r =
    (case ld_collect (convert_field (field_loader E (t # ip))) (pm_fields (own_package p m)) r of
       (Ok gs, r') \<Rightarrow> let s = MessageSchema (pm_package m @ ''/msg/'' @ pm_name m) (pm_package m) (pm_name m) gs None
                      in (Ok s, register_schema s r')
     | (Err _, r') \<Rightarrow> (Err (), r') | (Panic, r') \<Rightarrow> (Panic, r'))"
  using assms by (subst load_schema_inner.simps)
    (auto simp: get_schema_def parsed_message_to_schema_def ld_bind_def own_package_def Let_def split: res.splits prod.splits)

lemma load_stuck:
  assumes "r t = None" and "\<nexists>p n src m. split_msg_type t = Some (p, n) \<and> find_source E p n = Some src \<and> t \<notin> set ip \<and> parse_source E src p n = Ok m"
  shows "snd (load_schema_inner E t ip r) = r \<and> (\<forall>s. fst (load_schema_inner E t ip r) \<noteq> Ok s)"
  using assms by (subst (1 2) load_schema_inner.simps) (auto simp: get_schema_def split: option.splits res.splits)

lemma load_yields:
  assumes "named_sources E"
  shows "ld_yields E (load_schema_inner E t ip) (loads E t)"
proof -
  have "consistent E r \<Longrightarrow> consistent E (snd (load_schema_inner E t ip r)) \<and> r \<subseteq>\<^sub>m snd (load_schema_inner E t ip r) \<and>
      (\<forall>s. fst (load_schema_inner E t ip r) = Ok s \<longrightarrow> loads E t s)" for r
    using assms
  proof (induction E t ip r rule: load_schema_inner.induct)
    case (1 E t ip r)
    show ?case
    proof (cases "r t")
      case (Some s)
      then have "load_schema_inner E t ip r = (Ok s, r)" by (subst load_schema_inner.simps) (simp add: get_schema_def)
      with Some 1(2) show ?thesis by (simp add: consistent_def)
    next
      case unregistered: None
      show ?thesis
      proof (cases "\<exists>p n src m. split_msg_type t = Some (p, n) \<and> find_source E p n = Some src \<and> t \<notin> set ip \<and> parse_source E src p n = Ok m")
        case False
        from load_stuck [of r t E ip, OF unregistered False] 1(2) show ?thesis by simp
      next
        case True
        then obtain p n src m where d: "split_msg_type t = Some (p, n)" "find_source E p n = Some src" "t \<notin> set ip"
            "parse_source E src p n = Ok m" by blast
        have "ld_yields E (field_loader E (t # ip) q b) (loads E (q @ ''/msg/'' @ b))" for q b
          using 1(1) [OF _ d(1) refl d(2,3,4)] unregistered 1(3) unfolding ld_yields_def get_schema_def by blast
        then have fields: "ld_yields E (ld_collect (convert_field (field_loader E (t # ip))) (pm_fields (own_package p m)))
            (loads_fields E (pm_fields (own_package p m)))"
          by (rule collect_fields_yields)
        obtain x r1 where m: "ld_collect (convert_field (field_loader E (t # ip))) (pm_fields (own_package p m)) r = (x, r1)" by fastforce
        note 2 = ld_yieldsD [OF fields 1(2) m]
        note step = load_unregistered [of r t p n E src ip m, OF unregistered d]
        show ?thesis
        proof (cases x)
          case (Ok gs)
          let ?s = "MessageSchema (pm_package m @ ''/msg/'' @ pm_name m) (pm_package m) (pm_name m) gs None"
          have l: "loads E t ?s"
            using loads_loads_base_loads_fields.defined [OF d(1,2,4) 2(3) [OF Ok]] .
          have "load_schema_inner E t ip r = (Ok ?s, register_schema ?s r1)"
            using step m Ok by (simp add: Let_def)
          then show ?thesis
            using l register_consistent [OF 1(3) 2(1) l] map_le_trans [OF 2(2)] by simp
        qed (use 2 step m in simp_all)
      qed
    qed
  qed
  then show ?thesis by (simp add: ld_yields_def)
qed

text \<open>The types being loaded are all larger than what is loaded for them: none of them is met again.\<close>

definition pending_above :: "msg_env \<Rightarrow> string list \<Rightarrow> nat \<Rightarrow> bool" where
  "pending_above E ip k \<longleftrightarrow> (\<forall>x\<in>set ip. \<forall>s. loads E x s \<longrightarrow> k \<le> size s)"

lemma pending_above_Cons: "pending_above E ip k \<Longrightarrow> loads E t s \<Longrightarrow> size s < k \<Longrightarrow> pending_above E (t # ip) (size s)"
  using loads_unique(1) unfolding pending_above_def by (fastforce dest: less_imp_le order_trans)

lemma size_apply_array: "size b \<le> size (apply_array a b)"
  by (cases a) (simp_all add: apply_array_def)

lemma load_gives:
  assumes "named_sources E"
  shows "loads E t s \<Longrightarrow> pending_above E ip k \<Longrightarrow> size s < k \<Longrightarrow> ld_gives E (load_schema_inner E t ip) s"
    and "loads_base E ft b \<Longrightarrow> pending_above E ip k \<Longrightarrow> size b < k \<Longrightarrow>
      ld_gives E (convert_base_type (field_loader E ip) (ft_base_type ft) (ft_package ft)) b"
    and "loads_fields E fs gs \<Longrightarrow> pending_above E ip k \<Longrightarrow> (\<And>g. g \<in> set gs \<Longrightarrow> size (fs_type g) < k) \<Longrightarrow>
      ld_gives E (ld_collect (convert_field (field_loader E ip)) fs) gs"
proof (induction arbitrary: ip k and ip k and ip k rule: loads_loads_base_loads_fields.inducts)
  case (defined t p n src m gs)
  let ?s = "MessageSchema (pm_package m @ ''/msg/'' @ pm_name m) (pm_package m) (pm_name m) gs None"
  have l: "loads E t ?s" by (rule loads_loads_base_loads_fields.defined) fact+
  have new: "t \<notin> set ip" using defined.prems l by (force simp: pending_above_def)
  have "pending_above E (t # ip) (size ?s)" by (rule pending_above_Cons [OF defined.prems(1) l defined.prems(2)])
  then have gs: "ld_gives E (ld_collect (convert_field (field_loader E (t # ip))) (pm_fields (own_package p m))) gs"
    using size_ms_field [of _ ?s] by (intro defined.IH) simp_all
  have "fst (load_schema_inner E t ip r) = Ok ?s" if r: "consistent E r" for r
  proof (cases "r t")
    case (Some s)
    then have "s = ?s" using r l loads_unique(1) unfolding consistent_def by blast
    with Some show ?thesis by (subst load_schema_inner.simps) (simp add: get_schema_def)
  next
    case None
    obtain r' where "ld_collect (convert_field (field_loader E (t # ip))) (pm_fields (own_package p m)) r = (Ok gs, r')"
      using gs r unfolding ld_gives_def by (metis prod.collapse)
    then show ?thesis
      using load_unregistered [of r t p n E src ip m, OF None defined(1,2) new defined(3)] by (simp add: Let_def)
  qed
  then show ?case by (simp add: ld_gives_def)
next
  case (plain ft b)
  then show ?case by (simp add: convert_base_plain ld_return)
next
  case (message ft p s)
  have "ld_gives E (field_loader E ip p (ft_base_type ft)) s" using message.prems by (intro message.IH) auto
  then show ?case
    unfolding ld_gives_def message(2) by (auto simp: convert_base_message [OF message(1)] split: prod.split)
next
  case nil
  then show ?case by (simp add: ld_return)
next
  case (cons f b fs gs)
  note resolver = load_yields [OF assms, where ip = ip]
  have "size b < k" using cons.prems(2) [of "FieldSchema (fl_name f) (apply_array (ft_array (fl_type f)) b) None"]
    size_apply_array [of b "ft_array (fl_type f)"] by simp
  then have b: "ld_gives E (convert_base_type (field_loader E ip) (ft_base_type (fl_type f)) (ft_package (fl_type f))) b"
    by (rule cons(2) [OF cons.prems(1)])
  have "ld_gives E (convert_field (field_loader E ip) f) (FieldSchema (fl_name f) (apply_array (ft_array (fl_type f)) b) None)"
    unfolding convert_field_def convert_field_type_def
    by (rule ld_gives_bind [OF ld_yields_bind [OF convert_base_yields [OF resolver]] ld_gives_bind [OF convert_base_yields [OF resolver] b]])
       (auto intro: ld_return)
  moreover have "ld_gives E (ld_collect (convert_field (field_loader E ip)) fs) gs"
    using cons.prems by (intro cons(4)) auto
  ultimately show ?case
    unfolding ld_collect.simps
    by (intro ld_gives_bind [OF convert_field_yields [OF resolver]] ld_gives_bind [OF collect_fields_yields [OF resolver]]) (auto intro: ld_return)
qed

lemma load_correct:
  assumes "named_sources E" and "consistent E r"
  shows "fst (load_schema E t r) = Ok s \<longleftrightarrow> loads E t s"
    and "consistent E (snd (load_schema E t r))" and "r \<subseteq>\<^sub>m snd (load_schema E t r)"
proof -
  note yields = load_yields [OF assms(1), of t "[]"]
  have "fst (load_schema_inner E t [] r) = Ok s" if "loads E t s"
    using load_gives(1) [OF assms(1) that, of "[]" "Suc (size s)"] assms(2) by (simp add: pending_above_def ld_gives_def)
  then show "fst (load_schema E t r) = Ok s \<longleftrightarrow> loads E t s"
    using yields assms(2) unfolding ld_yields_def load_schema_def by blast
  show "consistent E (snd (load_schema E t r))" "r \<subseteq>\<^sub>m snd (load_schema E t r)"
    using yields assms(2) unfolding ld_yields_def load_schema_def by blast+
qed

text \<open>
  C7: The loader yields a schema for a type exactly when the definition of the type, and of all
  types it refers to, is found, can be parsed and leads to no cycle, and then the schema those
  definitions stand for; in particular it always ends. Whether it succeeds or not it keeps
  what the registry holds, and adds only schemas that stand for their definitions.
\<close>

theorem load_exact:
  assumes "named_sources E" and "consistent E r"
  shows "(fst (load_schema E t r) = Ok s \<longleftrightarrow> loads E t s) \<and>
    consistent E (snd (load_schema E t r)) \<and> r \<subseteq>\<^sub>m snd (load_schema E t r)"
  using load_correct [OF assms] by blast

section \<open>The loader and the code generator\<close>

definition full_name :: "parsed_message \<Rightarrow> string" where
  "full_name m = pm_package m @ ''/msg/'' @ pm_name m"

definition provides :: "msg_env \<Rightarrow> parsed_message \<Rightarrow> bool" where
  "provides E m \<longleftrightarrow> CHR ''/'' \<notin> set (pm_name m) \<and> (case find_source E (pm_package m) (pm_name m) of
     None \<Rightarrow> False | Some src \<Rightarrow> parse_source E src (pm_package m) (pm_name m) = Ok m)"

text \<open>The field types that the loader and the code generator describe alike.\<close>

definition portable_type :: "idl_field_type \<Rightarrow> bool" where
  "portable_type ft \<longleftrightarrow> ft_string_bound ft = None \<and> ft_base_type ft \<noteq> ''byte'' \<and>
     (if is_primitive_type (ft_base_type ft) then ft_package ft = None else bounded_string_type (ft_base_type ft) = None)"

definition portable :: "parsed_message \<Rightarrow> bool" where
  "portable m \<longleftrightarrow> pm_fields m \<noteq> [] \<and> list_all (\<lambda>f. portable_type (fl_type f)) (pm_fields m)"

definition in_package :: "string \<Rightarrow> idl_field_type \<Rightarrow> idl_field_type" where
  "in_package package ft = ft\<lparr>ft_package := Some (unwrap_or (ft_package ft) package)\<rparr>"

lemma own_package_fields: "pm_fields (own_package p m) = map (\<lambda>f. f\<lparr>fl_type := in_package p (fl_type f)\<rparr>) (pm_fields m)"
  by (auto simp: own_package_def in_package_def)

text \<open>The tables of the two sides, compared entry by entry.\<close>

definition scalar_types :: "field_type list" where
  "scalar_types = [FBool, FInt8, FInt16, FInt32, FInt64, FUint8, FUint16, FUint32, FUint64, FFloat32, FFloat64, FString]"

lemma scalar_described:
  assumes "t \<in> set scalar_types"
  shows "field_type_to_description (apply_array a t) =
      \<lparr>ftd_type_id = pick_id a (get_base_type_id t, get_base_type_id t + 48, get_base_type_id t + 96, get_base_type_id t + 144),
       ftd_capacity = (case a of AFixed n \<Rightarrow> n | ABounded n \<Rightarrow> n | _ \<Rightarrow> 0), ftd_string_capacity = 0, ftd_nested_type_name = []\<rparr>"
  using assms by (cases a) (auto simp: scalar_types_def apply_array_def pick_id_def ftd_primitive_def ftd_array_def)

lemma type_tables:
  "list_all (\<lambda>b. primitive_field_type b \<noteq> None \<or> b = ''wstring'') primitive_types"
  "list_all (\<lambda>(b, t). b \<in> set primitive_types) primitive_field_types"
  "list_all (\<lambda>(b, t). b = ''byte'' \<or> t \<in> set scalar_types \<and> map_of type_id_table b =
     Some (get_base_type_id t, get_base_type_id t + 48, get_base_type_id t + 96, get_base_type_id t + 144)) primitive_field_types"
  "map_of type_id_table ''wstring'' = None"
  by code_simp+

lemma primitive_described:
  assumes "primitive_field_type b = Some t"
  shows "is_primitive_type b" and "b \<noteq> ''byte'' \<Longrightarrow> t \<in> set scalar_types"
    and "b \<noteq> ''byte'' \<Longrightarrow>
      map_of type_id_table b = Some (get_base_type_id t, get_base_type_id t + 48, get_base_type_id t + 96, get_base_type_id t + 144)"
proof -
  have "(b, t) \<in> set primitive_field_types" using assms by (simp add: primitive_field_type_def map_of_SomeD)
  then show "is_primitive_type b" "b \<noteq> ''byte'' \<Longrightarrow> t \<in> set scalar_types" "b \<noteq> ''byte'' \<Longrightarrow>
      map_of type_id_table b = Some (get_base_type_id t, get_base_type_id t + 48, get_base_type_id t + 96, get_base_type_id t + 144)"
    using type_tables(2,3) unfolding list_all_iff is_primitive_type_def by fast+
qed

lemma primitive_supported:
  assumes "is_primitive_type (ft_base_type ft)" and "portable_type ft" and "is_ok (get_type_id ft)"
  shows "\<exists>t. primitive_field_type (ft_base_type ft) = Some t"
proof -
  have "primitive_field_type (ft_base_type ft) \<noteq> None \<or> ft_base_type ft = ''wstring''"
    using assms(1) type_tables(1) unfolding list_all_iff is_primitive_type_def by blast
  then show ?thesis
    using assms(3) assms(1,2) type_tables(4) by (auto simp: get_type_id_def portable_type_def)
qed

lemma message_described:
  "field_type_to_description (apply_array a (FMessage s)) =
     \<lparr>ftd_type_id = pick_id a (1, 49, 97, 145), ftd_capacity = (case a of AFixed n \<Rightarrow> n | ABounded n \<Rightarrow> n | _ \<Rightarrow> 0),
      ftd_string_capacity = 0, ftd_nested_type_name = ms_type_name s\<rparr>"
  by (cases a) (simp_all add: apply_array_def pick_id_def ftd_nested_def ftd_nested_array_def)

text \<open>What the code generator describes a portable field as, in the hash and for other types.\<close>

lemma build_portable:
  assumes "portable_type ft" and "get_type_id ft = Ok i"
  shows "build_field_type package ft = Ok
    \<lparr>ftd_type_id = i, ftd_capacity = get_array_capacity ft, ftd_string_capacity = 0,
     ftd_nested_type_name = (if is_primitive_type (ft_base_type ft) then [] else unwrap_or (ft_package ft) package @ ''/msg/'' @ ft_base_type ft)\<rparr>"
  using assms by (auto simp: build_field_type_def portable_type_def Let_def get_nested_type_name_with_context_def
      ftd_array_def ftd_primitive_def ftd_nested_array_def ftd_nested_def word_gt_0)

lemma portable_field:
  assumes "regular m" and "portable m" and "f \<in> set (pm_fields m)"
  shows "described_field m f = field_of (pm_package m) f"
proof -
  obtain i where "get_type_id (fl_type f) = Ok i"
    using assms(1,3) by (force simp: regular_def supported_def list_all_iff is_ok_iff)
  then show ?thesis
    using assms build_portable [of "fl_type f" i "pm_package m"]
    by (auto simp: described_field_def field_of_def Let_def regular_def component_name_def portable_def list_all_iff portable_type_def)
qed

definition loads_field :: "msg_env \<Rightarrow> idl_field \<Rightarrow> field_schema \<Rightarrow> bool" where
  "loads_field E f g \<longleftrightarrow> (\<exists>b. loads_base E (fl_type f) b \<and> g = FieldSchema (fl_name f) (apply_array (ft_array (fl_type f)) b) None)"

lemma loads_fields_iff: "loads_fields E fs gs \<longleftrightarrow> list_all2 (loads_field E) fs gs"
proof (induction fs arbitrary: gs)
  case Nil
  then show ?case by (auto elim: loads_fields_cases intro: loads_loads_base_loads_fields.nil)
next
  case (Cons f fs)
  show ?case
  proof
    assume "loads_fields E (f # fs) gs"
    then show "list_all2 (loads_field E) (f # fs) gs"
      by (cases rule: loads_fields_cases(2)) (auto simp: loads_field_def [of E f] Cons)
  next
    assume "list_all2 (loads_field E) (f # fs) gs"
    then obtain g hs where "gs = g # hs" "loads_field E f g" "list_all2 (loads_field E) fs hs"
      by (auto simp: list_all2_Cons1)
    then show "loads_fields E (f # fs) gs"
      by (auto simp: loads_field_def [of E f] Cons intro: loads_loads_base_loads_fields.cons)
  qed
qed

text \<open>The messages the code generator is given, found by the loader as well.\<close>

definition shared_definitions :: "msg_env \<Rightarrow> parsed_message list \<Rightarrow> bool" where
  "shared_definitions E ms \<longleftrightarrow> named_sources E \<and> distinct (map message_key ms) \<and>
     list_all (\<lambda>m. regular m \<and> portable m \<and> provides E m) ms"

lemma sharedD:
  assumes "shared_definitions E ms" and "m \<in> set ms"
  shows "named_sources E" and "regular m" and "portable m" and "provides E m" and "CHR ''/'' \<notin> set (pm_package m)"
  using assms by (auto simp: shared_definitions_def list_all_iff regular_def)

lemma loads_message:
  assumes "shared_definitions E ms" and "m \<in> set ms"
  shows "loads E (full_name m) s \<longleftrightarrow>
    (\<exists>gs. list_all2 (loads_field E) (map (\<lambda>f. f\<lparr>fl_type := in_package (pm_package m) (fl_type f)\<rparr>) (pm_fields m)) gs \<and>
       s = MessageSchema (full_name m) (pm_package m) (pm_name m) gs None)"
proof -
  note m = sharedD [OF assms]
  obtain src where src: "find_source E (pm_package m) (pm_name m) = Some src"
      "parse_source E src (pm_package m) (pm_name m) = Ok m"
    using m(4) by (auto simp: provides_def split: option.splits)
  have split: "split_msg_type (full_name m) = Some (pm_package m, pm_name m)"
    unfolding full_name_def using m(4,5) by (intro split_full_name) (auto simp: provides_def)
  show ?thesis
  proof
    assume "loads E (full_name m) s"
    then show "\<exists>gs. list_all2 (loads_field E) (map (\<lambda>f. f\<lparr>fl_type := in_package (pm_package m) (fl_type f)\<rparr>) (pm_fields m)) gs \<and>
       s = MessageSchema (full_name m) (pm_package m) (pm_name m) gs None"
      using split src by (cases rule: loads_cases) (auto simp: loads_fields_iff own_package_fields full_name_def)
  next
    assume "\<exists>gs. list_all2 (loads_field E) (map (\<lambda>f. f\<lparr>fl_type := in_package (pm_package m) (fl_type f)\<rparr>) (pm_fields m)) gs \<and>
       s = MessageSchema (full_name m) (pm_package m) (pm_name m) gs None"
    then obtain gs where "loads_fields E (pm_fields (own_package (pm_package m) m)) gs"
        "s = MessageSchema (full_name m) (pm_package m) (pm_name m) gs None"
      by (auto simp: loads_fields_iff own_package_fields)
    with loads_loads_base_loads_fields.defined [OF split src] show "loads E (full_name m) s" by (auto simp: full_name_def)
  qed
qed

lemma key_parts:
  assumes "a @ ''/'' @ b = a' @ ''/'' @ b'" and "CHR ''/'' \<notin> set a" and "CHR ''/'' \<notin> set a'"
  shows "a = a' \<and> b = b'"
proof -
  have "split_once CHR ''/'' (a @ ''/'' @ b) = Some (a, b)" "split_once CHR ''/'' (a' @ ''/'' @ b') = Some (a', b')"
    using split_once_append [OF assms(2), of b] split_once_append [OF assms(3), of b'] by simp_all
  then show ?thesis unfolding assms(1) by simp
qed

text \<open>What a field of a shared definition stands for.\<close>

lemma field_package: "regular m \<Longrightarrow> f \<in> set (pm_fields m) \<Longrightarrow> CHR ''/'' \<notin> set (unwrap_or (ft_package (fl_type f)) (pm_package m))"
  by (auto simp: regular_def list_all_iff unwrap_or_def split: option.splits)

lemma portable_base:
  assumes "shared_definitions E ms" and "m \<in> set ms" and "f \<in> set (pm_fields m)"
  shows "is_primitive_type (ft_base_type (fl_type f)) \<Longrightarrow>
      \<exists>t. primitive_field_type (ft_base_type (fl_type f)) = Some t \<and> (loads_base E (in_package (pm_package m) (fl_type f)) b \<longleftrightarrow> b = t)"
    and "\<not> is_primitive_type (ft_base_type (fl_type f)) \<Longrightarrow> loads_base E (in_package (pm_package m) (fl_type f)) b \<longleftrightarrow>
      (\<exists>s. b = FMessage s \<and> loads E (unwrap_or (ft_package (fl_type f)) (pm_package m) @ ''/msg/'' @ ft_base_type (fl_type f)) s)"
proof -
  note m = sharedD [OF assms(1,2)]
  have f: "portable_type (fl_type f)" "is_ok (get_type_id (fl_type f))"
    using m(2,3) assms(3) by (auto simp: portable_def regular_def supported_def list_all_iff)
  show "\<exists>t. primitive_field_type (ft_base_type (fl_type f)) = Some t \<and> (loads_base E (in_package (pm_package m) (fl_type f)) b \<longleftrightarrow> b = t)"
    if prim: "is_primitive_type (ft_base_type (fl_type f))"
  proof -
    obtain t where "primitive_field_type (ft_base_type (fl_type f)) = Some t"
      using primitive_supported [OF prim f] by blast
    then show ?thesis
      by (auto simp: in_package_def inline_type_def elim!: loads_base_cases intro!: loads_loads_base_loads_fields.plain)
  qed
  show "loads_base E (in_package (pm_package m) (fl_type f)) b \<longleftrightarrow>
      (\<exists>s. b = FMessage s \<and> loads E (unwrap_or (ft_package (fl_type f)) (pm_package m) @ ''/msg/'' @ ft_base_type (fl_type f)) s)"
    if no: "\<not> is_primitive_type (ft_base_type (fl_type f))"
  proof -
    have "primitive_field_type (ft_base_type (fl_type f)) = None"
      using no primitive_described(1) by (cases "primitive_field_type (ft_base_type (fl_type f))") blast+
    then have "inline_type (ft_base_type (fl_type f)) = None" using f(1) no by (simp add: inline_type_def portable_type_def)
    then show ?thesis
      using loads_loads_base_loads_fields.message [of "in_package (pm_package m) (fl_type f)" _ E]
      by (auto simp: in_package_def elim!: loads_base_cases)
  qed
qed

lemma loads_full:
  assumes "named_sources E" and "CHR ''/'' \<notin> set p" and "loads E (p @ ''/msg/'' @ n) s"
  shows "ms_type_name s = p @ ''/msg/'' @ n"
proof -
  have "split_on CHR ''/'' (p @ ''/msg/'' @ n) = p # ''msg'' # split_on CHR ''/'' n"
    using split_on_append [of "CHR ''/''" p "''msg/'' @ n"] split_on_append [of "CHR ''/''" "''msg''" n] assms(2)
    by (simp add: split_on_sep_free)
  moreover obtain q k src m where d: "split_msg_type (p @ ''/msg/'' @ n) = Some (q, k)" "find_source E q k = Some src"
      "parse_source E src q k = Ok m" "ms_type_name s = pm_package m @ ''/msg/'' @ pm_name m"
    using assms(3) by (cases rule: loads_cases) auto
  ultimately have "q = p" "split_on CHR ''/'' n = [k]" by (auto simp: split_msg_type_def split: list.splits if_splits)
  then have "n = k" using join_split_on [of "CHR ''/''" n] by simp
  moreover have "pm_package m = q \<and> pm_name m = k"
    using assms(1) d(2) split_msg_type_no_slash [OF d(1)] by (intro source_names [OF d(2,3)]) (auto simp: named_sources_def)
  ultimately show ?thesis using d(4) \<open>q = p\<close> by simp
qed

lemma loads_full_name:
  assumes "shared_definitions E ms" and "m \<in> set ms" and "loads E (full_name m) s"
  shows "ms_type_name s = full_name m"
  using loads_full [of E "pm_package m" "pm_name m" s] sharedD(1,5) [OF assms(1,2)] assms(3) by (simp add: full_name_def)

lemma field_described:
  assumes "shared_definitions E ms" and "m \<in> set ms" and "f \<in> set (pm_fields m)"
    and "loads_base E (in_package (pm_package m) (fl_type f)) b"
  shows "field_type_to_description (apply_array (ft_array (fl_type f)) b) = fd_type (described_field m f)"
proof -
  let ?ft = "fl_type f"
  note m = sharedD [OF assms(1,2)]
  have f: "portable_type ?ft" "\<not> is_action_component m" using m(2,3) assms(3) by (auto simp: portable_def regular_def list_all_iff)
  show ?thesis
  proof (cases "is_primitive_type (ft_base_type ?ft)")
    case True
    then have t: "primitive_field_type (ft_base_type ?ft) = Some b"
      using portable_base(1) [OF assms(1-3), of b] assms(4) by auto
    with f(1) True show ?thesis
      using scalar_described [OF primitive_described(2) [OF t]] primitive_described(3) [OF t]
      by (auto simp: described_field_def Let_def portable_type_def get_type_id_def get_array_capacity_def)
  next
    case False
    then obtain s where s: "b = FMessage s" "loads E (unwrap_or (ft_package ?ft) (pm_package m) @ ''/msg/'' @ ft_base_type ?ft) s"
      using portable_base(2) [OF assms(1-3), of b] assms(4) by auto
    have "ms_type_name s = unwrap_or (ft_package ?ft) (pm_package m) @ ''/msg/'' @ ft_base_type ?ft"
      by (rule loads_full [OF m(1) field_package [OF m(2) assms(3)] s(2)])
    with False f s(1) show ?thesis
      by (simp add: message_described described_field_def Let_def portable_type_def get_type_id_def get_array_capacity_def component_name_def)
  qed
qed

lemma loaded_described:
  assumes "shared_definitions E ms" and "m \<in> set ms" and "loads E (full_name m) s"
  shows "to_type_description s = message_description m"
proof -
  note m = sharedD [OF assms(1,2)]
  obtain gs where gs: "list_all2 (loads_field E) (map (\<lambda>f. f\<lparr>fl_type := in_package (pm_package m) (fl_type f)\<rparr>) (pm_fields m)) gs"
      "s = MessageSchema (full_name m) (pm_package m) (pm_name m) gs None"
    using assms(3) loads_message [OF assms(1,2)] by blast
  have "map field_schema_to_description gs = map (described_field m) (pm_fields m)"
  proof (rule nth_equalityI)
    show len: "length (map field_schema_to_description gs) = length (map (described_field m) (pm_fields m))"
      using list_all2_lengthD [OF gs(1)] by simp
    fix i assume "i < length (map field_schema_to_description gs)"
    then have i: "i < length (pm_fields m)" "i < length gs" using len by simp_all
    let ?f = "pm_fields m ! i"
    obtain b where "loads_base E (in_package (pm_package m) (fl_type ?f)) b"
        "gs ! i = FieldSchema (fl_name ?f) (apply_array (ft_array (fl_type ?f)) b) None"
      using list_all2_nthD [OF gs(1), of i] i by (auto simp: loads_field_def in_package_def)
    then show "map field_schema_to_description gs ! i = map (described_field m) (pm_fields m) ! i"
      using i field_described [OF assms(1,2), of ?f b]
      by (simp add: field_schema_to_description_def) (simp add: described_field_def Let_def)
  qed
  then show ?thesis
    using gs(2) m(2,3) by (simp add: to_type_description_def message_description_def regular_def component_name_def full_name_def portable_def)
qed

text \<open>The types a loaded schema refers to are those its definition depends on.\<close>

definition depends :: "parsed_message list \<Rightarrow> bool" where
  "depends ms \<longleftrightarrow> (\<forall>m\<in>set ms. set (dep_keys m) \<subseteq> message_key ` set ms)"

lemma dep_message:
  assumes "shared_definitions E ms" and "m \<in> set ms" and "f \<in> set (pm_fields m)" and "m' \<in> set ms"
    and "message_key m' = dep_key (pm_package m) (fl_type f)"
  shows "full_name m' = unwrap_or (ft_package (fl_type f)) (pm_package m) @ ''/msg/'' @ ft_base_type (fl_type f)"
  using key_parts [of "pm_package m'" "pm_name m'"] assms(5) sharedD(5) [OF assms(1,4)] field_package [OF sharedD(2) [OF assms(1,2)] assms(3)]
  by (simp add: message_key_def dep_key_def full_name_def)

lemma reach_type_direct: "reach_type t = (\<Union>u\<in>direct t. insert u (reach u))"
  by (induction t rule: direct.induct) simp_all

lemma direct_apply_array: "direct (apply_array a b) = direct b"
  by (cases a) (simp_all add: apply_array_def)

lemma direct_scalar: "t \<in> set scalar_types \<Longrightarrow> direct t = {}"
  by (auto simp: scalar_types_def)

lemma direct_types:
  assumes "shared_definitions E ms" and "depends ms" and "m \<in> set ms" and "loads E (full_name m) s"
  shows "(\<Union>g\<in>set (ms_fields s). direct (fs_type g)) =
    {u. \<exists>m'\<in>set ms. message_key m' \<in> set (dep_keys m) \<and> loads E (full_name m') u}"
proof -
  obtain gs where gs: "list_all2 (loads_field E) (map (\<lambda>f. f\<lparr>fl_type := in_package (pm_package m) (fl_type f)\<rparr>) (pm_fields m)) gs"
      "ms_fields s = gs"
    using assms(4) loads_message [OF assms(1,3)] by auto
  let ?type = "\<lambda>f. unwrap_or (ft_package (fl_type f)) (pm_package m) @ ''/msg/'' @ ft_base_type (fl_type f)"
  have field: "direct (fs_type (gs ! i)) = {u. \<not> is_primitive_type (ft_base_type (fl_type (pm_fields m ! i))) \<and> loads E (?type (pm_fields m ! i)) u}"
    if i: "i < length (pm_fields m)" for i
  proof -
    let ?f = "pm_fields m ! i"
    have f: "?f \<in> set (pm_fields m)" using i by simp
    obtain b where b: "loads_base E (in_package (pm_package m) (fl_type ?f)) b"
        "gs ! i = FieldSchema (fl_name ?f) (apply_array (ft_array (fl_type ?f)) b) None"
      using list_all2_nthD [OF gs(1), of i] i by (auto simp: loads_field_def in_package_def)
    show ?thesis
    proof (cases "is_primitive_type (ft_base_type (fl_type ?f))")
      case True
      then have "primitive_field_type (ft_base_type (fl_type ?f)) = Some b" using portable_base(1) [OF assms(1,3) f, of b] b(1) by auto
      moreover have "ft_base_type (fl_type ?f) \<noteq> ''byte''"
        using sharedD(3) [OF assms(1,3)] f by (auto simp: portable_def portable_type_def list_all_iff)
      ultimately show ?thesis using True b(2) primitive_described(2) by (simp add: direct_apply_array direct_scalar)
    next
      case False
      then obtain u where u: "b = FMessage u" "loads E (?type ?f) u" using portable_base(2) [OF assms(1,3) f, of b] b(1) by auto
      have "loads E (?type ?f) v \<longleftrightarrow> v = u" for v using u(2) loads_unique(1) [OF u(2)] by blast
      then show ?thesis using False b(2) u(1) by (simp add: direct_apply_array)
    qed
  qed
  have len: "length gs = length (pm_fields m)" using list_all2_lengthD [OF gs(1)] by simp
  have nth: "set xs = (!) xs ` {..<length xs}" for xs :: "'a list" by (auto simp: in_set_conv_nth)
  have "(\<Union>g\<in>set gs. direct (fs_type g)) = (\<Union>i\<in>{..<length (pm_fields m)}. direct (fs_type (gs ! i)))"
    unfolding nth [of gs] len by simp
  also have "\<dots> = (\<Union>i\<in>{..<length (pm_fields m)}.
      {u. \<not> is_primitive_type (ft_base_type (fl_type (pm_fields m ! i))) \<and> loads E (?type (pm_fields m ! i)) u})"
    by (rule SUP_cong [OF refl]) (simp add: field)
  also have "\<dots> = (\<Union>f\<in>set (pm_fields m). {u. \<not> is_primitive_type (ft_base_type (fl_type f)) \<and> loads E (?type f) u})"
    unfolding nth [of "pm_fields m"] by simp
  also have "\<dots> = {u. \<exists>f\<in>set (pm_fields m). \<not> is_primitive_type (ft_base_type (fl_type f)) \<and> loads E (?type f) u}" by blast
  also have "\<dots> = {u. \<exists>m'\<in>set ms. message_key m' \<in> set (dep_keys m) \<and> loads E (full_name m') u}"
  proof (intro set_eqI iffI; clarify)
    fix u f assume f: "f \<in> set (pm_fields m)" "\<not> is_primitive_type (ft_base_type (fl_type f))" "loads E (?type f) u"
    then have "dep_key (pm_package m) (fl_type f) \<in> set (dep_keys m)" by (auto simp: dep_keys_def)
    then obtain m' where m': "m' \<in> set ms" "message_key m' = dep_key (pm_package m) (fl_type f)" "message_key m' \<in> set (dep_keys m)"
      using assms(2,3) unfolding depends_def by fastforce
    then show "\<exists>m'\<in>set ms. message_key m' \<in> set (dep_keys m) \<and> loads E (full_name m') u"
      using f(3) dep_message [OF assms(1,3) f(1) m'(1,2)] by (intro bexI [of _ m']) simp_all
  next
    fix u m' assume m': "m' \<in> set ms" "message_key m' \<in> set (dep_keys m)" "loads E (full_name m') u"
    then obtain f where f: "f \<in> set (pm_fields m)" "\<not> is_primitive_type (ft_base_type (fl_type f))" "message_key m' = dep_key (pm_package m) (fl_type f)"
      by (auto simp: dep_keys_def)
    with m'(3) dep_message [OF assms(1,3) f(1) m'(1) f(3)]
    show "\<exists>f\<in>set (pm_fields m). \<not> is_primitive_type (ft_base_type (fl_type f)) \<and> loads E (?type f) u" by auto
  qed
  finally show ?thesis by (simp add: gs(2))
qed

lemma reach_direct: "reach s = (\<Union>u\<in>(\<Union>g\<in>set (ms_fields s). direct (fs_type g)). insert u (reach u))"
  by (simp add: reach.simps [of s] reach_type_direct)

lemma known_message:
  assumes "distinct (map message_key ms)" and "map_of all = map_of (map (\<lambda>m. (message_key m, message_description m)) ms)"
  shows "map_of all k = Some d \<longleftrightarrow> (\<exists>m\<in>set ms. k = message_key m \<and> d = message_description m)"
proof -
  have "distinct (map fst (map (\<lambda>m. (message_key m, message_description m)) ms))" using assms(1) by (simp add: comp_def)
  then show ?thesis unfolding assms(2) by (auto simp: map_of_eq_Some_iff)
qed

lemma shared_keys:
  assumes "shared_definitions E ms" and "depends ms"
    and "map_of all = map_of (map (\<lambda>m. (message_key m, message_description m)) ms)" and "n \<in> set ms"
  shows "set (ref_keys all (message_description n)) = set (dep_keys n)"
proof -
  have dist: "distinct (map message_key ms)" using assms(1) by (simp add: shared_definitions_def)
  have "map_of all k \<noteq> None" if k: "k \<in> set (dep_keys n)" for k
  proof -
    obtain m' where "m' \<in> set ms" "k = message_key m'" using assms(2,4) k by (force simp: depends_def)
    then have "map_of all k = Some (message_description m')" using known_message [OF dist assms(3)] by blast
    then show ?thesis by simp
  qed
  then show ?thesis using ref_keys_description [OF sharedD(2) [OF assms(1,4)], of all] by (auto simp: msg_keys_def)
qed

text \<open>What is reachable in the descriptions of the code generator is loaded, and the other way round.\<close>

lemma reach_described:
  assumes sh: "shared_definitions E ms" "depends ms"
    and all: "map_of all = map_of (map (\<lambda>m. (message_key m, message_description m)) ms)"
    and m: "m \<in> set ms" "loads E (full_name m) s"
  shows "u \<in> reach s \<Longrightarrow> \<exists>m'\<in>set ms. reaches all (message_description m) (message_key m') \<and> loads E (full_name m') u"
  using m
proof (induction "size s" arbitrary: s m rule: less_induct)
  case less
  have dist: "distinct (map message_key ms)" using sh(1) by (simp add: shared_definitions_def)
  obtain v where v: "v \<in> (\<Union>g\<in>set (ms_fields s). direct (fs_type g))" "u = v \<or> u \<in> reach v"
    using less.prems(1) reach_direct [of s] by blast
  then obtain m' where m': "m' \<in> set ms" "message_key m' \<in> set (dep_keys m)" "loads E (full_name m') v"
    using direct_types [OF sh less.prems(2,3)] by blast
  then have step: "reaches all (message_description m) (message_key m')"
    using shared_keys [OF sh all less.prems(2)] by (auto intro: reaches.direct)
  show ?case
  proof (cases "u = v")
    case True
    with m' step show ?thesis by blast
  next
    case False
    have "v \<in> reach s" using v(1) reach_direct [of s] by blast
    then have "size v < size s" by (rule reach_schema_smaller)
    then obtain m'' where m'': "m'' \<in> set ms" "reaches all (message_description m') (message_key m'')" "loads E (full_name m'') u"
      using less.hyps [of v m'] v(2) False m' by blast
    have "map_of all (message_key m') = Some (message_description m')" using known_message [OF dist all] m'(1) by blast
    from reaches_trans [OF m''(2) step this] m'' show ?thesis by blast
  qed
qed

lemma described_reach:
  assumes sh: "shared_definitions E ms" "depends ms"
    and all: "map_of all = map_of (map (\<lambda>m. (message_key m, message_description m)) ms)"
    and loaded: "\<And>n. n \<in> set ms \<Longrightarrow> \<exists>u. loads E (full_name n) u"
    and m: "m \<in> set ms" "loads E (full_name m) s"
  shows "reaches all (message_description m) k \<Longrightarrow> \<exists>m'\<in>set ms. message_key m' = k \<and> (\<exists>u\<in>reach s. loads E (full_name m') u)"
proof (induction rule: reaches.induct)
  have dist: "distinct (map message_key ms)" using sh(1) by (simp add: shared_definitions_def)
  note known = known_message [OF dist all]
  have one: "\<exists>m'\<in>set ms. message_key m' = k \<and> (\<exists>u\<in>reach v. loads E (full_name m') u)"
    if n: "n \<in> set ms" "loads E (full_name n) v" and k: "k \<in> set (ref_keys all (message_description n))" for n v k
  proof -
    have "k \<in> set (dep_keys n)" using k shared_keys [OF sh all n(1)] by simp
    moreover from this obtain m' where m': "m' \<in> set ms" "message_key m' = k" using sh(2) n(1) by (force simp: depends_def)
    moreover obtain u where u: "loads E (full_name m') u" using loaded [OF m'(1)] by blast
    ultimately have "u \<in> (\<Union>g\<in>set (ms_fields v). direct (fs_type g))" using direct_types [OF sh n] by blast
    then have "u \<in> reach v" using reach_direct [of v] by blast
    with m' u show ?thesis by blast
  qed
  {
    case (direct k)
    then show ?case by (rule one [OF m])
  next
    case (step k d k')
    then obtain m' u where m': "m' \<in> set ms" "message_key m' = k" "u \<in> reach s" "loads E (full_name m') u" by blast
    have "d = message_description m'"
      using step(2) known m'(1,2) dist by (auto simp: distinct_map inj_on_def)
    then obtain m'' w where "m'' \<in> set ms" "message_key m'' = k'" "w \<in> reach u" "loads E (full_name m'') w"
      using one [OF m'(1,4)] step(3) by blast
    with reach_schema_trans [OF m'(3)] show ?case by blast
  }
qed

lemma fields_load:
  assumes "\<And>f. f \<in> set fs \<Longrightarrow> \<exists>g. loads_field E f g"
  shows "\<exists>gs. list_all2 (loads_field E) fs gs"
  using assms
proof (induction fs)
  case Nil
  show ?case by (intro exI [of _ "[]"]) simp
next
  case (Cons f fs)
  obtain g where "loads_field E f g" using Cons.prems [of f] by auto
  moreover obtain gs where "list_all2 (loads_field E) fs gs" using Cons by auto
  ultimately show ?case by (intro exI [of _ "g # gs"]) simp
qed

text \<open>Every message that can be resolved can be loaded.\<close>

lemma resolvable_loads:
  assumes "shared_definitions E ms"
  shows "resolvable {} (set ms) k \<Longrightarrow> m \<in> set ms \<Longrightarrow> message_key m = k \<Longrightarrow> \<exists>s. loads E (full_name m) s"
proof (induction arbitrary: m rule: resolvable.induct)
  case (1 n)
  then have "m = n" using assms by (auto simp: shared_definitions_def distinct_map inj_on_def)
  have "\<exists>g. loads_field E (f\<lparr>fl_type := in_package (pm_package m) (fl_type f)\<rparr>) g" if f: "f \<in> set (pm_fields m)" for f
  proof (cases "is_primitive_type (ft_base_type (fl_type f))")
    case True
    obtain b where "primitive_field_type (ft_base_type (fl_type f)) = Some b"
      using portable_base(1) [OF assms 1(3) f True, of FBool] by blast
    then have "loads_base E (in_package (pm_package m) (fl_type f)) b"
      using portable_base(1) [OF assms 1(3) f True, of b] by auto
    then show ?thesis unfolding loads_field_def by auto
  next
    case False
    then have "dep_key (pm_package m) (fl_type f) \<in> set (dep_keys n)" using f \<open>m = n\<close> by (auto simp: dep_keys_def)
    then have ih: "resolvable {} (set ms) (dep_key (pm_package m) (fl_type f))"
        "\<And>m'. m' \<in> set ms \<Longrightarrow> message_key m' = dep_key (pm_package m) (fl_type f) \<Longrightarrow> \<exists>s. loads E (full_name m') s"
      using 1(2) by blast+
    then obtain m' where m': "m' \<in> set ms" "message_key m' = dep_key (pm_package m) (fl_type f)"
      by (auto elim: resolvable.cases)
    then obtain u where "loads E (full_name m') u" using ih(2) by blast
    then have "loads_base E (in_package (pm_package m) (fl_type f)) (FMessage u)"
      using portable_base(2) [OF assms 1(3) f False] dep_message [OF assms 1(3) f m'] by simp
    then show ?thesis unfolding loads_field_def by auto
  qed
  then obtain gs where "list_all2 (loads_field E) (map (\<lambda>f. f\<lparr>fl_type := in_package (pm_package m) (fl_type f)\<rparr>) (pm_fields m)) gs"
    using fields_load [of "map (\<lambda>f. f\<lparr>fl_type := in_package (pm_package m) (fl_type f)\<rparr>) (pm_fields m)" E] by auto
  then show ?case using loads_message [OF assms 1(3)] by blast
qed

lemma loaded_family:
  assumes "shared_definitions E ms" and "depends ms" and "m \<in> set ms" and "loads E (full_name m) s"
  shows "type_family (reach s)"
  unfolding type_family_def
proof (intro conjI ballI inj_onI)
  show "reach u \<subseteq> reach s" if "u \<in> reach s" for u using reach_schema_trans [OF that] .
  let ?all = "map (\<lambda>m. (message_key m, message_description m)) ms"
  fix u v assume uv: "u \<in> reach s" "v \<in> reach s" "ms_type_name u = ms_type_name v"
  obtain m1 m2 where "m1 \<in> set ms" "loads E (full_name m1) u" "m2 \<in> set ms" "loads E (full_name m2) v"
    using reach_described [OF assms(1,2) refl assms(3,4)] uv(1,2) by meson
  with uv(3) loads_full_name [OF assms(1)] have "loads E (full_name m1) u" "loads E (full_name m1) v" by auto
  then show "u = v" by (rule loads_unique(1))
qed

lemma msg_reaches_description:
  assumes "shared_definitions E ms" and "depends ms"
    and "map_of all = map_of (map (\<lambda>m. (message_key m, message_description m)) ms)" and "m \<in> set ms"
  shows "msg_reaches all m k \<longleftrightarrow> reaches all (message_description m) k"
proof -
  have keys: "set (msg_keys all m) = set (ref_keys all (message_description m))"
    using ref_keys_description [OF sharedD(2) [OF assms(1,4)]] by simp
  show ?thesis
  proof
    assume "msg_reaches all m k"
    then show "reaches all (message_description m) k"
      unfolding msg_reaches_def keys by (auto intro: reaches.direct reaches_trans [OF _ reaches.direct])
  next
    assume "reaches all (message_description m) k"
    then show "msg_reaches all m k"
    proof (induction rule: reaches.induct)
      case (direct k)
      then show ?case by (simp add: msg_reaches_def keys)
    next
      case (step k d k')
      then show ?case unfolding msg_reaches_def keys by (blast intro: reaches.direct reaches.step)
    qed
  qed
qed

lemma loaded_references:
  assumes sh: "shared_definitions E ms" "depends ms"
    and all: "map_of all = map_of (map (\<lambda>m. (message_key m, message_description m)) ms)"
    and loaded: "\<And>n. n \<in> set ms \<Longrightarrow> \<exists>u. loads E (full_name n) u"
    and m: "m \<in> set ms" "loads E (full_name m) s"
  shows "is_references all m (tm_referenced (to_type_description_msg s))"
proof -
  have dist: "distinct (map message_key ms)" using sh(1) by (simp add: shared_definitions_def)
  obtain us where us: "tm_referenced (to_type_description_msg s) = map to_type_description us" "set us = reach s"
      "distinct (map ms_type_name us)" "sorted (map ms_type_name us)"
    by (rule referenced_types [OF loaded_family [OF sh m]])
  have "map td_type_name (map to_type_description us) = map ms_type_name us" by simp
  then have "sorted_wrt (<) (map td_type_name (map to_type_description us))"
    using us(3,4) by (simp only: strict_sorted_iff)
  moreover have "d \<in> to_type_description ` reach s \<longleftrightarrow> (\<exists>k. msg_reaches all m k \<and> map_of all k = Some d)" for d
  proof
    assume "d \<in> to_type_description ` reach s"
    then obtain u where u: "u \<in> reach s" "d = to_type_description u" by blast
    obtain m' where m': "m' \<in> set ms" "reaches all (message_description m) (message_key m')" "loads E (full_name m') u"
      using reach_described [OF sh all m u(1)] by blast
    then have "map_of all (message_key m') = Some d"
      using known_message [OF dist all] u(2) loaded_described [OF sh(1) m'(1,3)] by blast
    then show "\<exists>k. msg_reaches all m k \<and> map_of all k = Some d"
      using m'(2) msg_reaches_description [OF sh all m(1)] by blast
  next
    assume "\<exists>k. msg_reaches all m k \<and> map_of all k = Some d"
    then obtain k where k: "reaches all (message_description m) k" "map_of all k = Some d"
      using msg_reaches_description [OF sh all m(1)] by blast
    obtain m' u where m': "m' \<in> set ms" "message_key m' = k" "u \<in> reach s" "loads E (full_name m') u"
      using described_reach [OF sh all loaded m k(1)] by blast
    have "d = message_description m'"
      using k(2) known_message [OF dist all] m'(1,2) dist by (auto simp: distinct_map inj_on_def)
    then show "d \<in> to_type_description ` reach s" using m'(3) loaded_described [OF sh(1) m'(1,4)] by force
  qed
  ultimately show ?thesis by (simp add: is_references_def us(1,2) del: map_map)
qed


section \<open>An example\<close>

definition sample_path_of :: "string \<Rightarrow> path_buf" where
  "sample_path_of name = \<lparr>pb_absolute = True, pb_components = [''s'', ''p'', ''msg'', name @ ''.msg'']\<rparr>"

definition sample_msgs :: msg_env where
  "sample_msgs =
     \<lparr>me_msg_path = Some ''/s'', me_files = [(sample_path_of ''Leaf'', Some ''int32 a''), (sample_path_of ''W'', Some ''Leaf[] a'')],
      me_embedded = [], me_parse_f64 = (\<lambda>_. None)\<rparr>"

definition sample_msg :: "string \<Rightarrow> string \<Rightarrow> string \<Rightarrow> array_type \<Rightarrow> parsed_message" where
  "sample_msg name source base array =
     \<lparr>pm_name = name, pm_package = ''p'', pm_fields = [\<lparr>fl_name = ''a'', fl_type = \<lparr>ft_base_type = base, ft_package = None,
        ft_array = array, ft_string_bound = None\<rparr>, fl_default = None\<rparr>], pm_constants = [], pm_source = source, pm_path = sample_path_of name\<rparr>"

definition sample_leaf :: parsed_message where
  "sample_leaf = sample_msg ''Leaf'' ''int32 a'' ''int32'' ASingle"

definition sample_whole :: parsed_message where
  "sample_whole = sample_msg ''W'' ''Leaf[] a'' ''Leaf'' AUnbounded"

definition sample_loaded :: message_schema where
  "sample_loaded = MessageSchema ''p/msg/W'' ''p'' ''W'' [FieldSchema ''a'' (FSequence (FMessage
     (MessageSchema ''p/msg/Leaf'' ''p'' ''Leaf'' [FieldSchema ''a'' FInt32 None] None))) None] None"

lemma sample_named: "named_sources sample_msgs"
  unfolding named_sources_def
proof
  fix p
  have "find_in_entries sample_msgs p [] es = None" for es
  proof (rule ccontr)
    assume "find_in_entries sample_msgs p [] es \<noteq> None"
    then obtain q where q: "find_in_entries sample_msgs p [] es = Some q" by auto
    then have "is_file sample_msgs q" by (induction es) (auto simp: Let_def split: if_splits)
    then have "q = sample_path_of ''Leaf'' \<or> q = sample_path_of ''W''"
      by (auto simp: is_file_def sample_msgs_def split: if_splits)
    with found_last [OF q] show False by (auto simp: sample_path_of_def)
  qed
  moreover have "embedded_msg_source sample_msgs p [] = None" by (simp add: embedded_msg_source_def sample_msgs_def)
  ultimately show "find_source sample_msgs p [] = None"
    by (simp add: find_source_def find_msg_file_def split: option.split)
qed

lemma sample_provided: "provides sample_msgs sample_leaf" "provides sample_msgs sample_whole"
  by code_simp+

lemma sample_shared: "shared_definitions sample_msgs [sample_leaf, sample_whole]"
proof -
  have "distinct (map message_key [sample_leaf, sample_whole])" by code_simp
  moreover have "list_all (\<lambda>m. regular m \<and> portable m) [sample_leaf, sample_whole]" by code_simp
  ultimately show ?thesis using sample_named sample_provided by (simp add: shared_definitions_def)
qed

lemma sample_resolved: "\<exists>st rs. resolve_messages example_env (resolver_new False) [sample_leaf, sample_whole] = Ok (st, rs)"
proof -
  have facts: "dep_keys sample_leaf = []" "dep_keys sample_whole = [''p/Leaf'']" "message_key sample_leaf = ''p/Leaf''" by code_simp+
  have reg: "list_all regular [sample_leaf, sample_whole]" "distinct (map message_key [sample_leaf, sample_whole])" by code_simp+
  have "\<exists>st. resolve_loop example_env (resolver_new False) [sample_leaf, sample_whole] 0 (length [sample_leaf, sample_whole]) 0 = Ok st"
  proof (rule resolve_in_order [OF resolver_new_inv new_fresh [OF reg]])
    show "set (dep_keys ([sample_leaf, sample_whole] ! i)) \<subseteq> known (resolver_new False) \<union> message_key ` set (take i [sample_leaf, sample_whole])"
      if "i < length [sample_leaf, sample_whole]" for i
      using that by (cases i) (auto simp: facts)
  qed (simp_all add: max_iterations_def)
  then show ?thesis by (simp add: resolve_messages_iff)
qed

lemma load_exact_witness:
  "loads sample_msgs ''p/msg/W'' sample_loaded \<and> consistent sample_msgs (snd (load_schema sample_msgs ''p/msg/W'' registry_new))"
proof -
  have "consistent sample_msgs registry_new" by (simp add: consistent_def registry_new_def)
  moreover have "fst (load_schema sample_msgs ''p/msg/W'' registry_new) = Ok sample_loaded" by code_simp
  ultimately show ?thesis using load_exact [OF sample_named] by blast
qed


text \<open>
  The bound of a string is lost: the parser keeps it beside the base type, where the conversion
  does not look.
\<close>

lemma string_bound_lost:
  "\<exists>ft. parse_field_type (''string<='' @ show_nat (unat n)) = Ok ft \<and> ft_string_bound ft = Some n \<and>
     (\<forall>resolver f r. fl_type f = ft \<longrightarrow> convert_field_type resolver f r = (Ok FString, r))"
proof -
  let ?ft = "\<lparr>ft_base_type = ''string'', ft_package = None, ft_array = ASingle, ft_string_bound = Some n\<rparr>"
  have "CHR ''['' \<notin> set (show_nat (unat n))" using ident_not_in [OF show_nat_ident] by simp
  then have "parse_field_type (''string<='' @ show_nat (unat n)) = Ok ?ft"
    using find_le_append [of "''string''" "show_nat (unat n)"] by (simp add: parse_field_type_def)
  moreover have "convert_field_type resolver f r = (Ok FString, r)" if "fl_type f = ?ft" for resolver f r
    using that by (simp add: convert_field_type_def ld_bind_def convert_base_type_def primitive_field_type_def
        primitive_field_types_def apply_array_def)
  ultimately show ?thesis by (intro exI [of _ ?ft]) simp
qed

end
