(* ===== verification/Clock.thy ===== *)
theory Clock
  imports Hiroz_Prelude
begin

text \<open>
  Time and clocks (\<open>hiroz/src/time.rs\<close>): saturating points in time, the system clock and the
  simulated clock, sleeping and intervals. A duration is its number of nanoseconds, bounded as
  \<open>std::time::Duration\<close> is; a system time is the number of nanoseconds since the epoch, with
  seconds of 64 signed bits as on Unix.

  A sleeper on a simulated clock is a loop that registers with a \<open>Notify\<close>, looks at the clock
  and waits; its steps interleave with those of other sleepers and with the two halves of
  every call that moves the time, which holds the lock of the clock from the write to the
  notification. \<open>tokio::sync::Notify\<close> is a parameter, a record of operations, and what the code
  relies on, that a call of \<open>notify_waiters\<close> reaches every future registered before it, is the
  locale \<open>notify_lib\<close>.

  Shown: the time of a simulated clock never decreases, no sleeper returns early, and in every
  fair run every sleeper whose deadline has come returns; the ticks of an interval do not
  drift; when sleeping on the system clock panics.
\<close>

section \<open>Durations and points in time\<close>

type_synonym duration = nat

definition nanos_per_sec :: nat where
  "nanos_per_sec = 1000000000"

definition duration_max :: duration where
  "duration_max = 2 ^ 64 * nanos_per_sec - 1"

definition duration_saturating_add :: "duration \<Rightarrow> duration \<Rightarrow> duration" where
  "duration_saturating_add a b = min duration_max (a + b)"

definition from_secs :: "u64 \<Rightarrow> duration" where
  "from_secs s = unat s * nanos_per_sec"

definition from_millis :: "u64 \<Rightarrow> duration" where
  "from_millis ms = unat ms * 1000000"

datatype ztime = ZTime (since_epoch: duration)

text \<open>The derived order.\<close>

instantiation ztime :: linorder
begin

definition less_eq_ztime :: "ztime \<Rightarrow> ztime \<Rightarrow> bool" where
  "less_eq_ztime s t = (since_epoch s \<le> since_epoch t)"

definition less_ztime :: "ztime \<Rightarrow> ztime \<Rightarrow> bool" where
  "less_ztime s t = (since_epoch s < since_epoch t)"

instance
  by standard (auto simp: less_eq_ztime_def less_ztime_def intro: ztime.expand)

end

definition zt_zero :: ztime where
  "zt_zero = ZTime 0"

definition from_system_time :: "int \<Rightarrow> ztime" where
  "from_system_time t = ZTime (nat t)"

definition from_unix_nanos :: "u64 \<Rightarrow> ztime" where
  "from_unix_nanos n = ZTime (if sint n < 0 then 0 else unat n)"

text \<open>\<open>UNIX_EPOCH + d\<close> panics when the seconds do not fit.\<close>

definition to_system_time :: "ztime \<Rightarrow> (int, 'e) res" where
  "to_system_time t = (if since_epoch t div nanos_per_sec < 2 ^ 63 then Ok (int (since_epoch t)) else Panic)"

definition as_unix_nanos :: "ztime \<Rightarrow> u64" where
  "as_unix_nanos t = word_of_nat (min (since_epoch t) (2 ^ 63 - 1))"

definition zt_saturating_add :: "ztime \<Rightarrow> duration \<Rightarrow> ztime" where
  "zt_saturating_add t d = ZTime (duration_saturating_add (since_epoch t) d)"

definition zt_saturating_sub :: "ztime \<Rightarrow> duration \<Rightarrow> ztime" where
  "zt_saturating_sub t d = ZTime (since_epoch t - d)"

definition zt_duration_since :: "ztime \<Rightarrow> ztime \<Rightarrow> duration" where
  "zt_duration_since t earlier = since_epoch t - since_epoch earlier"

section \<open>Clocks\<close>

text \<open>
  \<open>tokio::sync::Notify\<close>: creating and enabling a \<open>Notified\<close> future, \<open>notify_waiters\<close>, dropping the
  future, and whether polling it returns. A sleeper has one such future at a time, named
  after it.
\<close>

record 'n notify_ops =
  no_new :: 'n
  no_enable :: "nat \<Rightarrow> 'n \<Rightarrow> 'n"
  no_notify_waiters :: "'n \<Rightarrow> 'n"
  no_drop :: "nat \<Rightarrow> 'n \<Rightarrow> 'n"
  no_ready :: "nat \<Rightarrow> 'n \<Rightarrow> bool"

datatype clock_kind = KSystem | KSimulated

datatype clock_error = NotSimulated | TimeWentBackwards

datatype 'n clock_inner = CSystem | CSimulated ztime 'n

definition clock_simulated :: "'n notify_ops \<Rightarrow> ztime \<Rightarrow> 'n clock_inner" where
  "clock_simulated N start = CSimulated start (no_new N)"

fun clock_from_kind :: "'n notify_ops \<Rightarrow> clock_kind \<Rightarrow> 'n clock_inner" where
  "clock_from_kind N KSystem = CSystem"
| "clock_from_kind N KSimulated = clock_simulated N zt_zero"

fun clock_kind_of :: "'n clock_inner \<Rightarrow> clock_kind" where
  "clock_kind_of CSystem = KSystem"
| "clock_kind_of (CSimulated _ _) = KSimulated"

text \<open>\<open>wall\<close> is what \<open>SystemTime::now()\<close> returns.\<close>

fun clock_now :: "int \<Rightarrow> 'n clock_inner \<Rightarrow> ztime" where
  "clock_now wall CSystem = from_system_time wall"
| "clock_now wall (CSimulated now _) = now"

fun set_time :: "'n notify_ops \<Rightarrow> 'n clock_inner \<Rightarrow> ztime \<Rightarrow> (unit, clock_error) res \<times> 'n clock_inner" where
  "set_time N CSystem time = (Err NotSimulated, CSystem)"
| "set_time N (CSimulated now n) time =
     (if time < now then (Err TimeWentBackwards, CSimulated now n)
      else (Ok (), CSimulated time (no_notify_waiters N n)))"

fun advance :: "'n notify_ops \<Rightarrow> 'n clock_inner \<Rightarrow> duration \<Rightarrow> (ztime, clock_error) res \<times> 'n clock_inner" where
  "advance N CSystem delta = (Err NotSimulated, CSystem)"
| "advance N (CSimulated now n) delta =
     (let now' = zt_saturating_add now delta in (Ok now', CSimulated now' (no_notify_waiters N n)))"

text \<open>A sleep: a timer of the runtime, or the loop below with its deadline.\<close>

datatype zsleep = TimerSleep duration | SimulatedSleep ztime

fun sleep_until :: "int \<Rightarrow> 'n clock_inner \<Rightarrow> ztime \<Rightarrow> (zsleep, 'e) res" where
  "sleep_until wall CSystem deadline =
     res_map (\<lambda>t. TimerSleep (nat (t - wall))) (to_system_time deadline)"
| "sleep_until wall (CSimulated _ _) deadline = Ok (SimulatedSleep deadline)"

definition clock_sleep :: "int \<Rightarrow> 'n clock_inner \<Rightarrow> duration \<Rightarrow> (zsleep, 'e) res" where
  "clock_sleep wall c d = sleep_until wall c (zt_saturating_add (clock_now wall c) d)"

record zinterval =
  zi_period :: duration
  zi_next_deadline :: ztime

definition clock_interval :: "int \<Rightarrow> 'n clock_inner \<Rightarrow> duration \<Rightarrow> zinterval" where
  "clock_interval wall c period =
     \<lparr>zi_period = period, zi_next_deadline = zt_saturating_add (clock_now wall c) period\<rparr>"

text \<open>What \<open>tick\<close> awaits, and what it does once the sleep has returned.\<close>

definition tick_sleep :: "int \<Rightarrow> 'n clock_inner \<Rightarrow> zinterval \<Rightarrow> (zsleep, 'e) res" where
  "tick_sleep wall c iv = sleep_until wall c (zi_next_deadline iv)"

definition tick_fired :: "zinterval \<Rightarrow> ztime \<times> zinterval" where
  "tick_fired iv =
     (zi_next_deadline iv, iv\<lparr>zi_next_deadline := zt_saturating_add (zi_next_deadline iv) (zi_period iv)\<rparr>)"

fun ticks :: "nat \<Rightarrow> zinterval \<Rightarrow> ztime list \<times> zinterval" where
  "ticks 0 iv = ([], iv)"
| "ticks (Suc n) iv = (let (t, iv') = tick_fired iv; (ts, iv'') = ticks n iv' in (t # ts, iv''))"

section \<open>Sleepers on a simulated clock\<close>

text \<open>Where a sleeper is: at the top of its loop, registered, waiting, or returned.\<close>

datatype sleep_pc = STop | SRegistered | SWaiting | SReturned

record sleeper =
  sl_deadline :: ztime
  sl_pc :: sleep_pc

record 'n clock_world =
  cw_now :: ztime
  cw_locked :: bool
  cw_notify :: 'n
  cw_sleepers :: "sleeper list"

definition world_new :: "'n notify_ops \<Rightarrow> ztime \<Rightarrow> 'n clock_world" where
  "world_new N start = \<lparr>cw_now = start, cw_locked = False, cw_notify = no_new N, cw_sleepers = []\<rparr>"

datatype clock_event =
    ESetTime ztime
  | EAdvance duration
  | ENotify
  | ESleepUntil ztime
  | ESleep duration
  | EEnable nat
  | ECheck nat
  | EAwait nat

definition at_pc :: "nat \<Rightarrow> sleep_pc \<Rightarrow> 'n clock_world \<Rightarrow> bool" where
  "at_pc i pc w = (i < length (cw_sleepers w) \<and> sl_pc (cw_sleepers w ! i) = pc)"

definition deadline_of :: "nat \<Rightarrow> 'n clock_world \<Rightarrow> ztime" where
  "deadline_of i w = sl_deadline (cw_sleepers w ! i)"

definition set_pc :: "nat \<Rightarrow> sleep_pc \<Rightarrow> 'n clock_world \<Rightarrow> 'n clock_world" where
  "set_pc i pc w = w\<lparr>cw_sleepers := (cw_sleepers w)[i := (cw_sleepers w ! i)\<lparr>sl_pc := pc\<rparr>]\<rparr>"

definition add_sleeper :: "ztime \<Rightarrow> 'n clock_world \<Rightarrow> 'n clock_world" where
  "add_sleeper deadline w = w\<lparr>cw_sleepers := cw_sleepers w @ [\<lparr>sl_deadline = deadline, sl_pc = STop\<rparr>]\<rparr>"

text \<open>One step; \<open>None\<close> when the step cannot be taken, as while another thread holds the lock.\<close>

fun clock_step :: "'n notify_ops \<Rightarrow> clock_event \<Rightarrow> 'n clock_world \<Rightarrow> 'n clock_world option" where
  "clock_step N (ESetTime time) w =
     (if cw_locked w then None
      else if time < cw_now w then Some w
      else Some (w\<lparr>cw_now := time, cw_locked := True\<rparr>))"
| "clock_step N (EAdvance delta) w =
     (if cw_locked w then None
      else Some (w\<lparr>cw_now := zt_saturating_add (cw_now w) delta, cw_locked := True\<rparr>))"
| "clock_step N ENotify w =
     (if cw_locked w then Some (w\<lparr>cw_notify := no_notify_waiters N (cw_notify w), cw_locked := False\<rparr>) else None)"
| "clock_step N (ESleepUntil deadline) w = Some (add_sleeper deadline w)"
| "clock_step N (ESleep d) w =
     (if cw_locked w then None else Some (add_sleeper (zt_saturating_add (cw_now w) d) w))"
| "clock_step N (EEnable i) w =
     (if at_pc i STop w
      then Some (set_pc i SRegistered (w\<lparr>cw_notify := no_enable N i (cw_notify w)\<rparr>)) else None)"
| "clock_step N (ECheck i) w =
     (if \<not> at_pc i SRegistered w \<or> cw_locked w then None
      else if deadline_of i w \<le> cw_now w
      then Some (set_pc i SReturned (w\<lparr>cw_notify := no_drop N i (cw_notify w)\<rparr>))
      else Some (set_pc i SWaiting w))"
| "clock_step N (EAwait i) w =
     (if at_pc i SWaiting w \<and> no_ready N i (cw_notify w)
      then Some (set_pc i STop (w\<lparr>cw_notify := no_drop N i (cw_notify w)\<rparr>)) else None)"

text \<open>Infinite runs, and the steps of one sleeper.\<close>

definition clock_run :: "'n notify_ops \<Rightarrow> ztime \<Rightarrow> (nat \<Rightarrow> clock_event) \<Rightarrow> (nat \<Rightarrow> 'n clock_world) \<Rightarrow> bool" where
  "clock_run N start ev w \<longleftrightarrow> w 0 = world_new N start \<and> (\<forall>n. clock_step N (ev n) (w n) = Some (w (Suc n)))"

fun poll_event :: "nat \<Rightarrow> clock_event \<Rightarrow> bool" where
  "poll_event i (EEnable j) = (i = j)"
| "poll_event i (ECheck j) = (i = j)"
| "poll_event i (EAwait j) = (i = j)"
| "poll_event i _ = False"

definition can_poll :: "'n notify_ops \<Rightarrow> nat \<Rightarrow> 'n clock_world \<Rightarrow> bool" where
  "can_poll N i w \<longleftrightarrow> clock_step N (EEnable i) w \<noteq> None \<or> clock_step N (ECheck i) w \<noteq> None \<or> clock_step N (EAwait i) w \<noteq> None"

text \<open>
  Fairness: the lock is released again and again, and a sleeper that can run again and again
  is run again and again.
\<close>

definition fair_run :: "'n notify_ops \<Rightarrow> (nat \<Rightarrow> clock_event) \<Rightarrow> (nat \<Rightarrow> 'n clock_world) \<Rightarrow> bool" where
  "fair_run N ev w \<longleftrightarrow> (\<forall>n. \<exists>m \<ge> n. \<not> cw_locked (w m)) \<and>
     (\<forall>i. (\<forall>n. \<exists>m \<ge> n. can_poll N i (w m)) \<longrightarrow> (\<forall>n. \<exists>m \<ge> n. poll_event i (ev m)))"

section \<open>No sleeper is lost\<close>

text \<open>
  What is relied on of \<open>Notify\<close>; \<open>waiting\<close> says that a future is registered and not completed.
\<close>

locale notify_lib =
  fixes N :: "'n notify_ops" and waiting :: "nat \<Rightarrow> 'n \<Rightarrow> bool"
  assumes enable_registers: "waiting i (no_enable N i n) \<or> no_ready N i (no_enable N i n)"
    and enable_other: "i \<noteq> j \<Longrightarrow> (waiting i n \<longrightarrow> waiting i (no_enable N j n)) \<and> (no_ready N i n \<longrightarrow> no_ready N i (no_enable N j n))"
    and drop_other: "i \<noteq> j \<Longrightarrow> (waiting i n \<longrightarrow> waiting i (no_drop N j n)) \<and> (no_ready N i n \<longrightarrow> no_ready N i (no_drop N j n))"
    and notify_completes: "waiting i n \<or> no_ready N i n \<Longrightarrow> no_ready N i (no_notify_waiters N n)"

text \<open>What holds of a sleeper that is registered, waiting or returned.\<close>

definition sleeper_ok :: "'n notify_ops \<Rightarrow> (nat \<Rightarrow> 'n \<Rightarrow> bool) \<Rightarrow> 'n clock_world \<Rightarrow> nat \<Rightarrow> sleeper \<Rightarrow> bool" where
  "sleeper_ok N waiting w i s =
     (case sl_pc s of
        STop \<Rightarrow> True
      | SRegistered \<Rightarrow> waiting i (cw_notify w) \<or> no_ready N i (cw_notify w)
      | SWaiting \<Rightarrow> no_ready N i (cw_notify w) \<or>
          waiting i (cw_notify w) \<and> (cw_locked w \<or> cw_now w < sl_deadline s)
      | SReturned \<Rightarrow> sl_deadline s \<le> cw_now w)"

definition clock_inv :: "'n notify_ops \<Rightarrow> (nat \<Rightarrow> 'n \<Rightarrow> bool) \<Rightarrow> 'n clock_world \<Rightarrow> bool" where
  "clock_inv N waiting w \<longleftrightarrow> (\<forall>i < length (cw_sleepers w). sleeper_ok N waiting w i (cw_sleepers w ! i))"

text \<open>A bounded clock: its time and every deadline are durations.\<close>

definition bounded_world :: "'n clock_world \<Rightarrow> bool" where
  "bounded_world w \<longleftrightarrow> since_epoch (cw_now w) \<le> duration_max"

fun bounded_event :: "clock_event \<Rightarrow> bool" where
  "bounded_event (ESetTime t) = (since_epoch t \<le> duration_max)"
| "bounded_event _ = True"

text \<open>How many steps of its own a sleeper is from returning, once its deadline has come.\<close>

fun pc_rank :: "sleep_pc \<Rightarrow> nat" where
  "pc_rank SWaiting = 3"
| "pc_rank STop = 2"
| "pc_rank SRegistered = 1"
| "pc_rank SReturned = 0"

definition rank_of :: "nat \<Rightarrow> 'n clock_world \<Rightarrow> nat" where
  "rank_of i w = pc_rank (sl_pc (cw_sleepers w ! i))"

definition sleeper_due :: "nat \<Rightarrow> 'n clock_world \<Rightarrow> bool" where
  "sleeper_due i w \<longleftrightarrow> i < length (cw_sleepers w) \<and> deadline_of i w \<le> cw_now w"

lemma saturating_add_ge: "since_epoch t \<le> duration_max \<Longrightarrow> t \<le> zt_saturating_add t d"
  by (simp add: zt_saturating_add_def duration_saturating_add_def less_eq_ztime_def)

text \<open>Steps that keep the time, the lock and the other sleepers, and move one sleeper.\<close>

lemma clock_inv_moved:
  assumes "clock_inv N waiting w" and "cw_now w' = cw_now w" and "cw_locked w' = cw_locked w"
    and "cw_sleepers w' = (cw_sleepers w)[i := s]" and "sleeper_ok N waiting w' i s"
    and "\<And>j. j \<noteq> i \<Longrightarrow> waiting j (cw_notify w) \<Longrightarrow> waiting j (cw_notify w')"
    and "\<And>j. j \<noteq> i \<Longrightarrow> no_ready N j (cw_notify w) \<Longrightarrow> no_ready N j (cw_notify w')"
  shows "clock_inv N waiting w'"
  unfolding clock_inv_def
proof (intro allI impI)
  fix j assume j: "j < length (cw_sleepers w')"
  show "sleeper_ok N waiting w' j (cw_sleepers w' ! j)"
  proof (cases "j = i")
    case True
    then show ?thesis using assms(4,5) j by simp
  next
    case False
    then have "sleeper_ok N waiting w j (cw_sleepers w' ! j)" using assms(1,4) j by (simp add: clock_inv_def)
    then show ?thesis using assms(2,3,6,7) False by (auto simp: sleeper_ok_def split: sleep_pc.splits)
  qed
qed

lemma bounded_step: "clock_step N e w = Some w' \<Longrightarrow> bounded_event e \<Longrightarrow> bounded_world w \<Longrightarrow> bounded_world w'"
  by (cases e) (auto simp: bounded_world_def zt_saturating_add_def duration_saturating_add_def set_pc_def add_sleeper_def split: if_splits)

lemma clock_step_now: "clock_step N e w = Some w' \<Longrightarrow> bounded_world w \<Longrightarrow> cw_now w \<le> cw_now w'"
  by (cases e) (auto simp: bounded_world_def saturating_add_ge set_pc_def add_sleeper_def split: if_splits)

lemma clock_inv_locked:
  "clock_inv N waiting w \<Longrightarrow> cw_now w \<le> t \<Longrightarrow> clock_inv N waiting (w\<lparr>cw_now := t, cw_locked := True\<rparr>)"
  by (auto simp: clock_inv_def sleeper_ok_def split: sleep_pc.splits)

lemma sleeper_ok_cong:
  "cw_now w' = cw_now w \<Longrightarrow> cw_locked w' = cw_locked w \<Longrightarrow> cw_notify w' = cw_notify w \<Longrightarrow> sleeper_ok N waiting w' i s = sleeper_ok N waiting w i s"
  by (simp add: sleeper_ok_def split: sleep_pc.splits)

lemma clock_inv_add: "clock_inv N waiting w \<Longrightarrow> clock_inv N waiting (add_sleeper d w)"
  using sleeper_ok_cong [of "add_sleeper d w" w]
  by (auto simp: clock_inv_def add_sleeper_def nth_append sleeper_ok_def)

context notify_lib
begin

lemma clock_step_inv:
  assumes "clock_step N e w = Some w'" and "clock_inv N waiting w" and "bounded_world w"
  shows "clock_inv N waiting w'"
proof -
  have later: "cw_now w \<le> cw_now w'" using clock_step_now assms(1,3) .
  show ?thesis
  proof (cases e)
    case (ESetTime t)
    then show ?thesis using assms(1,2) later clock_inv_locked [OF assms(2)] by (auto split: if_splits)
  next
    case (EAdvance d)
    then show ?thesis using assms(1,2) later clock_inv_locked [OF assms(2)] by (auto split: if_splits)
  next
    case ENotify
    then show ?thesis using assms(1,2)
      by (auto simp: clock_inv_def sleeper_ok_def notify_completes split: if_splits sleep_pc.splits)
  next
    case (ESleepUntil d)
    then show ?thesis using assms(1,2) clock_inv_add by auto
  next
    case (ESleep d)
    then show ?thesis using assms(1,2) clock_inv_add by (auto split: if_splits)
  next
    case (EEnable i)
    then show ?thesis using assms(1)
      by (intro clock_inv_moved [OF assms(2), of w' i]) (auto simp: set_pc_def enable_other enable_registers sleeper_ok_def split: if_splits)
  next
    case (ECheck i)
    moreover have "i < length (cw_sleepers w)" "sleeper_ok N waiting w i (cw_sleepers w ! i)" "sl_pc (cw_sleepers w ! i) = SRegistered"
      using ECheck assms(1,2) by (auto simp: at_pc_def clock_inv_def split: if_splits)
    ultimately show ?thesis using assms(1)
      by (intro clock_inv_moved [OF assms(2), of w' i "(cw_sleepers w ! i)\<lparr>sl_pc := sl_pc (cw_sleepers w' ! i)\<rparr>"])
        (auto simp: set_pc_def drop_other deadline_of_def sleeper_ok_def split: if_splits)
  next
    case (EAwait i)
    then show ?thesis using assms(1)
      by (intro clock_inv_moved [OF assms(2), of w' i]) (auto simp: set_pc_def drop_other sleeper_ok_def split: if_splits)
  qed
qed

lemma clock_inv_new: "clock_inv N waiting (world_new N start)"
  by (simp add: clock_inv_def world_new_def)

lemma due_step:
  assumes "clock_step N e w = Some w'" and "bounded_world w" and "sleeper_due i w"
  shows "sleeper_due i w'" and "rank_of i w' \<le> rank_of i w" and "poll_event i e \<Longrightarrow> rank_of i w' < rank_of i w"
proof -
  have "cw_now w \<le> cw_now w'" using clock_step_now assms(1,2) .
  moreover have "i < length (cw_sleepers w') \<and> deadline_of i w' = deadline_of i w"
    using assms(1,3) by (cases e) (auto simp: sleeper_due_def deadline_of_def at_pc_def set_pc_def add_sleeper_def nth_append nth_list_update split: if_splits)
  ultimately show "sleeper_due i w'" using assms(3) by (auto simp: sleeper_due_def)
  have "rank_of i w' \<le> rank_of i w \<and> (poll_event i e \<longrightarrow> rank_of i w' < rank_of i w)"
  proof (cases "poll_event i e")
    case True
    then show ?thesis using assms(1,3)
      by (cases e) (auto simp: sleeper_due_def rank_of_def deadline_of_def at_pc_def set_pc_def split: if_splits)
  next
    case False
    then have "cw_sleepers w' ! i = cw_sleepers w ! i"
      using assms(1,3) by (cases e) (auto simp: sleeper_due_def set_pc_def add_sleeper_def nth_append split: if_splits)
    then show ?thesis using False by (simp add: rank_of_def)
  qed
  then show "rank_of i w' \<le> rank_of i w" "poll_event i e \<Longrightarrow> rank_of i w' < rank_of i w" by simp_all
qed

lemma due_can_poll:
  assumes "clock_inv N waiting w" and "sleeper_due i w" and "\<not> cw_locked w" and "\<not> at_pc i SReturned w"
  shows "can_poll N i w"
proof -
  have i: "i < length (cw_sleepers w)" and ok: "sleeper_ok N waiting w i (cw_sleepers w ! i)"
    using assms(1,2) by (auto simp: sleeper_due_def clock_inv_def)
  show ?thesis
    using assms(2-4) i ok
    by (cases "sl_pc (cw_sleepers w ! i)") (auto simp: can_poll_def at_pc_def sleeper_due_def deadline_of_def sleeper_ok_def)
qed

lemma run_inv:
  assumes "clock_run N start ev w" and "since_epoch start \<le> duration_max" and "\<And>n. bounded_event (ev n)"
  shows "clock_inv N waiting (w n) \<and> bounded_world (w n)"
proof (induction n)
  case 0
  then show ?case using assms(1,2) clock_inv_new by (simp add: clock_run_def bounded_world_def world_new_def)
next
  case (Suc n)
  then show ?case using assms(1,3) clock_step_inv bounded_step unfolding clock_run_def by blast
qed

lemma run_now:
  assumes "clock_run N start ev w" and "since_epoch start \<le> duration_max" and "\<And>n. bounded_event (ev n)" and "n \<le> m"
  shows "cw_now (w n) \<le> cw_now (w m)"
proof (rule lift_Suc_mono_le [OF _ assms(4)])
  show "cw_now (w k) \<le> cw_now (w (Suc k))" for k
    using run_inv [OF assms(1-3)] clock_step_now assms(1) unfolding clock_run_def by blast
qed

lemma run_due:
  assumes "clock_run N start ev w" and "since_epoch start \<le> duration_max" and "\<And>n. bounded_event (ev n)"
    and "sleeper_due i (w n)" and "n \<le> m"
  shows "sleeper_due i (w m) \<and> rank_of i (w m) \<le> rank_of i (w n)"
  using assms(5)
proof (induction m rule: dec_induct)
  case base
  then show ?case using assms(4) by simp
next
  case (step m)
  then show ?case
    using run_inv [OF assms(1-3)] due_step(1,2) assms(1) unfolding clock_run_def by (meson order_trans)
qed

lemma run_returns:
  assumes run: "clock_run N start ev w" "since_epoch start \<le> duration_max" "\<And>n. bounded_event (ev n)"
    and fair: "fair_run N ev w" and "sleeper_due i (w n)"
  shows "\<exists>m \<ge> n. at_pc i SReturned (w m)"
  using assms(5)
proof (induction "rank_of i (w n)" arbitrary: n rule: less_induct)
  case less
  show ?case
  proof (rule ccontr)
    assume none: "\<not> (\<exists>m \<ge> n. at_pc i SReturned (w m))"
    have "\<exists>m \<ge> k. can_poll N i (w m)" for k
    proof -
      obtain m where m: "m \<ge> max k n" "\<not> cw_locked (w m)" using fair unfolding fair_run_def by blast
      then have "sleeper_due i (w m)" using run_due [OF run less.prems] by simp
      then have "can_poll N i (w m)" using due_can_poll run_inv [OF run] m none by (meson max.boundedE)
      then show ?thesis using m(1) by (meson max.boundedE)
    qed
    then obtain m where m: "m \<ge> n" "poll_event i (ev m)" using fair unfolding fair_run_def by blast
    have "sleeper_due i (w m)" "rank_of i (w m) \<le> rank_of i (w n)" using run_due [OF run less.prems m(1)] by simp_all
    moreover have "clock_step N (ev m) (w m) = Some (w (Suc m))" "bounded_world (w m)"
      using run(1) run_inv [OF run] by (simp_all add: clock_run_def)
    ultimately have "sleeper_due i (w (Suc m))" "rank_of i (w (Suc m)) < rank_of i (w n)"
      using due_step [of "ev m" "w m" "w (Suc m)" i] m(2) by simp_all
    then obtain k where "k \<ge> Suc m" "at_pc i SReturned (w k)" using less.hyps by blast
    then show False using none m(1) by (meson Suc_leD order_trans)
  qed
qed

end

text \<open>
  C36: Sleeping on a simulated clock. In every run the time never goes back, a sleeper returns
  only once its deadline has come, and, if the run is fair, every sleeper whose deadline has
  come does return: no wake-up is lost, whenever the time is moved.
\<close>

theorem sleepers_return:
  assumes "notify_lib N waiting" and "clock_run N start ev w" and "since_epoch start \<le> duration_max"
    and "\<And>n. bounded_event (ev n)" and "fair_run N ev w"
  shows "(\<forall>n m. n \<le> m \<longrightarrow> cw_now (w n) \<le> cw_now (w m)) \<and>
     (\<forall>i n. at_pc i SReturned (w n) \<longrightarrow> deadline_of i (w n) \<le> cw_now (w n)) \<and>
     (\<forall>i n. i < length (cw_sleepers (w n)) \<and> deadline_of i (w n) \<le> cw_now (w n) \<longrightarrow> (\<exists>m \<ge> n. at_pc i SReturned (w m)))"
proof (intro conjI allI impI)
  show "cw_now (w n) \<le> cw_now (w m)" if "n \<le> m" for n m
    using notify_lib.run_now [OF assms(1-4) that] .
  show "deadline_of i (w n) \<le> cw_now (w n)" if "at_pc i SReturned (w n)" for i n
    using notify_lib.run_inv [OF assms(1-4), of n] that by (auto simp: clock_inv_def at_pc_def deadline_of_def sleeper_ok_def split: sleep_pc.splits)
  show "\<exists>m \<ge> n. at_pc i SReturned (w m)" if "i < length (cw_sleepers (w n)) \<and> deadline_of i (w n) \<le> cw_now (w n)" for i n
    using notify_lib.run_returns [OF assms] that by (simp add: sleeper_due_def)
qed

text \<open>
  An instance: the futures registered and the futures completed, as lists.
\<close>

definition list_notify :: "(nat list \<times> nat list) notify_ops" where
  "list_notify = \<lparr>no_new = ([], []), no_enable = (\<lambda>i (ws, rs). (i # ws, rs)), no_notify_waiters = (\<lambda>(ws, rs). ([], ws @ rs)),
     no_drop = (\<lambda>i (ws, rs). (removeAll i ws, removeAll i rs)), no_ready = (\<lambda>i (ws, rs). i \<in> set rs)\<rparr>"

interpretation list_notify: notify_lib list_notify "\<lambda>i n. i \<in> set (fst n)"
  by unfold_locales (auto simp: list_notify_def)

text \<open>A run: one sleeper registers and waits, the time is moved past its deadline, and from then on the time stands still.\<close>

definition sample_events :: "nat \<Rightarrow> clock_event" where
  "sample_events n =
     (if n < 8 then [ESleepUntil (ZTime 5), EEnable 0, ECheck 0, ESetTime (ZTime 7), ENotify, EAwait 0, EEnable 0, ECheck 0] ! n
      else if even n then ESetTime (ZTime 7) else ENotify)"

fun sample_world :: "nat \<Rightarrow> (nat list \<times> nat list) clock_world" where
  "sample_world 0 = world_new list_notify zt_zero"
| "sample_world (Suc n) = (case clock_step list_notify (sample_events n) (sample_world n) of None \<Rightarrow> sample_world n | Some w \<Rightarrow> w)"

definition sample_rest :: "bool \<Rightarrow> (nat list \<times> nat list) clock_world" where
  "sample_rest locked = \<lparr>cw_now = ZTime 7, cw_locked = locked, cw_notify = ([], []),
     cw_sleepers = [\<lparr>sl_deadline = ZTime 5, sl_pc = SReturned\<rparr>]\<rparr>"

lemma sample_steps: "n < 8 \<Longrightarrow> clock_step list_notify (sample_events n) (sample_world n) \<noteq> None"
proof -
  have "list_all (\<lambda>n. clock_step list_notify (sample_events n) (sample_world n) \<noteq> None) [0..<8]" by code_simp
  then show "n < 8 \<Longrightarrow> clock_step list_notify (sample_events n) (sample_world n) \<noteq> None" by (simp add: list_all_iff)
qed

lemma rest_step:
  "clock_step list_notify (ESetTime (ZTime 7)) (sample_rest False) = Some (sample_rest True)" "clock_step list_notify ENotify (sample_rest True) = Some (sample_rest False)"
  by code_simp+

lemma sample_world_rests: "8 \<le> n \<Longrightarrow> sample_world n = sample_rest (odd n)"
proof (induction n rule: dec_induct)
  case base
  then show ?case by code_simp
next
  case (step n)
  then show ?case using rest_step by (simp add: sample_events_def)
qed

lemma sample_run: "clock_run list_notify zt_zero sample_events sample_world"
  unfolding clock_run_def
proof (intro conjI allI)
  show "clock_step list_notify (sample_events n) (sample_world n) = Some (sample_world (Suc n))" for n
  proof (cases "n < 8")
    case True
    then show ?thesis using sample_steps [of n] by auto
  next
    case False
    then show ?thesis using sample_world_rests [of n] rest_step by (simp add: sample_events_def)
  qed
qed simp

lemma rest_no_poll: "\<not> can_poll list_notify i (sample_rest b)"
proof -
  have "\<not> at_pc i STop (sample_rest b)" "\<not> at_pc i SRegistered (sample_rest b)" "\<not> at_pc i SWaiting (sample_rest b)"
    by (cases i; simp add: at_pc_def sample_rest_def)+
  then show ?thesis by (simp add: can_poll_def)
qed

lemma sample_fair: "fair_run list_notify sample_events sample_world"
  unfolding fair_run_def
proof (intro conjI allI impI)
  show "\<exists>m \<ge> n. \<not> cw_locked (sample_world m)" for n
    by (rule exI [of _ "2 * (n + 8)"]) (simp add: sample_world_rests sample_rest_def)
  fix i n assume "\<forall>n. \<exists>m \<ge> n. can_poll list_notify i (sample_world m)"
  then obtain m where "8 \<le> m" "can_poll list_notify i (sample_world m)" by blast
  then have False using rest_no_poll by (simp add: sample_world_rests)
  then show "\<exists>m \<ge> n. poll_event i (sample_events m)" ..
qed

theorem sleepers_return_witness:
  "\<exists>m \<ge> 4. at_pc 0 SReturned (sample_world m)"
proof -
  have "bounded_event (ESetTime (ZTime 7))" by (simp add: duration_max_def nanos_per_sec_def)
  then have "bounded_event (sample_events n)" for n
    using less_Suc_eq [of n 7] by (auto simp: sample_events_def nth_Cons' split: if_splits)
  moreover have "0 < length (cw_sleepers (sample_world 4)) \<and> deadline_of 0 (sample_world 4) \<le> cw_now (sample_world 4)" by code_simp
  moreover have "since_epoch zt_zero \<le> duration_max" by (simp add: zt_zero_def)
  ultimately show ?thesis using sleepers_return [OF list_notify.notify_lib_axioms sample_run _ _ sample_fair] by blast
qed

section \<open>Intervals and the system clock\<close>

text \<open>The ticks of an interval are its multiples, however late they are taken.\<close>

lemma ticks_exact:
  assumes "since_epoch (zi_next_deadline iv) \<le> duration_max"
  shows "fst (ticks n iv) =
     map (\<lambda>k. ZTime (min duration_max (since_epoch (zi_next_deadline iv) + k * zi_period iv))) [0..<n]"
  using assms
proof (induction n arbitrary: iv)
  case 0
  then show ?case by simp
next
  case (Suc n)
  have "fst (ticks n (snd (tick_fired iv))) =
      map (\<lambda>k. ZTime (min duration_max (since_epoch (zi_next_deadline iv) + Suc k * zi_period iv))) [0..<n]"
    using Suc.IH [of "snd (tick_fired iv)"]
    by (simp add: tick_fired_def zt_saturating_add_def duration_saturating_add_def add.assoc min_def)
  moreover have "fst (ticks (Suc n) iv) = zi_next_deadline iv # fst (ticks n (snd (tick_fired iv)))"
    by (simp add: tick_fired_def split: prod.split)
  moreover have "ZTime (min duration_max (since_epoch (zi_next_deadline iv) + 0 * zi_period iv)) = zi_next_deadline iv"
    using Suc.prems by (cases "zi_next_deadline iv") simp
  moreover have "[0..<Suc n] = 0 # map Suc [0..<n]" by (simp add: map_Suc_upt upt_conv_Cons)
  ultimately show ?case by (simp add: comp_def)
qed

text \<open>
  Intervals and sleeping on the two clocks. The ticks of an interval are the start plus
  the multiples of the period, whenever they are awaited, up to the largest duration; sleeping
  on a simulated clock never fails; on the system clock it waits for the given time, unless
  the deadline lies beyond what a system time can hold: then it panics, although the addition
  saturates.
\<close>

theorem interval_and_sleep_exact:
  assumes "0 \<le> wall" and "wall < 2 ^ 63 * int nanos_per_sec" and "d \<le> duration_max" and "since_epoch start \<le> duration_max"
  shows "fst (ticks n (clock_interval wall (CSimulated start nf) d)) =
        map (\<lambda>k. ZTime (min duration_max (since_epoch start + k * d))) [1..<n + 1] \<and>
     clock_sleep wall (CSimulated start nf) d = Ok (SimulatedSleep (ZTime (min duration_max (since_epoch start + d)))) \<and>
     clock_sleep wall CSystem d = (if nat wall + d < 2 ^ 63 * nanos_per_sec then Ok (TimerSleep d) else Panic)"
proof (intro conjI)
  let ?iv = "clock_interval wall (CSimulated start nf) d"
  have "fst (ticks n ?iv) = map (\<lambda>k. ZTime (min duration_max (since_epoch (zi_next_deadline ?iv) + k * zi_period ?iv))) [0..<n]"
    by (rule ticks_exact) (simp add: clock_interval_def zt_saturating_add_def duration_saturating_add_def)
  also have "\<dots> = map (\<lambda>k. ZTime (min duration_max (since_epoch start + Suc k * d))) [0..<n]"
    by (simp add: clock_interval_def zt_saturating_add_def duration_saturating_add_def min_def)
  also have "\<dots> = map (\<lambda>k. ZTime (min duration_max (since_epoch start + k * d))) [1..<n + 1]"
    by (simp add: map_Suc_upt [symmetric] comp_def del: upt_Suc)
  finally show "fst (ticks n ?iv) = map (\<lambda>k. ZTime (min duration_max (since_epoch start + k * d))) [1..<n + 1]" .
  show "clock_sleep wall (CSimulated start nf) d = Ok (SimulatedSleep (ZTime (min duration_max (since_epoch start + d))))"
    by (simp add: clock_sleep_def zt_saturating_add_def duration_saturating_add_def)
  let ?t = "min duration_max (nat wall + d)"
  have max: "2 ^ 63 * nanos_per_sec \<le> duration_max" by (simp add: duration_max_def nanos_per_sec_def)
  have "clock_sleep wall CSystem d = (if ?t div nanos_per_sec < 2 ^ 63 then Ok (TimerSleep (nat (int ?t - wall))) else Panic)"
    by (simp add: clock_sleep_def from_system_time_def zt_saturating_add_def duration_saturating_add_def to_system_time_def)
  moreover have "?t div nanos_per_sec < 2 ^ 63 \<longleftrightarrow> ?t < 2 ^ 63 * nanos_per_sec"
    by (simp add: div_less_iff_less_mult nanos_per_sec_def)
  moreover have "?t < 2 ^ 63 * nanos_per_sec \<longleftrightarrow> nat wall + d < 2 ^ 63 * nanos_per_sec" using max by linarith
  moreover have "nat (int ?t - wall) = d" if "nat wall + d < 2 ^ 63 * nanos_per_sec"
    using that max assms(1) by (simp add: min_def)
  ultimately show "clock_sleep wall CSystem d = (if nat wall + d < 2 ^ 63 * nanos_per_sec then Ok (TimerSleep d) else Panic)"
    by (cases "nat wall + d < 2 ^ 63 * nanos_per_sec") simp_all
qed

theorem interval_and_sleep_exact_witness:
  "fst (ticks 2 (clock_interval 1 (CSimulated (ZTime 5) ([], [] :: nat list)) 10)) = [ZTime 15, ZTime 25] \<and>
   clock_sleep 1 CSystem 10 = (Ok (TimerSleep 10) :: (zsleep, unit) res) \<and>
   clock_sleep 1 CSystem duration_max = (Panic :: (zsleep, unit) res)"
proof (intro conjI)
  have b: "(1 :: int) < 2 ^ 63 * int nanos_per_sec" "(10 :: nat) \<le> duration_max" "since_epoch (ZTime 5) \<le> duration_max"
      "nat 1 + 10 < 2 ^ 63 * nanos_per_sec" "\<not> nat 1 + duration_max < 2 ^ 63 * nanos_per_sec"
      "min duration_max 15 = 15" "min duration_max 25 = 25"
    by (simp_all add: duration_max_def nanos_per_sec_def)
  note ex = interval_and_sleep_exact [OF _ b(1), where start = "ZTime 5" and nf = "([], [] :: nat list)" and n = 2]
  show "fst (ticks 2 (clock_interval 1 (CSimulated (ZTime 5) ([], [] :: nat list)) 10)) = [ZTime 15, ZTime 25]"
    using ex [of 10, THEN conjunct1] b by (simp add: upt_conv_Cons)
  show "clock_sleep 1 CSystem 10 = (Ok (TimerSleep 10) :: (zsleep, unit) res)"
    using ex [of 10, THEN conjunct2, THEN conjunct2] b by simp
  show "clock_sleep 1 CSystem duration_max = (Panic :: (zsleep, unit) res)"
    using ex [of duration_max, THEN conjunct2, THEN conjunct2] b by simp
qed

text \<open>Points in time as 64 bit nanoseconds: exact where they fit, clamped where not.\<close>

lemma unix_nanos_roundtrip: "as_unix_nanos (from_unix_nanos n) = (if sint n < 0 then 0 else n)"
proof (cases "sint n < 0")
  case True
  then show ?thesis by (simp add: from_unix_nanos_def as_unix_nanos_def)
next
  case False
  then have "take_bit LENGTH(64) (sint n) = sint n" using sint_lt [of n] by (intro take_bit_int_eq_self) auto
  then have "sint n = uint n" by (simp only: uint_sint [symmetric])
  then have "uint n < 2 ^ 63" using sint_lt [of n] by simp
  then have "int (unat n) < 2 ^ 63" by (simp only: uint_nat)
  then have "unat n < 2 ^ 63" using of_nat_less_iff [of "unat n" "2 ^ 63", where 'a = int] by simp
  then show ?thesis using False by (simp add: from_unix_nanos_def as_unix_nanos_def)
qed

end
