(* ===== verification/Local_Bus.thy ===== *)
theory Local_Bus
  imports Qos "HOL-Library.Sublist"
begin

text \<open>
  The intra-process bus (\<open>hiroz/src/local_bus.rs\<close>), the re-entrancy guard it asserts
  (\<open>hiroz/src/reentrancy.rs\<close>), the routes of a publisher onto it (\<open>hiroz/src/pubsub.rs\<close>) and the
  registry of its channels.

  Delivery calls the subscribers inline, and a callback may publish again, subscribe and
  unsubscribe. A callback is therefore a program, a tree of the operations it performs, each
  continued with the result of the operation; \<open>Update\<close> is any other code, on a state of the
  user's. The programs of a bus are called by the mutually recursive functions below. The
  thread-local delivery depth is an argument: it is raised for the duration of one delivery and
  restored on every way out of it. That these functions are total is the promise of the depth
  limit, proved by the termination proof; nothing bounds a callback otherwise. Ids and counters
  are natural numbers.

  Shown: which callbacks a publish calls, in which order and how often, whatever the callbacks
  do meanwhile and whichever of them panic; that the depth never exceeds its limit; that an
  error means nothing was delivered; that endpoints share a channel exactly when they share
  session and topic.
\<close>

section \<open>Programs, entries, channels\<close>

datatype delivery = Sent nat | NoTaker | DepthExceeded

definition max_delivery_depth :: nat where
  "max_delivery_depth = 8"

datatype ('v, 's) prog =
    Finish
  | Raise
  | Update "'s \<Rightarrow> 's \<times> ('v, 's) prog"
  | PublishShared nat nat 'v "delivery \<Rightarrow> ('v, 's) prog"
  | PublishOwned nat nat 'v "delivery option \<Rightarrow> ('v, 's) prog"
  | Subscribe nat nat "('v, 's) sink" "nat \<Rightarrow> ('v, 's) prog"
  | Unsubscribe nat nat "('v, 's) prog"
  | WithLock "('v, 's) prog" "('v, 's) prog"
and ('v, 's) sink = SharedSink "'v \<Rightarrow> ('v, 's) prog" | OwnedSink "'v \<Rightarrow> ('v, 's) prog"

record ('v, 's) entry =
  en_id :: nat
  en_type :: nat
  en_sink :: "('v, 's) sink"

fun is_shared :: "('v, 's) sink \<Rightarrow> bool" where
  "is_shared (SharedSink _) = True"
| "is_shared (OwnedSink _) = False"

fun sink_call :: "('v, 's) sink \<Rightarrow> 'v \<Rightarrow> ('v, 's) prog" where
  "sink_call (SharedSink cb) v = cb v"
| "sink_call (OwnedSink cb) v = cb v"

text \<open>
  The bus as one thread sees it: the entries of every channel, the next subscription id, the
  live guards of tracked locks, the user's state, and for the record every call of a callback
  and every normal return, with its depth and the id of the subscription.
\<close>

datatype bus_event = Called nat nat | Completed nat nat

record ('v, 's) bus =
  bs_entries :: "nat \<Rightarrow> ('v, 's) entry list"
  bs_next_id :: nat
  bs_guards :: nat
  bs_user :: 's
  bs_log :: "bus_event list"

definition bus_note :: "bus_event \<Rightarrow> ('v, 's) bus \<Rightarrow> ('v, 's) bus" where
  "bus_note e b = b\<lparr>bs_log := bs_log b @ [e]\<rparr>"

definition bus_subscribe :: "nat \<Rightarrow> nat \<Rightarrow> ('v, 's) sink \<Rightarrow> ('v, 's) bus \<Rightarrow> nat \<times> ('v, 's) bus" where
  "bus_subscribe c ty sink b =
     (let i = bs_next_id b in
      (i, b\<lparr>bs_next_id := i + 1,
            bs_entries := (bs_entries b)(c := bs_entries b c @ [\<lparr>en_id = i, en_type = ty, en_sink = sink\<rparr>])\<rparr>))"

definition bus_unsubscribe :: "nat \<Rightarrow> nat \<Rightarrow> ('v, 's) bus \<Rightarrow> ('v, 's) bus" where
  "bus_unsubscribe c i b =
     b\<lparr>bs_entries := (bs_entries b)(c := filter (\<lambda>e. en_id e \<noteq> i) (bs_entries b c))\<rparr>"

definition shared_entries :: "nat \<Rightarrow> nat \<Rightarrow> ('v, 's) bus \<Rightarrow> ('v, 's) entry list" where
  "shared_entries c ty b = filter (\<lambda>e. is_shared (en_sink e)) (filter (\<lambda>e. en_type e = ty) (bs_entries b c))"

definition owned_receivers :: "nat \<Rightarrow> nat \<Rightarrow> ('v, 's) bus \<Rightarrow> nat" where
  "owned_receivers c ty b = length (filter (\<lambda>e. en_type e = ty \<and> \<not> is_shared (en_sink e)) (bs_entries b c))"

definition subscriber_count :: "nat \<Rightarrow> ('v, 's) bus \<Rightarrow> nat" where
  "subscriber_count c b = length (bs_entries b c)"

section \<open>Delivery\<close>

text \<open>How a callback ends; a re-entrancy violation is the one panic that is not contained.\<close>

datatype prog_end = Returned | Panicked | Violation

text \<open>The immediate continuations of a program.\<close>

inductive_set subprog :: "(('v, 's) prog \<times> ('v, 's) prog) set" where
  "f u = (u', p) \<Longrightarrow> (p, Update f) \<in> subprog"
| "(k r, PublishShared c ty v k) \<in> subprog"
| "(k' r', PublishOwned c ty v k') \<in> subprog"
| "(k'' i, Subscribe c ty sink k'') \<in> subprog"
| "(p, Unsubscribe c i p) \<in> subprog"
| "(p, WithLock p q) \<in> subprog"
| "(q, WithLock p q) \<in> subprog"

inductive_cases subprog_cases:
  "(p, Finish) \<in> subprog" "(p, Raise) \<in> subprog" "(p, Update f) \<in> subprog" "(p, PublishShared c ty v k) \<in> subprog"
  "(p, PublishOwned c ty v k') \<in> subprog" "(p, Subscribe c ty sink k'') \<in> subprog" "(p, Unsubscribe c i q) \<in> subprog"
  "(p, WithLock q r) \<in> subprog"

lemma wf_subprog: "wf subprog"
proof (rule wfUNIVI)
  fix P :: "('v, 's) prog \<Rightarrow> bool" and p
  assume ih: "\<forall>x. (\<forall>y. (y, x) \<in> subprog \<longrightarrow> P y) \<longrightarrow> P x"
  have "P p" and "True" for sink :: "('v, 's) sink"
  proof (induction p and sink)
    case Finish
    show ?case by (rule ih [rule_format]) (erule subprog_cases)
  next
    case Raise
    show ?case by (rule ih [rule_format]) (erule subprog_cases)
  next
    case (Update f)
    show ?case
    proof (rule ih [rule_format], erule subprog_cases)
      fix y u u' assume "f u = (u', y)"
      then have "y \<in> Basic_BNFs.snds (f u)" by (simp add: prod_set_defs)
      then show "P y" using Update by blast
    qed
  next
    case (PublishShared c ty v k)
    show ?case by (rule ih [rule_format]) (auto elim!: subprog_cases intro: PublishShared)
  next
    case (PublishOwned c ty v k)
    show ?case by (rule ih [rule_format]) (auto elim!: subprog_cases intro: PublishOwned)
  next
    case (Subscribe c ty sink k)
    show ?case by (rule ih [rule_format]) (auto elim!: subprog_cases intro: Subscribe)
  next
    case (Unsubscribe c i q)
    show ?case by (rule ih [rule_format]) (auto elim!: subprog_cases intro: Unsubscribe)
  next
    case (WithLock q r)
    show ?case by (rule ih [rule_format]) (auto elim!: subprog_cases intro: WithLock)
  qed simp_all
  then show "P p" by blast
qed

definition add_guard :: "('v, 's) bus \<Rightarrow> ('v, 's) bus" where
  "add_guard b = b\<lparr>bs_guards := bs_guards b + 1\<rparr>"

definition drop_guard :: "('v, 's) bus \<Rightarrow> ('v, 's) bus" where
  "drop_guard b = b\<lparr>bs_guards := bs_guards b - 1\<rparr>"

text \<open>The assertion of a debug build before user code is called.\<close>

definition no_guards_held :: "bool \<Rightarrow> ('v, 's) bus \<Rightarrow> bool" where
  "no_guards_held debug b = (\<not> debug \<or> bs_guards b = 0)"

definition delivered :: "nat \<Rightarrow> delivery" where
  "delivered n = (if n = 0 then NoTaker else Sent n)"

text \<open>The owning subscriber of a type, if it is the only subscriber of the type.\<close>

definition sole_owner :: "nat \<Rightarrow> nat \<Rightarrow> ('v, 's) bus \<Rightarrow> ('v, 's) entry option" where
  "sole_owner c ty b =
     (case filter (\<lambda>e. en_type e = ty) (bs_entries b c) of
        [only] \<Rightarrow> if is_shared (en_sink only) then None else Some only
      | _ \<Rightarrow> None)"

text \<open>
  \<open>run_prog\<close> runs a program at a delivery depth; \<open>deliver\<close> calls the given callbacks one after
  the other, each isolated, and counts those that return (\<open>None\<close> when a violation unwinds
  through it); \<open>bus_publish\<close> is \<open>Channel::publish\<close>, \<open>bus_publish_owned\<close> is
  \<open>Channel::publish_owned\<close>, where \<open>Some None\<close> hands the payload back.
\<close>

function run_prog :: "bool \<Rightarrow> nat \<Rightarrow> ('v, 's) prog \<Rightarrow> ('v, 's) bus \<Rightarrow> prog_end \<times> ('v, 's) bus"
  and deliver :: "bool \<Rightarrow> nat \<Rightarrow> (nat \<times> ('v, 's) prog) list \<Rightarrow> ('v, 's) bus \<Rightarrow> nat option \<times> ('v, 's) bus"
  and bus_publish :: "bool \<Rightarrow> nat \<Rightarrow> nat \<Rightarrow> nat \<Rightarrow> 'v \<Rightarrow> ('v, 's) bus \<Rightarrow> delivery option \<times> ('v, 's) bus"
  and bus_publish_owned :: "bool \<Rightarrow> nat \<Rightarrow> nat \<Rightarrow> nat \<Rightarrow> 'v \<Rightarrow> ('v, 's) bus \<Rightarrow> delivery option option \<times> ('v, 's) bus"
where
  "run_prog debug depth Finish b = (Returned, b)"
| "run_prog debug depth Raise b = (Panicked, b)"
| "run_prog debug depth (Update f) b = run_prog debug depth (snd (f (bs_user b))) (b\<lparr>bs_user := fst (f (bs_user b))\<rparr>)"
| "run_prog debug depth (PublishShared c ty v k) b =
     (case bus_publish debug depth c ty v b of
        (None, b') \<Rightarrow> (Violation, b')
      | (Some r, b') \<Rightarrow> run_prog debug depth (k r) b')"
| "run_prog debug depth (PublishOwned c ty v k) b =
     (case bus_publish_owned debug depth c ty v b of
        (None, b') \<Rightarrow> (Violation, b')
      | (Some r, b') \<Rightarrow> run_prog debug depth (k r) b')"
| "run_prog debug depth (Subscribe c ty sink k) b =
     run_prog debug depth (k (fst (bus_subscribe c ty sink b))) (snd (bus_subscribe c ty sink b))"
| "run_prog debug depth (Unsubscribe c i p) b = run_prog debug depth p (bus_unsubscribe c i b)"
| "run_prog debug depth (WithLock p q) b =
     (case run_prog debug depth p (add_guard b) of
        (out, b') \<Rightarrow> if out = Returned then run_prog debug depth q (drop_guard b') else (out, drop_guard b'))"
| "deliver debug depth [] b = (Some 0, b)"
| "deliver debug depth ((i, p) # ps) b =
     (if \<not> no_guards_held debug b then (None, b)
      else case run_prog debug depth p (bus_note (Called depth i) b) of
             (Violation, b') \<Rightarrow> (None, b')
           | (Panicked, b') \<Rightarrow> deliver debug depth ps b'
           | (Returned, b') \<Rightarrow>
               (case deliver debug depth ps (bus_note (Completed depth i) b') of
                  (n, b'') \<Rightarrow> (map_option Suc n, b'')))"
| "bus_publish debug depth c ty v b =
     (if max_delivery_depth \<le> depth then (Some DepthExceeded, b)
      else case deliver debug (depth + 1) (map (\<lambda>e. (en_id e, sink_call (en_sink e) v)) (shared_entries c ty b)) b of
             (n, b') \<Rightarrow> (map_option delivered n, b'))"
| "bus_publish_owned debug depth c ty v b =
     (case sole_owner c ty b of
        None \<Rightarrow> (Some None, b)
      | Some e \<Rightarrow>
          if max_delivery_depth \<le> depth then (Some (Some DepthExceeded), b)
          else case deliver debug (depth + 1) [(en_id e, sink_call (en_sink e) v)] b of
                 (n, b') \<Rightarrow> (map_option (\<lambda>m. Some (delivered m)) n, b'))"
  by pat_completeness auto

text \<open>
  The recursion descends: a delivery raises the depth up to its limit, calls its callbacks one
  by one, and a callback continues with a part of its program.
\<close>

fun bus_rank ::
  "(bool \<times> nat \<times> ('v, 's) prog \<times> ('v, 's) bus + bool \<times> nat \<times> (nat \<times> ('v, 's) prog) list \<times> ('v, 's) bus) +
   (bool \<times> nat \<times> nat \<times> nat \<times> 'v \<times> ('v, 's) bus + bool \<times> nat \<times> nat \<times> nat \<times> 'v \<times> ('v, 's) bus)
   \<Rightarrow> nat \<times> nat \<times> nat \<times> ('v, 's) prog" where
  "bus_rank (Inl (Inl (debug, depth, p, b))) = (max_delivery_depth - depth, 1, 0, p)"
| "bus_rank (Inl (Inr (debug, depth, ps, b))) = (max_delivery_depth - depth, 2, length ps, Finish)"
| "bus_rank (Inr (Inl (debug, depth, c, ty, v, b))) = (max_delivery_depth - depth, 0, 0, Finish)"
| "bus_rank (Inr (Inr (debug, depth, c, ty, v, b))) = (max_delivery_depth - depth, 0, 0, Finish)"

definition bus_order where
  "bus_order = inv_image (less_than <*lex*> less_than <*lex*> less_than <*lex*> subprog) bus_rank"

termination run_prog
  by (relation bus_order)
    (auto simp: wf_subprog bus_order_def intro: subprog.intros diff_less_mono2 [of _ _ max_delivery_depth] prod.collapse [symmetric])

declare run_prog.simps [simp] deliver.simps [simp]
declare bus_publish.simps [simp del] bus_publish_owned.simps [simp del]

section \<open>What a delivery does\<close>

text \<open>The calls and the normal returns at one depth.\<close>

fun called_at :: "nat \<Rightarrow> bus_event list \<Rightarrow> nat list" where
  "called_at d [] = []"
| "called_at d (Called n i # es) = (if n = d then i # called_at d es else called_at d es)"
| "called_at d (Completed n i # es) = called_at d es"

fun completed_at :: "nat \<Rightarrow> bus_event list \<Rightarrow> nat list" where
  "completed_at d [] = []"
| "completed_at d (Completed n i # es) = (if n = d then i # completed_at d es else completed_at d es)"
| "completed_at d (Called n i # es) = completed_at d es"

fun event_depth :: "bus_event \<Rightarrow> nat" where
  "event_depth (Called n i) = n"
| "event_depth (Completed n i) = n"

lemma called_at_append [simp]: "called_at d (xs @ ys) = called_at d xs @ called_at d ys"
  by (induction xs rule: called_at.induct [of _ d]) auto

lemma completed_at_append [simp]: "completed_at d (xs @ ys) = completed_at d xs @ completed_at d ys"
  by (induction xs rule: completed_at.induct [of _ d]) auto

lemma no_calls: "(\<And>e. e \<in> set es \<Longrightarrow> d < event_depth e) \<Longrightarrow> called_at d es = [] \<and> completed_at d es = []"
proof (induction es)
  case (Cons e es)
  then show ?case by (cases e) force+
qed simp

text \<open>What running something at a depth adds to the record, and that it gives back the guards.\<close>

definition adds :: "(bus_event list \<Rightarrow> bool) \<Rightarrow> ('v, 's) bus \<Rightarrow> ('v, 's) bus \<Rightarrow> bool" where
  "adds P b b' \<longleftrightarrow> bs_guards b' = bs_guards b \<and> (\<exists>L. bs_log b' = bs_log b @ L \<and> P L)"

definition deeper :: "nat \<Rightarrow> bus_event list \<Rightarrow> bool" where
  "deeper d L \<longleftrightarrow> (\<forall>e \<in> set L. d < event_depth e \<and> event_depth e \<le> max_delivery_depth)"

definition one_round :: "nat \<Rightarrow> nat list \<Rightarrow> nat option \<Rightarrow> bus_event list \<Rightarrow> bool" where
  "one_round d ids n L \<longleftrightarrow> (\<forall>e \<in> set L. d \<le> event_depth e \<and> event_depth e \<le> max_delivery_depth) \<and>
     prefix (called_at d L) ids \<and>
     (\<forall>m. n = Some m \<longrightarrow> called_at d L = ids \<and> length (completed_at d L) = m) \<and>
     subseq (completed_at d L) (called_at d L)"

lemma adds_refl: "P [] \<Longrightarrow> adds P b b"
  by (simp add: adds_def)

lemma adds_trans: "adds P b b' \<Longrightarrow> adds Q b' b'' \<Longrightarrow> (\<And>L M. P L \<Longrightarrow> Q M \<Longrightarrow> R (L @ M)) \<Longrightarrow> adds R b b''"
  unfolding adds_def by (metis append.assoc)

lemma adds_mono: "adds P b b' \<Longrightarrow> (\<And>L. P L \<Longrightarrow> Q L) \<Longrightarrow> adds Q b b'"
  unfolding adds_def by blast

lemma deeper_append [simp]: "deeper d (L @ M) \<longleftrightarrow> deeper d L \<and> deeper d M"
  by (auto simp: deeper_def)

lemma deeper_nil [simp]: "deeper d []"
  by (simp add: deeper_def)

lemma deeper_trans: "adds (deeper d) b b' \<Longrightarrow> adds (deeper d) b' b'' \<Longrightarrow> adds (deeper d) b b''"
  by (erule adds_trans) simp_all

lemma adds_guard: "adds P (add_guard b) b' \<Longrightarrow> adds P b (drop_guard b')"
  by (simp add: adds_def add_guard_def drop_guard_def)

lemma adds_fields:
  "adds P (b\<lparr>bs_user := u\<rparr>) b' = adds P b b'"
  "adds P (snd (bus_subscribe c ty sink b)) b' = adds P b b'"
  "adds P (bus_unsubscribe c i b) b' = adds P b b'"
  by (simp_all add: adds_def bus_subscribe_def bus_unsubscribe_def Let_def)

lemma one_round_deeper: "one_round (Suc d) ids n L \<Longrightarrow> deeper d L"
  by (auto simp: one_round_def deeper_def Suc_le_eq)

lemma one_round_nil: "one_round d ids None []" "one_round d [] (Some 0) []"
  by (simp_all add: one_round_def)

text \<open>A round goes on after a callback that panicked or returned, and stops at a violation.\<close>

lemma one_round_step:
  assumes "deeper d L" and "d \<le> max_delivery_depth"
  shows "one_round d (i # ids) None (Called d i # L)"
    and "one_round d ids n M \<Longrightarrow> one_round d (i # ids) n (Called d i # L @ M)"
    and "one_round d ids n M \<Longrightarrow> one_round d (i # ids) (map_option Suc n) (Called d i # L @ Completed d i # M)"
proof -
  have L: "called_at d L = []" "completed_at d L = []" "\<forall>e \<in> set L. d \<le> event_depth e \<and> event_depth e \<le> max_delivery_depth"
    using no_calls [of L d] assms(1) by (auto simp: deeper_def)
  then show "one_round d (i # ids) None (Called d i # L)"
    using assms(2) by (auto simp: one_round_def)
  show "one_round d ids n M \<Longrightarrow> one_round d (i # ids) n (Called d i # L @ M)"
    using assms(2) L by (auto simp: one_round_def intro: list_emb_Cons)
  show "one_round d ids n M \<Longrightarrow> one_round d (i # ids) (map_option Suc n) (Called d i # L @ Completed d i # M)"
    using assms(2) L by (auto simp: one_round_def)
qed

lemma deliver_step:
  assumes "adds (deeper d) (bus_note (Called d i) b) b'" and "d \<le> max_delivery_depth"
  shows "adds (one_round d (i # ids) None) b b'"
    and "adds (one_round d ids n) b' b'' \<Longrightarrow> adds (one_round d (i # ids) n) b b''"
    and "adds (one_round d ids n) (bus_note (Completed d i) b') b'' \<Longrightarrow> adds (one_round d (i # ids) (map_option Suc n)) b b''"
proof -
  obtain L where L: "bs_guards b' = bs_guards b" "bs_log b' = bs_log b @ Called d i # L" "deeper d L"
    using assms(1) by (auto simp: adds_def bus_note_def)
  show "adds (one_round d (i # ids) None) b b'"
    using L one_round_step(1) [OF L(3) assms(2)] by (auto simp: adds_def)
  show "adds (one_round d ids n) b' b'' \<Longrightarrow> adds (one_round d (i # ids) n) b b''"
    using L one_round_step(2) [OF L(3) assms(2)] by (auto simp: adds_def)
  show "adds (one_round d ids n) (bus_note (Completed d i) b') b'' \<Longrightarrow> adds (one_round d (i # ids) (map_option Suc n)) b b''"
    using L one_round_step(3) [OF L(3) assms(2)] by (auto simp: adds_def bus_note_def)
qed

lemma bus_runs:
  "depth \<le> max_delivery_depth \<Longrightarrow> adds (deeper depth) b (snd (run_prog debug depth p b))"
  "depth \<le> max_delivery_depth \<Longrightarrow> adds (one_round depth (map fst ps) (fst (deliver debug depth ps b))) b (snd (deliver debug depth ps b))"
  "depth \<le> max_delivery_depth \<Longrightarrow> adds (deeper depth) b (snd (bus_publish debug depth c ty v b))"
  "depth \<le> max_delivery_depth \<Longrightarrow> adds (deeper depth) b (snd (bus_publish_owned debug depth c ty v b))"
proof (induction debug depth p b and debug depth ps b and debug depth c ty v b and debug depth c ty v b
    rule: run_prog_deliver_bus_publish_bus_publish_owned.induct)
  case (4 debug depth c ty v k b)
  then show ?case
    by (cases "bus_publish debug depth c ty v b") (auto split: option.split intro: deeper_trans)
next
  case (5 debug depth c ty v k b)
  then show ?case
    by (cases "bus_publish_owned debug depth c ty v b") (auto split: option.split intro: deeper_trans)
next
  case (8 debug depth p q b)
  then show ?case
    by (cases "run_prog debug depth p (add_guard b)") (auto dest!: adds_guard intro: deeper_trans)
next
  case (10 debug depth i p ps b)
  show ?case
  proof (cases "no_guards_held debug b")
    case False
    then show ?thesis by (simp add: adds_refl one_round_nil)
  next
    case True
    obtain out b' where run: "run_prog debug depth p (bus_note (Called depth i) b) = (out, b')" by fastforce
    have adds: "adds (deeper depth) (bus_note (Called depth i) b) b'" using 10(1) True 10(4) run by simp
    note step = deliver_step [OF adds 10(4)]
    show ?thesis
    proof (cases out)
      case Returned
      then have "adds (one_round depth (map fst ps) (fst (deliver debug depth ps (bus_note (Completed depth i) b'))))
          (bus_note (Completed depth i) b') (snd (deliver debug depth ps (bus_note (Completed depth i) b')))"
        using 10(2) [OF _ run [symmetric]] True 10(4) by simp
      then show ?thesis using Returned True run step(3) by (simp add: case_prod_beta)
    next
      case Panicked
      then show ?thesis using 10(3) [OF _ run [symmetric]] True 10(4) run step(2) by simp
    next
      case Violation
      then show ?thesis using True run step(1) by simp
    qed
  qed
next
  case (11 debug depth c ty v b)
  then show ?case
    by (auto simp: bus_publish.simps case_prod_beta intro: adds_refl elim!: adds_mono dest: one_round_deeper)
next
  case (12 debug depth c ty v b)
  then show ?case
    by (auto simp: bus_publish_owned.simps case_prod_beta split: option.split intro: adds_refl elim!: adds_mono dest: one_round_deeper)
qed (auto simp: adds_fields adds_refl one_round_nil)

text \<open>Without the assertions of a debug build no violation is raised.\<close>

lemma release_no_violation:
  "\<not> debug \<Longrightarrow> fst (run_prog debug depth p b) \<noteq> Violation"
  "\<not> debug \<Longrightarrow> fst (deliver debug depth ps b) \<noteq> None"
  "\<not> debug \<Longrightarrow> fst (bus_publish debug depth c ty v b) \<noteq> None"
  "\<not> debug \<Longrightarrow> fst (bus_publish_owned debug depth c ty v b) \<noteq> None"
proof (induction debug depth p b and debug depth ps b and debug depth c ty v b and debug depth c ty v b
    rule: run_prog_deliver_bus_publish_bus_publish_owned.induct)
  case (4 debug depth c ty v k b)
  then show ?case by (cases "bus_publish debug depth c ty v b") (auto split: option.split)
next
  case (5 debug depth c ty v k b)
  then show ?case by (cases "bus_publish_owned debug depth c ty v b") (auto split: option.split)
next
  case (8 debug depth p q b)
  then show ?case by (cases "run_prog debug depth p (add_guard b)") auto
next
  case (10 debug depth i p ps b)
  then show ?case
    by (cases "run_prog debug depth p (bus_note (Called depth i) b)") (auto simp: no_guards_held_def case_prod_beta split: prog_end.splits)
next
  case (11 debug depth c ty v b)
  then show ?case by (simp add: bus_publish.simps case_prod_beta)
next
  case (12 debug depth c ty v b)
  then show ?case by (simp add: bus_publish_owned.simps case_prod_beta del: deliver.simps split: option.split)
qed auto

lemma bus_publish_adds:
  assumes "depth < max_delivery_depth" and "bus_publish debug depth c ty v b = (r, b')"
  obtains n where "r = map_option delivered n" and "adds (one_round (depth + 1) (map en_id (shared_entries c ty b)) n) b b'"
proof -
  let ?ps = "map (\<lambda>e. (en_id e, sink_call (en_sink e) v)) (shared_entries c ty b)"
  obtain n b1 where n1: "deliver debug (depth + 1) ?ps b = (n, b1)" by fastforce
  with assms have n: "deliver debug (depth + 1) ?ps b = (n, b')" "r = map_option delivered n"
    by (simp_all add: bus_publish.simps)
  moreover have "map fst ?ps = map en_id (shared_entries c ty b)" by simp
  ultimately have "adds (one_round (depth + 1) (map en_id (shared_entries c ty b)) n) b b'"
    using bus_runs(2) [of "depth + 1" ?ps debug b] assms(1) by (simp del: map_map)
  with n(2) show ?thesis using that by blast
qed

lemma bus_publish_round:
  assumes "depth < max_delivery_depth" and "bus_publish debug depth c ty v b = (Some d, b')"
  shows "\<exists>L. bs_log b' = bs_log b @ L \<and> one_round (depth + 1) (map en_id (shared_entries c ty b))
      (Some (length (completed_at (depth + 1) L))) L \<and> d = delivered (length (completed_at (depth + 1) L))"
proof -
  obtain n where n: "Some d = map_option delivered n" "adds (one_round (depth + 1) (map en_id (shared_entries c ty b)) n) b b'"
    by (rule bus_publish_adds [OF assms])
  then obtain m where m: "n = Some m" "d = delivered m" by (cases n) auto
  obtain L where L: "bs_log b' = bs_log b @ L" "one_round (depth + 1) (map en_id (shared_entries c ty b)) (Some m) L"
    using n(2) m(1) by (auto simp: adds_def)
  then have "length (completed_at (depth + 1) L) = m" by (simp add: one_round_def)
  then show ?thesis using L m(2) by blast
qed


text \<open>A subscriber that publishes whatever it receives on its own topic: it is called once per level.\<close>

definition echo_bus :: "(nat, unit) bus" where
  "echo_bus =
     \<lparr>bs_entries = (\<lambda>c. if c = 0 then [\<lparr>en_id = 7, en_type = 1, en_sink = SharedSink (\<lambda>v. PublishShared 0 1 v (\<lambda>_. Finish))\<rparr>] else []),
      bs_next_id = 8, bs_guards = 0, bs_user = (), bs_log = []\<rparr>"

lemma echo_calls: "length (bs_log (snd (bus_publish True 0 0 1 42 echo_bus))) = 2 * max_delivery_depth"
  by code_simp


section \<open>Re-entrancy\<close>

text \<open>
  Publishing to a subscriber while a tracked lock is held is caught by a debug build before
  the subscriber is called, and the containment of panics does not hide it, however deep the
  delivery that does it is nested.
\<close>

lemma reentrancy_detected:
  assumes "depth < max_delivery_depth" and "shared_entries c ty b \<noteq> []"
  shows "run_prog True depth (WithLock (PublishShared c ty v k) q) b = (Violation, b)"
    and "no_guards_held True b' \<Longrightarrow> run_prog True depth p (bus_note (Called depth i) b') = (Violation, b'') \<Longrightarrow>
      deliver True depth ((i, p) # ps) b' = (None, b'')"
proof -
  have "shared_entries c ty (add_guard b) = shared_entries c ty b" by (simp add: shared_entries_def add_guard_def)
  moreover obtain e es where "shared_entries c ty b = e # es" using assms(2) by (cases "shared_entries c ty b") auto
  moreover have "\<not> no_guards_held True (add_guard b)" by (simp add: no_guards_held_def add_guard_def)
  ultimately have "bus_publish True depth c ty v (add_guard b) = (None, add_guard b)"
    using assms(1) by (simp add: bus_publish.simps)
  moreover have "drop_guard (add_guard b) = b" by (simp add: drop_guard_def add_guard_def)
  ultimately show "run_prog True depth (WithLock (PublishShared c ty v k) q) b = (Violation, b)" by simp
qed simp

section \<open>The routes of a publisher (\<open>pubsub.rs\<close>)\<close>

datatype locality = SessionLocal | Remote | AnyLocality

datatype route = RBusOnly | RBusAndWire | RWireOnly

datatype published = Wire | OnBus delivery | OnBusAndWire delivery

datatype 'w pub_error = WireError 'w | DurableBus | UnservableOwned nat

record zpub =
  zp_intra_process_only :: bool
  zp_locality :: "locality option"
  zp_durability :: qos_durability
  zp_channel :: nat
  zp_type :: nat

definition zp_route :: "zpub \<Rightarrow> route" where
  "zp_route p =
     (if zp_intra_process_only p then RBusOnly
      else if zp_locality p = Some Remote then RBusAndWire
      else RWireOnly)"

definition refuse_durable_bus :: "zpub \<Rightarrow> 'w pub_error option" where
  "refuse_durable_bus p =
     (if \<not> zp_intra_process_only p then None
      else if zp_durability p \<noteq> TransientLocal then None
      else Some DurableBus)"

definition refuse_unservable_owned :: "zpub \<Rightarrow> ('v, 's) bus \<Rightarrow> 'w pub_error option" where
  "refuse_unservable_owned p b =
     (let owned = owned_receivers (zp_channel p) (zp_type p) b in
      if owned = 0 then None else Some (UnservableOwned owned))"

text \<open>
  \<open>wire\<close> is what the publish over Zenoh does: what it returns, and whether it put the message
  on the wire (nothing is assumed of an error). The result is the outcome, whether the
  message went onto the wire, and the bus.
\<close>

definition on_bus :: "(delivery \<Rightarrow> published) \<Rightarrow> delivery option \<times> ('v, 's) bus \<Rightarrow> (published, 'w pub_error) res \<times> ('v, 's) bus" where
  "on_bus f r = (case r of (None, b) \<Rightarrow> (Panic, b) | (Some d, b) \<Rightarrow> (Ok (f d), b))"

fun with_wire :: "(unit, 'w) res \<times> bool \<Rightarrow> ('v, 's) bus \<Rightarrow> (published, 'w pub_error) res \<times> ('v, 's) bus
    \<Rightarrow> (published, 'w pub_error) res \<times> bool \<times> ('v, 's) bus" where
  "with_wire (Ok (), sent) b k = (fst k, sent, snd k)"
| "with_wire (Err e, sent) b k = (Err (WireError e), sent, b)"
| "with_wire (Panic, sent) b k = (Panic, sent, b)"

definition publish_shared ::
  "bool \<Rightarrow> nat \<Rightarrow> (unit, 'w) res \<times> bool \<Rightarrow> zpub \<Rightarrow> 'v \<Rightarrow> ('v, 's) bus
    \<Rightarrow> (published, 'w pub_error) res \<times> bool \<times> ('v, 's) bus" where
  "publish_shared debug depth wire p v b =
     (case zp_route p of
        RBusOnly \<Rightarrow>
          (case refuse_durable_bus p of
             Some e \<Rightarrow> (Err e, False, b)
           | None \<Rightarrow>
               (case refuse_unservable_owned p b of
                  Some e \<Rightarrow> (Err e, False, b)
                | None \<Rightarrow>
                    (case on_bus OnBus (bus_publish debug depth (zp_channel p) (zp_type p) v b) of
                       (out, b') \<Rightarrow> (out, False, b'))))
      | RBusAndWire \<Rightarrow>
          (case refuse_unservable_owned p b of
             Some e \<Rightarrow> (Err e, False, b)
           | None \<Rightarrow> with_wire wire b (on_bus OnBusAndWire (bus_publish debug depth (zp_channel p) (zp_type p) v b)))
      | RWireOnly \<Rightarrow> with_wire wire b (Ok Wire, b))"

definition publish_owned ::
  "bool \<Rightarrow> nat \<Rightarrow> (unit, 'w) res \<times> bool \<Rightarrow> zpub \<Rightarrow> 'v \<Rightarrow> ('v, 's) bus
    \<Rightarrow> (published, 'w pub_error) res \<times> bool \<times> ('v, 's) bus" where
  "publish_owned debug depth wire p v b =
     (case zp_route p of
        RBusAndWire \<Rightarrow>
          with_wire wire b
            (case bus_publish_owned debug depth (zp_channel p) (zp_type p) v b of
               (Some (Some d), b') \<Rightarrow> (Ok (OnBusAndWire d), b')
             | (Some None, b') \<Rightarrow> on_bus OnBusAndWire (bus_publish debug depth (zp_channel p) (zp_type p) v b')
             | (None, b') \<Rightarrow> (Panic, b'))
      | RBusOnly \<Rightarrow>
          (case refuse_durable_bus p of
             Some e \<Rightarrow> (Err e, False, b)
           | None \<Rightarrow>
               (case bus_publish_owned debug depth (zp_channel p) (zp_type p) v b of
                  (Some (Some d), b') \<Rightarrow> (Ok (OnBus d), False, b')
                | (Some None, b') \<Rightarrow> publish_shared debug depth wire p v b'
                | (None, b') \<Rightarrow> (Panic, False, b')))
      | RWireOnly \<Rightarrow> with_wire wire b (Ok Wire, b))"

definition typed_entries :: "nat \<Rightarrow> nat \<Rightarrow> ('v, 's) bus \<Rightarrow> ('v, 's) entry list" where
  "typed_entries c ty b = filter (\<lambda>e. en_type e = ty) (bs_entries b c)"

lemma no_owned: "owned_receivers c ty b = 0 \<Longrightarrow> shared_entries c ty b = typed_entries c ty b"
  by (auto simp: owned_receivers_def shared_entries_def typed_entries_def filter_empty_conv intro!: filter_cong)

text \<open>
  A delivery to exactly the given subscribers, each called once and in this order; at the
  depth limit the message is dropped instead, and said to be.
\<close>

definition serves :: "nat \<Rightarrow> nat list \<Rightarrow> delivery \<Rightarrow> ('v, 's) bus \<Rightarrow> ('v, 's) bus \<Rightarrow> bool" where
  "serves depth ids d b b' \<longleftrightarrow>
     (if depth = max_delivery_depth then d = DepthExceeded \<and> b' = b
      else \<exists>L. bs_log b' = bs_log b @ L \<and> called_at (depth + 1) L = ids \<and> d = delivered (length (completed_at (depth + 1) L)))"

lemma bus_publish_serves:
  assumes "depth \<le> max_delivery_depth" and "bus_publish debug depth c ty v b = (Some d, b')"
  shows "serves depth (map en_id (shared_entries c ty b)) d b b'"
proof (cases "depth = max_delivery_depth")
  case True
  then show ?thesis using assms(2) by (simp add: bus_publish.simps serves_def)
next
  case False
  then have "depth < max_delivery_depth" using assms(1) by simp
  from bus_publish_round [OF this assms(2)] False show ?thesis unfolding serves_def one_round_def by auto
qed

lemma sole_owner_only: "sole_owner c ty b = Some e \<longleftrightarrow> typed_entries c ty b = [e] \<and> \<not> is_shared (en_sink e)"
  by (auto simp: sole_owner_def typed_entries_def split: list.split)

lemma bus_publish_owned_serves:
  assumes "depth \<le> max_delivery_depth" and "bus_publish_owned debug depth c ty v b = (Some (Some d), b')"
  obtains e where "typed_entries c ty b = [e]" and "serves depth [en_id e] d b b'"
proof -
  obtain e where e: "sole_owner c ty b = Some e"
    using assms(2) by (auto simp: bus_publish_owned.simps split: option.splits)
  have "serves depth [en_id e] d b b'"
  proof (cases "depth = max_delivery_depth")
    case True
    then show ?thesis using assms(2) e by (simp add: bus_publish_owned.simps serves_def)
  next
    case False
    let ?ps = "[(en_id e, sink_call (en_sink e) v)]"
    obtain n b1 where "deliver debug (depth + 1) ?ps b = (n, b1)" by fastforce
    with False assms e obtain m where m: "deliver debug (depth + 1) ?ps b = (Some m, b')" "d = delivered m"
      by (auto simp: bus_publish_owned.simps simp del: deliver.simps)
    have "adds (one_round (depth + 1) (map fst ?ps) (Some m)) b b'"
      using bus_runs(2) [of "depth + 1" ?ps debug b] False assms(1) m(1) by (simp del: deliver.simps)
    then show ?thesis using False m(2) by (auto simp: adds_def one_round_def serves_def)
  qed
  with e that show ?thesis by (auto simp: sole_owner_only)
qed

lemma owned_returns_payload:
  assumes "bus_publish_owned debug depth c ty v b = (Some None, b')"
  shows "b' = b" and "typed_entries c ty b = [e] \<Longrightarrow> is_shared (en_sink e)"
proof -
  have "b' = b \<and> sole_owner c ty b = None"
    using assms by (auto simp: bus_publish_owned.simps case_prod_beta split: option.splits if_splits)
  then show "b' = b" and "typed_entries c ty b = [e] \<Longrightarrow> is_shared (en_sink e)"
    by (auto simp: sole_owner_def typed_entries_def split: if_splits)
qed

lemma publish_shared_err:
  assumes "publish_shared debug depth wire p v b = (Err e, sent, b')"
  shows "b' = b" and "sent = (case e of WireError _ \<Rightarrow> snd wire | _ \<Rightarrow> False)"
  using assms
  by (cases "fst wire"; cases wire;
      auto simp: publish_shared_def on_bus_def refuse_durable_bus_def refuse_unservable_owned_def Let_def
        split: route.splits option.splits prod.splits if_splits)+

lemma publish_shared_serves:
  assumes "depth \<le> max_delivery_depth"
    and "publish_shared debug depth wire p v b = (Ok (OnBus d), sent, b') \<or> publish_shared debug depth wire p v b = (Ok (OnBusAndWire d), sent, b')"
  shows "serves depth (map en_id (typed_entries (zp_channel p) (zp_type p) b)) d b b'"
proof -
  have "owned_receivers (zp_channel p) (zp_type p) b = 0 \<and> bus_publish debug depth (zp_channel p) (zp_type p) v b = (Some d, b')"
    using assms(2)
    by (cases "fst wire"; cases wire)
      (auto simp: publish_shared_def on_bus_def refuse_unservable_owned_def Let_def
        split: route.splits option.splits prod.splits if_splits)
  then show ?thesis using bus_publish_serves [OF assms(1)] no_owned by metis
qed

lemma publish_owned_bus:
  assumes "depth \<le> max_delivery_depth" and "publish_owned debug depth wire p v b = (Ok (OnBus d), sent, b')"
  shows "serves depth (map en_id (typed_entries (zp_channel p) (zp_type p) b)) d b b'"
proof -
  have route: "zp_route p = RBusOnly" "refuse_durable_bus p = (None :: 'a pub_error option)"
    using assms(2) by (cases "fst wire"; cases wire; auto simp: publish_owned_def on_bus_def split: route.splits option.splits prod.splits)+
  obtain r b1 where r: "bus_publish_owned debug depth (zp_channel p) (zp_type p) v b = (r, b1)" by force
  show ?thesis
  proof (cases "r = Some None")
    case True
    have "b1 = b" using owned_returns_payload(1) [of debug depth "zp_channel p" "zp_type p" v b b1] r True by simp
    then have "publish_shared debug depth wire p v b = (Ok (OnBus d), sent, b')"
      using assms(2) route r True by (simp add: publish_owned_def)
    then show ?thesis using publish_shared_serves [OF assms(1), of debug wire p v b d sent b'] by simp
  next
    case False
    with assms(2) route r have r': "bus_publish_owned debug depth (zp_channel p) (zp_type p) v b = (Some (Some d), b')"
      by (auto simp: publish_owned_def split: option.splits)
    show ?thesis by (rule bus_publish_owned_serves [OF assms(1) r']) simp
  qed
qed

lemma publish_owned_both:
  assumes "depth \<le> max_delivery_depth" and "publish_owned debug depth wire p v b = (Ok (OnBusAndWire d), sent, b')"
  shows "serves depth (map en_id (case typed_entries (zp_channel p) (zp_type p) b of [e] \<Rightarrow> [e]
      | _ \<Rightarrow> shared_entries (zp_channel p) (zp_type p) b)) d b b'"
proof -
  let ?c = "zp_channel p" and ?ty = "zp_type p"
  obtain r b1 where r: "bus_publish_owned debug depth ?c ?ty v b = (r, b1)" by force
  have route: "zp_route p \<noteq> RBusOnly"
  proof
    assume only: "zp_route p = RBusOnly"
    then have "publish_shared debug depth wire p v b1 \<noteq> (Ok (OnBusAndWire d), sent, b')"
      by (auto simp: publish_shared_def on_bus_def split: option.splits prod.splits)
    then show False using assms(2) only r by (auto simp: publish_owned_def split: option.splits)
  qed
  show ?thesis
  proof (cases "r = Some None")
    case True
    have keep: "b1 = b" using owned_returns_payload(1) [of debug depth ?c ?ty v b b1] r True by simp
    then have "bus_publish debug depth ?c ?ty v b = (Some d, b')"
      using assms(2) route r True
      by (cases "fst wire"; cases wire) (auto simp: publish_owned_def on_bus_def split: route.splits option.splits prod.splits)
    note all = bus_publish_serves [OF assms(1) this]
    have "(case typed_entries ?c ?ty b of [e] \<Rightarrow> [e] | _ \<Rightarrow> shared_entries ?c ?ty b) = shared_entries ?c ?ty b"
    proof (cases "\<exists>e. typed_entries ?c ?ty b = [e]")
      case True
      then obtain e where e: "typed_entries ?c ?ty b = [e]" by blast
      then have "is_shared (en_sink e)"
        using owned_returns_payload(2) [of debug depth ?c ?ty v b b1 e] r \<open>r = Some None\<close> by simp
      moreover have "shared_entries ?c ?ty b = filter (\<lambda>e. is_shared (en_sink e)) (typed_entries ?c ?ty b)"
        by (simp add: shared_entries_def typed_entries_def)
      ultimately show ?thesis using e by simp
    qed (auto split: list.split)
    with all show ?thesis by simp
  next
    case False
    with assms(2) route r have r': "bus_publish_owned debug depth ?c ?ty v b = (Some (Some d), b')"
      by (cases "fst wire"; cases wire) (auto simp: publish_owned_def split: route.splits option.splits)
    show ?thesis by (rule bus_publish_owned_serves [OF assms(1) r']) simp
  qed
qed

lemma with_wire_err:
  assumes "with_wire wire b k = (Err e, sent, b')" and "\<And>e'. fst k \<noteq> Err e'"
  shows "b' = b \<and> sent = (case e of WireError _ \<Rightarrow> snd wire | _ \<Rightarrow> False)"
  using assms by (cases "fst wire"; cases wire) auto

lemma on_bus_ok: "fst (on_bus f r) \<noteq> Err e"
  by (simp add: on_bus_def split: prod.split option.split)

lemma publish_owned_err:
  assumes "publish_owned debug depth wire p v b = (Err e, sent, b')"
  shows "b' = b \<and> sent = (case e of WireError _ \<Rightarrow> snd wire | _ \<Rightarrow> False)"
proof (cases "zp_route p")
  case RBusOnly
  obtain r b1 where r: "bus_publish_owned debug depth (zp_channel p) (zp_type p) v b = (r, b1)" by force
  show ?thesis
  proof (cases "refuse_durable_bus p :: 'a pub_error option")
    case (Some e')
    then show ?thesis using assms RBusOnly by (auto simp: publish_owned_def refuse_durable_bus_def split: if_splits)
  next
    case None
    then have shared: "r = Some None" "publish_shared debug depth wire p v b1 = (Err e, sent, b')"
      using assms RBusOnly r by (auto simp: publish_owned_def split: option.splits)
    then have "b1 = b" using owned_returns_payload(1) [of debug depth "zp_channel p" "zp_type p" v b b1] r by simp
    with shared(2) show ?thesis using publish_shared_err [of debug depth wire p v b e sent b'] by simp
  qed
next
  case RBusAndWire
  let ?k = "case bus_publish_owned debug depth (zp_channel p) (zp_type p) v b of
      (Some (Some d), b') \<Rightarrow> (Ok (OnBusAndWire d), b')
    | (Some None, b') \<Rightarrow> on_bus OnBusAndWire (bus_publish debug depth (zp_channel p) (zp_type p) v b')
    | (None, b') \<Rightarrow> (Panic, b')"
  have "fst ?k \<noteq> Err e'" for e' :: "'a pub_error" by (simp add: on_bus_ok split: prod.split option.split)
  then show ?thesis using with_wire_err [of wire b ?k e sent b'] assms RBusAndWire by (simp add: publish_owned_def)
next
  case RWireOnly
  then show ?thesis using with_wire_err [of wire b "(Ok Wire, b)" e sent b'] assms by (simp add: publish_owned_def)
qed


definition sample_pub :: zpub where
  "sample_pub = \<lparr>zp_intra_process_only = True, zp_locality = None, zp_durability = Volatile, zp_channel = 0, zp_type = 1\<rparr>"

text \<open>A subscriber that owns what it receives and publishes it again, shared, where nobody listens.\<close>

definition owner_bus :: "(nat, unit) bus" where
  "owner_bus =
     \<lparr>bs_entries = (\<lambda>c. if c = 0 then [\<lparr>en_id = 3, en_type = 1, en_sink = OwnedSink (\<lambda>v. PublishShared 5 1 v (\<lambda>_. Finish))\<rparr>] else []),
      bs_next_id = 4, bs_guards = 0, bs_user = (), bs_log = []\<rparr>"


section \<open>The registry of channels\<close>

text \<open>
  The registry maps a session and a topic to a channel. Endpoints hold channels, as do
  subscriptions, with their id; the strong count of a channel is one for the registry and one
  for each of these. Resolving a channel looks it up under the read lock and, if that fails,
  once more under the write lock, where unused channels are dropped first; other threads may
  act in between, so both halves are steps of their own.
\<close>

type_synonym bus_key = "string \<times> string"

record holder =
  ho_key :: bus_key
  ho_channel :: nat
  ho_sub :: "nat option"

record ('v, 's) bus_world =
  bw_bus :: "('v, 's) bus"
  bw_registry :: "(bus_key \<times> nat) list"
  bw_next_channel :: nat
  bw_holders :: "holder list"

definition strong_count :: "nat \<Rightarrow> ('v, 's) bus_world \<Rightarrow> nat" where
  "strong_count c w = 1 + length (filter (\<lambda>h. ho_channel h = c) (bw_holders w))"

definition reclaim :: "('v, 's) bus_world \<Rightarrow> (bus_key \<times> nat) list" where
  "reclaim w = filter (\<lambda>(k, c). 1 < strong_count c w \<or> bs_entries (bw_bus w) c \<noteq> []) (bw_registry w)"

definition channel_lookup :: "bus_key \<Rightarrow> ('v, 's) bus_world \<Rightarrow> nat option" where
  "channel_lookup k w = map_of (bw_registry w) k"

definition channel_create :: "bus_key \<Rightarrow> ('v, 's) bus_world \<Rightarrow> nat \<times> ('v, 's) bus_world" where
  "channel_create k w =
     (let reg = reclaim w in
      case map_of reg k of
        Some c \<Rightarrow> (c, w\<lparr>bw_registry := reg\<rparr>)
      | None \<Rightarrow>
          (bw_next_channel w,
           w\<lparr>bw_registry := (k, bw_next_channel w) # reg, bw_next_channel := bw_next_channel w + 1\<rparr>))"

definition bus_channel :: "bus_key \<Rightarrow> ('v, 's) bus_world \<Rightarrow> nat \<times> ('v, 's) bus_world" where
  "bus_channel k w = (case channel_lookup k w of Some c \<Rightarrow> (c, w) | None \<Rightarrow> channel_create k w)"

definition hold :: "bus_key \<Rightarrow> nat \<Rightarrow> ('v, 's) bus_world \<Rightarrow> ('v, 's) bus_world" where
  "hold k c w = w\<lparr>bw_holders := bw_holders w @ [\<lparr>ho_key = k, ho_channel = c, ho_sub = None\<rparr>]\<rparr>"

definition total_channels :: "('v, 's) bus_world \<Rightarrow> nat" where
  "total_channels w = length (bw_registry w)"

definition session_channels :: "string \<Rightarrow> ('v, 's) bus_world \<Rightarrow> nat" where
  "session_channels zid w = length (filter (\<lambda>(k, c). fst k = zid) (bw_registry w))"

text \<open>
  The operations on the shared registry: the two ways to obtain a channel for an endpoint, a
  subscription by the holder of a channel, and dropping a holder.
\<close>

datatype ('v, 's) reg_op =
    OpenFound bus_key
  | OpenCreate bus_key
  | OpenSub nat nat "('v, 's) sink"
  | DropHolder nat

fun reg_apply :: "('v, 's) reg_op \<Rightarrow> ('v, 's) bus_world \<Rightarrow> ('v, 's) bus_world" where
  "reg_apply (OpenFound k) w = (case channel_lookup k w of Some c \<Rightarrow> hold k c w | None \<Rightarrow> w)"
| "reg_apply (OpenCreate k) w = (case channel_create k w of (c, w') \<Rightarrow> hold k c w')"
| "reg_apply (OpenSub n ty sink) w =
     (if n < length (bw_holders w) then
        (let h = bw_holders w ! n; (i, b) = bus_subscribe (ho_channel h) ty sink (bw_bus w)
         in w\<lparr>bw_bus := b, bw_holders := bw_holders w @ [h\<lparr>ho_sub := Some i\<rparr>]\<rparr>)
      else w)"
| "reg_apply (DropHolder n) w =
     (if n < length (bw_holders w) then
        (let h = bw_holders w ! n;
             b = (case ho_sub h of None \<Rightarrow> bw_bus w | Some i \<Rightarrow> bus_unsubscribe (ho_channel h) i (bw_bus w))
         in w\<lparr>bw_bus := b, bw_holders := take n (bw_holders w) @ drop (Suc n) (bw_holders w)\<rparr>)
      else w)"

definition reg_new :: "('v, 's) bus \<Rightarrow> ('v, 's) bus_world" where
  "reg_new b = \<lparr>bw_bus = b, bw_registry = [], bw_next_channel = 0, bw_holders = []\<rparr>"

definition reg_run :: "('v, 's) reg_op list \<Rightarrow> ('v, 's) bus_world \<Rightarrow> ('v, 's) bus_world" where
  "reg_run ops w = foldl (\<lambda>w op. reg_apply op w) w ops"

definition reg_inv :: "('v, 's) bus_world \<Rightarrow> bool" where
  "reg_inv w \<longleftrightarrow> distinct (map fst (bw_registry w)) \<and> distinct (map snd (bw_registry w)) \<and>
     (\<forall>c \<in> snd ` set (bw_registry w). c < bw_next_channel w) \<and>
     (\<forall>h \<in> set (bw_holders w). (ho_key h, ho_channel h) \<in> set (bw_registry w))"

lemma reclaim_keeps:
  assumes "h \<in> set (bw_holders w)" and "(ho_key h, ho_channel h) \<in> set (bw_registry w)"
  shows "(ho_key h, ho_channel h) \<in> set (reclaim w)"
proof -
  have "filter (\<lambda>g. ho_channel g = ho_channel h) (bw_holders w) \<noteq> []" using assms(1) by (auto simp: filter_empty_conv)
  then show ?thesis using assms(2) by (simp add: reclaim_def strong_count_def)
qed

lemma reg_inv_reclaim: "reg_inv w \<Longrightarrow> reg_inv (w\<lparr>bw_registry := reclaim w\<rparr>)"
  using reclaim_keeps [of _ w] by (auto simp: reg_inv_def reclaim_def distinct_map_filter)

lemma reg_inv_create:
  assumes "reg_inv w" and "channel_create k w = (c, w')"
  shows "reg_inv w' \<and> (k, c) \<in> set (bw_registry w')"
proof (cases "map_of (reclaim w) k")
  case (Some d)
  then show ?thesis using assms reg_inv_reclaim [OF assms(1)] by (auto simp: channel_create_def Let_def dest: map_of_SomeD)
next
  case None
  then have k: "k \<notin> fst ` set (reclaim w)" by (simp add: map_of_eq_None_iff)
  have inv: "reg_inv (w\<lparr>bw_registry := reclaim w\<rparr>)" using reg_inv_reclaim [OF assms(1)] .
  then have "bw_next_channel w \<notin> snd ` set (reclaim w)" by (auto simp: reg_inv_def)
  moreover have "snd e < Suc (bw_next_channel w)" if "e \<in> set (reclaim w)" for e
    using inv that by (auto simp: reg_inv_def intro: less_SucI)
  ultimately show ?thesis using None assms(2) k inv by (auto simp: channel_create_def Let_def reg_inv_def)
qed

lemma reg_inv_hold: "reg_inv w \<Longrightarrow> (k, c) \<in> set (bw_registry w) \<Longrightarrow> reg_inv (hold k c w)"
  by (auto simp: reg_inv_def hold_def)

lemma reg_apply_inv: "reg_inv w \<Longrightarrow> reg_inv (reg_apply op w)"
proof (cases op)
  case (OpenFound k)
  then show "reg_inv w \<Longrightarrow> reg_inv (reg_apply op w)"
    by (auto simp: channel_lookup_def split: option.split dest: map_of_SomeD intro: reg_inv_hold)
next
  case (OpenCreate k)
  then show "reg_inv w \<Longrightarrow> reg_inv (reg_apply op w)"
    using reg_inv_create [of w k] by (cases "channel_create k w") (auto intro: reg_inv_hold)
next
  case (OpenSub n ty sink)
  then show "reg_inv w \<Longrightarrow> reg_inv (reg_apply op w)"
    by (auto simp: reg_inv_def Let_def split: prod.split)
next
  case (DropHolder n)
  then show "reg_inv w \<Longrightarrow> reg_inv (reg_apply op w)"
    by (auto simp: reg_inv_def Let_def dest: in_set_takeD in_set_dropD)
qed

lemma reg_run_inv: "reg_inv w \<Longrightarrow> reg_inv (reg_run ops w)"
  unfolding reg_run_def by (induction ops arbitrary: w) (simp_all add: reg_apply_inv)

lemma reg_new_inv: "reg_inv (reg_new b)"
  by (simp add: reg_inv_def reg_new_def)

text \<open>
  C39: Whatever endpoints come and go, in whatever order their lookups interleave, two live
  endpoints have the same channel exactly when they are in the same session and on the same
  topic: the reclamation of unused channels never takes one that an endpoint still holds.
\<close>

theorem channel_shared_iff:
  assumes "h \<in> set (bw_holders (reg_run ops (reg_new b)))" and "g \<in> set (bw_holders (reg_run ops (reg_new b)))"
  shows "(ho_channel h = ho_channel g \<longleftrightarrow> ho_key h = ho_key g) \<and>
     channel_lookup (ho_key h) (reg_run ops (reg_new b)) = Some (ho_channel h)"
proof -
  let ?w = "reg_run ops (reg_new b)"
  have inv: "reg_inv ?w" by (simp add: reg_run_inv reg_new_inv)
  then have d: "distinct (map fst (bw_registry ?w))" "distinct (map snd (bw_registry ?w))" by (simp_all add: reg_inv_def)
  have in_reg: "(ho_key h, ho_channel h) \<in> set (bw_registry ?w)" "(ho_key g, ho_channel g) \<in> set (bw_registry ?w)"
    using inv assms by (auto simp: reg_inv_def)
  have "channel_lookup (ho_key h) ?w = Some (ho_channel h)" using d(1) in_reg(1) by (simp add: channel_lookup_def)
  moreover have "ho_channel h = ho_channel g \<longleftrightarrow> ho_key h = ho_key g"
    using inj_onD [OF distinct_map [THEN iffD1, OF d(1), THEN conjunct2] _ in_reg]
      inj_onD [OF distinct_map [THEN iffD1, OF d(2), THEN conjunct2] _ in_reg] by auto
  ultimately show ?thesis by blast
qed

theorem channel_shared_iff_witness:
  "let w = reg_run [OpenCreate (''z'', ''t''), DropHolder 0, OpenCreate (''z'', ''u''), OpenFound (''z'', ''u'')] (reg_new echo_bus)
   in ho_channel (bw_holders w ! 0) = ho_channel (bw_holders w ! 1)"
proof -
  let ?ops = "[OpenCreate (''z'', ''t''), DropHolder 0, OpenCreate (''z'', ''u''), OpenFound (''z'', ''u'')]"
  let ?hs = "bw_holders (reg_run ?ops (reg_new echo_bus))"
  have "length ?hs = 2 \<and> ho_key (?hs ! 0) = ho_key (?hs ! 1)" by code_simp
  then have "?hs ! 0 \<in> set ?hs" "?hs ! 1 \<in> set ?hs" "ho_key (?hs ! 0) = ho_key (?hs ! 1)" by simp_all
  then show ?thesis using channel_shared_iff [of "?hs ! 0" ?ops echo_bus "?hs ! 1"] by (simp add: Let_def)
qed

end
