(* ===== verification/Spec2Isabelle.thy ===== *)
theory Spec2Isabelle
  imports Serde_Cdr Dynamic_Cdr Lifecycle_Node Topic_Name Key_Expr Bounded_Queue Message_Cache Parameter_Service Action_Driver Action_Client Graph Type_Resolution Type_Discovery Schema_Loader Clock Local_Bus
begin

text \<open>
  A verification library of hiroz, a ROS 2 middleware stack over Zenoh. Paths below are
  relative to \<open>src/crates\<close>.

  \<^bold>\<open>The program.\<close> Messages are written and read in the CDR format, either through the traits
  of a compiled message type or, for types known only at run time, through a schema. Nodes,
  publishers, subscribers, services and actions are announced to the rest of the system as
  liveliness tokens, key expressions that spell out an entity, its type and its quality of
  service. On top of that each node keeps state of its own: a life cycle with managed
  publishers, a store of parameters with a service interface, queues and caches of received
  messages, and action servers that run goals. What is modelled is this logic; Zenoh itself
  (sessions, key expression syntax, ids) is a parameter of the definitions that use it.

  \<^bold>\<open>Theories and sources.\<close>

  \<^item> \<open>Hiroz_Prelude\<close>: the result type with \<open>Ok\<close>, \<open>Err\<close> and \<open>Panic\<close>, its combinators, and the
    facts on lists, strings and words that the components share.
  \<^item> \<open>Cdr_Buffer\<close>, \<open>Cdr_Primitives\<close>, \<open>Cdr_Traits\<close> (\<open>hiroz-cdr/src/buffer.rs\<close>,
    \<open>primitives.rs\<close>, \<open>plain.rs\<close>, \<open>traits.rs\<close>, \<open>zbuf_writer.rs\<close>): output buffers behind one
    interface, the aligned writer and reader, and the trait implementations for the
    primitive types, strings, sequences and arrays. Shown: round trip in either byte order,
    exact sizes, safety of reading arbitrary bytes, detection of truncation, and agreement
    of the zero-copy path with the plain one.
  \<^item> \<open>Serde_Cdr\<close> (\<open>hiroz-cdr/src/serializer.rs\<close>, \<open>deserializer.rs\<close>): CDR as a format of serde, over
    the calls a serde type makes. Shown: round trip for all of serde's data model except
    128-bit integers, type safety on arbitrary bytes, and agreement with the traits.
  \<^item> \<open>Message_Codec\<close>, \<open>Action_Messages\<close> (\<open>hiroz/src/msg.rs\<close>, \<open>hiroz/src/action/mod.rs\<close>,
    \<open>messages.rs\<close>): codecs of hand-written messages composed field by field; a locale states
    what a codec promises and every combinator and message interprets it.
  \<^item> \<open>Dynamic_Schema\<close>, \<open>Dynamic_Cdr\<close> (\<open>hiroz/src/dynamic\<close>): schemas, values and messages, access
    by dotted paths, serialization driven by the schema. Shown: round trip, agreement with
    the typed serialization byte for byte, stability on foreign bytes.
  \<^item> \<open>Type_Description\<close>, \<open>Type_Discovery\<close> (\<open>hiroz/src/dynamic/type_description.rs\<close>,
    \<open>type_description_service.rs\<close>, \<open>type_description_client.rs\<close>, \<open>discovery.rs\<close>, \<open>type_info.rs\<close>, the
    serde adapter of \<open>hiroz/src/msg.rs\<close>): schemas described on the wire and rebuilt from their
    description, the service that hands descriptions out, and the search for the schema of a
    topic. JSON text, SHA-256, hexadecimal text and the network call are parameters. Shown:
    which types a description holds, that schemas are recovered with their hash, that the two
    sides of the wire agree, and that a topic is discovered as its publishers announce it.
  \<^item> \<open>Schema_Loader\<close> (\<open>hiroz/src/dynamic/registry.rs\<close>): the registry of schemas and the loader that
    builds them from definition files at run time; the files and the environment are
    parameters. Shown: the loader ends and succeeds exactly on definitions without cycles, and
    its schemas have the type hash of the generated types.
  \<^item> \<open>Lifecycle\<close>, \<open>Lifecycle_Node\<close> (\<open>hiroz/src/lifecycle\<close>): the state machine, the node with its
    publishers, the services, and the interleaving of local transitions with remote
    requests as a step relation. Shown: no run strands the machine in a transition state,
    publishers follow the node on local transitions, and not on remote ones.
  \<^item> \<open>Topic_Name\<close> (\<open>hiroz/src/topic_name.rs\<close>): validation and expansion of names.
  \<^item> \<open>Qos\<close>, \<open>Entity\<close>, \<open>Key_Expr\<close> (\<open>hiroz-protocol/src\<close>): quality of service on the wire, entities,
    topic keys and liveliness tokens. Shown: what a token is read back as, and which
    endpoints share a topic key.
  \<^item> \<open>Bounded_Queue\<close>, \<open>Message_Cache\<close> (\<open>hiroz/src/queue.rs\<close>, \<open>cache.rs\<close>): the receive queue and
    the time-indexed cache, against what their users rely on.
  \<^item> \<open>Parameter_Types\<close>, \<open>Parameter_Store\<close>, \<open>Parameter_Service\<close> (\<open>hiroz/src/parameter\<close>): values and
    their wire form, range checks with IEEE doubles at the bit level, the store, the
    two-phase update with a user callback, and concurrent updates as steps on the shared
    state. Shown: what an update does on every branch, the invariant that survives every
    interleaving, and the one interleaving that breaks it.
  \<^item> \<open>Action_Server\<close>, \<open>Action_Driver\<close> (\<open>hiroz/src/action/state.rs\<close>, \<open>server.rs\<close>, \<open>driver.rs\<close>): goals,
    goal handles, cancel requests, results, expiration, and the driver loop as a labelled
    machine. Shown: delivery of results, routing of cancel requests, when the loop dies,
    and that it serves nothing while it awaits a result.
  \<^item> \<open>Action_Client\<close> (\<open>hiroz/src/action/client.rs\<close>): the goal board of a client with its feedback
    and status channels; watch channels of tokio are a parameter. Shown: what the holder of
    a goal sees, which goals are on the board, and which status updates are lost.
  \<^item> \<open>Clock\<close> (\<open>hiroz/src/time.rs\<close>): instants, both clocks, sleeping and intervals; tokio's
    \<open>Notify\<close> is a parameter with its documented laws. Shown: a sleeper on a simulated clock
    returns when its deadline is reached, in every fair interleaving, and never before.
  \<^item> \<open>Local_Bus\<close> (\<open>hiroz/src/local_bus.rs\<close>, \<open>reentrancy.rs\<close>, the routes of \<open>pubsub.rs\<close>): delivery
    inside a process, where callbacks may publish, subscribe and panic. Shown: who is called
    by a publish, that chains of deliveries end at the depth limit, that a refused publish
    has no effect, and when two endpoints share a channel.
  \<^item> \<open>Events\<close>, \<open>Graph\<close> (\<open>hiroz/src/event.rs\<close>, \<open>graph.rs\<close>, \<open>entity.rs\<close>): the counters of the
    endpoint events, and the discovery graph fed by liveliness tokens that appear and
    disappear. The weak-reference slab and the upgrade of its references are a parameter
    with a named hypothesis. Shown: every trigger is counted and every change handed out
    once, and for canonical tokens the graph answers exactly for the tokens alive, unless
    somebody else still holds an entity whose token went away.
  \<^item> \<open>Interface_Parser\<close>, \<open>Type_Schema\<close>, \<open>Type_Resolver\<close>, \<open>Type_Resolution\<close>
    (\<open>hiroz-codegen/src/parser\<close>, \<open>types.rs\<close>, \<open>hashing.rs\<close>, \<open>resolver.rs\<close>, \<open>hiroz-schema/src\<close>):
    from the text of an interface definition to the hash that identifies its type on the
    wire. Parsing of doubles, the JSON printer, SHA-256 and hexadecimal text are parameters.
    Shown: definitions in the documented syntax are parsed into what they say, where the
    parser loses fields or panics, that the resolution of dependencies ends, which sets of
    messages it resolves, that the result does not depend on the order of the files, that a
    hash covers exactly the types a message reaches, and which types share a hash.

  \<^bold>\<open>Conventions.\<close> A struct is a record, an enum a datatype, a HashMap an association list with
  distinct keys, a BTreeMap an ordered one, a string its list of bytes. Unsigned and signed
  integers keep their width wherever the code computes with them, signed ones as words read
  with \<open>sint\<close>. A panic is a value, \<open>Panic\<close>, so absence of panics is a theorem. Code between
  taking and releasing a lock is one function and one step. Functions are total: recursion
  on nested data is proved to terminate and no fuel is needed, except where the code follows
  references between types: there a depth is counted, and the theorems show that the limit
  is never reached on the states the resolver builds. Instants and counters are
  natural numbers without an upper bound.

  \<^bold>\<open>Not modelled.\<close> Zenoh, tokio and serde themselves; sessions, nodes and the publishers and
  subscribers built from them, which are calls into Zenoh; buffer groups, the parameter
  client and its YAML files; text generators, language bindings, the RMW layer, tools, tests and examples.
\<close>

end
